(* ===== verification/Kylin_Prelude.thy ===== *)
theory Kylin_Prelude
  imports Main "HOL-Library.Word" "HOL-Library.Monad_Syntax"
begin

unbundle bit_operations_syntax

section \<open>Prelude: machine types, error codes, buffers\<close>

text \<open>
  What every component of the library shares: the C integer types of
  \<^verbatim>\<open>include/kylin.h\<close> as words of their width, the error codes of
  \<^verbatim>\<open>include/utils/kylin_error.h\<close>, the memory block that
  \<^verbatim>\<open>kylin_malloc\<close> returns, and \<^verbatim>\<open>memcpy\<close> on such a block.
  A block is the list of its cells; an access that leaves the block, the dereference of
  a null pointer and every other undefined behaviour of C is the value \<open>None\<close>.
\<close>

subsection \<open>Types\<close>

type_synonym kword = "64 word"
type_synonym ksize = "64 word"
type_synonym kbyte = "8 word"
type_synonym kerr = "32 word"
type_synonym kaddr = "64 word"

named_theorems kylin_defs \<open>definitions a component's proofs unfold\<close>
named_theorems buf_simps \<open>rewriting of reads and writes of memory blocks\<close>
named_theorems heap_simps \<open>rewriting of loads and stores of node heaps\<close>

subsection \<open>Error codes\<close>

abbreviation KYLIN_ERROR_OK :: kerr where "KYLIN_ERROR_OK \<equiv> 0"
abbreviation KYLIN_ERROR_NOENT :: kerr where "KYLIN_ERROR_NOENT \<equiv> 2"
abbreviation KYLIN_ERROR_NOMEM :: kerr where "KYLIN_ERROR_NOMEM \<equiv> 12"
abbreviation KYLIN_ERROR_BUSY :: kerr where "KYLIN_ERROR_BUSY \<equiv> 16"
abbreviation KYLIN_ERROR_EXIST :: kerr where "KYLIN_ERROR_EXIST \<equiv> 17"
abbreviation KYLIN_ERROR_INVAL :: kerr where "KYLIN_ERROR_INVAL \<equiv> 22"
abbreviation KYLIN_ERROR_NODATA :: kerr where "KYLIN_ERROR_NODATA \<equiv> 61"

subsection \<open>Memory blocks\<close>

definition kylin_malloc :: "bool \<Rightarrow> nat \<Rightarrow> 'a::zero list option" where
  "kylin_malloc ok n = (if ok then Some (replicate n 0) else None)"

definition buf_read :: "'a list \<Rightarrow> nat \<Rightarrow> nat \<Rightarrow> 'a list option" where
  "buf_read xs off n = (if off + n \<le> length xs then Some (take n (drop off xs)) else None)"

definition buf_write :: "'a list \<Rightarrow> nat \<Rightarrow> 'a list \<Rightarrow> 'a list option" where
  "buf_write xs off ys =
     (if off + length ys \<le> length xs
      then Some (take off xs @ ys @ drop (off + length ys) xs) else None)"

definition arr_get :: "'a list \<Rightarrow> nat \<Rightarrow> 'a option" where
  "arr_get xs i = (if i < length xs then Some (xs ! i) else None)"

definition arr_set :: "'a list \<Rightarrow> nat \<Rightarrow> 'a \<Rightarrow> 'a list option" where
  "arr_set xs i v = (if i < length xs then Some (xs[i := v]) else None)"

subsection \<open>Counted loops\<close>

text \<open>
  A \<^verbatim>\<open>for\<close> loop over the listed index values with a body that may fail, and a
  loop that leaves with false at the first index whose test fails.
\<close>

fun for_loop :: "nat list \<Rightarrow> (nat \<Rightarrow> 's \<Rightarrow> 's option) \<Rightarrow> 's \<Rightarrow> 's option" where
  "for_loop [] body s = Some s"
| "for_loop (i # is) body s = do { s' \<leftarrow> body i s; for_loop is body s' }"

fun all_loop :: "nat list \<Rightarrow> (nat \<Rightarrow> bool option) \<Rightarrow> bool option" where
  "all_loop [] test = Some True"
| "all_loop (i # is) test = do { b \<leftarrow> test i; if b then all_loop is test else Some False }"

text \<open>A loop that leaves at the first listed index whose test holds.\<close>

fun find_loop :: "nat list \<Rightarrow> (nat \<Rightarrow> bool option) \<Rightarrow> nat option option" where
  "find_loop [] test = Some None"
| "find_loop (i # is) test = do { b \<leftarrow> test i; if b then Some (Some i) else find_loop is test }"

lemma find_loop_find:
  assumes "\<And>i. i \<in> set is \<Longrightarrow> test i = Some (P i)"
  shows "find_loop is test = Some (find P is)"
  using assms by (induction "is") auto

text \<open>
  The same loops with a counter of type \<^verbatim>\<open>int\<close> that runs from \<open>i\<close> below a bound of type \<^verbatim>\<open>size_t\<close>: counting past \<open>2 ^ 31 - 1\<close>
  is undefined.
\<close>

definition int_find :: "nat \<Rightarrow> nat \<Rightarrow> (nat \<Rightarrow> bool option) \<Rightarrow> nat option option" where
  "int_find i n test =
     (if int n < 2 ^ 31 then find_loop [i..<n] test
      else do {
        r \<leftarrow> find_loop [i..<2 ^ 31] test;
        if r = None \<and> i < 2 ^ 31 then None else Some r })"

definition int_for :: "nat \<Rightarrow> nat \<Rightarrow> (nat \<Rightarrow> 's \<Rightarrow> 's option) \<Rightarrow> 's \<Rightarrow> 's option" where
  "int_for i n body s =
     (if int n < 2 ^ 31 then for_loop [i..<n] body s
      else do {
        s \<leftarrow> for_loop [i..<2 ^ 31] body s;
        if i < 2 ^ 31 then None else Some s })"

lemma int_find_small: "n < 2 ^ 31 \<Longrightarrow> int_find i n test = find_loop [i..<n] test"
  by (simp add: int_find_def)

lemma int_for_small: "n < 2 ^ 31 \<Longrightarrow> int_for i n body s = for_loop [i..<n] body s"
  by (simp add: int_for_def)

lemma takeWhile_length_lt: "length (takeWhile P xs) < length xs \<longleftrightarrow> \<not> (\<forall>x \<in> set xs. P x)"
  by (induction xs) auto

lemma find_upt_nth:
  "find (\<lambda>i. P (xs ! i)) [0..<length xs] =
     (let n = length (takeWhile (\<lambda>x. \<not> P x) xs) in if n < length xs then Some n else None)"
proof (cases "length (takeWhile (\<lambda>x. \<not> P x) xs) < length xs")
  case True
  let ?n = "length (takeWhile (\<lambda>x. \<not> P x) xs)"
  have "P (xs ! ?n)" using nth_length_takeWhile [OF True] by simp
  moreover have "\<not> P (xs ! j)" if "j < ?n" for j
    using that by (metis nth_mem set_takeWhileD takeWhile_nth)
  ultimately have "find (\<lambda>i. P (xs ! i)) [0..<length xs] = Some ?n"
    using True by (subst find_Some_iff) auto
  with True show ?thesis by simp
next
  case False
  then have "takeWhile (\<lambda>x. \<not> P x) xs = xs"
    by (metis takeWhile_eq_take take_all not_less)
  then have "\<not> P x" if "x \<in> set xs" for x using that by (metis set_takeWhileD)
  then have "find (\<lambda>i. P (xs ! i)) [0..<length xs] = None" by (simp add: find_None_iff)
  with False show ?thesis by simp
qed

lemma for_loop_fill:
  assumes "\<forall>i \<in> set is. i + c < L"
    and "\<And>i d. i \<in> set is \<Longrightarrow> length d = L \<Longrightarrow> body i d = Some (d[i + c := g i])"
    and "length d = L" and "distinct is"
  shows "\<exists>d'. for_loop is body d = Some d' \<and> length d' = L \<and>
    (\<forall>j < L. d' ! j = (if c \<le> j \<and> j - c \<in> set is then g (j - c) else d ! j))"
  using assms
proof (induction "is" arbitrary: d)
  case Nil
  then show ?case by simp
next
  case (Cons i "is")
  let ?d = "d[i + c := g i]"
  have b: "body i d = Some ?d" using Cons.prems by simp
  have "\<exists>d'. for_loop is body ?d = Some d' \<and> length d' = L \<and>
    (\<forall>j < L. d' ! j = (if c \<le> j \<and> j - c \<in> set is then g (j - c) else ?d ! j))"
    using Cons.prems by (intro Cons.IH) simp_all
  then obtain d' where d': "for_loop is body ?d = Some d'" "length d' = L"
    "\<forall>j < L. d' ! j = (if c \<le> j \<and> j - c \<in> set is then g (j - c) else ?d ! j)" by blast
  have "d' ! j = (if c \<le> j \<and> j - c \<in> set (i # is) then g (j - c) else d ! j)" if "j < L" for j
  proof (cases "j = i + c")
    case True
    with that d'(3) Cons.prems show ?thesis by simp
  next
    case False
    then have "\<not> (c \<le> j \<and> j - c = i)" by arith
    with False that d'(3) show ?thesis by (auto simp: nth_list_update)
  qed
  with b d' show ?case by simp
qed

lemma all_loop_all:
  assumes "\<And>i. i \<in> set is \<Longrightarrow> test i = Some (P i)"
  shows "all_loop is test = Some (\<forall>i \<in> set is. P i)"
  using assms by (induction "is") auto

subsection \<open>Sequences of byte transfers\<close>

text \<open>The operations a client issues on a queue or stack of bytes, and the run of a sequence of them.\<close>

datatype byte_op = Put "kbyte list" | Get nat

fun run_ops :: "('q \<Rightarrow> kbyte list \<Rightarrow> 'q option) \<Rightarrow> ('q \<Rightarrow> nat \<Rightarrow> (kbyte list \<times> 'q) option)
    \<Rightarrow> 'q \<Rightarrow> byte_op list \<Rightarrow> (kbyte list list \<times> 'q) option" where
  "run_ops put get q [] = Some ([], q)"
| "run_ops put get q (Put bs # ops) = do { q \<leftarrow> put q bs; run_ops put get q ops }"
| "run_ops put get q (Get n # ops) =
     do { (bs, q) \<leftarrow> get q n; (outs, q) \<leftarrow> run_ops put get q ops; Some (bs # outs, q) }"

subsection \<open>Reads and writes\<close>

lemma length_buf_write: "buf_write xs off ys = Some zs \<Longrightarrow> length zs = length xs"
  by (auto simp: buf_write_def split: if_splits)

lemma length_buf_read: "buf_read xs off n = Some ys \<Longrightarrow> length ys = n"
  by (auto simp: buf_read_def split: if_splits)

lemma buf_write_some [buf_simps]:
  "off + length ys \<le> length xs \<Longrightarrow>
   buf_write xs off ys = Some (take off xs @ ys @ drop (off + length ys) xs)"
  by (simp add: buf_write_def)

lemma buf_read_some [buf_simps]:
  "off + n \<le> length xs \<Longrightarrow> buf_read xs off n = Some (take n (drop off xs))"
  by (simp add: buf_read_def)

lemma buf_read_write_same:
  "buf_write xs off ys = Some zs \<Longrightarrow> buf_read zs off (length ys) = Some ys"
  by (auto simp: buf_write_def buf_read_def split: if_splits)

lemma buf_write_nth:
  assumes "buf_write xs off ys = Some zs" and "i < length xs"
  shows "zs ! i = (if off \<le> i \<and> i < off + length ys then ys ! (i - off) else xs ! i)"
  using assms by (auto simp: buf_write_def nth_append split: if_splits)

lemma arr_get_some [simp]: "i < length xs \<Longrightarrow> arr_get xs i = Some (xs ! i)"
  by (simp add: arr_get_def)

lemma arr_get_none [simp]: "length xs \<le> i \<Longrightarrow> arr_get xs i = None"
  by (simp add: arr_get_def)

lemma arr_set_some [simp]: "i < length xs \<Longrightarrow> arr_set xs i v = Some (xs[i := v])"
  by (simp add: arr_set_def)

lemma all_loop_nth:
  "n \<le> length us \<Longrightarrow>
   all_loop [0..<n] (\<lambda>i. do { a \<leftarrow> arr_get us i; Some (P a) }) = Some (\<forall>k < n. P (us ! k))"
  by (subst all_loop_all [where P = "\<lambda>k. P (us ! k)"]) auto

lemma all_loop_nth2:
  "n \<le> length us \<Longrightarrow> n \<le> length vs \<Longrightarrow>
   all_loop [0..<n] (\<lambda>i. do { a \<leftarrow> arr_get us i; b \<leftarrow> arr_get vs i; Some (P a b) })
     = Some (\<forall>k < n. P (us ! k) (vs ! k))"
  by (subst all_loop_all [where P = "\<lambda>k. P (us ! k) (vs ! k)"]) auto

subsection \<open>Words as numbers\<close>

lemma unat_add_noflow:
  fixes a b :: "'a::len word"
  assumes "unat a + unat b < 2 ^ LENGTH('a)"
  shows "unat (a + b) = unat a + unat b"
  using assms by (simp add: unat_word_ariths)

lemma unat_and_mask_eq_mod:
  fixes x :: "'a::len word"
  shows "unat (x AND mask k) = unat x mod 2 ^ k"
  proof -
  have "unat (x AND mask k) = unat (take_bit k x)"
    by (simp only: take_bit_eq_mask)
  then show ?thesis
    by (simp only: unsigned_take_bit_eq) (simp add: take_bit_eq_mod)
qed

lemma unat_pow2:
  assumes "k < LENGTH('a)"
  shows "unat (2 ^ k :: 'a::len word) = 2 ^ k"
proof -
  have "unat (2 ^ k :: 'a word) = unat (word_of_nat (2 ^ k) :: 'a word)"
    by simp
  also have "\<dots> = 2 ^ k mod 2 ^ LENGTH('a)"
    by (simp only: unat_of_nat)
  also have "\<dots> = 2 ^ k"
    using assms by simp
  finally show ?thesis .
qed

lemma word_eq_iff_unat: "(a = b) = (unat a = unat (b :: 'a::len word))"
  by (simp add: word_unat_eq_iff)

lemma transfer_len_ok:
  assumes "n < 2 ^ 31"
  shows "unat (of_nat n :: ksize) = n" "(ucast (of_nat n :: ksize) :: 32 word) \<noteq> -1"
proof -
  show u: "unat (of_nat n :: ksize) = n" using assms by (simp add: unat_of_nat)
  have "unat (ucast (of_nat n :: ksize) :: 32 word) = n"
    using assms u by (simp add: unsigned_ucast_eq take_bit_nat_eq_self)
  moreover have "unat (-1 :: 32 word) = 2 ^ 32 - 1" by (simp add: unsigned_minus_1_eq_mask mask_eq_exp_minus_1)
  ultimately show "(ucast (of_nat n :: ksize) :: 32 word) \<noteq> -1" using assms by auto
qed

end
