(* ===== verification/Kylin_Bitops.thy ===== *)
theory Kylin_Bitops
  imports Kylin_Prelude
begin

section \<open>Bit operations and byte order\<close>

text \<open>
  \<^verbatim>\<open>kylin_is_pow_of_two\<close> (include/kylin.h), the bit scans of
  include/arch/x86/kylin_bitops.h, the power-of-two roundings of
  include/arch/kylin_bitops.h and the byte swaps of include/arch/kylin_byteorder.h.
  The instructions \<^verbatim>\<open>bsf\<close> and \<^verbatim>\<open>bsr\<close> leave their destination
  undefined for the source 0, and C leaves a shift by 64 or more undefined: both are
  \<open>None\<close> here.
\<close>

subsection \<open>Definitions\<close>

definition kylin_is_pow_of_two :: "kword \<Rightarrow> bool" where
  "kylin_is_pow_of_two n \<longleftrightarrow> n \<noteq> 0 \<and> n AND (n - 1) = 0"

definition bsf :: "kword \<Rightarrow> nat option" where
  "bsf w = (if w = 0 then None else Some (length (takeWhile (\<lambda>i. \<not> bit w i) [0..<64])))"

definition bsr :: "kword \<Rightarrow> nat option" where
  "bsr w = (if w = 0 then None
            else Some (64 - 1 - length (takeWhile (\<lambda>i. \<not> bit w i) (rev [0..<64]))))"

definition kylin_ffs :: "kword \<Rightarrow> kword option" where
  "kylin_ffs word = (if word = 0 then Some (NOT 0) else map_option of_nat (bsf word))"

definition kylin_ffz :: "kword \<Rightarrow> kword option" where
  "kylin_ffz word =
     (if word XOR NOT 0 \<noteq> 0 then map_option of_nat (bsf (NOT word)) else Some (NOT 0))"

definition kylin_fls :: "kword \<Rightarrow> kword option" where
  "kylin_fls word = map_option of_nat (bsr word)"

definition shl1 :: "kword \<Rightarrow> kword option" where
  "shl1 s = (if s < 64 then Some (push_bit (unat s) 1) else None)"

definition kylin_roundup_pow_of_two :: "kword \<Rightarrow> kword option" where
  "kylin_roundup_pow_of_two word = do { s \<leftarrow> kylin_fls (word - 1); shl1 s }"

definition kylin_rounddown_pow_of_two :: "kword \<Rightarrow> kword option" where
  "kylin_rounddown_pow_of_two word = do { s \<leftarrow> kylin_fls word; shl1 (s - 1) }"

definition KYLIN_STATIC_BSWAP16 :: "16 word \<Rightarrow> 16 word" where
  "KYLIN_STATIC_BSWAP16 v = push_bit 8 (v AND 0x00ff) OR drop_bit 8 (v AND 0xff00)"

definition KYLIN_STATIC_BSWAP32 :: "32 word \<Rightarrow> 32 word" where
  "KYLIN_STATIC_BSWAP32 v =
     push_bit 24 (v AND 0x000000ff) OR push_bit 8 (v AND 0x0000ff00) OR
     drop_bit 8 (v AND 0x00ff0000) OR drop_bit 24 (v AND 0xff000000)"

definition KYLIN_STATIC_BSWAP64 :: "64 word \<Rightarrow> 64 word" where
  "KYLIN_STATIC_BSWAP64 v =
     push_bit 56 (v AND 0x00000000000000ff) OR push_bit 40 (v AND 0x000000000000ff00) OR
     push_bit 24 (v AND 0x0000000000ff0000) OR push_bit 8 (v AND 0x00000000ff000000) OR
     drop_bit 8 (v AND 0x000000ff00000000) OR drop_bit 24 (v AND 0x0000ff0000000000) OR
     drop_bit 40 (v AND 0x00ff000000000000) OR drop_bit 56 (v AND 0xff00000000000000)"

subsection \<open>Powers of two\<close>

lemma and_pred_nat_pow2:
  fixes a :: nat
  shows "0 < a \<Longrightarrow> a AND (a - 1) = 0 \<Longrightarrow> \<exists>k. a = 2 ^ k"
proof (induction a rule: less_induct)
  case (less a)
  show ?case
  proof (cases "even a")
    case True
    then obtain b where b: "a = 2 * b" by (elim evenE)
    with less.prems have pos: "0 < b" by simp
    have "odd (a - 1)" "(a - 1) div 2 = b - 1" using b pos by auto
    then have "a AND (a - 1) = 2 * (b AND (b - 1))"
      using b by (subst and_rec) auto
    with less.prems pos b less.IH [of b] obtain k where "b = 2 ^ k" by auto
    with b show ?thesis by (metis power_Suc)
  next
    case False
    then obtain b where b: "a = 2 * b + 1" by (elim oddE)
    have "a AND (a - 1) = 2 * (b AND b)"
      using b by (subst and_rec) auto
    with less.prems b have "b = 0" by simp
    with b show ?thesis by (metis mult_0_right add_0 power_0)
  qed
qed

lemma pow2_and_pred_nat:
  shows "(2 ^ k :: nat) AND (2 ^ k - 1) = 0"
proof -
  have "(2 ^ k :: nat) AND (2 ^ k - 1) = take_bit k (2 ^ k)"
    by (simp add: take_bit_eq_mask mask_eq_exp_minus_1)
  then show ?thesis by simp
qed

lemma pow2_and_pred_word:
  "n \<noteq> 0 \<Longrightarrow> unat (n AND (n - 1)) = unat n AND (unat n - 1)" for n :: "'a::len word"
  by (simp add: unsigned_and_eq unat_minus_one)

lemma kylin_is_pow_of_two_iff:
  "kylin_is_pow_of_two n \<longleftrightarrow> (\<exists>k < 64. n = 2 ^ k)"
proof
  assume p: "kylin_is_pow_of_two n"
  then have nz: "n \<noteq> 0" and a: "n AND (n - 1) = 0" by (auto simp: kylin_is_pow_of_two_def)
  then have "0 < unat n" "unat n AND (unat n - 1) = 0"
    using pow2_and_pred_word [OF nz] by (auto simp: unat_gt_0)
  then obtain k where k: "unat n = 2 ^ k" using and_pred_nat_pow2 by blast
  have "unat n < 2 ^ 64" using unsigned_less [of n] by simp
  with k have "(2::nat) ^ k < 2 ^ 64" by simp
  then have k64: "k < 64" by (simp only: power_strict_increasing_iff one_less_numeral_iff semiring_norm)
  have "n = 2 ^ k" using k k64 by (simp add: word_eq_iff_unat unat_pow2)
  with k64 show "\<exists>k < 64. n = 2 ^ k" by blast
next
  assume "\<exists>k < 64. n = 2 ^ k"
  then obtain k where k: "k < 64" "n = 2 ^ k" by blast
  then have u: "unat n = 2 ^ k" by (simp add: unat_pow2)
  then have nz: "n \<noteq> 0" by (metis unat_0 power_not_zero zero_neq_numeral)
  have "unat (n AND (n - 1)) = 0"
    using pow2_and_pred_word [OF nz] u pow2_and_pred_nat by metis
  with nz show "kylin_is_pow_of_two n" by (simp add: kylin_is_pow_of_two_def unat_eq_zero)
qed

lemma word_nonzero_bit: "w \<noteq> 0 \<Longrightarrow> \<exists>i < 64. bit w i" for w :: kword
proof -
  assume "w \<noteq> 0"
  then have "\<exists>i. bit w i" by (metis bit_0_eq bot_apply bit_eq_iff bot_bool_def)
  then obtain i where "bit w i" by blast
  moreover from this have "i < 64" using bit_imp_le_length by fastforce
  ultimately show ?thesis by blast
qed

lemma takeWhile_stops:
  assumes "\<exists>x \<in> set xs. \<not> P x"
  shows "length (takeWhile P xs) < length xs \<and> \<not> P (xs ! length (takeWhile P xs))
    \<and> (\<forall>j < length (takeWhile P xs). P (xs ! j))"
proof -
  let ?l = "length (takeWhile P xs)"
  have "?l \<noteq> length xs"
    using assms by (metis takeWhile_eq_all_conv takeWhile_eq_take take_all_iff order_refl)
  then have l: "?l < length xs" using length_takeWhile_le [of P xs] by simp
  moreover from this have "\<not> P (xs ! ?l)" by (rule nth_length_takeWhile)
  moreover have "P (xs ! j)" if "j < ?l" for j
    using that by (metis nth_mem set_takeWhileD takeWhile_nth)
  ultimately show ?thesis by blast
qed

lemma scan_up:
  assumes "\<exists>i < n. P i"
  defines "l \<equiv> length (takeWhile (\<lambda>i. \<not> P i) [0..<n])"
  shows "l < n \<and> P l \<and> (\<forall>j < l. \<not> P j)"
proof -
  from assms(1) have "\<exists>x \<in> set [0..<n]. \<not> (\<not> P x)" by auto
  from takeWhile_stops [OF this, folded l_def]
  have t: "l < n" "P ([0..<n] ! l)" "\<forall>j < l. \<not> P ([0..<n] ! j)" by auto
  then show ?thesis by simp
qed

lemma scan_down:
  assumes "\<exists>i < n. P i"
  defines "l \<equiv> n - 1 - length (takeWhile (\<lambda>i. \<not> P i) (rev [0..<n]))"
  shows "l < n \<and> P l \<and> (\<forall>j < n. l < j \<longrightarrow> \<not> P j)"
proof -
  let ?t = "length (takeWhile (\<lambda>i. \<not> P i) (rev [0..<n]))"
  from assms(1) have "\<exists>x \<in> set (rev [0..<n]). \<not> (\<not> P x)" by auto
  from takeWhile_stops [OF this] have t: "?t < n" "P (rev [0..<n] ! ?t)"
    and below: "\<And>j. j < ?t \<Longrightarrow> \<not> P (rev [0..<n] ! j)" by simp_all
  have r: "rev [0..<n] ! j = n - 1 - j" if "j < n" for j using that by (simp add: rev_nth)
  have "\<not> P j" if "j < n" "l < j" for j
    using that below [of "n - 1 - j"] r [of "n - 1 - j"] t(1) by (simp add: l_def)
  with t r [OF t(1)] show ?thesis by (simp add: l_def)
qed

lemma bsf_spec:
  assumes "bsf w = Some k"
  shows "k < 64 \<and> bit w k \<and> (\<forall>j < k. \<not> bit w j)"
proof -
  from assms have nz: "w \<noteq> 0" and k: "k = length (takeWhile (\<lambda>i. \<not> bit w i) [0..<64])"
    by (auto simp only: bsf_def option.inject option.distinct split: if_splits)
  show ?thesis unfolding k by (rule scan_up [OF word_nonzero_bit [OF nz]])
qed

lemma bsr_spec:
  assumes "bsr w = Some k"
  shows "k < 64 \<and> bit w k \<and> (\<forall>j > k. \<not> bit w j)"
proof -
  from assms have nz: "w \<noteq> 0"
    and k: "k = 64 - 1 - length (takeWhile (\<lambda>i. \<not> bit w i) (rev [0..<64]))"
    by (auto simp only: bsr_def option.inject option.distinct split: if_splits)
  have "k < 64 \<and> bit w k \<and> (\<forall>j < 64. k < j \<longrightarrow> \<not> bit w j)"
    unfolding k by (rule scan_down [OF word_nonzero_bit [OF nz]])
  moreover have "\<not> bit w j" if "64 \<le> j" for j
    using that bit_imp_le_length [of w j] by auto
  ultimately show ?thesis by (meson not_le)
qed

lemma bit_unat_bounds:
  assumes "bit w k" and "\<forall>j > k. \<not> bit w j"
  shows "2 ^ k \<le> unat w \<and> unat w < 2 ^ Suc k"
proof
  have "odd (unat w div 2 ^ k)"
    using assms(1) bit_unsigned_iff [of w k, where ?'a = nat]
    by (simp add: bit_iff_odd [of "unat w"])
  then have "1 \<le> unat w div 2 ^ k" by (metis odd_pos Suc_leI One_nat_def)
  then show "2 ^ k \<le> unat w" by (metis div_less not_one_le_zero not_le)
next
  have "take_bit (Suc k) w = w"
  proof (rule bit_eqI)
    fix n
    show "bit (take_bit (Suc k) w) n = bit w n"
      using assms(2) by (cases "n < Suc k") (simp_all add: bit_take_bit_iff)
  qed
  then have "unat w = unat (take_bit (Suc k) w)" by (simp only:)
  also have "\<dots> = take_bit (Suc k) (unat w)" by (rule unsigned_take_bit_eq)
  also have "\<dots> < 2 ^ Suc k" by (rule take_bit_nat_less_exp)
  finally show "unat w < 2 ^ Suc k" .
qed

lemma push_bit_one_pow: "push_bit k (1 :: 'a::len word) = 2 ^ k"
  by (simp add: push_bit_eq_mult)

lemma of_nat_lt_64: "k < 64 \<Longrightarrow> (of_nat k :: kword) < 64 \<and> unat (of_nat k :: kword) = k"
  by (simp add: word_less_nat_alt unat_of_nat)

lemma roundup_pow_of_two_spec:
  assumes "2 \<le> n"
  shows "\<exists>k < 64. kylin_roundup_pow_of_two n = Some (2 ^ k)
           \<and> 2 ^ k < unat n \<and> unat n \<le> 2 ^ Suc k"
proof -
  have n2: "2 \<le> unat n" using assms by (simp add: word_le_nat_alt)
  then have n1: "unat (n - 1) = unat n - 1"
    by (metis unat_minus_one unat_0 not_numeral_le_zero)
  have "n - 1 \<noteq> 0" using n1 n2 by (metis unat_0 diff_is_0_eq not_numeral_le_zero
        numeral_le_one_iff semiring_norm(69) order.trans)
  then obtain k where k: "bsr (n - 1) = Some k" by (simp add: bsr_def)
  from bsr_spec [OF k] have b: "k < 64" "bit (n - 1) k" "\<forall>j > k. \<not> bit (n - 1) j" by auto
  from bit_unat_bounds [OF b(2,3)] n1 n2 have "2 ^ k < unat n" "unat n \<le> 2 ^ Suc k" by auto
  moreover have "kylin_roundup_pow_of_two n = Some (2 ^ k)"
    using k of_nat_lt_64 [OF b(1)]
    by (simp add: kylin_roundup_pow_of_two_def kylin_fls_def shl1_def push_bit_one_pow)
  ultimately show ?thesis using b(1) by blast
qed

lemma kylin_ffs_spec:
  assumes "w \<noteq> 0"
  shows "\<exists>k < 64. kylin_ffs w = Some (of_nat k) \<and> bit w k \<and> (\<forall>j < k. \<not> bit w j)"
proof -
  obtain k where k: "bsf w = Some k" using assms by (simp add: bsf_def)
  then show ?thesis using assms bsf_spec [OF k] by (auto simp: kylin_ffs_def)
qed

lemma kylin_ffz_spec:
  assumes "w \<noteq> NOT 0"
  shows "\<exists>k < 64. kylin_ffz w = Some (of_nat k) \<and> \<not> bit w k \<and> (\<forall>j < k. bit w j)"
proof -
  have "w XOR NOT 0 = NOT w" by simp
  with assms have nz: "w XOR NOT 0 \<noteq> 0" "NOT w \<noteq> 0"
    by (metis bit.double_compl)+
  then obtain k where k: "bsf (NOT w) = Some k" by (simp add: bsf_def)
  from bsf_spec [OF k] have "k < 64" "\<not> bit w k" "\<forall>j < k. bit w j"
    by (auto simp: bit_not_iff)
  with k nz show ?thesis by (auto simp: kylin_ffz_def)
qed

lemma byte_masks:
  "(0x00ff :: 16 word) = mask 8" "(0xff00 :: 16 word) = push_bit 8 (mask 8)"
  "(0xff :: 32 word) = mask 8" "(0xff00 :: 32 word) = push_bit 8 (mask 8)"
  "(0xff0000 :: 32 word) = push_bit 16 (mask 8)" "(0xff000000 :: 32 word) = push_bit 24 (mask 8)"
  by (simp_all add: mask_eq_exp_minus_1 push_bit_eq_mult)

lemma byte_masks64:
  "(0xff :: 64 word) = mask 8" "(0xff00 :: 64 word) = push_bit 8 (mask 8)"
  "(0xff0000 :: 64 word) = push_bit 16 (mask 8)" "(0xff000000 :: 64 word) = push_bit 24 (mask 8)"
  "(0xff00000000 :: 64 word) = push_bit 32 (mask 8)"
  "(0xff0000000000 :: 64 word) = push_bit 40 (mask 8)"
  "(0xff000000000000 :: 64 word) = push_bit 48 (mask 8)"
  "(0xff00000000000000 :: 64 word) = push_bit 56 (mask 8)"
  by (simp_all add: mask_eq_exp_minus_1 push_bit_eq_mult)

lemma byte_index_cases:
  assumes "i < 8 * n"
  obtains b j where "i = 8 * b + j" "b < n" "j < (8::nat)"
  by (rule that [of "i div 8" "i mod 8"]) (use assms in auto)

lemma bit_bswap16:
  assumes "b < 2" "j < 8"
  shows "bit (KYLIN_STATIC_BSWAP16 v) (8 * b + j) \<longleftrightarrow> bit v (8 * (1 - b) + j)"
proof -
  from assms(1) consider "b = 0" | "b = 1" by linarith
  then show ?thesis
    unfolding KYLIN_STATIC_BSWAP16_def byte_masks
    by cases (use assms(2) in \<open>auto simp: bit_simps\<close>)
qed

lemma bit_bswap32:
  assumes "b < 4" "j < 8"
  shows "bit (KYLIN_STATIC_BSWAP32 v) (8 * b + j) \<longleftrightarrow> bit v (8 * (3 - b) + j)"
proof -
  from assms(1) consider "b = 0" | "b = 1" | "b = 2" | "b = 3" by linarith
  then show ?thesis
    unfolding KYLIN_STATIC_BSWAP32_def byte_masks
    by cases (use assms(2) in \<open>auto simp: bit_simps\<close>)
qed

lemma bit_bswap64:
  assumes "b < 8" "j < 8"
  shows "bit (KYLIN_STATIC_BSWAP64 v) (8 * b + j) \<longleftrightarrow> bit v (8 * (7 - b) + j)"
proof -
  from assms(1) consider "b = 0" | "b = 1" | "b = 2" | "b = 3" | "b = 4" | "b = 5" | "b = 6" | "b = 7"
    by linarith
  then show ?thesis
    unfolding KYLIN_STATIC_BSWAP64_def byte_masks64
    by cases (use assms(2) in \<open>auto simp: bit_simps\<close>)
qed

lemma bswap32_involution: "KYLIN_STATIC_BSWAP32 (KYLIN_STATIC_BSWAP32 v) = v"
proof (rule bit_word_eqI)
  fix i assume "i < LENGTH(32)"
  then have "i < 8 * 4" by simp
  then obtain b j where "i = 8 * b + j" "b < 4" "j < (8::nat)" by (rule byte_index_cases)
  then show "bit (KYLIN_STATIC_BSWAP32 (KYLIN_STATIC_BSWAP32 v)) i = bit v i"
    by (simp add: bit_bswap32)
qed

lemma bswap64_involution: "KYLIN_STATIC_BSWAP64 (KYLIN_STATIC_BSWAP64 v) = v"
proof (rule bit_word_eqI)
  fix i assume "i < LENGTH(64)"
  then have "i < 8 * 8" by simp
  then obtain b j where "i = 8 * b + j" "b < 8" "j < (8::nat)" by (rule byte_index_cases)
  then show "bit (KYLIN_STATIC_BSWAP64 (KYLIN_STATIC_BSWAP64 v)) i = bit v i"
    by (simp add: bit_bswap64)
qed

lemma bswap16_involution: "KYLIN_STATIC_BSWAP16 (KYLIN_STATIC_BSWAP16 v) = v"
proof (rule bit_word_eqI)
  fix i assume "i < LENGTH(16)"
  then have "i < 8 * 2" by simp
  then obtain b j where "i = 8 * b + j" "b < 2" "j < (8::nat)" by (rule byte_index_cases)
  then show "bit (KYLIN_STATIC_BSWAP16 (KYLIN_STATIC_BSWAP16 v)) i = bit v i"
    by (simp add: bit_bswap16)
qed

subsection \<open>Properties\<close>

text \<open>
  \<^verbatim>\<open>kylin_is_pow_of_two\<close> answers true exactly for the 64 powers of two that a
  word can hold.
\<close>

theorem kylin_is_pow_of_two_correct: "kylin_is_pow_of_two n = (\<exists>k < 64. unat n = 2 ^ k)"
proof -
  have "k < 64 \<Longrightarrow> unat (2 ^ k :: kword) = 2 ^ k" for k by (simp add: unat_pow2)
  then show ?thesis unfolding kylin_is_pow_of_two_iff by (metis word_eq_iff_unat)
qed

text \<open>
  \<^verbatim>\<open>kylin_roundup_pow_of_two\<close> returns, for every argument from 2, a power of two
  strictly below its argument (and at least half of it): it never rounds up, not even a
  power of two to itself, because the bit index of \<^verbatim>\<open>bsr\<close> counts from 0.
\<close>

theorem kylin_roundup_pow_of_two_rounds_down:
  assumes "2 \<le> n"
  shows "\<exists>r. kylin_roundup_pow_of_two n = Some r \<and> kylin_is_pow_of_two r
    \<and> r < n \<and> unat n \<le> 2 * unat r"
proof -
  from roundup_pow_of_two_spec [OF assms] obtain k where k: "k < 64"
    "kylin_roundup_pow_of_two n = Some (2 ^ k)" "2 ^ k < unat n" "unat n \<le> 2 ^ Suc k" by blast
  then have "unat (2 ^ k :: kword) = 2 ^ k" by (simp add: unat_pow2)
  then show ?thesis using k by (auto simp: kylin_is_pow_of_two_iff word_less_nat_alt)
qed

theorem kylin_roundup_pow_of_two_rounds_down_witness:
  "\<exists>r. kylin_roundup_pow_of_two 4 = Some r \<and> kylin_is_pow_of_two r
    \<and> r < 4 \<and> unat (4 :: kword) \<le> 2 * unat r"
  using kylin_roundup_pow_of_two_rounds_down [of 4] by simp

text \<open>
  The 32-bit byte swap puts byte \<open>b\<close> in the place of byte \<open>3 - b\<close>, and swapping twice
  gives the value back, for the swaps of all three widths.
\<close>

theorem KYLIN_STATIC_BSWAP_reverses:
  "(\<forall>b. \<forall>j. b < 4 \<and> j < 8 \<longrightarrow> bit (KYLIN_STATIC_BSWAP32 v) (8 * b + j) = bit v (8 * (3 - b) + j))
    \<and> KYLIN_STATIC_BSWAP32 (KYLIN_STATIC_BSWAP32 v) = v
    \<and> KYLIN_STATIC_BSWAP16 (KYLIN_STATIC_BSWAP16 u) = u
    \<and> KYLIN_STATIC_BSWAP64 (KYLIN_STATIC_BSWAP64 w) = w"
  by (simp add: bit_bswap32 bswap32_involution bswap16_involution bswap64_involution)

theorem KYLIN_STATIC_BSWAP_reverses_witness:
  "bit (KYLIN_STATIC_BSWAP32 1) 24 \<and> KYLIN_STATIC_BSWAP32 (KYLIN_STATIC_BSWAP32 1) = 1"
  using KYLIN_STATIC_BSWAP_reverses [of 1 0 0, THEN conjunct1, rule_format, of 3 0]
    KYLIN_STATIC_BSWAP_reverses [of 1 0 0] by simp

end
