(* ===== verification/Kylin_Bitmap.thy ===== *)
theory Kylin_Bitmap
  imports Kylin_Bitops
begin

section \<open>Bitmaps (lib/core/math/kylin_bitmap.c)\<close>

text \<open>
  A bitmap is its capacity in bits, its number of words and the words themselves.
  \<^verbatim>\<open>start\<close> is a C \<^verbatim>\<open>unsigned int\<close> and \<^verbatim>\<open>len\<close> a C
  \<^verbatim>\<open>int\<close>, both 32 bits wide, so that \<^verbatim>\<open>BITS_TO_WORDS(start + len)\<close>
  is computed modulo \<open>2 ^ 32\<close> as in the source. Every operation returns \<open>None\<close>
  where the source reads or writes outside \<^verbatim>\<open>val\<close>.
\<close>

subsection \<open>Definitions\<close>

record kbitmap_opts =
  cap :: ksize
  guard_ctor :: "(nat \<Rightarrow> kword list option) option"

record kbitmap =
  bm_opts :: kbitmap_opts
  bm_size :: nat
  bm_val :: "kword list"

definition BITS_TO_WORDS :: "'a::len word \<Rightarrow> nat" where
  "BITS_TO_WORDS bits = unat ((bits + 64 - 1) div 64)"

definition BITMAP_WORD_INDEX :: "32 word \<Rightarrow> nat" where
  "BITMAP_WORD_INDEX nr = unat (nr div 64)"

definition BITMAP_FIRST_WORD_MASK :: "32 word \<Rightarrow> kword" where
  "BITMAP_FIRST_WORD_MASK start = push_bit (unat (start AND 63)) (NOT 0)"

definition BITMAP_LAST_WORD_MASK :: "32 word \<Rightarrow> kword" where
  "BITMAP_LAST_WORD_MASK nbits = drop_bit (unat (- nbits AND 63)) (NOT 0)"

definition kylin_bitmap_create :: "bool \<Rightarrow> kbitmap_opts \<Rightarrow> kbitmap option" where
  "kylin_bitmap_create ok opts =
     (let len = BITS_TO_WORDS (cap opts)
      in case (case guard_ctor opts of Some ctor \<Rightarrow> ctor len | None \<Rightarrow> kylin_malloc ok len) of
           None \<Rightarrow> None
         | Some vs \<Rightarrow> Some \<lparr>bm_opts = opts, bm_size = len, bm_val = vs\<rparr>)"

definition kylin_bitmap_val :: "kbitmap \<Rightarrow> kword list" where
  "kylin_bitmap_val bm = bm_val bm"

definition kylin_bitmap_len :: "kbitmap \<Rightarrow> nat" where
  "kylin_bitmap_len bm = bm_size bm"

definition kylin_bitmap_loads :: "kbitmap_opts \<Rightarrow> kbyte list \<Rightarrow> kbitmap option" where
  "kylin_bitmap_loads opts buf = None"

definition kylin_bitmap_loadf :: "kbitmap_opts \<Rightarrow> kbyte list \<Rightarrow> kbitmap option" where
  "kylin_bitmap_loadf opts buf = None"

text \<open>
  The loop shared by \<^verbatim>\<open>kylin_bitmap_set\<close> and \<^verbatim>\<open>kylin_bitmap_clear\<close>:
  \<open>op\<close> is \<^verbatim>\<open>*val |= mask\<close> or \<^verbatim>\<open>*val &= ~mask\<close>, and the result is
  the words, the index \<^verbatim>\<open>val\<close> points at, the mask and the remaining length.
\<close>

partial_function (option) bitmap_range_loop ::
  "(kword \<Rightarrow> kword \<Rightarrow> kword) \<Rightarrow> kword list \<Rightarrow> nat \<Rightarrow> kword \<Rightarrow> int \<Rightarrow> int
   \<Rightarrow> (kword list \<times> nat \<times> kword \<times> int) option" where
  "bitmap_range_loop op vs i msk bits len =
     (if len - bits < - (2 ^ 31) then None
      else if len - bits \<ge> 0 then do {
        w \<leftarrow> arr_get vs i;
        bitmap_range_loop op (vs[i := op w msk]) (i + 1) (NOT 0) 64 (len - bits)
      } else Some (vs, i, msk, len))"

definition bitmap_range ::
  "(kword \<Rightarrow> kword \<Rightarrow> kword) \<Rightarrow> kbitmap \<Rightarrow> 32 word \<Rightarrow> 32 word \<Rightarrow> (kerr \<times> kbitmap) option" where
  "bitmap_range op bm start len =
     (if BITS_TO_WORDS start > bm_size bm \<or> BITS_TO_WORDS (start + len) > bm_size bm
      then Some (KYLIN_ERROR_INVAL, bm)
      else do {
        (vs, i, msk, rest) \<leftarrow>
          bitmap_range_loop op (bm_val bm) (BITMAP_WORD_INDEX start)
            (BITMAP_FIRST_WORD_MASK start) (64 - uint (start mod 64)) (sint len);
        if rest \<noteq> 0 then do {
          w \<leftarrow> arr_get vs i;
          Some (KYLIN_ERROR_OK, bm\<lparr>bm_val :=
            vs[i := op w (msk AND BITMAP_LAST_WORD_MASK (start + word_of_int rest))]\<rparr>)
        } else Some (KYLIN_ERROR_OK, bm\<lparr>bm_val := vs\<rparr>)
      })"

definition kylin_bitmap_set :: "kbitmap \<Rightarrow> 32 word \<Rightarrow> 32 word \<Rightarrow> (kerr \<times> kbitmap) option" where
  "kylin_bitmap_set = bitmap_range (\<lambda>w msk. w OR msk)"

definition kylin_bitmap_clear :: "kbitmap \<Rightarrow> 32 word \<Rightarrow> 32 word \<Rightarrow> (kerr \<times> kbitmap) option" where
  "kylin_bitmap_clear = bitmap_range (\<lambda>w msk. w AND NOT msk)"

definition kylin_bitmap_copy :: "kbitmap \<Rightarrow> kbitmap \<Rightarrow> nat \<Rightarrow> (kerr \<times> kbitmap) option" where
  "kylin_bitmap_copy dst src n =
     (if n > bm_size src \<or> n > bm_size dst then Some (KYLIN_ERROR_INVAL, dst)
      else do {
        ws \<leftarrow> buf_read (bm_val src) 0 n;
        vs \<leftarrow> buf_write (bm_val dst) 0 ws;
        Some (KYLIN_ERROR_OK, dst\<lparr>bm_val := vs\<rparr>)
      })"

text \<open>The result of \<^verbatim>\<open>kylin_bitmap_dup\<close>: undefined, or a pointer that may be null.\<close>

definition kylin_bitmap_dup :: "bool \<Rightarrow> kbitmap \<Rightarrow> kbitmap option option" where
  "kylin_bitmap_dup ok bm =
     (case kylin_bitmap_create ok (bm_opts bm) of
        None \<Rightarrow> Some None
      | Some d \<Rightarrow> do {
          (err, d') \<leftarrow> kylin_bitmap_copy d bm (bm_size bm);
          Some (if err \<noteq> KYLIN_ERROR_OK then None else Some d')
        })"

text \<open>The loop bodies of the two shifts: the word written at \<open>i\<close> of \<^verbatim>\<open>dst\<close>.\<close>

definition shift_right_word :: "kword list \<Rightarrow> nat \<Rightarrow> nat \<Rightarrow> nat \<Rightarrow> nat \<Rightarrow> kword option" where
  "shift_right_word vs n offset remainder i = do {
     upper \<leftarrow> (if remainder = 0 \<or> offset + i + 1 \<ge> n then Some 0
              else do { w \<leftarrow> arr_get vs (offset + i + 1); Some (push_bit (64 - remainder) w) });
     lower \<leftarrow> do { w \<leftarrow> arr_get vs (offset + i); Some (drop_bit remainder w) };
     Some (lower OR upper)
   }"

definition kylin_bitmap_shift_right :: "bool \<Rightarrow> kbitmap \<Rightarrow> 32 word \<Rightarrow> (kerr \<times> kbitmap) option" where
  "kylin_bitmap_shift_right ok bm shift =
     (let size = bm_size bm;
          offset = unat (shift div 64);
          remainder = unat (shift mod 64)
      in if offset > size \<or> (offset = size \<and> remainder \<noteq> 0) then Some (KYLIN_ERROR_INVAL, bm)
         else case kylin_malloc ok size of
           None \<Rightarrow> Some (KYLIN_ERROR_NOMEM, bm)
         | Some dst0 \<Rightarrow> do {
             dst \<leftarrow> for_loop [0..<size - offset] (\<lambda>i dst. do {
                      w \<leftarrow> shift_right_word (bm_val bm) size offset remainder i;
                      arr_set dst i w }) dst0;
             dst \<leftarrow> (if offset \<noteq> 0 then buf_write dst (size - offset) (replicate offset 0)
                    else Some dst);
             vs \<leftarrow> buf_write (bm_val bm) 0 dst;
             Some (KYLIN_ERROR_OK, bm\<lparr>bm_val := vs\<rparr>)
           })"

definition shift_left_word :: "kword list \<Rightarrow> nat \<Rightarrow> nat \<Rightarrow> kword option" where
  "shift_left_word vs remainder i = do {
     lower \<leftarrow> (if remainder \<noteq> 0 \<and> i > 0
              then do { w \<leftarrow> arr_get vs (i - 1); Some (drop_bit (64 - remainder) w) }
              else Some 0);
     upper \<leftarrow> do { w \<leftarrow> arr_get vs i; Some (push_bit remainder w) };
     Some (lower OR upper)
   }"

definition kylin_bitmap_shift_left :: "bool \<Rightarrow> kbitmap \<Rightarrow> 32 word \<Rightarrow> (kerr \<times> kbitmap) option" where
  "kylin_bitmap_shift_left ok bm shift =
     (let size = bm_size bm;
          offset = unat (shift div 64);
          remainder = unat (shift mod 64)
      in if offset > size \<or> (offset = size \<and> remainder \<noteq> 0) then Some (KYLIN_ERROR_INVAL, bm)
         else case kylin_malloc ok size of
           None \<Rightarrow> Some (KYLIN_ERROR_NOMEM, bm)
         | Some dst0 \<Rightarrow> do {
             dst \<leftarrow> for_loop (rev [0..<size - offset]) (\<lambda>i dst. do {
                      w \<leftarrow> shift_left_word (bm_val bm) remainder i;
                      arr_set dst (i + offset) w }) dst0;
             dst \<leftarrow> (if offset \<noteq> 0 then buf_write dst 0 (replicate offset 0) else Some dst);
             vs \<leftarrow> buf_write (bm_val bm) 0 dst;
             Some (KYLIN_ERROR_OK, bm\<lparr>bm_val := vs\<rparr>)
           })"

text \<open>
  \<^verbatim>\<open>kylin_bitmap_and\<close>, \<^verbatim>\<open>xor\<close> and \<^verbatim>\<open>andnot\<close> are one loop over
  the common prefix of the three bitmaps with a different operator.
\<close>

definition bitmap_zip :: "(kword \<Rightarrow> kword \<Rightarrow> kword) \<Rightarrow> kbitmap \<Rightarrow> kbitmap \<Rightarrow> kbitmap
    \<Rightarrow> (kerr \<times> kbitmap) option" where
  "bitmap_zip f dst src1 src2 =
     (if bm_size dst < 1 \<or> bm_size src1 < 1 \<or> bm_size src2 < 1 then Some (KYLIN_ERROR_INVAL, dst)
      else do {
        vs \<leftarrow> for_loop [0..<min (bm_size dst) (min (bm_size src1) (bm_size src2))] (\<lambda>i vs. do {
                a \<leftarrow> arr_get (bm_val src1) i;
                b \<leftarrow> arr_get (bm_val src2) i;
                arr_set vs i (f a b) }) (bm_val dst);
        Some (KYLIN_ERROR_OK, dst\<lparr>bm_val := vs\<rparr>)
      })"

definition kylin_bitmap_and :: "kbitmap \<Rightarrow> kbitmap \<Rightarrow> kbitmap \<Rightarrow> (kerr \<times> kbitmap) option" where
  "kylin_bitmap_and = bitmap_zip (\<lambda>a b. a AND b)"

definition kylin_bitmap_xor :: "kbitmap \<Rightarrow> kbitmap \<Rightarrow> kbitmap \<Rightarrow> (kerr \<times> kbitmap) option" where
  "kylin_bitmap_xor = bitmap_zip (\<lambda>a b. a XOR b)"

definition kylin_bitmap_andnot :: "kbitmap \<Rightarrow> kbitmap \<Rightarrow> kbitmap \<Rightarrow> (kerr \<times> kbitmap) option" where
  "kylin_bitmap_andnot = bitmap_zip (\<lambda>a b. a AND NOT b)"

definition kylin_bitmap_or :: "kbitmap \<Rightarrow> kbitmap \<Rightarrow> kbitmap \<Rightarrow> (kerr \<times> kbitmap) option" where
  "kylin_bitmap_or dst src1 src2 =
     (if bm_size dst < 1 \<or> bm_size src1 < 1 \<or> bm_size src2 < 1 then Some (KYLIN_ERROR_INVAL, dst)
      else let size = max (bm_size dst) (max (bm_size src1) (bm_size src2))
        in if bm_size dst \<noteq> size then Some (KYLIN_ERROR_NOENT, dst)
        else do {
        vs \<leftarrow> for_loop [0..<size] (\<lambda>i vs.
                if i < bm_size src1 \<and> i < bm_size src2 then do {
                  a \<leftarrow> arr_get (bm_val src1) i;
                  b \<leftarrow> arr_get (bm_val src2) i;
                  arr_set vs i (a OR b) }
                else if i < bm_size src1 then do {
                  a \<leftarrow> arr_get (bm_val src1) i; arr_set vs i a }
                else do {
                  b \<leftarrow> arr_get (bm_val src2) i; arr_set vs i b }) (bm_val dst);
        Some (KYLIN_ERROR_OK, dst\<lparr>bm_val := vs\<rparr>)
      })"

definition kylin_bitmap_complement :: "kbitmap \<Rightarrow> kbitmap \<Rightarrow> (kerr \<times> kbitmap) option" where
  "kylin_bitmap_complement dst src =
     (if bm_size dst < 1 \<or> bm_size src < 1 then Some (KYLIN_ERROR_INVAL, dst)
      else do {
        vs \<leftarrow> for_loop [0..<min (bm_size dst) (bm_size src)] (\<lambda>i vs. do {
                a \<leftarrow> arr_get (bm_val src) i;
                arr_set vs i (NOT a) }) (bm_val dst);
        Some (KYLIN_ERROR_OK, dst\<lparr>bm_val := vs\<rparr>)
      })"

definition kylin_bitmap_is_equal :: "kbitmap \<Rightarrow> kbitmap \<Rightarrow> bool option" where
  "kylin_bitmap_is_equal src1 src2 =
     (if bm_size src1 < 1 \<or> bm_size src2 < 1 \<or> bm_size src1 \<noteq> bm_size src2 then Some False
      else all_loop [0..<bm_size src1] (\<lambda>i. do {
             a \<leftarrow> arr_get (bm_val src1) i;
             b \<leftarrow> arr_get (bm_val src2) i;
             Some (a = b) }))"

definition kylin_bitmap_is_intersects :: "kbitmap \<Rightarrow> kbitmap \<Rightarrow> bool option" where
  "kylin_bitmap_is_intersects src1 src2 =
     map_option Not (all_loop [0..<min (bm_size src1) (bm_size src2)] (\<lambda>i. do {
             a \<leftarrow> arr_get (bm_val src1) i;
             b \<leftarrow> arr_get (bm_val src2) i;
             Some (\<not> (a AND b \<noteq> 0)) }))"

definition kylin_bitmap_is_subset :: "kbitmap \<Rightarrow> kbitmap \<Rightarrow> bool option" where
  "kylin_bitmap_is_subset parent child =
     (let size = min (bm_size parent) (bm_size child)
      in if size > bm_size parent then Some False
         else all_loop [0..<size] (\<lambda>i. do {
             c \<leftarrow> arr_get (bm_val child) i;
             p \<leftarrow> arr_get (bm_val parent) i;
             Some (\<not> (c AND NOT p \<noteq> 0)) }))"

definition kylin_bitmap_is_empty :: "kbitmap \<Rightarrow> bool option" where
  "kylin_bitmap_is_empty src =
     all_loop [0..<bm_size src] (\<lambda>i. do { a \<leftarrow> arr_get (bm_val src) i; Some (\<not> (a \<noteq> 0)) })"

definition kylin_bitmap_is_full :: "kbitmap \<Rightarrow> bool option" where
  "kylin_bitmap_is_full src =
     all_loop [0..<bm_size src] (\<lambda>i. do { a \<leftarrow> arr_get (bm_val src) i; Some (\<not> (NOT a \<noteq> 0)) })"

subsection \<open>The bits of a bitmap\<close>

definition bm_wf :: "kbitmap \<Rightarrow> bool" where
  "bm_wf bm \<longleftrightarrow> length (bm_val bm) = bm_size bm"

definition bits_of :: "kword list \<Rightarrow> nat \<Rightarrow> bool" where
  "bits_of vs i \<longleftrightarrow> i < 64 * length vs \<and> bit (vs ! (i div 64)) (i mod 64)"

abbreviation bm_bit :: "kbitmap \<Rightarrow> nat \<Rightarrow> bool" where
  "bm_bit bm i \<equiv> bits_of (bm_val bm) i"

lemma div_eq_iff_nat: "0 < c \<Longrightarrow> b div c = i \<longleftrightarrow> c * i \<le> b \<and> b < c * (i + 1)" for b c i :: nat
  by (metis Suc_eq_plus1 div_nat_eqI dividend_less_times_div times_div_less_eq_dividend
      mult_Suc_right add.commute)

lemma bits_of_iff: "bits_of vs i \<longleftrightarrow> i div 64 < length vs \<and> bit (vs ! (i div 64)) (i mod 64)"
  by (simp add: bits_of_def div_less_iff_less_mult mult.commute)

lemma bits_of_zero_word: "(k < length vs \<Longrightarrow> vs ! k = 0) \<Longrightarrow> i div 64 = k \<Longrightarrow> \<not> bits_of vs i"
  by (auto simp only: bits_of_iff bit_0_eq bot_apply bot_bool_def)

lemma bits_of_update:
  assumes "k < length vs"
  shows "bits_of (vs[k := w]) i =
    (if i div 64 = k then bit w (i mod 64) else bits_of vs i)"
proof (cases "i div 64 = k")
  case True
  with assms have "i < 64 * length vs" by (simp add: div_less_iff_less_mult mult.commute)
  with True assms show ?thesis by (simp add: bits_of_def)
next
  case False
  then show ?thesis by (auto simp: bits_of_def nth_list_update)
qed

lemma bit_first_word_mask:
  "j < 64 \<Longrightarrow> bit (BITMAP_FIRST_WORD_MASK start) j \<longleftrightarrow> unat start mod 64 \<le> j"
proof -
  assume "j < 64"
  moreover have "unat (start AND 63) = unat start mod 64"
    using unat_and_mask_eq_mod [of start 6] by (simp add: mask_eq_exp_minus_1)
  ultimately show ?thesis by (simp add: BITMAP_FIRST_WORD_MASK_def bit_simps not_less)
qed

lemma pow32_minus_mod64:
  assumes "u < 2 ^ 32"
  shows "(2 ^ 32 - u) mod 2 ^ 32 mod 64 = (64 - u mod 64) mod (64 :: nat)"
proof -
  have "(2 ^ 32 - u) mod 2 ^ 32 mod 64 = (2 ^ 32 - u) mod 64"
    by (rule mod_mod_cancel) simp
  moreover have "2 ^ 32 - u = 64 * (2 ^ 26 - 1 - u div 64) + (64 - u mod 64)"
  proof -
    define q r where "q = u div 64" and "r = u mod 64"
    then have "u = 64 * q + r" "r < 64" "q < 2 ^ 26"
      using assms by (simp_all add: div_less_iff_less_mult)
    then show ?thesis unfolding q_def [symmetric] r_def [symmetric] by simp
  qed
  ultimately show ?thesis by (simp only: mod_mult_self4)
qed

lemma unat_neg_and63: "unat (- n AND (63 :: 32 word)) = (64 - unat n mod 64) mod 64"
proof -
  have "unat (- n AND 63) = unat (- n) mod 64"
    using unat_and_mask_eq_mod [of "- n" 6] by (simp add: mask_eq_exp_minus_1)
  also have "unat (- n) = (2 ^ 32 - unat n) mod 2 ^ 32"
  proof (cases "n = 0")
    case False
    then have "0 < unat n" by (simp add: unat_gt_0)
    then show ?thesis using unat_sub_if_size [of 0 n] by (simp add: word_size)
  qed simp
  also have "(2 ^ 32 - unat n) mod 2 ^ 32 mod 64 = (64 - unat n mod 64) mod (64 :: nat)"
  proof -
    have "unat n < 2 ^ 32" using unsigned_less [of n] by simp
    then show ?thesis by (rule pow32_minus_mod64)
  qed
  finally show ?thesis .
qed

lemma bit_last_word_mask:
  "j < 64 \<Longrightarrow> bit (BITMAP_LAST_WORD_MASK n) j \<longleftrightarrow>
     j < (if unat n mod 64 = 0 then 64 else unat n mod 64)"
  by (auto simp: BITMAP_LAST_WORD_MASK_def unat_neg_and63 bit_simps)

lemma bits_to_words: 
  assumes "unat n + 63 < 2 ^ 32"
  shows "BITS_TO_WORDS (n :: 32 word) = (unat n + 63) div 64"
proof -
  have "unat (63 + n) = 63 + unat n" using assms by (subst unat_add_noflow) auto
  then show ?thesis by (simp add: BITS_TO_WORDS_def unat_div)
qed

subsection \<open>Setting and clearing a range\<close>

locale masked_write =
  fixes op :: "kword \<Rightarrow> kword \<Rightarrow> kword" and v :: bool
  assumes bit_op: "j < 64 \<Longrightarrow> bit (op w m) j = (if bit m j then v else bit w j)"
begin

lemma range_loop_words:
  assumes "0 \<le> r" "r < 64" "i + k \<le> length vs"
  shows "\<exists>vs'. bitmap_range_loop op vs i (NOT 0) 64 (64 * int k + r) = Some (vs', i + k, NOT 0, r)
    \<and> length vs' = length vs
    \<and> (\<forall>b. bits_of vs' b = (if 64 * i \<le> b \<and> b < 64 * (i + k) then v else bits_of vs b))"
  using assms(3)
proof (induction k arbitrary: i vs)
  case 0
  then show ?case using assms(1,2) by (auto simp: bitmap_range_loop.simps)
next
  case (Suc k)
  let ?vs = "vs[i := op (vs ! i) (NOT 0)]"
  have i: "i < length vs" using Suc.prems by simp
  have "\<exists>vs'. bitmap_range_loop op ?vs (i + 1) (NOT 0) 64 (64 * int k + r)
      = Some (vs', i + 1 + k, NOT 0, r) \<and> length vs' = length ?vs \<and>
    (\<forall>b. bits_of vs' b = (if 64 * (i + 1) \<le> b \<and> b < 64 * (i + 1 + k) then v else bits_of ?vs b))"
    using Suc.prems by (intro Suc.IH) simp
  then obtain vs' where vs': "bitmap_range_loop op ?vs (i + 1) (NOT 0) 64 (64 * int k + r)
      = Some (vs', i + 1 + k, NOT 0, r)" "length vs' = length vs"
    and b: "\<And>b. bits_of vs' b =
      (if 64 * (i + 1) \<le> b \<and> b < 64 * (i + 1 + k) then v else bits_of ?vs b)" by auto
  have "bits_of vs' b = (if 64 * i \<le> b \<and> b < 64 * (i + Suc k) then v else bits_of vs b)" for b
  proof -
    have "b div 64 = i \<longleftrightarrow> 64 * i \<le> b \<and> b < 64 * (i + 1)" by (rule div_eq_iff_nat) simp
    moreover have "bit (op (vs ! i) (NOT 0)) (b mod 64) = v" by (simp add: bit_op bit_simps)
    ultimately show ?thesis using b [of b] bits_of_update [OF i] by auto
  qed
  moreover have "bitmap_range_loop op vs i (NOT 0) 64 (64 * int (Suc k) + r)
      = Some (vs', i + Suc k, NOT 0, r)"
    using i vs'(1) assms(1)
    by (subst bitmap_range_loop.simps) (simp add: algebra_simps)
  ultimately show ?case using vs'(2) by blast
qed

lemma range_one_word:
  assumes "unat start + l + 63 < 2 ^ 32" "unat start mod 64 + l < 64" "0 < l"
    and "i = unat start div 64" "i < length vs"
  shows "bits_of (vs[i := op (vs ! i)
      (BITMAP_FIRST_WORD_MASK start AND BITMAP_LAST_WORD_MASK (start + of_nat l))]) b
    = (if unat start \<le> b \<and> b < unat start + l then v else bits_of vs b)"
proof -
  define s where "s = unat start"
  have "l < 2 ^ 32" using assms(1) by simp
  then have "unat (start + of_nat l) = s + l"
    using assms(1) by (subst unat_add_noflow) (simp_all add: s_def unat_of_nat)
  moreover have "(s + l) mod 64 = s mod 64 + l" 
    using mod_add_left_eq [of s 64 l] mod_less [OF assms(2)] by (simp only: s_def)
  ultimately have m: "bit (BITMAP_FIRST_WORD_MASK start AND BITMAP_LAST_WORD_MASK (start + of_nat l)) (b mod 64)
    \<longleftrightarrow> s mod 64 \<le> b mod 64 \<and> b mod 64 < s mod 64 + l"
    using assms(3) by (simp add: bit_and_iff bit_first_word_mask bit_last_word_mask s_def)
  have d: "b = 64 * (b div 64) + b mod 64" "s = 64 * i + s mod 64" by (simp_all add: assms(4) s_def)
  have "(b div 64 = i \<and> s mod 64 \<le> b mod 64 \<and> b mod 64 < s mod 64 + l) \<longleftrightarrow> (s \<le> b \<and> b < s + l)"
  proof
    assume "b div 64 = i \<and> s mod 64 \<le> b mod 64 \<and> b mod 64 < s mod 64 + l"
    then show "s \<le> b \<and> b < s + l" using d by linarith
  next
    assume h: "s \<le> b \<and> b < s + l"
    have "64 * i \<le> b" using h d(2) by linarith
    moreover have "b < 64 * i + 64" using h d(2) assms(2) unfolding s_def [symmetric] by linarith
    ultimately have "b div 64 = i" by (simp add: div_eq_iff_nat)
    with h d show "b div 64 = i \<and> s mod 64 \<le> b mod 64 \<and> b mod 64 < s mod 64 + l" by linarith
  qed
  moreover have "bits_of vs b = bit (vs ! i) (b mod 64)" if "b div 64 = i"
    using that bits_of_update [OF assms(5), of "vs ! i" b] by simp
  ultimately show ?thesis
    using m unfolding bits_of_update [OF assms(5)] s_def [symmetric]
    by (auto simp: bit_op)
qed

lemma range_many_words:
  assumes "unat start mod 64 + l \<ge> 64" "i = unat start div 64"
    and "unat start + l \<le> 64 * length vs" "unat start + l + 63 < 2 ^ 32"
    and "unat start mod 64 = 0 \<or> (unat start + l) mod 64 = 0"
  defines "len' \<equiv> l - (64 - unat start mod 64)"
  shows "\<exists>vs'. bitmap_range_loop op vs i (BITMAP_FIRST_WORD_MASK start)
        (64 - int (unat start mod 64)) (int l) = Some (vs', i + 1 + len' div 64, NOT 0, int (len' mod 64))
    \<and> length vs' = length vs
    \<and> (len' mod 64 \<noteq> 0 \<longrightarrow> unat start mod 64 = 0 \<and> i + 1 + len' div 64 < length vs)
    \<and> (\<forall>b. bits_of vs' b =
        (if unat start \<le> b \<and> b < unat start + l - len' mod 64 then v else bits_of vs b))"
proof -
  define s where "s = unat start"
  define q where "q = s mod 64"
  define k r where "k = len' div 64" and "r = len' mod 64"
  have sq: "s = 64 * i + q" "q < 64" by (simp_all add: s_def q_def assms(2))
  have lk: "l = 64 - q + (64 * k + r)" "r < 64"
    using assms(1) sq(2) by (simp_all add: k_def r_def len'_def q_def s_def)
  have fit: "64 * i + 64 + 64 * k + r \<le> 64 * length vs"
    using assms(3) sq lk unfolding s_def [symmetric] by linarith
  then have i: "i < length vs" and ik: "i + 1 + k \<le> length vs" by linarith+
  let ?vs = "vs[i := op (vs ! i) (BITMAP_FIRST_WORD_MASK start)]"
  have "\<exists>vs'. bitmap_range_loop op ?vs (i + 1) (NOT 0) 64 (64 * int k + int r)
      = Some (vs', i + 1 + k, NOT 0, int r) \<and> length vs' = length ?vs \<and>
    (\<forall>b. bits_of vs' b = (if 64 * (i + 1) \<le> b \<and> b < 64 * (i + 1 + k) then v else bits_of ?vs b))"
    using lk(2) ik by (intro range_loop_words) simp_all
  then obtain vs' where vs': "bitmap_range_loop op ?vs (i + 1) (NOT 0) 64 (64 * int k + int r)
      = Some (vs', i + 1 + k, NOT 0, int r)" "length vs' = length vs"
    and b: "\<And>b. bits_of vs' b =
      (if 64 * (i + 1) \<le> b \<and> b < 64 * (i + 1 + k) then v else bits_of ?vs b)" by auto
  have "bits_of vs' b = (if s \<le> b \<and> b < s + l - r then v else bits_of vs b)" for b
  proof -
    have e: "s + l - r = 64 * (i + 1 + k)" using sq lk by simp
    have d: "b = 64 * (b div 64) + b mod 64" "b mod 64 < 64" by simp_all
    have m: "bit (op (vs ! i) (BITMAP_FIRST_WORD_MASK start)) (b mod 64)
        = (if q \<le> b mod 64 then v else bit (vs ! i) (b mod 64))"
      by (simp add: bit_op bit_first_word_mask q_def s_def)
    show ?thesis
    proof (cases "b div 64 = i")
      case True
      have lt: "b < 64 * (i + 1)" using True div_eq_iff_nat [of 64 b i] by simp
      have sb: "s \<le> b \<longleftrightarrow> q \<le> b mod 64" using True sq d by linarith
      have "bits_of vs b = bit (vs ! i) (b mod 64)"
        using bits_of_update [OF i, of "vs ! i" b] True by simp
      then have "bits_of vs' b = (if q \<le> b mod 64 then v else bits_of vs b)"
        using b [of b] m True lt by (simp add: bits_of_update [OF i])
      moreover have "b < 64 * (i + 1 + k)" using lt by simp
      ultimately show ?thesis using sb e by simp
    next
      case False
      then have "s \<le> b \<longleftrightarrow> 64 * (i + 1) \<le> b"
        using sq div_eq_iff_nat [of 64 b i] by auto
      with False b [of b] e show ?thesis by (simp add: bits_of_update [OF i])
    qed
  qed
  moreover have "bitmap_range_loop op vs i (BITMAP_FIRST_WORD_MASK start) (64 - int q) (int l)
      = Some (vs', i + 1 + k, NOT 0, int r)"
  proof -
    have "int l - (64 - int q) = 64 * int k + int r" using lk(1) sq(2) by linarith
    then show ?thesis using i vs'(1) by (subst bitmap_range_loop.simps) simp
  qed
  moreover have "q = 0 \<and> i + 1 + k < length vs" if "r \<noteq> 0"
  proof -
    have "s + l = 64 * (i + 1 + k) + r" using sq lk by simp
    then have "(s + l) mod 64 = r" using lk(2) by (simp only: mod_mult_self4 mod_less)
    with that assms(5) have "q = 0" by (simp add: s_def q_def)
    with fit that show ?thesis by linarith
  qed
  ultimately show ?thesis using vs'(2) unfolding q_def s_def k_def r_def by (intro exI [of _ vs']) simp
qed

lemma last_word:
  assumes "k < length vs'" "unat start mod 64 = 0" "r \<noteq> 0" "r < 64"
    and e: "unat start + l = 64 * k + r"
    and bits: "\<And>b. bits_of vs' b =
        (if unat start \<le> b \<and> b < unat start + l - r then v else bits_of vs b)"
    and small: "unat start + l + 63 < 2 ^ 32" and "r \<le> l"
  shows "bits_of (vs'[k := op (vs' ! k) (NOT 0 AND BITMAP_LAST_WORD_MASK (start + of_nat r))]) b
    = (if unat start \<le> b \<and> b < unat start + l then v else bits_of vs b)"
proof -
  have "unat (start + of_nat r) = unat start + r"
    using small assms(4,8) by (subst unat_add_noflow) (simp_all add: unat_of_nat)
  moreover have "(unat start + r) mod 64 = r" using assms(2,4) by (simp add: mod_add_eq [symmetric])
  ultimately have m: "bit (NOT 0 AND BITMAP_LAST_WORD_MASK (start + of_nat r)) (b mod 64) \<longleftrightarrow> b mod 64 < r"
    using assms(3) by (simp add: bit_and_iff bit_not_iff bit_last_word_mask)
  have s: "unat start \<le> 64 * k" using e assms(8) by linarith
  have d: "b div 64 = k \<longleftrightarrow> 64 * k \<le> b \<and> b < 64 * (k + 1)" by (rule div_eq_iff_nat) simp
  have x: "unat start + l - r = 64 * k" using e by simp
  show ?thesis
  proof (cases "b div 64 = k")
    case True
    have "bits_of vs' b = bit (vs' ! k) (b mod 64)"
      using bits_of_update [OF assms(1), of "vs' ! k" b] True by simp
    moreover have "b = 64 * k + b mod 64" using True by auto
    ultimately show ?thesis
      using True d s x e m bits [of b] by (auto simp: bits_of_update [OF assms(1)] bit_op)
  next
    case False
    then have "b < 64 * k \<longleftrightarrow> b < unat start + l" using d e assms(4) by auto
    with False x bits [of b] show ?thesis by (simp add: bits_of_update [OF assms(1)])
  qed
qed

lemma bitmap_range_ok:
  assumes wf: "bm_wf bm" and len: "0 \<le> sint len"
    and fit: "unat start + nat (sint len) \<le> 64 * bm_size bm"
    and small: "unat start + nat (sint len) + 63 < 2 ^ 32"
    and al: "unat start mod 64 = 0 \<or> unat start mod 64 + nat (sint len) < 64
      \<or> (unat start + nat (sint len)) mod 64 = 0"
  shows "\<exists>bm'. bitmap_range op bm start len = Some (KYLIN_ERROR_OK, bm')
    \<and> bm_wf bm' \<and> bm_size bm' = bm_size bm \<and> bm_opts bm' = bm_opts bm
    \<and> (\<forall>b. bm_bit bm' b =
        (if unat start \<le> b \<and> b < unat start + nat (sint len) then v else bm_bit bm b))"
proof -
  define l where "l = nat (sint len)"
  define i where "i = unat start div 64"
  have il: "sint len = int l" using len by (simp add: l_def)
  have l32: "l < 2 ^ 32" using small by (simp add: l_def)
  have "len = of_int (sint len)" by simp
  then have len_l: "len = of_nat l" unfolding il by simp
  have ul: "unat len = l" using l32 by (simp add: len_l unat_of_nat)
  have us: "unat (start + len) = unat start + l"
    using small by (subst unat_add_noflow) (simp_all add: ul l_def)
  have g: "BITS_TO_WORDS start \<le> bm_size bm" "BITS_TO_WORDS (start + len) \<le> bm_size bm"
    using small fit by (simp_all add: bits_to_words us l_def)
  have idx: "BITMAP_WORD_INDEX start = i" by (simp add: BITMAP_WORD_INDEX_def i_def unat_div)
  have ub: "uint (start mod 64) = int (unat start mod 64)"
    by (simp add: uint_mod zmod_int)
  note unf = bitmap_range_def idx ub il
  have vlen: "length (bm_val bm) = bm_size bm" using wf by (simp add: bm_wf_def)
  show ?thesis
  proof (cases "unat start mod 64 + l < 64")
    case True
    have lp: "bitmap_range_loop op (bm_val bm) i (BITMAP_FIRST_WORD_MASK start)
        (64 - int (unat start mod 64)) (int l) =
        Some (bm_val bm, i, BITMAP_FIRST_WORD_MASK start, int l)"
      using True by (subst bitmap_range_loop.simps) simp
    show ?thesis
    proof (cases "l = 0")
      case True
      then show ?thesis using g lp wf by (auto simp: unf)
    next
      case False
      then have i: "i < length (bm_val bm)"
        using fit vlen by (simp add: i_def l_def div_less_iff_less_mult)
      have m: "\<And>b. bits_of ((bm_val bm)[i := op (bm_val bm ! i)
          (BITMAP_FIRST_WORD_MASK start AND BITMAP_LAST_WORD_MASK (start + of_nat l))]) b
        = (if unat start \<le> b \<and> b < unat start + l then v else bits_of (bm_val bm) b)"
        using range_one_word [OF _ True _ i_def i] small False by (simp add: l_def)
      show ?thesis using g lp wf i m False
        by (simp add: unf bm_wf_def)
    qed
  next
    case False
    define len' where "len' = l - (64 - unat start mod 64)"
    have "\<exists>vs'. bitmap_range_loop op (bm_val bm) i (BITMAP_FIRST_WORD_MASK start)
        (64 - int (unat start mod 64)) (int l) = Some (vs', i + 1 + len' div 64, NOT 0, int (len' mod 64))
    \<and> length vs' = length (bm_val bm)
    \<and> (len' mod 64 \<noteq> 0 \<longrightarrow> unat start mod 64 = 0 \<and> i + 1 + len' div 64 < length (bm_val bm))
    \<and> (\<forall>b. bits_of vs' b =
        (if unat start \<le> b \<and> b < unat start + l - len' mod 64 then v else bits_of (bm_val bm) b))"
      unfolding len'_def by (rule range_many_words)
        (use False i_def fit small al vlen in \<open>simp_all add: l_def\<close>)
    then obtain vs' where lp: "bitmap_range_loop op (bm_val bm) i (BITMAP_FIRST_WORD_MASK start)
        (64 - int (unat start mod 64)) (int l) = Some (vs', i + 1 + len' div 64, NOT 0, int (len' mod 64))"
      and vs': "length vs' = bm_size bm"
      and last: "len' mod 64 \<noteq> 0 \<Longrightarrow> unat start mod 64 = 0 \<and> i + 1 + len' div 64 < bm_size bm"
      and bits: "\<And>b. bits_of vs' b =
        (if unat start \<le> b \<and> b < unat start + l - len' mod 64 then v else bm_bit bm b)"
      by (auto simp: vlen)
    show ?thesis
    proof (cases "len' mod 64 = 0")
      case True
      then show ?thesis using g lp vs' bits by (simp add: unf bm_wf_def)
    next
      case False
      define k r where "k = i + 1 + len' div 64" and "r = len' mod 64"
      have k: "k < length vs'" "unat start mod 64 = 0" "r \<noteq> 0" "r < 64"
        using last [OF False] vs' False by (simp_all add: k_def r_def)
      have e: "unat start + l = 64 * k + r"
        using \<open>\<not> unat start mod 64 + l < 64\<close> k(2) mult_div_mod_eq [of 64 "unat start"]
        by (simp add: k_def r_def len'_def i_def)
      have rl: "r \<le> l"
        unfolding r_def len'_def by (meson diff_le_self mod_less_eq_dividend order_trans)
      have "bits_of (vs'[k := op (vs' ! k) (NOT 0 AND BITMAP_LAST_WORD_MASK (start + of_nat r))]) b
        = (if unat start \<le> b \<and> b < unat start + l then v else bm_bit bm b)" for b
        by (rule last_word [OF k e bits [folded r_def]]) (use small rl in \<open>simp_all add: l_def\<close>)
      then show ?thesis using g lp vs' k False
        by (simp add: unf bm_wf_def k_def r_def)
    qed
  qed
qed

end

interpretation set_write: masked_write "\<lambda>w msk. w OR msk" True
  by unfold_locales (simp add: bit_or_iff)

interpretation clear_write: masked_write "\<lambda>w msk. w AND NOT msk" False
  by unfold_locales (simp add: bit_and_iff bit_not_iff)

subsection \<open>Word-wise operations\<close>

lemma bits_of_map:
  assumes "length vs = n" and "\<And>k. k < n \<Longrightarrow> vs ! k = g k"
  shows "bits_of vs b \<longleftrightarrow> b < 64 * n \<and> bit (g (b div 64)) (b mod 64)"
  using assms by (auto simp: bits_of_def div_less_iff_less_mult mult.commute)

lemma bits_of_bound: "bits_of vs b \<Longrightarrow> b < 64 * length vs"
  by (simp add: bits_of_def)

lemma bits_of_eqI:
  assumes "length vs = length ws" and "\<And>b. bits_of vs b = bits_of ws b"
  shows "vs = ws"
proof (rule nth_equalityI)
  fix k assume k: "k < length vs"
  show "vs ! k = ws ! k"
  proof (rule bit_word_eqI)
    fix j assume "j < LENGTH(64)"
    then have "j < 64" by simp
    then have "(64 * k + j) div 64 = k" "(64 * k + j) mod 64 = j" "64 * k + j < 64 * length vs"
      using k by (simp_all)
    with assms(2) [of "64 * k + j"] assms(1) show "bit (vs ! k) j = bit (ws ! k) j"
      by (simp add: bits_of_def)
  qed
qed (rule assms(1))

lemma bitmap_zip_bits:
  assumes wf: "bm_wf dst" "bm_wf a" "bm_wf b"
    and ne: "0 < bm_size dst" "0 < bm_size a" "0 < bm_size b"
    and f: "\<And>u v j. j < 64 \<Longrightarrow> bit (f u v) j = F (bit u j) (bit v j)"
  defines "n \<equiv> 64 * min (bm_size dst) (min (bm_size a) (bm_size b))"
  shows "\<exists>bm'. bitmap_zip f dst a b = Some (KYLIN_ERROR_OK, bm')
    \<and> bm_wf bm' \<and> bm_size bm' = bm_size dst \<and> bm_opts bm' = bm_opts dst
    \<and> (\<forall>i. bm_bit bm' i = (if i < n then F (bm_bit a i) (bm_bit b i) else bm_bit dst i))"
proof -
  define m where "m = min (bm_size dst) (min (bm_size a) (bm_size b))"
  have len: "length (bm_val dst) = bm_size dst" "m \<le> bm_size dst" "m \<le> length (bm_val a)"
    "m \<le> length (bm_val b)"
    using wf by (simp_all add: bm_wf_def m_def)
  let ?body = "\<lambda>i vs. do { a \<leftarrow> arr_get (bm_val a) i; b \<leftarrow> arr_get (bm_val b) i; arr_set vs i (f a b) }"
  have "\<exists>d'. for_loop [0..<m] ?body (bm_val dst) = Some d' \<and> length d' = bm_size dst \<and>
    (\<forall>j < bm_size dst. d' ! j = (if 0 \<le> j \<and> j - 0 \<in> set [0..<m]
       then f (bm_val a ! (j - 0)) (bm_val b ! (j - 0)) else bm_val dst ! j))"
    using len by (intro for_loop_fill) simp_all
  then obtain d' where d': "for_loop [0..<m] ?body (bm_val dst) = Some d'" "length d' = bm_size dst"
    "\<And>j. j < bm_size dst \<Longrightarrow> d' ! j = (if j < m then f (bm_val a ! j) (bm_val b ! j) else bm_val dst ! j)"
    by auto
  have "bits_of d' i = (if i < n then F (bm_bit a i) (bm_bit b i) else bm_bit dst i)" for i
  proof -
    have "n = 64 * m" by (simp add: n_def m_def)
    then have "i < n \<longleftrightarrow> i div 64 < m" "i < 64 * bm_size dst \<longleftrightarrow> i div 64 < bm_size dst"
      by (simp_all add: div_less_iff_less_mult mult.commute)
    then show ?thesis
      using len d'(3) [of "i div 64"] by (auto simp: bits_of_def d'(2) f div_less_iff_less_mult mult.commute)
  qed
  with d' ne show ?thesis
    by (simp add: bitmap_zip_def bm_wf_def m_def)
qed


subsection \<open>Shifts\<close>

lemma add_div_mod_64:
  fixes i s :: nat
  shows "i mod 64 + s mod 64 < 64 \<Longrightarrow> (i + s) div 64 = i div 64 + s div 64"
    and "i mod 64 + s mod 64 < 64 \<Longrightarrow> (i + s) mod 64 = i mod 64 + s mod 64"
    and "64 \<le> i mod 64 + s mod 64 \<Longrightarrow> (i + s) div 64 = i div 64 + s div 64 + 1"
    and "64 \<le> i mod 64 + s mod 64 \<Longrightarrow> (i + s) mod 64 = i mod 64 + s mod 64 - 64"
proof -
  define a b c d where "a = i div 64" and "b = i mod 64" and "c = s div 64" and "d = s mod 64"
  have e: "i = 64 * a + b" "s = 64 * c + d" "b < 64" "d < 64"
    by (simp_all add: a_def b_def c_def d_def)
  note f = a_def [symmetric] b_def [symmetric] c_def [symmetric] d_def [symmetric]
  { assume "b + d < 64"
    then have "(64 * (a + c) + (b + d)) div 64 = a + c" by (simp add: div_mult_self4)
    moreover from \<open>b + d < 64\<close> have "(64 * (a + c) + (b + d)) mod 64 = b + d"
      by (simp only: mod_mult_self4 mod_less)
    moreover have "i + s = 64 * (a + c) + (b + d)" using e by simp
    ultimately have "(i + s) div 64 = a + c" "(i + s) mod 64 = b + d" by simp_all }
  note lo = this
  { assume "64 \<le> b + d"
    then have h: "b + d - 64 < 64" "i + s = 64 * (a + c + 1) + (b + d - 64)"
      using e(3,4) by (simp_all add: e(1,2))
    from h(1) have "(64 * (a + c + 1) + (b + d - 64)) div 64 = a + c + 1"
      "(64 * (a + c + 1) + (b + d - 64)) mod 64 = b + d - 64"
      by (simp_all only: div_mult_self4 mod_mult_self4 div_less mod_less)
    with h(2) have "(i + s) div 64 = a + c + 1" "(i + s) mod 64 = b + d - 64" by simp_all }
  note hi = this
  show "i mod 64 + s mod 64 < 64 \<Longrightarrow> (i + s) div 64 = i div 64 + s div 64"
    and "i mod 64 + s mod 64 < 64 \<Longrightarrow> (i + s) mod 64 = i mod 64 + s mod 64"
    and "64 \<le> i mod 64 + s mod 64 \<Longrightarrow> (i + s) div 64 = i div 64 + s div 64 + 1"
    and "64 \<le> i mod 64 + s mod 64 \<Longrightarrow> (i + s) mod 64 = i mod 64 + s mod 64 - 64"
    unfolding f using lo hi by blast+
qed

lemma shift_right_word_spec:
  assumes "length vs = n" "k + s div 64 < n"
  shows "\<exists>w. shift_right_word vs n (s div 64) (s mod 64) k = Some w
    \<and> (\<forall>j < 64. bit w j = bits_of vs (64 * k + j + s))"
proof -
  define q r where "q = s div 64" and "r = s mod 64"
  define up where "up = (if r = 0 \<or> q + k + 1 \<ge> n then 0 else push_bit (64 - r) (vs ! (q + k + 1)))"
  have r: "r < 64" by (simp add: r_def)
  have "shift_right_word vs n q r k = Some (drop_bit r (vs ! (q + k)) OR up)"
    using assms by (auto simp: shift_right_word_def up_def q_def)
  moreover have "bit (drop_bit r (vs ! (q + k)) OR up) j = bits_of vs (64 * k + j + s)" if j: "j < 64" for j
  proof (cases "j + r < 64")
    case True
    have "(64 * k + j + s) div 64 = k + q" "(64 * k + j + s) mod 64 = j + r"
      using add_div_mod_64(1,2) [of "64 * k + j" s] True j by (simp_all add: q_def r_def)
    moreover have "64 * k + j + s < 64 * n"
      using calculation(1) assms(2) by (simp add: q_def div_less_iff_less_mult)
    moreover have "\<not> bit up j" using True by (auto simp: up_def bit_simps)
    ultimately show ?thesis using assms(1)
      by (simp add: bits_of_def bit_or_iff bit_drop_bit_eq add.commute)
  next
    case False
    have d: "(64 * k + j + s) div 64 = k + q + 1" "(64 * k + j + s) mod 64 = j + r - 64"
      using add_div_mod_64(3,4) [of "64 * k + j" s] False j by (simp_all add: q_def r_def)
    have "64 * k + j + s < 64 * n \<longleftrightarrow> q + k + 1 < n"
      using d(1) div_less_iff_less_mult [of 64 "64 * k + j + s" n]
      by (simp add: add.commute mult.commute)
    moreover have "\<not> bit (drop_bit r (vs ! (q + k))) j" 
      using False by (auto simp: bit_simps dest!: bit_imp_le_length)
    moreover have "bit up j \<longleftrightarrow> q + k + 1 < n \<and> bit (vs ! (q + k + 1)) (j + r - 64)"
    proof -
      have "j - (64 - r) = j + r - 64" "64 - r \<le> j" "r \<noteq> 0" using False r j by linarith+
      then show ?thesis using j by (auto simp: up_def bit_simps)
    qed
    ultimately show ?thesis using assms(1) d by (simp add: bits_of_def bit_or_iff add.commute)
  qed
  ultimately show ?thesis by (auto simp: q_def r_def)
qed


lemma shift_left_word_spec:
  assumes "length vs = n" "k < n" "r < 64"
  shows "\<exists>w. shift_left_word vs r k = Some w
    \<and> (\<forall>j < 64. bit w j \<longleftrightarrow> r \<le> 64 * k + j \<and> bits_of vs (64 * k + j - r))"
proof -
  define lo where "lo = (if r \<noteq> 0 \<and> k > 0 then drop_bit (64 - r) (vs ! (k - 1)) else 0)"
  have "shift_left_word vs r k = Some (lo OR push_bit r (vs ! k))"
    using assms by (auto simp: shift_left_word_def lo_def)
  moreover have "bit (lo OR push_bit r (vs ! k)) j \<longleftrightarrow>
      r \<le> 64 * k + j \<and> bits_of vs (64 * k + j - r)" if j: "j < 64" for j
  proof (cases "r \<le> j")
    case True
    have "64 * k + j - r = 64 * k + (j - r)" "j - r < 64" using True j by linarith+
    then have "(64 * k + j - r) div 64 = k" "(64 * k + j - r) mod 64 = j - r" by simp_all
    moreover have "64 * k + j - r < 64 * n" using assms(2) j by linarith
    moreover have "\<not> bit lo j" using True j assms(3) by (auto simp: lo_def bit_simps dest!: bit_imp_le_length)
    ultimately show ?thesis using True j assms(1) by (auto simp: bits_of_def bit_simps)
  next
    case False
    then have up: "\<not> bit (push_bit r (vs ! k)) j" by (simp add: bit_simps)
    show ?thesis
    proof (cases k)
      case 0
      then show ?thesis using False up by (simp add: lo_def bit_or_iff)
    next
      case (Suc m)
      have "64 * k + j - r = 64 * m + (64 - r + j)" "64 - r + j < 64"
        using False Suc assms(3) by linarith+
      then have "(64 * k + j - r) div 64 = m" "(64 * k + j - r) mod 64 = 64 - r + j" by simp_all
      moreover have "64 * k + j - r < 64 * n" "r \<le> 64 * k + j" using assms(2,3) j Suc by linarith+
      ultimately show ?thesis using False up Suc assms(1)
        by (simp add: bits_of_def bit_or_iff lo_def bit_drop_bit_eq add.commute)
    qed
  qed
  ultimately show ?thesis by auto
qed

lemma shift_guard:
  fixes shift :: "32 word"
  assumes "unat shift \<le> 64 * n"
  shows "\<not> (unat (shift div 64) > n \<or> (unat (shift div 64) = n \<and> unat (shift mod 64) \<noteq> 0))"
    and "unat (shift div 64) = unat shift div 64" "unat (shift mod 64) = unat shift mod 64"
    and "unat shift div 64 \<le> n"
proof -
  show e: "unat (shift div 64) = unat shift div 64" "unat (shift mod 64) = unat shift mod 64"
    by (simp_all add: unat_div unat_mod)
  define q r where "q = unat shift div 64" and "r = unat shift mod 64"
  have d: "unat shift = 64 * q + r" by (simp add: q_def r_def)
  show l: "unat shift div 64 \<le> n" using assms by (simp add: div_le_mono [of _ "64 * n" 64, simplified])
  show "\<not> (unat (shift div 64) > n \<or> (unat (shift div 64) = n \<and> unat (shift mod 64) \<noteq> 0))"
    unfolding e q_def [symmetric] r_def [symmetric] using assms d l by (auto simp: q_def [symmetric])
qed

lemma shift_right_bits:
  assumes wf: "bm_wf bm" and le: "unat shift \<le> 64 * bm_size bm"
  shows "\<exists>bm'. kylin_bitmap_shift_right True bm shift = Some (KYLIN_ERROR_OK, bm')
    \<and> bm_wf bm' \<and> bm_size bm' = bm_size bm \<and> bm_opts bm' = bm_opts bm
    \<and> (\<forall>i. bm_bit bm' i = bm_bit bm (i + unat shift))"
proof -
  define n s vs where "n = bm_size bm" and "s = unat shift" and "vs = bm_val bm"
  note g = shift_guard [OF le, folded n_def s_def]
  have len: "length vs = n" using wf by (simp add: bm_wf_def vs_def n_def)
  define w where "w = (\<lambda>k. the (shift_right_word vs n (s div 64) (s mod 64) k))"
  have w: "shift_right_word vs n (s div 64) (s mod 64) k = Some (w k)"
    "j < 64 \<Longrightarrow> bit (w k) j = bits_of vs (64 * k + j + s)" if "k < n - s div 64" for k j
    using shift_right_word_spec [OF len, of k s] that by (auto simp: w_def less_diff_conv)
  let ?body = "\<lambda>i dst. do { w \<leftarrow> shift_right_word vs n (s div 64) (s mod 64) i; arr_set dst i w }"
  have "\<exists>d. for_loop [0..<n - s div 64] ?body (replicate n 0) = Some d \<and> length d = n \<and>
    (\<forall>j < n. d ! j = (if 0 \<le> j \<and> j - 0 \<in> set [0..<n - s div 64] then w (j - 0) else replicate n 0 ! j))"
    by (intro for_loop_fill) (auto simp: w(1))
  then obtain d where d: "for_loop [0..<n - s div 64] ?body (replicate n 0) = Some d" "length d = n"
    "\<And>j. j < n \<Longrightarrow> d ! j = (if j < n - s div 64 then w j else 0)" by auto
  define d' where "d' = (if s div 64 \<noteq> 0 then take (n - s div 64) d @ replicate (s div 64) 0 else d)"
  have d': "length d' = n" "\<And>j. j < n \<Longrightarrow> d' ! j = (if j < n - s div 64 then w j else 0)"
    using d(2,3) g(4) by (auto simp: d'_def nth_append)
  have bits: "bits_of d' i = bits_of vs (i + s)" for i
  proof (cases "i div 64 < n - s div 64")
    case True
    then have "i div 64 < n" by simp
    moreover from this have "i < 64 * n" by (simp add: div_less_iff_less_mult mult.commute)
    ultimately have "bits_of d' i = bit (w (i div 64)) (i mod 64)"
      using True by (simp add: bits_of_def d')
    also have "\<dots> = bits_of vs (i + s)" using w(2) [OF True, of "i mod 64"] by simp
    finally show ?thesis .
  next
    case False
    then have "64 * n \<le> i + s"
      using g(4) times_div_less_eq_dividend [of 64 i] times_div_less_eq_dividend [of 64 s]
      by linarith
    then have "\<not> bits_of vs (i + s)" by (simp add: bits_of_def len)
    moreover have "\<not> bits_of d' i"
      by (rule bits_of_zero_word [OF _ refl]) (simp only: d' False if_False)
    ultimately show ?thesis by simp
  qed
  have "(if s div 64 \<noteq> 0 then buf_write d (n - s div 64) (replicate (s div 64) 0) else Some d) = Some d'"
    using d(2) g(4) by (simp add: d'_def buf_simps)
  moreover have "buf_write vs 0 d' = Some d'" using d' len by (simp add: buf_simps)
  ultimately have "kylin_bitmap_shift_right True bm shift = Some (KYLIN_ERROR_OK, bm\<lparr>bm_val := d'\<rparr>)"
    unfolding kylin_bitmap_shift_right_def Let_def n_def [symmetric] s_def [symmetric] vs_def [symmetric]
      if_not_P [OF g(1)] g(2,3) kylin_malloc_def
    using g(1) [unfolded g(2,3)] by (simp add: d(1))
  with bits d' show ?thesis by (simp add: bm_wf_def n_def s_def vs_def)
qed


lemma shift_left_bits:
  assumes wf: "bm_wf bm" and le: "unat shift \<le> 64 * bm_size bm"
  shows "\<exists>bm'. kylin_bitmap_shift_left True bm shift = Some (KYLIN_ERROR_OK, bm')
    \<and> bm_wf bm' \<and> bm_size bm' = bm_size bm \<and> bm_opts bm' = bm_opts bm
    \<and> (\<forall>i. bm_bit bm' i \<longleftrightarrow>
          unat shift \<le> i \<and> i < 64 * bm_size bm \<and> bm_bit bm (i - unat shift))"
proof -
  define n s vs where "n = bm_size bm" and "s = unat shift" and "vs = bm_val bm"
  define q r where "q = s div 64" and "r = s mod 64"
  note g = shift_guard [OF le, folded n_def s_def]
  have len: "length vs = n" using wf by (simp add: bm_wf_def vs_def n_def)
  have sq: "s = 64 * q + r" "r < 64" "q \<le> n" using g(4) by (simp_all add: q_def r_def)
  define w where "w = (\<lambda>k. the (shift_left_word vs r k))"
  have w: "shift_left_word vs r k = Some (w k)"
    "j < 64 \<Longrightarrow> bit (w k) j \<longleftrightarrow> r \<le> 64 * k + j \<and> bits_of vs (64 * k + j - r)" if "k < n" for k j
    using shift_left_word_spec [OF len that sq(2)] by (auto simp: w_def)
  let ?body = "\<lambda>i dst. do { w \<leftarrow> shift_left_word vs r i; arr_set dst (i + q) w }"
  have "\<exists>d. for_loop (rev [0..<n - q]) ?body (replicate n 0) = Some d \<and> length d = n \<and>
    (\<forall>j < n. d ! j = (if q \<le> j \<and> j - q \<in> set (rev [0..<n - q]) then w (j - q) else replicate n 0 ! j))"
    using sq(3) by (intro for_loop_fill) (auto simp: w(1))
  then obtain d where d: "for_loop (rev [0..<n - q]) ?body (replicate n 0) = Some d" "length d = n"
    "\<And>j. j < n \<Longrightarrow> d ! j = (if q \<le> j then w (j - q) else 0)" by (auto simp: diff_less_mono)
  define d' where "d' = (if q \<noteq> 0 then replicate q 0 @ drop q d else d)"
  have d': "length d' = n" "\<And>j. j < n \<Longrightarrow> d' ! j = (if q \<le> j then w (j - q) else 0)"
    using d(2,3) sq(3) by (auto simp: d'_def nth_append)
  have bits: "bits_of d' i \<longleftrightarrow> s \<le> i \<and> i < 64 * n \<and> bits_of vs (i - s)" for i
  proof (cases "q \<le> i div 64 \<and> i < 64 * n")
    case True
    define k where "k = i div 64 - q"
    have k: "i div 64 < n" "k < n" using True by (auto simp: k_def div_less_iff_less_mult mult.commute)
    obtain x where x: "i mod 64 = x" by simp
    then have ik: "i = 64 * (k + q) + x" using True by (auto simp: k_def)
    have "r \<le> 64 * k + x \<longleftrightarrow> s \<le> i" "64 * k + x - r = i - s"
      unfolding sq(1) ik by (simp_all add: algebra_simps)
    moreover have "bits_of d' i = bit (w k) (i mod 64)"
      using True k d' by (simp add: bits_of_def k_def)
    ultimately show ?thesis using w(2) [OF k(2), of "i mod 64"] True x by simp
  next
    case False
    have "i < s" if "\<not> q \<le> i div 64"
      using that sq(1) by (simp add: not_le div_less_iff_less_mult)
    moreover have "\<not> bits_of d' i" if "\<not> q \<le> i div 64"
      by (rule bits_of_zero_word [OF _ refl]) (simp only: d' that if_False)
    moreover have "\<not> bits_of d' i" if "\<not> i < 64 * n" using that by (simp add: bits_of_def d'(1))
    ultimately show ?thesis using False by (metis not_le)
  qed
  have "(if q \<noteq> 0 then buf_write d 0 (replicate q 0) else Some d) = Some d'"
    using d(2) sq(3) by (simp add: d'_def buf_simps)
  moreover have "buf_write vs 0 d' = Some d'" using d' len by (simp add: buf_simps)
  ultimately have "kylin_bitmap_shift_left True bm shift = Some (KYLIN_ERROR_OK, bm\<lparr>bm_val := d'\<rparr>)"
    unfolding kylin_bitmap_shift_left_def Let_def n_def [symmetric] s_def [symmetric] vs_def [symmetric]
      if_not_P [OF g(1)] g(2,3) kylin_malloc_def q_def [symmetric] r_def [symmetric]
    using g(1) [unfolded g(2,3), folded q_def r_def] by (simp add: d(1))
  with bits d' show ?thesis by (simp add: bm_wf_def n_def s_def vs_def)
qed

lemma shift_out_of_range:
  assumes "64 * bm_size bm < unat shift"
  shows "kylin_bitmap_shift_left ok bm shift = Some (KYLIN_ERROR_INVAL, bm)"
    and "kylin_bitmap_shift_right ok bm shift = Some (KYLIN_ERROR_INVAL, bm)"
proof -
  define q r where "q = unat shift div 64" and "r = unat shift mod 64"
  have "unat shift = 64 * q + r" "r < 64" by (simp_all add: q_def r_def)
  then have "q > bm_size bm \<or> (q = bm_size bm \<and> r \<noteq> 0)" using assms by auto
  then show "kylin_bitmap_shift_left ok bm shift = Some (KYLIN_ERROR_INVAL, bm)"
    and "kylin_bitmap_shift_right ok bm shift = Some (KYLIN_ERROR_INVAL, bm)"
    by (auto simp: kylin_bitmap_shift_left_def kylin_bitmap_shift_right_def Let_def unat_div unat_mod
        q_def r_def)
qed

subsection \<open>Predicates, copies\<close>

lemma bits_of_all_words:
  assumes "\<And>u v. P u v \<longleftrightarrow> (\<forall>j < 64. Q (bit u j) (bit v j))"
    and "n \<le> length us" "n \<le> length vs"
  shows "(\<forall>k < n. P (us ! k) (vs ! k)) \<longleftrightarrow> (\<forall>i < 64 * n. Q (bits_of us i) (bits_of vs i))"
proof
  assume h: "\<forall>k < n. P (us ! k) (vs ! k)"
  show "\<forall>i < 64 * n. Q (bits_of us i) (bits_of vs i)"
  proof (intro allI impI)
    fix i assume i: "i < 64 * n"
    then have "i div 64 < n" by (simp add: div_less_iff_less_mult mult.commute)
    with h have "Q (bit (us ! (i div 64)) (i mod 64)) (bit (vs ! (i div 64)) (i mod 64))"
      by (simp add: assms(1))
    then show "Q (bits_of us i) (bits_of vs i)" using i assms(2,3) by (simp add: bits_of_def)
  qed
next
  assume h: "\<forall>i < 64 * n. Q (bits_of us i) (bits_of vs i)"
  have "Q (bit (us ! k) j) (bit (vs ! k) j)" if "k < n" "j < 64" for k j
  proof -
    have "64 * k + j < 64 * n" "(64 * k + j) div 64 = k" "(64 * k + j) mod 64 = j"
      using that by simp_all
    with h show ?thesis using assms(2,3) by (force simp: bits_of_def)
  qed
  then show "\<forall>k < n. P (us ! k) (vs ! k)" by (simp add: assms(1))
qed

lemma word_bits_eq: "(u = v) = (\<forall>j < 64. bit u j = bit v j)" for u v :: kword
  using bit_word_eqI [of u v] by auto

lemma is_equal_iff:
  assumes "bm_wf a" "bm_wf b" "0 < bm_size a"
  shows "kylin_bitmap_is_equal a b =
    Some (bm_size a = bm_size b \<and> (\<forall>i. bm_bit a i = bm_bit b i))"
proof (cases "bm_size a = bm_size b")
  case True
  have "kylin_bitmap_is_equal a b = Some (\<forall>k < bm_size a. bm_val a ! k = bm_val b ! k)"
    using assms True by (simp add: kylin_bitmap_is_equal_def bm_wf_def all_loop_nth2)
  also have "(\<forall>k < bm_size a. bm_val a ! k = bm_val b ! k) \<longleftrightarrow> (\<forall>i. bm_bit a i = bm_bit b i)"
    using bits_of_all_words [where P = "(=)" and Q = "(=)" and us = "bm_val a" and vs = "bm_val b"
        and n = "bm_size a", OF word_bits_eq] assms True bits_of_bound
    by (metis bm_wf_def order_refl)
  finally show ?thesis using True by simp
qed (simp add: kylin_bitmap_is_equal_def)

lemma is_intersects_iff:
  assumes "bm_wf a" "bm_wf b"
  shows "kylin_bitmap_is_intersects a b = Some (\<exists>i. bm_bit a i \<and> bm_bit b i)"
proof -
  define n where "n = min (bm_size a) (bm_size b)"
  have "kylin_bitmap_is_intersects a b =
      Some (\<not> (\<forall>k < n. bm_val a ! k AND bm_val b ! k = 0))"
    using assms by (simp add: kylin_bitmap_is_intersects_def bm_wf_def all_loop_nth2 n_def)
  also have "(\<forall>k < n. bm_val a ! k AND bm_val b ! k = 0)
      \<longleftrightarrow> (\<forall>i < 64 * n. \<not> (bm_bit a i \<and> bm_bit b i))"
    using bits_of_all_words [where P = "\<lambda>u v. u AND v = 0" and Q = "\<lambda>p q. \<not> (p \<and> q)"
        and us = "bm_val a" and vs = "bm_val b" and n = n] assms
    by (simp add: word_bits_eq bit_and_iff n_def bm_wf_def)
  also have "\<dots> \<longleftrightarrow> \<not> (\<exists>i. bm_bit a i \<and> bm_bit b i)"
    using assms bits_of_bound by (metis bm_wf_def min_def n_def)
  finally show ?thesis by simp
qed


lemma is_subset_iff:
  assumes "bm_wf p" "bm_wf c"
  shows "kylin_bitmap_is_subset p c =
    Some (\<forall>i < 64 * bm_size p. bm_bit c i \<longrightarrow> bm_bit p i)"
proof -
  define n where "n = min (bm_size p) (bm_size c)"
  have "kylin_bitmap_is_subset p c =
      Some (\<forall>k < n. bm_val c ! k AND NOT (bm_val p ! k) = 0)"
    using assms by (simp add: kylin_bitmap_is_subset_def Let_def bm_wf_def all_loop_nth2 n_def)
  also have "(\<forall>k < n. bm_val c ! k AND NOT (bm_val p ! k) = 0)
      \<longleftrightarrow> (\<forall>i < 64 * n. bm_bit c i \<longrightarrow> bm_bit p i)"
    using bits_of_all_words [where P = "\<lambda>u v. u AND NOT v = 0" and Q = "(\<longrightarrow>)"
        and us = "bm_val c" and vs = "bm_val p" and n = n] assms
    by (simp add: word_bits_eq bit_and_iff bit_not_iff n_def bm_wf_def)
  also have "\<dots> \<longleftrightarrow> (\<forall>i < 64 * bm_size p. bm_bit c i \<longrightarrow> bm_bit p i)"
    using assms bits_of_bound by (metis bm_wf_def min_def n_def order_less_le_trans mult_le_mono2 linear)
  finally show ?thesis .
qed

lemma is_empty_iff:
  assumes "bm_wf a"
  shows "kylin_bitmap_is_empty a = Some (\<forall>i. \<not> bm_bit a i)"
proof -
  have "kylin_bitmap_is_empty a = Some (\<forall>k < bm_size a. bm_val a ! k = 0)"
    using assms by (simp add: kylin_bitmap_is_empty_def bm_wf_def all_loop_nth)
  also have "(\<forall>k < bm_size a. bm_val a ! k = 0) \<longleftrightarrow> (\<forall>i < 64 * bm_size a. \<not> bm_bit a i)"
    using bits_of_all_words [where P = "\<lambda>u v. u = 0" and Q = "\<lambda>p q. \<not> p"
        and us = "bm_val a" and vs = "bm_val a" and n = "bm_size a"] assms
    by (simp add: word_bits_eq bm_wf_def)
  also have "\<dots> \<longleftrightarrow> (\<forall>i. \<not> bm_bit a i)" using assms bits_of_bound by (metis bm_wf_def)
  finally show ?thesis .
qed

lemma is_full_iff:
  assumes "bm_wf a"
  shows "kylin_bitmap_is_full a = Some (\<forall>i < 64 * bm_size a. bm_bit a i)"
proof -
  have "kylin_bitmap_is_full a = Some (\<forall>k < bm_size a. NOT (bm_val a ! k) = 0)"
    using assms by (simp add: kylin_bitmap_is_full_def bm_wf_def all_loop_nth)
  also have "(\<forall>k < bm_size a. NOT (bm_val a ! k) = 0) \<longleftrightarrow> (\<forall>i < 64 * bm_size a. bm_bit a i)"
    using bits_of_all_words [where P = "\<lambda>u v. NOT u = 0" and Q = "\<lambda>p q. p"
        and us = "bm_val a" and vs = "bm_val a" and n = "bm_size a"] assms
    by (simp add: word_bits_eq bm_wf_def bit_not_iff)
  finally show ?thesis .
qed

lemma complement_bits:
  assumes wf: "bm_wf dst" "bm_wf a" and ne: "0 < bm_size dst" "0 < bm_size a"
  shows "\<exists>bm'. kylin_bitmap_complement dst a = Some (KYLIN_ERROR_OK, bm')
    \<and> bm_wf bm' \<and> bm_size bm' = bm_size dst \<and> bm_opts bm' = bm_opts dst
    \<and> (\<forall>i. bm_bit bm' i = (if i < 64 * min (bm_size dst) (bm_size a) then \<not> bm_bit a i else bm_bit dst i))"
proof -
  let ?f = "\<lambda>u v. NOT u"
  have body: "(\<lambda>i vs. do { a' \<leftarrow> arr_get (bm_val a) i; b \<leftarrow> arr_get (bm_val a) i; arr_set vs i (NOT a') })
    = (\<lambda>i vs. do { a' \<leftarrow> arr_get (bm_val a) i; arr_set vs i (NOT a') })"
    by (intro ext) (auto simp: arr_get_def)
  have "kylin_bitmap_complement dst a = bitmap_zip ?f dst a a"
    by (simp add: kylin_bitmap_complement_def bitmap_zip_def body)
  moreover have "bit (?f u v) j = (\<not> bit u j)" if "j < 64" for u v :: kword and j
    using that by (simp add: bit_not_iff)
  ultimately show ?thesis
    using bitmap_zip_bits [OF wf(1,2,2) ne(1,2,2), of ?f "\<lambda>p q. \<not> p"] by simp
qed

lemma or_bits:
  assumes wf: "bm_wf dst" "bm_wf a" "bm_wf b" and ne: "0 < bm_size a" "0 < bm_size b"
    and sz: "bm_size dst = max (bm_size a) (bm_size b)"
  shows "\<exists>bm'. kylin_bitmap_or dst a b = Some (KYLIN_ERROR_OK, bm')
    \<and> bm_wf bm' \<and> bm_size bm' = bm_size dst \<and> bm_opts bm' = bm_opts dst
    \<and> (\<forall>i. bm_bit bm' i \<longleftrightarrow> bm_bit a i \<or> bm_bit b i)"
proof -
  define n where "n = bm_size dst"
  define g where "g = (\<lambda>i. if i < bm_size a \<and> i < bm_size b then bm_val a ! i OR bm_val b ! i
    else if i < bm_size a then bm_val a ! i else bm_val b ! i)"
  have len: "length (bm_val dst) = n" "length (bm_val a) = bm_size a" "length (bm_val b) = bm_size b"
    using wf by (simp_all add: bm_wf_def n_def)
  have m: "max n (max (bm_size a) (bm_size b)) = n" using sz by (simp add: n_def)
  let ?body = "\<lambda>i vs. if i < bm_size a \<and> i < bm_size b then do {
                  x \<leftarrow> arr_get (bm_val a) i; y \<leftarrow> arr_get (bm_val b) i; arr_set vs i (x OR y) }
                else if i < bm_size a then do { x \<leftarrow> arr_get (bm_val a) i; arr_set vs i x }
                else do { y \<leftarrow> arr_get (bm_val b) i; arr_set vs i y }"
  have "\<exists>d. for_loop [0..<n] ?body (bm_val dst) = Some d \<and> length d = n \<and>
    (\<forall>j < n. d ! j = (if 0 \<le> j \<and> j - 0 \<in> set [0..<n] then g (j - 0) else bm_val dst ! j))"
    by (intro for_loop_fill) (auto simp: g_def len n_def sz)
  then obtain d where d: "for_loop [0..<n] ?body (bm_val dst) = Some d" "length d = n"
    "\<And>j. j < n \<Longrightarrow> d ! j = g j" by auto
  have "bits_of d i \<longleftrightarrow> bm_bit a i \<or> bm_bit b i" for i
  proof -
    obtain k j where kj: "i div 64 = k" "i mod 64 = j" by simp
    show ?thesis unfolding bits_of_iff kj d(2) len
      using d(3) [of k] sz by (auto simp: g_def n_def bit_or_iff less_max_iff_disj split: if_splits)
  qed
  with d m ne sz show ?thesis
    by (simp add: kylin_bitmap_or_def bm_wf_def n_def)
qed

lemma copy_bits:
  assumes "bm_wf dst" "bm_wf a" "n \<le> bm_size dst" "n \<le> bm_size a"
  shows "\<exists>bm'. kylin_bitmap_copy dst a n = Some (KYLIN_ERROR_OK, bm')
    \<and> bm_wf bm' \<and> bm_size bm' = bm_size dst \<and> bm_opts bm' = bm_opts dst
    \<and> (\<forall>i. bm_bit bm' i = (if i < 64 * n then bm_bit a i else bm_bit dst i))"
proof -
  have len: "length (bm_val dst) = bm_size dst" "length (bm_val a) = bm_size a"
    using assms by (simp_all add: bm_wf_def)
  define d where "d = take n (bm_val a) @ drop n (bm_val dst)"
  have l: "length d = bm_size dst" using len assms by (simp add: d_def)
  have "bits_of d i = (if i < 64 * n then bm_bit a i else bm_bit dst i)" for i
  proof -
    have "i < 64 * n \<longleftrightarrow> i div 64 < n" by (simp add: div_less_iff_less_mult mult.commute)
    moreover obtain k j where kj: "i div 64 = k" "i mod 64 = j" by simp
    ultimately show ?thesis unfolding bits_of_iff kj l len
      using assms len by (auto simp: d_def nth_append)
  qed
  moreover have "kylin_bitmap_copy dst a n = Some (KYLIN_ERROR_OK, dst\<lparr>bm_val := d\<rparr>)"
    using assms len by (simp add: kylin_bitmap_copy_def buf_simps d_def min_def)
  ultimately show ?thesis using l by (simp add: bm_wf_def)
qed

lemma range_loop_steps:
  "bits \<le> len \<Longrightarrow> i < length vs \<Longrightarrow> bitmap_range_loop op vs i msk bits len =
     bitmap_range_loop op (vs[i := op (vs ! i) msk]) (i + 1) (NOT 0) 64 (len - bits)"
  "len < bits \<Longrightarrow> - (2 ^ 31) \<le> len - bits \<Longrightarrow> bitmap_range_loop op vs i msk bits len = Some (vs, i, msk, len)"
  by (subst bitmap_range_loop.simps; simp)+

subsection \<open>Properties\<close>

text \<open>
  C25. \<^verbatim>\<open>kylin_bitmap_set\<close> on a range inside the bitmap returns OK and sets exactly
  the bits of the range, for a start on a word boundary, for a range inside one word and
  for a range that ends on a word boundary; every other bit, the size and the options are kept.
\<close>

theorem kylin_bitmap_set_range:
  assumes "bm_wf bm" "0 \<le> sint len"
    and "unat start + nat (sint len) \<le> 64 * bm_size bm"
    and "unat start + nat (sint len) + 63 < 2 ^ 32"
    and "unat start mod 64 = 0 \<or> unat start mod 64 + nat (sint len) < 64
      \<or> (unat start + nat (sint len)) mod 64 = 0"
  shows "\<exists>bm'. kylin_bitmap_set bm start len = Some (KYLIN_ERROR_OK, bm')
    \<and> bm_wf bm' \<and> bm_size bm' = bm_size bm \<and> bm_opts bm' = bm_opts bm
    \<and> (\<forall>b. bm_bit bm' b \<longleftrightarrow>
          unat start \<le> b \<and> b < unat start + nat (sint len) \<or> bm_bit bm b)"
  using set_write.bitmap_range_ok [OF assms] unfolding kylin_bitmap_set_def by auto

definition zero_bitmap :: "nat \<Rightarrow> kbitmap" where
  "zero_bitmap n = \<lparr>bm_opts = \<lparr>cap = of_nat (64 * n), guard_ctor = None\<rparr>,
     bm_size = n, bm_val = replicate n 0\<rparr>"

theorem kylin_bitmap_set_range_witness:
  "\<exists>bm'. kylin_bitmap_set (zero_bitmap 3) 64 70 = Some (KYLIN_ERROR_OK, bm')
    \<and> bm_bit bm' 133 \<and> \<not> bm_bit bm' 134 \<and> \<not> bm_bit bm' 63"
proof -
  have "bm_wf (zero_bitmap 3)" "bm_size (zero_bitmap 3) = 3"
    "\<And>b. b = 134 \<or> b = 63 \<Longrightarrow> \<not> bm_bit (zero_bitmap 3) b"
    by (auto simp: bm_wf_def zero_bitmap_def bits_of_def)
  then show ?thesis
    using kylin_bitmap_set_range [of "zero_bitmap 3" 70 64] by auto
qed

text \<open>
  \<^verbatim>\<open>kylin_bitmap_clear\<close> under the same conditions clears exactly the bits of the range.
\<close>

theorem kylin_bitmap_clear_range:
  assumes "bm_wf bm" "0 \<le> sint len"
    and "unat start + nat (sint len) \<le> 64 * bm_size bm"
    and "unat start + nat (sint len) + 63 < 2 ^ 32"
    and "unat start mod 64 = 0 \<or> unat start mod 64 + nat (sint len) < 64
      \<or> (unat start + nat (sint len)) mod 64 = 0"
  shows "\<exists>bm'. kylin_bitmap_clear bm start len = Some (KYLIN_ERROR_OK, bm')
    \<and> bm_wf bm' \<and> bm_size bm' = bm_size bm \<and> bm_opts bm' = bm_opts bm
    \<and> (\<forall>b. bm_bit bm' b \<longleftrightarrow>
          \<not> (unat start \<le> b \<and> b < unat start + nat (sint len)) \<and> bm_bit bm b)"
  using clear_write.bitmap_range_ok [OF assms] unfolding kylin_bitmap_clear_def by auto

theorem kylin_bitmap_clear_range_witness:
  "\<exists>bm'. kylin_bitmap_clear ((zero_bitmap 3)\<lparr>bm_val := [NOT 0, NOT 0, NOT 0]\<rparr>) 3 125
      = Some (KYLIN_ERROR_OK, bm')
    \<and> bm_bit bm' 2 \<and> \<not> bm_bit bm' 3 \<and> \<not> bm_bit bm' 127 \<and> bm_bit bm' 128"
proof -
  let ?bm = "(zero_bitmap 3)\<lparr>bm_val := [NOT 0, NOT 0, NOT 0]\<rparr>"
  have "bm_wf ?bm" "bm_size ?bm = 3" "bm_bit ?bm 2" "bm_bit ?bm 128"
    by (auto simp: bm_wf_def zero_bitmap_def bits_of_def)
  then show ?thesis
    using kylin_bitmap_clear_range [of ?bm 125 3] by auto
qed

text \<open>
  The range is not respected when an unaligned range crosses a word boundary and ends
  inside a word: setting 64 bits from bit 1 of a clear two-word bitmap also sets bit 65,
  because the last mask is built from the length that the loop has already reduced.
\<close>

theorem kylin_bitmap_set_overrun:
  "\<exists>bm'. kylin_bitmap_set (zero_bitmap 2) 1 64 = Some (KYLIN_ERROR_OK, bm')
    \<and> bm_bit bm' 65 \<and> \<not> bm_bit (zero_bitmap 2) 65 \<and> \<not> 65 < unat (1 :: 32 word) + nat (sint (64 :: 32 word))"
proof -
  obtain opts where z: "zero_bitmap 2 = \<lparr>bm_opts = opts, bm_size = 2, bm_val = [0, 0]\<rparr>"
    by (simp add: zero_bitmap_def numeral_2_eq_2)
  have "kylin_bitmap_set (zero_bitmap 2) 1 64 = Some (KYLIN_ERROR_OK,
      \<lparr>bm_opts = opts, bm_size = 2, bm_val = [NOT 1, 3]\<rparr>)"
    by (subst z) (simp add: kylin_bitmap_set_def bitmap_range_def bits_to_words
      range_loop_steps BITMAP_WORD_INDEX_def BITMAP_FIRST_WORD_MASK_def
      BITMAP_LAST_WORD_MASK_def, code_simp)
  then show ?thesis by (simp add: bits_of_def z bit_numeral_rec)
qed

text \<open>
  Shifting left and then right by the same amount is the identity on every bit that the left shift does
  not push out of the bitmap, and clears the others.
\<close>

theorem kylin_bitmap_shift_left_right:
  assumes "bm_wf bm" "unat shift \<le> 64 * bm_size bm"
  shows "\<exists>bm1 bm2. kylin_bitmap_shift_left True bm shift = Some (KYLIN_ERROR_OK, bm1)
    \<and> kylin_bitmap_shift_right True bm1 shift = Some (KYLIN_ERROR_OK, bm2)
    \<and> bm_wf bm2 \<and> bm_size bm2 = bm_size bm
    \<and> (\<forall>i. bm_bit bm2 i \<longleftrightarrow> i + unat shift < 64 * bm_size bm \<and> bm_bit bm i)"
proof -
  from shift_left_bits [OF assms] obtain bm1 where
    bm1: "kylin_bitmap_shift_left True bm shift = Some (KYLIN_ERROR_OK, bm1)" "bm_wf bm1"
      "bm_size bm1 = bm_size bm" "\<And>i. bm_bit bm1 i \<longleftrightarrow>
          unat shift \<le> i \<and> i < 64 * bm_size bm \<and> bm_bit bm (i - unat shift)" by blast
  moreover from shift_right_bits [OF bm1(2)] bm1(3) assms(2) obtain bm2 where
    "kylin_bitmap_shift_right True bm1 shift = Some (KYLIN_ERROR_OK, bm2)" "bm_wf bm2"
      "bm_size bm2 = bm_size bm" "\<And>i. bm_bit bm2 i = bm_bit bm1 (i + unat shift)" by auto
  ultimately show ?thesis by auto
qed

theorem kylin_bitmap_shift_left_right_witness:
  "\<exists>bm1 bm2. kylin_bitmap_shift_left True ((zero_bitmap 2)\<lparr>bm_val := [5, 0]\<rparr>) 70 = Some (KYLIN_ERROR_OK, bm1)
    \<and> kylin_bitmap_shift_right True bm1 70 = Some (KYLIN_ERROR_OK, bm2)
    \<and> bm_bit bm2 2 \<and> \<not> bm_bit bm2 1"
proof -
  let ?bm = "(zero_bitmap 2)\<lparr>bm_val := [5, 0]\<rparr>"
  have "bm_wf ?bm" "bm_size ?bm = 2" "bm_bit ?bm 2" "\<not> bm_bit ?bm 1"
    by (auto simp: bm_wf_def zero_bitmap_def bits_of_def bit_numeral_rec)
  then show ?thesis
    using kylin_bitmap_shift_left_right [of ?bm 70] by auto
qed

text \<open>
  \<^verbatim>\<open>kylin_bitmap_andnot\<close> is set difference: its result has no bit in common with the
  second operand (\<^verbatim>\<open>is_intersects\<close> answers false), is a subset of the first
  (\<^verbatim>\<open>is_subset\<close> answers true), and or-ing back the second operand gives the union.
\<close>

theorem kylin_bitmap_andnot_difference:
  assumes "bm_wf dst" "bm_wf a" "bm_wf b" "0 < bm_size dst"
    and "bm_size a = bm_size dst" "bm_size b = bm_size dst"
  shows "\<exists>d u. kylin_bitmap_andnot dst a b = Some (KYLIN_ERROR_OK, d)
    \<and> kylin_bitmap_is_intersects d b = Some False
    \<and> kylin_bitmap_is_subset a d = Some True
    \<and> kylin_bitmap_or dst d b = Some (KYLIN_ERROR_OK, u)
    \<and> (\<forall>i. bm_bit u i \<longleftrightarrow> bm_bit a i \<or> bm_bit b i)"
proof -
  from bitmap_zip_bits [OF assms(1-4), of "\<lambda>x y. x AND NOT y" "\<lambda>p q. p \<and> \<not> q"] assms(4-6)
  obtain d where d: "kylin_bitmap_andnot dst a b = Some (KYLIN_ERROR_OK, d)" "bm_wf d"
    "bm_size d = bm_size dst" "\<And>i. i < 64 * bm_size dst \<Longrightarrow> bm_bit d i \<longleftrightarrow> bm_bit a i \<and> \<not> bm_bit b i"
    by (auto simp: bit_and_iff bit_not_iff kylin_bitmap_andnot_def)
  have bound: "bm_bit d i \<Longrightarrow> i < 64 * bm_size dst" "bm_bit a i \<Longrightarrow> i < 64 * bm_size dst"
    "bm_bit b i \<Longrightarrow> i < 64 * bm_size dst" for i
    using bits_of_bound assms d(2,3) by (metis bm_wf_def)+
  have "(\<exists>i. bm_bit d i \<and> bm_bit b i) = False" using d(4) bound(1) by blast
  then have i: "kylin_bitmap_is_intersects d b = Some False"
    by (simp only: is_intersects_iff [OF d(2) assms(3)])
  have "(\<forall>i < 64 * bm_size a. bm_bit d i \<longrightarrow> bm_bit a i) = True" using d(4) bound(1) by blast
  then have s: "kylin_bitmap_is_subset a d = Some True"
    by (simp only: is_subset_iff [OF assms(2) d(2)])
  have sz: "0 < bm_size d" "0 < bm_size b" "bm_size dst = max (bm_size d) (bm_size b)"
    using assms(4-6) d(3) by simp_all
  from or_bits [OF assms(1) d(2) assms(3) sz]
  obtain u where u: "kylin_bitmap_or dst d b = Some (KYLIN_ERROR_OK, u)"
    "\<And>i. bm_bit u i \<longleftrightarrow> bm_bit d i \<or> bm_bit b i" by blast
  have "bm_bit u i \<longleftrightarrow> bm_bit a i \<or> bm_bit b i" for i unfolding u(2) using d(4) bound by blast
  with d(1) i s u(1) show ?thesis by blast
qed

theorem kylin_bitmap_andnot_difference_witness:
  "\<exists>d. kylin_bitmap_andnot (zero_bitmap 1) ((zero_bitmap 1)\<lparr>bm_val := [7]\<rparr>)
        ((zero_bitmap 1)\<lparr>bm_val := [2]\<rparr>) = Some (KYLIN_ERROR_OK, d)
    \<and> kylin_bitmap_is_intersects d ((zero_bitmap 1)\<lparr>bm_val := [2]\<rparr>) = Some False"
  using kylin_bitmap_andnot_difference [of "zero_bitmap 1" "(zero_bitmap 1)\<lparr>bm_val := [7]\<rparr>"
      "(zero_bitmap 1)\<lparr>bm_val := [2]\<rparr>"]
  by (auto simp: bm_wf_def zero_bitmap_def)

text \<open>
  \<^verbatim>\<open>kylin_bitmap_dup\<close> of a bitmap made by \<^verbatim>\<open>kylin_bitmap_create\<close> from the library's
  allocator is a bitmap that \<^verbatim>\<open>kylin_bitmap_is_equal\<close> cannot tell from the original.
\<close>

theorem kylin_bitmap_dup_equal:
  assumes "bm_wf bm" "guard_ctor (bm_opts bm) = None" "bm_size bm = BITS_TO_WORDS (cap (bm_opts bm))"
    and "0 < bm_size bm"
  shows "\<exists>d. kylin_bitmap_dup True bm = Some (Some d) \<and> bm_opts d = bm_opts bm
    \<and> kylin_bitmap_is_equal d bm = Some True"
proof -
  define e where "e = \<lparr>bm_opts = bm_opts bm, bm_size = bm_size bm, bm_val = replicate (bm_size bm) 0\<rparr>"
  have c: "kylin_bitmap_create True (bm_opts bm) = Some e"
    using assms by (simp add: kylin_bitmap_create_def kylin_malloc_def e_def Let_def)
  have "bm_wf e" "bm_size e = bm_size bm" by (simp_all add: e_def bm_wf_def)
  with copy_bits [of e bm "bm_size bm"] assms(1) obtain d where
    d: "kylin_bitmap_copy e bm (bm_size bm) = Some (KYLIN_ERROR_OK, d)" "bm_wf d"
      "bm_size d = bm_size bm" "bm_opts d = bm_opts e"
      "\<And>i. bm_bit d i = (if i < 64 * bm_size bm then bm_bit bm i else bm_bit e i)" by auto
  have "bm_bit d i = bm_bit bm i" for i
  proof (cases "i < 64 * bm_size bm")
    case False
    then show ?thesis using assms(1) d(2,3) by (simp add: bits_of_def bm_wf_def)
  qed (simp add: d(5))
  then show ?thesis
    using c d is_equal_iff [of d bm] assms by (simp add: kylin_bitmap_dup_def e_def)
qed

theorem kylin_bitmap_dup_equal_witness:
  "\<exists>d. kylin_bitmap_dup True ((zero_bitmap 2)\<lparr>bm_val := [9, 1]\<rparr>) = Some (Some d)
    \<and> kylin_bitmap_is_equal d ((zero_bitmap 2)\<lparr>bm_val := [9, 1]\<rparr>) = Some True"
  using kylin_bitmap_dup_equal [of "(zero_bitmap 2)\<lparr>bm_val := [9, 1]\<rparr>"]
  by (auto simp: bm_wf_def zero_bitmap_def BITS_TO_WORDS_def)

end
