(* ===== verification/Kylin_Slices.thy ===== *)
theory Kylin_Slices
  imports Kylin_Prelude
begin

section \<open>Slices of a circular buffer\<close>

text \<open>
  The byte queue and the shared ring both store their content in consecutive cells of a
  buffer whose end is followed by its start. \<open>ring_slice\<close> reads such a stretch,
  \<open>ring_write\<close> is the buffer after a block was written behind it, in one piece or
  around the end.
\<close>

definition ring_slice :: "'a list \<Rightarrow> nat \<Rightarrow> nat \<Rightarrow> 'a list" where
  "ring_slice vs off n = map (\<lambda>i. vs ! ((off + i) mod length vs)) [0..<n]"

definition ring_write :: "'a list \<Rightarrow> nat \<Rightarrow> 'a list \<Rightarrow> 'a list" where
  "ring_write vs pos bs =
     (if pos + length bs \<le> length vs then take pos vs @ bs @ drop (pos + length bs) vs
      else drop (length vs - pos) bs @ take (pos - (length bs - (length vs - pos)))
             (drop (length bs - (length vs - pos)) vs) @ take (length vs - pos) bs)"

lemma length_ring_slice [simp]: "length (ring_slice vs off n) = n"
  by (simp add: ring_slice_def)

lemma ring_slice_nth: "i < n \<Longrightarrow> ring_slice vs off n ! i = vs ! ((off + i) mod length vs)"
  by (simp add: ring_slice_def)

lemma ring_slice_split: "ring_slice vs off (m + n) = ring_slice vs off m @ ring_slice vs (off + m) n"
  by (rule nth_equalityI) (auto simp: ring_slice_nth nth_append add.assoc)

lemma ring_slice_mod: "ring_slice vs (off mod length vs) n = ring_slice vs off n"
  by (rule nth_equalityI) (simp_all add: ring_slice_nth mod_add_left_eq)

lemma ring_slice_plain: "off + n \<le> length vs \<Longrightarrow> ring_slice vs off n = take n (drop off vs)"
  by (rule nth_equalityI) (auto simp: ring_slice_nth)

lemma ring_slice_wrap:
  assumes "off < length vs" "length vs \<le> off + n" "n \<le> length vs"
  shows "ring_slice vs off n = drop off vs @ take (off + n - length vs) vs"
proof -
  define m where "m = length vs - off"
  have "ring_slice vs off (m + (n - m)) = ring_slice vs off m @ ring_slice vs ((off + m) mod length vs) (n - m)"
    by (simp only: ring_slice_split ring_slice_mod)
  moreover have "m + (n - m) = n" "(off + m) mod length vs = 0" "n - m = off + n - length vs"
    using assms by (auto simp: m_def)
  ultimately show ?thesis
    using assms by (simp add: ring_slice_plain m_def)
qed

lemma ring_slice_cong:
  assumes "length vs = length ws"
    and "\<And>i. i < n \<Longrightarrow> vs ! ((off + i) mod length ws) = ws ! ((off + i) mod length ws)"
  shows "ring_slice vs off n = ring_slice ws off n"
  using assms by (intro nth_equalityI) (simp_all add: ring_slice_nth)

lemma length_ring_write:
  "pos < length vs \<Longrightarrow> length bs \<le> length vs \<Longrightarrow> length (ring_write vs pos bs) = length vs"
  by (auto simp: ring_write_def)

lemma ring_write_nth:
  assumes "pos < length vs" "length bs \<le> length vs" "i < length vs"
  shows "ring_write vs pos bs ! i =
    (if pos \<le> i \<and> i < pos + length bs then bs ! (i - pos)
     else if i + length vs < pos + length bs then bs ! (i + length vs - pos)
     else vs ! i)"
proof (cases "pos + length bs \<le> length vs")
  case True
  then show ?thesis using assms by (auto simp: ring_write_def nth_append)
next
  case False
  then show ?thesis using assms
    by (auto simp: ring_write_def nth_append min_def algebra_simps)
qed

lemma ring_write_slice:
  assumes "off < length vs" "n + length bs \<le> length vs" "pos = (off + n) mod length vs"
  shows "ring_slice (ring_write vs pos bs) off (n + length bs) = ring_slice vs off n @ bs"
proof -
  let ?L = "length vs" and ?w = "ring_write vs pos bs"
  have "0 < ?L" using assms(1) by linarith
  then have pos: "pos < ?L" using assms(3) by simp
  have len: "length ?w = ?L" using pos assms by (simp add: length_ring_write)
  have "ring_slice ?w off n = ring_slice vs off n"
  proof (rule ring_slice_cong [OF len])
    fix i assume i: "i < n"
    define j where "j = (off + i) mod ?L"
    have j: "j < ?L" using \<open>0 < ?L\<close> by (simp add: j_def)
    have p: "pos = (if off + n < ?L then off + n else off + n - ?L)" using assms by (simp add: mod_if)
    have "j = (if off + i < ?L then off + i else off + i - ?L)" using assms i by (simp add: j_def mod_if)
    then have "\<not> (pos \<le> j \<and> j < pos + length bs)" "\<not> j + ?L < pos + length bs"
      using i assms(1,2) p by (auto split: if_splits)
    then show "?w ! ((off + i) mod ?L) = vs ! ((off + i) mod ?L)"
      unfolding j_def [symmetric] using ring_write_nth [OF pos _ j] assms(2) by auto
  qed
  moreover have "ring_slice ?w (off + n) (length bs) = bs"
  proof (rule nth_equalityI)
    fix i assume "i < length (ring_slice ?w (off + n) (length bs))"
    then have i: "i < length bs" by simp
    have "(off + n + i) mod ?L = (pos + i) mod ?L" by (simp add: assms(3) mod_add_left_eq)
    moreover have "?w ! ((pos + i) mod ?L) = bs ! i"
      using i assms(2) pos by (auto simp: ring_write_nth mod_if)
    ultimately show "ring_slice ?w (off + n) (length bs) ! i = bs ! i"
      using i by (simp add: ring_slice_nth len)
  qed simp
  ultimately show ?thesis by (simp add: ring_slice_split)
qed

lemma ring_slice_update:
  assumes "off < length vs" "n < length vs" "pos = (off + n) mod length vs"
  shows "ring_slice (vs[pos := v]) off (n + 1) = ring_slice vs off n @ [v]"
proof -
  have "pos < length vs" using assms by (metis gr_implies_not0 mod_less_divisor neq0_conv)
  then have "vs[pos := v] = ring_write vs pos [v]"
    by (simp add: ring_write_def upd_conv_take_nth_drop)
  then show ?thesis using ring_write_slice [of off vs n "[v]" pos] assms by simp
qed

lemma circ_dist:
  fixes c h t :: nat
  assumes "h < c" "t < c"
  shows "(h + c - t) mod c = (if t \<le> h then h - t else h + c - t)"
  using assms by (auto simp: mod_if)

lemma circ_step:
  fixes c h t :: nat
  assumes "h < c" "t < c"
  shows "(h + 1) mod c = t \<longleftrightarrow> (h + c - t) mod c = c - 1"
    and "(h + c - t) mod c < c - 1 \<Longrightarrow> ((h + 1) mod c + c - t) mod c = (h + c - t) mod c + 1"
    and "h \<noteq> t \<Longrightarrow> (h + c - (t + 1) mod c) mod c = (h + c - t) mod c - 1"
    and "(t + (h + c - t) mod c) mod c = h"
    and "(h + c - t) mod c = 0 \<longleftrightarrow> h = t"
    and "(h + c - t) mod c < c"
proof -
  have s: "(x + 1) mod c = (if x + 1 = c then 0 else x + 1)" if "x < c" for x
    using that by auto
  have lt: "(x + 1) mod c < c" for x using assms by simp
  show "(h + 1) mod c = t \<longleftrightarrow> (h + c - t) mod c = c - 1"
    unfolding circ_dist [OF assms] s [OF assms(1)] using assms by auto
  show "(h + c - t) mod c < c - 1 \<Longrightarrow> ((h + 1) mod c + c - t) mod c = (h + c - t) mod c + 1"
    unfolding circ_dist [OF assms] circ_dist [OF lt assms(2)] unfolding s [OF assms(1)] using assms by (auto split: if_splits)
  show "h \<noteq> t \<Longrightarrow> (h + c - (t + 1) mod c) mod c = (h + c - t) mod c - 1"
    unfolding circ_dist [OF assms] circ_dist [OF assms(1) lt] unfolding s [OF assms(2)] using assms by (auto split: if_splits)
  show "(t + (h + c - t) mod c) mod c = h"
    unfolding circ_dist [OF assms] using assms by auto
  show "(h + c - t) mod c = 0 \<longleftrightarrow> h = t" using assms by (auto simp: circ_dist)
  show "(h + c - t) mod c < c" using assms by simp
qed

end
