(* ===== verification/Kylin_Fifo.thy ===== *)
theory Kylin_Fifo
  imports Kylin_Bitops Kylin_Slices
begin

section \<open>Byte queues (lib/core/math/kylin_fifo.c)\<close>

text \<open>
  The ring buffer of bytes. \<^verbatim>\<open>in\<close>, \<^verbatim>\<open>out\<close>, \<^verbatim>\<open>mask\<close>,
  \<^verbatim>\<open>cap\<close> and \<^verbatim>\<open>len\<close> are \<^verbatim>\<open>size_t\<close> values, so the sums
  of the guards wrap as in C; the result is the C \<^verbatim>\<open>int\<close> the functions return,
  \<^verbatim>\<open>len\<close> truncated to 32 bits or -1. The caller's buffer is a list of bytes, and
  a \<^verbatim>\<open>memcpy\<close> outside a buffer is \<open>None\<close>. The abstraction of a queue is the list of
  the bytes between \<^verbatim>\<open>out\<close> and \<^verbatim>\<open>in\<close>; the interface that clients rely on is
  the locale \<open>byte_queue\<close>, interpreted on the functions of the source.
\<close>

subsection \<open>Definitions\<close>

record kfifo_opts =
  fifo_cap :: ksize
  fifo_guard_ctor :: "(nat \<Rightarrow> bool) option"

record kfifo =
  fifo_opts :: kfifo_opts
  fifo_mask :: ksize
  fifo_in :: ksize
  fifo_out :: ksize
  fifo_is_full :: bool
  fifo_val :: "kbyte list"

definition kylin_fifo_create :: "bool \<Rightarrow> kfifo_opts \<Rightarrow> kfifo option" where
  "kylin_fifo_create ok opts =
     (if \<not> kylin_is_pow_of_two (fifo_cap opts) then None
      else if \<not> (case fifo_guard_ctor opts of Some ctor \<Rightarrow> ctor (unat (fifo_cap opts)) | None \<Rightarrow> ok)
      then None
      else Some \<lparr>fifo_opts = opts, fifo_mask = fifo_cap opts - 1, fifo_in = 0, fifo_out = 0,
                 fifo_is_full = False, fifo_val = replicate (unat (fifo_cap opts)) 0\<rparr>)"

definition kylin_fifo_put :: "kfifo \<Rightarrow> kbyte list \<Rightarrow> ksize \<Rightarrow> (32 word \<times> kfifo) option" where
  "kylin_fifo_put fifo buf len =
     (if len = 0 \<or> fifo_is_full fifo
         \<or> (fifo_in fifo < fifo_out fifo \<and> fifo_in fifo + len > fifo_out fifo)
         \<or> (fifo_in fifo \<ge> fifo_out fifo \<and> fifo_in fifo + len > fifo_mask fifo
             \<and> (fifo_in fifo + len) AND fifo_mask fifo > fifo_out fifo)
      then Some (-1, fifo)
      else if fifo_in fifo + len > fifo_cap (fifo_opts fifo) then do {
        let rest = fifo_cap (fifo_opts fifo) - fifo_in fifo;
        a \<leftarrow> buf_read buf 0 (unat rest);
        v \<leftarrow> buf_write (fifo_val fifo) (unat (fifo_in fifo)) a;
        b \<leftarrow> buf_read buf (unat rest) (unat (len - rest));
        v \<leftarrow> buf_write v 0 b;
        let fifo = fifo\<lparr>fifo_val := v, fifo_in := len - rest\<rparr>;
        Some (ucast len,
          if fifo_in fifo = fifo_out fifo then fifo\<lparr>fifo_is_full := True\<rparr> else fifo)
      } else do {
        a \<leftarrow> buf_read buf 0 (unat len);
        v \<leftarrow> buf_write (fifo_val fifo) (unat (fifo_in fifo)) a;
        Some (ucast len,
          fifo\<lparr>fifo_val := v, fifo_in := (fifo_in fifo + len) AND fifo_mask fifo\<rparr>)
      })"

text \<open>The guard and the copy that \<^verbatim>\<open>kylin_fifo_get\<close> and \<^verbatim>\<open>kylin_fifo_peek\<close> share.\<close>

definition fifo_short :: "kfifo \<Rightarrow> ksize \<Rightarrow> bool" where
  "fifo_short fifo len \<longleftrightarrow> len = 0 \<or> len > fifo_cap (fifo_opts fifo)
     \<or> (\<not> fifo_is_full fifo \<and>
        len > (if fifo_in fifo \<ge> fifo_out fifo then fifo_in fifo - fifo_out fifo
               else fifo_cap (fifo_opts fifo) - (fifo_out fifo - fifo_in fifo)))"

definition fifo_copy_out :: "kfifo \<Rightarrow> kbyte list \<Rightarrow> ksize \<Rightarrow> kbyte list option" where
  "fifo_copy_out fifo buf len =
     (if fifo_out fifo + len > fifo_cap (fifo_opts fifo) then do {
        let rest = fifo_cap (fifo_opts fifo) - fifo_out fifo;
        a \<leftarrow> buf_read (fifo_val fifo) (unat (fifo_out fifo)) (unat rest);
        buf \<leftarrow> buf_write buf 0 a;
        b \<leftarrow> buf_read (fifo_val fifo) 0 (unat (len - rest));
        buf_write buf (unat rest) b
      } else do {
        a \<leftarrow> buf_read (fifo_val fifo) (unat (fifo_out fifo)) (unat len);
        buf_write buf 0 a
      })"

definition kylin_fifo_get :: "kfifo \<Rightarrow> kbyte list \<Rightarrow> ksize \<Rightarrow> (32 word \<times> kbyte list \<times> kfifo) option" where
  "kylin_fifo_get fifo buf len =
     (if fifo_short fifo len then Some (-1, buf, fifo)
      else do {
        buf \<leftarrow> fifo_copy_out fifo buf len;
        let fifo =
          (if fifo_out fifo + len > fifo_cap (fifo_opts fifo)
           then fifo\<lparr>fifo_out := len - (fifo_cap (fifo_opts fifo) - fifo_out fifo)\<rparr>
           else fifo\<lparr>fifo_out := (fifo_out fifo + len) AND fifo_mask fifo\<rparr>);
        let fifo = (if fifo_is_full fifo then fifo\<lparr>fifo_is_full := False\<rparr> else fifo);
        Some (ucast len, buf, fifo)
      })"

definition kylin_fifo_peek :: "kfifo \<Rightarrow> kbyte list \<Rightarrow> ksize \<Rightarrow> (32 word \<times> kbyte list) option" where
  "kylin_fifo_peek fifo buf len =
     (if fifo_short fifo len then Some (-1, buf)
      else do {
        buf \<leftarrow> fifo_copy_out fifo buf len;
        Some (ucast len, buf)
      })"

subsection \<open>Abstraction\<close>

definition fifo_wf :: "kfifo \<Rightarrow> bool" where
  "fifo_wf f \<longleftrightarrow> kylin_is_pow_of_two (fifo_cap (fifo_opts f))
     \<and> fifo_mask f = fifo_cap (fifo_opts f) - 1
     \<and> length (fifo_val f) = unat (fifo_cap (fifo_opts f))
     \<and> fifo_in f < fifo_cap (fifo_opts f) \<and> fifo_out f < fifo_cap (fifo_opts f)
     \<and> (fifo_is_full f \<longrightarrow> fifo_in f = fifo_out f)"

definition fifo_used :: "kfifo \<Rightarrow> nat" where
  "fifo_used f =
     (if fifo_is_full f then unat (fifo_cap (fifo_opts f))
      else if fifo_in f \<ge> fifo_out f then unat (fifo_in f) - unat (fifo_out f)
      else unat (fifo_cap (fifo_opts f)) - (unat (fifo_out f) - unat (fifo_in f)))"

definition fifo_free :: "kfifo \<Rightarrow> nat" where
  "fifo_free f = unat (fifo_cap (fifo_opts f)) - fifo_used f"

definition fifo_content :: "kfifo \<Rightarrow> kbyte list" where
  "fifo_content f = ring_slice (fifo_val f) (unat (fifo_out f)) (fifo_used f)"

text \<open>A byte queue as its clients see it.\<close>

fun queue_spec :: "nat \<Rightarrow> kbyte list \<Rightarrow> byte_op list \<Rightarrow> (kbyte list list \<times> kbyte list) option" where
  "queue_spec c q [] = Some ([], q)"
| "queue_spec c q (Put bs # ops) =
     (if bs = [] \<or> c \<le> length q + length bs then None else queue_spec c (q @ bs) ops)"
| "queue_spec c q (Get n # ops) =
     (if n = 0 \<or> length q < n then None
      else do { (outs, r) \<leftarrow> queue_spec c (drop n q) ops; Some (take n q # outs, r) })"

definition fifo_put :: "kfifo \<Rightarrow> kbyte list \<Rightarrow> kfifo option" where
  "fifo_put f bs = do {
     (r, f) \<leftarrow> kylin_fifo_put f bs (of_nat (length bs));
     if r = -1 then None else Some f }"

definition fifo_get :: "kfifo \<Rightarrow> nat \<Rightarrow> (kbyte list \<times> kfifo) option" where
  "fifo_get f n = do {
     (r, bs, f) \<leftarrow> kylin_fifo_get f (replicate n 0) (of_nat n);
     if r = -1 then None else Some (bs, f) }"

definition fifo_inv :: "nat \<Rightarrow> kfifo \<Rightarrow> bool" where
  "fifo_inv c f \<longleftrightarrow> fifo_wf f \<and> unat (fifo_cap (fifo_opts f)) = c \<and> c < 2 ^ 31"

subsection \<open>The guards as numbers\<close>

lemma fifo_capE:
  assumes "fifo_wf f"
  obtains k where "k < 64" "fifo_cap (fifo_opts f) = 2 ^ k" "unat (fifo_cap (fifo_opts f)) = 2 ^ k"
    "fifo_mask f = mask k"
proof -
  from assms obtain k where k: "k < 64" "fifo_cap (fifo_opts f) = 2 ^ k"
    by (auto simp: fifo_wf_def kylin_is_pow_of_two_iff)
  moreover have "unat (2 ^ k :: kword) = 2 ^ k" using k by (simp add: unat_pow2)
  moreover have "fifo_mask f = mask k" using assms k by (simp add: fifo_wf_def mask_eq_exp_minus_1)
  ultimately show ?thesis using that by metis
qed

lemma fifo_and_mask: "fifo_wf f \<Longrightarrow> unat (x AND fifo_mask f) = unat x mod unat (fifo_cap (fifo_opts f))"
  by (elim fifo_capE) (simp only: unat_and_mask_eq_mod)

lemma fifo_bounds:
  assumes "fifo_wf f"
  shows "unat (fifo_in f) < unat (fifo_cap (fifo_opts f))" "unat (fifo_out f) < unat (fifo_cap (fifo_opts f))"
    "unat (fifo_cap (fifo_opts f)) \<le> 2 ^ 63" "0 < unat (fifo_cap (fifo_opts f))"
    "length (fifo_val f) = unat (fifo_cap (fifo_opts f))" "fifo_is_full f \<longrightarrow> fifo_in f = fifo_out f"
    "unat (fifo_mask f) = unat (fifo_cap (fifo_opts f)) - 1"
proof -
  obtain k where k: "k < 64" "unat (fifo_cap (fifo_opts f)) = 2 ^ k" "fifo_mask f = mask k"
    using assms by (rule fifo_capE)
  show "unat (fifo_cap (fifo_opts f)) \<le> 2 ^ 63" using k power_increasing [of k 63 "2 :: nat"] by simp
  show "0 < unat (fifo_cap (fifo_opts f))" by (simp add: k)
  have "fifo_cap (fifo_opts f) \<noteq> 0" using k(2) by (metis unat_0 power_eq_0_iff zero_neq_numeral)
  then show "unat (fifo_mask f) = unat (fifo_cap (fifo_opts f)) - 1"
    using assms by (simp add: fifo_wf_def unat_minus_one)
qed (use assms in \<open>auto simp: fifo_wf_def word_less_nat_alt\<close>)

lemma fifo_in_eq:
  assumes "fifo_wf f"
  shows "unat (fifo_in f) = (unat (fifo_out f) + fifo_used f) mod unat (fifo_cap (fifo_opts f))"
    and "fifo_used f \<le> unat (fifo_cap (fifo_opts f))"
  using fifo_bounds [OF assms] by (auto simp: fifo_used_def word_le_nat_alt mod_if)

lemma fifo_put_guard:
  assumes wf: "fifo_wf f" and "unat len \<le> unat (fifo_cap (fifo_opts f))"
  shows "(len = 0 \<or> fifo_is_full f
         \<or> (fifo_in f < fifo_out f \<and> fifo_in f + len > fifo_out f)
         \<or> (fifo_in f \<ge> fifo_out f \<and> fifo_in f + len > fifo_mask f
             \<and> (fifo_in f + len) AND fifo_mask f > fifo_out f))
    \<longleftrightarrow> len = 0 \<or> fifo_free f < unat len"
    and "unat (fifo_in f + len) = unat (fifo_in f) + unat len"
proof -
  note b = fifo_bounds [OF wf]
  show s: "unat (fifo_in f + len) = unat (fifo_in f) + unat len"
    using b(1,3) assms(2) by (intro unat_add_noflow) simp
  have z: "len = 0 \<longleftrightarrow> unat len = 0" by (simp add: unat_eq_0)
  show "(len = 0 \<or> fifo_is_full f
         \<or> (fifo_in f < fifo_out f \<and> fifo_in f + len > fifo_out f)
         \<or> (fifo_in f \<ge> fifo_out f \<and> fifo_in f + len > fifo_mask f
             \<and> (fifo_in f + len) AND fifo_mask f > fifo_out f))
    \<longleftrightarrow> len = 0 \<or> fifo_free f < unat len"
    unfolding z word_less_nat_alt word_le_nat_alt fifo_and_mask [OF wf] s b(7)
    using b assms(2)
    by (auto simp: fifo_free_def fifo_used_def word_le_nat_alt mod_if)
qed


subsection \<open>Put\<close>

lemma kylin_fifo_put_reject:
  assumes "fifo_wf f" "unat len \<le> unat (fifo_cap (fifo_opts f))" "len = 0 \<or> fifo_free f < unat len"
  shows "kylin_fifo_put f buf len = Some (-1, f)"
  using fifo_put_guard(1) [OF assms(1,2)] assms(3) by (simp add: kylin_fifo_put_def)

lemma kylin_fifo_put_accept:
  assumes wf: "fifo_wf f" and len: "0 < unat len" "unat len \<le> fifo_free f" "unat len \<le> length buf"
  shows "\<exists>f'. kylin_fifo_put f buf len = Some (ucast len, f') \<and> fifo_wf f'
    \<and> fifo_opts f' = fifo_opts f \<and> fifo_out f' = fifo_out f
    \<and> fifo_val f' = ring_write (fifo_val f) (unat (fifo_in f)) (take (unat len) buf)
    \<and> unat (fifo_in f') = (unat (fifo_in f) + unat len) mod unat (fifo_cap (fifo_opts f))
    \<and> fifo_is_full f' = (unat (fifo_cap (fifo_opts f)) < unat (fifo_in f) + unat len
         \<and> fifo_in f' = fifo_out f)"
proof -
  note b = fifo_bounds [OF wf]
  define c i l where "c = unat (fifo_cap (fifo_opts f))" and "i = unat (fifo_in f)" and "l = unat len"
  note d = c_def [symmetric] i_def [symmetric] l_def [symmetric]
  have lc: "l \<le> c" using len(2) by (simp add: fifo_free_def d)
  then have lc': "unat len \<le> unat (fifo_cap (fifo_opts f))" by (simp add: d)
  have nz: "len \<noteq> 0" using len(1) by auto
  have nfull: "\<not> fifo_is_full f" using len by (auto simp: fifo_free_def fifo_used_def)
  note g = fifo_put_guard [OF wf lc']
  have g1: "\<not> (len = 0 \<or> fifo_is_full f
         \<or> (fifo_in f < fifo_out f \<and> fifo_in f + len > fifo_out f)
         \<or> (fifo_in f \<ge> fifo_out f \<and> fifo_in f + len > fifo_mask f
             \<and> (fifo_in f + len) AND fifo_mask f > fifo_out f))"
    unfolding g(1) using nz len(2) by simp
  have il: "length (fifo_val f) = c" "i < c" "c \<le> 2 ^ 63" using b by (simp_all add: d)
  have wlen: "length (ring_write (fifo_val f) i (take l buf)) = c"
    using il lc len(3) by (simp add: length_ring_write d)
  have gt: "fifo_in f + len > fifo_cap (fifo_opts f) \<longleftrightarrow> c < i + l"
    by (simp add: word_less_nat_alt g(2) d)
  show ?thesis
  proof (cases "c < i + l")
    case True
    define rest where "rest = fifo_cap (fifo_opts f) - fifo_in f"
    have r: "unat rest = c - i" using il by (simp add: rest_def unat_sub word_le_nat_alt d)
    have lr: "unat (len - rest) = l - (c - i)"
      using True il r by (subst unat_sub) (simp_all add: word_le_nat_alt d)
    define f' where "f' = f\<lparr>fifo_val := ring_write (fifo_val f) i (take l buf), fifo_in := len - rest,
      fifo_is_full := (len - rest = fifo_out f)\<rparr>"
    have v: "buf_write (fifo_val f) i (take (c - i) buf)
        = Some (take i (fifo_val f) @ take (c - i) buf)"
      using True il lc len(3) by (simp add: buf_write_def d min_def)
    have w: "buf_write (take i (fifo_val f) @ take (c - i) buf) 0 (take (l - (c - i)) (drop (c - i) buf))
        = Some (ring_write (fifo_val f) i (take l buf))"
    proof -
      obtain r where r: "c - i = r" by simp
      have "r \<le> l" "l - r \<le> i" "i + r = c" using r True il lc by linarith+
      then show ?thesis using True il lc len(3)
        unfolding r by (simp add: buf_write_def ring_write_def d r drop_take min_def)
    qed
    have "kylin_fifo_put f buf len = Some (ucast len, f')"
      unfolding kylin_fifo_put_def if_not_P [OF g1] gt if_P [OF True] Let_def
        rest_def [symmetric] r lr i_def [symmetric]
      using True il lc len(3) v w nfull
      by (simp add: buf_read_def d f'_def)
    moreover have "(i + l) mod c = l - (c - i)" using True il lc by (auto simp: mod_if)
    moreover have "fifo_wf f'" using wf wlen lr il True lc
      by (simp add: fifo_wf_def f'_def word_less_nat_alt d)
    ultimately show ?thesis using lr True by (simp add: f'_def d)
  next
    case False
    define f' where "f' = f\<lparr>fifo_val := ring_write (fifo_val f) i (take l buf),
      fifo_in := (fifo_in f + len) AND fifo_mask f\<rparr>"
    have a: "unat ((fifo_in f + len) AND fifo_mask f) = (i + l) mod c"
      by (simp add: fifo_and_mask [OF wf] g(2) d)
    have w: "buf_write (fifo_val f) i (take l buf) = Some (ring_write (fifo_val f) i (take l buf))"
      using False il lc len(3) by (simp add: buf_write_def ring_write_def d min_def)
    have "kylin_fifo_put f buf len = Some (ucast len, f')"
      unfolding kylin_fifo_put_def if_not_P [OF g1] gt if_not_P [OF False] i_def [symmetric] l_def [symmetric]
      using len(3) w by (simp add: buf_read_def d f'_def)
    moreover have "fifo_wf f'" using wf wlen a il nfull
      by (simp add: fifo_wf_def f'_def word_less_nat_alt d)
    ultimately show ?thesis using a nfull False by (simp add: f'_def d)
  qed
qed

lemma used_step:
  fixes c i p l u i' :: nat
  assumes "i < c" "p < c" "u = (if p \<le> i then i - p else c - (p - i))" "0 < l"
    and "l < c - u \<or> l = c - u \<and> c < i + l" "i' = (i + l) mod c"
  shows "(if c < i + l \<and> i' = p then c else if p \<le> i' then i' - p else c - (p - i')) = u + l"
proof -
  have l: "l \<le> c - u" using assms(5) by auto
  consider "i + l < c" | "i + l = c" | "c < i + l" by linarith
  then show ?thesis
  proof cases
    case 1
    then have "i' = i + l" using assms(6) by simp
    with 1 assms l show ?thesis by (cases "p \<le> i") auto
  next
    case 2
    then have "i' = 0" using assms(6) by simp
    with 2 assms l show ?thesis by (cases "p \<le> i") auto
  next
    case 3
    have "i + l < 2 * c" using assms(1) l by linarith
    with 3 have "i' = i + l - c" using assms(6) by (simp add: mod_if)
    with 3 assms l show ?thesis by (cases "p \<le> i") auto
  qed
qed

lemma kylin_fifo_put_content:
  assumes wf: "fifo_wf f" and len: "0 < unat len" "unat len \<le> length buf"
    and room: "unat len < fifo_free f \<or>
      unat len = fifo_free f \<and> unat (fifo_cap (fifo_opts f)) < unat (fifo_in f) + unat len"
  shows "\<exists>f'. kylin_fifo_put f buf len = Some (ucast len, f') \<and> fifo_wf f'
    \<and> fifo_opts f' = fifo_opts f \<and> fifo_used f' = fifo_used f + unat len
    \<and> fifo_content f' = fifo_content f @ take (unat len) buf"
proof -
  have "unat len \<le> fifo_free f" using room by auto
  from kylin_fifo_put_accept [OF wf len(1) this len(2)] obtain f' where
    f': "kylin_fifo_put f buf len = Some (ucast len, f')" "fifo_wf f'"
      "fifo_opts f' = fifo_opts f" "fifo_out f' = fifo_out f"
      "fifo_val f' = ring_write (fifo_val f) (unat (fifo_in f)) (take (unat len) buf)"
      "unat (fifo_in f') = (unat (fifo_in f) + unat len) mod unat (fifo_cap (fifo_opts f))"
      "fifo_is_full f' = (unat (fifo_cap (fifo_opts f)) < unat (fifo_in f) + unat len
         \<and> fifo_in f' = fifo_out f)" by blast
  note b = fifo_bounds [OF wf] and e = fifo_in_eq [OF wf]
  have u: "fifo_used f' = fifo_used f + unat len"
  proof -
    have "\<not> fifo_is_full f" using room len(1) by (auto simp: fifo_free_def fifo_used_def)
    then have "fifo_used f = (if unat (fifo_out f) \<le> unat (fifo_in f) then unat (fifo_in f) - unat (fifo_out f)
        else unat (fifo_cap (fifo_opts f)) - (unat (fifo_out f) - unat (fifo_in f)))"
      by (simp add: fifo_used_def word_le_nat_alt)
    from used_step [OF b(1,2) this len(1) room [unfolded fifo_free_def] f'(6)]
    show ?thesis by (simp only: fifo_used_def [of f'] word_le_nat_alt f'(3,4,7) word_eq_iff_unat)
  qed
  have "fifo_content f' = ring_slice (ring_write (fifo_val f) (unat (fifo_in f)) (take (unat len) buf))
      (unat (fifo_out f)) (fifo_used f + length (take (unat len) buf))"
    using f'(4,5) u len(2) by (simp add: fifo_content_def min_def)
  also have "\<dots> = fifo_content f @ take (unat len) buf"
    unfolding fifo_content_def
    using b e(2) room len(2) by (intro ring_write_slice) (auto simp: fifo_free_def e(1))
  finally show ?thesis using f' u by blast
qed


subsection \<open>Get and peek\<close>

lemma fifo_short_iff:
  assumes wf: "fifo_wf f"
  shows "fifo_short f len \<longleftrightarrow> len = 0 \<or> fifo_used f < unat len"
proof -
  note b = fifo_bounds [OF wf]
  have "fifo_out f \<le> fifo_in f \<Longrightarrow> unat (fifo_in f - fifo_out f) = unat (fifo_in f) - unat (fifo_out f)"
    by (rule unat_sub)
  moreover have "unat (fifo_cap (fifo_opts f) - (fifo_out f - fifo_in f))
      = unat (fifo_cap (fifo_opts f)) - (unat (fifo_out f) - unat (fifo_in f))" if "\<not> fifo_out f \<le> fifo_in f"
  proof -
    have "unat (fifo_out f - fifo_in f) = unat (fifo_out f) - unat (fifo_in f)"
      using that by (intro unat_sub) auto
    with b(2) show ?thesis by (subst unat_sub) (auto simp: word_le_nat_alt)
  qed
  ultimately show ?thesis using b fifo_in_eq(2) [OF wf]
    by (auto simp: fifo_short_def fifo_used_def word_less_nat_alt)
qed

lemma fifo_copy_out_ok:
  assumes wf: "fifo_wf f" and len: "unat len \<le> fifo_used f" "unat len \<le> length buf"
  shows "fifo_copy_out f buf len = Some (take (unat len) (fifo_content f) @ drop (unat len) buf)"
    and "unat (fifo_out f + len) = unat (fifo_out f) + unat len"
proof -
  note b = fifo_bounds [OF wf]
  define c p l where "c = unat (fifo_cap (fifo_opts f))" and "p = unat (fifo_out f)" and "l = unat len"
  note d = c_def [symmetric] p_def [symmetric] l_def [symmetric]
  have il: "length (fifo_val f) = c" "p < c" "c \<le> 2 ^ 63" "l \<le> c" "l \<le> length buf"
    using b len fifo_in_eq(2) [OF wf] by (simp_all add: d)
  show s: "unat (fifo_out f + len) = unat (fifo_out f) + unat len"
    using il by (intro unat_add_noflow) (simp add: d)
  have "fifo_used f = l + (fifo_used f - l)" using len(1) by (simp add: d)
  then have "ring_slice (fifo_val f) p (fifo_used f) =
      ring_slice (fifo_val f) p l @ ring_slice (fifo_val f) (p + l) (fifo_used f - l)"
    by (metis ring_slice_split)
  then have t: "take l (fifo_content f) = ring_slice (fifo_val f) p l"
    by (simp add: fifo_content_def d)
  have gt: "fifo_out f + len > fifo_cap (fifo_opts f) \<longleftrightarrow> c < p + l"
    by (simp add: word_less_nat_alt s d)
  show "fifo_copy_out f buf len = Some (take (unat len) (fifo_content f) @ drop (unat len) buf)"
  proof (cases "c < p + l")
    case True
    define rest where "rest = fifo_cap (fifo_opts f) - fifo_out f"
    obtain r where r': "c - p = r" by simp
    have r: "unat rest = r" using il r' by (simp add: rest_def unat_sub word_le_nat_alt d)
    have rl: "r < l" "p + r = c" "l - r \<le> p" using True il r' by linarith+
    have lr: "unat (len - rest) = l - r"
      using rl r by (subst unat_sub) (simp_all add: word_le_nat_alt d)
    have "p + l - c = l - r" using rl by linarith
    then have "ring_slice (fifo_val f) p l = drop p (fifo_val f) @ take (l - r) (fifo_val f)"
      using ring_slice_wrap [of p "fifo_val f" l] il True by simp
    then show ?thesis
      unfolding fifo_copy_out_def gt if_P [OF True] Let_def rest_def [symmetric] r lr d t
      using il rl by (simp add: buf_read_def buf_write_def)
  next
    case False
    then show ?thesis
      unfolding fifo_copy_out_def gt if_not_P [OF False] d t
      using il by (simp add: buf_read_def buf_write_def ring_slice_plain)
  qed
qed

lemma kylin_fifo_get_reject:
  "fifo_wf f \<Longrightarrow> len = 0 \<or> fifo_used f < unat len \<Longrightarrow> kylin_fifo_get f buf len = Some (-1, buf, f)"
  "fifo_wf f \<Longrightarrow> len = 0 \<or> fifo_used f < unat len \<Longrightarrow> kylin_fifo_peek f buf len = Some (-1, buf)"
  by (simp_all add: kylin_fifo_get_def kylin_fifo_peek_def fifo_short_iff)

lemma kylin_fifo_peek_ok:
  assumes "fifo_wf f" "0 < unat len" "unat len \<le> fifo_used f" "unat len \<le> length buf"
  shows "kylin_fifo_peek f buf len =
    Some (ucast len, take (unat len) (fifo_content f) @ drop (unat len) buf)"
proof -
  have "\<not> fifo_short f len" using assms(2,3) by (auto simp: fifo_short_iff [OF assms(1)])
  then show ?thesis using fifo_copy_out_ok(1) [OF assms(1,3,4)] by (simp add: kylin_fifo_peek_def)
qed

lemma used_drop:
  fixes c i p l u p' :: nat
  assumes "i < c" "p < c" "full \<longrightarrow> i = p" "u = (if full then c else if p \<le> i then i - p else c - (p - i))"
    and "0 < l" "l \<le> u" "p' = (p + l) mod c"
  shows "(if p' \<le> i then i - p' else c - (p' - i)) = u - l"
proof -
  consider "p + l < c" | "p + l = c" | "c < p + l" by linarith
  then show ?thesis
  proof cases
    case 1
    then have "p' = p + l" using assms(7) by simp
    with 1 assms show ?thesis by (auto split: if_splits)
  next
    case 2
    then have "p' = 0" using assms(7) by simp
    with 2 assms show ?thesis by (auto split: if_splits)
  next
    case 3
    have "p + l < 2 * c" using assms by (auto split: if_splits)
    with 3 have "p' = p + l - c" using assms(7) by (simp add: mod_if)
    with 3 assms show ?thesis by (auto split: if_splits)
  qed
qed

lemma kylin_fifo_get_ok:
  assumes wf: "fifo_wf f" and len: "0 < unat len" "unat len \<le> fifo_used f" "unat len \<le> length buf"
  shows "\<exists>f'. kylin_fifo_get f buf len =
      Some (ucast len, take (unat len) (fifo_content f) @ drop (unat len) buf, f')
    \<and> fifo_wf f' \<and> fifo_opts f' = fifo_opts f \<and> fifo_used f' = fifo_used f - unat len
    \<and> fifo_content f' = drop (unat len) (fifo_content f)"
proof -
  note b = fifo_bounds [OF wf] and co = fifo_copy_out_ok [OF wf len(2,3)]
  define c p l where "c = unat (fifo_cap (fifo_opts f))" and "p = unat (fifo_out f)" and "l = unat len"
  note d = c_def [symmetric] p_def [symmetric] l_def [symmetric]
  have il: "p < c" "l \<le> c" using b len fifo_in_eq(2) [OF wf] by (simp_all add: d)
  have ns: "\<not> fifo_short f len" using len by (auto simp: fifo_short_iff [OF wf])
  define q where "q = (if fifo_out f + len > fifo_cap (fifo_opts f)
     then len - (fifo_cap (fifo_opts f) - fifo_out f) else (fifo_out f + len) AND fifo_mask f)"
  define f' where "f' = f\<lparr>fifo_out := q, fifo_is_full := False\<rparr>"
  have gt: "fifo_out f + len > fifo_cap (fifo_opts f) \<longleftrightarrow> c < p + l"
    by (simp add: word_less_nat_alt co(2) d)
  have q: "unat q = (p + l) mod c"
  proof (cases "c < p + l")
    case True
    have r: "unat (fifo_cap (fifo_opts f) - fifo_out f) = c - p"
      using il by (simp add: unat_sub word_le_nat_alt d)
    have "unat q = l - (c - p)"
      unfolding q_def gt using True r by (subst if_P, simp, subst unat_sub) (auto simp: word_le_nat_alt d)
    then show ?thesis using True il by (auto simp: mod_if)
  next
    case False
    then show ?thesis unfolding q_def gt by (simp add: fifo_and_mask [OF wf] co(2) d)
  qed
  have g: "kylin_fifo_get f buf len =
      Some (ucast len, take (unat len) (fifo_content f) @ drop (unat len) buf, f')"
    using ns co(1) by (simp add: kylin_fifo_get_def f'_def q_def Let_def)
  have wf': "fifo_wf f'" using wf q il by (simp add: fifo_wf_def f'_def word_less_nat_alt d)
  have u: "fifo_used f' = fifo_used f - l"
  proof -
    have "fifo_used f = (if fifo_is_full f then c else if p \<le> unat (fifo_in f) then unat (fifo_in f) - p
        else c - (p - unat (fifo_in f)))" by (simp add: fifo_used_def word_le_nat_alt d)
    moreover have "fifo_is_full f \<longrightarrow> unat (fifo_in f) = p" using b(6) by (auto simp: d)
    ultimately have "(if unat q \<le> unat (fifo_in f) then unat (fifo_in f) - unat q
        else c - (unat q - unat (fifo_in f))) = fifo_used f - l"
      using used_drop b(1) il(1) len q by (metis c_def l_def)
    moreover have "fifo_used f' = (if unat q \<le> unat (fifo_in f) then unat (fifo_in f) - unat q
        else c - (unat q - unat (fifo_in f)))"
      unfolding f'_def fifo_used_def by (simp add: word_le_nat_alt d)
    ultimately show ?thesis by simp
  qed
  have "fifo_used f = l + (fifo_used f - l)" using len(2) by (simp add: d)
  then have "fifo_content f = ring_slice (fifo_val f) p l @ ring_slice (fifo_val f) (p + l) (fifo_used f - l)"
    by (metis fifo_content_def p_def ring_slice_split)
  moreover have "ring_slice (fifo_val f) (p + l) (fifo_used f - l) = fifo_content f'"
    using u q ring_slice_mod [of "fifo_val f" "p + l"] b(5) by (simp add: fifo_content_def f'_def d)
  ultimately have "fifo_content f' = drop l (fifo_content f)" by simp
  with g wf' u show ?thesis by (auto simp: f'_def d)
qed


subsection \<open>The queue interface\<close>

locale byte_queue =
  fixes c :: nat and inv :: "'q \<Rightarrow> bool" and content :: "'q \<Rightarrow> kbyte list"
    and put :: "'q \<Rightarrow> kbyte list \<Rightarrow> 'q option" and get :: "'q \<Rightarrow> nat \<Rightarrow> (kbyte list \<times> 'q) option"
  assumes put_law: "inv q \<Longrightarrow> bs \<noteq> [] \<Longrightarrow> length (content q) + length bs < c \<Longrightarrow>
      \<exists>q'. put q bs = Some q' \<and> inv q' \<and> content q' = content q @ bs"
    and get_law: "inv q \<Longrightarrow> 0 < n \<Longrightarrow> n \<le> length (content q) \<Longrightarrow>
      \<exists>q'. get q n = Some (take n (content q), q') \<and> inv q' \<and> content q' = drop n (content q)"
    and get_short: "inv q \<Longrightarrow> length (content q) < n \<Longrightarrow> n < 2 ^ 32 \<Longrightarrow> get q n = None"
begin

lemma put_then_get:
  assumes "inv q" "bs \<noteq> []" "length (content q) + length bs < c"
  shows "\<exists>q1 q2. put q bs = Some q1 \<and> get q1 (length (content q) + length bs) = Some (content q @ bs, q2)
    \<and> inv q2 \<and> content q2 = []"
proof -
  obtain q1 where q1: "put q bs = Some q1" "inv q1" "content q1 = content q @ bs"
    using put_law [OF assms] by blast
  then show ?thesis using get_law [of q1 "length (content q) + length bs"] assms(2) by auto
qed

lemma run_refines:
  assumes "inv q" "queue_spec c (content q) ops = Some (outs, r)"
  shows "\<exists>q'. run_ops put get q ops = Some (outs, q') \<and> inv q' \<and> content q' = r"
  using assms
proof (induction ops arbitrary: q outs)
  case Nil
  then show ?case by simp
next
  case (Cons a ops)
  show ?case
  proof (cases a)
    case (Put bs)
    with Cons.prems have h: "bs \<noteq> []" "length (content q) + length bs < c"
      "queue_spec c (content q @ bs) ops = Some (outs, r)" by (auto split: if_splits)
    obtain q1 where "put q bs = Some q1" "inv q1" "content q1 = content q @ bs"
      using put_law [OF Cons.prems(1) h(1,2)] by blast
    with h(3) Cons.IH [of q1] Put show ?thesis by simp
  next
    case (Get n)
    with Cons.prems obtain os where h: "0 < n" "n \<le> length (content q)"
      "queue_spec c (drop n (content q)) ops = Some (os, r)" "outs = take n (content q) # os"
      by (auto split: if_splits bind_splits)
    obtain q1 where q1: "get q n = Some (take n (content q), q1)" "inv q1" "content q1 = drop n (content q)"
      using get_law [OF Cons.prems(1) h(1,2)] by blast
    with h(3) Cons.IH [of q1 os] obtain q' where
      "run_ops put get q1 ops = Some (os, q')" "inv q'" "content q' = r" by auto
    with q1 h(4) Get show ?thesis by simp
  qed
qed

end

lemma fifo_content_length [simp]: "length (fifo_content f) = fifo_used f"
  by (simp add: fifo_content_def)

interpretation fifo: byte_queue c "fifo_inv c" fifo_content fifo_put fifo_get for c
proof
  fix q and bs :: "kbyte list" assume h: "fifo_inv c q" "bs \<noteq> []" "length (fifo_content q) + length bs < c"
  then have n: "length bs < 2 ^ 31" "fifo_wf q" "c = unat (fifo_cap (fifo_opts q))" by (auto simp: fifo_inv_def)
  note l = transfer_len_ok [OF n(1)]
  show "\<exists>q'. fifo_put q bs = Some q' \<and> fifo_inv c q' \<and> fifo_content q' = fifo_content q @ bs"
  proof -
    have "unat (of_nat (length bs) :: ksize) < fifo_free q" using h(3) n(3) l by (simp add: fifo_free_def)
    then show ?thesis
      using kylin_fifo_put_content [OF n(2), of "of_nat (length bs)" bs] h n l
      by (auto simp: fifo_put_def fifo_inv_def)
  qed
next
  fix q n assume h: "fifo_inv c q" "0 < n" "n \<le> length (fifo_content q)"
  then have wf: "fifo_wf q" "n \<le> fifo_used q" by (simp_all add: fifo_inv_def)
  then have n: "n < 2 ^ 31" using fifo_in_eq(2) [OF wf(1)] h(1) by (simp add: fifo_inv_def)
  note l = transfer_len_ok [OF n]
  show "\<exists>q'. fifo_get q n = Some (take n (fifo_content q), q') \<and> fifo_inv c q'
      \<and> fifo_content q' = drop n (fifo_content q)"
    using kylin_fifo_get_ok [OF wf(1), of "of_nat n" "replicate n 0"] h wf l
    by (auto simp: fifo_get_def fifo_inv_def)
next
  fix q n assume h: "fifo_inv c q" "length (fifo_content q) < n" "n < 2 ^ 32"
  then have "unat (of_nat n :: ksize) = n" by (simp add: unat_of_nat)
  then show "fifo_get q n = None"
    using h kylin_fifo_get_reject(1) [of q "of_nat n"] by (simp add: fifo_get_def fifo_inv_def)
qed


subsection \<open>Properties\<close>

text \<open>
  C3. A sequence of puts and gets on a queue behaves as on a list of bytes: whenever the list
  specification allows the sequence (no empty transfer, no get of more than is stored, and
  always less stored than the capacity), the functions of the source return exactly the bytes that the
  specification returns and end in a queue that holds exactly what the list holds.
\<close>

theorem kylin_fifo_refines_queue:
  assumes "fifo_inv c f" "queue_spec c (fifo_content f) ops = Some (outs, r)"
  shows "\<exists>f'. run_ops fifo_put fifo_get f ops = Some (outs, f') \<and> fifo_inv c f' \<and> fifo_content f' = r"
  by (rule fifo.run_refines [OF assms])

definition demo_fifo :: kfifo where
  "demo_fifo = \<lparr>fifo_opts = \<lparr>fifo_cap = 4, fifo_guard_ctor = None\<rparr>, fifo_mask = 3, fifo_in = 2,
     fifo_out = 2, fifo_is_full = False, fifo_val = [0, 0, 0, 0]\<rparr>"

lemma demo_fifo_inv: "fifo_inv 4 demo_fifo" "fifo_content demo_fifo = []" "fifo_used demo_fifo = 0"
  "fifo_wf demo_fifo" "fifo_cap (fifo_opts demo_fifo) = 4" "fifo_free demo_fifo = 4" "fifo_in demo_fifo = 2"
  by (simp_all add: fifo_inv_def fifo_wf_def demo_fifo_def kylin_is_pow_of_two_def fifo_content_def
      ring_slice_def fifo_used_def fifo_free_def)

theorem kylin_fifo_refines_queue_witness:
  "\<exists>f'. run_ops fifo_put fifo_get demo_fifo [Put [1, 2, 3], Get 2, Put [4, 5], Get 3]
      = Some ([[1, 2], [3, 4, 5]], f') \<and> fifo_content f' = []"
  using kylin_fifo_refines_queue [of 4 demo_fifo "[Put [1, 2, 3], Get 2, Put [4, 5], Get 3]"
      "[[1, 2], [3, 4, 5]]" "[]"] demo_fifo_inv by auto

text \<open>
  On a well-formed queue a put of at most the capacity never touches memory outside the buffers and
  decides exactly by the free space: it is refused with -1 and no change when the length is
  0 or more than the free space, and otherwise returns the length and a well-formed queue.
\<close>

theorem kylin_fifo_put_safe:
  assumes "fifo_wf f" "unat len \<le> unat (fifo_cap (fifo_opts f))" "unat len \<le> length buf"
  shows "if len = 0 \<or> fifo_free f < unat len then kylin_fifo_put f buf len = Some (-1, f)
    else (\<exists>f'. kylin_fifo_put f buf len = Some (ucast len, f') \<and> fifo_wf f' \<and> fifo_opts f' = fifo_opts f)"
proof (cases "len = 0 \<or> fifo_free f < unat len")
  case True
  then show ?thesis using kylin_fifo_put_reject [OF assms(1,2) True] by simp
next
  case False
  then have "0 < unat len" "unat len \<le> fifo_free f" by (auto simp: unat_gt_0)
  from kylin_fifo_put_accept [OF assms(1) this assms(3)] False show ?thesis by auto
qed

theorem kylin_fifo_put_safe_witness:
  "\<exists>f'. kylin_fifo_put demo_fifo [7, 8, 9] 3 = Some (3, f') \<and> fifo_wf f'"
  using kylin_fifo_put_safe [of demo_fifo 3 "[7, 8, 9]"] demo_fifo_inv by auto

text \<open>
  A get on a well-formed queue is refused with -1 and no change when it asks for nothing or for more than is
  stored; otherwise it copies the oldest bytes, in order, to the front of the caller's buffer
  and leaves the rest, and a peek copies the same bytes.
\<close>

theorem kylin_fifo_get_oldest:
  assumes "fifo_wf f" "unat len \<le> length buf"
  shows "if len = 0 \<or> fifo_used f < unat len
    then kylin_fifo_get f buf len = Some (-1, buf, f) \<and> kylin_fifo_peek f buf len = Some (-1, buf)
    else \<exists>f' bs. bs = take (unat len) (fifo_content f) @ drop (unat len) buf
      \<and> kylin_fifo_get f buf len = Some (ucast len, bs, f')
      \<and> kylin_fifo_peek f buf len = Some (ucast len, bs)
      \<and> fifo_wf f' \<and> fifo_content f' = drop (unat len) (fifo_content f)"
proof (cases "len = 0 \<or> fifo_used f < unat len")
  case True
  then show ?thesis using kylin_fifo_get_reject [OF assms(1) True] by simp
next
  case False
  then have l: "0 < unat len" "unat len \<le> fifo_used f" by (auto simp: unat_gt_0)
  from kylin_fifo_get_ok [OF assms(1) l assms(2)] kylin_fifo_peek_ok [OF assms(1) l assms(2)] False
  show ?thesis by auto
qed

theorem kylin_fifo_get_oldest_witness:
  "kylin_fifo_get demo_fifo [0, 0] 2 = Some (-1, [0, 0], demo_fifo)"
  using kylin_fifo_get_oldest [of demo_fifo 2 "[0, 0]"] demo_fifo_inv by simp

text \<open>
  A put that fills the queue exactly without passing the end of the buffer succeeds, but
  \<^verbatim>\<open>is_full\<close> is not set on that branch: the queue then looks empty, and all
  its content is lost.
\<close>

theorem kylin_fifo_exact_fill_lost:
  assumes "fifo_wf f" "0 < unat len" "unat len = fifo_free f" "unat len \<le> length buf"
    and "unat (fifo_in f) + unat len \<le> unat (fifo_cap (fifo_opts f))"
  shows "\<exists>f'. kylin_fifo_put f buf len = Some (ucast len, f') \<and> fifo_wf f' \<and> fifo_content f' = []"
proof -
  from kylin_fifo_put_accept [OF assms(1,2) _ assms(4)] assms(3) obtain f' where
    f': "kylin_fifo_put f buf len = Some (ucast len, f')" "fifo_wf f'"
      "fifo_opts f' = fifo_opts f" "fifo_out f' = fifo_out f"
      "unat (fifo_in f') = (unat (fifo_in f) + unat len) mod unat (fifo_cap (fifo_opts f))"
      "fifo_is_full f' = (unat (fifo_cap (fifo_opts f)) < unat (fifo_in f) + unat len
         \<and> fifo_in f' = fifo_out f)" by auto
  note b = fifo_bounds [OF assms(1)] and e = fifo_in_eq [OF assms(1)]
  have "unat (fifo_in f') = (unat (fifo_out f) + fifo_used f + unat len) mod unat (fifo_cap (fifo_opts f))"
    unfolding f'(5) e(1) by (simp add: mod_add_left_eq)
  also have "unat (fifo_out f) + fifo_used f + unat len = unat (fifo_out f) + unat (fifo_cap (fifo_opts f))"
    using assms(3) e(2) by (simp add: fifo_free_def)
  finally have "fifo_in f' = fifo_out f'" using b(2) f'(4) by (simp add: word_eq_iff_unat)
  moreover have "\<not> fifo_is_full f'" using f'(6) assms(5) by simp
  ultimately have "fifo_used f' = 0" by (simp add: fifo_used_def)
  then show ?thesis using f'(1,2) by (simp add: fifo_content_def ring_slice_def)
qed

theorem kylin_fifo_exact_fill_lost_witness:
  "\<exists>f'. kylin_fifo_put (demo_fifo\<lparr>fifo_in := 0, fifo_out := 0\<rparr>) [1, 2, 3, 4] 4 = Some (4, f')
    \<and> fifo_content f' = []"
proof -
  let ?f = "demo_fifo\<lparr>fifo_in := 0, fifo_out := 0\<rparr>"
  have "fifo_wf ?f" "fifo_free ?f = 4"
    by (simp_all add: fifo_wf_def demo_fifo_def kylin_is_pow_of_two_def fifo_used_def fifo_free_def)
  then show ?thesis
    using kylin_fifo_exact_fill_lost [of ?f 4 "[1, 2, 3, 4]"] by (auto simp: demo_fifo_def)
qed

text \<open>
  The guard of put reduces \<^verbatim>\<open>in + len\<close> modulo the capacity, so that a put of three times
  the capacity into an empty queue passes it, and the second \<^verbatim>\<open>memcpy\<close> then writes twice the
  capacity into the buffer: a write out of bounds.
\<close>

theorem kylin_fifo_put_overflow:
  assumes "fifo_wf f" "fifo_in f = 0" "fifo_out f = 0" "\<not> fifo_is_full f"
    and "unat (fifo_cap (fifo_opts f)) \<le> 2 ^ 62" "unat len = 3 * unat (fifo_cap (fifo_opts f))"
    and "unat len \<le> length buf"
  shows "kylin_fifo_put f buf len = None"
proof -
  note b = fifo_bounds [OF assms(1)]
  let ?c = "fifo_cap (fifo_opts f)"
  have "len AND fifo_mask f = 0"
    by (metis assms(1,6) fifo_and_mask mod_mult_self2_is_0 unat_eq_0 unat_0)
  moreover have "len \<noteq> 0" "len > ?c" using assms(6) b(4) by (auto simp: word_less_nat_alt)
  moreover have "unat (len - ?c) = 2 * unat ?c"
    using assms(6) by (subst unat_sub) (simp_all add: word_le_nat_alt)
  ultimately show ?thesis
    using assms(2-4,6,7) b(4,5) by (simp add: kylin_fifo_put_def buf_read_def buf_write_def Let_def)
qed

theorem kylin_fifo_put_overflow_witness:
  "kylin_fifo_put (demo_fifo\<lparr>fifo_in := 0, fifo_out := 0\<rparr>) (replicate 12 1) 12 = None"
proof -
  let ?f = "demo_fifo\<lparr>fifo_in := 0, fifo_out := 0\<rparr>"
  have "fifo_wf ?f" by (simp add: fifo_wf_def demo_fifo_def kylin_is_pow_of_two_def)
  then show ?thesis
    using kylin_fifo_put_overflow [of ?f 12 "replicate 12 1"] by (simp add: demo_fifo_def)
qed

end
