(* ===== verification/Kylin_Lifo.thy ===== *)
theory Kylin_Lifo
  imports Kylin_Prelude
begin

section \<open>Byte stacks (lib/core/math/kylin_lifo.c)\<close>

text \<open>
  The stack of bytes: a buffer and the \<^verbatim>\<open>size_t\<close> index of its top. The guards are the
  unsigned comparisons of the source; a read in front of the buffer is \<open>None\<close>. The
  interface clients rely on is the locale \<open>byte_stack\<close>.
\<close>

subsection \<open>Definitions\<close>

record klifo_opts =
  lifo_cap :: ksize
  lifo_guard_ctor :: "(nat \<Rightarrow> bool) option"

record klifo =
  lifo_opts :: klifo_opts
  lifo_top :: ksize
  lifo_buf :: "kbyte list"

definition kylin_lifo_create :: "bool \<Rightarrow> klifo_opts \<Rightarrow> klifo option" where
  "kylin_lifo_create ok opts =
     (if \<not> (case lifo_guard_ctor opts of Some ctor \<Rightarrow> ctor (unat (lifo_cap opts)) | None \<Rightarrow> ok)
      then None
      else Some \<lparr>lifo_opts = opts, lifo_top = 0, lifo_buf = replicate (unat (lifo_cap opts)) 0\<rparr>)"

definition kylin_lifo_push :: "klifo \<Rightarrow> kbyte list \<Rightarrow> ksize \<Rightarrow> (32 word \<times> klifo) option" where
  "kylin_lifo_push lifo buf len =
     (if lifo_top lifo + len > lifo_cap (lifo_opts lifo) - 1 then Some (-1, lifo)
      else do {
        a \<leftarrow> buf_read buf 0 (unat len);
        v \<leftarrow> buf_write (lifo_buf lifo) (unat (lifo_top lifo)) a;
        Some (ucast len, lifo\<lparr>lifo_buf := v, lifo_top := lifo_top lifo + len\<rparr>)
      })"

text \<open>The read of \<^verbatim>\<open>len\<close> bytes at \<^verbatim>\<open>lifo->buf + lifo->top - len\<close>.\<close>

definition lifo_read_top :: "klifo \<Rightarrow> ksize \<Rightarrow> kbyte list option" where
  "lifo_read_top lifo len =
     (if unat len \<le> unat (lifo_top lifo)
      then buf_read (lifo_buf lifo) (unat (lifo_top lifo) - unat len) (unat len) else None)"

definition kylin_lifo_pop :: "klifo \<Rightarrow> kbyte list \<Rightarrow> ksize \<Rightarrow> (32 word \<times> kbyte list \<times> klifo) option" where
  "kylin_lifo_pop lifo buf len =
     (if lifo_top lifo - len < 0 then Some (-1, buf, lifo)
      else do {
        a \<leftarrow> lifo_read_top lifo len;
        buf \<leftarrow> buf_write buf 0 a;
        Some (ucast len, buf, lifo\<lparr>lifo_top := lifo_top lifo - len\<rparr>)
      })"

definition kylin_lifo_top :: "klifo \<Rightarrow> kbyte list \<Rightarrow> ksize \<Rightarrow> (32 word \<times> kbyte list) option" where
  "kylin_lifo_top lifo buf len =
     (if lifo_top lifo - len < 0 then Some (-1, buf)
      else do {
        a \<leftarrow> lifo_read_top lifo len;
        buf \<leftarrow> buf_write buf 0 a;
        Some (ucast len, buf)
      })"

subsection \<open>Abstraction\<close>

definition lifo_wf :: "klifo \<Rightarrow> bool" where
  "lifo_wf s \<longleftrightarrow> length (lifo_buf s) = unat (lifo_cap (lifo_opts s))
     \<and> unat (lifo_top s) < unat (lifo_cap (lifo_opts s))"

definition lifo_content :: "klifo \<Rightarrow> kbyte list" where
  "lifo_content s = take (unat (lifo_top s)) (lifo_buf s)"

fun stack_spec :: "nat \<Rightarrow> kbyte list \<Rightarrow> byte_op list \<Rightarrow> (kbyte list list \<times> kbyte list) option" where
  "stack_spec c s [] = Some ([], s)"
| "stack_spec c s (Put bs # ops) =
     (if c \<le> length s + length bs then None else stack_spec c (s @ bs) ops)"
| "stack_spec c s (Get n # ops) =
     (if length s < n then None
      else do { (outs, r) \<leftarrow> stack_spec c (take (length s - n) s) ops;
                Some (drop (length s - n) s # outs, r) })"

definition lifo_push :: "klifo \<Rightarrow> kbyte list \<Rightarrow> klifo option" where
  "lifo_push s bs = do {
     (r, s) \<leftarrow> kylin_lifo_push s bs (of_nat (length bs));
     if r = -1 then None else Some s }"

definition lifo_pop :: "klifo \<Rightarrow> nat \<Rightarrow> (kbyte list \<times> klifo) option" where
  "lifo_pop s n = do {
     (r, bs, s) \<leftarrow> kylin_lifo_pop s (replicate n 0) (of_nat n);
     if r = -1 then None else Some (bs, s) }"

definition lifo_inv :: "nat \<Rightarrow> klifo \<Rightarrow> bool" where
  "lifo_inv c s \<longleftrightarrow> lifo_wf s \<and> unat (lifo_cap (lifo_opts s)) = c \<and> c < 2 ^ 31"

subsection \<open>Push, pop and top\<close>

lemma lifo_content_length: "lifo_wf s \<Longrightarrow> length (lifo_content s) = unat (lifo_top s)"
  by (simp add: lifo_wf_def lifo_content_def)

lemma lifo_push_guard:
  assumes "lifo_wf s" "unat len \<le> unat (lifo_cap (lifo_opts s))" "unat (lifo_cap (lifo_opts s)) \<le> 2 ^ 63"
  shows "lifo_top s + len > lifo_cap (lifo_opts s) - 1
      \<longleftrightarrow> unat (lifo_cap (lifo_opts s)) \<le> unat (lifo_top s) + unat len"
    and "unat (lifo_top s + len) = unat (lifo_top s) + unat len"
proof -
  show u: "unat (lifo_top s + len) = unat (lifo_top s) + unat len"
    using assms by (intro unat_add_noflow) (auto simp: lifo_wf_def)
  have "lifo_cap (lifo_opts s) \<noteq> 0" using assms(1) by (auto simp: lifo_wf_def)
  then show "lifo_top s + len > lifo_cap (lifo_opts s) - 1
      \<longleftrightarrow> unat (lifo_cap (lifo_opts s)) \<le> unat (lifo_top s) + unat len"
    using assms(1) by (auto simp: word_less_nat_alt u unat_minus_one lifo_wf_def)
qed

lemma kylin_lifo_push_ok:
  assumes wf: "lifo_wf s" "unat (lifo_cap (lifo_opts s)) \<le> 2 ^ 63" "unat len \<le> length buf"
    and room: "unat (lifo_top s) + unat len < unat (lifo_cap (lifo_opts s))"
  shows "\<exists>s'. kylin_lifo_push s buf len = Some (ucast len, s') \<and> lifo_wf s'
    \<and> lifo_opts s' = lifo_opts s \<and> lifo_content s' = lifo_content s @ take (unat len) buf"
proof -
  have "unat len \<le> unat (lifo_cap (lifo_opts s))" using room by simp
  note g = lifo_push_guard [OF wf(1) this wf(2)]
  define v where "v = take (unat (lifo_top s)) (lifo_buf s) @ take (unat len) buf
    @ drop (unat (lifo_top s) + unat len) (lifo_buf s)"
  define s' where "s' = s\<lparr>lifo_buf := v, lifo_top := lifo_top s + len\<rparr>"
  have "kylin_lifo_push s buf len = Some (ucast len, s')"
    using wf room g by (simp add: kylin_lifo_push_def buf_read_def buf_write_def lifo_wf_def v_def s'_def)
  moreover have "lifo_wf s'" using wf room g by (simp add: lifo_wf_def v_def s'_def)
  moreover have "lifo_content s' = lifo_content s @ take (unat len) buf"
    using wf room g by (simp add: lifo_content_def s'_def v_def lifo_wf_def)
  ultimately show ?thesis by (simp add: s'_def)
qed

lemma kylin_lifo_pop_ok:
  assumes wf: "lifo_wf s" and len: "unat len \<le> unat (lifo_top s)" "unat len \<le> length buf"
  shows "\<exists>s'. kylin_lifo_pop s buf len
      = Some (ucast len, drop (unat (lifo_top s) - unat len) (lifo_content s) @ drop (unat len) buf, s')
    \<and> lifo_wf s' \<and> lifo_opts s' = lifo_opts s
    \<and> lifo_content s' = take (unat (lifo_top s) - unat len) (lifo_content s)"
    and "kylin_lifo_top s buf len
      = Some (ucast len, drop (unat (lifo_top s) - unat len) (lifo_content s) @ drop (unat len) buf)"
proof -
  define t l where "t = unat (lifo_top s)" and "l = unat len"
  have sub: "unat (lifo_top s - len) = t - l" using len(1) by (simp add: unat_sub word_le_nat_alt t_def l_def)
  have r: "lifo_read_top s len = Some (drop (t - l) (lifo_content s))"
    using wf len(1)
    by (simp add: lifo_read_top_def buf_read_def lifo_wf_def lifo_content_def drop_take t_def l_def)
  have dl: "length (drop (t - l) (lifo_content s)) = l"
    using lifo_content_length [OF wf] len(1) by (simp add: t_def l_def)
  show "kylin_lifo_top s buf len
      = Some (ucast len, drop (unat (lifo_top s) - unat len) (lifo_content s) @ drop (unat len) buf)"
    using r dl len(2) by (simp add: kylin_lifo_top_def buf_write_def t_def l_def)
  show "\<exists>s'. kylin_lifo_pop s buf len
      = Some (ucast len, drop (unat (lifo_top s) - unat len) (lifo_content s) @ drop (unat len) buf, s')
    \<and> lifo_wf s' \<and> lifo_opts s' = lifo_opts s
    \<and> lifo_content s' = take (unat (lifo_top s) - unat len) (lifo_content s)"
    using r dl len(2) wf sub
    by (auto simp: kylin_lifo_pop_def buf_write_def lifo_wf_def lifo_content_def t_def l_def min_def)
qed

subsection \<open>The stack interface\<close>

locale byte_stack =
  fixes c :: nat and inv :: "'s \<Rightarrow> bool" and content :: "'s \<Rightarrow> kbyte list"
    and push :: "'s \<Rightarrow> kbyte list \<Rightarrow> 's option" and pop :: "'s \<Rightarrow> nat \<Rightarrow> (kbyte list \<times> 's) option"
  assumes push_law: "inv s \<Longrightarrow> length (content s) + length bs < c \<Longrightarrow>
      \<exists>s'. push s bs = Some s' \<and> inv s' \<and> content s' = content s @ bs"
    and pop_law: "inv s \<Longrightarrow> n \<le> length (content s) \<Longrightarrow>
      \<exists>s'. pop s n = Some (drop (length (content s) - n) (content s), s') \<and> inv s'
        \<and> content s' = take (length (content s) - n) (content s)"
begin

lemma run_refines:
  assumes "inv s" "stack_spec c (content s) ops = Some (outs, r)"
  shows "\<exists>s'. run_ops push pop s ops = Some (outs, s') \<and> inv s' \<and> content s' = r"
  using assms
proof (induction ops arbitrary: s outs)
  case (Cons a ops)
  show ?case
  proof (cases a)
    case (Put bs)
    with Cons.prems have h: "length (content s) + length bs < c"
      "stack_spec c (content s @ bs) ops = Some (outs, r)" by (auto split: if_splits)
    obtain s1 where "push s bs = Some s1" "inv s1" "content s1 = content s @ bs"
      using push_law [OF Cons.prems(1) h(1)] by blast
    with h(2) Cons.IH [of s1] Put show ?thesis by simp
  next
    case (Get n)
    let ?m = "length (content s) - n"
    from Get Cons.prems obtain os where h: "n \<le> length (content s)"
      "stack_spec c (take ?m (content s)) ops = Some (os, r)" "outs = drop ?m (content s) # os"
      by (auto split: if_splits bind_splits)
    obtain s1 where s1: "pop s n = Some (drop ?m (content s), s1)" "inv s1" "content s1 = take ?m (content s)"
      using pop_law [OF Cons.prems(1) h(1)] by blast
    with h(2) Cons.IH [of s1 os] obtain s' where
      "run_ops push pop s1 ops = Some (os, s')" "inv s'" "content s' = r" by auto
    with s1 h(3) Get show ?thesis by simp
  qed
qed simp

lemma push_pop:
  assumes "inv s" "length (content s) + length bs < c"
  shows "\<exists>s1 s2. push s bs = Some s1 \<and> pop s1 (length bs) = Some (bs, s2) \<and> inv s2
    \<and> content s2 = content s"
proof -
  obtain s1 where s1: "push s bs = Some s1" "inv s1" "content s1 = content s @ bs"
    using push_law [OF assms] by blast
  then show ?thesis using pop_law [of s1 "length bs"] by auto
qed

end

interpretation lifo: byte_stack c "lifo_inv c" lifo_content lifo_push lifo_pop for c
proof
  fix s and bs :: "kbyte list" assume h: "lifo_inv c s" "length (lifo_content s) + length bs < c"
  then have wf: "lifo_wf s" "unat (lifo_cap (lifo_opts s)) = c" "c < 2 ^ 31" by (simp_all add: lifo_inv_def)
  note n = transfer_len_ok [of "length bs"]
  show "\<exists>s'. lifo_push s bs = Some s' \<and> lifo_inv c s' \<and> lifo_content s' = lifo_content s @ bs"
    using kylin_lifo_push_ok [OF wf(1), of "of_nat (length bs)" bs] h(2) wf n lifo_content_length [OF wf(1)]
    by (auto simp: lifo_push_def lifo_inv_def)
next
  fix s n assume h: "lifo_inv c s" "n \<le> length (lifo_content s)"
  then have wf: "lifo_wf s" "unat (lifo_cap (lifo_opts s)) = c" "c < 2 ^ 31" by (simp_all add: lifo_inv_def)
  then have t: "length (lifo_content s) = unat (lifo_top s)" "unat (lifo_top s) < c"
    by (simp_all add: lifo_content_length) (simp add: lifo_wf_def)
  note n = transfer_len_ok [of n]
  show "\<exists>s'. lifo_pop s n = Some (drop (length (lifo_content s) - n) (lifo_content s), s')
      \<and> lifo_inv c s' \<and> lifo_content s' = take (length (lifo_content s) - n) (lifo_content s)"
    using kylin_lifo_pop_ok(1) [OF wf(1), of "of_nat n" "replicate n 0"] h(2) wf n t
    by (auto simp: lifo_pop_def lifo_inv_def)
qed

subsection \<open>Properties\<close>

text \<open>
  C32. A sequence of pushes and pops behaves as on a list of bytes that grows at its end: whenever
  the list specification allows it (less stored than the capacity, no pop of more than is
  stored), the functions of the source return exactly the bytes of the specification and end in a stack that
  holds exactly what the list holds. The capacity is below \<open>2 ^ 31\<close>.
\<close>

theorem kylin_lifo_refines_stack:
  assumes "lifo_inv c s" "stack_spec c (lifo_content s) ops = Some (outs, r)"
  shows "\<exists>s'. run_ops lifo_push lifo_pop s ops = Some (outs, s') \<and> lifo_inv c s' \<and> lifo_content s' = r"
  by (rule lifo.run_refines [OF assms])

definition demo_lifo :: klifo where
  "demo_lifo = \<lparr>lifo_opts = \<lparr>lifo_cap = 6, lifo_guard_ctor = None\<rparr>, lifo_top = 0,
     lifo_buf = [0, 0, 0, 0, 0, 0]\<rparr>"

lemma demo_lifo_inv: "lifo_inv 6 demo_lifo" "lifo_content demo_lifo = []" "lifo_wf demo_lifo"
  by (simp_all add: lifo_inv_def lifo_wf_def demo_lifo_def lifo_content_def)

theorem kylin_lifo_refines_stack_witness:
  "\<exists>s'. run_ops lifo_push lifo_pop demo_lifo [Put [1, 2, 3], Get 2, Put [4, 5], Get 3]
      = Some ([[2, 3], [1, 4, 5]], s') \<and> lifo_content s' = []"
  using kylin_lifo_refines_stack [of 6 demo_lifo "[Put [1, 2, 3], Get 2, Put [4, 5], Get 3]"
      "[[2, 3], [1, 4, 5]]" "[]"] demo_lifo_inv by auto

text \<open>
  The underflow guard of pop and top compares an unsigned difference with 0 and never fires:
  a pop or top of more bytes than are stored is not refused with -1 but reads
  in front of the buffer.
\<close>

theorem kylin_lifo_pop_underflow:
  assumes "unat (lifo_top s) < unat len"
  shows "kylin_lifo_pop s buf len = None \<and> kylin_lifo_top s buf len = None"
  using assms by (simp add: kylin_lifo_pop_def kylin_lifo_top_def lifo_read_top_def)

theorem kylin_lifo_pop_underflow_witness:
  "kylin_lifo_pop demo_lifo [0] 1 = None \<and> kylin_lifo_top demo_lifo [0] 1 = None"
  using kylin_lifo_pop_underflow [of demo_lifo 1 "[0]"] demo_lifo_inv by (simp add: demo_lifo_def)

end
