(* ===== verification/Kylin_Value.thy ===== *)
theory Kylin_Value
  imports Kylin_Prelude
begin

section \<open>Container values (lib/core/math/kylin_math.h)\<close>

text \<open>
  The union \<^verbatim>\<open>kmath_val_t\<close> is one 64-bit word, read as a pointer, an unsigned or a
  signed number by its type tag \<^verbatim>\<open>kobj_t\<close> (include/utils/kylin_object.h). User
  memory is a partial map from addresses to bytes; an access to an unmapped address is \<open>None\<close>.
  The callbacks a container is given are parameters: the constructor (an allocation that may
  change memory), the comparison of two objects, and the processor's comparison of doubles,
  which only the tags between 16 and 31 reach and no tag of the enumeration has. What a
  destructor releases is recorded as a value of type \<open>krelease\<close>.
\<close>

subsection \<open>Definitions\<close>

type_synonym kobj = nat
type_synonym kmath_val = "64 word"
type_synonym umem = "kaddr \<Rightarrow> kbyte option"
type_synonym kctor = "umem \<Rightarrow> ksize \<Rightarrow> kaddr \<times> umem"

abbreviation KOBJ_INT8 :: kobj where "KOBJ_INT8 \<equiv> 1"
abbreviation KOBJ_INT16 :: kobj where "KOBJ_INT16 \<equiv> 2"
abbreviation KOBJ_INT32 :: kobj where "KOBJ_INT32 \<equiv> 3"
abbreviation KOBJ_INT64 :: kobj where "KOBJ_INT64 \<equiv> 4"
abbreviation KOBJ_SIGNED :: kobj where "KOBJ_SIGNED \<equiv> 8"
abbreviation KOBJ_UINT8 :: kobj where "KOBJ_UINT8 \<equiv> 9"
abbreviation KOBJ_UINT16 :: kobj where "KOBJ_UINT16 \<equiv> 10"
abbreviation KOBJ_UINT32 :: kobj where "KOBJ_UINT32 \<equiv> 11"
abbreviation KOBJ_UINT64 :: kobj where "KOBJ_UINT64 \<equiv> 12"
abbreviation KOBJ_UNSIGNED :: kobj where "KOBJ_UNSIGNED \<equiv> 16"
abbreviation KOBJ_NORMAL :: kobj where "KOBJ_NORMAL \<equiv> 32"
abbreviation KOBJ_STRING :: kobj where "KOBJ_STRING \<equiv> 33"
abbreviation KOBJ_KMAP :: kobj where "KOBJ_KMAP \<equiv> 34"
abbreviation KOBJ_KSET :: kobj where "KOBJ_KSET \<equiv> 35"
abbreviation KOBJ_KSTR :: kobj where "KOBJ_KSTR \<equiv> 36"
abbreviation KOBJ_OTHERS :: kobj where "KOBJ_OTHERS \<equiv> 64"

fun mem_load :: "umem \<Rightarrow> kaddr \<Rightarrow> nat \<Rightarrow> kbyte list option" where
  "mem_load m a 0 = Some []"
| "mem_load m a (Suc n) = do { b \<leftarrow> m a; bs \<leftarrow> mem_load m (a + 1) n; Some (b # bs) }"

fun mem_store :: "umem \<Rightarrow> kaddr \<Rightarrow> kbyte list \<Rightarrow> umem option" where
  "mem_store m a [] = Some m"
| "mem_store m a (b # bs) = (if m a = None then None else mem_store (m(a \<mapsto> b)) (a + 1) bs)"

fun le_word :: "kbyte list \<Rightarrow> 64 word" where
  "le_word [] = 0"
| "le_word (b # bs) = ucast b OR push_bit 8 (le_word bs)"

definition mem_word :: "umem \<Rightarrow> kaddr \<Rightarrow> nat \<Rightarrow> 64 word option" where
  "mem_word m a n = map_option le_word (mem_load m a n)"

definition kmath_val_ctor ::
  "umem \<Rightarrow> kaddr \<Rightarrow> kobj \<Rightarrow> ksize \<Rightarrow> kctor option \<Rightarrow> (kmath_val \<times> umem) option" where
  "kmath_val_ctor m v type sz ctor =
     (if type = KOBJ_INT8 then do { w \<leftarrow> mem_word m v 1; Some (scast (ucast w :: 8 word), m) }
      else if type = KOBJ_INT16 then do { w \<leftarrow> mem_word m v 2; Some (scast (ucast w :: 16 word), m) }
      else if type = KOBJ_INT32 then do { w \<leftarrow> mem_word m v 4; Some (scast (ucast w :: 32 word), m) }
      else if type = KOBJ_INT64 then do { w \<leftarrow> mem_word m v 8; Some (w, m) }
      else if type = KOBJ_UINT8 then do { w \<leftarrow> mem_word m v 1; Some (w, m) }
      else if type = KOBJ_UINT16 then do { w \<leftarrow> mem_word m v 2; Some (w, m) }
      else if type = KOBJ_UINT32 then do { w \<leftarrow> mem_word m v 4; Some (w, m) }
      else if type = KOBJ_UINT64 then do { w \<leftarrow> mem_word m v 8; Some (w, m) }
      else if type \<in> {KOBJ_STRING, KOBJ_KMAP, KOBJ_KSET, KOBJ_KSTR, KOBJ_OTHERS} then
        (case ctor of
           Some f \<Rightarrow> do {
             let (p, m) = f m sz;
             bs \<leftarrow> mem_load m v (unat sz);
             m \<leftarrow> mem_store m p bs;
             Some (p, m) }
         | None \<Rightarrow> Some (v, m))
      else Some (v, m))"

definition kobj_is_int :: "kobj \<Rightarrow> bool" where
  "kobj_is_int type \<longleftrightarrow> type \<in> {KOBJ_INT8, KOBJ_INT16, KOBJ_INT32, KOBJ_INT64,
     KOBJ_UINT8, KOBJ_UINT16, KOBJ_UINT32, KOBJ_UINT64}"

datatype krelease = RelMap kaddr | RelString kaddr | RelSet kaddr | RelUser kaddr

definition kmath_val_dtor :: "kmath_val \<Rightarrow> kobj \<Rightarrow> bool \<Rightarrow> krelease list" where
  "kmath_val_dtor val type has_dtor =
     (if kobj_is_int type then []
      else if type = KOBJ_KMAP then [RelMap val]
      else if type = KOBJ_KSTR then [RelString val]
      else if type = KOBJ_KSET then [RelSet val]
      else if has_dtor then [RelUser val] else [])"

text \<open>Objects of a store that a container releases are gone from it.\<close>

fun release_objs :: "krelease list \<Rightarrow> (kaddr \<Rightarrow> 'x option) \<Rightarrow> kaddr \<Rightarrow> 'x option" where
  "release_objs [] S = S"
| "release_objs (RelUser t # rs) S = release_objs rs (S(t := None))"
| "release_objs (_ # rs) S = release_objs rs S"

text \<open>
  The comparison callbacks: \<open>kc_cmp\<close> is the user's comparison of two objects, \<open>kc_dgt\<close> and
  \<open>kc_sdgt\<close> the comparisons of two doubles and of a signed number with a double.
\<close>

record kcmp =
  kc_cmp :: "kaddr \<Rightarrow> kaddr \<Rightarrow> int"
  kc_dgt :: "64 word \<Rightarrow> 64 word \<Rightarrow> bool"
  kc_sdgt :: "64 word \<Rightarrow> 64 word \<Rightarrow> bool"

definition kmath_val_cmp :: "kcmp \<Rightarrow> kobj \<Rightarrow> kmath_val \<Rightarrow> kmath_val \<Rightarrow> int" where
  "kmath_val_cmp kc type v1 v2 =
     (if type < KOBJ_NORMAL then
        if type < KOBJ_SIGNED then if sint v1 > sint v2 then 1 else -1
        else if type < KOBJ_UNSIGNED then if v1 > v2 then 1 else -1
        else if kc_dgt kc v1 v2 then 1 else -1
      else kc_cmp kc v1 v2)"

definition kmath_val_cmp_raw :: "umem \<Rightarrow> kcmp \<Rightarrow> kobj \<Rightarrow> kmath_val \<Rightarrow> kaddr \<Rightarrow> int option" where
  "kmath_val_cmp_raw m kc type v1 v2 =
     (if type < KOBJ_NORMAL then do {
        w \<leftarrow> mem_word m v2 8;
        Some (if type < KOBJ_SIGNED then if sint v1 > sint w then 1 else -1
              else if type < KOBJ_UNSIGNED then if v1 > w then 1 else -1
              else if kc_sdgt kc v1 w then 1 else -1)
      } else Some (kc_cmp kc v1 v2))"

text \<open>
  \<^verbatim>\<open>kmath_val_get\<close> returns a pointer to the value's own cell for the integer tags and the stored
  pointer otherwise: \<open>Slot c\<close> is the address of the cell \<open>c\<close> of the container.
\<close>

datatype 'c kref = Slot 'c | Obj kaddr

definition kmath_val_get :: "'c \<Rightarrow> kmath_val \<Rightarrow> kobj \<Rightarrow> 'c kref" where
  "kmath_val_get c val type = (if kobj_is_int type then Slot c else Obj val)"

text \<open>
  What a user callback is given: \<open>Cell w\<close> is a pointer to a cell of the container or to a local
  variable that holds the word \<open>w\<close>, \<open>Ptr p\<close> is an object pointer.
\<close>

datatype karg = Cell kmath_val | Ptr kaddr

definition kmath_arg :: "kmath_val \<Rightarrow> kobj \<Rightarrow> karg" where
  "kmath_arg val type = (if kobj_is_int type then Cell val else Ptr val)"

subsection \<open>Properties\<close>

lemma cmp_sign: "type < KOBJ_NORMAL \<Longrightarrow> kmath_val_cmp kc type v1 v2 = 1 \<or> kmath_val_cmp kc type v1 v2 = -1"
  by (simp add: kmath_val_cmp_def)

text \<open>
  The comparison of two values of an integer type never answers 0, not even for equal
  values, and no comparison with a raw key does: no integer key can be recognised as equal
  by the containers that look for a comparison result of 0.
\<close>

theorem kmath_val_cmp_never_equal:
  assumes "type < KOBJ_NORMAL"
  shows "kmath_val_cmp kc type v1 v2 \<noteq> 0 \<and> kmath_val_cmp_raw m kc type v1 p \<noteq> Some 0"
  using assms by (auto simp: kmath_val_cmp_def kmath_val_cmp_raw_def bind_eq_Some_conv)

theorem kmath_val_cmp_never_equal_witness:
  "kmath_val_cmp \<lparr>kc_cmp = \<lambda>a b. 0, kc_dgt = (>), kc_sdgt = (>)\<rparr> KOBJ_INT32 7 7 \<noteq> 0"
  using kmath_val_cmp_never_equal [of KOBJ_INT32 "\<lparr>kc_cmp = \<lambda>a b. 0, kc_dgt = (>), kc_sdgt = (>)\<rparr>"]
  by simp

lemma ucast_down_up: "ucast (ucast (b :: 8 word) :: 64 word) = b"
  by (rule bit_word_eqI) (simp add: bit_simps)

lemma kmath_val_ctor_byte:
  "m v = Some b \<Longrightarrow> kmath_val_ctor m v KOBJ_INT8 sz ctor = Some (scast b, m)"
  "m v = Some b \<Longrightarrow> kmath_val_ctor m v KOBJ_UINT8 sz ctor = Some (ucast b, m)"
  by (simp_all add: kmath_val_ctor_def mem_word_def numeral_eq_Suc ucast_down_up)

lemma scast_up_sint: "sint (scast (b :: 8 word) :: 64 word) = sint b"
  by (simp add: signed_scast_eq signed_take_bit_int_eq_self_iff
      order.trans [OF _ sint_ge] less_le_trans [OF sint_lt])

lemma ucast_up_uint: "uint (ucast (b :: 8 word) :: 64 word) = uint b"
  by (rule uint_up_ucast) (simp add: is_up)

text \<open>
  Storing a byte-sized integer keeps its numeric value, and the comparison of two stored
  values answers 1 exactly when the first is the greater number: as signed numbers under the
  signed tag (the value is sign-extended) and as unsigned numbers under the unsigned tag.
\<close>

theorem kmath_val_ctor_order:
  assumes "m a = Some x" "m b = Some y"
  shows "\<exists>va vb ua ub. kmath_val_ctor m a KOBJ_INT8 sz ctor = Some (va, m)
    \<and> kmath_val_ctor m b KOBJ_INT8 sz ctor = Some (vb, m)
    \<and> kmath_val_ctor m a KOBJ_UINT8 sz ctor = Some (ua, m)
    \<and> kmath_val_ctor m b KOBJ_UINT8 sz ctor = Some (ub, m)
    \<and> sint va = sint x \<and> uint ua = uint x
    \<and> (kmath_val_cmp kc KOBJ_INT8 va vb = 1 \<longleftrightarrow> sint x > sint y)
    \<and> (kmath_val_cmp kc KOBJ_UINT8 ua ub = 1 \<longleftrightarrow> uint x > uint y)"
  using assms
  by (simp add: kmath_val_ctor_byte kmath_val_cmp_def scast_up_sint word_less_def ucast_up_uint
      del: One_nat_def)

theorem kmath_val_ctor_order_witness:
  "\<exists>va vb. kmath_val_ctor [0 \<mapsto> 1, 1 \<mapsto> 255] 0 KOBJ_INT8 1 None = Some (va, [0 \<mapsto> 1, 1 \<mapsto> 255])
    \<and> kmath_val_ctor [0 \<mapsto> 1, 1 \<mapsto> 255] 1 KOBJ_INT8 1 None = Some (vb, [0 \<mapsto> 1, 1 \<mapsto> 255])
    \<and> kmath_val_cmp \<lparr>kc_cmp = \<lambda>a b. 0, kc_dgt = (>), kc_sdgt = (>)\<rparr> KOBJ_INT8 va vb = 1"
  using kmath_val_ctor_order [of "[0 \<mapsto> 1, 1 \<mapsto> 255]" 0 1 1 255 1 None
      "\<lparr>kc_cmp = \<lambda>a b. 0, kc_dgt = (>), kc_sdgt = (>)\<rparr>"] by auto

end
