(* ===== verification/Kylin_Ring.thy ===== *)
theory Kylin_Ring
  imports Kylin_Value Kylin_Slices
begin

section \<open>The shared ring (lib/core/math/kylin_ring.c)\<close>

text \<open>
  The ring of values that several threads use without a lock. First the functions of the source
  as one thread runs them, with their retry loop around the compare-and-set; then the same
  functions cut at their accesses to shared memory, as a step relation over any number of
  threads in which every step is one atomic access.
\<close>

subsection \<open>Definitions\<close>

record kring_opts =
  ring_cap :: ksize
  ring_val_type :: kobj
  ring_val_size :: ksize
  ring_val_ctor :: "kctor option"
  ring_val_dtor :: bool
  ring_guard_ctor :: "(nat \<Rightarrow> bool) option"

record kring =
  ring_opts :: kring_opts
  ring_mask :: ksize
  ring_head :: "32 word"
  ring_tail :: "32 word"
  ring_val :: "kmath_val list"

definition kylin_ring_create :: "bool \<Rightarrow> kring_opts \<Rightarrow> kring option" where
  "kylin_ring_create ok opts =
     (if \<not> (case ring_guard_ctor opts of Some ctor \<Rightarrow> ctor (unat (ring_cap opts)) | None \<Rightarrow> ok)
      then None
      else Some \<lparr>ring_opts = opts, ring_mask = ring_cap opts - 1, ring_head = 0, ring_tail = 0,
                 ring_val = replicate (unat (ring_cap opts)) 0\<rparr>)"

text \<open>\<^verbatim>\<open>kylin_atomic32_cmpset\<close>: whether the cell held the expected value, and the cell after it.\<close>

definition kylin_atomic32_cmpset :: "32 word \<Rightarrow> 32 word \<Rightarrow> 32 word \<Rightarrow> bool \<times> 32 word" where
  "kylin_atomic32_cmpset dst exp src = (if dst = exp then (True, src) else (False, dst))"

definition ring_next :: "ksize \<Rightarrow> 32 word \<Rightarrow> 32 word" where
  "ring_next msk i = (if ucast i = msk then 0 else i + 1)"

partial_function (option) kylin_ring_enqueue ::
  "umem \<Rightarrow> kring \<Rightarrow> kaddr \<Rightarrow> (kerr \<times> kring \<times> umem) option" where
  "kylin_ring_enqueue m guard buf =
     (let head = ring_head guard;
          tail = ring_tail guard;
          new_head = ring_next (ring_mask guard) head
      in if new_head = tail then Some (KYLIN_ERROR_NOMEM, guard, m)
         else let (ok, head') = kylin_atomic32_cmpset (ring_head guard) head new_head;
                  guard' = guard\<lparr>ring_head := head'\<rparr>
         in if ok then do {
              (v, m') \<leftarrow> kmath_val_ctor m buf (ring_val_type (ring_opts guard))
                        (ring_val_size (ring_opts guard)) (ring_val_ctor (ring_opts guard));
              vs \<leftarrow> arr_set (ring_val guard') (unat new_head) v;
              Some (KYLIN_ERROR_OK, guard'\<lparr>ring_val := vs\<rparr>, m')
            } else kylin_ring_enqueue m guard' buf)"

partial_function (option) kylin_ring_dequeue :: "kring \<Rightarrow> (nat kref option \<times> kring) option" where
  "kylin_ring_dequeue guard =
     (let tail = ring_tail guard;
          head = ring_head guard
      in if tail = head then Some (None, guard)
         else let new_tail = ring_next (ring_mask guard) tail;
                  (ok, tail') = kylin_atomic32_cmpset (ring_tail guard) tail new_tail;
                  guard' = guard\<lparr>ring_tail := tail'\<rparr>
         in if ok then do {
              v \<leftarrow> arr_get (ring_val guard') (unat new_tail);
              Some (Some (kmath_val_get (unat new_tail) v (ring_val_type (ring_opts guard))), guard')
            } else kylin_ring_dequeue guard')"

definition kylin_ring_peek :: "kring \<Rightarrow> nat kref option option" where
  "kylin_ring_peek guard =
     (let tail = ring_tail guard;
          head = ring_head guard
      in if tail = head then Some None
         else let new_tail = ring_next (ring_mask guard) tail in do {
              v \<leftarrow> arr_get (ring_val guard) (unat new_tail);
              Some (Some (kmath_val_get (unat new_tail) v (ring_val_type (ring_opts guard))))
            })"

text \<open>
  \<^verbatim>\<open>kylin_ring_destroy\<close> releases what is still stored and then the ring. A value is released
  with the user's destructor, or with \<^verbatim>\<open>free\<close>, which is undefined on a pointer into the ring.
\<close>

partial_function (option) ring_drain :: "kring \<Rightarrow> nat kref list \<Rightarrow> nat kref list option" where
  "ring_drain guard rels =
     (let tail = ring_tail guard;
          head = ring_head guard
      in if tail = head then Some rels
         else let new_tail = ring_next (ring_mask guard) tail;
                  (ok, tail') = kylin_atomic32_cmpset (ring_tail guard) tail new_tail;
                  guard' = guard\<lparr>ring_tail := tail'\<rparr>
         in if ok then do {
              v \<leftarrow> arr_get (ring_val guard') (unat new_tail);
              let r = kmath_val_get (unat new_tail) v (ring_val_type (ring_opts guard));
              if \<not> ring_val_dtor (ring_opts guard) \<and> r = Slot (unat new_tail) then None
              else ring_drain guard' (rels @ [r])
            } else ring_drain guard' rels)"

definition kylin_ring_destroy :: "kring \<Rightarrow> nat kref list option" where
  "kylin_ring_destroy guard = ring_drain guard []"

subsection \<open>The ring as a queue\<close>

definition ring_wf :: "kring \<Rightarrow> bool" where
  "ring_wf g \<longleftrightarrow> 0 < unat (ring_cap (ring_opts g)) \<and> unat (ring_cap (ring_opts g)) \<le> 2 ^ 32
     \<and> ring_mask g = ring_cap (ring_opts g) - 1
     \<and> length (ring_val g) = unat (ring_cap (ring_opts g))
     \<and> unat (ring_head g) < unat (ring_cap (ring_opts g))
     \<and> unat (ring_tail g) < unat (ring_cap (ring_opts g))"

definition ring_used :: "kring \<Rightarrow> nat" where
  "ring_used g = (unat (ring_head g) + unat (ring_cap (ring_opts g)) - unat (ring_tail g))
     mod unat (ring_cap (ring_opts g))"

text \<open>The stored values, oldest first; the oldest is in the slot after \<^verbatim>\<open>tail\<close>.\<close>

definition ring_content :: "kring \<Rightarrow> kmath_val list" where
  "ring_content g =
     ring_slice (ring_val g) ((unat (ring_tail g) + 1) mod length (ring_val g)) (ring_used g)"

lemma ring_next_nat:
  assumes "ring_wf g" "unat i < unat (ring_cap (ring_opts g))"
  shows "unat (ring_next (ring_mask g) i) = (unat i + 1) mod unat (ring_cap (ring_opts g))"
proof -
  let ?c = "unat (ring_cap (ring_opts g))"
  have c: "0 < ?c" "?c \<le> 2 ^ 32" using assms(1) by (simp_all add: ring_wf_def)
  have "ring_cap (ring_opts g) \<noteq> 0" using c by auto
  then have mk: "unat (ring_mask g) = ?c - 1" using assms(1) by (simp add: ring_wf_def unat_minus_one)
  have "uint (ucast i :: 64 word) = uint i" by (rule uint_up_ucast) (simp add: is_up)
  then have "unat (ucast i :: 64 word) = unat i" by (metis nat_uint_eq)
  then have e: "ucast i = ring_mask g \<longleftrightarrow> unat i = ?c - 1"
    using mk by (metis word_eq_iff_unat)
  show ?thesis
  proof (cases "unat i = ?c - 1")
    case True
    then show ?thesis using e c by (simp add: ring_next_def)
  next
    case False
    with assms(2) have lt: "unat i + 1 < ?c" by linarith
    then have "unat (i + 1) = unat i + 1" using c(2) by (subst unat_add_noflow) auto
    then show ?thesis using e False lt by (simp add: ring_next_def)
  qed
qed

subsection \<open>One thread\<close>

lemma ring_used_lt: "ring_wf g \<Longrightarrow> ring_used g < unat (ring_cap (ring_opts g))"
  by (simp add: ring_wf_def ring_used_def)

lemma ring_full_iff:
  assumes "ring_wf g"
  shows "ring_next (ring_mask g) (ring_head g) = ring_tail g
    \<longleftrightarrow> ring_used g = unat (ring_cap (ring_opts g)) - 1"
proof -
  have "unat (ring_head g) < unat (ring_cap (ring_opts g))" "unat (ring_tail g) < unat (ring_cap (ring_opts g))"
    using assms by (simp_all add: ring_wf_def)
  from circ_step(1) [OF this] show ?thesis
    by (simp only: word_eq_iff_unat ring_next_nat [OF assms \<open>unat (ring_head g) < _\<close>] ring_used_def)
qed

lemma ring_content_length [simp]: "length (ring_content g) = ring_used g"
  by (simp add: ring_content_def)

lemma kylin_ring_enqueue_full:
  "ring_wf g \<Longrightarrow> ring_used g = unat (ring_cap (ring_opts g)) - 1 \<Longrightarrow>
   kylin_ring_enqueue m g buf = Some (KYLIN_ERROR_NOMEM, g, m)"
  by (subst kylin_ring_enqueue.simps) (simp add: ring_full_iff)

lemma kylin_ring_enqueue_ok:
  assumes wf: "ring_wf g" and room: "ring_used g < unat (ring_cap (ring_opts g)) - 1"
    and v: "kmath_val_ctor m buf (ring_val_type (ring_opts g)) (ring_val_size (ring_opts g))
      (ring_val_ctor (ring_opts g)) = Some (v, m')"
  shows "\<exists>g'. kylin_ring_enqueue m g buf = Some (KYLIN_ERROR_OK, g', m') \<and> ring_wf g'
    \<and> ring_opts g' = ring_opts g \<and> ring_content g' = ring_content g @ [v]"
proof -
  define c h t where "c = unat (ring_cap (ring_opts g))" and "h = unat (ring_head g)"
    and "t = unat (ring_tail g)"
  note d = c_def [symmetric] h_def [symmetric] t_def [symmetric]
  have b: "h < c" "t < c" "length (ring_val g) = c" using wf by (simp_all add: ring_wf_def d)
  have nh: "unat (ring_next (ring_mask g) (ring_head g)) = (h + 1) mod c"
    using ring_next_nat [OF wf] b by (simp add: d)
  have nf: "ring_next (ring_mask g) (ring_head g) \<noteq> ring_tail g" using ring_full_iff [OF wf] room by simp
  define g' where "g' = g\<lparr>ring_head := ring_next (ring_mask g) (ring_head g),
    ring_val := (ring_val g)[(h + 1) mod c := v]\<rparr>"
  have lt: "(h + 1) mod c < c" using b by simp
  have e: "kylin_ring_enqueue m g buf = Some (KYLIN_ERROR_OK, g', m')"
    using nf v nh b lt by (subst kylin_ring_enqueue.simps)
      (simp add: Let_def kylin_atomic32_cmpset_def g'_def)
  have wf': "ring_wf g'" using wf nh lt by (simp add: ring_wf_def g'_def d)
  have u: "ring_used g = (h + c - t) mod c" by (simp add: ring_used_def d)
  have u': "ring_used g' = ring_used g + 1"
    using circ_step(2) [OF b(1,2)] room nh by (simp add: ring_used_def g'_def d)
  have "(h + 1) mod c = ((t + 1) mod c + ring_used g) mod c"
    using circ_step(4) [OF b(1,2)] by (metis add.commute add.left_commute mod_add_left_eq u)
  then have "ring_content g' = ring_content g @ [v]"
    unfolding ring_content_def u' using ring_slice_update [of "(t + 1) mod c" "ring_val g" "ring_used g"] b room
    by (simp add: g'_def d)
  with e wf' show ?thesis by (simp add: g'_def)
qed

lemma kylin_ring_dequeue_empty:
  "ring_wf g \<Longrightarrow> ring_content g = [] \<Longrightarrow> kylin_ring_dequeue g = Some (None, g)"
proof -
  assume wf: "ring_wf g" and "ring_content g = []"
  then have "ring_used g = 0" by (metis ring_content_length list.size(3))
  moreover have "unat (ring_head g) < unat (ring_cap (ring_opts g))" "unat (ring_tail g) < unat (ring_cap (ring_opts g))"
    using wf by (simp_all add: ring_wf_def)
  ultimately have "ring_head g = ring_tail g"
    using circ_step(5) by (metis ring_used_def word_eq_iff_unat)
  then show ?thesis by (subst kylin_ring_dequeue.simps) simp
qed

lemma ring_oldest:
  assumes wf: "ring_wf g" and c: "ring_content g = v # vs"
  defines "i \<equiv> unat (ring_next (ring_mask g) (ring_tail g))"
  shows "ring_tail g \<noteq> ring_head g" and "i < length (ring_val g)" and "ring_val g ! i = v"
    and "ring_wf (g\<lparr>ring_tail := ring_next (ring_mask g) (ring_tail g)\<rparr>)"
    and "ring_content (g\<lparr>ring_tail := ring_next (ring_mask g) (ring_tail g)\<rparr>) = vs"
proof -
  define n h t where "n = unat (ring_cap (ring_opts g))" and "h = unat (ring_head g)"
    and "t = unat (ring_tail g)"
  note d = n_def [symmetric] h_def [symmetric] t_def [symmetric]
  have b: "h < n" "t < n" "length (ring_val g) = n" using wf by (simp_all add: ring_wf_def d)
  have i: "i = (t + 1) mod n" unfolding i_def using ring_next_nat [OF wf] b by (simp add: d)
  show lt: "i < length (ring_val g)" using b by (simp add: i)
  have u: "ring_used g = (h + n - t) mod n" by (simp add: ring_used_def d)
  have used: "ring_used g = length vs + 1" using c by (metis ring_content_length length_Cons Suc_eq_plus1)
  have "h \<noteq> t" using circ_step(5) [OF b(1,2)] u used by simp
  then show "ring_tail g \<noteq> ring_head g" by (auto simp: h_def t_def)
  let ?g = "g\<lparr>ring_tail := ring_next (ring_mask g) (ring_tail g)\<rparr>"
  have "unat (ring_next (ring_mask g) (ring_tail g)) < n" using lt b(3) by (simp add: i_def)
  then show "ring_wf ?g" using wf by (auto simp: ring_wf_def d)
  have u': "ring_used ?g = ring_used g - 1"
    using circ_step(3) [OF b(1,2)] \<open>h \<noteq> t\<close> i by (simp add: ring_used_def d flip: i_def)
  have "ring_content g = ring_slice (ring_val g) i (1 + length vs)"
    by (simp add: ring_content_def d b i used)
  also have "\<dots> = ring_slice (ring_val g) i 1 @ ring_slice (ring_val g) ((i + 1) mod n) (length vs)"
    by (simp only: ring_slice_split b(3) [symmetric] ring_slice_mod)
  also have "ring_slice (ring_val g) i 1 = [ring_val g ! i]" using lt by (simp add: ring_slice_def)
  also have "ring_slice (ring_val g) ((i + 1) mod n) (length vs) = ring_content ?g"
    using u' used b(3) by (simp add: ring_content_def flip: i_def)
  finally show "ring_val g ! i = v" "ring_content ?g = vs" using c by simp_all
qed

lemma kylin_ring_dequeue_ok:
  assumes "ring_wf g" "ring_content g = v # vs"
  shows "\<exists>s g'. kylin_ring_dequeue g = Some (Some (kmath_val_get s v (ring_val_type (ring_opts g))), g')
    \<and> kylin_ring_peek g = Some (Some (kmath_val_get s v (ring_val_type (ring_opts g))))
    \<and> ring_val g' ! s = v \<and> ring_wf g' \<and> ring_opts g' = ring_opts g \<and> ring_content g' = vs"
  using ring_oldest [OF assms]
  by (subst kylin_ring_dequeue.simps) (auto simp: kylin_ring_peek_def Let_def kylin_atomic32_cmpset_def)

lemma ring_drain_objects:
  assumes "ring_wf g" "\<not> kobj_is_int (ring_val_type (ring_opts g))" "ring_content g = vs"
  shows "ring_drain g rels = Some (rels @ map Obj vs)"
  using assms
proof (induction vs arbitrary: g rels)
  case Nil
  then have "ring_tail g = ring_head g"
    by (metis kylin_ring_dequeue_empty kylin_ring_dequeue_ok circ_step(5) list.size(3) ring_content_length
        ring_used_def ring_wf_def word_eq_iff_unat)
  then show ?case by (subst ring_drain.simps) simp
next
  case (Cons v vs)
  note o = ring_oldest [OF Cons.prems(1,3)]
  have "ring_drain (g\<lparr>ring_tail := ring_next (ring_mask g) (ring_tail g)\<rparr>) (rels @ [Obj v])
      = Some ((rels @ [Obj v]) @ map Obj vs)"
    using o Cons.prems by (intro Cons.IH) simp_all
  with o Cons.prems(2) show ?case
    by (subst ring_drain.simps) (simp add: Let_def kylin_atomic32_cmpset_def kmath_val_get_def)
qed

lemma ring_drain_ints:
  assumes "ring_wf g" "kobj_is_int (ring_val_type (ring_opts g))" "\<not> ring_val_dtor (ring_opts g)"
    "ring_content g \<noteq> []"
  shows "ring_drain g rels = None"
proof -
  from assms(4) obtain v vs where "ring_content g = v # vs" by (cases "ring_content g") auto
  note o = ring_oldest [OF assms(1) this]
  show ?thesis using o assms(2,3)
    by (subst ring_drain.simps) (simp add: Let_def kylin_atomic32_cmpset_def kmath_val_get_def)
qed


subsection \<open>Many threads\<close>

text \<open>
  The program counters of a thread inside \<^verbatim>\<open>kylin_ring_enqueue\<close> and
  \<^verbatim>\<open>kylin_ring_dequeue\<close>, with the local variables that are live there. A step is
  one access to shared memory: the reads of \<^verbatim>\<open>head\<close> and \<^verbatim>\<open>tail\<close>, the
  compare-and-set, the access to the slot. \<open>rs_done\<close> and \<open>rs_deq\<close> record the values of
  the completed enqueues and dequeues.
\<close>

datatype rpc = Idle
  | EnqHead kmath_val | EnqTail kmath_val "32 word" | EnqCas kmath_val "32 word"
  | EnqWrite kmath_val "32 word"
  | DeqTail | DeqHead "32 word" | DeqCas "32 word" | DeqRead "32 word"

datatype rcall = CallEnqueue kmath_val | CallDequeue

record rsys =
  rs_head :: "32 word"
  rs_tail :: "32 word"
  rs_val :: "kmath_val list"
  rs_pc :: "nat \<Rightarrow> rpc"
  rs_done :: "kmath_val list"
  rs_deq :: "kmath_val list"

definition set_pc :: "rsys \<Rightarrow> nat \<Rightarrow> rpc \<Rightarrow> rsys" where
  "set_pc s t pc = s\<lparr>rs_pc := (rs_pc s)(t := pc)\<rparr>"

definition ring_thread_step :: "ksize \<Rightarrow> nat \<Rightarrow> rcall \<Rightarrow> rsys \<Rightarrow> rsys option" where
  "ring_thread_step msk t call s =
     (case rs_pc s t of
        Idle \<Rightarrow> Some (set_pc s t (case call of CallEnqueue v \<Rightarrow> EnqHead v | CallDequeue \<Rightarrow> DeqTail))
      | EnqHead v \<Rightarrow> Some (set_pc s t (EnqTail v (rs_head s)))
      | EnqTail v head \<Rightarrow>
          Some (set_pc s t (if ring_next msk head = rs_tail s then Idle else EnqCas v head))
      | EnqCas v head \<Rightarrow>
          (let (ok, head') = kylin_atomic32_cmpset (rs_head s) head (ring_next msk head)
           in Some (set_pc (s\<lparr>rs_head := head'\<rparr>) t
                (if ok then EnqWrite v (ring_next msk head) else EnqHead v)))
      | EnqWrite v i \<Rightarrow> do {
          vs \<leftarrow> arr_set (rs_val s) (unat i) v;
          Some (set_pc (s\<lparr>rs_val := vs, rs_done := rs_done s @ [v]\<rparr>) t Idle) }
      | DeqTail \<Rightarrow> Some (set_pc s t (DeqHead (rs_tail s)))
      | DeqHead tail \<Rightarrow> Some (set_pc s t (if tail = rs_head s then Idle else DeqCas tail))
      | DeqCas tail \<Rightarrow>
          (let (ok, tail') = kylin_atomic32_cmpset (rs_tail s) tail (ring_next msk tail)
           in Some (set_pc (s\<lparr>rs_tail := tail'\<rparr>) t
                (if ok then DeqRead (ring_next msk tail) else DeqTail)))
      | DeqRead i \<Rightarrow> do {
          v \<leftarrow> arr_get (rs_val s) (unat i);
          Some (set_pc (s\<lparr>rs_deq := rs_deq s @ [v]\<rparr>) t Idle) })"

inductive ring_step :: "ksize \<Rightarrow> rsys \<Rightarrow> rsys \<Rightarrow> bool" for msk where
  thread: "ring_thread_step msk t call s = Some s' \<Longrightarrow> ring_step msk s s'"

inductive_cases ring_stepE: "ring_step msk s s'"

definition ring_start :: "nat \<Rightarrow> rsys" where
  "ring_start c = \<lparr>rs_head = 0, rs_tail = 0, rs_val = replicate c 0, rs_pc = (\<lambda>t. Idle),
     rs_done = [], rs_deq = []\<rparr>"

definition ring_reachable :: "nat \<Rightarrow> rsys \<Rightarrow> bool" where
  "ring_reachable c s \<longleftrightarrow> (ring_step (of_nat c - 1))\<^sup>*\<^sup>* (ring_start c) s"

text \<open>A schedule names, step by step, the thread that moves and the call it makes when idle.\<close>

fun ring_exec :: "ksize \<Rightarrow> (nat \<times> rcall) list \<Rightarrow> rsys \<Rightarrow> rsys option" where
  "ring_exec msk [] s = Some s"
| "ring_exec msk ((t, call) # ss) s = do { s' \<leftarrow> ring_thread_step msk t call s; ring_exec msk ss s' }"

lemma ring_exec_steps: "ring_exec msk ss s = Some s' \<Longrightarrow> (ring_step msk)\<^sup>*\<^sup>* s s'"
proof (induction ss arbitrary: s)
  case (Cons x ss)
  obtain t call where x: "x = (t, call)" by force
  with Cons.prems obtain s1 where s1: "ring_thread_step msk t call s = Some s1" "ring_exec msk ss s1 = Some s'"
    by (auto simp: bind_eq_Some_conv)
  with Cons.IH show ?case by (blast intro: converse_rtranclp_into_rtranclp ring_step.thread)
qed simp

definition pc_ok :: "nat \<Rightarrow> rpc \<Rightarrow> bool" where
  "pc_ok c pc = (case pc of EnqTail v h \<Rightarrow> unat h < c | EnqCas v h \<Rightarrow> unat h < c
     | EnqWrite v i \<Rightarrow> unat i < c | DeqHead t \<Rightarrow> unat t < c | DeqCas t \<Rightarrow> unat t < c
     | DeqRead i \<Rightarrow> unat i < c | _ \<Rightarrow> True)"

definition ring_inv :: "nat \<Rightarrow> rsys \<Rightarrow> bool" where
  "ring_inv c s \<longleftrightarrow> length (rs_val s) = c \<and> unat (rs_head s) < c \<and> unat (rs_tail s) < c
     \<and> (\<forall>t. pc_ok c (rs_pc s t))"

lemma ring_next_lt:
  assumes "0 < c" "c \<le> 2 ^ 32" "unat i < c"
  shows "unat (ring_next (of_nat c - 1) i) < c"
proof -
  let ?g = "\<lparr>ring_opts = \<lparr>ring_cap = of_nat c, ring_val_type = 0, ring_val_size = 0, ring_val_ctor = None,
    ring_val_dtor = False, ring_guard_ctor = None\<rparr>, ring_mask = of_nat c - 1, ring_head = 0, ring_tail = 0,
    ring_val = replicate c 0\<rparr>"
  have u: "unat (of_nat c :: ksize) = c" using assms(2) by (simp add: unat_of_nat)
  then have "ring_wf ?g" using assms by (simp add: ring_wf_def)
  from ring_next_nat [OF this, of i] assms u show ?thesis by simp
qed

lemma ring_step_inv:
  assumes "0 < c" "c \<le> 2 ^ 32" "ring_step (of_nat c - 1) s s'" "ring_inv c s"
  shows "ring_inv c s'"
proof -
  from assms(3) obtain t call where st: "ring_thread_step (of_nat c - 1) t call s = Some s'"
    by (rule ring_stepE)
  have pt: "pc_ok c (rs_pc s t)" using assms(4) by (simp add: ring_inv_def)
  show ?thesis
    using st pt assms(4) ring_next_lt [OF assms(1,2)]
    by (cases "rs_pc s t")
      (auto simp: ring_thread_step_def ring_inv_def set_pc_def pc_ok_def kylin_atomic32_cmpset_def
        arr_set_def bind_eq_Some_conv split: if_splits rcall.splits)
qed

lemma ring_reachable_inv:
  assumes "0 < c" "c \<le> 2 ^ 32" "ring_reachable c s"
  shows "ring_inv c s"
  using assms(3) unfolding ring_reachable_def
proof (induction rule: rtranclp_induct)
  case base
  then show ?case using assms(1) by (simp add: ring_inv_def ring_start_def pc_ok_def)
next
  case (step s s')
  then show ?case using ring_step_inv [OF assms(1,2)] by blast
qed

subsection \<open>The value queue interface\<close>

fun enq_all :: "('q \<Rightarrow> kmath_val \<Rightarrow> 'q option) \<Rightarrow> 'q \<Rightarrow> kmath_val list \<Rightarrow> 'q option" where
  "enq_all enq q [] = Some q"
| "enq_all enq q (v # vs) = do { q \<leftarrow> enq q v; enq_all enq q vs }"

fun deq_all :: "('q \<Rightarrow> (kmath_val \<times> 'q) option) \<Rightarrow> 'q \<Rightarrow> nat \<Rightarrow> (kmath_val list \<times> 'q) option" where
  "deq_all deq q 0 = Some ([], q)"
| "deq_all deq q (Suc n) = do { (v, q) \<leftarrow> deq q; (vs, q) \<leftarrow> deq_all deq q n; Some (v # vs, q) }"

definition ring_enq :: "kring \<Rightarrow> kmath_val \<Rightarrow> kring option" where
  "ring_enq g v = do {
     (err, g, m) \<leftarrow> kylin_ring_enqueue (\<lambda>a. None) g v;
     if err = KYLIN_ERROR_OK then Some g else None }"

definition ring_deq :: "kring \<Rightarrow> (kmath_val \<times> kring) option" where
  "ring_deq g = do {
     (r, g) \<leftarrow> kylin_ring_dequeue g;
     case r of Some (Obj p) \<Rightarrow> Some (p, g) | _ \<Rightarrow> None }"

definition obj_ring :: "nat \<Rightarrow> kring \<Rightarrow> bool" where
  "obj_ring n g \<longleftrightarrow> ring_wf g \<and> unat (ring_cap (ring_opts g)) = n + 1
     \<and> ring_val_type (ring_opts g) = KOBJ_OTHERS \<and> ring_val_ctor (ring_opts g) = None"

locale value_queue =
  fixes n :: nat and inv :: "'q \<Rightarrow> bool" and content :: "'q \<Rightarrow> kmath_val list"
    and enq :: "'q \<Rightarrow> kmath_val \<Rightarrow> 'q option" and deq :: "'q \<Rightarrow> (kmath_val \<times> 'q) option"
  assumes enq_law: "inv q \<Longrightarrow> length (content q) < n \<Longrightarrow>
      \<exists>q'. enq q v = Some q' \<and> inv q' \<and> content q' = content q @ [v]"
    and enq_full: "inv q \<Longrightarrow> length (content q) = n \<Longrightarrow> enq q v = None"
    and deq_law: "inv q \<Longrightarrow> content q = v # vs \<Longrightarrow>
      \<exists>q'. deq q = Some (v, q') \<and> inv q' \<and> content q' = vs"
    and deq_empty: "inv q \<Longrightarrow> content q = [] \<Longrightarrow> deq q = None"
begin

lemma enq_all_content:
  "inv q \<Longrightarrow> length (content q) + length vs \<le> n \<Longrightarrow>
   \<exists>q'. enq_all enq q vs = Some q' \<and> inv q' \<and> content q' = content q @ vs"
proof (induction vs arbitrary: q)
  case (Cons v vs)
  then obtain q1 where q1: "enq q v = Some q1" "inv q1" "content q1 = content q @ [v]"
    using enq_law [of q v] by auto
  with Cons.IH [of q1] Cons.prems show ?case by simp
qed simp

lemma deq_all_content:
  "inv q \<Longrightarrow> k \<le> length (content q) \<Longrightarrow>
   \<exists>q'. deq_all deq q k = Some (take k (content q), q') \<and> inv q' \<and> content q' = drop k (content q)"
proof (induction k arbitrary: q)
  case (Suc k)
  then obtain v vs where c: "content q = v # vs" by (cases "content q") auto
  with Suc.prems obtain q1 where q1: "deq q = Some (v, q1)" "inv q1" "content q1 = vs"
    using deq_law [of q v vs] by auto
  with Suc.IH [of q1] Suc.prems c obtain q' where
    "deq_all deq q1 k = Some (take k vs, q')" "inv q'" "content q' = drop k vs" by auto
  with q1 c show ?case by simp
qed simp

lemma fifo_order:
  assumes "inv q" "content q = []" "length vs \<le> n"
  shows "\<exists>q1 q2. enq_all enq q vs = Some q1 \<and> deq_all deq q1 (length vs) = Some (vs, q2)
    \<and> inv q2 \<and> content q2 = []"
proof -
  from enq_all_content [OF assms(1)] assms(2,3) obtain q1 where
    "enq_all enq q vs = Some q1" "inv q1" "content q1 = vs" by auto
  with deq_all_content [of q1 "length vs"] show ?thesis by auto
qed

end

interpretation ring: value_queue n "obj_ring n" ring_content ring_enq ring_deq for n
proof
  fix q v assume h: "obj_ring n q" "length (ring_content q) < n"
  have c: "kmath_val_ctor (\<lambda>a. None) v (ring_val_type (ring_opts q)) (ring_val_size (ring_opts q))
      (ring_val_ctor (ring_opts q)) = Some (v, \<lambda>a. None)"
    using h(1) by (simp add: obj_ring_def kmath_val_ctor_def)
  show "\<exists>q'. ring_enq q v = Some q' \<and> obj_ring n q' \<and> ring_content q' = ring_content q @ [v]"
    using kylin_ring_enqueue_ok [OF _ _ c] h by (auto simp: ring_enq_def obj_ring_def)
next
  fix q v assume "obj_ring n q" "length (ring_content q) = n"
  then show "ring_enq q v = None"
    using kylin_ring_enqueue_full [of q "\<lambda>a. None" v] by (simp add: ring_enq_def obj_ring_def)
next
  fix q v vs assume h: "obj_ring n q" "ring_content q = v # vs"
  then have "ring_wf q" by (simp add: obj_ring_def)
  from kylin_ring_dequeue_ok [OF this h(2)] h(1)
  show "\<exists>q'. ring_deq q = Some (v, q') \<and> obj_ring n q' \<and> ring_content q' = vs"
    by (auto simp: ring_deq_def obj_ring_def kmath_val_get_def kobj_is_int_def)
next
  fix q assume "obj_ring n q" "ring_content q = []"
  then show "ring_deq q = None"
    using kylin_ring_dequeue_empty [of q] by (simp add: ring_deq_def obj_ring_def)
qed

subsection \<open>Properties\<close>

text \<open>
  C30. Used by one thread, a ring of capacity \<open>n + 1\<close> stores up to \<open>n\<close> objects and returns
  them in the order in which they were enqueued: enqueueing any list of at most \<open>n\<close> objects into an empty
  ring succeeds, and dequeueing as many returns that list and empties the ring.
\<close>

theorem kylin_ring_fifo_order:
  assumes "obj_ring n g" "ring_content g = []" "length vs \<le> n"
  shows "\<exists>g1 g2. enq_all ring_enq g vs = Some g1 \<and> deq_all ring_deq g1 (length vs) = Some (vs, g2)
    \<and> obj_ring n g2 \<and> ring_content g2 = []"
  by (rule ring.fifo_order [OF assms])

definition demo_ring :: kring where
  "demo_ring = \<lparr>ring_opts = \<lparr>ring_cap = 4, ring_val_type = KOBJ_OTHERS, ring_val_size = 8, ring_val_ctor = None,
     ring_val_dtor = False, ring_guard_ctor = None\<rparr>, ring_mask = 3, ring_head = 2, ring_tail = 2,
     ring_val = [0, 0, 0, 0]\<rparr>"

lemma demo_ring_inv: "obj_ring 3 demo_ring" "ring_content demo_ring = []"
  by (simp_all add: obj_ring_def ring_wf_def demo_ring_def ring_content_def ring_used_def ring_slice_def)

theorem kylin_ring_fifo_order_witness:
  "\<exists>g1 g2. enq_all ring_enq demo_ring [5, 6, 7] = Some g1 \<and> deq_all ring_deq g1 3 = Some ([5, 6, 7], g2)"
  using kylin_ring_fifo_order [OF demo_ring_inv, of "[5, 6, 7]"] by (auto simp: numeral_3_eq_3)

text \<open>
  Whatever the stored type, one enqueue on a well-formed ring either appends the value the
  constructor made, or answers NOMEM and changes nothing, and the latter exactly when the ring holds one value less
  than its capacity; the ring stays well-formed.
\<close>

theorem kylin_ring_enqueue_correct:
  assumes "ring_wf g"
    and "kmath_val_ctor m buf (ring_val_type (ring_opts g)) (ring_val_size (ring_opts g))
      (ring_val_ctor (ring_opts g)) = Some (v, m')"
  shows "if ring_used g = unat (ring_cap (ring_opts g)) - 1
    then kylin_ring_enqueue m g buf = Some (KYLIN_ERROR_NOMEM, g, m)
    else \<exists>g'. kylin_ring_enqueue m g buf = Some (KYLIN_ERROR_OK, g', m') \<and> ring_wf g'
      \<and> ring_content g' = ring_content g @ [v]"
proof (cases "ring_used g = unat (ring_cap (ring_opts g)) - 1")
  case True
  then show ?thesis using kylin_ring_enqueue_full [OF assms(1) True] by simp
next
  case False
  then have "ring_used g < unat (ring_cap (ring_opts g)) - 1" using ring_used_lt [OF assms(1)] by linarith
  from kylin_ring_enqueue_ok [OF assms(1) this assms(2)] False show ?thesis by auto
qed

theorem kylin_ring_enqueue_correct_witness:
  "\<exists>g'. kylin_ring_enqueue (\<lambda>a. None) demo_ring 9 = Some (KYLIN_ERROR_OK, g', \<lambda>a. None)
    \<and> ring_content g' = [9]"
  using kylin_ring_enqueue_correct [of demo_ring "\<lambda>a. None" 9 9 "\<lambda>a. None"] demo_ring_inv
  by (simp add: obj_ring_def kmath_val_ctor_def ring_used_def) (auto simp: demo_ring_def)

text \<open>
  C2. In every interleaving of any number of threads, \<^verbatim>\<open>head\<close> and \<^verbatim>\<open>tail\<close> stay
  below the capacity, and no thread is ever about to write or read a slot outside the ring: every thread can take its
  next step.
\<close>

theorem ring_threads_safe:
  assumes "0 < c" "c \<le> 2 ^ 32" "ring_reachable c s"
  shows "unat (rs_head s) < c \<and> unat (rs_tail s) < c \<and> length (rs_val s) = c
    \<and> (\<exists>s'. ring_thread_step (of_nat c - 1) t call s = Some s')"
proof -
  have i: "ring_inv c s" by (rule ring_reachable_inv [OF assms])
  then have "pc_ok c (rs_pc s t)" by (simp add: ring_inv_def)
  then have "\<exists>s'. ring_thread_step (of_nat c - 1) t call s = Some s'"
    using i by (cases "rs_pc s t")
      (auto simp: ring_thread_step_def pc_ok_def ring_inv_def kylin_atomic32_cmpset_def)
  with i show ?thesis by (simp add: ring_inv_def)
qed

theorem ring_threads_safe_witness:
  "\<exists>s'. ring_thread_step (of_nat 4 - 1) 0 (CallEnqueue 7) (ring_start 4) = Some s'"
  using ring_threads_safe [of 4 "ring_start 4" 0 "CallEnqueue 7"] by (auto simp: ring_reachable_def)

lemmas ring_run_simps = ring_thread_step_def set_pc_def ring_start_def kylin_atomic32_cmpset_def
  ring_next_def ring_reachable_def

text \<open>
  The slot is written only after \<^verbatim>\<open>head\<close> has been advanced: there is an
  interleaving of one enqueue of the value 7 and one dequeue on a fresh ring in which the dequeue returns
  the slot's old content 0, a value that was never enqueued.
\<close>

theorem ring_dequeue_before_write:
  "\<exists>s. ring_reachable 4 s \<and> rs_deq s = [0] \<and> rs_done s = [] \<and> (\<exists>i. rs_pc s 0 = EnqWrite 7 i)"
proof -
  let ?e = "(0 :: nat, CallEnqueue 7)" and ?d = "(1 :: nat, CallDequeue)"
  have "replicate 4 (0 :: kmath_val) = [0, 0, 0, 0]" by (simp add: numeral_eq_Suc)
  then have "\<exists>s. ring_exec (of_nat 4 - 1) [?e, ?e, ?e, ?e, ?d, ?d, ?d, ?d, ?d] (ring_start 4) = Some s
      \<and> rs_deq s = [0] \<and> rs_done s = [] \<and> (\<exists>i. rs_pc s 0 = EnqWrite 7 i)"
    by (simp add: ring_run_simps)
  then show ?thesis unfolding ring_reachable_def using ring_exec_steps by blast
qed

text \<open>
  C39. The compare-and-set does not protect against a \<^verbatim>\<open>head\<close> that has gone around the
  ring: there is an interleaving on a ring of capacity 2 after which three enqueues and one dequeue
  have completed successfully and all threads are idle, and yet the ring is empty, so that two values are lost.
\<close>

theorem ring_stale_head_loses_values:
  "\<exists>s. ring_reachable 2 s \<and> (\<forall>t. rs_pc s t = Idle) \<and> rs_head s = rs_tail s
    \<and> rs_done s = [2, 3, 1] \<and> rs_deq s = [2]"
proof -
  let ?a = "(0 :: nat, CallEnqueue 1)" and ?b = "(1 :: nat, CallEnqueue 2)"
    and ?c = "(1 :: nat, CallEnqueue 3)" and ?d = "(1 :: nat, CallDequeue)"
  have "replicate 2 (0 :: kmath_val) = [0, 0]" by (simp add: numeral_eq_Suc)
  then have "\<exists>s. ring_exec (of_nat 2 - 1) [?a, ?a, ?a, ?b, ?b, ?b, ?b, ?b, ?d, ?d, ?d, ?d, ?d,
        ?c, ?c, ?c, ?c, ?c, ?a, ?a] (ring_start 2) = Some s
      \<and> (\<forall>t. rs_pc s t = Idle) \<and> rs_head s = rs_tail s \<and> rs_done s = [2, 3, 1] \<and> rs_deq s = [2]"
    by (simp add: ring_run_simps)
  then show ?thesis unfolding ring_reachable_def using ring_exec_steps by blast
qed

text \<open>
  \<^verbatim>\<open>kylin_ring_destroy\<close> on a ring of objects releases exactly the stored objects, each
  once and oldest first; on a non-empty ring of integers without a destructor it passes the address of a slot inside the
  ring to \<^verbatim>\<open>free\<close>, which is undefined.
\<close>

theorem kylin_ring_destroy_releases:
  assumes "ring_wf g"
  shows "(\<not> kobj_is_int (ring_val_type (ring_opts g)) \<longrightarrow>
      kylin_ring_destroy g = Some (map Obj (ring_content g)))
    \<and> (kobj_is_int (ring_val_type (ring_opts g)) \<and> \<not> ring_val_dtor (ring_opts g) \<and> ring_content g \<noteq> [] \<longrightarrow>
      kylin_ring_destroy g = None)"
  using ring_drain_objects [OF assms] ring_drain_ints [OF assms] by (simp add: kylin_ring_destroy_def)

theorem kylin_ring_destroy_releases_witness:
  "kylin_ring_destroy demo_ring = Some []"
  using kylin_ring_destroy_releases [of demo_ring] demo_ring_inv
  by (simp add: obj_ring_def kobj_is_int_def)

end
