(* ===== verification/Kylin_Set.thy ===== *)
theory Kylin_Set
  imports Kylin_Value "HOL-Library.Multiset"
begin

section \<open>Array sets (lib/core/math/kylin_set.c)\<close>

text \<open>
  The set is an array of values of which the first \<^verbatim>\<open>used\<close> are stored. The user's
  comparison is given two pointers. \<open>Cell w\<close> is a pointer to a cell that holds the word
  \<open>w\<close> (the local variable of insert, or an array element of an integer type), and \<open>Ptr p\<close> is an
  object pointer. The loop counters of the source are C ints: a loop that counts past \<open>2 ^ 31 - 1\<close>
  is undefined. \<^verbatim>\<open>used\<close> grows up to the capacity only, so that both stay in the range of \<^verbatim>\<open>size_t\<close>.
\<close>

subsection \<open>Definitions\<close>

record kset_opts =
  set_is_order :: bool
  set_cap :: nat
  set_val_type :: kobj
  set_val_size :: ksize
  set_compare :: "(karg \<Rightarrow> karg \<Rightarrow> int) option"
  set_val_ctor :: "kctor option"
  set_guard_ctor :: "(nat \<Rightarrow> bool) option"

record kset =
  set_opts :: kset_opts
  set_used :: nat
  set_val :: "kmath_val list"

definition kylin_set_create :: "bool \<Rightarrow> kset_opts \<Rightarrow> kset option" where
  "kylin_set_create ok opts =
     (if \<not> (case set_guard_ctor opts of Some ctor \<Rightarrow> ctor (set_cap opts) | None \<Rightarrow> ok) then None
      else Some \<lparr>set_opts = opts, set_used = 0, set_val = replicate (set_cap opts) 0\<rparr>)"

text \<open>
  \<^verbatim>\<open>SET_VAL_FREE\<close> is never null: the user's destructor or \<^verbatim>\<open>kylin_free\<close>. Clearing releases the
  stored values and leaves \<^verbatim>\<open>used\<close> and the array as they are.
\<close>

definition kylin_set_clear :: "kset \<Rightarrow> krelease list option" where
  "kylin_set_clear guard =
     int_for 0 (set_used guard) (\<lambda>i rels. do {
       w \<leftarrow> arr_get (set_val guard) i;
       Some (rels @ kmath_val_dtor w (set_val_type (set_opts guard)) True) }) []"

definition kylin_set_destroy :: "kset \<Rightarrow> krelease list option" where
  "kylin_set_destroy guard = kylin_set_clear guard"

definition kylin_set_val_type :: "kset \<Rightarrow> kobj" where
  "kylin_set_val_type guard = set_val_type (set_opts guard)"

definition kylin_set_val_size :: "kset \<Rightarrow> ksize" where
  "kylin_set_val_size guard = set_val_size (set_opts guard)"

definition kylin_set_count :: "kset \<Rightarrow> nat" where
  "kylin_set_count guard = set_used guard"

text \<open>The pointer \<^verbatim>\<open>kmath_val_get(&guard->val[i], val_type)\<close> as the comparison sees it.\<close>

definition set_arg :: "kset \<Rightarrow> nat \<Rightarrow> karg option" where
  "set_arg guard i = do {
     w \<leftarrow> arr_get (set_val guard) i;
     Some (if kobj_is_int (set_val_type (set_opts guard)) then Cell w else Ptr w) }"

definition set_test :: "kset \<Rightarrow> karg \<Rightarrow> (int \<Rightarrow> bool) \<Rightarrow> nat \<Rightarrow> bool option" where
  "set_test guard key p i = do {
     a \<leftarrow> set_arg guard i;
     Some (case set_compare (set_opts guard) of Some cmp \<Rightarrow> p (cmp key a) | None \<Rightarrow> False) }"

definition swap_through :: "nat \<Rightarrow> nat \<Rightarrow> kmath_val \<Rightarrow> kmath_val list \<Rightarrow> (kmath_val \<times> kmath_val list) option" where
  "swap_through i n v vs = int_for i n (\<lambda>j (v, vs). do {
     w \<leftarrow> arr_get vs j;
     vs' \<leftarrow> arr_set vs j v;
     Some (w, vs') }) (v, vs)"

definition kylin_set_insert :: "umem \<Rightarrow> kset \<Rightarrow> kaddr \<Rightarrow> (kerr \<times> kset \<times> umem) option" where
  "kylin_set_insert m guard v =
     (if set_used guard = set_cap (set_opts guard) then Some (KYLIN_ERROR_INVAL, guard, m)
      else do {
        (val, m) \<leftarrow> kmath_val_ctor m v (set_val_type (set_opts guard)) (set_val_size (set_opts guard))
                    (set_val_ctor (set_opts guard));
        (val, vs) \<leftarrow>
          (if set_is_order (set_opts guard) then do {
             pos \<leftarrow> int_find 0 (set_used guard) (set_test guard (Cell val) (\<lambda>r. r < 0));
             case pos of Some i \<Rightarrow> swap_through i (set_used guard) val (set_val guard)
             | None \<Rightarrow> Some (val, set_val guard)
           } else Some (val, set_val guard));
        vs \<leftarrow> arr_set vs (set_used guard) val;
        Some (KYLIN_ERROR_OK, guard\<lparr>set_val := vs, set_used := set_used guard + 1\<rparr>, m)
      })"

definition kylin_set_remove_by_index :: "kset \<Rightarrow> nat \<Rightarrow> (kerr \<times> kset) option" where
  "kylin_set_remove_by_index guard index =
     (if index \<ge> set_used guard then Some (KYLIN_ERROR_INVAL, guard)
      else do {
        vs \<leftarrow> int_for index (set_used guard - 1) (\<lambda>i vs. do {
                a \<leftarrow> arr_get vs i;
                b \<leftarrow> arr_get vs (i + 1);
                vs \<leftarrow> arr_set vs i b;
                arr_set vs (i + 1) a }) (set_val guard);
        Some (KYLIN_ERROR_OK, guard\<lparr>set_val := vs, set_used := set_used guard - 1\<rparr>)
      })"

definition kylin_set_remove :: "kset \<Rightarrow> karg \<Rightarrow> (kerr \<times> kset) option" where
  "kylin_set_remove guard cmp = do {
     pos \<leftarrow> int_find 0 (set_used guard) (set_test guard cmp (\<lambda>r. r = 0));
     case pos of Some i \<Rightarrow> kylin_set_remove_by_index guard i
     | None \<Rightarrow> Some (KYLIN_ERROR_NOENT, guard) }"

text \<open>The searches return a pointer or null; \<open>set_get\<close> is the pointer to the element \<open>i\<close>.\<close>

definition set_get :: "kset \<Rightarrow> nat \<Rightarrow> nat kref option option" where
  "set_get guard i = do {
     w \<leftarrow> arr_get (set_val guard) i;
     Some (Some (kmath_val_get i w (set_val_type (set_opts guard)))) }"

definition kylin_set_find :: "kset \<Rightarrow> karg \<Rightarrow> nat kref option option" where
  "kylin_set_find guard key = do {
     pos \<leftarrow> int_find 0 (set_used guard) (set_test guard key (\<lambda>r. r = 0));
     case pos of Some i \<Rightarrow> set_get guard i | None \<Rightarrow> Some None }"

definition kylin_set_find_by_index :: "kset \<Rightarrow> nat \<Rightarrow> nat kref option option" where
  "kylin_set_find_by_index guard index = set_get guard index"

definition kylin_set_random :: "nat \<Rightarrow> kset \<Rightarrow> nat kref option option" where
  "kylin_set_random r guard =
     (if set_used guard = 0 then None else set_get guard (r mod set_used guard))"

definition kylin_set_first :: "kset \<Rightarrow> nat kref option option" where
  "kylin_set_first guard = set_get guard 0"

definition kylin_set_last :: "kset \<Rightarrow> nat kref option option" where
  "kylin_set_last guard = (if set_used guard = 0 then None else set_get guard (set_used guard - 1))"

definition kylin_set_next :: "kset \<Rightarrow> karg \<Rightarrow> nat kref option option" where
  "kylin_set_next guard cmp = do {
     pos \<leftarrow> int_find 0 (set_used guard) (set_test guard cmp (\<lambda>r. r = 0));
     case pos of
       Some i \<Rightarrow> if i < set_used guard - 1 then set_get guard (i + 1) else Some None
     | None \<Rightarrow> Some None }"

definition kylin_set_prev :: "kset \<Rightarrow> karg \<Rightarrow> nat kref option option" where
  "kylin_set_prev guard cmp = do {
     pos \<leftarrow> int_find 0 (set_used guard) (set_test guard cmp (\<lambda>r. r = 0));
     case pos of
       Some i \<Rightarrow> if i > 0 then set_get guard (i - 1) else Some None
     | None \<Rightarrow> Some None }"

text \<open>Both sorting routines are stubs in the source.\<close>

definition bubble_sort :: "kmath_val list \<Rightarrow> nat \<Rightarrow> kerr \<times> kmath_val list" where
  "bubble_sort val arr_len = (KYLIN_ERROR_OK, val)"

definition quick_sort :: "kmath_val list \<Rightarrow> nat \<Rightarrow> kerr \<times> kmath_val list" where
  "quick_sort val arr_len = (KYLIN_ERROR_OK, val)"

definition kylin_set_order :: "kset \<Rightarrow> kerr \<times> kset" where
  "kylin_set_order guard =
     (let (ret, vs) = (if set_used guard < 100 then bubble_sort (set_val guard) (set_used guard)
                       else quick_sort (set_val guard) (set_used guard))
      in (ret, guard\<lparr>set_val := vs\<rparr>))"

text \<open>A set that is well formed has a capacity its loop counters can reach.\<close>

definition set_wf :: "kset \<Rightarrow> bool" where
  "set_wf g \<longleftrightarrow> length (set_val g) = set_cap (set_opts g) \<and> set_used g \<le> set_cap (set_opts g) \<and> set_cap (set_opts g) < 2 ^ 31"

definition set_content :: "kset \<Rightarrow> kmath_val list" where
  "set_content g = take (set_used g) (set_val g)"

text \<open>The comparison of a stored word with a key, as a predicate on words.\<close>

definition set_holds :: "kset \<Rightarrow> karg \<Rightarrow> (int \<Rightarrow> bool) \<Rightarrow> kmath_val \<Rightarrow> bool" where
  "set_holds g key p w =
     (case set_compare (set_opts g) of
        Some cmp \<Rightarrow> p (cmp key (if kobj_is_int (set_val_type (set_opts g)) then Cell w else Ptr w))
      | None \<Rightarrow> False)"

subsection \<open>The loops\<close>

lemma set_scan:
  assumes "set_wf g"
  shows "int_find 0 (set_used g) (set_test g key p) =
    Some (let n = length (takeWhile (\<lambda>w. \<not> set_holds g key p w) (set_content g))
          in if n < set_used g then Some n else None)"
proof -
  have len: "length (set_content g) = set_used g" using assms by (simp add: set_content_def set_wf_def)
  have "set_test g key p i = Some (set_holds g key p (set_content g ! i))" if "i < set_used g" for i
    using that assms
    by (auto simp: set_test_def set_arg_def set_holds_def set_content_def set_wf_def split: option.splits)
  then have "find_loop [0..<set_used g] (set_test g key p) =
      Some (find (\<lambda>i. set_holds g key p (set_content g ! i)) [0..<set_used g])"
    by (intro find_loop_find) simp
  moreover have "set_used g < 2 ^ 31" using assms by (simp add: set_wf_def)
  ultimately show ?thesis using find_upt_nth [of "set_holds g key p" "set_content g"] by (simp add: len int_find_small)
qed

lemma swap_through_insert:
  assumes "i \<le> n" "n < length vs" "n < 2 ^ 31"
  shows "\<exists>w vs'. swap_through i n v vs = Some (w, vs')
    \<and> length vs' = length vs \<and> vs'[n := w] = take i vs @ v # drop i (take n vs) @ drop (n + 1) vs"
  using assms
proof (induction "n - i" arbitrary: i v vs)
  case 0
  then show ?case by (simp add: swap_through_def int_for_small upd_conv_take_nth_drop)
next
  case (Suc k)
  then have i: "i < n" "i < length vs" by simp_all
  let ?vs = "vs[i := v]"
  from Suc i have "\<exists>w vs'. swap_through (i + 1) n (vs ! i) ?vs = Some (w, vs')
    \<and> length vs' = length ?vs
    \<and> vs'[n := w] = take (i + 1) ?vs @ (vs ! i) # drop (i + 1) (take n ?vs) @ drop (n + 1) ?vs"
    by (intro Suc.hyps(1)) simp_all
  then obtain w vs' where r: "swap_through (i + 1) n (vs ! i) ?vs = Some (w, vs')" "length vs' = length vs"
    "vs'[n := w] = take (i + 1) ?vs @ (vs ! i) # drop (i + 1) (take n ?vs) @ drop (n + 1) ?vs" by auto
  have "take (i + 1) ?vs = take i vs @ [v]" using i by (simp add: take_Suc_conv_app_nth)
  moreover have "(vs ! i) # drop (i + 1) (take n ?vs) = drop i (take n vs)"
    using i by (simp add: take_update_swap Cons_nth_drop_Suc [symmetric] drop_update_cancel)
  ultimately have "vs'[n := w] = take i vs @ v # drop i (take n vs) @ drop (n + 1) vs"
    using r(3) i by (simp add: drop_update_cancel)
  moreover have "swap_through i n v vs = Some (w, vs')"
    using r(1) i Suc.prems by (simp add: swap_through_def int_for_small upt_conv_Cons)
  ultimately show ?case using r(2) by blast
qed

lemma remove_loop:
  assumes "i < n" "n \<le> length vs"
  shows "\<exists>vs'. for_loop [i..<n - 1] (\<lambda>i vs. do {
                a \<leftarrow> arr_get vs i;
                b \<leftarrow> arr_get vs (i + 1);
                vs \<leftarrow> arr_set vs i b;
                arr_set vs (i + 1) a }) vs = Some vs'
    \<and> length vs' = length vs \<and> take (n - 1) vs' = take i vs @ drop (i + 1) (take n vs)"
  using assms
proof (induction "n - 1 - i" arbitrary: i vs)
  case 0
  then have "i = n - 1" by simp
  then show ?case using 0 by (simp add: take_Suc_conv_app_nth)
next
  case (Suc k)
  then have i: "i < n - 1" "i + 1 < length vs" by simp_all
  let ?body = "\<lambda>i vs. do { a \<leftarrow> arr_get vs i; b \<leftarrow> arr_get vs (i + 1);
    vs \<leftarrow> arr_set vs i b; arr_set vs (i + 1) a }"
  let ?vs = "vs[i := vs ! (i + 1), i + 1 := vs ! i]"
  from Suc i have "\<exists>vs'. for_loop [i + 1..<n - 1] ?body ?vs = Some vs'
    \<and> length vs' = length ?vs \<and> take (n - 1) vs' = take (i + 1) ?vs @ drop (i + 1 + 1) (take n ?vs)"
    by (intro Suc.hyps(1)) simp_all
  then obtain vs' where r: "for_loop [i + 1..<n - 1] ?body ?vs = Some vs'" "length vs' = length vs"
    "take (n - 1) vs' = take (i + 1) ?vs @ drop (i + 2) (take n ?vs)" by auto
  have "take (i + 1) ?vs = take i vs @ [vs ! (i + 1)]" using i by (simp add: take_Suc_conv_app_nth)
  moreover have "(vs ! (i + 1)) # drop (i + 2) (take n ?vs) = drop (i + 1) (take n vs)"
    using i Suc.prems by (simp add: take_update_swap Cons_nth_drop_Suc [symmetric] drop_update_cancel)
  ultimately have "take (n - 1) vs' = take i vs @ drop (i + 1) (take n vs)" using r(3) by simp
  moreover have "for_loop [i..<n - 1] ?body vs = Some vs'"
    using r(1) i by (simp add: upt_conv_Cons)
  ultimately show ?case using r(2) by blast
qed

subsection \<open>Insertion and removal\<close>

lemma kylin_set_insert_content:
  assumes wf: "set_wf g" and room: "set_used g < set_cap (set_opts g)"
    and v: "kmath_val_ctor m v (set_val_type (set_opts g)) (set_val_size (set_opts g))
      (set_val_ctor (set_opts g)) = Some (val, m')"
  defines "P \<equiv> \<lambda>w. \<not> set_holds g (Cell val) (\<lambda>r. r < 0) w"
  shows "\<exists>g'. kylin_set_insert m g v = Some (KYLIN_ERROR_OK, g', m') \<and> set_wf g'
    \<and> set_opts g' = set_opts g
    \<and> set_content g' = (if set_is_order (set_opts g)
        then takeWhile P (set_content g) @ val # dropWhile P (set_content g)
        else set_content g @ [val])"
proof -
  define n vs c where "n = set_used g" and "vs = set_val g" and "c = set_content g"
  have len: "n < length vs" "length vs = set_cap (set_opts g)" "n < 2 ^ 31" using wf room by (simp_all add: set_wf_def n_def vs_def)
  have c: "c = take n vs" by (simp add: c_def set_content_def n_def vs_def)
  define i where "i = length (takeWhile P c)"
  have il: "i \<le> n" using length_takeWhile_le [of P c] len by (simp add: i_def c)
  have "takeWhile P c = take i c" "dropWhile P c = drop i c"
    unfolding i_def by (rule takeWhile_eq_take, rule dropWhile_eq_drop)
  then have tw: "takeWhile P c = take i vs" "dropWhile P c = drop i (take n vs)"
    using il by (simp_all add: c min_def)
  have scan: "int_find 0 n (set_test g (Cell val) (\<lambda>r. r < 0)) = Some (if i < n then Some i else None)"
    using set_scan [OF wf, of "Cell val" "\<lambda>r. r < 0"]
    by (simp add: n_def c_def i_def P_def)
  obtain w vs' where sw: "swap_through i n val vs = Some (w, vs')" "length vs' = length vs"
    "vs'[n := w] = take i vs @ val # drop i (take n vs) @ drop (n + 1) vs"
    using swap_through_insert [OF il len(1,3)] by blast
  define r where "r = (if set_is_order (set_opts g)
    then take i vs @ val # drop i (take n vs) @ drop (n + 1) vs else vs[n := val])"
  have rl: "length r = length vs" using len il by (auto simp: r_def)
  have e: "take n vs @ val # drop (n + 1) vs = vs[n := val]"
    using len(1) by (simp add: upd_conv_take_nth_drop)
  have ins: "kylin_set_insert m g v = Some (KYLIN_ERROR_OK, g\<lparr>set_val := r, set_used := n + 1\<rparr>, m')"
  proof (cases "set_is_order (set_opts g) \<and> i < n")
    case True
    then show ?thesis using room v scan sw len
      by (simp add: kylin_set_insert_def n_def [symmetric] vs_def [symmetric] r_def)
  next
    case False
    then have "r = vs[n := val]" using il e by (auto simp: r_def)
    then show ?thesis using False room v scan len
      by (auto simp: kylin_set_insert_def n_def [symmetric] vs_def [symmetric])
  qed
  have "take (n + 1) r = (if set_is_order (set_opts g) then takeWhile P c @ val # dropWhile P c else c @ [val])"
  proof (cases "set_is_order (set_opts g)")
    case True
    then show ?thesis using il len by (simp add: r_def tw Suc_diff_le)
  next
    case False
    then show ?thesis using len by (simp add: r_def c take_Suc_conv_app_nth)
  qed
  then have "set_content (g\<lparr>set_val := r, set_used := n + 1\<rparr>) =
      (if set_is_order (set_opts g) then takeWhile P c @ val # dropWhile P c else c @ [val])"
    by (simp add: set_content_def)
  then show ?thesis using ins rl len wf by (simp add: set_wf_def c_def)
qed

lemma kylin_set_remove_by_index_content:
  assumes "set_wf g" "i < set_used g"
  shows "\<exists>g'. kylin_set_remove_by_index g i = Some (KYLIN_ERROR_OK, g') \<and> set_wf g'
    \<and> set_opts g' = set_opts g
    \<and> set_content g' = take i (set_content g) @ drop (i + 1) (set_content g)"
proof -
  have "set_used g \<le> length (set_val g)" using assms(1) by (simp add: set_wf_def)
  from remove_loop [OF assms(2) this] obtain vs' where
    vs': "for_loop [i..<set_used g - 1] (\<lambda>i vs. do {
                a \<leftarrow> arr_get vs i;
                b \<leftarrow> arr_get vs (i + 1);
                vs \<leftarrow> arr_set vs i b;
                arr_set vs (i + 1) a }) (set_val g) = Some vs'" "length vs' = length (set_val g)"
    "take (set_used g - 1) vs' = take i (set_val g) @ drop (i + 1) (take (set_used g) (set_val g))" by blast
  have "kylin_set_remove_by_index g i =
      Some (KYLIN_ERROR_OK, g\<lparr>set_val := vs', set_used := set_used g - 1\<rparr>)"
  proof -
    have n: "set_used g - 1 < 2 ^ 31" using assms(1) by (auto simp: set_wf_def)
    show ?thesis unfolding kylin_set_remove_by_index_def int_for_small [OF n] using assms(2) vs'(1) by simp
  qed
  moreover have "set_wf (g\<lparr>set_val := vs', set_used := set_used g - 1\<rparr>)"
    using assms(1) vs'(2) by (auto simp: set_wf_def)
  moreover have "set_content (g\<lparr>set_val := vs', set_used := set_used g - 1\<rparr>) =
      take i (set_content g) @ drop (i + 1) (set_content g)"
    using vs'(3) assms(2) by (simp add: set_content_def min_def)
  ultimately show ?thesis by simp
qed

lemma kylin_set_remove_content:
  fixes key :: karg
  assumes wf: "set_wf g"
  defines "P \<equiv> \<lambda>w. \<not> set_holds g key (\<lambda>r. r = 0) w"
  shows "if \<forall>w \<in> set (set_content g). P w then kylin_set_remove g key = Some (KYLIN_ERROR_NOENT, g)
    else \<exists>g'. kylin_set_remove g key = Some (KYLIN_ERROR_OK, g') \<and> set_wf g'
      \<and> set_content g' = takeWhile P (set_content g) @ tl (dropWhile P (set_content g))"
proof -
  define c where "c = set_content g"
  have lc: "length c = set_used g" using wf by (simp add: c_def set_content_def set_wf_def)
  have scan: "int_find 0 (set_used g) (set_test g key (\<lambda>r. r = 0)) =
      Some (if length (takeWhile P c) < set_used g then Some (length (takeWhile P c)) else None)"
    using set_scan [OF wf, of key "\<lambda>r. r = 0"] by (simp add: c_def P_def)
  have all: "(\<forall>w \<in> set c. P w) \<longleftrightarrow> \<not> length (takeWhile P c) < set_used g"
    by (simp add: takeWhile_length_lt flip: lc)
  show ?thesis
  proof (cases "length (takeWhile P c) < set_used g")
    case False
    then show ?thesis using scan all by (simp add: kylin_set_remove_def c_def)
  next
    case True
    from kylin_set_remove_by_index_content [OF wf True] obtain g' where
      g': "kylin_set_remove_by_index g (length (takeWhile P c)) = Some (KYLIN_ERROR_OK, g')" "set_wf g'"
        "set_content g' = take (length (takeWhile P c)) c @ drop (length (takeWhile P c) + 1) c"
      by (auto simp: c_def)
    have "set_content g' = takeWhile P c @ tl (dropWhile P c)"
      unfolding g'(3) by (simp add: takeWhile_eq_take dropWhile_eq_drop drop_Suc tl_drop flip: takeWhile_eq_take)
    then show ?thesis using True scan all g' by (simp add: kylin_set_remove_def c_def)
  qed
qed

lemma kylin_set_find_content:
  assumes wf: "set_wf g" and w: "w \<in> set (set_content g)" "set_holds g key (\<lambda>r. r = 0) w"
  shows "\<exists>i < set_used g. set_holds g key (\<lambda>r. r = 0) (set_content g ! i)
    \<and> kylin_set_find g key = Some (Some (kmath_val_get i (set_content g ! i) (set_val_type (set_opts g))))"
proof -
  define P where "P = (\<lambda>w. \<not> set_holds g key (\<lambda>r. r = 0) w)"
  define c where "c = set_content g"
  define i where "i = length (takeWhile P c)"
  have lc: "length c = set_used g" using wf by (simp add: c_def set_content_def set_wf_def)
  have "i < set_used g"
    using w by (auto simp: i_def takeWhile_length_lt P_def c_def simp flip: lc)
  moreover have "\<not> P (c ! i)" using calculation lc by (simp add: i_def nth_length_takeWhile)
  moreover have "int_find 0 (set_used g) (set_test g key (\<lambda>r. r = 0)) = Some (Some i)"
    using set_scan [OF wf, of key "\<lambda>r. r = 0"] calculation(1) by (simp add: c_def P_def i_def)
  moreover have "set_get g i = Some (Some (kmath_val_get i (c ! i) (set_val_type (set_opts g))))"
    using calculation(1) wf by (simp add: set_get_def set_wf_def c_def set_content_def)
  ultimately show ?thesis by (auto simp: kylin_set_find_def P_def c_def)
qed

subsection \<open>Properties\<close>

text \<open>
  C28. In an ordered set of integers whose comparison orders the stored words by a key, insert
  keeps the array sorted and adds exactly the new value, without losing or duplicating another;
  in a full set it answers INVAL and changes nothing. The set is well formed, which bounds its capacity below \<open>2 ^ 31\<close>, where
  the \<^verbatim>\<open>int\<close> counters of the loops do not overflow.
\<close>

theorem kylin_set_insert_sorted:
  assumes "set_wf g" "set_is_order (set_opts g)" "kobj_is_int (set_val_type (set_opts g))"
    and "set_compare (set_opts g) = Some cmp" "\<forall>a b. cmp (Cell a) (Cell b) < 0 \<longleftrightarrow> key a < (key b :: int)"
    and "kmath_val_ctor m v (set_val_type (set_opts g)) (set_val_size (set_opts g))
      (set_val_ctor (set_opts g)) = Some (val, m')"
    and "sorted (map key (set_content g))"
  shows "if set_used g = set_cap (set_opts g) then kylin_set_insert m g v = Some (KYLIN_ERROR_INVAL, g, m)
    else \<exists>g'. kylin_set_insert m g v = Some (KYLIN_ERROR_OK, g', m') \<and> set_wf g'
      \<and> sorted (map key (set_content g')) \<and> mset (set_content g') = add_mset val (mset (set_content g))"
proof (cases "set_used g = set_cap (set_opts g)")
  case True
  then show ?thesis by (simp add: kylin_set_insert_def)
next
  case False
  then have "set_used g < set_cap (set_opts g)" using assms(1) by (simp add: set_wf_def)
  note ins = kylin_set_insert_content [OF assms(1) this assms(6)]
  let ?P = "\<lambda>w. \<not> set_holds g (Cell val) (\<lambda>r. r < 0) w" and ?c = "set_content g"
  have P: "?P w \<longleftrightarrow> key w \<le> key val" for w
    using assms(3-5) by (simp add: set_holds_def not_less)
  from ins assms(2) obtain g' where g': "kylin_set_insert m g v = Some (KYLIN_ERROR_OK, g', m')" "set_wf g'"
    "set_content g' = takeWhile ?P ?c @ val # dropWhile ?P ?c" by auto
  have "sorted (map key (takeWhile ?P ?c) @ map key (dropWhile ?P ?c))"
    using assms(7) by (simp only: takeWhile_dropWhile_id flip: map_append)
  then have s: "sorted (map key (takeWhile ?P ?c))" "sorted (map key (dropWhile ?P ?c))"
    "\<forall>x \<in> set (takeWhile ?P ?c). \<forall>y \<in> set (dropWhile ?P ?c). key x \<le> key y"
    by (auto simp: sorted_append)
  have lo: "key x \<le> key val" if "x \<in> set (takeWhile ?P ?c)" for x
    using set_takeWhileD [OF that] P by blast
  have hi: "key val \<le> key y" if "y \<in> set (dropWhile ?P ?c)" for y
  proof (cases "dropWhile ?P ?c")
    case (Cons z zs)
    then have "\<not> ?P z" by (metis hd_dropWhile list.distinct(1) list.sel(1))
    then have "key val < key z" using P [of z] by linarith
    moreover have "key z \<le> key y" using that Cons s(2) by auto
    ultimately show ?thesis by linarith
  next
    case Nil
    then show ?thesis using that by (simp only: list.set empty_iff)
  qed
  have "sorted (map key (set_content g'))"
    unfolding g'(3) using s lo hi by (auto simp: sorted_append)
  moreover have "mset (takeWhile ?P ?c) + mset (dropWhile ?P ?c) = mset ?c"
    by (simp only: takeWhile_dropWhile_id flip: mset_append)
  then have "mset (set_content g') = add_mset val (mset ?c)" unfolding g'(3) by simp
  ultimately show ?thesis using g'(1,2) False by auto
qed

definition cmp_cells :: "karg \<Rightarrow> karg \<Rightarrow> int" where
  "cmp_cells a b = (case (a, b) of (Cell x, Cell y) \<Rightarrow> sgn (uint x - uint y) | _ \<Rightarrow> 1)"

definition demo_set :: kset where
  "demo_set = \<lparr>set_opts = \<lparr>set_is_order = True, set_cap = 4, set_val_type = KOBJ_UINT8, set_val_size = 1,
     set_compare = Some cmp_cells, set_val_ctor = None, set_guard_ctor = None\<rparr>,
     set_used = 2, set_val = [1, 5, 0, 0]\<rparr>"

lemma demo_set_facts: "set_wf demo_set" "set_content demo_set = [1, 5]"
  "kmath_val_ctor [0 \<mapsto> 3] 0 KOBJ_UINT8 1 None = Some (3, [0 \<mapsto> 3])"
  "cmp_cells (Cell a) (Cell b) < 0 \<longleftrightarrow> uint a < uint b" "cmp_cells (Cell a) (Cell b) = 0 \<longleftrightarrow> a = b"
proof -
  show "kmath_val_ctor [0 \<mapsto> 3] 0 KOBJ_UINT8 1 None = Some (3, [0 \<mapsto> 3])"
    using kmath_val_ctor_byte(2) [of "[0 \<mapsto> 3]" 0 3] by simp
qed (auto simp: set_wf_def demo_set_def set_content_def cmp_cells_def sgn_if word_uint_eq_iff split: if_splits)

theorem kylin_set_insert_sorted_witness:
  "\<exists>g'. kylin_set_insert [0 \<mapsto> 3] demo_set 0 = Some (KYLIN_ERROR_OK, g', [0 \<mapsto> 3])
    \<and> mset (set_content g') = add_mset 3 (mset [1, 5])"
  using kylin_set_insert_sorted [of demo_set cmp_cells uint "[0 \<mapsto> 3]" 0 3 "[0 \<mapsto> 3]"] demo_set_facts
  by (simp add: demo_set_def kobj_is_int_def) blast


text \<open>
  Remove deletes the first element whose comparison with the key answers 0 and keeps all others in
  their order, and answers NOENT without a change when there is none.
\<close>

theorem kylin_set_remove_first:
  assumes "set_wf g" "set_content g = xs @ w # ys" "set_holds g key (\<lambda>r. r = 0) w"
    and "\<forall>x \<in> set xs. \<not> set_holds g key (\<lambda>r. r = 0) x"
  shows "\<exists>g'. kylin_set_remove g key = Some (KYLIN_ERROR_OK, g') \<and> set_wf g' \<and> set_content g' = xs @ ys"
proof -
  let ?P = "\<lambda>w. \<not> set_holds g key (\<lambda>r. r = 0) w"
  have "takeWhile ?P (set_content g) = xs" "dropWhile ?P (set_content g) = w # ys"
    using assms(2-4) by (simp_all add: takeWhile_append2 dropWhile_append2)
  moreover have "\<not> (\<forall>w \<in> set (set_content g). ?P w)" using assms(2,3) by auto
  ultimately show ?thesis using kylin_set_remove_content [OF assms(1), of key] by (simp only: if_False list.sel)
qed

theorem kylin_set_remove_first_witness:
  "\<exists>g'. kylin_set_remove demo_set (Cell 5) = Some (KYLIN_ERROR_OK, g') \<and> set_content g' = [1]"
  using kylin_set_remove_first [of demo_set "[1]" 5 "[]" "Cell 5"] demo_set_facts
  by (auto simp: set_holds_def demo_set_def kobj_is_int_def cmp_cells_def)

text \<open>
  A value is found after it was inserted: in a set of integers whose comparison answers 0 exactly for equal
  words, find with a key that points to the inserted word returns the address of a slot that
  holds that word, ordered set or not.
\<close>

theorem kylin_set_find_inserted:
  assumes "set_wf g" "set_used g < set_cap (set_opts g)" "kobj_is_int (set_val_type (set_opts g))"
    and "set_compare (set_opts g) = Some cmp" "\<forall>a b. cmp (Cell a) (Cell b) = 0 \<longleftrightarrow> a = b"
    and "kmath_val_ctor m v (set_val_type (set_opts g)) (set_val_size (set_opts g))
      (set_val_ctor (set_opts g)) = Some (val, m')"
  shows "\<exists>g' i. kylin_set_insert m g v = Some (KYLIN_ERROR_OK, g', m')
    \<and> kylin_set_find g' (Cell val) = Some (Some (Slot i)) \<and> set_content g' ! i = val"
proof -
  from kylin_set_insert_content [OF assms(1,2,6)] obtain g' where
    g': "kylin_set_insert m g v = Some (KYLIN_ERROR_OK, g', m')" "set_wf g'" "set_opts g' = set_opts g"
      "val \<in> set (set_content g')" by (auto split: if_splits)
  have h: "set_holds g' (Cell val) (\<lambda>r. r = 0) w \<longleftrightarrow> w = val" for w
    using assms(3-5) g'(3) by (auto simp: set_holds_def)
  then show ?thesis
    using kylin_set_find_content [OF g'(2,4), of "Cell val"] assms(3) g'(1,3)
    by (auto simp: kmath_val_get_def)
qed

theorem kylin_set_find_inserted_witness:
  "\<exists>g' i. kylin_set_insert [0 \<mapsto> 3] demo_set 0 = Some (KYLIN_ERROR_OK, g', [0 \<mapsto> 3])
    \<and> kylin_set_find g' (Cell 3) = Some (Some (Slot i)) \<and> set_content g' ! i = 3"
  using kylin_set_find_inserted [of demo_set cmp_cells "[0 \<mapsto> 3]" 0 3 "[0 \<mapsto> 3]"] demo_set_facts
  by (simp add: demo_set_def kobj_is_int_def)

end
