(* ===== verification/Kylin_String.thy ===== *)
theory Kylin_String
  imports Kylin_Prelude "HOL-Library.Sublist"
begin

section \<open>Counted strings (lib/core/math/kylin_string.c)\<close>

text \<open>
  A string is a block of \<^verbatim>\<open>cap + 1\<close> characters of which the first \<^verbatim>\<open>used\<close> are its
  text. A raw C string is the list of the bytes from its address on; \<^verbatim>\<open>strlen\<close> of a raw
  string without a zero byte, and every access outside a block, is \<open>None\<close>. A pointer result
  is an option inside: \<open>Some None\<close> is the null pointer. \<^verbatim>\<open>memcmp\<close> is modelled by the
  sign of its result, all that the C standard fixes.
\<close>

subsection \<open>Definitions\<close>

record kstr_opts =
  str_cap :: ksize
  str_guard_ctor :: "(nat \<Rightarrow> bool) option"

record kstr =
  str_opts :: kstr_opts
  str_used :: ksize
  str_val :: "kbyte list"

text \<open>The size of the array of a name (include/utils/kylin_limit.h).\<close>

abbreviation KYLIN_NAME_LENGTH :: nat where "KYLIN_NAME_LENGTH \<equiv> 64"

definition strlen :: "kbyte list \<Rightarrow> ksize option" where
  "strlen s = (if 0 \<in> set s then Some (of_nat (length (takeWhile (\<lambda>b. b \<noteq> 0) s))) else None)"

fun byte_cmp :: "kbyte list \<Rightarrow> kbyte list \<Rightarrow> int" where
  "byte_cmp (a # as) (b # bs) = (if a < b then -1 else if b < a then 1 else byte_cmp as bs)"
| "byte_cmp _ _ = 0"

definition memcmp :: "kbyte list \<Rightarrow> nat \<Rightarrow> kbyte list \<Rightarrow> nat \<Rightarrow> nat \<Rightarrow> int option" where
  "memcmp a i b j n = do {
     as \<leftarrow> buf_read a i n;
     bs \<leftarrow> buf_read b j n;
     Some (byte_cmp as bs) }"

definition kylin_string_create :: "bool \<Rightarrow> kstr_opts \<Rightarrow> kstr option" where
  "kylin_string_create ok opts =
     (if \<not> (case str_guard_ctor opts of Some ctor \<Rightarrow> ctor (unat (str_cap opts) + 1) | None \<Rightarrow> ok)
      then None
      else Some \<lparr>str_opts = opts, str_used = 0, str_val = replicate (unat (str_cap opts) + 1) 0\<rparr>)"

definition kylin_string_val :: "kstr \<Rightarrow> kbyte list" where
  "kylin_string_val s = str_val s"

definition kylin_string_zero :: "kstr \<Rightarrow> kstr option" where
  "kylin_string_zero s = do {
     v \<leftarrow> buf_write (str_val s) 0 (replicate (unat (str_used s)) 0);
     Some (s\<lparr>str_val := v, str_used := 0\<rparr>) }"

definition kylin_strlen :: "kstr \<Rightarrow> ksize" where
  "kylin_strlen s = str_used s"

definition kylin_strndup :: "bool \<Rightarrow> kstr \<Rightarrow> ksize \<Rightarrow> kstr option option" where
  "kylin_strndup ok s n =
     (case kylin_string_create ok (str_opts s) of
        None \<Rightarrow> Some None
      | Some d \<Rightarrow> do {
          a \<leftarrow> buf_read (str_val s) 0 (unat (min (str_used s) n));
          v \<leftarrow> buf_write (str_val d) 0 a;
          Some (Some (d\<lparr>str_val := v, str_used := min (str_used s) n\<rparr>)) })"

definition kylin_strdup :: "bool \<Rightarrow> kstr \<Rightarrow> kstr option option" where
  "kylin_strdup ok s = kylin_strndup ok s (str_used s)"

definition kylin_strndup_raw :: "bool \<Rightarrow> kstr \<Rightarrow> ksize \<Rightarrow> kbyte list option option" where
  "kylin_strndup_raw ok s n =
     (let k = unat (min (str_used s) n)
      in case kylin_malloc ok (k + 1) of
        None \<Rightarrow> Some None
      | Some d \<Rightarrow> do {
          a \<leftarrow> buf_read (str_val s) 0 k;
          d \<leftarrow> buf_write d 0 a;
          d \<leftarrow> arr_set d k 0;
          Some (Some d) })"

definition kylin_strdup_raw :: "bool \<Rightarrow> kstr \<Rightarrow> kbyte list option option" where
  "kylin_strdup_raw ok s = kylin_strndup_raw ok s (str_used s)"

definition kylin_strcmp :: "kstr \<Rightarrow> kstr \<Rightarrow> int option" where
  "kylin_strcmp s1 s2 = memcmp (str_val s1) 0 (str_val s2) 0 (unat (min (str_used s1) (str_used s2)))"

definition kylin_strcmp_raw :: "kstr \<Rightarrow> kbyte list \<Rightarrow> int option" where
  "kylin_strcmp_raw s1 s2 = do {
     len \<leftarrow> strlen s2;
     memcmp (str_val s1) 0 s2 0 (unat (min (str_used s1) len)) }"

definition kylin_strncmp :: "kstr \<Rightarrow> kstr \<Rightarrow> ksize \<Rightarrow> int option" where
  "kylin_strncmp s1 s2 n = memcmp (str_val s1) 0 (str_val s2) 0 (unat n)"

definition kylin_strncmp_raw :: "kstr \<Rightarrow> kbyte list \<Rightarrow> ksize \<Rightarrow> int option" where
  "kylin_strncmp_raw s1 s2 n = memcmp (str_val s1) 0 s2 0 (unat n)"

text \<open>The copies: the result is null and no change, or the changed destination.\<close>

definition str_copy_in :: "kstr \<Rightarrow> ksize \<Rightarrow> kbyte list \<Rightarrow> ksize \<Rightarrow> kbyte list option" where
  "str_copy_in dest off src n = do {
     a \<leftarrow> buf_read src 0 (unat n);
     buf_write (str_val dest) (unat off) a }"

definition kylin_strcpy :: "kstr \<Rightarrow> kstr \<Rightarrow> kstr option option" where
  "kylin_strcpy dest src =
     (if str_used src > str_cap (str_opts dest) then Some None
      else do {
        v \<leftarrow> str_copy_in dest 0 (str_val src) (str_used src);
        Some (Some (dest\<lparr>str_val := v, str_used := str_used src\<rparr>)) })"

definition kylin_strcpy_raw :: "kstr \<Rightarrow> kbyte list \<Rightarrow> kstr option option" where
  "kylin_strcpy_raw dest src = do {
     len \<leftarrow> strlen src;
     if len > str_cap (str_opts dest) then Some None
     else do {
       v \<leftarrow> str_copy_in dest 0 src len;
       Some (Some (dest\<lparr>str_val := v, str_used := len\<rparr>)) } }"

definition kylin_strncpy :: "kstr \<Rightarrow> kstr \<Rightarrow> ksize \<Rightarrow> kstr option option" where
  "kylin_strncpy dest src n =
     (if n > str_used src \<or> n > str_cap (str_opts dest) then Some None
      else do {
        v \<leftarrow> str_copy_in dest 0 (str_val src) n;
        Some (Some (dest\<lparr>str_val := v, str_used := n\<rparr>)) })"

definition kylin_strncpy_raw :: "kstr \<Rightarrow> kbyte list \<Rightarrow> ksize \<Rightarrow> kstr option option" where
  "kylin_strncpy_raw dest src n = do {
     len \<leftarrow> strlen src;
     if n > len \<or> n > str_cap (str_opts dest) then Some None
     else do {
       v \<leftarrow> str_copy_in dest 0 src n;
       Some (Some (dest\<lparr>str_val := v, str_used := n\<rparr>)) } }"

definition kylin_strncat :: "kstr \<Rightarrow> kstr \<Rightarrow> ksize \<Rightarrow> kstr option option" where
  "kylin_strncat dest src n =
     (if n > str_used src \<or> n > str_cap (str_opts dest) - str_used dest then Some None
      else do {
        v \<leftarrow> str_copy_in dest (str_used dest) (str_val src) n;
        Some (Some (dest\<lparr>str_val := v\<rparr>)) })"

definition kylin_strncat_raw :: "kstr \<Rightarrow> kbyte list \<Rightarrow> ksize \<Rightarrow> kstr option option" where
  "kylin_strncat_raw dest src n = do {
     len \<leftarrow> strlen src;
     if n > len \<or> n > str_cap (str_opts dest) - str_used dest then Some None
     else do {
       v \<leftarrow> str_copy_in dest (str_used dest) src len;
       Some (Some (dest\<lparr>str_val := v\<rparr>)) } }"

definition kylin_strcat :: "kstr \<Rightarrow> kstr \<Rightarrow> kstr option option" where
  "kylin_strcat dest src = kylin_strncat dest src (str_used src)"

definition kylin_strcat_raw :: "kstr \<Rightarrow> kbyte list \<Rightarrow> kstr option option" where
  "kylin_strcat_raw dest src = do { len \<leftarrow> strlen src; kylin_strncat_raw dest src len }"

text \<open>The searches return the index of the position in the text, or null.\<close>

definition kylin_strchr :: "kstr \<Rightarrow> kbyte \<Rightarrow> nat option option" where
  "kylin_strchr s c = find_loop [0..<unat (str_used s)] (\<lambda>i. do {
     b \<leftarrow> arr_get (str_val s) i; Some (b = c) })"

definition kylin_strrchr :: "kstr \<Rightarrow> kbyte \<Rightarrow> nat option option" where
  "kylin_strrchr s c = find_loop (rev [0..<unat (str_used s)]) (\<lambda>i. do {
     b \<leftarrow> arr_get (str_val s) i; Some (b = c) })"

definition kylin_strpbrk :: "kstr \<Rightarrow> kbyte list \<Rightarrow> nat option option" where
  "kylin_strpbrk s acpt = do {
     len \<leftarrow> strlen acpt;
     find_loop [0..<unat (str_used s)] (\<lambda>i. do {
       b \<leftarrow> arr_get (str_val s) i;
       hit \<leftarrow> find_loop [0..<unat len] (\<lambda>j. do { a \<leftarrow> arr_get acpt j; Some (b = a) });
       Some (hit \<noteq> None) }) }"

text \<open>
  The loop of the two \<^verbatim>\<open>strstr\<close>: it goes on while the character at \<open>i\<close> is the first
  character of the pattern, and leaves the block at its end at the latest.
\<close>

function str_scan :: "kbyte list \<Rightarrow> kbyte list \<Rightarrow> nat \<Rightarrow> nat \<Rightarrow> nat option option" where
  "str_scan val pat len i =
     (if length val \<le> i then None
      else do {
        p \<leftarrow> arr_get pat 0;
        if val ! i \<noteq> p then Some None
        else do {
          r \<leftarrow> memcmp pat 0 val i len;
          if r = 0 then Some (Some i) else str_scan val pat len (i + 1) } })"
  by pat_completeness auto
termination by (relation "measure (\<lambda>(val, pat, len, i). length val - i)") auto

definition kylin_strstr :: "kstr \<Rightarrow> kstr \<Rightarrow> nat option option" where
  "kylin_strstr s acpt =
     (if str_used acpt > str_used s then Some None
      else str_scan (str_val s) (str_val acpt) (unat (str_used acpt)) 0)"

definition kylin_strstr_raw :: "kstr \<Rightarrow> kbyte list \<Rightarrow> nat option option" where
  "kylin_strstr_raw s acpt = do {
     len \<leftarrow> strlen acpt;
     if len > str_used s then Some None
     else str_scan (str_val s) acpt (unat len) 0 }"

definition kylin_strtok :: "bool \<Rightarrow> kstr \<Rightarrow> kbyte list \<Rightarrow> kstr option option" where
  "kylin_strtok ok s acpt = do {
     len \<leftarrow> strlen acpt;
     d \<leftarrow> kylin_strdup ok s;
     case d of None \<Rightarrow> Some None
     | Some d \<Rightarrow> do {
         v \<leftarrow> for_loop [0..<unat (str_used s)] (\<lambda>i v. for_loop [0..<unat len] (\<lambda>j v. do {
                b \<leftarrow> arr_get (str_val s) i;
                a \<leftarrow> arr_get acpt j;
                if b = a then arr_set v i 0 else Some v }) v) (str_val d);
         Some (Some (d\<lparr>str_val := v\<rparr>)) } }"

definition str_wf :: "kstr \<Rightarrow> bool" where
  "str_wf s \<longleftrightarrow> length (str_val s) = unat (str_cap (str_opts s)) + 1
     \<and> str_used s \<le> str_cap (str_opts s)"

definition str_text :: "kstr \<Rightarrow> kbyte list" where
  "str_text s = take (unat (str_used s)) (str_val s)"

subsection \<open>Comparison and copies\<close>

lemma str_wfD:
  assumes "str_wf s"
  shows "unat (str_used s) \<le> unat (str_cap (str_opts s))" "unat (str_used s) < length (str_val s)"
    "length (str_text s) = unat (str_used s)"
  using assms by (auto simp: str_wf_def word_le_nat_alt str_text_def)

lemma byte_cmp_zero: "length as = length bs \<Longrightarrow> byte_cmp as bs = 0 \<longleftrightarrow> as = bs"
  by (induction as bs rule: byte_cmp.induct) auto

lemma unat_min: "unat (min a b) = min (unat a) (unat (b :: ksize))"
  by (simp add: min_def word_le_nat_alt)

lemma prefix_take_iff: "length xs \<le> length ys \<Longrightarrow> prefix xs ys \<longleftrightarrow> xs = take (length xs) ys"
  by (metis append_eq_conv_conj prefix_def take_is_prefix)

lemma take_min_prefix:
  "take (min (length xs) (length ys)) xs = take (min (length xs) (length ys)) ys
    \<longleftrightarrow> prefix xs ys \<or> prefix ys xs"
proof (cases "length xs \<le> length ys")
  case True
  then have "prefix ys xs \<Longrightarrow> prefix xs ys" by (metis le_antisym prefix_length_le
        prefix_order.refl prefix_take_iff take_all)
  with True prefix_take_iff [OF True] show ?thesis by (auto simp: min_def)
next
  case False
  then have "length ys \<le> length xs" "\<not> prefix xs ys" by (auto dest: prefix_length_le)
  with prefix_take_iff [of ys xs] False show ?thesis by (auto simp: min_def)
qed

lemma kylin_strcmp_zero_iff:
  assumes "str_wf s" "str_wf t"
  shows "\<exists>r. kylin_strcmp s t = Some r
    \<and> (r = 0 \<longleftrightarrow> prefix (str_text s) (str_text t) \<or> prefix (str_text t) (str_text s))"
proof -
  define n where "n = min (unat (str_used s)) (unat (str_used t))"
  note ws = str_wfD [OF assms(1)] and wt = str_wfD [OF assms(2)]
  have l: "n \<le> length (str_val s)" "n \<le> length (str_val t)" using ws(2) wt(2) by (simp_all add: n_def)
  have e: "take n (str_val s) = take n (str_text s)" "take n (str_val t) = take n (str_text t)"
    by (simp_all add: str_text_def n_def)
  have "kylin_strcmp s t = Some (byte_cmp (take n (str_text s)) (take n (str_text t)))"
    using l e by (simp add: kylin_strcmp_def memcmp_def buf_read_def unat_min n_def)
  moreover have "take n (str_text s) = take n (str_text t) \<longleftrightarrow>
      prefix (str_text s) (str_text t) \<or> prefix (str_text t) (str_text s)"
    using take_min_prefix [of "str_text s" "str_text t"] ws(3) wt(3) by (simp add: n_def)
  ultimately show ?thesis using ws(3) wt(3) by (simp add: byte_cmp_zero n_def)
qed

lemma kylin_strcpy_text:
  assumes "str_wf d" "str_wf s" "str_used s \<le> str_cap (str_opts d)"
  shows "\<exists>d'. kylin_strcpy d s = Some (Some d') \<and> str_wf d' \<and> str_opts d' = str_opts d
    \<and> str_text d' = str_text s"
proof -
  let ?n = "unat (str_used s)"
  have l: "?n \<le> unat (str_cap (str_opts d))" "?n < length (str_val d)" "?n < length (str_val s)"
    using assms str_wfD [OF assms(2)] by (auto simp: str_wf_def word_le_nat_alt)
  let ?d = "d\<lparr>str_val := take ?n (str_val s) @ drop ?n (str_val d), str_used := str_used s\<rparr>"
  have "kylin_strcpy d s = Some (Some ?d)"
    using assms(3) l by (simp add: kylin_strcpy_def str_copy_in_def buf_read_def buf_write_def not_less)
  moreover have "str_wf ?d" using assms l by (simp add: str_wf_def)
  moreover have "str_text ?d = str_text s" using l by (simp add: str_text_def)
  ultimately show ?thesis by auto
qed

lemma kylin_strdup_text:
  assumes "str_wf s" "str_guard_ctor (str_opts s) = None"
  shows "\<exists>d. kylin_strdup True s = Some (Some d) \<and> str_wf d \<and> str_opts d = str_opts s
    \<and> str_text d = str_text s"
proof -
  let ?n = "unat (str_used s)"
  define e where "e = \<lparr>str_opts = str_opts s, str_used = 0,
    str_val = replicate (unat (str_cap (str_opts s)) + 1) 0 :: kbyte list\<rparr>"
  have c: "kylin_string_create True (str_opts s) = Some e" using assms(2) by (simp add: kylin_string_create_def e_def)
  have l: "?n \<le> unat (str_cap (str_opts s))" "?n < length (str_val s)" using str_wfD [OF assms(1)] by auto
  let ?d = "e\<lparr>str_val := take ?n (str_val s) @ drop ?n (str_val e), str_used := str_used s\<rparr>"
  have "kylin_strdup True s = Some (Some ?d)"
    using c l by (simp add: kylin_strdup_def kylin_strndup_def buf_read_def buf_write_def e_def)
  moreover have "str_wf ?d" using assms(1) l by (simp add: str_wf_def e_def)
  moreover have "str_text ?d = str_text s" using l by (simp add: str_text_def)
  ultimately show ?thesis by (auto simp: e_def)
qed

lemma kylin_strncat_text:
  assumes "str_wf d" "str_wf s" "n \<le> str_used s" "unat n \<le> unat (str_cap (str_opts d)) - unat (str_used d)"
  shows "\<exists>d'. kylin_strncat d s n = Some (Some d') \<and> str_wf d' \<and> str_used d' = str_used d
    \<and> str_text d' = str_text d
    \<and> take (unat (str_used d) + unat n) (str_val d') = str_text d @ take (unat n) (str_text s)"
proof -
  note wd = str_wfD [OF assms(1)] and ws = str_wfD [OF assms(2)]
  have le: "unat n \<le> unat (str_used s)" using assms(3) by (simp add: word_le_nat_alt)
  have sub: "unat (str_cap (str_opts d) - str_used d) = unat (str_cap (str_opts d)) - unat (str_used d)"
    using assms(1) by (intro unat_sub) (simp add: str_wf_def)
  then have g: "\<not> (n > str_used s \<or> n > str_cap (str_opts d) - str_used d)"
    using assms(3,4) by (simp add: not_less word_le_nat_alt)
  let ?u = "unat (str_used d)" and ?n = "unat n"
  have l: "?u + ?n < length (str_val d)" "?n \<le> length (str_val s)"
    using assms(1,4) wd ws le by (auto simp: str_wf_def)
  define d' where "d' = d\<lparr>str_val := take ?u (str_val d) @ take ?n (str_val s) @ drop (?u + ?n) (str_val d)\<rparr>"
  have "kylin_strncat d s n = Some (Some d')"
    unfolding kylin_strncat_def if_not_P [OF g] using l
    by (simp add: str_copy_in_def buf_read_def buf_write_def d'_def)
  moreover have "str_wf d'" using assms(1) l by (simp add: str_wf_def d'_def)
  moreover have "str_text d' = str_text d" using l by (simp add: str_text_def d'_def)
  moreover have "take (?u + ?n) (str_val d') = str_text d @ take ?n (str_text s)"
    using l le by (simp add: str_text_def d'_def min_def)
  ultimately show ?thesis by (auto simp: d'_def)
qed


subsection \<open>Searches\<close>

lemma str_arr_get: "str_wf s \<Longrightarrow> i < unat (str_used s) \<Longrightarrow> arr_get (str_val s) i = Some (str_text s ! i)"
  using str_wfD(2) [of s] by (simp add: str_text_def)

lemma kylin_strchr_first:
  assumes "str_wf s" "str_text s = xs @ c # ys" "c \<notin> set xs"
  shows "kylin_strchr s c = Some (Some (length xs))"
proof -
  have n: "unat (str_used s) = length (str_text s)" using str_wfD(3) [OF assms(1)] by simp
  have "kylin_strchr s c = Some (find (\<lambda>i. str_text s ! i = c) [0..<length (str_text s)])"
    unfolding kylin_strchr_def n by (intro find_loop_find) (simp add: str_arr_get [OF assms(1)] n)
  moreover have "takeWhile (\<lambda>x. x \<noteq> c) (str_text s) = xs"
    unfolding assms(2) using assms(3) by (subst takeWhile_append2) auto
  ultimately show ?thesis using find_upt_nth [of "\<lambda>x. x = c" "str_text s"] assms(2) by simp
qed

lemma kylin_strchr_none:
  assumes "str_wf s" "c \<notin> set (str_text s)"
  shows "kylin_strchr s c = Some None" "kylin_strrchr s c = Some None"
proof -
  have n: "unat (str_used s) = length (str_text s)" using str_wfD(3) [OF assms(1)] by simp
  have t: "\<And>i. i < length (str_text s) \<Longrightarrow> (do { b \<leftarrow> arr_get (str_val s) i; Some (b = c) }) = Some (str_text s ! i = c)"
    by (simp add: str_arr_get [OF assms(1)] n)
  have "kylin_strchr s c = Some (find (\<lambda>i. str_text s ! i = c) [0..<length (str_text s)])"
    unfolding kylin_strchr_def n by (intro find_loop_find) (simp add: t)
  then show "kylin_strchr s c = Some None" using assms(2) by (auto simp: find_None_iff)
  have "kylin_strrchr s c = Some (find (\<lambda>i. str_text s ! i = c) (rev [0..<length (str_text s)]))"
    unfolding kylin_strrchr_def n by (intro find_loop_find) (simp add: t)
  then show "kylin_strrchr s c = Some None" using assms(2) by (auto simp: find_None_iff)
qed

lemma kylin_strrchr_last:
  assumes "str_wf s" "str_text s = xs @ c # ys" "c \<notin> set ys"
  shows "kylin_strrchr s c = Some (Some (length xs))"
proof -
  let ?n = "length (str_text s)"
  have n: "unat (str_used s) = ?n" using str_wfD(3) [OF assms(1)] by simp
  have "kylin_strrchr s c = Some (find (\<lambda>i. str_text s ! i = c) (rev [0..<?n]))"
    unfolding kylin_strrchr_def n by (intro find_loop_find) (simp add: str_arr_get [OF assms(1)] n)
  moreover have "find (\<lambda>i. str_text s ! i = c) (rev [0..<?n]) = Some (length xs)"
  proof (subst find_Some_iff, intro exI conjI allI impI)
    let ?i = "length ys"
    have r: "rev [0..<?n] ! k = ?n - 1 - k" if "k < ?n" for k using that by (simp add: rev_nth)
    have n1: "?n = length xs + length ys + 1" by (simp add: assms(2))
    show "?i < length (rev [0..<?n])" "str_text s ! (rev [0..<?n] ! ?i) = c" "length xs = rev [0..<?n] ! ?i"
      using r [of ?i] n1 by (simp_all add: assms(2))
    fix j assume j: "j < ?i"
    then have "str_text s ! (rev [0..<?n] ! j) = ys ! (length ys - 1 - j)"
    proof -
      have "rev [0..<?n] ! j = length (xs @ [c]) + (length ys - 1 - j)" using r [of j] n1 j by simp
      moreover have "str_text s = (xs @ [c]) @ ys" by (simp add: assms(2))
      ultimately show ?thesis by (simp only: nth_append_length_plus)
    qed
    moreover have "ys ! (length ys - 1 - j) \<in> set ys" using j by (intro nth_mem) simp
    ultimately show "str_text s ! (rev [0..<?n] ! j) \<noteq> c" using assms(3) by metis
  qed
  ultimately show ?thesis by simp
qed

lemma str_text_hd: "str_text s = a # as \<Longrightarrow> str_val s \<noteq> [] \<and> str_val s ! 0 = a"
  by (cases "str_val s"; cases "unat (str_used s)") (simp_all add: str_text_def)

subsection \<open>Properties\<close>

text \<open>
  \<^verbatim>\<open>kylin_strcpy\<close> into a string with enough capacity copies the text: the destination
  is well-formed, has the source's text, and \<^verbatim>\<open>kylin_strcmp\<close> of the two answers 0; a
  text longer than the capacity is refused with null.
\<close>

theorem kylin_strcpy_correct:
  assumes "str_wf d" "str_wf s"
  shows "if str_used s > str_cap (str_opts d) then kylin_strcpy d s = Some None
    else \<exists>d'. kylin_strcpy d s = Some (Some d') \<and> str_wf d' \<and> str_text d' = str_text s
      \<and> kylin_strcmp d' s = Some 0"
proof (cases "str_used s > str_cap (str_opts d)")
  case True
  then show ?thesis by (simp add: kylin_strcpy_def)
next
  case False
  then obtain d' where d': "kylin_strcpy d s = Some (Some d')" "str_wf d'" "str_text d' = str_text s"
    using kylin_strcpy_text [OF assms] by (auto simp: not_less)
  then show ?thesis using False kylin_strcmp_zero_iff [OF d'(2) assms(2)] by auto
qed

definition mk_str :: "nat \<Rightarrow> kbyte list \<Rightarrow> kstr" where
  "mk_str c t = \<lparr>str_opts = \<lparr>str_cap = of_nat c, str_guard_ctor = None\<rparr>, str_used = of_nat (length t),
     str_val = t @ replicate (c + 1 - length t) 0\<rparr>"

lemma mk_str_wf:
  "length t \<le> c \<Longrightarrow> c < 2 ^ 32 \<Longrightarrow> str_wf (mk_str c t)"
  "length t \<le> c \<Longrightarrow> c < 2 ^ 32 \<Longrightarrow> str_text (mk_str c t) = t"
  by (simp_all add: str_wf_def mk_str_def str_text_def unat_of_nat word_le_nat_alt)

theorem kylin_strcpy_correct_witness:
  "\<exists>d'. kylin_strcpy (mk_str 4 [1]) (mk_str 3 [7, 8]) = Some (Some d') \<and> str_text d' = [7, 8]
    \<and> kylin_strcmp d' (mk_str 3 [7, 8]) = Some 0"
proof -
  have "\<not> str_used (mk_str 3 [7, 8]) > str_cap (str_opts (mk_str 4 [1]))" by (simp add: mk_str_def)
  then show ?thesis
    using kylin_strcpy_correct [of "mk_str 4 [1]" "mk_str 3 [7, 8]"] mk_str_wf(1) [of "[1]" 4]
      mk_str_wf [of "[7, 8]" 3] by auto
qed

text \<open>
  \<^verbatim>\<open>kylin_strcmp\<close> compares only the common length: it answers 0 exactly when one text is a prefix
  of the other, so that texts of different lengths can compare as equal.
\<close>

theorem kylin_strcmp_prefix:
  assumes "str_wf s" "str_wf t"
  shows "\<exists>r. kylin_strcmp s t = Some r
    \<and> (r = 0 \<longleftrightarrow> prefix (str_text s) (str_text t) \<or> prefix (str_text t) (str_text s))"
  by (rule kylin_strcmp_zero_iff [OF assms])

theorem kylin_strcmp_prefix_witness:
  "kylin_strcmp (mk_str 3 [7]) (mk_str 3 [7, 8]) = Some 0"
  using kylin_strcmp_prefix [of "mk_str 3 [7]" "mk_str 3 [7, 8]"] mk_str_wf [of "[7]" 3] mk_str_wf [of "[7, 8]" 3]
  by (auto simp: Cons_prefix_Cons)

text \<open>
  \<^verbatim>\<open>kylin_strcat\<close> writes the source's text behind the destination's but does not advance
  \<^verbatim>\<open>used\<close>: after a successful call the destination still has its old text.
\<close>

theorem kylin_strcat_lost:
  assumes "str_wf d" "str_wf s"
    and "unat (str_used s) \<le> unat (str_cap (str_opts d)) - unat (str_used d)"
  shows "\<exists>d'. kylin_strcat d s = Some (Some d') \<and> str_wf d' \<and> str_text d' = str_text d
    \<and> take (unat (str_used d) + unat (str_used s)) (str_val d') = str_text d @ str_text s"
proof -
  have "take (unat (str_used s)) (str_text s) = str_text s" using str_wfD(3) [OF assms(2)] by simp
  then show ?thesis
    using kylin_strncat_text [OF assms(1,2) _ assms(3)] by (auto simp: kylin_strcat_def)
qed

theorem kylin_strcat_lost_witness:
  "\<exists>d'. kylin_strcat (mk_str 4 [1]) (mk_str 3 [7, 8]) = Some (Some d') \<and> str_text d' = [1]"
  using kylin_strcat_lost [of "mk_str 4 [1]" "mk_str 3 [7, 8]"] mk_str_wf [of "[1]" 4] mk_str_wf [of "[7, 8]" 3]
  by (auto simp: mk_str_def)

text \<open>
  \<^verbatim>\<open>kylin_strncat_raw\<close> checks the \<^verbatim>\<open>n\<close> characters it was asked for but copies the
  whole raw string: a request that passes its checks writes outside the block as soon as the raw
  string is longer than the rest of the block.
\<close>

theorem kylin_strncat_raw_overflow:
  assumes "str_wf d" "strlen src = Some len" "unat len = length (takeWhile (\<lambda>b. b \<noteq> 0) src)"
    and "n \<le> len" "n \<le> str_cap (str_opts d) - str_used d"
    and "unat (str_cap (str_opts d)) + 1 < unat (str_used d) + unat len"
  shows "kylin_strncat_raw d src n = None"
proof -
  have "unat len \<le> length src" using assms(3) length_takeWhile_le [of "\<lambda>b. b \<noteq> 0" src] by simp
  moreover have "length (str_val d) = unat (str_cap (str_opts d)) + 1" using assms(1) by (simp add: str_wf_def)
  ultimately show ?thesis using assms
    by (simp add: kylin_strncat_raw_def str_copy_in_def buf_read_def buf_write_def not_less)
qed

theorem kylin_strncat_raw_overflow_witness:
  "kylin_strncat_raw (mk_str 2 [1]) [5, 6, 7, 8, 0] 1 = None"
  using kylin_strncat_raw_overflow [of "mk_str 2 [1]" "[5, 6, 7, 8, 0]" 4 1] mk_str_wf [of "[1]" 2]
  by (simp add: strlen_def mk_str_def word_le_nat_alt)

text \<open>
  \<^verbatim>\<open>kylin_strchr\<close> returns the first and \<^verbatim>\<open>kylin_strrchr\<close> the last position of a
  character in the text, and both return null when the text does not have it.
\<close>

theorem kylin_strchr_correct:
  assumes "str_wf s"
  shows "(c \<notin> set (str_text s) \<longrightarrow> kylin_strchr s c = Some None \<and> kylin_strrchr s c = Some None)
    \<and> (\<forall>xs ys. str_text s = xs @ c # ys \<and> c \<notin> set xs \<longrightarrow> kylin_strchr s c = Some (Some (length xs)))
    \<and> (\<forall>xs ys. str_text s = xs @ c # ys \<and> c \<notin> set ys \<longrightarrow> kylin_strrchr s c = Some (Some (length xs)))"
  using kylin_strchr_none [OF assms] kylin_strchr_first [OF assms] kylin_strrchr_last [OF assms] by blast

theorem kylin_strchr_correct_witness:
  "kylin_strchr (mk_str 4 [3, 7, 7]) 7 = Some (Some 1) \<and> kylin_strrchr (mk_str 4 [3, 7, 7]) 7 = Some (Some 2)"
proof -
  have t: "str_wf (mk_str 4 [3, 7, 7])" "str_text (mk_str 4 [3, 7, 7]) = [3, 7, 7]"
    using mk_str_wf [of "[3, 7, 7]" 4] by simp_all
  note k = kylin_strchr_correct [OF t(1), of 7, unfolded t(2), THEN conjunct2]
  show ?thesis
    using k [THEN conjunct1, rule_format, of "[3]" "[7]"] k [THEN conjunct2, rule_format, of "[3, 7]" "[]"]
    by simp
qed

text \<open>
  \<^verbatim>\<open>kylin_strstr\<close> gives up at the first character of the text that is not the first
  character of the pattern: it returns null whenever the text does not start with it, wherever the
  pattern occurs.
\<close>

theorem kylin_strstr_misses:
  assumes "str_wf s" "str_wf p" "str_text s = a # as" "str_text p = b # bs" "a \<noteq> b"
  shows "kylin_strstr s p = Some None"
proof -
  have "str_val s ! 0 = a" "str_val p ! 0 = b" "0 < length (str_val s)" "0 < length (str_val p)"
    using str_text_hd [OF assms(3)] str_text_hd [OF assms(4)] by simp_all
  then show ?thesis using assms(5) by (simp add: kylin_strstr_def)
qed

theorem kylin_strstr_misses_witness:
  "kylin_strstr (mk_str 4 [1, 2, 3]) (mk_str 4 [2, 3]) = Some None"
  using kylin_strstr_misses [of "mk_str 4 [1, 2, 3]" "mk_str 4 [2, 3]" 1 "[2, 3]" 2 "[3]"]
    mk_str_wf [of "[1, 2, 3]" 4] mk_str_wf [of "[2, 3]" 4] by simp

subsection \<open>Names\<close>

text \<open>A name is cut to the array less its last byte; \<^verbatim>\<open>memcpy\<close> needs as many bytes as it copies.\<close>

definition name_copy :: "kbyte list \<Rightarrow> kbyte list option" where
  "name_copy name = do {
     n \<leftarrow> strlen name;
     let k = min (unat n) (KYLIN_NAME_LENGTH - 1);
     Some (take k name @ replicate (KYLIN_NAME_LENGTH - k) 0) }"

text \<open>A name fills its array and ends with a terminator.\<close>

definition name_wf :: "kbyte list \<Rightarrow> bool" where
  "name_wf nm \<longleftrightarrow> length nm = KYLIN_NAME_LENGTH \<and> nm ! (KYLIN_NAME_LENGTH - 1) = 0"

lemma strlen_length: "strlen s = Some n \<Longrightarrow> unat n \<le> length s"
proof -
  assume "strlen s = Some n"
  then have "n = of_nat (length (takeWhile (\<lambda>b. b \<noteq> 0) s))" by (simp add: strlen_def split: if_splits)
  then have "unat n \<le> length (takeWhile (\<lambda>b. b \<noteq> 0) s)" by (simp add: unat_of_nat)
  then show ?thesis using length_takeWhile_le order_trans by blast
qed

lemma name_copy_wf:
  assumes "name_copy name = Some nm"
  shows "name_wf nm"
proof -
  obtain n where n: "strlen name = Some n" using assms by (auto simp: name_copy_def bind_eq_Some_conv)
  define k where "k = min (unat n) 63"
  have k: "k \<le> length name" "k \<le> 63" using strlen_length [OF n] by (auto simp: k_def)
  have "nm = take k name @ replicate (64 - k) 0" using assms n by (simp add: name_copy_def k_def Let_def)
  then show ?thesis using k by (simp add: name_wf_def nth_append)
qed

end
