(* ===== verification/Kylin_List.thy ===== *)
theory Kylin_List
  imports Kylin_Value
begin

section \<open>Doubly linked lists (lib/core/math/kylin_list.c)\<close>

text \<open>
  The list is modelled at the level of its pointers: a heap maps the address of a node to its
  record, address 0 is the null pointer, and reading or writing a node that is not in the heap is
  \<open>None\<close>. The address an allocation returns (0 when it fails) is an argument of the operation
  that allocates; freeing a node removes it from the heap. The user's match function is a
  parameter in the options. The abstraction is the list of the node addresses from head to tail.
\<close>

subsection \<open>Definitions\<close>

record klist_node =
  ln_prev :: kaddr
  ln_next :: kaddr
  ln_val :: kmath_val

type_synonym lheap = "kaddr \<Rightarrow> klist_node option"

record klist_opts =
  list_val_type :: kobj
  list_val_size :: ksize
  list_match :: "kaddr \<Rightarrow> kaddr \<Rightarrow> int"
  list_val_ctor :: "kctor option"

record klist =
  list_head :: kaddr
  list_tail :: kaddr
  list_opts :: klist_opts
  list_count :: ksize

definition node_get :: "lheap \<Rightarrow> kaddr \<Rightarrow> klist_node option" where
  "node_get h p = (if p = 0 then None else h p)"

definition set_prev :: "kaddr \<Rightarrow> kaddr \<Rightarrow> lheap \<Rightarrow> lheap option" where
  "set_prev p v h = do { n \<leftarrow> node_get h p; Some (h(p \<mapsto> n\<lparr>ln_prev := v\<rparr>)) }"

definition set_next :: "kaddr \<Rightarrow> kaddr \<Rightarrow> lheap \<Rightarrow> lheap option" where
  "set_next p v h = do { n \<leftarrow> node_get h p; Some (h(p \<mapsto> n\<lparr>ln_next := v\<rparr>)) }"

definition get_prev :: "kaddr \<Rightarrow> lheap \<Rightarrow> kaddr option" where
  "get_prev p h = map_option ln_prev (node_get h p)"

definition get_next :: "kaddr \<Rightarrow> lheap \<Rightarrow> kaddr option" where
  "get_next p h = map_option ln_next (node_get h p)"

definition kylin_list_create :: "bool \<Rightarrow> klist_opts \<Rightarrow> klist option" where
  "kylin_list_create ok opts =
     (if ok then Some \<lparr>list_head = 0, list_tail = 0, list_opts = opts, list_count = 0\<rparr> else None)"

definition kylin_list_count :: "klist \<Rightarrow> ksize" where
  "kylin_list_count guard = list_count guard"

definition kylin_list_val :: "lheap \<Rightarrow> klist \<Rightarrow> kaddr \<Rightarrow> kaddr kref option" where
  "kylin_list_val h guard node = do {
     n \<leftarrow> node_get h node;
     Some (kmath_val_get node (ln_val n) (list_val_type (list_opts guard))) }"

definition kylin_list_first :: "klist \<Rightarrow> kaddr" where
  "kylin_list_first guard = list_head guard"

definition kylin_list_last :: "klist \<Rightarrow> kaddr" where
  "kylin_list_last guard = list_tail guard"

definition kylin_list_prev :: "lheap \<Rightarrow> klist \<Rightarrow> kaddr \<Rightarrow> kaddr option" where
  "kylin_list_prev h guard node = get_prev node h"

definition kylin_list_next :: "lheap \<Rightarrow> klist \<Rightarrow> kaddr \<Rightarrow> kaddr option" where
  "kylin_list_next h guard node = get_next node h"

definition kylin_list_insert_head_raw :: "lheap \<Rightarrow> klist \<Rightarrow> kaddr \<Rightarrow> (lheap \<times> klist) option" where
  "kylin_list_insert_head_raw h guard node =
     (if list_count guard = 0 then do {
        let guard = guard\<lparr>list_head := node, list_tail := node\<rparr>;
        h \<leftarrow> set_next node 0 h;
        h \<leftarrow> set_prev node 0 h;
        Some (h, guard\<lparr>list_count := list_count guard + 1\<rparr>)
      } else do {
        h \<leftarrow> set_prev node 0 h;
        h \<leftarrow> set_next node (list_head guard) h;
        h \<leftarrow> set_prev (list_head guard) node h;
        let guard = guard\<lparr>list_head := node\<rparr>;
        Some (h, guard\<lparr>list_count := list_count guard + 1\<rparr>)
      })"

definition kylin_list_insert_tail_raw :: "lheap \<Rightarrow> klist \<Rightarrow> kaddr \<Rightarrow> (lheap \<times> klist) option" where
  "kylin_list_insert_tail_raw h guard node =
     (if list_count guard = 0 then do {
        let guard = guard\<lparr>list_head := node, list_tail := node\<rparr>;
        h \<leftarrow> set_next node 0 h;
        h \<leftarrow> set_prev node 0 h;
        Some (h, guard\<lparr>list_count := list_count guard + 1\<rparr>)
      } else do {
        h \<leftarrow> set_prev node (list_tail guard) h;
        h \<leftarrow> set_next node 0 h;
        h \<leftarrow> set_next (list_tail guard) node h;
        let guard = guard\<lparr>list_tail := node\<rparr>;
        Some (h, guard\<lparr>list_count := list_count guard + 1\<rparr>)
      })"

definition kylin_list_insert_after_raw :: "lheap \<Rightarrow> klist \<Rightarrow> kaddr \<Rightarrow> kaddr \<Rightarrow> (lheap \<times> klist) option" where
  "kylin_list_insert_after_raw h guard before node = do {
     h \<leftarrow> set_prev node before h;
     nx \<leftarrow> get_next before h;
     h \<leftarrow> set_next node nx h;
     (h, guard) \<leftarrow>
       (if list_tail guard = before then Some (h, guard\<lparr>list_tail := node\<rparr>)
        else do {
          nx \<leftarrow> get_next before h;
          h \<leftarrow> set_prev nx node h;
          Some (h, guard) });
     h \<leftarrow> set_next before node h;
     Some (h, guard\<lparr>list_count := list_count guard + 1\<rparr>) }"

definition kylin_list_insert_before_raw :: "lheap \<Rightarrow> klist \<Rightarrow> kaddr \<Rightarrow> kaddr \<Rightarrow> (lheap \<times> klist) option" where
  "kylin_list_insert_before_raw h guard after node = do {
     h \<leftarrow> set_next node after h;
     pv \<leftarrow> get_prev after h;
     h \<leftarrow> set_prev node pv h;
     (h, guard) \<leftarrow>
       (if list_head guard = after then Some (h, guard\<lparr>list_head := node\<rparr>)
        else do {
          pv \<leftarrow> get_prev after h;
          h \<leftarrow> set_next pv node h;
          Some (h, guard) });
     h \<leftarrow> set_prev after node h;
     Some (h, guard\<lparr>list_count := list_count guard + 1\<rparr>) }"

text \<open>
  The four inserting operations allocate a node, construct its value, link it as the raw
  operation does and return a pointer to the value; \<open>list_new\<close> is the part they share.
\<close>

definition list_new :: "(lheap \<Rightarrow> (lheap \<times> klist) option) \<Rightarrow> umem \<Rightarrow> lheap \<Rightarrow> klist \<Rightarrow> kaddr \<Rightarrow> kaddr
    \<Rightarrow> (kaddr kref option \<times> umem \<times> lheap \<times> klist) option" where
  "list_new link m h guard node v =
     (if node = 0 then Some (None, m, h, guard)
      else do {
        (val, m) \<leftarrow> kmath_val_ctor m v (list_val_type (list_opts guard))
                    (list_val_size (list_opts guard)) (list_val_ctor (list_opts guard));
        (h, g) \<leftarrow> link (h(node \<mapsto> \<lparr>ln_prev = 0, ln_next = 0, ln_val = val\<rparr>));
        Some (Some (kmath_val_get node val (list_val_type (list_opts guard))), m, h, g)
      })"

definition kylin_list_insert_head :: "umem \<Rightarrow> lheap \<Rightarrow> klist \<Rightarrow> kaddr \<Rightarrow> kaddr
    \<Rightarrow> (kaddr kref option \<times> umem \<times> lheap \<times> klist) option" where
  "kylin_list_insert_head m h guard node v =
     list_new (\<lambda>h. kylin_list_insert_head_raw h guard node) m h guard node v"

definition kylin_list_insert_tail :: "umem \<Rightarrow> lheap \<Rightarrow> klist \<Rightarrow> kaddr \<Rightarrow> kaddr
    \<Rightarrow> (kaddr kref option \<times> umem \<times> lheap \<times> klist) option" where
  "kylin_list_insert_tail m h guard node v =
     list_new (\<lambda>h. kylin_list_insert_tail_raw h guard node) m h guard node v"

definition kylin_list_insert_after :: "umem \<Rightarrow> lheap \<Rightarrow> klist \<Rightarrow> kaddr \<Rightarrow> kaddr \<Rightarrow> kaddr
    \<Rightarrow> (kaddr kref option \<times> umem \<times> lheap \<times> klist) option" where
  "kylin_list_insert_after m h guard before node v =
     list_new (\<lambda>h. kylin_list_insert_after_raw h guard before node) m h guard node v"

definition kylin_list_insert_before :: "umem \<Rightarrow> lheap \<Rightarrow> klist \<Rightarrow> kaddr \<Rightarrow> kaddr \<Rightarrow> kaddr
    \<Rightarrow> (kaddr kref option \<times> umem \<times> lheap \<times> klist) option" where
  "kylin_list_insert_before m h guard after node v =
     list_new (\<lambda>h. kylin_list_insert_before_raw h guard after node) m h guard node v"

definition kylin_list_unlink_raw :: "lheap \<Rightarrow> klist \<Rightarrow> kaddr \<Rightarrow> (kaddr \<times> lheap \<times> klist) option" where
  "kylin_list_unlink_raw h guard node = do {
     pv \<leftarrow> get_prev node h;
     nx \<leftarrow> get_next node h;
     (h, guard) \<leftarrow>
       (if pv \<noteq> 0 then do { h \<leftarrow> set_next pv nx h; Some (h, guard) }
        else Some (h, guard\<lparr>list_head := nx\<rparr>));
     pv \<leftarrow> get_prev node h;
     nx \<leftarrow> get_next node h;
     (h, guard) \<leftarrow>
       (if nx \<noteq> 0 then do { h \<leftarrow> set_prev nx pv h; Some (h, guard) }
        else Some (h, guard\<lparr>list_tail := pv\<rparr>));
     Some (node, h, guard\<lparr>list_count := list_count guard - 1\<rparr>) }"

definition kylin_list_remove_raw :: "lheap \<Rightarrow> klist \<Rightarrow> kaddr \<Rightarrow> (krelease list \<times> lheap \<times> klist) option" where
  "kylin_list_remove_raw h guard node = do {
     (_, h, guard) \<leftarrow> kylin_list_unlink_raw h guard node;
     n \<leftarrow> node_get h node;
     Some (kmath_val_dtor (ln_val n) (list_val_type (list_opts guard)) True, h(node := None), guard) }"

text \<open>The search loop: the first node from \<open>p\<close> on whose match with the key is 0, or null.\<close>

partial_function (option) list_search :: "lheap \<Rightarrow> (kaddr \<Rightarrow> kaddr \<Rightarrow> int) \<Rightarrow> kaddr \<Rightarrow> kaddr \<Rightarrow> kaddr option" where
  "list_search h match key p =
     (if p = 0 then Some 0
      else do {
        n \<leftarrow> node_get h p;
        if match key (ln_val n) = 0 then Some p else list_search h match key (ln_next n) })"

definition kylin_list_find_raw :: "lheap \<Rightarrow> klist \<Rightarrow> kaddr \<Rightarrow> kaddr option" where
  "kylin_list_find_raw h guard key =
     list_search h (list_match (list_opts guard)) key (list_head guard)"

definition kylin_list_find :: "lheap \<Rightarrow> klist \<Rightarrow> kaddr \<Rightarrow> kaddr kref option option" where
  "kylin_list_find h guard key = do {
     p \<leftarrow> list_search h (list_match (list_opts guard)) key (list_head guard);
     if p = 0 then Some None else do { r \<leftarrow> kylin_list_val h guard p; Some (Some r) } }"

definition kylin_list_remove :: "lheap \<Rightarrow> klist \<Rightarrow> kaddr \<Rightarrow> (krelease list \<times> lheap \<times> klist) option" where
  "kylin_list_remove h guard cmp = do {
     node \<leftarrow> kylin_list_find_raw h guard cmp;
     if node = 0 then Some ([], h, guard) else kylin_list_remove_raw h guard node }"

definition kylin_list_unlink :: "lheap \<Rightarrow> klist \<Rightarrow> kaddr \<Rightarrow> (kaddr kref option \<times> lheap \<times> klist) option" where
  "kylin_list_unlink h guard cmp = do {
     node \<leftarrow> kylin_list_find_raw h guard cmp;
     if node = 0 then Some (None, h, guard)
     else do {
       (_, h, guard) \<leftarrow> kylin_list_unlink_raw h guard node;
       r \<leftarrow> kylin_list_val h guard node;
       Some (Some r, h(node := None), guard) } }"

partial_function (option) kylin_list_clear ::
  "lheap \<Rightarrow> klist \<Rightarrow> krelease list \<Rightarrow> (krelease list \<times> lheap \<times> klist) option" where
  "kylin_list_clear h guard rels =
     (let node = list_head guard
      in if node = 0 then Some (rels, h, guard)
      else do {
        n \<leftarrow> node_get h node;
        let rels = rels @ kmath_val_dtor (ln_val n) (list_val_type (list_opts guard)) True;
        (r, h, guard) \<leftarrow> kylin_list_remove h guard node;
        kylin_list_clear h guard (rels @ r) })"

definition kylin_list_destroy :: "lheap \<Rightarrow> klist \<Rightarrow> (krelease list \<times> lheap) option" where
  "kylin_list_destroy h guard = do { (r, h, g) \<leftarrow> kylin_list_clear h guard []; Some (r, h) }"

text \<open>
  \<^verbatim>\<open>kylin_list_dup\<close>: the duplicate is given the nodes of the original as values, and a successful
  insertion is taken for a failure. \<open>alloc\<close> gives the address of each new node.
\<close>

partial_function (option) list_dup_loop :: "(lheap \<Rightarrow> kaddr) \<Rightarrow> umem \<Rightarrow> lheap \<Rightarrow> klist \<Rightarrow> kaddr
    \<Rightarrow> (klist option \<times> umem \<times> lheap) option" where
  "list_dup_loop alloc m h dup tmp =
     (if tmp = 0 then Some (Some dup, m, h)
      else do {
        (r, m, h, dup) \<leftarrow> kylin_list_insert_tail m h dup (alloc h) tmp;
        if r \<noteq> None \<and> r \<noteq> Some (Obj 0) then do {
          (_, h) \<leftarrow> kylin_list_destroy h dup;
          Some (None, m, h) }
        else do {
          nx \<leftarrow> get_next tmp h;
          list_dup_loop alloc m h dup nx } })"

definition kylin_list_dup :: "bool \<Rightarrow> (lheap \<Rightarrow> kaddr) \<Rightarrow> umem \<Rightarrow> lheap \<Rightarrow> klist
    \<Rightarrow> (klist option \<times> umem \<times> lheap) option" where
  "kylin_list_dup ok alloc m h guard =
     (case kylin_list_create ok (list_opts guard) of
        None \<Rightarrow> Some (None, m, h)
      | Some dup \<Rightarrow> list_dup_loop alloc m h dup (list_head guard))"

text \<open>The loop of the two index searches, with \<open>i\<close> from 1; \<^verbatim>\<open>index\<close> is a C int.\<close>

function list_nth_loop :: "lheap \<Rightarrow> nat \<Rightarrow> int \<Rightarrow> nat \<Rightarrow> kaddr \<Rightarrow> kaddr option option" where
  "list_nth_loop h count index i tmp =
     (if i < count then
        if int i = index then Some (Some tmp)
        else do { nx \<leftarrow> get_next tmp h; list_nth_loop h count index (i + 1) nx }
      else Some None)"
  by pat_completeness auto
termination by (relation "measure (\<lambda>(h, count, index, i, tmp). count - i)") auto

definition list_nth :: "lheap \<Rightarrow> klist \<Rightarrow> 32 word \<Rightarrow> kaddr option option" where
  "list_nth h guard index =
     (if (scast index :: ksize) > list_count guard then Some None
      else list_nth_loop h (unat (list_count guard)) (sint index) 1 (list_head guard))"

definition kylin_list_find_index_raw :: "lheap \<Rightarrow> klist \<Rightarrow> 32 word \<Rightarrow> kaddr option" where
  "kylin_list_find_index_raw h guard index = do {
     r \<leftarrow> list_nth h guard index;
     Some (case r of Some tmp \<Rightarrow> tmp | None \<Rightarrow> 0) }"

definition kylin_list_find_index :: "lheap \<Rightarrow> klist \<Rightarrow> 32 word \<Rightarrow> kaddr kref option option" where
  "kylin_list_find_index h guard index = do {
     r \<leftarrow> list_nth h guard index;
     case r of Some tmp \<Rightarrow> do { v \<leftarrow> kylin_list_val h guard tmp; Some (Some v) } | None \<Rightarrow> Some None }"

partial_function (option) list_rotate_loop :: "lheap \<Rightarrow> kaddr \<Rightarrow> lheap option" where
  "list_rotate_loop h tmp =
     (if tmp = 0 then Some h
      else do {
        n \<leftarrow> node_get h tmp;
        if ln_next n = 0 then Some h
        else list_rotate_loop (h(tmp \<mapsto> n\<lparr>ln_prev := ln_next n, ln_next := ln_prev n\<rparr>)) (ln_next n) })"

definition kylin_list_rotate :: "lheap \<Rightarrow> klist \<Rightarrow> (lheap \<times> klist) option" where
  "kylin_list_rotate h guard =
     (if list_count guard \<le> 1 then Some (h, guard)
      else do {
        h \<leftarrow> list_rotate_loop h (list_head guard);
        Some (h, guard\<lparr>list_head := list_tail guard, list_tail := list_head guard\<rparr>) })"

definition kylin_list_join :: "lheap \<Rightarrow> klist \<Rightarrow> klist \<Rightarrow> (lheap \<times> klist \<times> klist) option" where
  "kylin_list_join h dest src = do {
     h \<leftarrow> (if list_head src \<noteq> 0 then set_prev (list_head src) (list_tail dest) h else Some h);
     (h, dest) \<leftarrow>
       (if list_tail dest \<noteq> 0 then do { h \<leftarrow> set_next (list_tail dest) (list_head src) h; Some (h, dest) }
        else Some (h, dest\<lparr>list_head := list_head src\<rparr>));
     Some (h, dest\<lparr>list_tail := list_tail src, list_count := list_count dest + list_count src\<rparr>,
           src\<lparr>list_head := 0, list_tail := 0, list_count := 0\<rparr>) }"

subsection \<open>Abstraction\<close>

text \<open>
  \<open>dseg h a ps b\<close>: the nodes \<open>ps\<close> are linked in both directions in this order, the first has
  \<open>a\<close> as its predecessor and the last has \<open>b\<close> as its successor.
\<close>

fun dseg :: "lheap \<Rightarrow> kaddr \<Rightarrow> kaddr list \<Rightarrow> kaddr \<Rightarrow> bool" where
  "dseg h a [] b = True"
| "dseg h a (p # ps) b =
     (case h p of None \<Rightarrow> False
      | Some n \<Rightarrow> ln_prev n = a \<and> ln_next n = hd (ps @ [b]) \<and> dseg h p ps b)"

definition dlist :: "lheap \<Rightarrow> klist \<Rightarrow> kaddr list \<Rightarrow> bool" where
  "dlist h g ps \<longleftrightarrow> dseg h 0 ps 0 \<and> distinct ps \<and> 0 \<notin> set ps
     \<and> list_head g = hd (ps @ [0]) \<and> list_tail g = last (0 # ps) \<and> unat (list_count g) = length ps"

definition list_vals :: "lheap \<Rightarrow> kaddr list \<Rightarrow> kmath_val list" where
  "list_vals h ps = map (\<lambda>p. ln_val (the (h p))) ps"

definition same_vals :: "lheap \<Rightarrow> lheap \<Rightarrow> bool" where
  "same_vals h h' \<longleftrightarrow> (\<forall>p. map_option ln_val (h' p) = map_option ln_val (h p))"

subsection \<open>Segments\<close>

lemma dseg_append [simp]:
  "dseg h a (xs @ ys) b \<longleftrightarrow> dseg h a xs (hd (ys @ [b])) \<and> dseg h (last (a # xs)) ys b"
proof (induction xs arbitrary: a)
  case (Cons x xs)
  then show ?case by (cases xs) (auto split: option.splits)
qed simp

lemma dseg_frame [simp]: "p \<notin> set ps \<Longrightarrow> dseg (h(p := v)) a ps b = dseg h a ps b"
  by (induction ps arbitrary: a) (auto split: option.splits)

lemma dseg_dom: "dseg h a ps b \<Longrightarrow> p \<in> set ps \<Longrightarrow> \<exists>n. h p = Some n"
  by (induction ps arbitrary: a) (auto split: option.splits)

lemma same_vals_list: "same_vals h h' \<Longrightarrow> list_vals h' ps = list_vals h ps"
proof -
  assume "same_vals h h'"
  then have "ln_val (the (h' p)) = ln_val (the (h p))" for p
    by (cases "h p"; cases "h' p") (auto simp: same_vals_def dest!: spec [of _ p])
  then show ?thesis by (simp add: list_vals_def)
qed

lemma same_vals_refl [simp]: "same_vals h h"
  by (simp add: same_vals_def)

lemma same_vals_upd:
  "h p = Some n \<Longrightarrow> same_vals h h' \<Longrightarrow> ln_val n' = ln_val n \<Longrightarrow> same_vals h (h'(p \<mapsto> n'))"
  by (simp add: same_vals_def)

lemma addr_count:
  fixes ps :: "kaddr list"
  assumes "distinct ps" "0 \<notin> set ps"
  shows "length ps < 2 ^ 64"
proof -
  have "card (set ps) \<le> card (UNIV - {0 :: kaddr})" using assms(2) by (intro card_mono) auto
  also have "\<dots> = 2 ^ 64 - 1" by (simp add: card_Diff_subset card_word)
  finally show ?thesis using distinct_card [OF assms(1)] by simp
qed

lemma count_inc:
  fixes p :: kaddr
  assumes "distinct (p # ps)" "0 \<notin> set (p # ps)" "unat (c :: ksize) = length ps"
  shows "unat (c + 1) = length ps + 1"
proof -
  have "length (p # ps) < 2 ^ 64" using assms(1,2) by (rule addr_count)
  then show ?thesis using assms(3) by (subst unat_add_noflow) simp_all
qed

lemma count_dec:
  assumes "unat (c :: ksize) = length ps + 1"
  shows "unat (c - 1) = length ps"
proof -
  have "c \<noteq> 0" using assms by auto
  then show ?thesis using assms by (simp add: unat_minus_one)
qed

lemma count_zero: "unat (c :: ksize) = length ps \<Longrightarrow> c = 0 \<longleftrightarrow> ps = []"
  by (metis length_0_conv unat_0 unat_eq_0)

lemmas ptr_defs = set_prev_def set_next_def get_prev_def get_next_def node_get_def

subsection \<open>Linking a node\<close>

lemma insert_head_raw_ok:
  assumes l: "dlist h g ps" and n: "n \<notin> set ps" "n \<noteq> 0" "h n = Some nd"
  shows "\<exists>h' g'. kylin_list_insert_head_raw h g n = Some (h', g') \<and> dlist h' g' (n # ps)
    \<and> list_opts g' = list_opts g \<and> same_vals h h'"
proof (cases ps)
  case Nil
  then show ?thesis using l n count_inc [of n ps "list_count g"]
    by (auto simp: dlist_def kylin_list_insert_head_raw_def ptr_defs count_zero Let_def
        intro!: same_vals_upd)
next
  case (Cons q qs)
  then obtain nq where q: "h q = Some nq" "q \<noteq> 0" "q \<noteq> n" "list_head g = q" "list_count g \<noteq> 0"
    using l n count_zero [of "list_count g" ps] by (auto simp: dlist_def split: option.splits)
  then show ?thesis using l n Cons count_inc [of n ps "list_count g"]
    by (auto simp: dlist_def kylin_list_insert_head_raw_def ptr_defs Let_def
        intro!: same_vals_upd)
qed

lemma insert_tail_raw_ok:
  assumes l: "dlist h g ps" and n: "n \<notin> set ps" "n \<noteq> 0" "h n = Some nd"
  shows "\<exists>h' g'. kylin_list_insert_tail_raw h g n = Some (h', g') \<and> dlist h' g' (ps @ [n])
    \<and> list_opts g' = list_opts g \<and> same_vals h h'"
proof (cases ps rule: rev_cases)
  case Nil
  then show ?thesis using l n count_inc [of n ps "list_count g"]
    by (auto simp: dlist_def kylin_list_insert_tail_raw_def ptr_defs count_zero Let_def
        intro!: same_vals_upd)
next
  case (snoc qs q)
  then obtain nq where q: "h q = Some nq" "q \<noteq> 0" "q \<noteq> n" "list_tail g = q" "list_count g \<noteq> 0"
    using l n count_zero [of "list_count g" ps] by (auto simp: dlist_def split: option.splits)
  then show ?thesis using l n snoc count_inc [of n ps "list_count g"]
    by (auto simp: dlist_def kylin_list_insert_tail_raw_def ptr_defs Let_def hd_append
        intro!: same_vals_upd split: option.splits)
qed

lemma insert_after_raw_ok:
  assumes l: "dlist h g (xs @ b # ys)" and n: "n \<notin> set (xs @ b # ys)" "n \<noteq> 0" "h n = Some nd"
  shows "\<exists>h' g'. kylin_list_insert_after_raw h g b n = Some (h', g') \<and> dlist h' g' (xs @ b # n # ys)
    \<and> list_opts g' = list_opts g \<and> same_vals h h'"
proof -
  have c: "unat (list_count g + 1) = length (xs @ b # n # ys)"
    using l n count_inc [of n "xs @ b # ys" "list_count g"] by (simp add: dlist_def)
  obtain nb where b: "h b = Some nb" "b \<noteq> 0" "b \<noteq> n" using l n by (auto simp: dlist_def split: option.splits)
  show ?thesis
  proof (cases ys)
    case Nil
    then show ?thesis using l n b c
      by (auto simp: dlist_def kylin_list_insert_after_raw_def ptr_defs Let_def hd_append
          intro!: same_vals_upd split: option.splits)
  next
    case (Cons y ys')
    then obtain ny where y: "h y = Some ny" "y \<noteq> 0" "y \<noteq> n" "y \<noteq> b"
      using l n by (auto simp: dlist_def split: option.splits if_splits)
    moreover have "list_tail g \<noteq> b"
    proof -
      have "list_tail g = last ys" "b \<notin> set ys" using l Cons by (simp_all add: dlist_def)
      then show ?thesis using last_in_set [of ys] Cons by auto
    qed
    ultimately show ?thesis using l n b c Cons
      by (auto simp: dlist_def kylin_list_insert_after_raw_def ptr_defs Let_def hd_append
          intro!: same_vals_upd split: option.splits)
  qed
qed


lemma insert_before_raw_ok:
  assumes l: "dlist h g (xs @ a # ys)" and n: "n \<notin> set (xs @ a # ys)" "n \<noteq> 0" "h n = Some nd"
  shows "\<exists>h' g'. kylin_list_insert_before_raw h g a n = Some (h', g') \<and> dlist h' g' (xs @ n # a # ys)
    \<and> list_opts g' = list_opts g \<and> same_vals h h'"
proof -
  have c: "unat (list_count g + 1) = length (xs @ n # a # ys)"
    using l n count_inc [of n "xs @ a # ys" "list_count g"] by (simp add: dlist_def)
  obtain na where a: "h a = Some na" "a \<noteq> 0" "a \<noteq> n" using l n by (auto simp: dlist_def split: option.splits)
  show ?thesis
  proof (cases xs rule: rev_cases)
    case Nil
    then show ?thesis using l n a c
      by (auto simp: dlist_def kylin_list_insert_before_raw_def ptr_defs Let_def
          intro!: same_vals_upd split: option.splits)
  next
    case (snoc xs' x)
    then obtain nx where x: "h x = Some nx" "x \<noteq> 0" "x \<noteq> n" "x \<noteq> a"
      using l n by (auto simp: dlist_def split: option.splits if_splits)
    moreover have "list_head g \<noteq> a"
    proof -
      have "list_head g = hd xs" "a \<notin> set xs" using l snoc by (auto simp: dlist_def hd_append)
      then show ?thesis using hd_in_set [of xs] snoc by auto
    qed
    ultimately show ?thesis using l n a c snoc
      by (auto simp: dlist_def kylin_list_insert_before_raw_def ptr_defs Let_def hd_append
          intro!: same_vals_upd split: option.splits)
  qed
qed

subsection \<open>Unlinking a node\<close>

lemma unlink_raw_ok:
  assumes l: "dlist h g (xs @ p # ys)"
  shows "\<exists>h' g'. kylin_list_unlink_raw h g p = Some (p, h', g') \<and> dlist h' g' (xs @ ys)
    \<and> list_opts g' = list_opts g \<and> same_vals h h' \<and> p \<notin> set (xs @ ys)"
proof -
  have c: "unat (list_count g - 1) = length (xs @ ys)"
    using l count_dec [of "list_count g" "xs @ ys"] by (simp add: dlist_def)
  obtain n where p: "h p = Some n" "p \<noteq> 0" "ln_prev n = last (0 # xs)" "ln_next n = hd (ys @ [0])"
    "p \<notin> set (xs @ ys)"
    using l by (auto simp: dlist_def split: option.splits)
  show ?thesis
  proof (cases xs rule: rev_cases)
    case Nil
    show ?thesis
    proof (cases ys)
      case Nil
      then show ?thesis using l p c \<open>xs = []\<close>
        by (auto simp: dlist_def kylin_list_unlink_raw_def ptr_defs)
    next
      case (Cons y ys')
      then obtain ny where y: "h y = Some ny" "y \<noteq> 0" "y \<noteq> p"
        using l by (auto simp: dlist_def split: option.splits if_splits)
      then show ?thesis using l p c Cons \<open>xs = []\<close>
        by (auto simp: dlist_def kylin_list_unlink_raw_def ptr_defs intro!: same_vals_upd)
    qed
  next
    case (snoc xs' x)
    then obtain nx where x: "h x = Some nx" "x \<noteq> 0" "x \<noteq> p"
      using l by (auto simp: dlist_def split: option.splits if_splits)
    show ?thesis
    proof (cases ys)
      case Nil
      then show ?thesis using l p c snoc x
        by (auto simp: dlist_def kylin_list_unlink_raw_def ptr_defs hd_append
            intro!: same_vals_upd split: option.splits)
    next
      case (Cons y ys')
      then obtain ny where y: "h y = Some ny" "y \<noteq> 0" "y \<noteq> p" "y \<noteq> x"
        using l snoc by (auto simp: dlist_def split: option.splits if_splits)
      then show ?thesis using l p c Cons snoc x
        by (auto simp: dlist_def kylin_list_unlink_raw_def ptr_defs hd_append
            intro!: same_vals_upd split: option.splits)
    qed
  qed
qed

lemma dlist_free: "dlist h g ps \<Longrightarrow> p \<notin> set ps \<Longrightarrow> dlist (h(p := None)) g ps"
  by (simp add: dlist_def)

lemma remove_raw_ok:
  assumes l: "dlist h g (xs @ p # ys)"
  shows "\<exists>h' g'. kylin_list_remove_raw h g p
      = Some (kmath_val_dtor (ln_val (the (h p))) (list_val_type (list_opts g)) True, h', g')
    \<and> dlist h' g' (xs @ ys) \<and> list_opts g' = list_opts g \<and> h' p = None
    \<and> list_vals h' (xs @ ys) = list_vals h (xs @ ys)"
proof -
  from unlink_raw_ok [OF l] obtain h' g' where u: "kylin_list_unlink_raw h g p = Some (p, h', g')"
    "dlist h' g' (xs @ ys)" "list_opts g' = list_opts g" "same_vals h h'" "p \<notin> set (xs @ ys)" by blast
  obtain n where n: "h p = Some n" "p \<noteq> 0" using l by (auto simp: dlist_def split: option.splits)
  then obtain n' where n': "h' p = Some n'" "ln_val n' = ln_val n"
    using u(4) by (auto simp: same_vals_def dest!: spec [of _ p])
  have "list_vals (h'(p := None)) (xs @ ys) = list_vals h' (xs @ ys)"
    using u(5) by (simp add: list_vals_def)
  then show ?thesis
    using u n n' dlist_free [OF u(2,5)] same_vals_list [OF u(4)]
    by (simp add: kylin_list_remove_raw_def node_get_def)
qed

subsection \<open>Searching\<close>

lemma list_search_first:
  assumes "dseg h a ps 0" "0 \<notin> set ps"
  shows "list_search h mt key (hd (ps @ [0])) =
    Some (hd (filter (\<lambda>p. mt key (ln_val (the (h p))) = 0) ps @ [0]))"
  using assms
proof (induction ps arbitrary: a)
  case Nil
  then show ?case by (simp add: list_search.simps)
next
  case (Cons p ps)
  then obtain n where n: "h p = Some n" "ln_next n = hd (ps @ [0])" "dseg h p ps 0" "p \<noteq> 0" "0 \<notin> set ps"
    by (auto split: option.splits)
  with Cons.IH [OF n(3,5)] show ?case
    by (subst list_search.simps) (simp add: node_get_def)
qed

lemma find_raw_first:
  assumes "dlist h g ps"
  shows "kylin_list_find_raw h g key =
    Some (hd (filter (\<lambda>p. list_match (list_opts g) key (ln_val (the (h p))) = 0) ps @ [0]))"
  using list_search_first [of h 0 ps] assms by (simp add: kylin_list_find_raw_def dlist_def)


lemma find_raw_cases:
  assumes l: "dlist h g ps"
  shows "(\<exists>xs p ys. ps = xs @ p # ys \<and> kylin_list_find_raw h g key = Some p \<and> p \<noteq> 0
      \<and> list_match (list_opts g) key (ln_val (the (h p))) = 0
      \<and> (\<forall>q \<in> set xs. list_match (list_opts g) key (ln_val (the (h q))) \<noteq> 0))
    \<or> kylin_list_find_raw h g key = Some 0
      \<and> (\<forall>q \<in> set ps. list_match (list_opts g) key (ln_val (the (h q))) \<noteq> 0)"
proof -
  let ?P = "\<lambda>p. list_match (list_opts g) key (ln_val (the (h p))) = 0"
  have z: "0 \<notin> set ps" using l by (simp add: dlist_def)
  show ?thesis
  proof (cases "\<exists>q \<in> set ps. ?P q")
    case True
    then obtain xs p ys where s: "ps = xs @ p # ys" "?P p" "\<forall>q \<in> set xs. \<not> ?P q"
      using split_list_first_prop [of ps ?P] by auto
    then have "filter ?P ps = p # filter ?P ys" by (simp add: filter_False)
    then show ?thesis using find_raw_first [OF l, of key] s z by auto
  next
    case False
    then have "filter ?P ps = []" by (simp add: filter_empty_conv)
    then show ?thesis using find_raw_first [OF l, of key] False by auto
  qed
qed

subsection \<open>Joining and rotating\<close>

lemma join_ok:
  assumes d: "dlist h dst ps" and s: "dlist h src qs" and dj: "set ps \<inter> set qs = {}" and ne: "qs \<noteq> [] \<or> ps = []"
  shows "\<exists>h' d' s'. kylin_list_join h dst src = Some (h', d', s') \<and> dlist h' d' (ps @ qs)
    \<and> dlist h' s' [] \<and> same_vals h h'"
proof -
  have c: "unat (list_count dst + list_count src) = length (ps @ qs)"
  proof -
    have "length (ps @ qs) < 2 ^ 64" using d s dj by (intro addr_count) (auto simp: dlist_def)
    then show ?thesis using d s by (subst unat_add_noflow) (simp_all add: dlist_def)
  qed
  show ?thesis
  proof (cases qs)
    case Nil
    then show ?thesis using ne d s c by (simp add: dlist_def kylin_list_join_def)
  next
    case (Cons q qs')
    then obtain nq where q: "h q = Some nq" "q \<noteq> 0" using s by (auto simp: dlist_def split: option.splits)
    show ?thesis
    proof (cases ps rule: rev_cases)
      case Nil
      then show ?thesis using d s c q Cons
        by (auto simp: dlist_def kylin_list_join_def ptr_defs intro!: same_vals_upd)
    next
      case (snoc ps' p)
      then obtain np where p: "h p = Some np" "p \<noteq> 0" "p \<noteq> q"
        using d dj Cons by (auto simp: dlist_def split: option.splits)
      show ?thesis using d s c q p snoc Cons dj
        by (auto simp: dlist_def kylin_list_join_def ptr_defs hd_append
            intro!: same_vals_upd split: option.splits)
    qed
  qed
qed

lemma join_empty_src:
  assumes "dlist h dst (ps @ [p])" "dlist h src []"
  shows "\<exists>h' d' s'. kylin_list_join h dst src = Some (h', d', s')
    \<and> dseg h' 0 (ps @ [p]) 0 \<and> list_tail d' = 0 \<and> unat (list_count d') = length ps + 1"
proof -
  obtain n where n: "h p = Some n" "ln_next n = 0" "p \<noteq> 0"
    using assms(1) by (auto simp: dlist_def split: option.splits)
  have s: "list_head src = 0" "list_tail src = 0" "list_count src = 0"
    using assms(2) by (simp_all add: dlist_def unat_eq_0)
  have "h(p \<mapsto> n\<lparr>ln_next := 0\<rparr>) = h" using n(1,2) by (intro ext) (auto intro: klist_node.equality)
  then show ?thesis using assms(1) n s by (simp add: dlist_def kylin_list_join_def ptr_defs)
qed

lemma rotate_loop_last:
  assumes "dseg h a ps 0" "0 \<notin> set ps" "distinct ps" "ps \<noteq> []"
  shows "\<exists>h'. list_rotate_loop h (hd ps) = Some h' \<and> h' (last ps) = h (last ps)
    \<and> (\<forall>p. p \<notin> set ps \<longrightarrow> h' p = h p)"
  using assms
proof (induction ps arbitrary: h a)
  case (Cons p ps)
  then obtain n where n: "h p = Some n" "ln_next n = hd (ps @ [0])" "dseg h p ps 0" "p \<noteq> 0" "p \<notin> set ps"
    by (auto split: option.splits)
  show ?case
  proof (cases ps)
    case Nil
    then show ?thesis using n by (subst list_rotate_loop.simps) (simp add: node_get_def)
  next
    case (Cons q qs)
    let ?h = "h(p \<mapsto> n\<lparr>ln_prev := ln_next n, ln_next := ln_prev n\<rparr>)"
    have "\<exists>h'. list_rotate_loop ?h (hd ps) = Some h' \<and> h' (last ps) = ?h (last ps)
      \<and> (\<forall>r. r \<notin> set ps \<longrightarrow> h' r = ?h r)"
    proof (rule Cons.IH [of _ p])
      show "dseg ?h p ps 0" using n(3,5) by simp
    qed (use Cons.prems Cons in auto)
    moreover have "q \<noteq> 0" using Cons Cons.prems by auto
    moreover have "last ps \<noteq> p" using n(5) Cons last_in_set [of ps] by auto
    ultimately show ?thesis using n Cons
      by (subst list_rotate_loop.simps) (auto simp: node_get_def)
  qed
qed simp


subsection \<open>The list interface\<close>

text \<open>
  What clients of a linked list rely on: a node put behind, in front of or at an end of the list
  appears at that place of the sequence, an unlinked node disappears from it, and no operation
  changes the value of another node.
\<close>

locale linked_list =
  fixes repr :: "'h \<Rightarrow> 'g \<Rightarrow> kaddr list \<Rightarrow> bool" and live :: "'h \<Rightarrow> kaddr \<Rightarrow> bool"
    and keep :: "'h \<Rightarrow> 'h \<Rightarrow> bool"
    and push_front push_back :: "'h \<Rightarrow> 'g \<Rightarrow> kaddr \<Rightarrow> ('h \<times> 'g) option"
    and put_after :: "'h \<Rightarrow> 'g \<Rightarrow> kaddr \<Rightarrow> kaddr \<Rightarrow> ('h \<times> 'g) option"
    and unlink :: "'h \<Rightarrow> 'g \<Rightarrow> kaddr \<Rightarrow> (kaddr \<times> 'h \<times> 'g) option"
  assumes push_front_law: "repr h g ps \<Longrightarrow> live h n \<Longrightarrow> n \<notin> set ps \<Longrightarrow>
      \<exists>h' g'. push_front h g n = Some (h', g') \<and> repr h' g' (n # ps) \<and> keep h h'"
    and push_back_law: "repr h g ps \<Longrightarrow> live h n \<Longrightarrow> n \<notin> set ps \<Longrightarrow>
      \<exists>h' g'. push_back h g n = Some (h', g') \<and> repr h' g' (ps @ [n]) \<and> keep h h'"
    and put_after_law: "repr h g (xs @ b # ys) \<Longrightarrow> live h n \<Longrightarrow> n \<notin> set (xs @ b # ys) \<Longrightarrow>
      \<exists>h' g'. put_after h g b n = Some (h', g') \<and> repr h' g' (xs @ b # n # ys) \<and> keep h h'"
    and unlink_law: "repr h g (xs @ p # ys) \<Longrightarrow>
      \<exists>h' g'. unlink h g p = Some (p, h', g') \<and> repr h' g' (xs @ ys) \<and> keep h h' \<and> p \<notin> set (xs @ ys)"
    and keep_live: "keep h h' \<Longrightarrow> live h' n = live h n"
    and keep_trans: "keep h h' \<Longrightarrow> keep h' h'' \<Longrightarrow> keep h h''"
    and repr_live: "repr h g ps \<Longrightarrow> p \<in> set ps \<Longrightarrow> live h p"
begin

lemma push_unlink:
  assumes "repr h g ps" "live h n" "n \<notin> set ps"
  shows "\<exists>h1 g1 h2 g2. push_back h g n = Some (h1, g1) \<and> unlink h1 g1 n = Some (n, h2, g2)
    \<and> repr h2 g2 ps \<and> keep h h2"
proof -
  obtain h1 g1 where 1: "push_back h g n = Some (h1, g1)" "repr h1 g1 (ps @ [n])" "keep h h1"
    using push_back_law [OF assms] by blast
  obtain h2 g2 where 2: "unlink h1 g1 n = Some (n, h2, g2)" "repr h2 g2 ps" "keep h1 h2"
    using unlink_law [of h1 g1 ps n "[]"] 1(2) by auto
  then show ?thesis using 1(1) keep_trans [OF 1(3) 2(3)] by blast
qed

lemma move_to_front:
  assumes "repr h g (xs @ p # ys)"
  shows "\<exists>h1 g1 h2 g2. unlink h g p = Some (p, h1, g1) \<and> push_front h1 g1 p = Some (h2, g2)
    \<and> repr h2 g2 (p # xs @ ys) \<and> keep h h2"
proof -
  obtain h1 g1 where 1: "unlink h g p = Some (p, h1, g1)" "repr h1 g1 (xs @ ys)" "keep h h1" "p \<notin> set (xs @ ys)"
    using unlink_law [OF assms] by blast
  have "live h1 p" using repr_live [OF assms, of p] keep_live [OF 1(3)] by simp
  then obtain h2 g2 where 2: "push_front h1 g1 p = Some (h2, g2)" "repr h2 g2 (p # xs @ ys)" "keep h1 h2"
    using push_front_law [OF 1(2) _ 1(4)] by blast
  then show ?thesis using 1(1) keep_trans [OF 1(3) 2(3)] by blast
qed

end

definition node_live :: "lheap \<Rightarrow> kaddr \<Rightarrow> bool" where
  "node_live h p \<longleftrightarrow> p \<noteq> 0 \<and> h p \<noteq> None"

interpretation klist: linked_list dlist node_live same_vals kylin_list_insert_head_raw
  kylin_list_insert_tail_raw kylin_list_insert_after_raw kylin_list_unlink_raw
proof
  fix h g ps n assume "dlist h g ps" "node_live h n" "n \<notin> set ps"
  then show "\<exists>h' g'. kylin_list_insert_head_raw h g n = Some (h', g') \<and> dlist h' g' (n # ps) \<and> same_vals h h'"
    and "\<exists>h' g'. kylin_list_insert_tail_raw h g n = Some (h', g') \<and> dlist h' g' (ps @ [n]) \<and> same_vals h h'"
    using insert_head_raw_ok [of h g ps n] insert_tail_raw_ok [of h g ps n] by (auto simp: node_live_def)
next
  fix h g xs b ys n assume "dlist h g (xs @ b # ys)" "node_live h n" "n \<notin> set (xs @ b # ys)"
  then show "\<exists>h' g'. kylin_list_insert_after_raw h g b n = Some (h', g') \<and> dlist h' g' (xs @ b # n # ys)
      \<and> same_vals h h'"
    using insert_after_raw_ok [of h g xs b ys n] by (auto simp: node_live_def)
next
  fix h g xs p ys assume "dlist h g (xs @ p # ys)"
  then show "\<exists>h' g'. kylin_list_unlink_raw h g p = Some (p, h', g') \<and> dlist h' g' (xs @ ys) \<and> same_vals h h'
      \<and> p \<notin> set (xs @ ys)"
    using unlink_raw_ok [of h g xs p ys] by blast
next
  fix h h' n assume "same_vals h h'"
  then show "node_live h' n = node_live h n"
    by (cases "h n"; cases "h' n") (auto simp: node_live_def same_vals_def dest!: spec [of _ n])
next
  fix h h' h'' assume "same_vals h h'" "same_vals h' h''"
  then show "same_vals h h''" by (simp add: same_vals_def)
next
  fix h g ps p assume "dlist h g ps" "p \<in> set ps"
  then show "node_live h p" using dseg_dom [of h 0 ps 0 p] by (auto simp: dlist_def node_live_def)
qed

subsection \<open>Properties\<close>

lemma list_new_ok:
  assumes link: "\<And>h. h node \<noteq> None \<Longrightarrow> (\<forall>p. p \<noteq> node \<longrightarrow> h p = h0 p) \<Longrightarrow>
      \<exists>h' g'. link h = Some (h', g') \<and> dlist h' g' qs \<and> list_opts g' = list_opts g \<and> same_vals h h'"
    and node: "node \<noteq> 0"
    and v: "kmath_val_ctor m v (list_val_type (list_opts g)) (list_val_size (list_opts g))
      (list_val_ctor (list_opts g)) = Some (val, m')"
  shows "\<exists>r h' g'. list_new link m h0 g node v = Some (Some r, m', h', g')
    \<and> r = kmath_val_get node val (list_val_type (list_opts g)) \<and> dlist h' g' qs
    \<and> ln_val (the (h' node)) = val \<and> (\<forall>p. p \<noteq> node \<longrightarrow> map_option ln_val (h' p) = map_option ln_val (h0 p))"
proof -
  let ?h = "h0(node \<mapsto> \<lparr>ln_prev = 0, ln_next = 0, ln_val = val\<rparr>)"
  obtain h' g' where l: "link ?h = Some (h', g')" "dlist h' g' qs" "same_vals ?h h'"
    using link [of ?h] by auto
  then have "map_option ln_val (h' node) = Some val" by (simp add: same_vals_def)
  moreover have "map_option ln_val (h' p) = map_option ln_val (h0 p)" if "p \<noteq> node" for p
    using l(3) that by (simp add: same_vals_def)
  ultimately show ?thesis using l node v by (auto simp: list_new_def)
qed

lemma dlist_heap_cong: "dlist h g ps \<Longrightarrow> (\<And>p. p \<in> set ps \<Longrightarrow> h' p = h p) \<Longrightarrow> dlist h' g ps"
proof -
  have "(\<And>p. p \<in> set ps \<Longrightarrow> h' p = h p) \<Longrightarrow> dseg h' a ps b = dseg h a ps b" for a b
    by (induction ps arbitrary: a) (auto split: option.splits)
  then show "dlist h g ps \<Longrightarrow> (\<And>p. p \<in> set ps \<Longrightarrow> h' p = h p) \<Longrightarrow> dlist h' g ps"
    by (simp add: dlist_def)
qed

text \<open>
  C27. The four insertions, when the allocation gives a fresh node and the value is constructed,
  put the new node at the head or at the tail of any list, the empty one included, or directly behind or directly in front of a
  node of it, return a pointer to its value, and leave the order and the values of all other nodes unchanged.
\<close>

theorem kylin_list_insert_places:
  assumes l: "dlist h g ps" and n: "node \<notin> set ps" "node \<noteq> 0"
    and v: "kmath_val_ctor m v (list_val_type (list_opts g)) (list_val_size (list_opts g))
      (list_val_ctor (list_opts g)) = Some (val, m')"
    and op: "(ins, qs) \<in> {(kylin_list_insert_head m h g node v, node # ps), (kylin_list_insert_tail m h g node v, ps @ [node])}
      \<union> {(kylin_list_insert_after m h g p node v, xs @ p # node # ys) | xs p ys. ps = xs @ p # ys}
      \<union> {(kylin_list_insert_before m h g p node v, xs @ node # p # ys) | xs p ys. ps = xs @ p # ys}"
  shows "\<exists>r h' g'. ins = Some (Some r, m', h', g')
    \<and> r = kmath_val_get node val (list_val_type (list_opts g)) \<and> dlist h' g' qs
    \<and> ln_val (the (h' node)) = val \<and> (\<forall>q. q \<noteq> node \<longrightarrow> map_option ln_val (h' q) = map_option ln_val (h q))"
proof -
  have base: "dlist h1 g ps" if "\<forall>q. q \<noteq> node \<longrightarrow> h1 q = h q" for h1
    using that n(1) by (intro dlist_heap_cong [OF l]) auto
  consider "ins = kylin_list_insert_head m h g node v" "qs = node # ps"
    | "ins = kylin_list_insert_tail m h g node v" "qs = ps @ [node]"
    | xs p ys where "ins = kylin_list_insert_after m h g p node v" "qs = xs @ p # node # ys" "ps = xs @ p # ys"
    | xs p ys where "ins = kylin_list_insert_before m h g p node v" "qs = xs @ node # p # ys" "ps = xs @ p # ys"
    using op by blast
  then show ?thesis
  proof cases
    case 1
    show ?thesis unfolding 1 kylin_list_insert_head_def
      by (rule list_new_ok [OF _ n(2) v]) (use insert_head_raw_ok [OF base n] in auto)
  next
    case 2
    show ?thesis unfolding 2 kylin_list_insert_tail_def
      by (rule list_new_ok [OF _ n(2) v]) (use insert_tail_raw_ok [OF base n] in auto)
  next
    case 3
    show ?thesis unfolding 3(1,2) kylin_list_insert_after_def
      by (rule list_new_ok [OF _ n(2) v]) (use insert_after_raw_ok [OF base [unfolded 3(3)] n [unfolded 3(3)]] in auto)
  next
    case 4
    show ?thesis unfolding 4(1,2) kylin_list_insert_before_def
      by (rule list_new_ok [OF _ n(2) v]) (use insert_before_raw_ok [OF base [unfolded 4(3)] n [unfolded 4(3)]] in auto)
  qed
qed

definition demo_list_opts :: klist_opts where
  "demo_list_opts = \<lparr>list_val_type = KOBJ_OTHERS, list_val_size = 8,
     list_match = (\<lambda>a b. if a = b then 0 else 1), list_val_ctor = None\<rparr>"

definition demo_list :: klist where
  "demo_list = \<lparr>list_head = 1, list_tail = 2, list_opts = demo_list_opts, list_count = 2\<rparr>"

definition demo_lheap :: lheap where
  "demo_lheap = [1 \<mapsto> \<lparr>ln_prev = 0, ln_next = 2, ln_val = 10\<rparr>, 2 \<mapsto> \<lparr>ln_prev = 1, ln_next = 0, ln_val = 20\<rparr>]"

lemma demo_dlist: "dlist demo_lheap demo_list [1, 2]"
  by (simp add: dlist_def demo_lheap_def demo_list_def)

definition demo_empty :: klist where
  "demo_empty = \<lparr>list_head = 0, list_tail = 0, list_opts = demo_list_opts, list_count = 0\<rparr>"

lemma demo_empty_dlist: "dlist h demo_empty []"
  by (simp add: dlist_def demo_empty_def)

theorem kylin_list_insert_places_witness:
  "(\<exists>r h' g'. kylin_list_insert_after (\<lambda>a. None) demo_lheap demo_list 1 3 30 = Some (Some r, \<lambda>a. None, h', g') \<and> dlist h' g' [1, 3, 2])
    \<and> (\<exists>r h' g'. kylin_list_insert_tail (\<lambda>a. None) Map.empty demo_empty 3 30 = Some (Some r, \<lambda>a. None, h', g') \<and> dlist h' g' [3])"
proof -
  have c: "kmath_val_ctor (\<lambda>a. None) 30 (list_val_type demo_list_opts) (list_val_size demo_list_opts) (list_val_ctor demo_list_opts) = Some (30, \<lambda>a. None)"
    by (simp add: demo_list_opts_def kmath_val_ctor_def)
  have o: "list_opts demo_list = demo_list_opts" "list_opts demo_empty = demo_list_opts" by (simp_all add: demo_list_def demo_empty_def)
  have "[1, 2] = [] @ 1 # [2]" by simp
  then have "(kylin_list_insert_after (\<lambda>a. None) demo_lheap demo_list 1 3 30, [] @ 1 # 3 # [2])
      \<in> {(kylin_list_insert_after (\<lambda>a. None) demo_lheap demo_list p 3 30, xs @ p # 3 # ys) | xs p ys. [1, 2] = xs @ p # ys}"
    by blast
  then have "\<exists>r h' g'. kylin_list_insert_after (\<lambda>a. None) demo_lheap demo_list 1 3 30 = Some (Some r, \<lambda>a. None, h', g')
    \<and> r = kmath_val_get 3 30 (list_val_type (list_opts demo_list)) \<and> dlist h' g' ([] @ 1 # 3 # [2])
    \<and> ln_val (the (h' 3)) = 30 \<and> (\<forall>q. q \<noteq> 3 \<longrightarrow> map_option ln_val (h' q) = map_option ln_val (demo_lheap q))"
    by (intro kylin_list_insert_places [OF demo_dlist _ _ c [folded o(1)]]) auto
  moreover have "\<exists>r h' g'. kylin_list_insert_tail (\<lambda>a. None) Map.empty demo_empty 3 30 = Some (Some r, \<lambda>a. None, h', g')
    \<and> r = kmath_val_get 3 30 (list_val_type (list_opts demo_empty)) \<and> dlist h' g' ([] @ [3])
    \<and> ln_val (the (h' 3)) = 30 \<and> (\<forall>q. q \<noteq> 3 \<longrightarrow> map_option ln_val (h' q) = map_option ln_val (None :: klist_node option))"
    by (intro kylin_list_insert_places [OF demo_empty_dlist _ _ c [folded o(2)]]) simp_all
  ultimately show ?thesis by auto
qed

text \<open>
  \<^verbatim>\<open>kylin_list_remove\<close> unlinks, releases and frees exactly the first node whose value the
  match function accepts for the key, keeping the other nodes with their values in order; when
  there is none it changes nothing.
\<close>

theorem kylin_list_remove_first:
  assumes "dlist h g ps"
  defines "hit \<equiv> \<lambda>key p. list_match (list_opts g) key (ln_val (the (h p))) = 0"
  shows "if \<forall>p \<in> set ps. \<not> hit key p then kylin_list_remove h g key = Some ([], h, g)
    else \<exists>xs p ys h' g'. ps = xs @ p # ys \<and> hit key p \<and> (\<forall>q \<in> set xs. \<not> hit key q)
      \<and> kylin_list_remove h g key
          = Some (kmath_val_dtor (ln_val (the (h p))) (list_val_type (list_opts g)) True, h', g')
      \<and> dlist h' g' (xs @ ys) \<and> h' p = None \<and> list_vals h' (xs @ ys) = list_vals h (xs @ ys)"
  using find_raw_cases [OF assms(1), of key]
proof (elim disjE exE conjE)
  fix xs p ys
  assume f: "ps = xs @ p # ys" "kylin_list_find_raw h g key = Some p" "p \<noteq> 0"
    "list_match (list_opts g) key (ln_val (the (h p))) = 0"
    "\<forall>q \<in> set xs. list_match (list_opts g) key (ln_val (the (h q))) \<noteq> 0"
  then have "\<not> (\<forall>p \<in> set ps. \<not> hit key p)" by (auto simp: hit_def)
  then show ?thesis
    using remove_raw_ok [of h g xs p ys] assms(1) f
    by (simp add: kylin_list_remove_def hit_def) blast
next
  assume "kylin_list_find_raw h g key = Some 0"
    "\<forall>q \<in> set ps. list_match (list_opts g) key (ln_val (the (h q))) \<noteq> 0"
  then show ?thesis by (simp add: kylin_list_remove_def hit_def)
qed

theorem kylin_list_remove_first_witness:
  "\<exists>h' g'. kylin_list_remove demo_lheap demo_list 10 = Some ([RelUser 10], h', g') \<and> dlist h' g' [2]"
proof -
  have h: "\<not> (\<forall>p \<in> set [1, 2]. list_match (list_opts demo_list) 10 (ln_val (the (demo_lheap p))) \<noteq> 0)"
    by (simp add: demo_list_def demo_list_opts_def demo_lheap_def)
  have n: "list_match (list_opts demo_list) 10 (ln_val (the (demo_lheap 2))) \<noteq> 0"
    by (simp add: demo_list_def demo_list_opts_def demo_lheap_def)
  from kylin_list_remove_first [OF demo_dlist, of 10] h obtain xs p ys h' g' where
    r: "[1, 2] = xs @ p # ys" "list_match (list_opts demo_list) 10 (ln_val (the (demo_lheap p))) = 0"
    "kylin_list_remove demo_lheap demo_list 10
       = Some (kmath_val_dtor (ln_val (the (demo_lheap p))) (list_val_type (list_opts demo_list)) True, h', g')"
    "dlist h' g' (xs @ ys)" by (auto simp del: set_simps)
  from r(1,2) n have "xs = []" "p = 1" "ys = [2]" by (auto simp: Cons_eq_append_conv)
  with r(3,4) show ?thesis
    by (simp add: demo_lheap_def demo_list_def demo_list_opts_def kmath_val_dtor_def kobj_is_int_def)
qed


text \<open>
  Unlinking a node and inserting it again with the raw operations is a move: taking any node
  of the list out and putting it at the head gives the list with that node first and the
  others in their order, with every value unchanged and the node never freed.
\<close>

theorem kylin_list_move_to_front:
  assumes "dlist h g (xs @ p # ys)"
  shows "\<exists>h1 g1 h2 g2. kylin_list_unlink_raw h g p = Some (p, h1, g1)
    \<and> kylin_list_insert_head_raw h1 g1 p = Some (h2, g2) \<and> dlist h2 g2 (p # xs @ ys) \<and> same_vals h h2"
  by (rule klist.move_to_front [OF assms])

theorem kylin_list_move_to_front_witness:
  "\<exists>h1 g1 h2 g2. kylin_list_unlink_raw demo_lheap demo_list 2 = Some (2, h1, g1)
    \<and> kylin_list_insert_head_raw h1 g1 2 = Some (h2, g2) \<and> dlist h2 g2 [2, 1]"
  using kylin_list_move_to_front [of demo_lheap demo_list "[1]" 2 "[]"] demo_dlist by auto

text \<open>
  \<^verbatim>\<open>kylin_list_join\<close> of two disjoint lists appends a non-empty source to the destination and empties
  it, without touching a value; but joining an empty source to a non-empty destination sets the
  destination's tail to null although its nodes are still linked from its head.
\<close>

theorem kylin_list_join_correct:
  assumes "dlist h dst ps" "dlist h src qs" "set ps \<inter> set qs = {}" "ps \<noteq> []"
  shows "if qs \<noteq> [] then \<exists>h' d' s'. kylin_list_join h dst src = Some (h', d', s') \<and> dlist h' d' (ps @ qs)
      \<and> dlist h' s' [] \<and> same_vals h h'
    else \<exists>h' d' s'. kylin_list_join h dst src = Some (h', d', s') \<and> dseg h' 0 ps 0 \<and> list_tail d' = 0
      \<and> unat (list_count d') = length ps"
proof (cases "qs = []")
  case False
  then show ?thesis using join_ok [OF assms(1-3)] by auto
next
  case True
  obtain ps' p where "ps = ps' @ [p]" using assms(4) by (cases ps rule: rev_cases) auto
  then show ?thesis using True join_empty_src [of h dst ps' p src] assms(1,2) by auto
qed

theorem kylin_list_join_correct_witness:
  "\<exists>h' d' s'. kylin_list_join demo_lheap demo_list
      \<lparr>list_head = 0, list_tail = 0, list_opts = demo_list_opts, list_count = 0\<rparr> = Some (h', d', s')
    \<and> list_tail d' = 0"
  using kylin_list_join_correct [OF demo_dlist,
      of "\<lparr>list_head = 0, list_tail = 0, list_opts = demo_list_opts, list_count = 0\<rparr>" "[]"]
  by (auto simp: dlist_def)

text \<open>
  \<^verbatim>\<open>kylin_list_rotate\<close> does not turn the links of the last node: after it the head of a list of at
  least two nodes is the old last node, whose successor is null, so that a traversal from the
  head sees a single node while the count is unchanged.
\<close>

theorem kylin_list_rotate_truncates:
  assumes "dlist h g ps" "2 \<le> length ps"
  shows "\<exists>h' g'. kylin_list_rotate h g = Some (h', g') \<and> list_head g' = last ps
    \<and> get_next (last ps) h' = Some 0 \<and> unat (list_count g') = length ps"
proof -
  have ne: "ps \<noteq> []" using assms(2) by auto
  have c: "\<not> list_count g \<le> 1" using assms by (simp add: dlist_def word_le_nat_alt)
  from rotate_loop_last [of h 0 ps] assms(1) ne obtain h' where
    r: "list_rotate_loop h (hd ps) = Some h'" "h' (last ps) = h (last ps)" by (auto simp: dlist_def)
  obtain qs q where q: "ps = qs @ [q]" using ne by (cases ps rule: rev_cases) auto
  then have "\<exists>n. h q = Some n \<and> ln_next n = 0 \<and> q \<noteq> 0"
    using assms(1) by (auto simp: dlist_def split: option.splits)
  then show ?thesis using r c q assms(1)
    by (auto simp: kylin_list_rotate_def dlist_def get_next_def node_get_def hd_append split: if_splits)
qed

theorem kylin_list_rotate_truncates_witness:
  "\<exists>h' g'. kylin_list_rotate demo_lheap demo_list = Some (h', g') \<and> list_head g' = 2
    \<and> get_next 2 h' = Some 0 \<and> unat (list_count g') = 2"
  using kylin_list_rotate_truncates [OF demo_dlist] by (simp add: numeral_2_eq_2)

lemma list_nth_loop_nth:
  assumes "dseg h a qs 0" "0 \<notin> set qs" "count = i + length qs - 1" "1 \<le> i" "int i \<le> index" "qs \<noteq> []"
  shows "list_nth_loop h count index i (hd qs) =
    Some (if index < int count then Some (qs ! nat (index - int i)) else None)"
  using assms
proof (induction qs arbitrary: i a)
  case (Cons q qs)
  then obtain n where n: "h q = Some n" "ln_next n = hd (qs @ [0])" "dseg h q qs 0" "q \<noteq> 0"
    by (auto split: option.splits)
  show ?case
  proof (cases "i < count \<and> int i \<noteq> index")
    case True
    then have ne: "qs \<noteq> []" using Cons.prems(3) by auto
    have "list_nth_loop h count index (i + 1) (hd qs) =
        Some (if index < int count then Some (qs ! nat (index - int (i + 1))) else None)"
      using n(3) Cons.prems True ne by (intro Cons.IH) auto
    moreover have "nat (index - int i) = Suc (nat (index - int (i + 1)))" using True Cons.prems(5) by linarith
    ultimately show ?thesis using True n ne
      by (subst list_nth_loop.simps) (simp add: get_next_def node_get_def del: list_nth_loop.simps)
  next
    case False
    then show ?thesis using Cons.prems(5) by (subst list_nth_loop.simps) (auto simp del: list_nth_loop.simps)
  qed
qed simp

text \<open>
  \<^verbatim>\<open>kylin_list_find_index_raw\<close> counts from 1 and stops one short: for an index below the count it
  returns the node at that place, and for the index of the last node it returns null.
\<close>

theorem kylin_list_find_index_skips_last:
  assumes "dlist h g ps" "0 < sint index" "sint index \<le> int (length ps)" "length ps < 2 ^ 31"
  shows "kylin_list_find_index_raw h g index =
    Some (if sint index < int (length ps) then ps ! (nat (sint index) - 1) else 0)"
proof -
  have ne: "ps \<noteq> []" using assms(2,3) by auto
  have sc: "sint (scast index :: ksize) = sint index"
    by (simp add: signed_scast_eq signed_take_bit_int_eq_self_iff
      order.trans [OF _ sint_ge] less_le_trans [OF sint_lt])
  have "sint index < 2 ^ 31" using sint_lt [of index] by simp
  then have "take_bit 64 (sint index) = sint index" using assms(2) by (intro take_bit_int_eq_self) simp_all
  moreover have "uint (scast index :: ksize) = take_bit LENGTH(64) (sint (scast index :: ksize))"
    by (rule uint_sint)
  moreover have "LENGTH(64) = 64" by simp
  ultimately have "uint (scast index :: ksize) = sint index" by (simp only: sc)
  then have g: "\<not> (scast index :: ksize) > list_count g"
  proof -
    have "unat (list_count g) = length ps" using assms(1) by (simp add: dlist_def)
    then have "uint (list_count g) = int (length ps)" by (metis uint_nat)
    then show ?thesis using assms(3) \<open>uint (scast index :: ksize) = sint index\<close> by (simp add: word_less_def)
  qed
  have "list_nth_loop h (unat (list_count g)) (sint index) 1 (hd ps) =
      Some (if sint index < int (unat (list_count g)) then Some (ps ! nat (sint index - int 1)) else None)"
    using assms ne by (intro list_nth_loop_nth [of _ 0]) (auto simp: dlist_def)
  moreover have "list_head g = hd ps" "unat (list_count g) = length ps" using assms(1) ne by (auto simp: dlist_def)
  moreover have "nat (sint index - int 1) = nat (sint index) - 1" using assms(2) by linarith
  ultimately show ?thesis using g
    by (simp add: kylin_list_find_index_raw_def list_nth_def del: list_nth_loop.simps)
qed

theorem kylin_list_find_index_skips_last_witness:
  "kylin_list_find_index_raw demo_lheap demo_list 2 = Some 0"
  using kylin_list_find_index_skips_last [OF demo_dlist, of 2] by simp


lemma list_dup_loop_null:
  assumes "list_dup_loop alloc m h dup tmp = Some (r, m', h')" "tmp \<noteq> 0" "\<And>h. alloc h \<noteq> 0"
    and "list_val_type (list_opts dup) = KOBJ_OTHERS" "list_val_ctor (list_opts dup) = None"
  shows "r = None"
proof -
  have c: "kmath_val_ctor m tmp (list_val_type (list_opts dup)) (list_val_size (list_opts dup))
      (list_val_ctor (list_opts dup)) = Some (tmp, m)"
    using assms(4,5) by (simp add: kmath_val_ctor_def)
  show ?thesis using assms(1-4) c
    by (subst (asm) list_dup_loop.simps)
      (auto simp: kylin_list_insert_tail_def list_new_def kmath_val_get_def kobj_is_int_def bind_eq_Some_conv
        split: prod.splits)
qed

text \<open>
  \<^verbatim>\<open>kylin_list_dup\<close> takes a successful insertion for a failure: on a non-empty list of objects whose nodes can all be
  allocated it never returns a duplicate, it returns null or does not return.
\<close>

theorem kylin_list_dup_never_duplicates:
  assumes "list_head g \<noteq> 0" "\<forall>h. alloc h \<noteq> 0"
    and "list_val_type (list_opts g) = KOBJ_OTHERS" "list_val_ctor (list_opts g) = None"
  shows "kylin_list_dup ok alloc m h g \<noteq> Some (Some d, m', h')"
proof
  assume "kylin_list_dup ok alloc m h g = Some (Some d, m', h')"
  then obtain dup where "list_dup_loop alloc m h dup (list_head g) = Some (Some d, m', h')"
    "list_opts dup = list_opts g"
    by (auto simp: kylin_list_dup_def kylin_list_create_def split: if_splits)
  then show False using list_dup_loop_null assms by fastforce
qed

theorem kylin_list_dup_never_duplicates_witness:
  "kylin_list_dup True (\<lambda>h. 9) (\<lambda>a. None) demo_lheap demo_list \<noteq> Some (Some demo_list, \<lambda>a. None, demo_lheap)"
  using kylin_list_dup_never_duplicates [of demo_list "\<lambda>h. 9"]
  by (simp add: demo_list_def demo_list_opts_def)

lemma clear_stuck:
  assumes "kylin_list_clear h g rels = Some y"
  shows "\<not> (dlist h g (p # ps) \<and> (\<forall>q \<in> set (p # ps). list_match (list_opts g) p (ln_val (the (h q))) \<noteq> 0))"
proof (rule kylin_list_clear.raw_induct [OF _ assms,
      of "\<lambda>h g rels y. \<not> (dlist h g (p # ps) \<and>
        (\<forall>q \<in> set (p # ps). list_match (list_opts g) p (ln_val (the (h q))) \<noteq> 0))"])
  fix f h g rels y
  let ?C = "\<lambda>h g. dlist h g (p # ps) \<and> (\<forall>q \<in> set (p # ps). list_match (list_opts g) p (ln_val (the (h q))) \<noteq> 0)"
  assume ih: "\<And>h g rels y. f h g rels = Some y \<Longrightarrow> \<not> ?C h g"
    and b: "(let node = list_head g in if node = 0 then Some (rels, h, g)
      else do {
        n \<leftarrow> node_get h node;
        let rels = rels @ kmath_val_dtor (ln_val n) (list_val_type (list_opts g)) True;
        (r, h, guard) \<leftarrow> kylin_list_remove h g node;
        f h guard (rels @ r) }) = Some y"
  show "\<not> ?C h g"
  proof
    assume c: "?C h g"
    then have "list_head g = p" "p \<noteq> 0" "kylin_list_find_raw h g p = Some 0"
      using find_raw_cases [of h g "p # ps" p] by (auto simp: dlist_def Cons_eq_append_conv)
    then have "kylin_list_remove h g (list_head g) = Some ([], h, g)" by (simp add: kylin_list_remove_def)
    with b \<open>list_head g = p\<close> \<open>p \<noteq> 0\<close> obtain rels' where "f h g rels' = Some y"
      by (auto simp: Let_def bind_eq_Some_conv)
    with ih c show False by blast
  qed
qed

text \<open>
  \<^verbatim>\<open>kylin_list_clear\<close> removes by passing the node's own address as the search key: when the match
  function accepts it for no stored value, the loop never ends; and on a one-node list of user objects where it accepts it,
  the value is released twice.
\<close>

theorem kylin_list_clear_flaws:
  assumes "dlist h g (p # ps)"
  shows "((\<forall>q \<in> set (p # ps). list_match (list_opts g) p (ln_val (the (h q))) \<noteq> 0) \<longrightarrow>
      kylin_list_clear h g [] = None)
    \<and> (ps = [] \<and> list_match (list_opts g) p (ln_val (the (h p))) = 0 \<and> list_val_type (list_opts g) = KOBJ_OTHERS \<longrightarrow>
      (\<exists>h' g'. kylin_list_clear h g [] = Some ([RelUser (ln_val (the (h p))), RelUser (ln_val (the (h p)))], h', g')
        \<and> dlist h' g' []))"
proof (intro conjI impI)
  assume "\<forall>q \<in> set (p # ps). list_match (list_opts g) p (ln_val (the (h q))) \<noteq> 0"
  with assms clear_stuck show "kylin_list_clear h g [] = None" by (metis option.exhaust)
next
  assume a: "ps = [] \<and> list_match (list_opts g) p (ln_val (the (h p))) = 0 \<and> list_val_type (list_opts g) = KOBJ_OTHERS"
  then have l: "dlist h g ([] @ p # [])" using assms by simp
  then obtain n where n: "h p = Some n" "p \<noteq> 0" "list_head g = p" by (auto simp: dlist_def split: option.splits)
  have "kylin_list_find_raw h g p = Some p" using find_raw_first [of h g "[p]" p] assms a by simp
  moreover from remove_raw_ok [OF l] obtain h' g' where
    r: "kylin_list_remove_raw h g p = Some (kmath_val_dtor (ln_val n) (list_val_type (list_opts g)) True, h', g')"
      "dlist h' g' []" using n by auto
  moreover have "kylin_list_clear h' g' rels = Some (rels, h', g')" for rels
    using r(2) by (subst kylin_list_clear.simps) (simp add: dlist_def)
  ultimately show "\<exists>h' g'. kylin_list_clear h g [] =
      Some ([RelUser (ln_val (the (h p))), RelUser (ln_val (the (h p)))], h', g') \<and> dlist h' g' []"
    using n a by (subst kylin_list_clear.simps)
      (simp add: kylin_list_remove_def node_get_def kmath_val_dtor_def kobj_is_int_def)
qed

theorem kylin_list_clear_flaws_witness:
  "kylin_list_clear demo_lheap demo_list [] = None"
  using kylin_list_clear_flaws [OF demo_dlist]
  by (simp add: demo_lheap_def demo_list_def demo_list_opts_def)

end
