(* ===== verification/Kylin_Hashtable.thy ===== *)
theory Kylin_Hashtable
  imports Kylin_Value Kylin_Bitops
begin

section \<open>Incremental hash tables (lib/core/math/kylin_math.h, kylin_map.c, kylin_index.c)\<close>

text \<open>
  The dictionary and the index of the library are two copies of one hash table: two arrays of
  bucket heads with their capacity, mask and count, and the position of the incremental move
  from the first array to the second (-1 when there is none). This theory holds what the two
  share, over nodes that carry data of any type: \<open>hf\<close> is the hash of a node's key,
  \<open>eqf\<close> the test \<^verbatim>\<open>kmath_val_cmp(..) == 0\<close> of two nodes, \<open>test\<close> the test of a node
  against the key that is searched (None when it reads unmapped memory), \<open>rel\<close> what the
  destructors of a node release. Nodes live in a heap, address 0 is the null pointer, and a
  freed node is no longer in the heap. A walk along a chain is a \<^verbatim>\<open>while\<close> loop that need
  not end on a corrupt heap, hence a partial function.
\<close>

subsection \<open>Definitions\<close>

record 'd hnode =
  hn_data :: 'd
  hn_next :: kaddr

type_synonym 'd hheap = "kaddr \<Rightarrow> 'd hnode option"

record kht =
  ht_table :: "kaddr list option"
  ht_cap :: ksize
  ht_mask :: ksize
  ht_used :: ksize

record 'd htab =
  hp :: "'d hheap"
  ht0 :: kht
  ht1 :: kht
  rehashidx :: int

text \<open>The index is an \<^verbatim>\<open>int32_t\<close>: it is read as a number, and counting past \<open>2 ^ 31 - 1\<close> is undefined.\<close>

definition idx_after :: "nat \<Rightarrow> int option" where
  "idx_after i = (if int i + 1 < 2 ^ 31 then Some (int i + 1) else None)"

definition kmath_ht_reset :: kht where
  "kmath_ht_reset = \<lparr>ht_table = None, ht_cap = 0, ht_mask = 0, ht_used = 0\<rparr>"

definition hnode_get :: "'d hheap \<Rightarrow> kaddr \<Rightarrow> 'd hnode option" where
  "hnode_get H p = (if p = 0 then None else H p)"

abbreviation is_rehashing :: "'d htab \<Rightarrow> bool" where
  "is_rehashing g \<equiv> rehashidx g \<noteq> -1"

abbreviation force_resize_ratio :: ksize where
  "force_resize_ratio \<equiv> 5"

text \<open>A walk along a chain until the test holds; the result is the predecessor and the node.\<close>

partial_function (option) chain_find ::
    "'d hheap \<Rightarrow> ('d \<Rightarrow> bool option) \<Rightarrow> kaddr \<Rightarrow> kaddr \<Rightarrow> (kaddr \<times> kaddr) option option" where
  "chain_find H test prev cmp =
     (if cmp = 0 then Some None
      else do {
        n \<leftarrow> hnode_get H cmp;
        b \<leftarrow> test (hn_data n);
        if b then Some (Some (prev, cmp)) else chain_find H test cmp (hn_next n) })"

text \<open>The release of a chain, and the loop over the buckets that stops when none is counted.\<close>

partial_function (option) chain_free ::
    "('d \<Rightarrow> krelease list) \<Rightarrow> 'd hheap \<Rightarrow> ksize \<Rightarrow> krelease list \<Rightarrow> kaddr
       \<Rightarrow> ('d hheap \<times> ksize \<times> krelease list) option" where
  "chain_free rel H used rels node =
     (if node = 0 then Some (H, used, rels)
      else do {
        n \<leftarrow> hnode_get H node;
        chain_free rel (H(node := None)) (used - 1) (rels @ rel (hn_data n)) (hn_next n) })"

definition clear_bucket :: "('d \<Rightarrow> krelease list) \<Rightarrow> kaddr list \<Rightarrow> nat \<Rightarrow> 'd hheap \<times> ksize \<times> krelease list
    \<Rightarrow> ('d hheap \<times> ksize \<times> krelease list) option" where
  "clear_bucket rel t i = (\<lambda>(H, used, rels).
     if used = 0 then Some (H, used, rels)
     else do { node \<leftarrow> arr_get t i; chain_free rel H used rels node })"

definition ht_clear :: "('d \<Rightarrow> krelease list) \<Rightarrow> 'd hheap \<Rightarrow> kht \<Rightarrow> ('d hheap \<times> kht \<times> krelease list) option" where
  "ht_clear rel H ht = do {
     t \<leftarrow> ht_table ht;
     (H, used, rels) \<leftarrow> for_loop [0..<unat (ht_cap ht)] (clear_bucket rel t) (H, ht_used ht, []);
     Some (H, ht\<lparr>ht_used := used\<rparr>, rels) }"

definition ht_clear_both :: "('d \<Rightarrow> krelease list) \<Rightarrow> 'd htab \<Rightarrow> ('d htab \<times> krelease list) option" where
  "ht_clear_both rel g = do {
     (g, r0) \<leftarrow> (if ht_table (ht0 g) \<noteq> None then do {
         (H, t, r) \<leftarrow> ht_clear rel (hp g) (ht0 g);
         Some (g\<lparr>hp := H, ht0 := t\<rparr>, r) } else Some (g, []));
     (g, r1) \<leftarrow> (if ht_table (ht1 g) \<noteq> None then do {
         (H, t, r) \<leftarrow> ht_clear rel (hp g) (ht1 g);
         Some (g\<lparr>hp := H, ht1 := t\<rparr>, r) } else Some (g, []));
     Some (g\<lparr>rehashidx := -1\<rparr>, r0 @ r1) }"

definition ht_destroy :: "('d \<Rightarrow> krelease list) \<Rightarrow> 'd htab \<Rightarrow> ('d hheap \<times> krelease list) option" where
  "ht_destroy rel g = do {
     (g, r0) \<leftarrow> (if ht_table (ht0 g) \<noteq> None then do {
         (H, t, r) \<leftarrow> ht_clear rel (hp g) (ht0 g);
         Some (g\<lparr>hp := H, ht0 := kmath_ht_reset\<rparr>, r) } else Some (g, []));
     (g, r1) \<leftarrow> (if ht_table (ht1 g) \<noteq> None then do {
         (H, t, r) \<leftarrow> ht_clear rel (hp g) (ht1 g);
         Some (g\<lparr>hp := H, ht1 := kmath_ht_reset\<rparr>, r) } else Some (g, []));
     Some (hp g, r0 @ r1) }"

definition ht_need_expand :: "'d htab \<Rightarrow> bool" where
  "ht_need_expand g \<longleftrightarrow> ht_cap (ht0 g) = 0 \<or> ht_used (ht0 g) div ht_cap (ht0 g) > force_resize_ratio"

text \<open>The inner loop of the move: each node of the old chain goes to the front of its new chain.\<close>

partial_function (option) chain_move ::
    "('d \<Rightarrow> kword) \<Rightarrow> ('d \<Rightarrow> 'd \<Rightarrow> bool) \<Rightarrow> ('d \<Rightarrow> krelease list) \<Rightarrow> krelease list \<Rightarrow> 'd htab \<Rightarrow> kaddr
       \<Rightarrow> ('d htab \<times> krelease list) option" where
  "chain_move hf eqf rel rels g node =
     (if node = 0 then Some (g, rels)
      else do {
        n \<leftarrow> hnode_get (hp g) node;
        let index = unat (hf (hn_data n) AND ht_mask (ht1 g));
        t1 \<leftarrow> ht_table (ht1 g);
        h \<leftarrow> arr_get t1 index;
        r \<leftarrow> chain_find (hp g) (\<lambda>d. Some (eqf (hn_data n) d)) 0 h;
        if r \<noteq> None then
          chain_move hf eqf rel (rels @ rel (hn_data n)) (g\<lparr>hp := (hp g)(node := None)\<rparr>) (hn_next n)
        else
          chain_move hf eqf rel rels
            (g\<lparr>hp := (hp g)(node \<mapsto> n\<lparr>hn_next := h\<rparr>),
               ht0 := (ht0 g)\<lparr>ht_used := ht_used (ht0 g) - 1\<rparr>,
               ht1 := (ht1 g)\<lparr>ht_table := Some (t1[index := node]), ht_used := ht_used (ht1 g) + 1\<rparr>\<rparr>)
            (hn_next n) })"

text \<open>One round of the outer loop: skip the empty buckets, move the first other one.\<close>

definition rehash_bucket ::
    "('d \<Rightarrow> kword) \<Rightarrow> ('d \<Rightarrow> 'd \<Rightarrow> bool) \<Rightarrow> ('d \<Rightarrow> krelease list) \<Rightarrow> 'd htab \<Rightarrow> ('d htab \<times> krelease list) option" where
  "rehash_bucket hf eqf rel g = do {
     t0 \<leftarrow> ht_table (ht0 g);
     pos \<leftarrow> find_loop [nat (rehashidx g)..<length t0] (\<lambda>i. do { p \<leftarrow> arr_get t0 i; Some (p \<noteq> 0) });
     i \<leftarrow> pos;
     node \<leftarrow> arr_get t0 i;
     (g, rels) \<leftarrow> chain_move hf eqf rel [] g node;
     t0 \<leftarrow> arr_set t0 i 0;
     idx \<leftarrow> idx_after i;
     Some (g\<lparr>ht0 := (ht0 g)\<lparr>ht_table := Some t0\<rparr>, rehashidx := idx\<rparr>, rels) }"

fun rehash_steps ::
    "nat \<Rightarrow> ('d \<Rightarrow> kword) \<Rightarrow> ('d \<Rightarrow> 'd \<Rightarrow> bool) \<Rightarrow> ('d \<Rightarrow> krelease list) \<Rightarrow> 'd htab \<Rightarrow> ('d htab \<times> krelease list) option" where
  "rehash_steps 0 hf eqf rel g = Some (g, [])"
| "rehash_steps (Suc step) hf eqf rel g =
     (if ht_used (ht0 g) = 0 then Some (g, [])
      else do {
        (g, r) \<leftarrow> rehash_bucket hf eqf rel g;
        (g, rs) \<leftarrow> rehash_steps step hf eqf rel g;
        Some (g, r @ rs) })"

definition ht_rehash ::
    "('d \<Rightarrow> kword) \<Rightarrow> ('d \<Rightarrow> 'd \<Rightarrow> bool) \<Rightarrow> ('d \<Rightarrow> krelease list) \<Rightarrow> 'd htab \<Rightarrow> nat \<Rightarrow> ('d htab \<times> krelease list) option" where
  "ht_rehash hf eqf rel g step =
     (if \<not> is_rehashing g then Some (g, [])
      else do {
        (g, rels) \<leftarrow> rehash_steps step hf eqf rel g;
        if ht_used (ht0 g) = 0
        then Some (g\<lparr>ht0 := ht1 g, ht1 := kmath_ht_reset, rehashidx := -1\<rparr>, rels)
        else Some (g, rels) })"

text \<open>
  The size \<^verbatim>\<open>real_count * sizeof(node *)\<close> is computed in \<^verbatim>\<open>size_t\<close>; the table has as many
  pointers as fit into the block, and \<open>ok\<close> says whether the allocation succeeds, which the
  source does not look at.
\<close>

definition ht_resize :: "bool \<Rightarrow> 'd htab \<Rightarrow> ksize \<Rightarrow> (kerr \<times> 'd htab) option" where
  "ht_resize ok g count =
     (if is_rehashing g then Some (KYLIN_ERROR_BUSY, g)
      else do {
        real_count \<leftarrow> kylin_roundup_pow_of_two count;
        if real_count = ht_cap (ht0 g) then Some (KYLIN_ERROR_EXIST, g)
        else let new_ht = \<lparr>ht_table = kylin_malloc ok (unat (real_count * 8) div 8), ht_cap = real_count,
                           ht_mask = real_count - 1, ht_used = 0\<rparr> in
          if ht_table (ht0 g) = None then Some (KYLIN_ERROR_OK, g\<lparr>ht0 := new_ht\<rparr>)
          else Some (KYLIN_ERROR_OK, g\<lparr>ht1 := new_ht, rehashidx := 0\<rparr>) })"

text \<open>
  The search that finding, unlinking and replacing share: the bucket of the first table, then
  that of the second; the first two leave after the first table when nothing is being moved
  (\<open>brk\<close>). The result is the table, the bucket, the predecessor and the node.
\<close>

definition ht_search_in :: "'d hheap \<Rightarrow> kht \<Rightarrow> kword \<Rightarrow> ('d \<Rightarrow> bool option) \<Rightarrow> (nat \<times> kaddr \<times> kaddr) option option" where
  "ht_search_in H ht hash test = (case ht_table ht of
       None \<Rightarrow> Some None
     | Some t \<Rightarrow> do {
         h \<leftarrow> arr_get t (unat (hash AND ht_mask ht));
         r \<leftarrow> chain_find H test 0 h;
         Some (map_option (\<lambda>(prev, a). (unat (hash AND ht_mask ht), prev, a)) r) })"

definition ht_search :: "bool \<Rightarrow> 'd htab \<Rightarrow> kword \<Rightarrow> ('d \<Rightarrow> bool option)
    \<Rightarrow> (bool \<times> nat \<times> kaddr \<times> kaddr) option option" where
  "ht_search brk g hash test = do {
     r0 \<leftarrow> ht_search_in (hp g) (ht0 g) hash test;
     case r0 of Some x \<Rightarrow> Some (Some (False, x))
     | None \<Rightarrow>
         if ht_table (ht0 g) = None \<or> (brk \<and> \<not> is_rehashing g) then Some None
         else do {
           r1 \<leftarrow> ht_search_in (hp g) (ht1 g) hash test;
           Some (map_option (\<lambda>x. (True, x)) r1) } }"

definition ht_find :: "'d htab \<Rightarrow> kword \<Rightarrow> ('d \<Rightarrow> bool option) \<Rightarrow> kaddr option" where
  "ht_find g hash test = do {
     r \<leftarrow> ht_search True g hash test;
     Some (case r of Some (_, _, _, a) \<Rightarrow> a | None \<Rightarrow> 0) }"

definition ht_detach :: "'d hheap \<Rightarrow> kht \<Rightarrow> nat \<Rightarrow> kaddr \<Rightarrow> kaddr \<Rightarrow> ('d hheap \<times> kht) option" where
  "ht_detach H ht idx prev a = do {
     t \<leftarrow> ht_table ht;
     n \<leftarrow> hnode_get H a;
     (H, t) \<leftarrow> (if prev \<noteq> 0 then do {
         pn \<leftarrow> hnode_get H prev;
         Some (H(prev \<mapsto> pn\<lparr>hn_next := hn_next n\<rparr>), t) }
       else do { t \<leftarrow> arr_set t idx (hn_next n); Some (H, t) });
     Some (H, ht\<lparr>ht_table := Some t, ht_used := ht_used ht - 1\<rparr>) }"

definition ht_unlink ::
    "('d \<Rightarrow> kword) \<Rightarrow> ('d \<Rightarrow> 'd \<Rightarrow> bool) \<Rightarrow> ('d \<Rightarrow> krelease list) \<Rightarrow> 'd htab \<Rightarrow> kword \<Rightarrow> ('d \<Rightarrow> bool option)
       \<Rightarrow> (kaddr \<times> 'd htab \<times> krelease list) option" where
  "ht_unlink hf eqf rel g hash test = do {
     (g, rels) \<leftarrow> (if is_rehashing g then ht_rehash hf eqf rel g 1 else Some (g, []));
     r \<leftarrow> ht_search True g hash test;
     case r of None \<Rightarrow> Some (0, g, rels)
     | Some (second, idx, prev, a) \<Rightarrow> do {
         (H, t) \<leftarrow> ht_detach (hp g) (if second then ht1 g else ht0 g) idx prev a;
         Some (a, if second then g\<lparr>hp := H, ht1 := t\<rparr> else g\<lparr>hp := H, ht0 := t\<rparr>, rels) } }"

definition ht_insert_raw ::
    "('d \<Rightarrow> kword) \<Rightarrow> ('d \<Rightarrow> 'd \<Rightarrow> bool) \<Rightarrow> ('d \<Rightarrow> krelease list) \<Rightarrow> bool \<Rightarrow> 'd htab \<Rightarrow> kaddr
       \<Rightarrow> (kaddr \<times> 'd htab \<times> krelease list) option" where
  "ht_insert_raw hf eqf rel ok g node = do {
     g \<leftarrow> (if ht_need_expand g then
             map_option snd (ht_resize ok g (if ht_cap (ht0 g) = 0 then 4 else ht_used (ht0 g) * 2))
           else Some g);
     (g, rels) \<leftarrow> (if is_rehashing g then ht_rehash hf eqf rel g 1 else Some (g, []));
     let ht = (if is_rehashing g then ht1 g else ht0 g);
     case ht_table ht of None \<Rightarrow> Some (0, g, rels)
     | Some t \<Rightarrow> do {
         n \<leftarrow> hnode_get (hp g) node;
         let index = unat (hf (hn_data n) AND ht_mask ht);
         h \<leftarrow> arr_get t index;
         r \<leftarrow> chain_find (hp g) (\<lambda>d. Some (eqf (hn_data n) d)) 0 h;
         case r of Some (_, a) \<Rightarrow> Some (a, g, rels)
         | None \<Rightarrow> do {
             let g = g\<lparr>hp := (hp g)(node \<mapsto> n\<lparr>hn_next := h\<rparr>)\<rparr>;
             let ht = ht\<lparr>ht_table := Some (t[index := node]), ht_used := ht_used ht + 1\<rparr>;
             Some (node, if is_rehashing g then g\<lparr>ht1 := ht\<rparr> else g\<lparr>ht0 := ht\<rparr>, rels) } } }"

text \<open>
  Iteration. Upward the loops over a whole table count in \<^verbatim>\<open>int\<close> and compare with a \<^verbatim>\<open>size_t\<close> capacity, so that counting past
  \<open>2 ^ 31 - 1\<close> is undefined; downward they start at the capacity less one, converted to \<^verbatim>\<open>int\<close>.
\<close>

definition first_bucket :: "kaddr list \<Rightarrow> nat list \<Rightarrow> nat option option" where
  "first_bucket t is = find_loop is (\<lambda>i. do { p \<leftarrow> arr_get t i; Some (p \<noteq> 0) })"

definition first_int :: "kaddr list \<Rightarrow> nat \<Rightarrow> nat option option" where
  "first_int t cap = int_find 0 cap (\<lambda>i. do { p \<leftarrow> arr_get t i; Some (p \<noteq> 0) })"

definition last_int :: "ksize \<Rightarrow> nat" where
  "last_int cap = nat (sint (ucast (cap - 1) :: 32 word) + 1)"

definition ht_first :: "'d htab \<Rightarrow> kaddr option" where
  "ht_first g = (case ht_table (ht0 g) of None \<Rightarrow> Some 0
     | Some t \<Rightarrow> do {
         pos \<leftarrow> first_int t (unat (ht_cap (ht0 g)));
         case pos of Some i \<Rightarrow> arr_get t i | None \<Rightarrow> Some 0 })"

partial_function (option) chain_last :: "'d hheap \<Rightarrow> kaddr \<Rightarrow> kaddr option" where
  "chain_last H node = do {
     n \<leftarrow> hnode_get H node;
     if hn_next n = 0 then Some node else chain_last H (hn_next n) }"

definition ht_last_in :: "'d hheap \<Rightarrow> kaddr list \<Rightarrow> nat \<Rightarrow> kaddr option option" where
  "ht_last_in H t n = do {
     pos \<leftarrow> first_bucket t (rev [0..<n]);
     case pos of Some i \<Rightarrow> do { h \<leftarrow> arr_get t i; a \<leftarrow> chain_last H h; Some (Some a) } | None \<Rightarrow> Some None }"

definition ht_last :: "'d htab \<Rightarrow> kaddr option" where
  "ht_last g = (let ht = (if is_rehashing g then ht1 g else ht0 g) in
     case ht_table ht of None \<Rightarrow> Some 0
     | Some t \<Rightarrow> do {
         r \<leftarrow> ht_last_in (hp g) t (last_int (ht_cap ht));
         Some (case r of Some a \<Rightarrow> a | None \<Rightarrow> 0) })"

text \<open>
  The walk of next: at an equal node the scan of the following buckets starts from the current
  index, and goes on with the second table behind the first. \<open>Some None\<close> says that the walk came
  to the end of the chain without returning.
\<close>

partial_function (option) next_walk ::
    "'d htab \<Rightarrow> ('d \<Rightarrow> bool) \<Rightarrow> bool \<Rightarrow> kaddr list \<Rightarrow> nat \<Rightarrow> nat \<Rightarrow> kaddr \<Rightarrow> kaddr option option" where
  "next_walk g eqn second t cap index cmp =
     (if cmp = 0 then Some None
      else do {
        c \<leftarrow> hnode_get (hp g) cmp;
        if eqn (hn_data c) then do {
          pos \<leftarrow> first_bucket t [index + 1..<cap];
          let index = (case pos of Some j \<Rightarrow> j | None \<Rightarrow> max (index + 1) cap);
          if index = cap then
            if second then Some (Some 0)
            else (case ht_table (ht1 g) of None \<Rightarrow> Some (Some 0)
              | Some t1 \<Rightarrow> do {
                  pos1 \<leftarrow> first_int t1 (unat (ht_cap (ht1 g)));
                  case pos1 of Some j \<Rightarrow> do { p \<leftarrow> arr_get t1 j; Some (Some p) }
                  | None \<Rightarrow> next_walk g eqn second t cap index (hn_next c) })
          else do { p \<leftarrow> arr_get t index; Some (Some p) }
        } else next_walk g eqn second t cap index (hn_next c) })"

definition next_in :: "'d htab \<Rightarrow> ('d \<Rightarrow> bool) \<Rightarrow> bool \<Rightarrow> kht \<Rightarrow> kword \<Rightarrow> kaddr option option" where
  "next_in g eqn second ht hash = (case ht_table ht of None \<Rightarrow> Some None
     | Some t \<Rightarrow> do {
         h \<leftarrow> arr_get t (unat (hash AND ht_mask ht));
         next_walk g eqn second t (unat (ht_cap ht)) (unat (hash AND ht_mask ht)) h })"

definition ht_next :: "('d \<Rightarrow> kword) \<Rightarrow> ('d \<Rightarrow> 'd \<Rightarrow> bool) \<Rightarrow> 'd htab \<Rightarrow> kaddr \<Rightarrow> kaddr option" where
  "ht_next hf eqf g node = do {
     n \<leftarrow> hnode_get (hp g) node;
     if hn_next n \<noteq> 0 then Some (hn_next n)
     else do {
       r0 \<leftarrow> next_in g (eqf (hn_data n)) False (ht0 g) (hf (hn_data n));
       case r0 of Some p \<Rightarrow> Some p
       | None \<Rightarrow>
           if ht_table (ht0 g) = None then Some 0
           else do {
             r1 \<leftarrow> next_in g (eqf (hn_data n)) True (ht1 g) (hf (hn_data n));
             Some (case r1 of Some p \<Rightarrow> p | None \<Rightarrow> 0) } } }"

partial_function (option) prev_walk ::
    "'d htab \<Rightarrow> ('d \<Rightarrow> bool) \<Rightarrow> bool \<Rightarrow> kaddr list \<Rightarrow> nat \<Rightarrow> kaddr \<Rightarrow> kaddr \<Rightarrow> kaddr option option" where
  "prev_walk g eqn second t index prev cmp =
     (if cmp = 0 then Some None
      else do {
        c \<leftarrow> hnode_get (hp g) cmp;
        if eqn (hn_data c) then
          if prev \<noteq> 0 then Some (Some prev)
          else do {
            r \<leftarrow> ht_last_in (hp g) t index;
            case r of Some a \<Rightarrow> Some (Some a)
            | None \<Rightarrow>
                if \<not> second then Some (Some 0)
                else (case ht_table (ht0 g) of None \<Rightarrow> Some (Some 0)
                  | Some t0 \<Rightarrow> do {
                      r0 \<leftarrow> ht_last_in (hp g) t0 (last_int (ht_cap (ht0 g)));
                      case r0 of Some a \<Rightarrow> Some (Some a)
                      | None \<Rightarrow> prev_walk g eqn second t index cmp (hn_next c) }) }
        else prev_walk g eqn second t index cmp (hn_next c) })"

definition prev_in :: "'d htab \<Rightarrow> ('d \<Rightarrow> bool) \<Rightarrow> bool \<Rightarrow> kht \<Rightarrow> kword \<Rightarrow> kaddr option option" where
  "prev_in g eqn second ht hash = (case ht_table ht of None \<Rightarrow> Some None
     | Some t \<Rightarrow> do {
         h \<leftarrow> arr_get t (unat (hash AND ht_mask ht));
         prev_walk g eqn second t (unat (hash AND ht_mask ht)) 0 h })"

definition ht_prev :: "('d \<Rightarrow> kword) \<Rightarrow> ('d \<Rightarrow> 'd \<Rightarrow> bool) \<Rightarrow> 'd htab \<Rightarrow> kaddr \<Rightarrow> kaddr option" where
  "ht_prev hf eqf g node = do {
     n \<leftarrow> hnode_get (hp g) node;
     r0 \<leftarrow> prev_in g (eqf (hn_data n)) False (ht0 g) (hf (hn_data n));
     case r0 of Some p \<Rightarrow> Some p
     | None \<Rightarrow>
         if ht_table (ht0 g) = None then Some 0
         else do {
           r1 \<leftarrow> prev_in g (eqf (hn_data n)) True (ht1 g) (hf (hn_data n));
           Some (case r1 of Some p \<Rightarrow> p | None \<Rightarrow> 0) } }"

text \<open>The walks are executable by their unfolding equations.\<close>

declare chain_find.simps [code]
declare chain_free.simps [code]
declare chain_move.simps [code]
declare chain_last.simps [code]
declare next_walk.simps [code]
declare prev_walk.simps [code]

end
