(* ===== verification/Kylin_Hashtable_Rep.thy ===== *)
theory Kylin_Hashtable_Rep
  imports Kylin_Hashtable
begin

section \<open>What a hash table represents\<close>

text \<open>
  The representation of a set of nodes by the two arrays of chains, and what every operation of
  \<^verbatim>\<open>Kylin_Hashtable\<close> does to it: the chains of the heap, the buckets of a table, the
  incremental move, search, growth, insertion and removal. \<open>ht_rep hf eqf g M\<close> says that the
  tables \<open>g\<close> hold exactly the nodes of the map \<open>M\<close>, each in the bucket of its hash, with
  pairwise different keys.
\<close>

subsection \<open>Chains\<close>

text \<open>\<open>chain H p as\<close>: following the next pointers from \<open>p\<close> visits the addresses \<open>as\<close> and ends at null.\<close>

fun chain :: "'d hheap \<Rightarrow> kaddr \<Rightarrow> kaddr list \<Rightarrow> bool" where
  "chain H p [] \<longleftrightarrow> p = 0"
| "chain H p (a # as) \<longleftrightarrow> p = a \<and> a \<noteq> 0 \<and> (\<exists>n. H a = Some n \<and> chain H (hn_next n) as)"

definition hdata :: "'d hheap \<Rightarrow> kaddr \<Rightarrow> 'd" where
  "hdata H a = hn_data (the (H a))"

lemma chain_frame: "(\<And>a. a \<in> set as \<Longrightarrow> H' a = H a) \<Longrightarrow> chain H' p as = chain H p as"
  by (induction as arbitrary: p) auto

lemma chain_upd [simp]: "a \<notin> set as \<Longrightarrow> chain (H(a := v)) p as = chain H p as"
  by (rule chain_frame) auto

lemma chain_nonzero: "chain H p as \<Longrightarrow> 0 \<notin> set as"
  by (induction as arbitrary: p) auto

lemma chain_heap: "chain H p as \<Longrightarrow> a \<in> set as \<Longrightarrow> \<exists>n. H a = Some n"
  by (induction as arbitrary: p) auto

lemma chain_head: "chain H p as \<Longrightarrow> p = (case as of [] \<Rightarrow> 0 | a # _ \<Rightarrow> a)"
  by (cases as) auto

lemma chain_null: "chain H p as \<Longrightarrow> p = 0 \<longleftrightarrow> as = []"
  by (cases as) auto

lemma chain_find_none:
  assumes "chain H p as" "\<And>a. a \<in> set as \<Longrightarrow> test (hdata H a) = Some False"
  shows "chain_find H test prev p = Some None"
  using assms
proof (induction as arbitrary: p prev)
  case Nil
  then show ?case by (simp add: chain_find.simps [of H test prev])
next
  case (Cons a as)
  then obtain n where n: "p = a" "a \<noteq> 0" "H a = Some n" "chain H (hn_next n) as" by auto
  moreover have "test (hn_data n) = Some False" using Cons.prems(2) [of a] n by (simp add: hdata_def)
  moreover have "chain_find H test a (hn_next n) = Some None" using Cons n by auto
  ultimately show ?case by (subst chain_find.simps) (simp add: hnode_get_def)
qed

lemma chain_find_some:
  assumes "chain H p (as @ x # bs)" "\<And>a. a \<in> set as \<Longrightarrow> test (hdata H a) = Some False"
    and "test (hdata H x) = Some True"
  shows "chain_find H test prev p = Some (Some (last (prev # as), x))"
  using assms
proof (induction as arbitrary: p prev)
  case Nil
  then obtain n where "p = x" "x \<noteq> 0" "H x = Some n" by auto
  with Nil show ?case by (subst chain_find.simps) (simp add: hnode_get_def hdata_def)
next
  case (Cons a as)
  then obtain n where n: "p = a" "a \<noteq> 0" "H a = Some n" "chain H (hn_next n) (as @ x # bs)" by auto
  moreover have "test (hn_data n) = Some False" using Cons.prems(2) [of a] n by (simp add: hdata_def)
  moreover have "chain_find H test a (hn_next n) = Some (Some (last (a # as), x))"
    using Cons n by auto
  ultimately show ?case by (subst chain_find.simps) (simp add: hnode_get_def)
qed

text \<open>A search whose test answers for every node of the chain.\<close>

lemma chain_find_total:
  assumes "chain H p as" "\<And>a. a \<in> set as \<Longrightarrow> test (hdata H a) = Some (P a)"
  shows "chain_find H test prev p = Some (map_option
     (\<lambda>x. (last (prev # takeWhile (\<lambda>a. \<not> P a) as), x)) (find P as))"
proof (cases "find P as")
  case None
  then show ?thesis using assms chain_find_none [of H p as test prev] by (auto simp: find_None_iff)
next
  case (Some x)
  then obtain us vs where uv: "as = us @ x # vs" "P x" "\<And>u. u \<in> set us \<Longrightarrow> \<not> P u"
  proof -
    obtain i where "i < length as" "P (as ! i)" "x = as ! i" "\<forall>j<i. \<not> P (as ! j)"
      using Some by (auto simp: find_Some_iff)
    then have "as = take i as @ x # drop (Suc i) as" "\<And>u. u \<in> set (take i as) \<Longrightarrow> \<not> P u"
      by (auto simp: id_take_nth_drop in_set_conv_nth)
    then show ?thesis using that \<open>P (as ! i)\<close> \<open>x = as ! i\<close> by blast
  qed
  then have "takeWhile (\<lambda>a. \<not> P a) as = us" by (simp add: takeWhile_append2)
  moreover have "chain_find H test prev p = Some (Some (last (prev # us), x))"
    using assms uv by (intro chain_find_some [where bs = vs]) auto
  ultimately show ?thesis using Some by simp
qed

lemma chain_splice:
  assumes "chain H p (as @ x # bs)" "distinct (as @ x # bs)" "H x = Some n"
  shows "if as = [] then chain H (hn_next n) bs
    else \<exists>pn. H (last as) = Some pn \<and> chain (H(last as \<mapsto> pn\<lparr>hn_next := hn_next n\<rparr>)) p (as @ bs)"
  using assms
proof (induction as arbitrary: p)
  case Nil
  then show ?case by simp
next
  case (Cons a as)
  then obtain m where m: "p = a" "a \<noteq> 0" "H a = Some m" "chain H (hn_next m) (as @ x # bs)" by auto
  show ?case
  proof (cases "as = []")
    case True
    then show ?thesis using m Cons.prems by auto
  next
    case False
    with Cons.IH [OF m(4)] Cons.prems obtain pn where
      "H (last as) = Some pn" "chain (H(last as \<mapsto> pn\<lparr>hn_next := hn_next n\<rparr>)) (hn_next m) (as @ bs)"
      by auto
    moreover have "a \<noteq> last as" using False Cons.prems by auto
    ultimately show ?thesis using m False by auto
  qed
qed

subsection \<open>Tables\<close>

text \<open>
  \<open>table_rep H ht bs\<close>: the table holds the chains \<open>bs\<close>, one per bucket, in an array whose size is
  a power of two; without buckets it is the table after a reset.
\<close>

definition table_rep :: "'d hheap \<Rightarrow> kht \<Rightarrow> kaddr list list \<Rightarrow> bool" where
  "table_rep H ht bs \<longleftrightarrow>
     (if bs = [] then ht = kmath_ht_reset
      else \<exists>t k. ht_table ht = Some t \<and> length t = 2 ^ k \<and> k < 61 \<and> length bs = 2 ^ k
        \<and> ht_cap ht = 2 ^ k \<and> ht_mask ht = mask k \<and> ht_used ht = of_nat (length (concat bs))
        \<and> (\<forall>i < 2 ^ k. chain H (t ! i) (bs ! i)))"

definition placed :: "('d \<Rightarrow> kword) \<Rightarrow> 'd hheap \<Rightarrow> kaddr list list \<Rightarrow> bool" where
  "placed hf H bs \<longleftrightarrow> (\<forall>i < length bs. \<forall>a \<in> set (bs ! i). unat (hf (hdata H a)) mod length bs = i)"

text \<open>The laws the user's hash and comparison owe each other, as far as the tables need them.\<close>

definition keys_ok :: "('d \<Rightarrow> kword) \<Rightarrow> ('d \<Rightarrow> 'd \<Rightarrow> bool) \<Rightarrow> bool" where
  "keys_ok hf eqf \<longleftrightarrow> equivp eqf \<and> (\<forall>x y. eqf x y \<longrightarrow> hf x = hf y)"

definition tabs_rep :: "('d \<Rightarrow> kword) \<Rightarrow> ('d \<Rightarrow> 'd \<Rightarrow> bool) \<Rightarrow> 'd htab \<Rightarrow> kaddr list list \<Rightarrow> kaddr list list \<Rightarrow> bool" where
  "tabs_rep hf eqf g bs0 bs1 \<longleftrightarrow>
     table_rep (hp g) (ht0 g) bs0 \<and> table_rep (hp g) (ht1 g) bs1
     \<and> distinct (concat bs0 @ concat bs1) \<and> length (concat bs0 @ concat bs1) < 2 ^ 32
     \<and> placed hf (hp g) bs0 \<and> placed hf (hp g) bs1
     \<and> pairwise (\<lambda>a b. \<not> eqf (hdata (hp g) a) (hdata (hp g) b)) (set (concat bs0 @ concat bs1))
     \<and> (if is_rehashing g then bs0 \<noteq> [] \<and> bs1 \<noteq> [] \<and> length bs0 < 2 ^ 31 \<and> 0 \<le> rehashidx g
           \<and> (\<forall>i < length bs0. int i < rehashidx g \<longrightarrow> bs0 ! i = [])
        else bs1 = [])"

text \<open>What a table means: the nodes it holds, with their data.\<close>

definition held :: "'d hheap \<Rightarrow> kaddr set \<Rightarrow> (kaddr \<rightharpoonup> 'd)" where
  "held H S = (\<lambda>a. if a \<in> S then Some (hdata H a) else None)"

definition ht_rep :: "('d \<Rightarrow> kword) \<Rightarrow> ('d \<Rightarrow> 'd \<Rightarrow> bool) \<Rightarrow> 'd htab \<Rightarrow> (kaddr \<rightharpoonup> 'd) \<Rightarrow> bool" where
  "ht_rep hf eqf g M \<longleftrightarrow> (\<exists>bs0 bs1. tabs_rep hf eqf g bs0 bs1
     \<and> M = held (hp g) (set (concat bs0 @ concat bs1)))"

lemma dom_held [simp]: "dom (held H S) = S"
  by (auto simp: held_def split: if_splits)

lemma held_Some: "held H S a = Some d \<longleftrightarrow> a \<in> S \<and> d = hdata H a"
  by (auto simp: held_def)

lemma held_None: "held H S a = None \<longleftrightarrow> a \<notin> S"
  by (simp add: held_def)

lemma table_rep_Nil [simp]: "table_rep H ht [] \<longleftrightarrow> ht = kmath_ht_reset"
  by (simp add: table_rep_def)

lemma in_concat_nth: "a \<in> set (concat bs) \<longleftrightarrow> (\<exists>j < length bs. a \<in> set (bs ! j))"
  by (metis in_set_conv_nth set_concat UN_iff)

lemma table_rep_frame:
  assumes "table_rep H ht bs" "\<And>a. a \<in> set (concat bs) \<Longrightarrow> H' a = H a"
  shows "table_rep H' ht bs"
proof -
  have "chain H' (t ! i) (bs ! i) = chain H (t ! i) (bs ! i)" if "i < length bs" for t i
    using assms(2) that by (intro chain_frame) (meson in_concat_nth)
  with assms(1) show ?thesis by (auto simp: table_rep_def)
qed

lemma bucket_index:
  fixes h :: kword
  assumes "k < 64"
  shows "unat (h AND mask k) = unat h mod 2 ^ k"
  by (rule unat_and_mask_eq_mod)

lemma table_rep_search:
  assumes "table_rep H ht bs" "bs \<noteq> []" "placed hf H bs"
    and P: "\<And>a. a \<in> set (concat bs) \<Longrightarrow> test (hdata H a) = Some (P a)"
    and hash: "\<And>a. a \<in> set (concat bs) \<Longrightarrow> P a \<Longrightarrow> hf (hdata H a) = hash"
  defines "i \<equiv> unat hash mod length bs"
  shows "ht_search_in H ht hash test = Some (map_option
     (\<lambda>x. (i, last (0 # takeWhile (\<lambda>a. \<not> P a) (bs ! i)), x)) (find P (bs ! i)))"
    "find P (bs ! i) = None \<longleftrightarrow> \<not> (\<exists>a \<in> set (concat bs). P a)"
proof -
  obtain t k where t: "ht_table ht = Some t" "length t = 2 ^ k" "k < 61" "length bs = 2 ^ k"
      "ht_mask ht = mask k" "\<forall>i < 2 ^ k. chain H (t ! i) (bs ! i)"
    using assms(1,2) by (auto simp: table_rep_def)
  have i: "i < 2 ^ k" "unat (hash AND mask k) = i"
    using t bucket_index [of k hash] by (auto simp: i_def)
  have "chain_find H test 0 (t ! i) = Some (map_option
     (\<lambda>x. (last (0 # takeWhile (\<lambda>a. \<not> P a) (bs ! i)), x)) (find P (bs ! i)))"
    using t i by (intro chain_find_total P) (auto simp: nth_mem)
  then show "ht_search_in H ht hash test = Some (map_option
     (\<lambda>x. (i, last (0 # takeWhile (\<lambda>a. \<not> P a) (bs ! i)), x)) (find P (bs ! i)))"
    using t i by (cases "find P (bs ! i)") (simp_all add: ht_search_in_def)
  have "a \<in> set (bs ! i)" if ca: "a \<in> set (concat bs)" "P a" for a
  proof -
    obtain j where j: "j < length bs" "a \<in> set (bs ! j)"
      using ca(1) unfolding in_concat_nth by blast
    then have "unat (hf (hdata H a)) mod length bs = j" using assms(3) by (simp add: placed_def)
    then have "j = i" using hash [OF ca] by (simp add: i_def)
    with j show ?thesis by simp
  qed
  moreover have "set (bs ! i) \<subseteq> set (concat bs)"
    using t(4) i(1) unfolding subset_iff in_concat_nth by metis
  ultimately show "find P (bs ! i) = None \<longleftrightarrow> \<not> (\<exists>a \<in> set (concat bs). P a)"
    by (auto simp: find_None_iff)
qed

subsection \<open>Adding a node to a bucket\<close>

definition same_data :: "'d hheap \<Rightarrow> 'd hheap \<Rightarrow> bool" where
  "same_data H H' \<longleftrightarrow> (\<forall>a. map_option hn_data (H' a) = map_option hn_data (H a))"

lemma same_data_hdata: "same_data H H' \<Longrightarrow> hdata H' a = hdata H a"
  unfolding same_data_def hdata_def
  by (drule spec [of _ a]) (cases "H a"; cases "H' a"; simp)

lemma same_data_trans: "same_data H H' \<Longrightarrow> same_data H' H'' \<Longrightarrow> same_data H H''"
  by (simp add: same_data_def)

lemma same_data_next: "H a = Some n \<Longrightarrow> same_data H (H(a \<mapsto> n\<lparr>hn_next := p\<rparr>))"
  by (simp add: same_data_def)

lemma placed_same: "same_data H H' \<Longrightarrow> placed hf H' bs = placed hf H bs"
  by (simp add: placed_def same_data_hdata)

lemma bucket_split:
  assumes "i < length bs"
  obtains us v ws where "bs ! i = v" "bs = us @ v # ws" "\<And>xs. bs[i := xs] = us @ xs # ws"
  using assms that [of "bs ! i" "take i bs" "drop (Suc i) bs"]
  by (simp add: id_take_nth_drop upd_conv_take_nth_drop)

lemma concat_push:
  assumes "i < length bs" "a \<notin> set (concat bs)" "distinct (concat bs)"
  shows "set (concat (bs[i := a # bs ! i])) = insert a (set (concat bs))"
    "distinct (concat (bs[i := a # bs ! i]))"
    "length (concat (bs[i := a # bs ! i])) = Suc (length (concat bs))"
proof -
  obtain us v ws where v: "bs ! i = v" and bs: "bs = us @ v # ws"
    and up: "\<And>xs. bs[i := xs] = us @ xs # ws"
    using bucket_split [OF assms(1)] by metis
  show "set (concat (bs[i := a # bs ! i])) = insert a (set (concat bs))"
    "length (concat (bs[i := a # bs ! i])) = Suc (length (concat bs))"
    "distinct (concat (bs[i := a # bs ! i]))"
    using assms(2,3) unfolding up v unfolding bs by auto
qed

lemma table_rep_push:
  assumes rep: "table_rep H ht bs" "bs \<noteq> []" "placed hf H bs" "distinct (concat bs)"
    and a: "a \<notin> set (concat bs)" "a \<noteq> 0" "H a = Some n"
    and t: "ht_table ht = Some t"
  defines "i \<equiv> unat (hf (hn_data n) AND ht_mask ht)"
  defines "H' \<equiv> H(a \<mapsto> n\<lparr>hn_next := t ! i\<rparr>)"
  defines "ht' \<equiv> ht\<lparr>ht_table := Some (t[i := a]), ht_used := ht_used ht + 1\<rparr>"
  shows "i < length t" "i = unat (hf (hn_data n)) mod length bs" "i < length bs"
    "table_rep H' ht' (bs[i := a # bs ! i])" "placed hf H' (bs[i := a # bs ! i])"
    "chain H (t ! i) (bs ! i)"
proof -
  obtain k where k: "length t = 2 ^ k" "k < 61" "length bs = 2 ^ k" "ht_cap ht = 2 ^ k"
      "ht_mask ht = mask k" "ht_used ht = of_nat (length (concat bs))"
      "\<forall>i < 2 ^ k. chain H (t ! i) (bs ! i)"
    using rep t by (auto simp: table_rep_def)
  show i: "i = unat (hf (hn_data n)) mod length bs"
    using k bucket_index [of k "hf (hn_data n)"] by (simp add: i_def)
  then have il: "i < 2 ^ k" using k by simp
  then show "i < length t" "i < length bs" "chain H (t ! i) (bs ! i)" using k by simp_all
  have na: "a \<notin> set (bs ! j)" if "j < 2 ^ k" for j
    using a(1) that k(3) by (metis in_concat_nth)
  have len: "length (concat (bs[i := a # bs ! i])) = Suc (length (concat bs))"
    using concat_push(3) [of i bs a] a(1) rep(4) il k by simp
  have ch: "chain H' (t[i := a] ! j) (bs[i := a # bs ! i] ! j)" if "j < 2 ^ k" for j
    using that k il a na [OF that] na [OF il] by (cases "j = i") (auto simp: H'_def)
  show "table_rep H' ht' (bs[i := a # bs ! i])"
    unfolding table_rep_def ht'_def using k rep(2) ch len by auto
  have sd: "same_data H H'" using a by (simp add: H'_def same_data_def)
  have "placed hf H (bs[i := a # bs ! i])"
    using rep(3) il k i a by (auto simp: placed_def nth_list_update hdata_def)
  then show "placed hf H' (bs[i := a # bs ! i])" using placed_same [OF sd] by blast
qed

lemma equivp_image:
  assumes "equivp R"
  shows "equivp (\<lambda>x y. R (f x) (f y))"
proof (rule equivpI)
  show "reflp (\<lambda>x y. R (f x) (f y))" using equivp_reflp [OF assms] by (intro reflpI)
  show "symp (\<lambda>x y. R (f x) (f y))" using equivp_symp [OF assms] by (intro sympI)
  show "transp (\<lambda>x y. R (f x) (f y))" using equivp_transp [OF assms] by (intro transpI) metis
qed

lemma keys_ok_hash: "keys_ok hf eqf \<Longrightarrow> eqf x y \<Longrightarrow> hf x = hf y"
  by (simp add: keys_ok_def)

lemma keys_ok_sym: "keys_ok hf eqf \<Longrightarrow> eqf x y = eqf y x"
  by (metis keys_ok_def equivp_symp)

text \<open>The search of the moving node in its new bucket finds nothing, since keys are unique.\<close>

lemma chain_move_one:
  assumes rep: "table_rep (hp g) (ht1 g) bs" "bs \<noteq> []" "placed hf (hp g) bs" "distinct (concat bs)"
    and a: "a \<notin> set (concat bs)" "a \<noteq> 0" "hp g a = Some n"
    and uniq: "\<And>b. b \<in> set (concat bs) \<Longrightarrow> \<not> eqf (hn_data n) (hdata (hp g) b)"
  shows "\<exists>t i. ht_table (ht1 g) = Some t \<and> i = unat (hf (hn_data n) AND ht_mask (ht1 g)) \<and> i < length t
    \<and> chain_move hf eqf rel rels g a = chain_move hf eqf rel rels
       (g\<lparr>hp := (hp g)(a \<mapsto> n\<lparr>hn_next := t ! i\<rparr>),
          ht0 := (ht0 g)\<lparr>ht_used := ht_used (ht0 g) - 1\<rparr>,
          ht1 := (ht1 g)\<lparr>ht_table := Some (t[i := a]), ht_used := ht_used (ht1 g) + 1\<rparr>\<rparr>) (hn_next n)"
proof -
  obtain t where t: "ht_table (ht1 g) = Some t" using rep by (auto simp: table_rep_def)
  note push = table_rep_push [OF rep a t]
  have f: "chain_find (hp g) (\<lambda>d. Some (eqf (hn_data n) d)) 0 (t ! unat (hf (hn_data n) AND ht_mask (ht1 g)))
      = Some None"
    using uniq push(3) unfolding in_concat_nth by (intro chain_find_none [OF push(6)]) blast
  show ?thesis
    using t push(1) a f
    by (subst chain_move.simps) (simp add: hnode_get_def Let_def)
qed

lemma chain_move_spec:
  assumes "chain (hp g) p as" "table_rep (hp g) (ht1 g) bs" "bs \<noteq> []" "placed hf (hp g) bs"
    and "distinct (as @ concat bs)" "keys_ok hf eqf"
    and "pairwise (\<lambda>a b. \<not> eqf (hdata (hp g) a) (hdata (hp g) b)) (set (as @ concat bs))"
  shows "\<exists>H' t' bs'. chain_move hf eqf rel rels g p =
      Some (g\<lparr>hp := H', ht0 := (ht0 g)\<lparr>ht_used := ht_used (ht0 g) - of_nat (length as)\<rparr>, ht1 := t'\<rparr>, rels)
    \<and> table_rep H' t' bs' \<and> bs' \<noteq> [] \<and> placed hf H' bs' \<and> distinct (concat bs')
    \<and> set (concat bs') = set as \<union> set (concat bs)
    \<and> same_data (hp g) H' \<and> (\<forall>a. a \<notin> set as \<longrightarrow> H' a = hp g a)"
  using assms
proof (induction as arbitrary: p g bs)
  case Nil
  then have "chain_move hf eqf rel rels g p = Some (g, rels)" by (subst chain_move.simps) simp
  with Nil show ?case by (intro exI [of _ "hp g"] exI [of _ "ht1 g"] exI [of _ bs]) (simp add: same_data_def)
next
  case (Cons a as)
  from Cons.prems(1) obtain n where a: "p = a" "a \<noteq> 0" "hp g a = Some n" "chain (hp g) (hn_next n) as" by auto
  have na: "a \<notin> set as" "a \<notin> set (concat bs)" "distinct (concat bs)" "distinct as"
    using Cons.prems(5) by auto
  have nd: "hn_data n = hdata (hp g) a" using a by (simp add: hdata_def)
  have uq: "\<not> eqf (hn_data n) (hdata (hp g) b)" if "b \<in> set (concat bs)" for b
    using Cons.prems(7) that na(2) unfolding nd pairwise_def by auto
  obtain t i where t: "ht_table (ht1 g) = Some t" "i = unat (hf (hn_data n) AND ht_mask (ht1 g))"
      "i < length t" and step: "chain_move hf eqf rel rels g a = chain_move hf eqf rel rels
       (g\<lparr>hp := (hp g)(a \<mapsto> n\<lparr>hn_next := t ! i\<rparr>),
          ht0 := (ht0 g)\<lparr>ht_used := ht_used (ht0 g) - 1\<rparr>,
          ht1 := (ht1 g)\<lparr>ht_table := Some (t[i := a]), ht_used := ht_used (ht1 g) + 1\<rparr>\<rparr>) (hn_next n)"
    using chain_move_one [where eqf = eqf, OF Cons.prems(2-4) na(3,2) a(2,3)] uq by blast
  let ?g = "g\<lparr>hp := (hp g)(a \<mapsto> n\<lparr>hn_next := t ! i\<rparr>),
          ht0 := (ht0 g)\<lparr>ht_used := ht_used (ht0 g) - 1\<rparr>,
          ht1 := (ht1 g)\<lparr>ht_table := Some (t[i := a]), ht_used := ht_used (ht1 g) + 1\<rparr>\<rparr>"
  let ?bs = "bs[i := a # bs ! i]"
  note push = table_rep_push [OF Cons.prems(2-4) na(3,2) a(2,3) t(1), folded t(2)]
  note cp = concat_push [OF push(3) na(2,3)]
  have sd: "same_data (hp g) (hp ?g)" using a by (simp add: same_data_def)
  have dst: "distinct (as @ concat ?bs)"
    using Cons.prems(5) na cp(1,2) by auto
  have pw: "pairwise (\<lambda>a b. \<not> eqf (hdata (hp ?g) a) (hdata (hp ?g) b)) (set (as @ concat ?bs))"
    using Cons.prems(7) cp(1) same_data_hdata [OF sd]
    by (simp add: Un_insert_right insert_commute)
  have ch: "chain (hp ?g) (hn_next n) as" using a(4) na(1) by simp
  have ne: "?bs \<noteq> []" using Cons.prems(3) by simp
  have rep1: "table_rep (hp ?g) (ht1 ?g) ?bs" using push(4) by simp
  have pl1: "placed hf (hp ?g) ?bs" using push(5) by simp
  have "\<exists>H' t' bs'. chain_move hf eqf rel rels ?g (hn_next n) =
      Some (?g\<lparr>hp := H', ht0 := (ht0 ?g)\<lparr>ht_used := ht_used (ht0 ?g) - of_nat (length as)\<rparr>, ht1 := t'\<rparr>, rels)
    \<and> table_rep H' t' bs' \<and> bs' \<noteq> [] \<and> placed hf H' bs' \<and> distinct (concat bs')
    \<and> set (concat bs') = set as \<union> set (concat ?bs)
    \<and> same_data (hp ?g) H' \<and> (\<forall>a. a \<notin> set as \<longrightarrow> H' a = hp ?g a)"
    by (rule Cons.IH [OF ch rep1 ne pl1 dst Cons.prems(6) pw])
  then obtain H' t' bs' where IH: "chain_move hf eqf rel rels ?g (hn_next n) =
      Some (?g\<lparr>hp := H', ht0 := (ht0 ?g)\<lparr>ht_used := ht_used (ht0 ?g) - of_nat (length as)\<rparr>, ht1 := t'\<rparr>, rels)"
    "table_rep H' t' bs'" "bs' \<noteq> []" "placed hf H' bs'" "distinct (concat bs')"
    "set (concat bs') = set as \<union> set (concat ?bs)"
    "same_data (hp ?g) H'" "\<forall>a. a \<notin> set as \<longrightarrow> H' a = hp ?g a" by blast
  have "set (concat bs') = set (a # as) \<union> set (concat bs)" using IH(6) cp(1) by auto
  moreover have "same_data (hp g) H'" using same_data_trans [OF sd IH(7)] .
  moreover have "\<forall>b. b \<notin> set (a # as) \<longrightarrow> H' b = hp g b" using IH(8) by simp
  moreover have "chain_move hf eqf rel rels g p =
    Some (g\<lparr>hp := H', ht0 := (ht0 g)\<lparr>ht_used := ht_used (ht0 g) - of_nat (length (a # as))\<rparr>, ht1 := t'\<rparr>, rels)"
    unfolding a(1) step IH(1) by (simp add: algebra_simps)
  ultimately show ?case using IH(2-5) by blast
qed

subsection \<open>The incremental move\<close>

lemma kht_upd_commute: "ht\<lparr>ht_used := u, ht_table := t\<rparr> = ht\<lparr>ht_table := t, ht_used := u\<rparr>"
  by simp

lemma concat_replace:
  assumes "i < length bs" "distinct (concat bs)" "distinct ys" "set ys \<subseteq> set (bs ! i)"
  shows "set (concat (bs[i := ys])) = set (concat bs) - (set (bs ! i) - set ys)"
    "distinct (concat (bs[i := ys]))"
    "length (concat (bs[i := ys])) + length (bs ! i) = length (concat bs) + length ys"
proof -
  obtain us v ws where v: "bs ! i = v" and bs: "bs = us @ v # ws"
    and up: "\<And>xs. bs[i := xs] = us @ xs # ws"
    using bucket_split [OF assms(1)] by metis
  show "set (concat (bs[i := ys])) = set (concat bs) - (set (bs ! i) - set ys)"
    using assms(2,4) unfolding up v unfolding bs by auto
  show "distinct (concat (bs[i := ys]))"
    using assms(2-4) unfolding up v unfolding bs by auto
  show "length (concat (bs[i := ys])) + length (bs ! i) = length (concat bs) + length ys"
    unfolding up v unfolding bs by simp
qed

lemma bucket_disjoint:
  assumes "distinct (concat bs)" "i < length bs" "j < length bs" "i \<noteq> j" "a \<in> set (bs ! i)"
  shows "a \<notin> set (bs ! j)"
proof -
  obtain us v ws where v: "bs ! i = v" and bs: "bs = us @ v # ws"
    and up: "\<And>xs. bs[i := xs] = us @ xs # ws"
    using bucket_split [OF assms(2)] by metis
  have "bs ! j = (us @ [] # ws) ! j" using assms(4) by (metis nth_list_update_neq up)
  moreover have "j < length (us @ [] # ws)" using assms(3) by (metis length_list_update up)
  ultimately have "set (bs ! j) \<subseteq> set (concat (us @ [] # ws))" by (metis in_concat_nth subsetI)
  moreover have "set v \<inter> set (concat (us @ [] # ws)) = {}" using assms(1) unfolding bs by auto
  ultimately show ?thesis using assms(5) v by auto
qed

lemma find_upt_Some:
  assumes "find P [m..<n] = Some i"
  shows "m \<le> i" "i < n" "P i" "\<And>j. m \<le> j \<Longrightarrow> j < i \<Longrightarrow> \<not> P j"
proof -
  obtain k where k: "k < n - m" "P (m + k)" "i = m + k" "\<forall>j<k. \<not> P ([m..<n] ! j)"
    using assms by (auto simp: find_Some_iff)
  then show "m \<le> i" "i < n" "P i" by auto
  show "\<not> P j" if "m \<le> j" "j < i" for j
    using k(4) [rule_format, of "j - m"] that k(1,3) by (simp add: nth_upt)
qed

text \<open>Replacing the chain of one bucket, with the count adjusted.\<close>

lemma table_rep_replace:
  assumes rep: "table_rep H ht bs" "bs \<noteq> []" "distinct (concat bs)" "ht_table ht = Some t"
    and i: "i < length bs" "distinct ys" "set ys \<subseteq> set (bs ! i)"
    and H': "\<And>a. a \<in> set (concat bs) \<Longrightarrow> a \<notin> set (bs ! i) \<Longrightarrow> H' a = H a" "chain H' p ys"
  shows "table_rep H' (ht\<lparr>ht_table := Some (t[i := p]),
      ht_used := ht_used ht - of_nat (length (bs ! i) - length ys)\<rparr>) (bs[i := ys])"
proof -
  obtain k where k: "length t = 2 ^ k" "k < 61" "length bs = 2 ^ k" "ht_cap ht = 2 ^ k"
      "ht_mask ht = mask k" "ht_used ht = of_nat (length (concat bs))"
      "\<forall>i < 2 ^ k. chain H (t ! i) (bs ! i)"
    using rep by (auto simp: table_rep_def)
  have "chain H' (t[i := p] ! j) (bs[i := ys] ! j)" if j: "j < 2 ^ k" for j
  proof (cases "j = i")
    case True
    then show ?thesis using j k H' by simp
  next
    case False
    have "H' a = H a" if "a \<in> set (bs ! j)" for a
    proof (rule H'(1))
      show "a \<in> set (concat bs)" using that j k(3) by (metis in_concat_nth)
      show "a \<notin> set (bs ! i)" using bucket_disjoint [OF rep(3), of j i a] that False j i k(3) by simp
    qed
    then have "chain H' (t ! j) (bs ! j) = chain H (t ! j) (bs ! j)" by (rule chain_frame)
    with False j k show ?thesis by simp
  qed
  moreover have "ht_used ht - of_nat (length (bs ! i) - length ys) = of_nat (length (concat (bs[i := ys])))"
  proof -
    have "length ys \<le> length (bs ! i)"
      using card_mono [OF _ i(3)] distinct_card [OF i(2)] card_length [of "bs ! i"] by simp
    with concat_replace(3) [OF i(1) rep(3) i(2,3)] have
      "length (concat bs) = length (concat (bs[i := ys])) + (length (bs ! i) - length ys)" by simp
    then show ?thesis unfolding k(6) by simp
  qed
  ultimately show ?thesis using k rep(2) by (auto simp: table_rep_def)
qed

lemma placed_replace:
  "placed hf H bs \<Longrightarrow> i < length bs \<Longrightarrow> set ys \<subseteq> set (bs ! i) \<Longrightarrow> placed hf H (bs[i := ys])"
  unfolding placed_def by (auto simp: nth_list_update)

lemma tabs_rep_used0:
  assumes "tabs_rep hf eqf g bs0 bs1"
  shows "ht_used (ht0 g) = 0 \<longleftrightarrow> concat bs0 = []"
proof -
  have "ht_used (ht0 g) = of_nat (length (concat bs0))"
    using assms by (cases "bs0 = []") (auto simp: tabs_rep_def table_rep_def kmath_ht_reset_def)
  moreover have "length (concat bs0) < 2 ^ 64" using assms by (simp add: tabs_rep_def)
  ultimately show ?thesis
    by (simp add: word_eq_iff_unat unat_of_nat)
qed

lemma rehash_bucket_spec:
  assumes rep: "tabs_rep hf eqf g bs0 bs1" "keys_ok hf eqf" "is_rehashing g" "concat bs0 \<noteq> []"
  shows "\<exists>g' bs0' bs1'. rehash_bucket hf eqf rel g = Some (g', []) \<and> tabs_rep hf eqf g' bs0' bs1'
    \<and> is_rehashing g' \<and> rehashidx g < rehashidx g' \<and> length bs0' = length bs0
    \<and> set (concat bs0' @ concat bs1') = set (concat bs0 @ concat bs1)
    \<and> same_data (hp g) (hp g') \<and> (\<forall>a. a \<notin> set (concat bs0 @ concat bs1) \<longrightarrow> hp g' a = hp g a)"
proof -
  have r: "table_rep (hp g) (ht0 g) bs0" "table_rep (hp g) (ht1 g) bs1" "bs0 \<noteq> []" "bs1 \<noteq> []"
      "distinct (concat bs0 @ concat bs1)" "placed hf (hp g) bs0" "placed hf (hp g) bs1"
      "pairwise (\<lambda>a b. \<not> eqf (hdata (hp g) a) (hdata (hp g) b)) (set (concat bs0 @ concat bs1))"
      "0 \<le> rehashidx g" "\<And>i. i < length bs0 \<Longrightarrow> int i < rehashidx g \<Longrightarrow> bs0 ! i = []"
      "length (concat bs0 @ concat bs1) < 2 ^ 32" "length bs0 < 2 ^ 31"
    using rep by (simp_all add: tabs_rep_def)
  obtain t where t: "ht_table (ht0 g) = Some t" "length t = length bs0"
      "\<And>i. i < length bs0 \<Longrightarrow> chain (hp g) (t ! i) (bs0 ! i)"
    using r(1,3) by (auto simp: table_rep_def)
  let ?js = "[nat (rehashidx g)..<length t]"
  have "find (\<lambda>i. t ! i \<noteq> 0) ?js \<noteq> None"
  proof -
    obtain a where "a \<in> set (concat bs0)" using rep(4) by (meson ex_in_conv set_empty)
    then obtain j where j: "j < length bs0" "bs0 ! j \<noteq> []" unfolding in_concat_nth by force
    then have "\<not> int j < rehashidx g" using r(10) by blast
    then have "j \<in> set ?js" using j t(2) r(9) by auto
    moreover have "t ! j \<noteq> 0" using chain_null [OF t(3) [OF j(1)]] j by simp
    ultimately show ?thesis unfolding find_None_iff by blast
  qed
  then obtain i where fi: "find (\<lambda>i. t ! i \<noteq> 0) ?js = Some i" by blast
  note fu = find_upt_Some [OF fi]
  have i: "i < length bs0" "rehashidx g \<le> int i" using fu(1,2) t(2) r(9) by auto
  have before: "t ! j = 0" if "rehashidx g \<le> int j" "j < i" for j
    using fu(4) [of j] that by (simp add: nat_le_iff)
  have loop: "find_loop ?js (\<lambda>i. do { p \<leftarrow> arr_get t i; Some (p \<noteq> 0) }) = Some (Some i)"
    using find_loop_find [of ?js _ "\<lambda>i. t ! i \<noteq> 0"] fi by simp
  have i_nz: "j < i \<Longrightarrow> bs0 ! j = []" for j
    using before [of j] r(10) [of j] chain_null [OF t(3) [of j]] i(1) by (cases "int j < rehashidx g") auto
  have as: "chain (hp g) (t ! i) (bs0 ! i)" "set (bs0 ! i) \<subseteq> set (concat bs0)" "distinct (bs0 ! i)"
      "distinct (bs0 ! i @ concat bs1)"
      "pairwise (\<lambda>a b. \<not> eqf (hdata (hp g) a) (hdata (hp g) b)) (set (bs0 ! i @ concat bs1))"
  proof -
    show "chain (hp g) (t ! i) (bs0 ! i)" using t i by blast
    show s: "set (bs0 ! i) \<subseteq> set (concat bs0)" using i(1) unfolding in_concat_nth subset_iff by blast
    show "distinct (bs0 ! i)" using r(5) i(1) by (metis distinct_append distinct_concat_iff nth_mem)
    then show "distinct (bs0 ! i @ concat bs1)" using r(5) s by auto
    show "pairwise (\<lambda>a b. \<not> eqf (hdata (hp g) a) (hdata (hp g) b)) (set (bs0 ! i @ concat bs1))"
      using s by (intro pairwise_subset [OF r(8)]) auto
  qed
  obtain H' t' bs1' where mv: "chain_move hf eqf rel [] g (t ! i) =
      Some (g\<lparr>hp := H', ht0 := (ht0 g)\<lparr>ht_used := ht_used (ht0 g) - of_nat (length (bs0 ! i))\<rparr>, ht1 := t'\<rparr>, [])"
    and b1: "table_rep H' t' bs1'" "bs1' \<noteq> []" "placed hf H' bs1'" "distinct (concat bs1')"
      "set (concat bs1') = set (bs0 ! i) \<union> set (concat bs1)"
    and H': "same_data (hp g) H'" "\<And>a. a \<notin> set (bs0 ! i) \<Longrightarrow> H' a = hp g a"
    using chain_move_spec [OF as(1) r(2,4,7) as(4) rep(2) as(5)] by blast
  let ?g = "g\<lparr>hp := H', ht0 := (ht0 g)\<lparr>ht_used := ht_used (ht0 g) - of_nat (length (bs0 ! i)),
      ht_table := Some (t[i := 0])\<rparr>, ht1 := t', rehashidx := int i + 1\<rparr>"
  let ?bs0 = "bs0[i := []]"
  have eq: "rehash_bucket hf eqf rel g = Some (?g, [])"
    using t(1,2) loop i(1) mv r(12) by (simp add: rehash_bucket_def idx_after_def)
  have d0: "distinct (concat bs0)" using r(5) by simp
  note cr = concat_replace [OF i(1) d0, of "[]", simplified]
  have t0: "table_rep H' (ht0 ?g) ?bs0"
    using table_rep_replace [OF r(1,3) d0 t(1) i(1), of "[]" H' 0] H'(2) by (simp add: kht_upd_commute)
  have union: "set (concat ?bs0 @ concat bs1') = set (concat bs0 @ concat bs1)"
    using cr(1) b1(5) as(2) by auto
  have dist: "distinct (concat ?bs0 @ concat bs1')"
    using cr(1,2) b1(4,5) r(5) by auto
  have len: "length (concat ?bs0 @ concat bs1') = length (concat bs0 @ concat bs1)"
    using distinct_card [OF dist] distinct_card [OF r(5)] union by metis
  have pw: "pairwise (\<lambda>a b. \<not> eqf (hdata H' a) (hdata H' b)) (set (concat ?bs0 @ concat bs1'))"
    using r(8) union same_data_hdata [OF H'(1)] by simp
  have ne: "?bs0 \<noteq> []" using r(3) by simp
  have pl: "placed hf H' ?bs0" using placed_replace [OF r(6) i(1), of "[]"] placed_same [OF H'(1)] by simp
  have pos: "?bs0 ! j = []" if "int j < int i + 1" "j < length bs0" for j
    using i_nz [of j] that by (cases "j = i") auto
  have "tabs_rep hf eqf ?g ?bs0 bs1'"
    unfolding tabs_rep_def
    using t0 b1 dist len r(11,12) pl pw ne pos by simp
  moreover have "\<forall>a. a \<notin> set (concat bs0 @ concat bs1) \<longrightarrow> hp ?g a = hp g a"
    using H'(2) as(2) by auto
  ultimately show ?thesis
    using eq union H'(1) i(2) r(9) by (intro exI [of _ ?g] exI [of _ ?bs0] exI [of _ bs1']) simp
qed

lemma held_same: "same_data H H' \<Longrightarrow> held H' S = held H S"
  by (rule ext) (simp add: held_def same_data_hdata)

lemma rehash_steps_spec:
  assumes "tabs_rep hf eqf g bs0 bs1" "keys_ok hf eqf" "is_rehashing g"
  shows "\<exists>g' bs0' bs1'. rehash_steps step hf eqf rel g = Some (g', []) \<and> tabs_rep hf eqf g' bs0' bs1'
    \<and> is_rehashing g' \<and> (rehashidx g + int step \<le> rehashidx g' \<or> concat bs0' = []) \<and> length bs0' = length bs0
    \<and> set (concat bs0' @ concat bs1') = set (concat bs0 @ concat bs1)
    \<and> same_data (hp g) (hp g') \<and> (\<forall>a. a \<notin> set (concat bs0 @ concat bs1) \<longrightarrow> hp g' a = hp g a)"
  using assms
proof (induction step arbitrary: g bs0 bs1)
  case 0
  then show ?case by (intro exI [of _ g] exI [of _ bs0] exI [of _ bs1]) (simp add: same_data_def)
next
  case (Suc step)
  show ?case
  proof (cases "concat bs0 = []")
    case True
    with Suc.prems tabs_rep_used0 [OF Suc.prems(1)] show ?thesis
      by (intro exI [of _ g] exI [of _ bs0] exI [of _ bs1]) (simp add: same_data_def)
  next
    case False
    obtain g1 bs01 bs11 where s1: "rehash_bucket hf eqf rel g = Some (g1, [])" "tabs_rep hf eqf g1 bs01 bs11"
      "is_rehashing g1" "rehashidx g < rehashidx g1" "length bs01 = length bs0"
      "set (concat bs01 @ concat bs11) = set (concat bs0 @ concat bs1)"
      "same_data (hp g) (hp g1)" "\<forall>a. a \<notin> set (concat bs0 @ concat bs1) \<longrightarrow> hp g1 a = hp g a"
      using rehash_bucket_spec [OF Suc.prems False] by blast
    obtain g2 bs02 bs12 where s2: "rehash_steps step hf eqf rel g1 = Some (g2, [])" "tabs_rep hf eqf g2 bs02 bs12"
      "is_rehashing g2" "rehashidx g1 + int step \<le> rehashidx g2 \<or> concat bs02 = []" "length bs02 = length bs01"
      "set (concat bs02 @ concat bs12) = set (concat bs01 @ concat bs11)"
      "same_data (hp g1) (hp g2)" "\<forall>a. a \<notin> set (concat bs01 @ concat bs11) \<longrightarrow> hp g2 a = hp g1 a"
      using Suc.IH [OF s1(2) Suc.prems(2) s1(3)] by blast
    have "ht_used (ht0 g) \<noteq> 0" using False tabs_rep_used0 [OF Suc.prems(1)] by blast
    then have "rehash_steps (Suc step) hf eqf rel g = Some (g2, [])" using s1(1) s2(1) by simp
    moreover have "rehashidx g + int (Suc step) \<le> rehashidx g2 \<or> concat bs02 = []" using s1(4) s2(4) by auto
    moreover have "same_data (hp g) (hp g2)" using same_data_trans [OF s1(7) s2(7)] .
    moreover have "\<forall>a. a \<notin> set (concat bs0 @ concat bs1) \<longrightarrow> hp g2 a = hp g a"
      using s1(6,8) s2(8) by simp
    ultimately show ?thesis using s2(2,3,5,6) s1(5,6) by (intro exI [of _ g2] exI [of _ bs02] exI [of _ bs12]) simp
  qed
qed

text \<open>The meaning of the tables is unchanged, and enough steps finish the move.\<close>

lemma ht_rehash_spec:
  assumes "ht_rep hf eqf g M" "keys_ok hf eqf"
  shows "\<exists>g'. ht_rehash hf eqf rel g step = Some (g', []) \<and> ht_rep hf eqf g' M
    \<and> same_data (hp g) (hp g') \<and> (\<forall>a. M a = None \<longrightarrow> hp g' a = hp g a)
    \<and> (ht_table (ht0 g) \<noteq> None \<longrightarrow> ht_table (ht0 g') \<noteq> None)
    \<and> (\<not> is_rehashing g \<longrightarrow> g' = g) \<and> (unat (ht_cap (ht0 g)) \<le> step \<longrightarrow> \<not> is_rehashing g')"
proof (cases "is_rehashing g")
  case False
  with assms show ?thesis by (auto simp: ht_rehash_def same_data_def)
next
  case True
  obtain bs0 bs1 where rep: "tabs_rep hf eqf g bs0 bs1"
    and M: "M = held (hp g) (set (concat bs0 @ concat bs1))"
    using assms by (auto simp: ht_rep_def)
  obtain g' bs0' bs1' where s: "rehash_steps step hf eqf rel g = Some (g', [])" "tabs_rep hf eqf g' bs0' bs1'"
      "is_rehashing g'" "rehashidx g + int step \<le> rehashidx g' \<or> concat bs0' = []" "length bs0' = length bs0"
      "set (concat bs0' @ concat bs1') = set (concat bs0 @ concat bs1)"
      "same_data (hp g) (hp g')" "\<forall>a. a \<notin> set (concat bs0 @ concat bs1) \<longrightarrow> hp g' a = hp g a"
    using rehash_steps_spec [OF rep assms(2) True] by blast
  have fr: "\<forall>a. M a = None \<longrightarrow> hp g' a = hp g a" using s(8) unfolding M held_None by blast
  have t0: "ht_table (ht0 g') \<noteq> None" "ht_table (ht1 g') \<noteq> None"
    using s(2,3) unfolding tabs_rep_def table_rep_def by auto
  have M': "M = held (hp g') (set (concat bs0' @ concat bs1'))"
    unfolding M s(6) by (rule held_same [OF s(7), symmetric])
  have fin: "concat bs0' = []" if "unat (ht_cap (ht0 g)) \<le> step"
  proof (rule ccontr)
    assume ne: "concat bs0' \<noteq> []"
    have cap: "unat (ht_cap (ht0 g)) = length bs0" "0 \<le> rehashidx g"
      using rep True unfolding tabs_rep_def table_rep_def by (auto simp: unat_pow2)
    have "int i < rehashidx g'" if "i < length bs0'" for i
      using s(4,5) ne cap that \<open>unat (ht_cap (ht0 g)) \<le> step\<close> by auto
    then have "\<forall>i < length bs0'. bs0' ! i = []" using s(2,3) unfolding tabs_rep_def by auto
    then have "set (concat bs0') = {}" by (auto simp: in_set_conv_nth)
    with ne show False by simp
  qed
  show ?thesis
  proof (cases "concat bs0' = []")
    case False
    then have "ht_used (ht0 g') \<noteq> 0" using tabs_rep_used0 [OF s(2)] by blast
    then have "ht_rehash hf eqf rel g step = Some (g', [])" using s(1) True by (simp add: ht_rehash_def)
    moreover have "ht_rep hf eqf g' M" using s(2) M' unfolding ht_rep_def by blast
    ultimately show ?thesis using s(7) fr fin False True t0 by blast
  next
    case e: True
    let ?g = "g'\<lparr>ht0 := ht1 g', ht1 := kmath_ht_reset, rehashidx := -1\<rparr>"
    have eq: "ht_rehash hf eqf rel g step = Some (?g, [])"
      using s(1) True tabs_rep_used0 [OF s(2)] e by (simp add: ht_rehash_def)
    have "tabs_rep hf eqf ?g bs1' []"
      using s(2) e unfolding tabs_rep_def by (simp add: placed_def)
    moreover have "M = held (hp ?g) (set (concat bs1' @ concat []))" unfolding M' e by simp
    ultimately have "ht_rep hf eqf ?g M" unfolding ht_rep_def by blast
    then show ?thesis using s(7) fr True eq t0 by (intro exI [of _ ?g]) simp
  qed
qed

subsection \<open>Search\<close>

text \<open>
  A search for the probe \<open>x\<close>: the test recognises the nodes whose key equals that of \<open>x\<close>. A node
  that is found is described by the bucket it stands in.
\<close>

definition found_at :: "'d htab \<Rightarrow> kaddr list list \<Rightarrow> kaddr list list \<Rightarrow> bool \<times> nat \<times> kaddr \<times> kaddr \<Rightarrow> bool" where
  "found_at g bs0 bs1 = (\<lambda>(second, idx, prev, a). let bs = (if second then bs1 else bs0) in
     idx < length bs \<and> (\<exists>us vs. bs ! idx = us @ a # vs \<and> prev = last (0 # us)))"

lemma search_found:
  assumes "find P as = Some x"
  shows "\<exists>us vs. as = us @ x # vs \<and> takeWhile (\<lambda>a. \<not> P a) as = us" "P x" "x \<in> set as"
  using assms
proof (induction as)
  case (Cons a as)
  { case 1 then show ?case using Cons by (auto split: if_splits) }
  { case 2 then show ?case using Cons by (auto split: if_splits) }
  { case 3 then show ?case using Cons by (auto split: if_splits) }
qed simp_all

lemma ht_search_spec:
  assumes rep: "tabs_rep hf eqf g bs0 bs1" "keys_ok hf eqf"
    and test: "\<And>a. a \<in> set (concat bs0 @ concat bs1) \<Longrightarrow> test (hdata (hp g) a) = Some (eqf (hdata (hp g) a) x)"
  shows "\<exists>r. ht_search brk g (hf x) test = Some r \<and> (case r of
      None \<Rightarrow> \<not> (\<exists>a \<in> set (concat bs0 @ concat bs1). eqf (hdata (hp g) a) x)
    | Some (second, idx, prev, a) \<Rightarrow> a \<in> set (concat bs0 @ concat bs1) \<and> eqf (hdata (hp g) a) x
        \<and> found_at g bs0 bs1 (second, idx, prev, a))"
proof -
  let ?P = "\<lambda>a. eqf (hdata (hp g) a) x"
  have r: "table_rep (hp g) (ht0 g) bs0" "table_rep (hp g) (ht1 g) bs1"
      "placed hf (hp g) bs0" "placed hf (hp g) bs1" "\<not> is_rehashing g \<Longrightarrow> bs1 = []"
      "is_rehashing g \<Longrightarrow> bs0 \<noteq> [] \<and> bs1 \<noteq> []"
    using rep by (auto simp: tabs_rep_def)
  have one: "\<exists>r. ht_search_in (hp g) (if second then ht1 g else ht0 g) (hf x) test = Some r \<and> (case r of
      None \<Rightarrow> \<not> (\<exists>a \<in> set (concat (if second then bs1 else bs0)). ?P a)
    | Some (idx, prev, a) \<Rightarrow> a \<in> set (concat (if second then bs1 else bs0)) \<and> ?P a
        \<and> found_at g bs0 bs1 (second, idx, prev, a))" for second
  proof (cases "(if second then bs1 else bs0) = []")
    case True
    then have "(if second then ht1 g else ht0 g) = kmath_ht_reset" using r(1,2) by (auto split: if_splits)
    then show ?thesis using True by (simp add: ht_search_in_def kmath_ht_reset_def split: if_splits)
  next
    case False
    define bs where "bs = (if second then bs1 else bs0)"
    define ht where "ht = (if second then ht1 g else ht0 g)"
    have h: "table_rep (hp g) ht bs" "bs \<noteq> []" "placed hf (hp g) bs"
      using r(1-4) False unfolding bs_def ht_def by simp_all
    have t: "test (hdata (hp g) a) = Some (?P a)" "?P a \<Longrightarrow> hf (hdata (hp g) a) = hf x"
      if "a \<in> set (concat bs)" for a
      using that test keys_ok_hash [OF rep(2)] unfolding bs_def by (simp_all split: if_splits)
    define i where "i = unat (hf x) mod length bs"
    have i: "i < length bs" using h(2) by (simp add: i_def)
    note sr = table_rep_search [where P = ?P and test = test and hf = hf and hash = "hf x", OF h t, folded i_def]
    show ?thesis
    proof (cases "find ?P (bs ! i)")
      case None
      then show ?thesis using sr unfolding bs_def [symmetric] ht_def [symmetric] by simp
    next
      case (Some a)
      obtain us vs where uv: "bs ! i = us @ a # vs" "takeWhile (\<lambda>a. \<not> ?P a) (bs ! i) = us"
        using search_found(1) [OF Some] by blast
      have "ht_search_in (hp g) ht (hf x) test = Some (Some (i, last (0 # us), a))"
        using sr(1) uv(2) Some by simp
      moreover have "found_at g bs0 bs1 (second, i, last (0 # us), a)"
        using i uv(1) unfolding found_at_def bs_def by auto
      moreover have "a \<in> set (concat bs)" using search_found(3) [OF Some] i unfolding in_concat_nth by blast
      ultimately show ?thesis using search_found(2) [OF Some]
        unfolding bs_def [symmetric] ht_def [symmetric] by simp
    qed
  qed
  have t0: "ht_table (ht0 g) = None \<longleftrightarrow> bs0 = []"
    using r(1) by (cases "bs0 = []") (auto simp: table_rep_def kmath_ht_reset_def)
  obtain r0 where r0: "ht_search_in (hp g) (ht0 g) (hf x) test = Some r0" "case r0 of
      None \<Rightarrow> \<not> (\<exists>a \<in> set (concat bs0). ?P a)
    | Some (idx, prev, a) \<Rightarrow> a \<in> set (concat bs0) \<and> ?P a \<and> found_at g bs0 bs1 (False, idx, prev, a)"
    using one [of False] by (simp only: if_False) blast
  obtain r1 where r1: "ht_search_in (hp g) (ht1 g) (hf x) test = Some r1" "case r1 of
      None \<Rightarrow> \<not> (\<exists>a \<in> set (concat bs1). ?P a)
    | Some (idx, prev, a) \<Rightarrow> a \<in> set (concat bs1) \<and> ?P a \<and> found_at g bs0 bs1 (True, idx, prev, a)"
    using one [of True] by (simp only: if_True) blast
  have stop: "bs1 = []" if "ht_table (ht0 g) = None \<or> \<not> is_rehashing g" using that t0 r(5,6) by blast
  show ?thesis
    using r0 r1 stop by (cases r0; cases r1) (auto simp: ht_search_def)
qed

lemma ht_rep_nonzero:
  assumes "ht_rep hf eqf g M" "M a = Some d"
  shows "a \<noteq> 0" "\<exists>n. hp g a = Some n \<and> hn_data n = d"
proof -
  obtain bs0 bs1 where rep: "tabs_rep hf eqf g bs0 bs1" and a: "a \<in> set (concat bs0 @ concat bs1)"
    and d: "d = hdata (hp g) a"
    using assms by (auto simp: ht_rep_def held_Some)
  have one: "a \<noteq> 0 \<and> (\<exists>n. hp g a = Some n)" if tr: "table_rep (hp g) ht bs" "a \<in> set (concat bs)" for ht bs
  proof -
    obtain i where i: "i < length bs" "a \<in> set (bs ! i)" using tr(2) unfolding in_concat_nth by blast
    then obtain p where "chain (hp g) p (bs ! i)" using tr(1) by (auto simp: table_rep_def split: if_splits)
    then show ?thesis using chain_nonzero chain_heap i(2) by metis
  qed
  have "a \<noteq> 0 \<and> (\<exists>n. hp g a = Some n)"
    using a rep one [of "ht0 g" bs0] one [of "ht1 g" bs1] unfolding tabs_rep_def set_append Un_iff by blast
  then show "a \<noteq> 0" "\<exists>n. hp g a = Some n \<and> hn_data n = d" using d by (auto simp: hdata_def)
qed

lemma ht_rep_unique:
  assumes "ht_rep hf eqf g M" "keys_ok hf eqf" "M a = Some d" "M b = Some e" "eqf d x" "eqf e x"
  shows "a = b"
proof (rule ccontr)
  assume "a \<noteq> b"
  obtain bs0 bs1 where rep: "tabs_rep hf eqf g bs0 bs1" and M: "M = held (hp g) (set (concat bs0 @ concat bs1))"
    using assms by (auto simp: ht_rep_def)
  have "\<not> eqf d e"
    using rep \<open>a \<noteq> b\<close> assms(3,4) unfolding M held_Some tabs_rep_def pairwise_def by blast
  moreover have "eqf d e"
    using assms(2,5,6) unfolding keys_ok_def by (metis equivp_def)
  ultimately show False by simp
qed

lemma ht_search_rep:
  assumes "ht_rep hf eqf g M" "keys_ok hf eqf" "\<forall>a d. M a = Some d \<longrightarrow> test d = Some (eqf d x)"
  shows "\<exists>bs0 bs1 r. tabs_rep hf eqf g bs0 bs1 \<and> M = held (hp g) (set (concat bs0 @ concat bs1))
    \<and> ht_search brk g (hf x) test = Some r \<and> (case r of
      None \<Rightarrow> (\<forall>a d. M a = Some d \<longrightarrow> \<not> eqf d x)
    | Some (second, idx, prev, a) \<Rightarrow> (\<exists>d. M a = Some d \<and> eqf d x) \<and> found_at g bs0 bs1 (second, idx, prev, a))"
proof -
  obtain bs0 bs1 where rep: "tabs_rep hf eqf g bs0 bs1" and M: "M = held (hp g) (set (concat bs0 @ concat bs1))"
    using assms by (auto simp: ht_rep_def)
  have "test (hdata (hp g) a) = Some (eqf (hdata (hp g) a) x)" if "a \<in> set (concat bs0 @ concat bs1)" for a
    using assms(3) that unfolding M held_Some by blast
  then obtain r where r: "ht_search brk g (hf x) test = Some r" "case r of
      None \<Rightarrow> \<not> (\<exists>a \<in> set (concat bs0 @ concat bs1). eqf (hdata (hp g) a) x)
    | Some (second, idx, prev, a) \<Rightarrow> a \<in> set (concat bs0 @ concat bs1) \<and> eqf (hdata (hp g) a) x
        \<and> found_at g bs0 bs1 (second, idx, prev, a)"
    using ht_search_spec [OF rep assms(2), of test x brk] by blast
  have "case r of None \<Rightarrow> (\<forall>a d. M a = Some d \<longrightarrow> \<not> eqf d x)
    | Some (second, idx, prev, a) \<Rightarrow> (\<exists>d. M a = Some d \<and> eqf d x) \<and> found_at g bs0 bs1 (second, idx, prev, a)"
    using r(2) unfolding M held_Some
    by (cases r) (simp_all only: option.case split_beta, blast+)
  with rep M r(1) show ?thesis by blast
qed

lemma ht_find_hit:
  assumes "ht_rep hf eqf g M" "keys_ok hf eqf" "\<forall>a d. M a = Some d \<longrightarrow> test d = Some (eqf d x)"
    and "M a = Some d" "eqf d x"
  shows "ht_find g (hf x) test = Some a"
proof -
  obtain bs0 bs1 r where r: "ht_search True g (hf x) test = Some r" "case r of
      None \<Rightarrow> (\<forall>a d. M a = Some d \<longrightarrow> \<not> eqf d x)
    | Some (second, idx, prev, a) \<Rightarrow> (\<exists>d. M a = Some d \<and> eqf d x) \<and> found_at g bs0 bs1 (second, idx, prev, a)"
    using ht_search_rep [where brk = True, OF assms(1-3)] by blast
  then obtain s i p b where "r = Some (s, i, p, b)" using assms(4,5) by (cases r) auto
  moreover from this r(2) obtain e where "M b = Some e" "eqf e x" by auto
  then have "b = a" using ht_rep_unique [OF assms(1,2)] assms(4,5) by blast
  ultimately show ?thesis using r(1) by (simp add: ht_find_def)
qed

lemma ht_find_miss:
  assumes "ht_rep hf eqf g M" "keys_ok hf eqf" "\<forall>a d. M a = Some d \<longrightarrow> test d = Some (eqf d x)"
    and "\<And>a d. M a = Some d \<Longrightarrow> \<not> eqf d x"
  shows "ht_find g (hf x) test = Some 0"
proof -
  obtain bs0 bs1 r where r: "ht_search True g (hf x) test = Some r" "case r of
      None \<Rightarrow> (\<forall>a d. M a = Some d \<longrightarrow> \<not> eqf d x)
    | Some (second, idx, prev, a) \<Rightarrow> (\<exists>d. M a = Some d \<and> eqf d x) \<and> found_at g bs0 bs1 (second, idx, prev, a)"
    using ht_search_rep [where brk = True, OF assms(1-3)] by blast
  then have "r = None" using assms(4) by (cases r) auto
  with r(1) show ?thesis by (simp add: ht_find_def)
qed

subsection \<open>Growing\<close>

text \<open>The first table is asked for four buckets and gets two.\<close>

lemma roundup_4: "kylin_roundup_pow_of_two 4 = Some 2"
  by code_simp

lemma new_table_rep:
  fixes k :: nat
  assumes "k < 60"
  shows "table_rep H \<lparr>ht_table = kylin_malloc True (unat ((2 ^ k :: ksize) * 8) div 8), ht_cap = 2 ^ k,
      ht_mask = 2 ^ k - 1, ht_used = 0\<rparr> (replicate (2 ^ k) [])"
proof -
  have "unat ((2 ^ k :: ksize) * 8) = 2 ^ (k + 3)"
    using unat_pow2 [where 'a = 64, of "k + 3"] assms by (simp add: power_add)
  moreover have "(2::nat) ^ (k + 3) div 8 = 2 ^ k" by (simp add: power_add)
  moreover have "concat (replicate (2 ^ k) []) = []" by simp
  ultimately show ?thesis using assms
    by (auto simp: table_rep_def kylin_malloc_def mask_eq_exp_minus_1)
qed

lemma ht_cap_zero:
  assumes "tabs_rep hf eqf g bs0 bs1"
  shows "ht_cap (ht0 g) = 0 \<longleftrightarrow> bs0 = []" "ht_table (ht0 g) = None \<longleftrightarrow> bs0 = []"
proof -
  have "(2 :: ksize) ^ k \<noteq> 0" if "k < 61" for k
    using unat_pow2 [where 'a = 64, of k] that by auto
  moreover have "table_rep (hp g) (ht0 g) bs0" using assms by (simp add: tabs_rep_def)
  ultimately show "ht_cap (ht0 g) = 0 \<longleftrightarrow> bs0 = []" "ht_table (ht0 g) = None \<longleftrightarrow> bs0 = []"
    by (auto simp: table_rep_def kmath_ht_reset_def split: if_splits)
qed

lemma ht_resize_spec:
  assumes "ht_rep hf eqf g M" "2 \<le> count" "unat count \<le> 2 ^ 59" "unat (ht_cap (ht0 g)) < 2 ^ 31"
  shows "\<exists>e g'. ht_resize True g count = Some (e, g') \<and> ht_rep hf eqf g' M \<and> hp g' = hp g
    \<and> (is_rehashing g \<longrightarrow> e = KYLIN_ERROR_BUSY \<and> g' = g)
    \<and> ht_table (ht0 g') \<noteq> None
    \<and> (ht_table (ht0 g) \<noteq> None \<and> \<not> is_rehashing g \<and> e = KYLIN_ERROR_OK \<longrightarrow> is_rehashing g')"
proof -
  obtain bs0 bs1 where rep: "tabs_rep hf eqf g bs0 bs1" and M: "M = held (hp g) (set (concat bs0 @ concat bs1))"
    using assms by (auto simp: ht_rep_def)
  obtain k where k: "k < 64" "kylin_roundup_pow_of_two count = Some (2 ^ k)" "2 ^ k < unat count"
    using roundup_pow_of_two_spec [OF assms(2)] by blast
  have "(2::nat) ^ k < 2 ^ 59" using k(3) assms(3) by simp
  then have k59: "k < 59" using power_less_imp_less_exp by (metis one_less_numeral_iff semiring_norm(76))
  show ?thesis
  proof (cases "is_rehashing g")
    case True
    then have "bs0 \<noteq> []" using rep by (simp add: tabs_rep_def)
    then show ?thesis using assms(1) True ht_cap_zero(2) [OF rep] by (simp add: ht_resize_def)
  next
    case False
    then have b1: "bs1 = []" using rep unfolding tabs_rep_def by presburger
    then have r1: "ht1 g = kmath_ht_reset" using rep unfolding tabs_rep_def by simp
    let ?ht = "\<lparr>ht_table = kylin_malloc True (unat ((2 ^ k :: ksize) * 8) div 8), ht_cap = 2 ^ k,
      ht_mask = 2 ^ k - 1, ht_used = 0\<rparr>"
    have new: "table_rep (hp g) ?ht (replicate (2 ^ k) [])" using k59 by (intro new_table_rep) simp
    have cn: "concat (replicate (2 ^ k) []) = []" by simp
    have pl: "placed hf (hp g) (replicate (2 ^ k) [])" by (simp add: placed_def)
    show ?thesis
    proof (cases "2 ^ k = ht_cap (ht0 g)")
      case True
      then have "bs0 \<noteq> []" using ht_cap_zero(1) [OF rep] unat_pow2 [where 'a = 64, of k] k(1) by auto
      then show ?thesis using assms(1) False True k(2) ht_cap_zero(2) [OF rep] by (simp add: ht_resize_def)
    next
      case ne: False
      show ?thesis
      proof (cases "bs0 = []")
        case True
        then have "tabs_rep hf eqf (g\<lparr>ht0 := ?ht\<rparr>) (replicate (2 ^ k) []) []"
          using rep b1 r1 new pl cn False unfolding tabs_rep_def by simp
        moreover have "M = held (hp (g\<lparr>ht0 := ?ht\<rparr>)) (set (concat (replicate (2 ^ k) []) @ concat []))"
          using M True b1 cn by simp
        ultimately have "ht_rep hf eqf (g\<lparr>ht0 := ?ht\<rparr>) M" unfolding ht_rep_def by blast
        then show ?thesis using True False ne k(2) ht_cap_zero [OF rep]
          by (simp add: ht_resize_def Let_def kylin_malloc_def)
      next
        case b0: False
        let ?g = "g\<lparr>ht1 := ?ht, rehashidx := 0\<rparr>"
        have "unat (ht_cap (ht0 g)) = length bs0"
          using rep b0 unfolding tabs_rep_def table_rep_def by (auto simp: unat_pow2)
        then have "tabs_rep hf eqf ?g bs0 (replicate (2 ^ k) [])"
          using rep b1 b0 new pl cn False assms(4) unfolding tabs_rep_def by simp
        moreover have "M = held (hp ?g) (set (concat bs0 @ concat (replicate (2 ^ k) [])))"
          using M b1 cn by simp
        ultimately have "ht_rep hf eqf ?g M" unfolding ht_rep_def by blast
        then show ?thesis using b0 False ne k(2) ht_cap_zero [OF rep] by (simp add: ht_resize_def Let_def)
      qed
    qed
  qed
qed

subsection \<open>Insertion\<close>

lemma tabs_rep_card: "tabs_rep hf eqf g bs0 bs1 \<Longrightarrow> card (set (concat bs0 @ concat bs1)) = length (concat bs0 @ concat bs1)"
  by (simp only: tabs_rep_def distinct_card)

lemma tabs_rep_used:
  assumes "tabs_rep hf eqf g bs0 bs1"
  shows "unat (ht_used (ht0 g)) = length (concat bs0)" "unat (ht_used (ht1 g)) = length (concat bs1)"
proof -
  have "table_rep (hp g) (ht0 g) bs0" "table_rep (hp g) (ht1 g) bs1" "length (concat bs0 @ concat bs1) < 2 ^ 32"
    using assms by (simp_all add: tabs_rep_def)
  then show "unat (ht_used (ht0 g)) = length (concat bs0)" "unat (ht_used (ht1 g)) = length (concat bs1)"
    by (auto simp: table_rep_def kmath_ht_reset_def unat_of_nat split: if_splits)
qed

lemma ht_expand_spec:
  assumes "ht_rep hf eqf g M"
  shows "\<exists>g'. (if ht_need_expand g then
        map_option snd (ht_resize True g (if ht_cap (ht0 g) = 0 then 4 else ht_used (ht0 g) * 2)) else Some g) = Some g'
    \<and> ht_rep hf eqf g' M \<and> hp g' = hp g \<and> ht_table (ht0 g') \<noteq> None"
proof -
  obtain bs0 bs1 where rep: "tabs_rep hf eqf g bs0 bs1" and M: "M = held (hp g) (set (concat bs0 @ concat bs1))"
    using assms by (auto simp: ht_rep_def)
  note z = ht_cap_zero [OF rep]
  show ?thesis
  proof (cases "ht_need_expand g")
    case False
    then show ?thesis using assms z by (auto simp: ht_need_expand_def)
  next
    case True
    let ?count = "if ht_cap (ht0 g) = 0 then 4 else ht_used (ht0 g) * 2"
    have len: "length (concat bs0) < 2 ^ 32" using rep by (simp add: tabs_rep_def)
    have "2 \<le> ?count \<and> unat ?count \<le> 2 ^ 59 \<and> unat (ht_cap (ht0 g)) < 2 ^ 31"
    proof (cases "ht_cap (ht0 g) = 0")
      case False
      then have "5 < ht_used (ht0 g) div ht_cap (ht0 g)" using True by (simp add: ht_need_expand_def)
      then have "5 < unat (ht_used (ht0 g)) div unat (ht_cap (ht0 g))"
        by (simp add: word_less_nat_alt unat_div)
      then have u: "unat (ht_used (ht0 g)) > 0" by (cases "unat (ht_used (ht0 g))") auto
      have "6 * unat (ht_cap (ht0 g)) \<le> unat (ht_used (ht0 g)) div unat (ht_cap (ht0 g)) * unat (ht_cap (ht0 g))"
        using \<open>5 < unat (ht_used (ht0 g)) div unat (ht_cap (ht0 g))\<close> by (intro mult_le_mono1) linarith
      also have "\<dots> \<le> unat (ht_used (ht0 g))" by (rule div_times_less_eq_dividend)
      finally have "6 * unat (ht_cap (ht0 g)) \<le> unat (ht_used (ht0 g))" .
      moreover have lt: "unat (ht_used (ht0 g)) < 2 ^ 32" using len tabs_rep_used(1) [OF rep] by simp
      ultimately have c: "unat (ht_cap (ht0 g)) < 2 ^ 31" by simp
      from lt have "unat (ht_used (ht0 g) * 2) = unat (ht_used (ht0 g)) * 2"
        by (simp add: unat_word_ariths)
      then show ?thesis using u c lt False by (simp add: word_le_nat_alt)
    qed simp
    then obtain e g' where "ht_resize True g ?count = Some (e, g')" "ht_rep hf eqf g' M" "hp g' = hp g"
        "ht_table (ht0 g') \<noteq> None"
      using ht_resize_spec [OF assms, of ?count] by blast
    then show ?thesis using True by auto
  qed
qed

lemma pairwise_add:
  assumes "pairwise (\<lambda>a b. \<not> eqf (f a) (f b)) S" "\<And>b. b \<in> S \<Longrightarrow> \<not> eqf (f a) (f b)"
    and "\<And>x y. eqf x y = eqf y x"
  shows "pairwise (\<lambda>a b. \<not> eqf (f a) (f b)) (insert a S)"
  using assms by (auto simp: pairwise_insert)

text \<open>The linking of a new node into the table that is current.\<close>

lemma ht_link_spec:
  assumes "ht_rep hf eqf g M" "keys_ok hf eqf" "card (dom M) + 1 < 2 ^ 32"
    and a: "M a = None" "a \<noteq> 0" "hp g a = Some n"
    and new: "\<forall>b d. M b = Some d \<longrightarrow> \<not> eqf d (hn_data n)"
    and table: "ht_table (ht0 g) \<noteq> None"
  defines "ht \<equiv> if is_rehashing g then ht1 g else ht0 g"
  shows "\<exists>t i. ht_table ht = Some t \<and> i = unat (hf (hn_data n) AND ht_mask ht) \<and> i < length t
    \<and> chain_find (hp g) (\<lambda>d. Some (eqf (hn_data n) d)) 0 (t ! i) = Some None
    \<and> (let g' = g\<lparr>hp := (hp g)(a \<mapsto> n\<lparr>hn_next := t ! i\<rparr>)\<rparr>;
           ht' = ht\<lparr>ht_table := Some (t[i := a]), ht_used := ht_used ht + 1\<rparr> in
       ht_rep hf eqf (if is_rehashing g then g'\<lparr>ht1 := ht'\<rparr> else g'\<lparr>ht0 := ht'\<rparr>) (M(a \<mapsto> hn_data n)))"
proof -
  obtain bs0 bs1 where rep: "tabs_rep hf eqf g bs0 bs1" and M: "M = held (hp g) (set (concat bs0 @ concat bs1))"
    using assms(1) by (auto simp: ht_rep_def)
  have r: "table_rep (hp g) (ht0 g) bs0" "table_rep (hp g) (ht1 g) bs1"
      "distinct (concat bs0 @ concat bs1)" "placed hf (hp g) bs0" "placed hf (hp g) bs1"
      "pairwise (\<lambda>a b. \<not> eqf (hdata (hp g) a) (hdata (hp g) b)) (set (concat bs0 @ concat bs1))"
      "bs0 \<noteq> []" "is_rehashing g \<Longrightarrow> bs1 \<noteq> []" "\<not> is_rehashing g \<Longrightarrow> bs1 = []"
      "is_rehashing g \<Longrightarrow> 0 \<le> rehashidx g \<and> (\<forall>i < length bs0. int i < rehashidx g \<longrightarrow> bs0 ! i = [])"
      "is_rehashing g \<Longrightarrow> length bs0 < 2 ^ 31"
    using rep table ht_cap_zero(2) [OF rep] unfolding tabs_rep_def by presburger+
  define bs where "bs = (if is_rehashing g then bs1 else bs0)"
  have b: "table_rep (hp g) ht bs" "bs \<noteq> []" "placed hf (hp g) bs" "distinct (concat bs)"
    using r unfolding bs_def ht_def by auto
  have na: "a \<notin> set (concat bs0 @ concat bs1)" using a(1) unfolding M held_None .
  then have nb: "a \<notin> set (concat bs)" unfolding bs_def by auto
  obtain t where t: "ht_table ht = Some t" using b(1,2) by (auto simp: table_rep_def)
  define i where "i = unat (hf (hn_data n) AND ht_mask ht)"
  note push = table_rep_push [OF b nb a(2,3) t, folded i_def]
  note cp = concat_push [OF push(3) nb b(4)]
  let ?H = "(hp g)(a \<mapsto> n\<lparr>hn_next := t ! i\<rparr>)"
  let ?ht = "ht\<lparr>ht_table := Some (t[i := a]), ht_used := ht_used ht + 1\<rparr>"
  let ?bs = "bs[i := a # bs ! i]"
  let ?g = "if is_rehashing g then g\<lparr>hp := ?H, ht1 := ?ht\<rparr> else g\<lparr>hp := ?H, ht0 := ?ht\<rparr>"
  let ?bs0 = "if is_rehashing g then bs0 else ?bs" and ?bs1 = "if is_rehashing g then ?bs else bs1"
  have nw: "\<not> eqf (hn_data n) (hdata (hp g) b)" if "b \<in> set (concat bs0 @ concat bs1)" for b
    using new that keys_ok_sym [OF assms(2)] unfolding M held_Some by metis
  have "set (bs ! i) \<subseteq> set (concat bs)"
    using push(3) unfolding subset_iff in_concat_nth by blast
  moreover have "set (concat bs) \<subseteq> set (concat bs0 @ concat bs1)" unfolding bs_def by auto
  ultimately have "set (bs ! i) \<subseteq> set (concat bs0 @ concat bs1)" by (rule subset_trans)
  then have f: "chain_find (hp g) (\<lambda>d. Some (eqf (hn_data n) d)) 0 (t ! i) = Some None"
    using nw by (intro chain_find_none [OF push(6)]) blast
  have sd: "same_data (hp g) ?H" using a(3) by (rule same_data_next)
  have nd: "hn_data n = hdata (hp g) a" using a(3) by (simp add: hdata_def)
  have un: "set (concat ?bs0 @ concat ?bs1) = insert a (set (concat bs0 @ concat bs1))"
    using cp(1) unfolding bs_def by (cases "is_rehashing g") simp_all
  have ds: "distinct (concat ?bs0 @ concat ?bs1)"
    using cp(1,2) r(3) na unfolding bs_def by (simp split: if_splits)
  have fr: "table_rep ?H (if is_rehashing g then ht0 g else ht1 g) (if is_rehashing g then bs0 else bs1)"
    using na r(1,2) by (auto intro!: table_rep_frame [where H = "hp g"])
  have ln: "length (concat ?bs0 @ concat ?bs1) < 2 ^ 32"
  proof -
    have "length (concat ?bs0 @ concat ?bs1) = card (insert a (set (concat bs0 @ concat bs1)))"
      using distinct_card [OF ds] un by simp
    also have "\<dots> \<le> card (dom M) + 1" using card_insert_le_m1 unfolding M dom_held by (simp add: card_insert_if)
    finally show ?thesis using assms(3) by simp
  qed
  have pw: "pairwise (\<lambda>a b. \<not> eqf (hdata ?H a) (hdata ?H b)) (set (concat ?bs0 @ concat ?bs1))"
    unfolding un same_data_hdata [OF sd]
    by (rule pairwise_add) (use r(6) nw nd keys_ok_sym [OF assms(2)] in auto)
  have "tabs_rep hf eqf ?g ?bs0 ?bs1"
  proof (cases "is_rehashing g")
    case True
    have "placed hf ?H bs0" using r(4) placed_same [OF sd] by blast
    then show ?thesis using True fr ds ln pw push(4,5) r(7,8,10,11) b(2) unfolding tabs_rep_def
      by (simp add: bs_def)
  next
    case False
    then show ?thesis using fr ds ln pw push(4,5) r(9) b(2) unfolding tabs_rep_def
      by (simp add: placed_def)
  qed
  moreover have "M(a \<mapsto> hn_data n) = held (hp ?g) (set (concat ?bs0 @ concat ?bs1))"
  proof -
    have "hp ?g = ?H" by simp
    then have "held (hp ?g) (insert a S) = (held (hp g) S)(a \<mapsto> hn_data n)" for S
      unfolding nd by (simp only: held_same [OF sd]) (auto simp: held_def fun_eq_iff)
    then show ?thesis unfolding un M by simp
  qed
  ultimately have "ht_rep hf eqf ?g (M(a \<mapsto> hn_data n))" unfolding ht_rep_def by blast
  then show ?thesis using t f push(1) unfolding i_def [symmetric] Let_def
    by (intro exI [of _ t] exI [of _ i]) (simp split: if_splits)
qed

lemma ht_insert_new:
  assumes "ht_rep hf eqf g M" "keys_ok hf eqf" "card (dom M) + 1 < 2 ^ 32"
    and a: "M a = None" "a \<noteq> 0" "hp g a = Some n"
    and new: "\<forall>b d. M b = Some d \<longrightarrow> \<not> eqf d (hn_data n)"
  shows "\<exists>g'. ht_insert_raw hf eqf rel True g a = Some (a, g', []) \<and> ht_rep hf eqf g' (M(a \<mapsto> hn_data n))"
proof -
  obtain g1 where g1: "(if ht_need_expand g then
        map_option snd (ht_resize True g (if ht_cap (ht0 g) = 0 then 4 else ht_used (ht0 g) * 2)) else Some g) = Some g1"
      "ht_rep hf eqf g1 M" "hp g1 = hp g" "ht_table (ht0 g1) \<noteq> None"
    using ht_expand_spec [OF assms(1)] by blast
  obtain g2 where g2: "ht_rehash hf eqf rel g1 1 = Some (g2, [])" "ht_rep hf eqf g2 M"
      "\<forall>a. M a = None \<longrightarrow> hp g2 a = hp g1 a" "ht_table (ht0 g2) \<noteq> None" "\<not> is_rehashing g1 \<longrightarrow> g2 = g1"
    using ht_rehash_spec [OF g1(2) assms(2), of rel 1] g1(4) by blast
  have r2: "(if is_rehashing g1 then ht_rehash hf eqf rel g1 1 else Some (g1, [])) = Some (g2, [])"
    using g2(1,5) by simp
  have n2: "hp g2 a = Some n" using a g1(3) g2(3) by simp
  let ?ht = "if is_rehashing g2 then ht1 g2 else ht0 g2"
  obtain t i where l: "ht_table ?ht = Some t" "i = unat (hf (hn_data n) AND ht_mask ?ht)" "i < length t"
    "chain_find (hp g2) (\<lambda>d. Some (eqf (hn_data n) d)) 0 (t ! i) = Some None"
    "let g' = g2\<lparr>hp := (hp g2)(a \<mapsto> n\<lparr>hn_next := t ! i\<rparr>)\<rparr>;
           ht' = ?ht\<lparr>ht_table := Some (t[i := a]), ht_used := ht_used ?ht + 1\<rparr> in
       ht_rep hf eqf (if is_rehashing g2 then g'\<lparr>ht1 := ht'\<rparr> else g'\<lparr>ht0 := ht'\<rparr>) (M(a \<mapsto> hn_data n))"
    using ht_link_spec [OF g2(2) assms(2,3) a(1,2) n2 new g2(4)] by blast
  show ?thesis
    unfolding ht_insert_raw_def g1(1) Option.bind.bind_lunit r2 prod.case Let_def l(1) option.case
    using l(2-5) n2 a(2) by (simp add: hnode_get_def Let_def split: if_splits)
qed

text \<open>A key that is present, when nothing is being moved and the table is not about to grow.\<close>

lemma ht_insert_old:
  assumes "ht_rep hf eqf g M" "keys_ok hf eqf" "\<not> is_rehashing g" "\<not> ht_need_expand g"
    and n: "hp g a = Some n" "a \<noteq> 0" and b: "M b = Some d" "eqf d (hn_data n)"
  shows "ht_insert_raw hf eqf rel ok g a = Some (b, g, [])"
proof -
  have t: "\<forall>a d. M a = Some d \<longrightarrow> Some (eqf (hn_data n) d) = Some (eqf d (hn_data n))"
    by (simp only: keys_ok_sym [OF assms(2), of "hn_data n"] simp_thms)
  obtain bs0 bs1 r where r: "tabs_rep hf eqf g bs0 bs1"
     "ht_search True g (hf (hn_data n)) (\<lambda>d. Some (eqf (hn_data n) d)) = Some r" "case r of
      None \<Rightarrow> (\<forall>a d. M a = Some d \<longrightarrow> \<not> eqf d (hn_data n))
    | Some (second, idx, prev, a) \<Rightarrow> (\<exists>d. M a = Some d \<and> eqf d (hn_data n)) \<and> found_at g bs0 bs1 (second, idx, prev, a)"
    using ht_search_rep [where brk = True, OF assms(1,2) t] by blast
  then obtain s i p b' where r': "r = Some (s, i, p, b')" using b by (cases r) auto
  from r(3) r' obtain e where "M b' = Some e" "eqf e (hn_data n)" by auto
  then have "b' = b" using ht_rep_unique [OF assms(1,2)] b by blast
  with r(2) r' assms(3) have s: "ht_search_in (hp g) (ht0 g) (hf (hn_data n)) (\<lambda>d. Some (eqf (hn_data n) d)) = Some (Some (i, p, b))"
    by (auto simp: ht_search_def bind_eq_Some_conv split: option.splits if_splits)
  then show ?thesis using assms(3,4) n
    by (auto simp: ht_insert_raw_def ht_search_in_def hnode_get_def Let_def bind_eq_Some_conv split: option.splits)
qed

subsection \<open>Removal\<close>

lemma chain_detach:
  assumes "chain H p (us @ a # vs)" "distinct (us @ a # vs)" "H a = Some n"
  shows "if us = [] then chain H (hn_next n) vs
    else \<exists>pn. last us \<noteq> 0 \<and> H (last us) = Some pn \<and> chain (H(last us \<mapsto> pn\<lparr>hn_next := hn_next n\<rparr>)) p (us @ vs)"
proof (cases "us = []")
  case True
  then show ?thesis using chain_splice [OF assms] by simp
next
  case False
  then have "last us \<noteq> 0" using chain_nonzero [OF assms(1)] by (metis Un_iff last_in_set set_append)
  then show ?thesis using chain_splice [OF assms] False by simp
qed

lemma table_detach:
  assumes rep: "table_rep H ht bs" "bs \<noteq> []" "distinct (concat bs)" "placed hf H bs"
    and i: "i < length bs" "bs ! i = us @ a # vs"
  shows "\<exists>H' ht'. ht_detach H ht i (last (0 # us)) a = Some (H', ht') \<and> table_rep H' ht' (bs[i := us @ vs])
    \<and> placed hf H' (bs[i := us @ vs]) \<and> same_data H H'
    \<and> (\<forall>b. b \<notin> set (bs ! i) \<longrightarrow> H' b = H b) \<and> H' a = H a
    \<and> set (concat (bs[i := us @ vs])) = set (concat bs) - {a} \<and> distinct (concat (bs[i := us @ vs]))"
proof -
  obtain t where t: "ht_table ht = Some t" "length t = length bs" "chain H (t ! i) (us @ a # vs)"
    using rep(1,2) i by (auto simp: table_rep_def)
  have d: "distinct (us @ a # vs)" using rep(3) i by (metis distinct_concat_iff nth_mem)
  obtain n where n: "H a = Some n" "a \<noteq> 0" using chain_heap [OF t(3), of a] chain_nonzero [OF t(3)] by auto
  define p where "p = (if us = [] then hn_next n else t ! i)"
  define H' where "H' = (if us = [] then H else H(last us \<mapsto> (the (H (last us)))\<lparr>hn_next := hn_next n\<rparr>))"
  have ch: "chain H' p (us @ vs)"
    using chain_detach [OF t(3) d n(1)] unfolding H'_def p_def by (cases "us = []") auto
  let ?ht = "ht\<lparr>ht_table := Some (t[i := p]), ht_used := ht_used ht - 1\<rparr>"
  have lus: "us \<noteq> [] \<Longrightarrow> last us \<in> set (bs ! i) \<and> last us \<noteq> a" using d i(2) by auto
  have "ht_detach H ht i (last (0 # us)) a = Some (H', ?ht)"
    using chain_detach [OF t(3) d n(1)] t(1,2) i(1) n
    unfolding ht_detach_def H'_def p_def by (cases "us = []") (auto simp: hnode_get_def)
  moreover have fr: "\<forall>b. b \<notin> set (bs ! i) \<longrightarrow> H' b = H b" "H' a = H a" using lus unfolding H'_def by auto
  moreover have "table_rep H' ?ht (bs[i := us @ vs])"
  proof -
    have "distinct (us @ vs)" "set (us @ vs) \<subseteq> set (bs ! i)" using d i(2) by auto
    then show ?thesis using table_rep_replace [OF rep(1,2,3) t(1) i(1) _ _ _ ch] fr(1) i(2) by simp
  qed
  moreover have sd: "same_data H H'"
  proof (cases "us = []")
    case False
    then obtain pn where "H (last us) = Some pn" using chain_detach [OF t(3) d n(1)] by auto
    then show ?thesis unfolding H'_def using False same_data_next by simp
  qed (simp add: H'_def same_data_def)
  moreover have "placed hf H' (bs[i := us @ vs])"
    using placed_replace [OF rep(4) i(1), of "us @ vs"] i(2) placed_same [OF sd] by auto
  moreover have "set (concat (bs[i := us @ vs])) = set (concat bs) - {a}" "distinct (concat (bs[i := us @ vs]))"
    using concat_replace(1,2) [OF i(1) rep(3), of "us @ vs"] d i(2) by auto
  ultimately show ?thesis by blast
qed

lemma held_remove: "held H (S - {a}) = (held H S)(a := None)"
  by (auto simp: held_def fun_eq_iff)

lemma ht_detach_spec:
  assumes rep: "tabs_rep hf eqf g bs0 bs1" "found_at g bs0 bs1 (second, idx, prev, a)"
  shows "\<exists>H t. ht_detach (hp g) (if second then ht1 g else ht0 g) idx prev a = Some (H, t)
    \<and> ht_rep hf eqf (if second then g\<lparr>hp := H, ht1 := t\<rparr> else g\<lparr>hp := H, ht0 := t\<rparr>)
        ((held (hp g) (set (concat bs0 @ concat bs1)))(a := None))
    \<and> H a = hp g a"
proof -
  have r: "table_rep (hp g) (ht0 g) bs0" "table_rep (hp g) (ht1 g) bs1"
      "distinct (concat bs0 @ concat bs1)" "placed hf (hp g) bs0" "placed hf (hp g) bs1"
      "pairwise (\<lambda>a b. \<not> eqf (hdata (hp g) a) (hdata (hp g) b)) (set (concat bs0 @ concat bs1))"
      "length (concat bs0 @ concat bs1) < 2 ^ 32"
    using rep(1) unfolding tabs_rep_def by presburger+
  define bs where "bs = (if second then bs1 else bs0)"
  define ht where "ht = (if second then ht1 g else ht0 g)"
  obtain us vs where u: "idx < length bs" "bs ! idx = us @ a # vs" "prev = last (0 # us)"
    using rep(2) unfolding found_at_def bs_def by (auto simp: Let_def)
  have b: "table_rep (hp g) ht bs" "bs \<noteq> []" "distinct (concat bs)" "placed hf (hp g) bs"
    using r u(1) unfolding bs_def ht_def by auto
  obtain H t where d: "ht_detach (hp g) ht idx prev a = Some (H, t)" "table_rep H t (bs[idx := us @ vs])"
    "placed hf H (bs[idx := us @ vs])" "same_data (hp g) H"
    "\<forall>b. b \<notin> set (bs ! idx) \<longrightarrow> H b = hp g b" "H a = hp g a"
    "set (concat (bs[idx := us @ vs])) = set (concat bs) - {a}" "distinct (concat (bs[idx := us @ vs]))"
    using table_detach [OF b u(1,2)] u(3) by blast
  let ?bs = "bs[idx := us @ vs]"
  let ?bs0 = "if second then bs0 else ?bs" and ?bs1 = "if second then ?bs else bs1"
  let ?g = "if second then g\<lparr>hp := H, ht1 := t\<rparr> else g\<lparr>hp := H, ht0 := t\<rparr>"
  have sub: "set (bs ! idx) \<subseteq> set (concat bs)" using u(1) unfolding subset_iff in_concat_nth by blast
  have ain: "a \<in> set (concat bs)" using sub u(2) by auto
  have un: "set (concat ?bs0 @ concat ?bs1) = set (concat bs0 @ concat bs1) - {a}"
    using d(7) ain r(3) unfolding bs_def set_append distinct_append by (cases second) (simp_all only: if_True if_False, blast+)
  have ds: "distinct (concat ?bs0 @ concat ?bs1)"
    using d(7,8) r(3) unfolding bs_def distinct_append by (cases second) (simp_all only: if_True if_False, blast+)
  have ln: "length (concat ?bs0 @ concat ?bs1) < 2 ^ 32"
  proof -
    have "length (concat ?bs0 @ concat ?bs1) \<le> length (concat bs0 @ concat bs1)"
      unfolding distinct_card [OF ds, symmetric] distinct_card [OF r(3), symmetric] un
      by (rule card_mono) auto
    with r(7) show ?thesis by simp
  qed
  have fr: "table_rep H (if second then ht0 g else ht1 g) (if second then bs0 else bs1)"
  proof (rule table_rep_frame [where H = "hp g"])
    show "table_rep (hp g) (if second then ht0 g else ht1 g) (if second then bs0 else bs1)" using r(1,2) by simp
    show "H b = hp g b" if "b \<in> set (concat (if second then bs0 else bs1))" for b
    proof -
      have "b \<notin> set (concat bs)" using that r(3) unfolding bs_def distinct_append by (cases second) auto
      then show ?thesis using d(5) sub by blast
    qed
  qed
  have pw: "pairwise (\<lambda>a b. \<not> eqf (hdata H a) (hdata H b)) (set (concat ?bs0 @ concat ?bs1))"
    unfolding un same_data_hdata [OF d(4)] by (rule pairwise_subset [OF r(6)]) blast
  have pl: "placed hf H bs0" "placed hf H bs1" using r(4,5) placed_same [OF d(4)] by blast+
  have emp: "?bs0 ! i = []" if "i < length bs0" "bs0 ! i = []" for i
    using that u(2) unfolding bs_def by (cases "i = idx") auto
  have "tabs_rep hf eqf ?g ?bs0 ?bs1"
    using fr d(2,3) ds ln pw pl emp rep(1) u(1) b(2) unfolding tabs_rep_def bs_def
    by (cases second) (simp_all split: if_splits)
  moreover have "(held (hp g) (set (concat bs0 @ concat bs1)))(a := None) = held (hp ?g) (set (concat ?bs0 @ concat ?bs1))"
    unfolding un held_remove by (simp add: held_same [OF d(4)])
  ultimately have "ht_rep hf eqf ?g ((held (hp g) (set (concat bs0 @ concat bs1)))(a := None))"
    unfolding ht_rep_def by blast
  then show ?thesis using d(1,6) unfolding ht_def by blast
qed

lemma ht_unlink_hit:
  assumes "ht_rep hf eqf g M" "keys_ok hf eqf" "\<forall>a d. M a = Some d \<longrightarrow> test d = Some (eqf d x)"
    and "M a = Some d" "eqf d x"
  shows "\<exists>g'. ht_unlink hf eqf rel g (hf x) test = Some (a, g', []) \<and> ht_rep hf eqf g' (M(a := None))
    \<and> (\<exists>n. hp g' a = Some n \<and> hn_data n = d)"
proof -
  obtain g1 where g1: "(if is_rehashing g then ht_rehash hf eqf rel g 1 else Some (g, [])) = Some (g1, [])"
      "ht_rep hf eqf g1 M"
    using ht_rehash_spec [OF assms(1,2), of rel 1] assms(1) by (cases "is_rehashing g") auto
  obtain bs0 bs1 r where r: "tabs_rep hf eqf g1 bs0 bs1" "M = held (hp g1) (set (concat bs0 @ concat bs1))"
     "ht_search True g1 (hf x) test = Some r" "case r of
      None \<Rightarrow> (\<forall>a d. M a = Some d \<longrightarrow> \<not> eqf d x)
    | Some (second, idx, prev, a) \<Rightarrow> (\<exists>d. M a = Some d \<and> eqf d x) \<and> found_at g1 bs0 bs1 (second, idx, prev, a)"
    using ht_search_rep [where brk = True, OF g1(2) assms(2,3)] by blast
  then obtain s i p b where r': "r = Some (s, i, p, b)" using assms(4,5) by (cases r) auto
  from r(4) r' obtain e where e: "M b = Some e" "eqf e x" "found_at g1 bs0 bs1 (s, i, p, b)" by auto
  then have ba: "b = a" using ht_rep_unique [OF assms(1,2)] assms(4,5) by blast
  obtain H t where d: "ht_detach (hp g1) (if s then ht1 g1 else ht0 g1) i p a = Some (H, t)"
    "ht_rep hf eqf (if s then g1\<lparr>hp := H, ht1 := t\<rparr> else g1\<lparr>hp := H, ht0 := t\<rparr>) (M(a := None))" "H a = hp g1 a"
    using ht_detach_spec [OF r(1) e(3)] unfolding r(2) [symmetric] ba by blast
  have "\<exists>n. H a = Some n \<and> hn_data n = d" using ht_rep_nonzero(2) [OF g1(2) assms(4)] d(3) by simp
  then show ?thesis
    unfolding ht_unlink_def g1(1) Option.bind.bind_lunit prod.case r(3) r' ba option.case d(1)
    using d(2) by auto
qed

lemma ht_unlink_miss:
  assumes "ht_rep hf eqf g M" "keys_ok hf eqf" "\<forall>a d. M a = Some d \<longrightarrow> test d = Some (eqf d x)"
    and "\<forall>a d. M a = Some d \<longrightarrow> \<not> eqf d x"
  shows "\<exists>g'. ht_unlink hf eqf rel g (hf x) test = Some (0, g', []) \<and> ht_rep hf eqf g' M"
proof -
  obtain g1 where g1: "(if is_rehashing g then ht_rehash hf eqf rel g 1 else Some (g, [])) = Some (g1, [])"
      "ht_rep hf eqf g1 M"
    using ht_rehash_spec [OF assms(1,2), of rel 1] assms(1) by (cases "is_rehashing g") auto
  obtain bs0 bs1 r where r: "ht_search True g1 (hf x) test = Some r" "case r of
      None \<Rightarrow> (\<forall>a d. M a = Some d \<longrightarrow> \<not> eqf d x)
    | Some (second, idx, prev, a) \<Rightarrow> (\<exists>d. M a = Some d \<and> eqf d x) \<and> found_at g1 bs0 bs1 (second, idx, prev, a)"
    using ht_search_rep [where brk = True, OF g1(2) assms(2,3)] by blast
  then have "r = None" using assms(4) by (cases r) auto
  then show ?thesis
    unfolding ht_unlink_def g1(1) Option.bind.bind_lunit prod.case r(1) using g1(2) by simp
qed

lemma ht_rep_frame:
  assumes "ht_rep hf eqf g M" "M a = None"
  shows "ht_rep hf eqf (g\<lparr>hp := (hp g)(a := v)\<rparr>) M"
proof -
  obtain bs0 bs1 where rep: "tabs_rep hf eqf g bs0 bs1" and M: "M = held (hp g) (set (concat bs0 @ concat bs1))"
    using assms(1) by (auto simp: ht_rep_def)
  let ?H = "(hp g)(a := v)"
  have na: "a \<notin> set (concat bs0 @ concat bs1)" using assms(2) unfolding M held_None .
  then have eq: "?H b = hp g b" if "b \<in> set (concat bs0 @ concat bs1)" for b using that by auto
  then have hd: "hdata ?H b = hdata (hp g) b" if "b \<in> set (concat bs0 @ concat bs1)" for b
    using that by (simp add: hdata_def)
  have t: "table_rep ?H (ht0 g) bs0" "table_rep ?H (ht1 g) bs1"
    using rep eq unfolding tabs_rep_def by (auto intro!: table_rep_frame [where H = "hp g"])
  have p: "placed hf ?H bs" if "placed hf (hp g) bs" "set (concat bs) \<subseteq> set (concat bs0 @ concat bs1)" for bs
    using that hd unfolding placed_def subset_iff in_concat_nth by metis
  have pl: "placed hf ?H bs0" "placed hf ?H bs1"
    by (rule p; use rep in \<open>simp add: tabs_rep_def\<close>)+
  have "pairwise (\<lambda>a b. \<not> eqf (hdata ?H a) (hdata ?H b)) (set (concat bs0 @ concat bs1))"
    using rep hd unfolding tabs_rep_def pairwise_def by metis
  then have "tabs_rep hf eqf (g\<lparr>hp := ?H\<rparr>) bs0 bs1"
    using rep t pl unfolding tabs_rep_def by (simp split: if_splits)
  moreover have "M = held (hp (g\<lparr>hp := ?H\<rparr>)) (set (concat bs0 @ concat bs1))"
    unfolding M using hd by (auto simp: held_def fun_eq_iff)
  ultimately show ?thesis unfolding ht_rep_def by blast
qed

lemma ht_rep_empty: "ht_rep hf eqf \<lparr>hp = H, ht0 = kmath_ht_reset, ht1 = kmath_ht_reset, rehashidx = -1\<rparr> Map.empty"
  unfolding ht_rep_def
  by (rule exI [of _ "[]"], rule exI [of _ "[]"]) (auto simp: tabs_rep_def placed_def held_def)

subsection \<open>Counts and searches without a match\<close>

lemma ht_rep_count:
  assumes "ht_rep hf eqf g M"
  shows "ht_used (ht0 g) + ht_used (ht1 g) = of_nat (card (dom M))" "finite (dom M)"
proof -
  obtain bs0 bs1 where rep: "tabs_rep hf eqf g bs0 bs1" and M: "M = held (hp g) (set (concat bs0 @ concat bs1))"
    using assms by (auto simp: ht_rep_def)
  have "table_rep (hp g) (ht0 g) bs0" "table_rep (hp g) (ht1 g) bs1" "distinct (concat bs0 @ concat bs1)"
    using rep by (simp_all add: tabs_rep_def)
  moreover have "ht_used ht = of_nat (length (concat bs))" if "table_rep (hp g) ht bs" for ht bs
    using that by (cases "bs = []") (auto simp: table_rep_def kmath_ht_reset_def)
  ultimately show "ht_used (ht0 g) + ht_used (ht1 g) = of_nat (card (dom M))"
    unfolding M dom_held by (metis distinct_card length_append of_nat_add)
  show "finite (dom M)" unfolding M dom_held by simp
qed

lemma chain_find_never:
  assumes "chain_find H test prev p = Some r" "\<And>d. test d \<noteq> Some True"
  shows "r = None"
proof -
  have "(\<forall>d. test d \<noteq> Some True) \<longrightarrow> r = None"
    by (rule chain_find.raw_induct [OF _ assms(1), where P = "\<lambda>H t prev p r. (\<forall>d. t d \<noteq> Some True) \<longrightarrow> r = None"])
       (auto simp: bind_eq_Some_conv split: if_splits)
  with assms(2) show ?thesis by blast
qed

lemma ht_find_never:
  assumes "\<And>d. test d \<noteq> Some True"
  shows "ht_find g hash test = None \<or> ht_find g hash test = Some 0"
proof -
  have "r = None" if "ht_search_in H ht hash test = Some r" for H ht r
    using that chain_find_never [OF _ assms] by (fastforce simp: ht_search_in_def bind_eq_Some_conv split: option.splits)
  then have "r = None" if "ht_search True g hash test = Some r" for r
    using that by (auto simp: ht_search_def bind_eq_Some_conv split: option.splits if_splits) (metis option.distinct(1))+
  then show ?thesis by (cases "ht_search True g hash test") (auto simp: ht_find_def)
qed

end
