(* ===== verification/Kylin_Dictionary.thy ===== *)
theory Kylin_Dictionary
  imports Kylin_Hashtable_Rep
begin

section \<open>The dictionary interface\<close>

text \<open>
  The contract that the dictionary and the index share, as a locale over an abstract
  representation, with the refinement of an abstract dictionary proved once inside it.
\<close>

subsection \<open>Dictionaries\<close>

text \<open>
  What a client sees of the dictionary and of the index: nodes are added under addresses the
  client allocates, searched and unlinked by key. The abstract dictionary is the list of its
  nodes; it is defined for a client that adds a node only when the node is new and its key absent.
\<close>

datatype ('k, 'd) dict_op = Add kaddr 'd | Unlink 'k | Look 'k

fun dict_spec :: "('d \<Rightarrow> 'k \<Rightarrow> bool) \<Rightarrow> ('d \<Rightarrow> 'd \<Rightarrow> bool) \<Rightarrow> (kaddr \<times> 'd) list \<Rightarrow> ('k, 'd) dict_op
    \<Rightarrow> (kaddr \<times> (kaddr \<times> 'd) list) option" where
  "dict_spec keyed eqf xs (Add a d) =
     (if a = 0 \<or> a \<in> fst ` set xs \<or> (\<exists>(_, e) \<in> set xs. eqf e d) \<or> length xs + 1 \<ge> 2 ^ 32 then None
      else Some (a, (a, d) # xs))"
| "dict_spec keyed eqf xs (Unlink k) =
     (case find (\<lambda>(_, d). keyed d k) xs of None \<Rightarrow> Some (0, xs)
      | Some (a, _) \<Rightarrow> Some (a, filter (\<lambda>(b, _). b \<noteq> a) xs))"
| "dict_spec keyed eqf xs (Look k) =
     (case find (\<lambda>(_, d). keyed d k) xs of None \<Rightarrow> Some (0, xs) | Some (a, _) \<Rightarrow> Some (a, xs))"

fun dict_run :: "('s \<Rightarrow> 'o \<Rightarrow> (kaddr \<times> 's) option) \<Rightarrow> 's \<Rightarrow> 'o list \<Rightarrow> (kaddr list \<times> 's) option" where
  "dict_run step s [] = Some ([], s)"
| "dict_run step s (x # xs) = do { (r, s) \<leftarrow> step s x; (rs, s) \<leftarrow> dict_run step s xs; Some (r # rs, s) }"

fun dict_impl :: "('s \<Rightarrow> kaddr \<Rightarrow> 'd \<Rightarrow> (kaddr \<times> 's) option) \<Rightarrow> ('s \<Rightarrow> 'k \<Rightarrow> (kaddr \<times> 's) option) \<Rightarrow> ('s \<Rightarrow> 'k \<Rightarrow> kaddr option)
    \<Rightarrow> 's \<Rightarrow> ('k, 'd) dict_op \<Rightarrow> (kaddr \<times> 's) option" where
  "dict_impl add unlink look s (Add a d) = add s a d"
| "dict_impl add unlink look s (Unlink k) = unlink s k"
| "dict_impl add unlink look s (Look k) = map_option (\<lambda>a. (a, s)) (look s k)"

locale dictionary =
  fixes rep :: "'s \<Rightarrow> (kaddr \<rightharpoonup> 'd) \<Rightarrow> bool"
    and keyed :: "'d \<Rightarrow> 'k \<Rightarrow> bool"
    and eqf :: "'d \<Rightarrow> 'd \<Rightarrow> bool"
    and add :: "'s \<Rightarrow> kaddr \<Rightarrow> 'd \<Rightarrow> (kaddr \<times> 's) option"
    and unlink :: "'s \<Rightarrow> 'k \<Rightarrow> (kaddr \<times> 's) option"
    and look :: "'s \<Rightarrow> 'k \<Rightarrow> kaddr option"
  assumes look_hit: "rep s M \<Longrightarrow> M a = Some d \<Longrightarrow> keyed d k \<Longrightarrow> look s k = Some a"
    and look_miss: "rep s M \<Longrightarrow> \<forall>a d. M a = Some d \<longrightarrow> \<not> keyed d k \<Longrightarrow> look s k = Some 0"
    and unlink_hit: "rep s M \<Longrightarrow> M a = Some d \<Longrightarrow> keyed d k \<Longrightarrow>
      \<exists>s'. unlink s k = Some (a, s') \<and> rep s' (M(a := None))"
    and unlink_miss: "rep s M \<Longrightarrow> \<forall>a d. M a = Some d \<longrightarrow> \<not> keyed d k \<Longrightarrow>
      \<exists>s'. unlink s k = Some (0, s') \<and> rep s' M"
    and add_new: "rep s M \<Longrightarrow> a \<noteq> 0 \<Longrightarrow> M a = None \<Longrightarrow> card (dom M) + 1 < 2 ^ 32 \<Longrightarrow>
      \<forall>b e. M b = Some e \<longrightarrow> \<not> eqf e d \<Longrightarrow> \<exists>s'. add s a d = Some (a, s') \<and> rep s' (M(a \<mapsto> d))"
begin

lemma map_of_find:
  assumes "distinct (map fst xs)" "find (\<lambda>(_, d). keyed d k) xs = Some (a, d)"
  shows "map_of xs a = Some d" "keyed d k"
  using assms by (auto simp: find_Some_iff in_set_conv_nth)

lemma map_of_find_none:
  assumes "find (\<lambda>(_, d). keyed d k) xs = None"
  shows "\<forall>a d. map_of xs a = Some d \<longrightarrow> \<not> keyed d k"
  using assms by (auto simp: find_None_iff dest!: map_of_SomeD)

lemma step_refines:
  assumes "rep s (map_of xs)" "distinct (map fst xs)" "dict_spec keyed eqf xs x = Some (r, ys)"
  shows "\<exists>s'. dict_impl add unlink look s x = Some (r, s') \<and> rep s' (map_of ys) \<and> distinct (map fst ys)"
proof (cases x)
  case (Add a d)
  with assms(3) have c: "a \<noteq> 0" "a \<notin> fst ` set xs" "\<forall>(_, e) \<in> set xs. \<not> eqf e d" "length xs + 1 < 2 ^ 32"
    "r = a" "ys = (a, d) # xs" by (auto split: if_splits)
  have "card (dom (map_of xs)) + 1 < 2 ^ 32"
    using c(4) assms(2) by (simp add: dom_map_of_conv_image_fst card_image distinct_card distinct_map)
  moreover have "\<forall>b e. map_of xs b = Some e \<longrightarrow> \<not> eqf e d" using c(3) by (auto dest!: map_of_SomeD)
  moreover have "map_of xs a = None" using c(2) by (simp add: map_of_eq_None_iff)
  ultimately show ?thesis using add_new [OF assms(1) c(1)] c(2,5,6) Add assms(2) by auto
next
  case (Unlink k)
  show ?thesis
  proof (cases "find (\<lambda>(_, d). keyed d k) xs")
    case None
    then show ?thesis using unlink_miss [OF assms(1) map_of_find_none [OF None]] assms(2,3) Unlink by auto
  next
    case (Some p)
    obtain a d where p: "p = (a, d)" by (cases p)
    note f = map_of_find [OF assms(2) Some [unfolded p]]
    have r: "r = a" "ys = filter (\<lambda>(b, _). b \<noteq> a) xs" using assms(3) Unlink Some p by auto
    have "map_of ys = (map_of xs)(a := None)"
      unfolding r(2) by (induction xs) (auto simp: fun_eq_iff)
    moreover have "distinct (map fst ys)" unfolding r(2) using assms(2) by (simp add: distinct_map_filter)
    ultimately show ?thesis using unlink_hit [OF assms(1) f] Unlink r(1) by auto
  qed
next
  case (Look k)
  then show ?thesis
    using look_miss [OF assms(1) map_of_find_none] look_hit [OF assms(1) map_of_find [OF assms(2)]] assms
    by (cases "find (\<lambda>(_, d). keyed d k) xs") auto
qed

text \<open>The implementation answers every sequence of operations as the abstract dictionary does.\<close>

lemma run_refines:
  assumes "rep s (map_of xs)" "distinct (map fst xs)" "dict_run (dict_spec keyed eqf) xs ops = Some (rs, ys)"
  shows "\<exists>s'. dict_run (dict_impl add unlink look) s ops = Some (rs, s') \<and> rep s' (map_of ys)"
  using assms
proof (induction ops arbitrary: s xs rs)
  case Nil
  then show ?case by simp
next
  case (Cons x ops)
  from Cons.prems(3) obtain r zs rs' where z: "dict_spec keyed eqf xs x = Some (r, zs)"
    "dict_run (dict_spec keyed eqf) zs ops = Some (rs', ys)" "rs = r # rs'"
    by (auto simp: bind_eq_Some_conv)
  obtain s' where "dict_impl add unlink look s x = Some (r, s')" "rep s' (map_of zs)" "distinct (map fst zs)"
    using step_refines [OF Cons.prems(1,2) z(1)] by blast
  with Cons.IH [OF _ _ z(2)] z(3) show ?case by fastforce
qed

end

end
