(* ===== verification/Kylin_Hashtable_Iter.thy ===== *)
theory Kylin_Hashtable_Iter
  imports Kylin_Hashtable_Rep
begin

section \<open>Clearing and iterating a hash table\<close>

text \<open>
  Releasing all nodes of the tables, and the order in which next visits them.
\<close>

subsection \<open>Clearing\<close>

definition drop_nodes :: "'d hheap \<Rightarrow> kaddr set \<Rightarrow> 'd hheap" where
  "drop_nodes H S = (\<lambda>a. if a \<in> S then None else H a)"

lemma drop_nodes_simps [simp]:
  "drop_nodes H {} = H" "drop_nodes (drop_nodes H S) T = drop_nodes H (S \<union> T)"
  "(drop_nodes H S)(a := None) = drop_nodes H (insert a S)"
  by (auto simp: drop_nodes_def)

lemma chain_free_spec:
  assumes "chain H p as" "distinct as"
  shows "chain_free rel H used rels p =
    Some (drop_nodes H (set as), used - of_nat (length as), rels @ concat (map (\<lambda>a. rel (hdata H a)) as))"
  using assms
proof (induction as arbitrary: H p used rels)
  case Nil
  then show ?case by (subst chain_free.simps) simp
next
  case (Cons a as)
  then obtain n where n: "p = a" "a \<noteq> 0" "H a = Some n" "chain H (hn_next n) as" "a \<notin> set as" by auto
  have "hdata (H(a := None)) b = hdata H b" if "b \<in> set as" for b
    using that n(5) by (auto simp: hdata_def)
  then have mp: "map (\<lambda>b. rel (hdata (H(a := None)) b)) as = map (\<lambda>b. rel (hdata H b)) as" by simp
  have ch: "chain (H(a := None)) (hn_next n) as" using n(4,5) by simp
  have "chain_free rel H used rels p =
      chain_free rel (H(a := None)) (used - 1) (rels @ rel (hdata H a)) (hn_next n)"
    using n by (subst chain_free.simps) (simp add: hnode_get_def hdata_def)
  also have "\<dots> = Some (drop_nodes (H(a := None)) (set as), used - 1 - of_nat (length as),
      (rels @ rel (hdata H a)) @ concat (map (\<lambda>b. rel (hdata H b)) as))"
    unfolding mp [symmetric] by (rule Cons.IH [OF ch]) (use Cons.prems in simp)
  also have "drop_nodes (H(a := None)) (set as) = drop_nodes H (set (a # as))" by (auto simp: drop_nodes_def)
  finally show ?case by (simp add: algebra_simps)
qed

lemma clear_loop:
  assumes "i \<le> length bs" "length t = length bs" "distinct (concat bs)" "length (concat bs) < 2 ^ 64"
    and "\<forall>j < length bs. chain H (t ! j) (bs ! j)"
  shows "for_loop [i..<length bs] (clear_bucket rel t)
      (drop_nodes H (set (concat (take i bs))), of_nat (length (concat (drop i bs))), rels)
    = Some (drop_nodes H (set (concat bs)), 0 :: ksize, rels @ concat (map (\<lambda>a. rel (hdata H a)) (concat (drop i bs))))"
  using assms(1)
proof (induction "length bs - i" arbitrary: i rels)
  case 0
  then show ?case by simp
next
  case (Suc k)
  then have i: "i < length bs" by simp
  let ?H = "drop_nodes H (set (concat (take i bs)))"
  have split: "drop i bs = bs ! i # drop (Suc i) bs" "take (Suc i) bs = take i bs @ [bs ! i]"
    using i by (simp_all add: Cons_nth_drop_Suc take_Suc_conv_app_nth)
  have dj: "distinct (bs ! i)" "set (bs ! i) \<inter> set (concat (take i bs)) = {}"
  proof -
    have "concat bs = concat (take i bs) @ bs ! i @ concat (drop (Suc i) bs)"
      using i by (metis append_take_drop_id concat_append split(1) concat.simps(2))
    with assms(3) show "distinct (bs ! i)" "set (bs ! i) \<inter> set (concat (take i bs)) = {}" by auto
  qed
  have len: "length (concat (drop i bs)) < 2 ^ 64"
    using assms(4) by (metis append_take_drop_id concat_append length_append le_add2 order.strict_trans1)
  have u0: "(of_nat (length (concat (drop i bs))) :: ksize) = 0 \<longleftrightarrow> concat (drop i bs) = []"
    using len by (simp add: word_eq_iff_unat unat_of_nat)
  have IH: "for_loop [Suc i..<length bs] (clear_bucket rel t)
      (drop_nodes H (set (concat (take (Suc i) bs))), of_nat (length (concat (drop (Suc i) bs))), rels')
    = Some (drop_nodes H (set (concat bs)), 0 :: ksize,
        rels' @ concat (map (\<lambda>a. rel (hdata H a)) (concat (drop (Suc i) bs))))" for rels'
    using Suc.hyps i by simp
  have ch: "chain ?H (t ! i) (bs ! i)"
  proof -
    have "chain ?H (t ! i) (bs ! i) = chain H (t ! i) (bs ! i)"
      using dj(2) by (intro chain_frame) (auto simp: drop_nodes_def)
    then show ?thesis using assms(5) i by simp
  qed
  have hd: "map (\<lambda>a. rel (hdata ?H a)) (bs ! i) = map (\<lambda>a. rel (hdata H a)) (bs ! i)"
    using dj(2) by (auto simp: hdata_def drop_nodes_def)
  have step: "clear_bucket rel t i (?H, of_nat (length (concat (drop i bs))), rels)
    = Some (drop_nodes H (set (concat (take (Suc i) bs))), of_nat (length (concat (drop (Suc i) bs))),
        rels @ concat (map (\<lambda>a. rel (hdata H a)) (bs ! i)))"
  proof (cases "concat (drop i bs) = []")
    case True
    then have e: "bs ! i = []" "concat (drop (Suc i) bs) = []" using split(1) by auto
    show ?thesis unfolding True e split(2) by (simp add: e clear_bucket_def)
  next
    case False
    have "arr_get t i = Some (t ! i)" using i assms(2) by simp
    moreover note cf = chain_free_spec [OF ch dj(1), of rel "of_nat (length (concat (drop i bs)))" rels, unfolded hd]
    moreover have "drop_nodes ?H (set (bs ! i)) = drop_nodes H (set (concat (take (Suc i) bs)))"
      unfolding split(2) by simp
    moreover have "(of_nat (length (concat (drop i bs))) :: ksize) - of_nat (length (bs ! i))
        = of_nat (length (concat (drop (Suc i) bs)))" unfolding split(1) by simp
    moreover have "(of_nat (length (concat (drop i bs))) :: ksize) \<noteq> 0" using False u0 by blast
    ultimately show ?thesis by (simp add: clear_bucket_def del: set_concat drop_nodes_simps length_concat)
  qed
  have "for_loop [i..<length bs] (clear_bucket rel t)
      (?H, of_nat (length (concat (drop i bs))), rels)
    = for_loop [Suc i..<length bs] (clear_bucket rel t)
      (drop_nodes H (set (concat (take (Suc i) bs))), of_nat (length (concat (drop (Suc i) bs))),
        rels @ concat (map (\<lambda>a. rel (hdata H a)) (bs ! i)))"
    using i by (subst upt_conv_Cons) (simp_all only: for_loop.simps step Option.bind.bind_lunit)
  then show ?case unfolding IH using split(1) by simp
qed

lemma ht_clear_spec:
  assumes "table_rep H ht bs" "bs \<noteq> []" "distinct (concat bs)" "length (concat bs) < 2 ^ 64"
  shows "ht_clear rel H ht = Some (drop_nodes H (set (concat bs)), ht\<lparr>ht_used := 0\<rparr>,
    concat (map (\<lambda>a. rel (hdata H a)) (concat bs)))"
proof -
  obtain t k where k: "ht_table ht = Some t" "length t = 2 ^ k" "k < 61" "length bs = 2 ^ k" "ht_cap ht = 2 ^ k"
      "ht_used ht = of_nat (length (concat bs))" "\<forall>i < 2 ^ k. chain H (t ! i) (bs ! i)"
    using assms(1,2) by (auto simp: table_rep_def)
  have cap: "unat (ht_cap ht) = length bs" using k unat_pow2 [where 'a = 64, of k] by simp
  show ?thesis
    using clear_loop [of 0 bs t H rel "[]"] k assms(3,4)
    unfolding ht_clear_def cap by simp
qed

text \<open>
  Destroying a table releases what every node holds, once, and frees exactly its nodes.
\<close>

lemma ht_destroy_spec:
  assumes "ht_rep hf eqf g M"
  shows "\<exists>as. distinct as \<and> set as = dom M
    \<and> ht_destroy rel g = Some (drop_nodes (hp g) (dom M), concat (map (\<lambda>a. rel (the (M a))) as))"
proof -
  obtain bs0 bs1 where rep: "tabs_rep hf eqf g bs0 bs1" and M: "M = held (hp g) (set (concat bs0 @ concat bs1))"
    using assms by (auto simp: ht_rep_def)
  have r: "table_rep (hp g) (ht0 g) bs0" "table_rep (hp g) (ht1 g) bs1" "distinct (concat bs0 @ concat bs1)"
      "length (concat bs0 @ concat bs1) < 2 ^ 32"
    using rep by (simp_all add: tabs_rep_def)
  let ?H = "drop_nodes (hp g) (set (concat bs0))"
  have t1: "table_rep ?H (ht1 g) bs1"
    using r(3) by (intro table_rep_frame [OF r(2)]) (auto simp: drop_nodes_def)
  have "hdata ?H a = hdata (hp g) a" if "a \<in> set (concat bs1)" for a
    using that r(3) by (auto simp: drop_nodes_def hdata_def)
  then have hd: "map (\<lambda>a. rel (hdata ?H a)) (concat bs1) = map (\<lambda>a. rel (hdata (hp g) a)) (concat bs1)" by simp
  have c0: "(if ht_table (ht0 g) \<noteq> None then do {
         (H, t, r) \<leftarrow> ht_clear rel (hp g) (ht0 g);
         Some (g\<lparr>hp := H, ht0 := kmath_ht_reset\<rparr>, r) } else Some (g, []))
    = Some (g\<lparr>hp := ?H, ht0 := kmath_ht_reset\<rparr>, concat (map (\<lambda>a. rel (hdata (hp g) a)) (concat bs0)))"
  proof (cases "bs0 = []")
    case True
    then have z: "ht0 g = kmath_ht_reset" using r(1) by simp
    then have "ht_table (ht0 g) = None" by (simp add: kmath_ht_reset_def)
    moreover have "g\<lparr>hp := hp g, ht0 := kmath_ht_reset\<rparr> = g" by (subst z [symmetric]) simp
    ultimately show ?thesis using True by simp
  next
    case False
    then have "ht_table (ht0 g) \<noteq> None" using r(1) by (auto simp: table_rep_def)
    then show ?thesis using ht_clear_spec [OF r(1) False, of rel] r(3,4) by simp
  qed
  have c1: "(if ht_table (ht1 g) \<noteq> None then do {
         (H, t, r) \<leftarrow> ht_clear rel ?H (ht1 g);
         Some (g'\<lparr>hp := H, ht1 := kmath_ht_reset\<rparr>, r) } else Some (g', []))
    = Some (g'\<lparr>hp := drop_nodes (hp g) (set (concat bs0 @ concat bs1)), ht1 := kmath_ht_reset\<rparr>,
        concat (map (\<lambda>a. rel (hdata (hp g) a)) (concat bs1)))" if g': "hp g' = ?H" "ht1 g' = ht1 g" for g'
  proof (cases "bs1 = []")
    case True
    then have z: "ht1 g = kmath_ht_reset" using r(2) by simp
    then have "ht_table (ht1 g) = None" by (simp add: kmath_ht_reset_def)
    moreover have "g'\<lparr>hp := ?H, ht1 := kmath_ht_reset\<rparr> = g'" unfolding g'(1) [symmetric] z [symmetric] g'(2) [symmetric] by simp
    ultimately show ?thesis using True by simp
  next
    case False
    then have "ht_table (ht1 g) \<noteq> None" using r(2) by (auto simp: table_rep_def)
    moreover have "distinct (concat bs1)" "length (concat bs1) < 2 ^ 64" using r(3,4) by simp_all
    note cl = ht_clear_spec [OF t1 False this, of rel, unfolded hd]
    ultimately show ?thesis unfolding cl by simp
  qed
  have "ht_destroy rel g = Some (drop_nodes (hp g) (set (concat bs0 @ concat bs1)),
      concat (map (\<lambda>a. rel (hdata (hp g) a)) (concat bs0 @ concat bs1)))"
  proof -
    define g1 where "g1 = g\<lparr>hp := ?H, ht0 := kmath_ht_reset\<rparr>"
    have g1: "hp g1 = ?H" "ht1 g1 = ht1 g" by (simp_all add: g1_def)
    show ?thesis unfolding ht_destroy_def c0 g1_def [symmetric] Option.bind.bind_lunit prod.case g1 c1 [OF g1]
      by simp
  qed
  moreover have "map (\<lambda>a. rel (the (M a))) (concat bs0 @ concat bs1) = map (\<lambda>a. rel (hdata (hp g) a)) (concat bs0 @ concat bs1)"
    by (rule map_cong) (auto simp: M held_def)
  ultimately have "ht_destroy rel g = Some (drop_nodes (hp g) (dom M),
      concat (map (\<lambda>a. rel (the (M a))) (concat bs0 @ concat bs1)))" unfolding M dom_held by argo
  moreover have "set (concat bs0 @ concat bs1) = dom M" unfolding M dom_held ..
  ultimately show ?thesis using r(3) by blast
qed

text \<open>Clearing leaves the bucket heads in place: they point to freed nodes.\<close>

lemma ht_clear_dangles:
  assumes "ht_rep hf eqf g M" "\<not> is_rehashing g" "M b = Some d"
  shows "\<exists>g' rels. ht_clear_both rel g = Some (g', rels) \<and> ht_used (ht0 g') = 0 \<and> ht_used (ht1 g') = 0
    \<and> ht_find g' (hf d) test = None"
proof -
  obtain bs0 bs1 where rep: "tabs_rep hf eqf g bs0 bs1" and M: "M = held (hp g) (set (concat bs0 @ concat bs1))"
    using assms(1) by (auto simp: ht_rep_def)
  have b1: "bs1 = []" using rep assms(2) unfolding tabs_rep_def by presburger
  have r: "table_rep (hp g) (ht0 g) bs0" "ht1 g = kmath_ht_reset" "distinct (concat bs0)"
      "length (concat bs0) < 2 ^ 32" "placed hf (hp g) bs0"
    using rep b1 by (simp_all add: tabs_rep_def)
  have b: "b \<in> set (concat bs0)" "d = hdata (hp g) b" using assms(3) b1 unfolding M held_Some by auto
  then obtain i where i: "i < length bs0" "b \<in> set (bs0 ! i)" unfolding in_concat_nth by blast
  then have ne: "bs0 \<noteq> []" by auto
  obtain t k where t: "ht_table (ht0 g) = Some t" "length t = 2 ^ k" "k < 61" "length bs0 = 2 ^ k"
      "ht_mask (ht0 g) = mask k" "chain (hp g) (t ! i) (bs0 ! i)"
    using r(1) ne i(1) by (auto simp: table_rep_def)
  have idx: "unat (hf d AND mask k) = i"
    using r(5) i b(2) t(4) bucket_index [of k "hf d"] t(3) unfolding placed_def by simp
  let ?H = "drop_nodes (hp g) (set (concat bs0))"
  let ?g = "g\<lparr>hp := ?H, ht0 := (ht0 g)\<lparr>ht_used := 0\<rparr>, rehashidx := -1\<rparr>"
  have cl: "ht_clear_both rel g = Some (?g, concat (map (\<lambda>a. rel (hdata (hp g) a)) (concat bs0)))"
    using ht_clear_spec [OF r(1) ne r(3), of rel] r(4) t(1)
    unfolding ht_clear_both_def by (simp add: r(2) kmath_ht_reset_def)
  obtain a as where a: "bs0 ! i = a # as" using i(2) by (cases "bs0 ! i") auto
  then have h: "t ! i = a" "a \<noteq> 0" using t(6) by auto
  have "a \<in> set (concat bs0)" using i(1) a unfolding in_concat_nth by force
  then have "?H a = None" by (simp add: drop_nodes_def)
  then have "chain_find ?H test 0 (t ! i) = None" using h by (subst chain_find.simps) (simp add: hnode_get_def)
  then have "ht_find ?g (hf d) test = None"
    using t i(1) idx by (simp add: ht_find_def ht_search_def ht_search_in_def)
  then show ?thesis using cl r(2) by (intro exI [of _ ?g] exI) (simp add: kmath_ht_reset_def)
qed

subsection \<open>Iteration\<close>

definition hd0 :: "kaddr list \<Rightarrow> kaddr" where
  "hd0 xs = (case xs of [] \<Rightarrow> 0 | x # _ \<Rightarrow> x)"

lemma hd0_append: "hd0 (xs @ ys) = (if xs = [] then hd0 ys else hd0 xs)"
  by (cases xs) (auto simp: hd0_def)

lemma first_bucket_spec:
  assumes "length t = length bs" "\<forall>i < length bs. chain H (t ! i) (bs ! i)"
  shows "\<exists>r. first_bucket t [m..<length bs] = Some r \<and> (case r of
      None \<Rightarrow> concat (drop m bs) = []
    | Some i \<Rightarrow> m \<le> i \<and> i < length bs \<and> concat (drop m bs) \<noteq> [] \<and> t ! i = hd0 (concat (drop m bs)))"
proof (induction "length bs - m" arbitrary: m)
  case 0
  then show ?case by (simp add: first_bucket_def)
next
  case (Suc k)
  then have m: "m < length bs" by simp
  then have d: "drop m bs = bs ! m # drop (Suc m) bs" by (simp add: Cons_nth_drop_Suc)
  have c: "chain H (t ! m) (bs ! m)" using assms(2) m by blast
  have u: "first_bucket t [m..<length bs] = (if t ! m \<noteq> 0 then Some (Some m) else first_bucket t [Suc m..<length bs])"
    using m assms(1) by (subst upt_conv_Cons) (simp_all add: first_bucket_def)
  show ?case
  proof (cases "bs ! m = []")
    case True
    then have "t ! m = 0" using chain_null [OF c] by simp
    moreover have "k = length bs - Suc m" using Suc.hyps(2) by simp
    from Suc.hyps(1) [OF this] obtain r where "first_bucket t [Suc m..<length bs] = Some r" "case r of
      None \<Rightarrow> concat (drop (Suc m) bs) = []
    | Some i \<Rightarrow> Suc m \<le> i \<and> i < length bs \<and> concat (drop (Suc m) bs) \<noteq> [] \<and> t ! i = hd0 (concat (drop (Suc m) bs))" by blast
    moreover have "concat (drop m bs) = concat (drop (Suc m) bs)" using d True by simp
    ultimately show ?thesis unfolding u by (cases r) auto
  next
    case False
    then have "t ! m \<noteq> 0" "t ! m = hd0 (bs ! m)"
      using chain_null [OF c] chain_head [OF c] by (auto simp: hd0_def)
    then show ?thesis using False d m unfolding u by (simp add: hd0_append)
  qed
qed

lemma first_int_small: "n < 2 ^ 31 \<Longrightarrow> first_int t n = first_bucket t [0..<n]"
  by (simp add: first_int_def first_bucket_def int_find_small)

lemma next_walk_skip:
  assumes "chain (hp g) p (ps @ qs)" "\<And>b. b \<in> set ps \<Longrightarrow> \<not> eqn (hdata (hp g) b)"
  shows "next_walk g eqn second t cap index p = next_walk g eqn second t cap index (hd0 qs)"
  using assms
proof (induction ps arbitrary: p)
  case Nil
  then have "p = hd0 qs" using chain_head [of "hp g" p qs] by (simp add: hd0_def)
  then show ?case by simp
next
  case (Cons a ps)
  then obtain n where n: "p = a" "a \<noteq> 0" "hp g a = Some n" "chain (hp g) (hn_next n) (ps @ qs)" by auto
  have "\<not> eqn (hn_data n)" using Cons.prems(2) [of a] n by (simp add: hdata_def)
  then have "next_walk g eqn second t cap index p = next_walk g eqn second t cap index (hn_next n)"
    using n by (subst next_walk.simps) (simp add: hnode_get_def)
  then show ?case using Cons.IH [OF n(4)] Cons.prems(2) by simp
qed

lemma next_walk_none:
  assumes "chain (hp g) p ps" "\<And>b. b \<in> set ps \<Longrightarrow> \<not> eqn (hdata (hp g) b)"
  shows "next_walk g eqn second t cap index p = Some None"
proof -
  have "next_walk g eqn second t cap index p = next_walk g eqn second t cap index (hd0 [])"
    using assms by (intro next_walk_skip [of g p ps]) simp_all
  then show ?thesis by (simp add: hd0_def next_walk.simps [of g eqn second t cap index 0])
qed

lemma next_in_none:
  assumes "table_rep (hp g) ht bs" "\<And>b. b \<in> set (concat bs) \<Longrightarrow> \<not> eqn (hdata (hp g) b)"
  shows "next_in g eqn second ht hash = Some None"
proof (cases "bs = []")
  case True
  then show ?thesis using assms(1) by (simp add: next_in_def kmath_ht_reset_def)
next
  case False
  then obtain t k where t: "ht_table ht = Some t" "length t = 2 ^ k" "k < 61" "length bs = 2 ^ k"
      "ht_mask ht = mask k" "\<forall>i < 2 ^ k. chain (hp g) (t ! i) (bs ! i)"
    using assms(1) by (auto simp: table_rep_def)
  define i where "i = unat (hash AND mask k)"
  have i: "i < 2 ^ k" using bucket_index [of k hash] t(3) by (simp add: i_def)
  then have "\<not> eqn (hdata (hp g) b)" if "b \<in> set (bs ! i)" for b
    using that assms(2) t(4) unfolding in_concat_nth by metis
  then have "next_walk g eqn second t (unat (ht_cap ht)) i (t ! i) = Some None"
    using t(6) i by (intro next_walk_none) blast+
  then show ?thesis using t i by (simp add: next_in_def i_def [symmetric])
qed

lemma chain_tail: "chain H p (ps @ a # qs) \<Longrightarrow> H a = Some n \<Longrightarrow> chain H (hn_next n) qs"
  by (induction ps arbitrary: p) auto

text \<open>
  Where the walk stands on the node itself, the result is the head of the following chains of the
  table, then of the second table.
\<close>

lemma next_walk_at:
  assumes t: "length t = length bs" "\<forall>i < length bs. chain (hp g) (t ! i) (bs ! i)" "j < length bs"
    and a: "a \<noteq> 0" "hp g a = Some n" "eqn (hn_data n)" "hn_next n = 0"
    and r1: "\<not> second \<Longrightarrow> table_rep (hp g) (ht1 g) bs1" and small: "unat (ht_cap (ht1 g)) < 2 ^ 31"
  shows "next_walk g eqn second t (length bs) j a =
    (if concat (drop (Suc j) bs) \<noteq> [] then Some (Some (hd0 (concat (drop (Suc j) bs))))
     else if second \<or> bs1 = [] then Some (Some 0)
     else if concat bs1 \<noteq> [] then Some (Some (hd0 (concat bs1)))
     else Some None)"
proof -
  obtain r where r: "first_bucket t [Suc j..<length bs] = Some r" "case r of
      None \<Rightarrow> concat (drop (Suc j) bs) = []
    | Some i \<Rightarrow> Suc j \<le> i \<and> i < length bs \<and> concat (drop (Suc j) bs) \<noteq> [] \<and> t ! i = hd0 (concat (drop (Suc j) bs))"
    using first_bucket_spec [OF t(1,2)] by blast
  show ?thesis
  proof (cases r)
    case (Some i)
    then have "i < length bs" "concat (drop (Suc j) bs) \<noteq> []" "t ! i = hd0 (concat (drop (Suc j) bs))"
      using r(2) by simp_all
    then show ?thesis using Some r(1) a t(1)
      by (subst next_walk.simps) (simp add: hnode_get_def Let_def del: concat_eq_Nil_conv)
  next
    case None
    then have e: "concat (drop (Suc j) bs) = []" using r(2) by simp
    have mx: "max (Suc j) (length bs) = length bs" using t(3) by simp
    have step: "next_walk g eqn second t (length bs) j a = (if second then Some (Some 0)
      else (case ht_table (ht1 g) of None \<Rightarrow> Some (Some 0)
        | Some t1 \<Rightarrow> do {
            pos1 \<leftarrow> first_int t1 (unat (ht_cap (ht1 g)));
            case pos1 of Some j \<Rightarrow> do { p \<leftarrow> arr_get t1 j; Some (Some p) }
            | None \<Rightarrow> next_walk g eqn second t (length bs) (length bs) (hn_next n) }))"
      using None r(1) a by (subst next_walk.simps) (simp add: hnode_get_def Let_def mx cong: option.case_cong)
    have z: "next_walk g eqn second t (length bs) (length bs) (hn_next n) = Some None"
      using a(4) by (subst next_walk.simps) simp
    show ?thesis
    proof (cases "second \<or> bs1 = []")
      case True
      then have "\<not> second \<Longrightarrow> ht_table (ht1 g) = None" using r1 by (auto simp: kmath_ht_reset_def)
      then show ?thesis using True e unfolding step by simp
    next
      case False
      then obtain t1 k where t1: "ht_table (ht1 g) = Some t1" "length t1 = length bs1" "ht_cap (ht1 g) = 2 ^ k"
          "k < 61" "length bs1 = 2 ^ k" "\<forall>i < length bs1. chain (hp g) (t1 ! i) (bs1 ! i)"
        using r1 by (auto simp: table_rep_def)
      have cap: "unat (ht_cap (ht1 g)) = length bs1" using t1 unat_pow2 [where 'a = 64, of k] by simp
      obtain r' where r': "first_bucket t1 [0..<length bs1] = Some r'" "case r' of
          None \<Rightarrow> concat (drop 0 bs1) = []
        | Some i \<Rightarrow> 0 \<le> i \<and> i < length bs1 \<and> concat (drop 0 bs1) \<noteq> [] \<and> t1 ! i = hd0 (concat (drop 0 bs1))"
        using first_bucket_spec [OF t1(2,6)] by blast
      have ns: "\<not> second" "bs1 \<noteq> []" using False by auto
      have s2: "next_walk g eqn second t (length bs) j a = (case r' of Some j \<Rightarrow> do { p \<leftarrow> arr_get t1 j; Some (Some p) }
            | None \<Rightarrow> Some None)"
        using step ns t1(1) r'(1) unfolding first_int_small [OF small] unfolding cap z by simp
      show ?thesis
      proof (cases r')
        case None
        then have "concat bs1 = []" using r'(2) by simp
        then show ?thesis unfolding s2 e using ns None by simp
      next
        case (Some i)
        then have "concat bs1 \<noteq> []" "i < length t1" "t1 ! i = hd0 (concat bs1)" using r'(2) t1(2) by simp_all
        then show ?thesis unfolding s2 e using ns Some by simp
      qed
    qed
  qed
qed

lemma ht_next_bucket:
  assumes rep: "tabs_rep hf eqf g bs0 bs1" "keys_ok hf eqf"
    and bs: "bs = (if second then bs1 else bs0)" "j < length bs" "bs ! j = ps @ a # qs"
    and small: "unat (ht_cap (ht1 g)) < 2 ^ 31"
  shows "ht_next hf eqf g a = Some (hd0 (qs @ concat (drop (Suc j) bs) @ (if second then [] else concat bs1)))"
proof -
  have r: "table_rep (hp g) (ht0 g) bs0" "table_rep (hp g) (ht1 g) bs1" "distinct (concat bs0 @ concat bs1)"
      "placed hf (hp g) bs0" "placed hf (hp g) bs1"
      "pairwise (\<lambda>a b. \<not> eqf (hdata (hp g) a) (hdata (hp g) b)) (set (concat bs0 @ concat bs1))"
    using rep(1) unfolding tabs_rep_def by presburger+
  define ht where "ht = (if second then ht1 g else ht0 g)"
  have b: "table_rep (hp g) ht bs" "bs \<noteq> []" "placed hf (hp g) bs" "distinct (concat bs)"
    using r bs unfolding ht_def by (auto split: if_splits)
  obtain t k where t: "ht_table ht = Some t" "length t = length bs" "length bs = 2 ^ k" "k < 61" "ht_mask ht = mask k"
      "ht_cap ht = 2 ^ k" "\<forall>i < length bs. chain (hp g) (t ! i) (bs ! i)"
    using b(1,2) by (auto simp: table_rep_def)
  have ch: "chain (hp g) (t ! j) (ps @ a # qs)" using t(7) bs by metis
  obtain n where n: "hp g a = Some n" "a \<noteq> 0" using chain_heap [OF ch, of a] chain_nonzero [OF ch] by auto
  have nd: "hn_data n = hdata (hp g) a" using n by (simp add: hdata_def)
  have ain: "a \<in> set (concat bs)" using bs(2,3) unfolding in_concat_nth by force
  then have ax: "a \<in> set (concat bs0 @ concat bs1)" using bs(1) by (auto split: if_splits)
  have uq: "\<not> eqf (hn_data n) (hdata (hp g) b)" if "b \<in> set (concat bs0 @ concat bs1)" "b \<noteq> a" for b
    using r(6) that ax unfolding nd pairwise_def by metis
  have rfl: "eqf (hn_data n) (hn_data n)" using rep(2) by (simp add: keys_ok_def equivp_reflp)
  have idx: "unat (hf (hn_data n) AND mask k) = j"
    using b(3) bs(2,3) t(3,4) bucket_index [of k "hf (hn_data n)"] unfolding placed_def nd by auto
  have dst: "distinct (ps @ a # qs)" using b(4) bs(2,3) by (metis distinct_concat_iff nth_mem)
  have chq: "chain (hp g) (hn_next n) qs"
    using chain_tail [OF ch n(1)] .
  show ?thesis
  proof (cases "qs = []")
    case False
    then have "hn_next n = hd0 qs" "hn_next n \<noteq> 0" using chain_head [OF chq] chain_null [OF chq] by (auto simp: hd0_def)
    then show ?thesis using n False by (simp add: ht_next_def hnode_get_def hd0_append)
  next
    case True
    then have nx: "hn_next n = 0" using chq by simp
    have psn: "\<not> eqf (hn_data n) (hdata (hp g) b)" if "b \<in> set ps" for b
    proof (rule uq)
      have "b \<in> set (concat bs)" using that bs(2,3) unfolding in_concat_nth by force
      then show "b \<in> set (concat bs0 @ concat bs1)" using bs(1) by (auto split: if_splits)
      show "b \<noteq> a" using that dst by auto
    qed
    have cap: "unat (ht_cap ht) = length bs" using t unat_pow2 [where 'a = 64, of k] by simp
    have "next_in g (eqf (hn_data n)) second ht (hf (hn_data n)) =
      next_walk g (eqf (hn_data n)) second t (length bs) j (t ! j)"
      using t(1,2,5) idx cap bs(2) by (simp add: next_in_def)
    also have "\<dots> = next_walk g (eqf (hn_data n)) second t (length bs) j a"
      using next_walk_skip [OF ch, of "eqf (hn_data n)"] psn by (simp add: hd0_def)
    also have "\<dots> = (if concat (drop (Suc j) bs) \<noteq> [] then Some (Some (hd0 (concat (drop (Suc j) bs))))
     else if second \<or> bs1 = [] then Some (Some 0)
     else if concat bs1 \<noteq> [] then Some (Some (hd0 (concat bs1)))
     else Some None)"
      using next_walk_at [where second = second, OF t(2,7) bs(2) n(2,1) _ nx r(2) small] rfl by blast
    finally have ni: "next_in g (eqf (hn_data n)) second ht (hf (hn_data n)) =
      (if concat (drop (Suc j) bs) \<noteq> [] then Some (Some (hd0 (concat (drop (Suc j) bs))))
     else if second \<or> bs1 = [] then Some (Some 0)
     else if concat bs1 \<noteq> [] then Some (Some (hd0 (concat bs1)))
     else Some None)" .
    have t0: "ht_table (ht0 g) = None \<longleftrightarrow> bs0 = []" using ht_cap_zero(2) [OF rep(1)] .
    have ih: "hnode_get (hp g) a = Some n" using n by (simp add: hnode_get_def)
    show ?thesis
    proof (cases second)
      case True
      have "next_in g (eqf (hn_data n)) False (ht0 g) (hf (hn_data n)) = Some None"
      proof (rule next_in_none [OF r(1)])
        fix b assume "b \<in> set (concat bs0)"
        moreover from this have "b \<noteq> a" using ain r(3) bs(1) True by auto
        ultimately show "\<not> eqf (hn_data n) (hdata (hp g) b)" using uq by simp
      qed
      moreover have "bs0 \<noteq> []" using rep(1) bs(1,2) True unfolding tabs_rep_def by (auto split: if_splits)
      then obtain y where "ht_table (ht0 g) = Some y" using t0 by auto
      ultimately show ?thesis
        using True ih nx ni t0 \<open>qs = []\<close> unfolding ht_next_def ht_def
        by (cases "concat (drop (Suc j) bs) = []") (simp_all add: hd0_def del: concat_eq_Nil_conv)
    next
      case False
      have "next_in g (eqf (hn_data n)) True (ht1 g) (hf (hn_data n)) = Some None" if "concat bs1 = []"
      proof (rule next_in_none [OF r(2)])
        fix b assume "b \<in> set (concat bs1)"
        then show "\<not> eqf (hn_data n) (hdata (hp g) b)" using that by (metis empty_iff list.set(1))
      qed
      then show ?thesis
        using False ih nx ni t0 \<open>qs = []\<close> bs(1) b(2) unfolding ht_next_def ht_def hd0_append
        by (simp add: hd0_def del: concat_eq_Nil_conv split: if_splits)
    qed
  qed
qed

lemma concat_position:
  assumes "i < length (concat bs)"
  shows "\<exists>j ps qs. j < length bs \<and> bs ! j = ps @ concat bs ! i # qs
    \<and> drop (Suc i) (concat bs) = qs @ concat (drop (Suc j) bs)"
  using assms
proof (induction bs arbitrary: i)
  case (Cons b bs)
  show ?case
  proof (cases "i < length b")
    case True
    then show ?thesis
      by (intro exI [of _ 0] exI [of _ "take i b"] exI [of _ "drop (Suc i) b"])
         (simp add: nth_append id_take_nth_drop)
  next
    case False
    with Cons.prems have "i - length b < length (concat bs)" by (simp del: length_concat)
    from Cons.IH [OF this] obtain j ps qs where "j < length bs" "bs ! j = ps @ concat bs ! (i - length b) # qs"
      "drop (Suc (i - length b)) (concat bs) = qs @ concat (drop (Suc j) bs)" by blast
    then show ?thesis using False
      by (intro exI [of _ "Suc j"] exI [of _ ps] exI [of _ qs]) (simp add: nth_append Suc_diff_le)
  qed
qed simp

text \<open>
  Iteration with next visits every node exactly once, from the front of the first table to the
  end of the second; first is the start of it when nothing is being moved.
\<close>

lemma ht_iterate:
  assumes "ht_rep hf eqf g M" "keys_ok hf eqf" "unat (ht_cap (ht0 g)) < 2 ^ 31" "unat (ht_cap (ht1 g)) < 2 ^ 31"
  shows "\<exists>xs. distinct xs \<and> set xs = dom M
    \<and> (\<not> is_rehashing g \<longrightarrow> ht_first g = Some (if xs = [] then 0 else xs ! 0))
    \<and> (\<forall>i < length xs. ht_next hf eqf g (xs ! i) = Some (if Suc i < length xs then xs ! Suc i else 0))"
proof -
  obtain bs0 bs1 where rep: "tabs_rep hf eqf g bs0 bs1" and M: "M = held (hp g) (set (concat bs0 @ concat bs1))"
    using assms(1) by (auto simp: ht_rep_def)
  let ?xs = "concat bs0 @ concat bs1"
  have d: "distinct ?xs" using rep by (simp only: tabs_rep_def)
  have hd0_drop: "hd0 (drop k xs) = (if k < length xs then xs ! k else 0)" for k xs
    by (auto simp: hd0_def Cons_nth_drop_Suc [symmetric])
  have nx: "ht_next hf eqf g (?xs ! i) = Some (hd0 (drop (Suc i) ?xs))" if i: "i < length ?xs" for i
  proof (cases "i < length (concat bs0)")
    case True
    then obtain j ps qs where j: "j < length bs0" "bs0 ! j = ps @ concat bs0 ! i # qs"
      "drop (Suc i) (concat bs0) = qs @ concat (drop (Suc j) bs0)" using concat_position by blast
    have e: "?xs ! i = concat bs0 ! i" "drop (Suc i) ?xs = qs @ concat (drop (Suc j) bs0) @ concat bs1"
      using True j(3) by (simp_all add: nth_append del: length_concat)
    show ?thesis using ht_next_bucket [OF rep assms(2) _ _ _ assms(4), of bs0 False j] j(1,2) unfolding e by simp
  next
    case False
    define i' where "i' = i - length (concat bs0)"
    have "i' < length (concat bs1)" using False i unfolding i'_def length_append by linarith
    then obtain j ps qs where j: "j < length bs1" "bs1 ! j = ps @ concat bs1 ! i' # qs"
      "drop (Suc i') (concat bs1) = qs @ concat (drop (Suc j) bs1)" using concat_position by blast
    have e: "?xs ! i = concat bs1 ! i'" "drop (Suc i) ?xs = qs @ concat (drop (Suc j) bs1)"
      using False j(3) by (simp_all add: nth_append i'_def Suc_diff_le del: length_concat)
    show ?thesis using ht_next_bucket [OF rep assms(2) _ _ _ assms(4), of bs1 True j] j(1,2) unfolding e by simp
  qed
  have fs: "ht_first g = Some (hd0 (concat bs0))" if "\<not> is_rehashing g"
  proof (cases "bs0 = []")
    case True
    then show ?thesis using ht_cap_zero(2) [OF rep] by (simp add: ht_first_def hd0_def)
  next
    case False
    then obtain t k where t: "ht_table (ht0 g) = Some t" "length t = length bs0" "ht_cap (ht0 g) = 2 ^ k"
        "k < 61" "length bs0 = 2 ^ k" "\<forall>i < length bs0. chain (hp g) (t ! i) (bs0 ! i)"
      using rep unfolding tabs_rep_def by (auto simp: table_rep_def)
    have cap: "unat (ht_cap (ht0 g)) = length bs0" using t unat_pow2 [where 'a = 64, of k] by simp
    obtain r where r: "first_bucket t [0..<length bs0] = Some r" "case r of
          None \<Rightarrow> concat (drop 0 bs0) = []
        | Some i \<Rightarrow> 0 \<le> i \<and> i < length bs0 \<and> concat (drop 0 bs0) \<noteq> [] \<and> t ! i = hd0 (concat (drop 0 bs0))"
      using first_bucket_spec [OF t(2,6)] by blast
    show ?thesis
    proof (cases r)
      case None
      then have "concat bs0 = []" using r(2) by simp
      then show ?thesis unfolding ht_first_def first_int_small [OF assms(3)] unfolding cap using t(1) r(1) None by (simp add: hd0_def del: concat_eq_Nil_conv)
    next
      case (Some i)
      then have "i < length t" "t ! i = hd0 (concat bs0)" using r(2) t(2) by simp_all
      then show ?thesis unfolding ht_first_def first_int_small [OF assms(3)] unfolding cap using t(1) r(1) Some by simp
    qed
  qed
  have b1: "concat bs1 = []" if "\<not> is_rehashing g" using rep that unfolding tabs_rep_def by simp
  show ?thesis
  proof (intro exI [of _ ?xs] conjI allI impI)
    show "distinct ?xs" by (rule d)
    show "set ?xs = dom M" unfolding M dom_held ..
    show "ht_first g = Some (if ?xs = [] then 0 else ?xs ! 0)" if "\<not> is_rehashing g"
      unfolding fs [OF that] b1 [OF that] append_Nil2 using hd0_drop [of 0 "concat bs0"] by simp
    show "ht_next hf eqf g (?xs ! i) = Some (if Suc i < length ?xs then ?xs ! Suc i else 0)" if "i < length ?xs" for i
      unfolding nx [OF that] hd0_drop ..
  qed
qed

end
