(* ===== verification/Kylin_Map.thy ===== *)
theory Kylin_Map
  imports Kylin_Dictionary Kylin_Hashtable_Iter
begin

section \<open>Dictionaries (lib/core/math/kylin_map.c)\<close>

text \<open>
  The operations of the dictionary over the shared hash table: an entry holds a key and a value
  with its own type and size. The address an allocation returns (0 when it fails) is an argument
  of the operation that allocates, \<open>tok\<close> says whether the allocation of a bucket array succeeds,
  and the user's hash and comparison are parameters in the options. What destructors release is
  part of the results.
\<close>

subsection \<open>Definitions\<close>

record kmap_opts =
  map_priv :: kaddr
  map_key_type :: kobj
  map_key_size :: ksize
  map_hash :: "karg \<Rightarrow> kword"
  map_key_cmp :: kcmp
  map_key_ctor :: "kctor option"
  map_val_ctor :: "kctor option"

record kmap_entry =
  me_key :: kmath_val
  me_val :: kmath_val
  me_val_type :: kobj
  me_val_size :: ksize

record kmap =
  map_opts :: kmap_opts
  map_tab :: "kmap_entry htab"

datatype map_cell = KeyOf kaddr | ValOf kaddr

text \<open>
  The hash of a stored key, the test \<^verbatim>\<open>kmath_val_cmp(..) == 0\<close> of two stored keys, the test
  \<^verbatim>\<open>kmath_val_cmp_raw(..) == 0\<close> of a stored key with a raw key, and the destruction of an entry.
\<close>

definition map_hashv :: "kmap_opts \<Rightarrow> kmap_entry \<Rightarrow> kword" where
  "map_hashv opts d = map_hash opts (kmath_arg (me_key d) (map_key_type opts))"

definition map_eqv :: "kmap_opts \<Rightarrow> kmap_entry \<Rightarrow> kmap_entry \<Rightarrow> bool" where
  "map_eqv opts d e \<longleftrightarrow> kmath_val_cmp (map_key_cmp opts) (map_key_type opts) (me_key d) (me_key e) = 0"

definition map_test :: "umem \<Rightarrow> kmap_opts \<Rightarrow> kaddr \<Rightarrow> kmap_entry \<Rightarrow> bool option" where
  "map_test m opts key d =
     map_option (\<lambda>r. r = 0) (kmath_val_cmp_raw m (map_key_cmp opts) (map_key_type opts) (me_key d) key)"

definition map_rel :: "kmap_opts \<Rightarrow> kmap_entry \<Rightarrow> krelease list" where
  "map_rel opts d =
     kmath_val_dtor (me_key d) (map_key_type opts) True @ kmath_val_dtor (me_val d) (me_val_type d) True"

definition map_ht_clear :: "kmap \<Rightarrow> kht \<Rightarrow> (kmap_entry hheap \<times> kht \<times> krelease list) option" where
  "map_ht_clear guard ht = ht_clear (map_rel (map_opts guard)) (hp (map_tab guard)) ht"

definition map_need_expand :: "kmap \<Rightarrow> bool" where
  "map_need_expand guard = ht_need_expand (map_tab guard)"

definition map_rehash :: "kmap \<Rightarrow> nat \<Rightarrow> (kmap \<times> krelease list) option" where
  "map_rehash guard step = do {
     (g, rels) \<leftarrow> ht_rehash (map_hashv (map_opts guard)) (map_eqv (map_opts guard)) (map_rel (map_opts guard))
                   (map_tab guard) step;
     Some (guard\<lparr>map_tab := g\<rparr>, rels) }"

definition kylin_map_create :: "bool \<Rightarrow> kmap_opts \<Rightarrow> kmap option" where
  "kylin_map_create ok opts =
     (if ok then Some \<lparr>map_opts = opts, map_tab = \<lparr>hp = Map.empty, ht0 = kmath_ht_reset, ht1 = kmath_ht_reset,
                                                   rehashidx = -1\<rparr>\<rparr>
      else None)"

definition kylin_map_destroy :: "kmap \<Rightarrow> (kmap_entry hheap \<times> krelease list) option" where
  "kylin_map_destroy guard = ht_destroy (map_rel (map_opts guard)) (map_tab guard)"

definition kylin_map_clear :: "kmap \<Rightarrow> (kmap \<times> krelease list) option" where
  "kylin_map_clear guard = do {
     (g, rels) \<leftarrow> ht_clear_both (map_rel (map_opts guard)) (map_tab guard);
     Some (guard\<lparr>map_tab := g\<rparr>, rels) }"

definition kylin_map_priv :: "kmap \<Rightarrow> kaddr" where
  "kylin_map_priv guard = map_priv (map_opts guard)"

definition map_entry :: "kmap \<Rightarrow> kaddr \<Rightarrow> kmap_entry option" where
  "map_entry guard node = map_option hn_data (hnode_get (hp (map_tab guard)) node)"

definition kylin_map_key :: "kmap \<Rightarrow> kaddr \<Rightarrow> map_cell kref option" where
  "kylin_map_key guard node = do {
     d \<leftarrow> map_entry guard node;
     Some (kmath_val_get (ValOf node) (me_val d) (map_key_type (map_opts guard))) }"

definition kylin_map_val :: "kmap \<Rightarrow> kaddr \<Rightarrow> map_cell kref option" where
  "kylin_map_val guard node = do {
     d \<leftarrow> map_entry guard node;
     Some (kmath_val_get (ValOf node) (me_val d) (me_val_type d)) }"

definition kylin_map_val_type :: "kmap \<Rightarrow> kaddr \<Rightarrow> kobj option" where
  "kylin_map_val_type guard node = map_option me_val_type (map_entry guard node)"

definition kylin_map_count :: "kmap \<Rightarrow> ksize" where
  "kylin_map_count guard = ht_used (ht0 (map_tab guard)) + ht_used (ht1 (map_tab guard))"

definition kylin_map_resize :: "bool \<Rightarrow> kmap \<Rightarrow> ksize \<Rightarrow> (kerr \<times> kmap) option" where
  "kylin_map_resize tok guard count = do {
     (e, g) \<leftarrow> ht_resize tok (map_tab guard) count;
     Some (e, guard\<lparr>map_tab := g\<rparr>) }"

definition kylin_map_unlink_raw :: "kmap \<Rightarrow> kaddr \<Rightarrow> (kaddr \<times> kmap \<times> krelease list) option" where
  "kylin_map_unlink_raw guard node = (let opts = map_opts guard in do {
     (g, rels) \<leftarrow> (if is_rehashing (map_tab guard)
                   then ht_rehash (map_hashv opts) (map_eqv opts) (map_rel opts) (map_tab guard) 1
                   else Some (map_tab guard, []));
     n \<leftarrow> hnode_get (hp g) node;
     r \<leftarrow> ht_search True g (map_hashv opts (hn_data n)) (\<lambda>d. Some (map_eqv opts (hn_data n) d));
     case r of None \<Rightarrow> Some (0, guard\<lparr>map_tab := g\<rparr>, rels)
     | Some (second, idx, prev, a) \<Rightarrow> do {
         (H, t) \<leftarrow> ht_detach (hp g) (if second then ht1 g else ht0 g) idx prev a;
         Some (a, guard\<lparr>map_tab := if second then g\<lparr>hp := H, ht1 := t\<rparr> else g\<lparr>hp := H, ht0 := t\<rparr>\<rparr>, rels) } })"

definition kylin_map_unlink :: "umem \<Rightarrow> kmap \<Rightarrow> kaddr \<Rightarrow> (kaddr \<times> kmap \<times> krelease list) option" where
  "kylin_map_unlink m guard key = (let opts = map_opts guard in do {
     (a, g, rels) \<leftarrow> ht_unlink (map_hashv opts) (map_eqv opts) (map_rel opts) (map_tab guard)
                      (map_hash opts (Ptr key)) (map_test m opts key);
     Some (a, guard\<lparr>map_tab := g\<rparr>, rels) })"

text \<open>The release of an unlinked node: its key, its value, and the node itself.\<close>

definition map_free_node :: "kmap \<Rightarrow> kaddr \<Rightarrow> krelease list \<Rightarrow> (kerr \<times> kmap \<times> krelease list) option" where
  "map_free_node guard node rels =
     (if node = 0 then Some (KYLIN_ERROR_NODATA, guard, rels)
      else do {
        d \<leftarrow> map_entry guard node;
        let g = map_tab guard;
        Some (KYLIN_ERROR_OK, guard\<lparr>map_tab := g\<lparr>hp := (hp g)(node := None)\<rparr>\<rparr>, rels @ map_rel (map_opts guard) d) })"

definition kylin_map_remove :: "umem \<Rightarrow> kmap \<Rightarrow> kaddr \<Rightarrow> (kerr \<times> kmap \<times> krelease list) option" where
  "kylin_map_remove m guard key = do {
     (node, guard, rels) \<leftarrow> kylin_map_unlink m guard key;
     map_free_node guard node rels }"

definition kylin_map_remove_raw :: "kmap \<Rightarrow> kaddr \<Rightarrow> (kerr \<times> kmap \<times> krelease list) option" where
  "kylin_map_remove_raw guard cmp = do {
     (node, guard, rels) \<leftarrow> kylin_map_unlink_raw guard cmp;
     map_free_node guard node rels }"

definition kylin_map_insert_raw :: "bool \<Rightarrow> kmap \<Rightarrow> kaddr \<Rightarrow> (kaddr \<times> kmap \<times> krelease list) option" where
  "kylin_map_insert_raw tok guard node = (let opts = map_opts guard in do {
     (a, g, rels) \<leftarrow> ht_insert_raw (map_hashv opts) (map_eqv opts) (map_rel opts) tok (map_tab guard) node;
     Some (a, guard\<lparr>map_tab := g\<rparr>, rels) })"

definition kylin_map_insert ::
    "umem \<Rightarrow> bool \<Rightarrow> kmap \<Rightarrow> kaddr \<Rightarrow> kaddr \<Rightarrow> kaddr \<Rightarrow> kobj \<Rightarrow> ksize
       \<Rightarrow> (kaddr \<times> kmap \<times> krelease list \<times> umem) option" where
  "kylin_map_insert m tok guard node key val val_type sz =
     (if node = 0 then Some (0, guard, [], m)
      else do {
        let opts = map_opts guard;
        (k, m) \<leftarrow> kmath_val_ctor m key (map_key_type opts) (map_key_size opts) (map_key_ctor opts);
        (v, m) \<leftarrow> kmath_val_ctor m val val_type sz (map_val_ctor opts);
        let d = \<lparr>me_key = k, me_val = v, me_val_type = val_type, me_val_size = sz\<rparr>;
        let g = map_tab guard;
        (a, guard, rels) \<leftarrow> kylin_map_insert_raw tok
           (guard\<lparr>map_tab := g\<lparr>hp := (hp g)(node \<mapsto> \<lparr>hn_data = d, hn_next = 0\<rparr>)\<rparr>\<rparr>) node;
        Some (a, guard, rels, m) })"

definition kylin_map_replace ::
    "umem \<Rightarrow> kmap \<Rightarrow> kaddr \<Rightarrow> kaddr \<Rightarrow> kobj \<Rightarrow> ksize \<Rightarrow> (kaddr \<times> kmap \<times> krelease list \<times> umem) option" where
  "kylin_map_replace m guard key val val_type sz = (let opts = map_opts guard in do {
     (g, rels) \<leftarrow> (if is_rehashing (map_tab guard)
                   then ht_rehash (map_hashv opts) (map_eqv opts) (map_rel opts) (map_tab guard) 1
                   else Some (map_tab guard, []));
     r \<leftarrow> ht_search False g (map_hash opts (Ptr key)) (map_test m opts key);
     case r of None \<Rightarrow> Some (0, guard\<lparr>map_tab := g\<rparr>, rels, m)
     | Some (_, _, _, a) \<Rightarrow> do {
         n \<leftarrow> hnode_get (hp g) a;
         let d = hn_data n;
         let rels = rels @ kmath_val_dtor (me_val d) (me_val_type d) True;
         (v, m) \<leftarrow> kmath_val_ctor m val val_type sz (map_val_ctor opts);
         let d = d\<lparr>me_val := v, me_val_type := val_type, me_val_size := sz\<rparr>;
         Some (a, guard\<lparr>map_tab := g\<lparr>hp := (hp g)(a \<mapsto> n\<lparr>hn_data := d\<rparr>)\<rparr>\<rparr>, rels, m) } })"

definition kylin_map_find :: "umem \<Rightarrow> kmap \<Rightarrow> kaddr \<Rightarrow> kaddr option" where
  "kylin_map_find m guard key =
     ht_find (map_tab guard) (map_hash (map_opts guard) (Ptr key)) (map_test m (map_opts guard) key)"

definition kylin_map_first :: "kmap \<Rightarrow> kaddr option" where
  "kylin_map_first guard = ht_first (map_tab guard)"

definition kylin_map_last :: "kmap \<Rightarrow> kaddr option" where
  "kylin_map_last guard = ht_last (map_tab guard)"

definition kylin_map_next :: "kmap \<Rightarrow> kaddr \<Rightarrow> kaddr option" where
  "kylin_map_next guard node = ht_next (map_hashv (map_opts guard)) (map_eqv (map_opts guard)) (map_tab guard) node"

definition kylin_map_prev :: "kmap \<Rightarrow> kaddr \<Rightarrow> kaddr option" where
  "kylin_map_prev guard node = ht_prev (map_hashv (map_opts guard)) (map_eqv (map_opts guard)) (map_tab guard) node"

definition kylin_map_fetch_val :: "umem \<Rightarrow> kmap \<Rightarrow> kaddr \<Rightarrow> map_cell kref option option" where
  "kylin_map_fetch_val m guard key = do {
     node \<leftarrow> kylin_map_find m guard key;
     if node = 0 then Some None else map_option Some (kylin_map_val guard node) }"

subsection \<open>The dictionary contract\<close>

text \<open>
  The laws of a dictionary whose keys are objects: the comparison is an equivalence and the hash
  respects it.
\<close>

definition map_lawful :: "kmap_opts \<Rightarrow> bool" where
  "map_lawful opts \<longleftrightarrow> map_key_type opts \<ge> KOBJ_NORMAL
     \<and> equivp (\<lambda>a b. kc_cmp (map_key_cmp opts) a b = 0)
     \<and> (\<forall>a b. kc_cmp (map_key_cmp opts) a b = 0 \<longrightarrow> map_hash opts (Ptr a) = map_hash opts (Ptr b))"

definition map_keyed :: "kmap_opts \<Rightarrow> kmap_entry \<Rightarrow> kaddr \<Rightarrow> bool" where
  "map_keyed opts d k \<longleftrightarrow> kc_cmp (map_key_cmp opts) (me_key d) k = 0"

definition map_rep :: "kmap_opts \<Rightarrow> kmap \<Rightarrow> (kaddr \<rightharpoonup> kmap_entry) \<Rightarrow> bool" where
  "map_rep opts guard M \<longleftrightarrow> map_opts guard = opts \<and> map_lawful opts
     \<and> ht_rep (map_hashv opts) (map_eqv opts) (map_tab guard) M"

text \<open>The operations of the dictionary as the client of the contract calls them.\<close>

definition kmap_add :: "kmap \<Rightarrow> kaddr \<Rightarrow> kmap_entry \<Rightarrow> (kaddr \<times> kmap) option" where
  "kmap_add guard node d = (let g = map_tab guard in map_option (\<lambda>(a, guard, _). (a, guard))
     (kylin_map_insert_raw True (guard\<lparr>map_tab := g\<lparr>hp := (hp g)(node \<mapsto> \<lparr>hn_data = d, hn_next = 0\<rparr>)\<rparr>\<rparr>) node))"

definition kmap_del :: "umem \<Rightarrow> kmap \<Rightarrow> kaddr \<Rightarrow> (kaddr \<times> kmap) option" where
  "kmap_del m guard key = map_option (\<lambda>(a, guard, _). (a, guard)) (kylin_map_unlink m guard key)"

lemma map_lawful_arg:
  "map_lawful opts \<Longrightarrow> kmath_arg v (map_key_type opts) = Ptr v"
  by (auto simp: map_lawful_def kmath_arg_def kobj_is_int_def)

lemma map_lawful_eqv: "map_lawful opts \<Longrightarrow> map_eqv opts d e = (kc_cmp (map_key_cmp opts) (me_key d) (me_key e) = 0)"
  by (auto simp: map_lawful_def map_eqv_def kmath_val_cmp_def)

lemma map_lawful_keys_ok:
  assumes "map_lawful opts"
  shows "keys_ok (map_hashv opts) (map_eqv opts)"
proof -
  have "map_eqv opts = (\<lambda>d e. kc_cmp (map_key_cmp opts) (me_key d) (me_key e) = 0)"
    by (intro ext) (rule map_lawful_eqv [OF assms])
  then show ?thesis
    using assms equivp_image [of "\<lambda>a b. kc_cmp (map_key_cmp opts) a b = 0" me_key]
    by (simp add: keys_ok_def map_hashv_def map_lawful_arg) (simp add: map_lawful_def)
qed

definition map_probe :: "kaddr \<Rightarrow> kmap_entry" where
  "map_probe k = \<lparr>me_key = k, me_val = 0, me_val_type = 0, me_val_size = 0\<rparr>"

lemma map_lawful_probe:
  assumes "map_lawful opts"
  shows "map_hash opts (Ptr k) = map_hashv opts (map_probe k)"
    "map_test m opts k d = Some (map_eqv opts d (map_probe k))"
    "map_keyed opts d k = map_eqv opts d (map_probe k)"
  using assms
  by (auto simp: map_hashv_def map_probe_def map_lawful_arg map_lawful_eqv map_keyed_def map_test_def
      kmath_val_cmp_raw_def map_lawful_def)

interpretation kmap: dictionary "map_rep opts" "map_keyed opts" "map_eqv opts" kmap_add "kmap_del m" "kylin_map_find m"
  for opts :: kmap_opts and m :: umem
proof (unfold_locales, goal_cases)
  case (1 s M a d k)
  then have l: "map_lawful opts" "map_opts s = opts" "ht_rep (map_hashv opts) (map_eqv opts) (map_tab s) M"
    by (auto simp: map_rep_def)
  with 1 show ?case unfolding kylin_map_find_def
    by (auto simp: map_lawful_probe intro!: ht_find_hit map_lawful_keys_ok)
next
  case (2 s M k)
  then have l: "map_lawful opts" "map_opts s = opts" "ht_rep (map_hashv opts) (map_eqv opts) (map_tab s) M"
    by (auto simp: map_rep_def)
  with 2 show ?case unfolding kylin_map_find_def
    by (auto simp: map_lawful_probe intro!: ht_find_miss map_lawful_keys_ok)
next
  case (3 s M a d k)
  then have l: "map_lawful opts" "map_opts s = opts" "ht_rep (map_hashv opts) (map_eqv opts) (map_tab s) M"
    by (auto simp: map_rep_def)
  have "\<forall>a d. M a = Some d \<longrightarrow> map_test m opts k d = Some (map_eqv opts d (map_probe k))"
    using map_lawful_probe(2) [OF l(1)] by blast
  moreover have "map_eqv opts d (map_probe k)" using 3 map_lawful_probe(3) [OF l(1)] by blast
  ultimately obtain g' where "ht_unlink (map_hashv opts) (map_eqv opts) (map_rel opts) (map_tab s)
      (map_hashv opts (map_probe k)) (map_test m opts k) = Some (a, g', [])"
    "ht_rep (map_hashv opts) (map_eqv opts) g' (M(a := None))"
    using ht_unlink_hit [OF l(3) map_lawful_keys_ok [OF l(1)], where x = "map_probe k"] 3 by metis
  then show ?case using l by (simp add: kmap_del_def kylin_map_unlink_def map_rep_def map_lawful_probe(1))
next
  case (4 s M k)
  then have l: "map_lawful opts" "map_opts s = opts" "ht_rep (map_hashv opts) (map_eqv opts) (map_tab s) M"
    by (auto simp: map_rep_def)
  have "\<forall>a d. M a = Some d \<longrightarrow> map_test m opts k d = Some (map_eqv opts d (map_probe k))"
    using map_lawful_probe(2) [OF l(1)] by blast
  moreover have "\<forall>a d. M a = Some d \<longrightarrow> \<not> map_eqv opts d (map_probe k)" using 4 map_lawful_probe(3) [OF l(1)] by blast
  ultimately obtain g' where "ht_unlink (map_hashv opts) (map_eqv opts) (map_rel opts) (map_tab s)
      (map_hashv opts (map_probe k)) (map_test m opts k) = Some (0, g', [])"
    "ht_rep (map_hashv opts) (map_eqv opts) g' M"
    using ht_unlink_miss [OF l(3) map_lawful_keys_ok [OF l(1)], where x = "map_probe k"] by metis
  then show ?case using l by (simp add: kmap_del_def kylin_map_unlink_def map_rep_def map_lawful_probe(1))
next
  case (5 s M a d)
  then have l: "map_lawful opts" "map_opts s = opts" "ht_rep (map_hashv opts) (map_eqv opts) (map_tab s) M"
    by (auto simp: map_rep_def)
  let ?n = "\<lparr>hn_data = d, hn_next = 0\<rparr>"
  let ?g = "(map_tab s)\<lparr>hp := (hp (map_tab s))(a \<mapsto> ?n)\<rparr>"
  have "ht_rep (map_hashv opts) (map_eqv opts) ?g M" using ht_rep_frame [OF l(3) 5(3)] .
  then obtain g' where "ht_insert_raw (map_hashv opts) (map_eqv opts) (map_rel opts) True ?g a = Some (a, g', [])"
    "ht_rep (map_hashv opts) (map_eqv opts) g' (M(a \<mapsto> d))"
    using ht_insert_new [where g = ?g and n = ?n and rel = "map_rel opts", OF _ map_lawful_keys_ok [OF l(1)] 5(4) 5(3) 5(2)] 5(5)
    by auto
  then show ?case using l by (simp add: kmap_add_def kylin_map_insert_raw_def map_rep_def Let_def)
qed

subsection \<open>Properties\<close>

lemma map_rep_create:
  "kylin_map_create True opts = Some g \<Longrightarrow> map_lawful opts \<Longrightarrow> map_rep opts g Map.empty"
  by (auto simp: kylin_map_create_def map_rep_def ht_rep_empty)

lemma map_rep_count: "map_rep opts g M \<Longrightarrow> kylin_map_count g = of_nat (card (dom M))"
  by (auto simp: map_rep_def kylin_map_count_def dest!: ht_rep_count(1))

text \<open>
  C1. A dictionary of objects refines the abstract dictionary: after creation, every sequence of
  insertions of absent keys, removals and searches is answered without undefined behaviour exactly
  as the list of entries answers it, through all growing and incremental moving of the tables,
  and the count is the number of entries.
\<close>

theorem kylin_map_refines_dictionary:
  assumes "map_lawful opts" "kylin_map_create True opts = Some g0"
    and "dict_run (dict_spec (map_keyed opts) (map_eqv opts)) [] ops = Some (rs, ys)"
  shows "\<exists>g. dict_run (dict_impl kmap_add (kmap_del m) (kylin_map_find m)) g0 ops = Some (rs, g)
    \<and> map_rep opts g (map_of ys) \<and> kylin_map_count g = of_nat (card (dom (map_of ys)))"
proof -
  have "map_rep opts g0 (map_of [])" using map_rep_create [OF assms(2,1)] by simp
  from kmap.run_refines [OF this _ assms(3), of m] show ?thesis using map_rep_count by fastforce
qed

definition demo_opts :: kmap_opts where
  "demo_opts = \<lparr>map_priv = 0, map_key_type = KOBJ_OTHERS, map_key_size = 8,
     map_hash = (\<lambda>a. case a of Cell w \<Rightarrow> w | Ptr p \<Rightarrow> p),
     map_key_cmp = \<lparr>kc_cmp = \<lambda>a b. if a = b then 0 else 1, kc_dgt = (>), kc_sdgt = (>)\<rparr>,
     map_key_ctor = None, map_val_ctor = None\<rparr>"

definition demo_entry :: "kaddr \<Rightarrow> kaddr \<Rightarrow> kmap_entry" where
  "demo_entry k v = \<lparr>me_key = k, me_val = v, me_val_type = KOBJ_OTHERS, me_val_size = 8\<rparr>"

lemma demo_lawful: "map_lawful demo_opts"
  by (auto simp: map_lawful_def demo_opts_def intro!: equivpI reflpI sympI transpI split: if_splits)

lemma demo_eqv: "map_eqv demo_opts d e \<longleftrightarrow> me_key d = me_key e" "map_keyed demo_opts d k \<longleftrightarrow> me_key d = k"
  using demo_lawful by (auto simp: map_lawful_eqv map_keyed_def demo_opts_def)

theorem kylin_map_refines_dictionary_witness:
  "\<exists>g. dict_run (dict_impl kmap_add (kmap_del Map.empty) (kylin_map_find Map.empty))
      (the (kylin_map_create True demo_opts))
      [Add 64 (demo_entry 1 100), Add 128 (demo_entry 2 200), Look 1, Unlink 1, Look 1, Look 2] =
        Some ([64, 128, 64, 64, 0, 128], g)
    \<and> kylin_map_count g = 1"
proof -
  have "kylin_map_create True demo_opts = Some (the (kylin_map_create True demo_opts))"
    by (simp add: kylin_map_create_def)
  moreover have "dict_run (dict_spec (map_keyed demo_opts) (map_eqv demo_opts)) []
      [Add 64 (demo_entry 1 100), Add 128 (demo_entry 2 200), Look 1, Unlink 1, Look 1, Look 2] =
      Some ([64, 128, 64, 64, 0, 128], [(128, demo_entry 2 200)])"
    by (simp add: demo_eqv) (simp add: demo_entry_def)
  ultimately show ?thesis
    using kylin_map_refines_dictionary [OF demo_lawful, where m = Map.empty] by fastforce
qed

text \<open>
  C40. The complete insertion: with object keys and values and no constructors, inserting an absent
  key returns the new node, the key is found there afterwards, its value is fetched as it was
  given, and every other key is found as before. The allocations succeed, and there are fewer than \<open>2 ^ 32\<close> entries.
\<close>

theorem kylin_map_insert_fetch:
  assumes rep: "map_rep opts g M" and ctors: "map_key_ctor opts = None" "map_val_ctor opts = None"
    and val: "\<not> kobj_is_int val_type"
    and node: "node \<noteq> 0" "M node = None" "card (dom M) + 1 < 2 ^ 32"
    and absent: "kylin_map_find m g key = Some 0"
  shows "\<exists>g'. kylin_map_insert m True g node key val val_type sz = Some (node, g', [], m)
    \<and> map_rep opts g' (M(node \<mapsto> \<lparr>me_key = key, me_val = val, me_val_type = val_type, me_val_size = sz\<rparr>))
    \<and> kylin_map_fetch_val m g' key = Some (Some (Obj val))
    \<and> (\<forall>k. kc_cmp (map_key_cmp opts) key k \<noteq> 0 \<longrightarrow> kylin_map_find m g' k = kylin_map_find m g k)"
proof -
  let ?d = "\<lparr>me_key = key, me_val = val, me_val_type = val_type, me_val_size = sz\<rparr>"
  have l: "map_lawful opts" "map_opts g = opts" "ht_rep (map_hashv opts) (map_eqv opts) (map_tab g) M"
    using rep by (auto simp: map_rep_def)
  have no: "\<forall>b e. M b = Some e \<longrightarrow> \<not> map_keyed opts e key"
  proof (intro allI impI notI)
    fix b e assume be: "M b = Some e" "map_keyed opts e key"
    then have "kylin_map_find m g key = Some b" by (rule kmap.look_hit [OF rep])
    moreover have "b \<noteq> 0" using ht_rep_nonzero(1) [OF l(3) be(1)] .
    ultimately show False using absent by simp
  qed
  then have nw: "\<forall>b e. M b = Some e \<longrightarrow> \<not> map_eqv opts e ?d"
    by (simp add: map_keyed_def map_lawful_eqv [OF l(1)])
  let ?n = "\<lparr>hn_data = ?d, hn_next = 0\<rparr>"
  let ?g = "(map_tab g)\<lparr>hp := (hp (map_tab g))(node \<mapsto> ?n)\<rparr>"
  have fr: "ht_rep (map_hashv opts) (map_eqv opts) ?g M" using ht_rep_frame [OF l(3) node(2)] .
  have "hp ?g node = Some ?n" by simp
  then obtain g' where g': "ht_insert_raw (map_hashv opts) (map_eqv opts) (map_rel opts) True ?g node = Some (node, g', [])"
    "ht_rep (map_hashv opts) (map_eqv opts) g' (M(node \<mapsto> ?d))"
    using ht_insert_new [where g = ?g and n = ?n and rel = "map_rel opts", OF fr map_lawful_keys_ok [OF l(1)] node(3,2,1)] nw
    by auto
  have ct: "kmath_val_ctor m key (map_key_type opts) s None = Some (key, m)"
      "kmath_val_ctor m val val_type s None = Some (val, m)" for s
    using l(1) val by (auto simp: kmath_val_ctor_def kobj_is_int_def map_lawful_def)
  let ?g' = "g\<lparr>map_tab := g'\<rparr>"
  have "kylin_map_insert m True g node key val val_type sz = Some (node, ?g', [], m)"
    using node(1) l(2) ctors ct g'(1) by (simp add: kylin_map_insert_def kylin_map_insert_raw_def Let_def)
  moreover have rep': "map_rep opts ?g' (M(node \<mapsto> ?d))" using g'(2) l by (simp add: map_rep_def)
  moreover have kd: "map_keyed opts ?d key"
    using l(1) equivp_reflp [of "\<lambda>a b. kc_cmp (map_key_cmp opts) a b = 0" key]
    by (simp add: map_keyed_def map_lawful_def)
  have fd: "kylin_map_find m ?g' key = Some node" using kmap.look_hit [OF rep' _ kd] by simp
  moreover have "kylin_map_fetch_val m ?g' key = Some (Some (Obj val))"
  proof -
    obtain n where "hp g' node = Some n" "hn_data n = ?d" using ht_rep_nonzero(2) [OF g'(2), of node] by auto
    then show ?thesis using fd node(1) val
      by (simp add: kylin_map_fetch_val_def kylin_map_val_def map_entry_def hnode_get_def kmath_val_get_def)
  qed
  moreover have "kylin_map_find m ?g' k = kylin_map_find m g k" if "kc_cmp (map_key_cmp opts) key k \<noteq> 0" for k
  proof (cases "\<exists>b e. M b = Some e \<and> map_keyed opts e k")
    case True
    then obtain b e where be: "M b = Some e" "map_keyed opts e k" by blast
    then have "b \<noteq> node" using node(2) by auto
    then show ?thesis using kmap.look_hit [OF rep be] kmap.look_hit [OF rep' _ be(2)] be(1) by simp
  next
    case False
    moreover have "\<not> map_keyed opts ?d k" using that by (simp add: map_keyed_def)
    ultimately show ?thesis using kmap.look_miss [OF rep, of k] kmap.look_miss [OF rep', of k] by (simp add: fun_upd_def)
  qed
  ultimately show ?thesis by blast
qed

theorem kylin_map_insert_fetch_witness:
  "\<exists>g'. kylin_map_insert Map.empty True (the (kylin_map_create True demo_opts)) 64 7 900 KOBJ_OTHERS 8
      = Some (64, g', [], Map.empty)
    \<and> kylin_map_fetch_val Map.empty g' 7 = Some (Some (Obj 900))"
proof -
  have c: "kylin_map_create True demo_opts = Some (the (kylin_map_create True demo_opts))"
    by (simp add: kylin_map_create_def)
  have rep: "map_rep demo_opts (the (kylin_map_create True demo_opts)) Map.empty"
    by (rule map_rep_create [OF c demo_lawful])
  have "kylin_map_find Map.empty (the (kylin_map_create True demo_opts)) 7 = Some 0"
    by (rule kmap.look_miss [OF rep]) simp
  from kylin_map_insert_fetch [OF rep _ _ _ _ _ _ this, of KOBJ_OTHERS 64 900 8]
  show ?thesis by (auto simp: demo_opts_def kobj_is_int_def)
qed

text \<open>
  Removing a stored key succeeds, releases the entry's key and value objects once and frees
  the node; the key is no longer found, the count goes down by one, and a second removal answers
  that there is no data.
\<close>

theorem kylin_map_remove_forgets:
  assumes rep: "map_rep opts g M" and a: "M a = Some d" "kc_cmp (map_key_cmp opts) (me_key d) key = 0"
  shows "\<exists>g'. kylin_map_remove m g key = Some (KYLIN_ERROR_OK, g', map_rel opts d)
    \<and> map_rep opts g' (M(a := None)) \<and> map_entry g' a = None
    \<and> kylin_map_find m g' key = Some 0 \<and> kylin_map_count g' = kylin_map_count g - 1
    \<and> (\<exists>g''. kylin_map_remove m g' key = Some (KYLIN_ERROR_NODATA, g'', []))"
proof -
  have l: "map_lawful opts" "map_opts g = opts" "ht_rep (map_hashv opts) (map_eqv opts) (map_tab g) M"
    using rep by (auto simp: map_rep_def)
  note ko = map_lawful_keys_ok [OF l(1)] and pr = map_lawful_probe [OF l(1)]
  have t: "\<forall>a d. N a = Some d \<longrightarrow> map_test m opts key d = Some (map_eqv opts d (map_probe key))" for N :: "kaddr \<rightharpoonup> kmap_entry"
    using pr(2) by blast
  have k: "map_eqv opts d (map_probe key)" using a(2) pr(3) by (simp add: map_keyed_def)
  obtain g1 n where g1: "ht_unlink (map_hashv opts) (map_eqv opts) (map_rel opts) (map_tab g)
      (map_hashv opts (map_probe key)) (map_test m opts key) = Some (a, g1, [])"
    "ht_rep (map_hashv opts) (map_eqv opts) g1 (M(a := None))" "hp g1 a = Some n" "hn_data n = d"
    using ht_unlink_hit [OF l(3) ko t a(1) k] by blast
  have a0: "a \<noteq> 0" using ht_rep_nonzero(1) [OF l(3) a(1)] .
  let ?g = "g\<lparr>map_tab := g1\<lparr>hp := (hp g1)(a := None)\<rparr>\<rparr>"
  have rm: "kylin_map_remove m g key = Some (KYLIN_ERROR_OK, ?g, map_rel opts d)"
    using g1 l(2) a0
    by (simp add: kylin_map_remove_def kylin_map_unlink_def map_free_node_def map_entry_def hnode_get_def pr(1) Let_def)
  have "ht_rep (map_hashv opts) (map_eqv opts) (g1\<lparr>hp := (hp g1)(a := None)\<rparr>) (M(a := None))"
    by (rule ht_rep_frame [OF g1(2)]) simp
  then have rep': "map_rep opts ?g (M(a := None))" using l by (simp add: map_rep_def)
  have gone: "\<forall>b e. (M(a := None)) b = Some e \<longrightarrow> \<not> map_eqv opts e (map_probe key)"
  proof (intro allI impI notI)
    fix b e assume b: "(M(a := None)) b = Some e" "map_eqv opts e (map_probe key)"
    then have "b \<noteq> a" "M b = Some e" by (auto split: if_splits)
    then show False using ht_rep_unique [OF l(3) ko a(1) _ k b(2)] by blast
  qed
  then have "\<forall>b e. (M(a := None)) b = Some e \<longrightarrow> \<not> map_keyed opts e key" using pr(3) by metis
  then have f: "kylin_map_find m ?g key = Some 0" by (rule kmap.look_miss [OF rep'])
  have fin: "finite (dom M)" using ht_rep_count(2) [OF l(3)] .
  have "dom (M(a := None)) = dom M - {a}" by auto
  then have "Suc (card (dom (M(a := None)))) = card (dom M)"
    using card_Suc_Diff1 [OF fin domI [where m = M, OF a(1)]] by (simp only:)
  then have "kylin_map_count ?g + 1 = kylin_map_count g"
    unfolding map_rep_count [OF rep'] map_rep_count [OF rep] by (metis of_nat_Suc add.commute)
  then have c: "kylin_map_count ?g = kylin_map_count g - 1" by (simp add: eq_diff_eq)
  obtain g2 where "ht_unlink (map_hashv opts) (map_eqv opts) (map_rel opts) (map_tab ?g)
      (map_hashv opts (map_probe key)) (map_test m opts key) = Some (0, g2, [])"
    using ht_unlink_miss [OF _ ko t gone, of "map_tab ?g" "map_rel opts"] rep' unfolding map_rep_def by blast
  then have "kylin_map_remove m ?g key = Some (KYLIN_ERROR_NODATA, ?g\<lparr>map_tab := g2\<rparr>, [])"
    using l(2) by (simp add: kylin_map_remove_def kylin_map_unlink_def map_free_node_def pr(1) Let_def)
  moreover have "map_entry ?g a = None" by (simp add: map_entry_def hnode_get_def)
  ultimately show ?thesis using rm rep' f c by blast
qed

lemma demo_one: "\<exists>g. map_rep demo_opts g [64 \<mapsto> demo_entry 7 900]"
proof -
  have c: "kylin_map_create True demo_opts = Some (the (kylin_map_create True demo_opts))"
    by (simp add: kylin_map_create_def)
  have "\<exists>s'. kmap_add (the (kylin_map_create True demo_opts)) 64 (demo_entry 7 900) = Some (64, s')
      \<and> map_rep demo_opts s' (Map.empty(64 \<mapsto> demo_entry 7 900))"
    by (rule kmap.add_new [OF map_rep_create [OF c demo_lawful]]) simp_all
  then show ?thesis by blast
qed

theorem kylin_map_remove_forgets_witness:
  "\<exists>g g'. map_rep demo_opts g [64 \<mapsto> demo_entry 7 900]
    \<and> kylin_map_remove Map.empty g 7 = Some (KYLIN_ERROR_OK, g', [RelUser 7, RelUser 900])
    \<and> kylin_map_find Map.empty g' 7 = Some 0"
proof -
  obtain g where g: "map_rep demo_opts g [64 \<mapsto> demo_entry 7 900]" using demo_one by blast
  have k: "kc_cmp (map_key_cmp demo_opts) (me_key (demo_entry 7 900)) 7 = 0"
    by (simp add: demo_opts_def demo_entry_def)
  have r: "map_rel demo_opts (demo_entry 7 900) = [RelUser 7, RelUser 900]"
    by (simp add: map_rel_def demo_opts_def demo_entry_def kmath_val_dtor_def kobj_is_int_def)
  from kylin_map_remove_forgets [OF g _ k, of 64 Map.empty] show ?thesis using g unfolding r by fastforce
qed

text \<open>
  A dictionary in the middle of a move: the two buckets of the old table are still to be moved, and one entry is in the new table.
\<close>

definition demo_moving :: kmap where
  "demo_moving = \<lparr>map_opts = demo_opts, map_tab =
     \<lparr>hp = [64 \<mapsto> \<lparr>hn_data = demo_entry 7 900, hn_next = 0\<rparr>, 128 \<mapsto> \<lparr>hn_data = demo_entry 2 800, hn_next = 0\<rparr>,
            192 \<mapsto> \<lparr>hn_data = demo_entry 4 700, hn_next = 0\<rparr>],
      ht0 = \<lparr>ht_table = Some [192, 64], ht_cap = 2, ht_mask = 1, ht_used = 2\<rparr>,
      ht1 = \<lparr>ht_table = Some [0, 0, 128, 0], ht_cap = 4, ht_mask = 3, ht_used = 1\<rparr>, rehashidx = 0\<rparr>\<rparr>"

definition demo_three :: "kaddr \<rightharpoonup> kmap_entry" where
  "demo_three = [64 \<mapsto> demo_entry 7 900, 128 \<mapsto> demo_entry 2 800, 192 \<mapsto> demo_entry 4 700]"

lemma dom_demo_three: "dom demo_three = {64, 128, 192}"
  by (auto simp: demo_three_def)

lemma lt_2: "(\<forall>i < 2. P i) \<longleftrightarrow> P 0 \<and> P (Suc 0)" for P :: "nat \<Rightarrow> bool"
  by (auto simp: less_Suc_eq dest: less_2_cases)

lemma lt_4: "(\<forall>i < 4. P i) \<longleftrightarrow> P 0 \<and> P 1 \<and> P 2 \<and> P 3" for P :: "nat \<Rightarrow> bool"
  by (auto simp: eval_nat_numeral less_Suc_eq)

lemma demo_moving_rep: "map_rep demo_opts demo_moving demo_three"
proof -
  have t0: "table_rep (hp (map_tab demo_moving)) (ht0 (map_tab demo_moving)) [[192], [64]]"
    by (simp add: table_rep_def demo_moving_def mask_eq_exp_minus_1, intro exI [of _ 1]) (simp add: lt_2)
  have t1: "table_rep (hp (map_tab demo_moving)) (ht1 (map_tab demo_moving)) [[], [], [128], []]"
    by (simp add: table_rep_def demo_moving_def mask_eq_exp_minus_1, intro exI [of _ 2]) (simp add: lt_4)
  have h: "hdata (hp (map_tab demo_moving)) 64 = demo_entry 7 900" "hdata (hp (map_tab demo_moving)) 128 = demo_entry 2 800"
      "hdata (hp (map_tab demo_moving)) 192 = demo_entry 4 700"
    by (simp_all add: hdata_def demo_moving_def)
  have hash: "map_hashv demo_opts (demo_entry k v) = k" for k v
    by (simp add: map_hashv_def demo_opts_def demo_entry_def kmath_arg_def kobj_is_int_def)
  have p0: "placed (map_hashv demo_opts) (hp (map_tab demo_moving)) [[192], [64]]"
    using h hash by (simp add: placed_def lt_2 numeral_2_eq_2 [symmetric])
  have p1: "placed (map_hashv demo_opts) (hp (map_tab demo_moving)) [[], [], [128], []]"
    using h hash by (simp add: placed_def less_Suc_eq all_simps)
  have "tabs_rep (map_hashv demo_opts) (map_eqv demo_opts) (map_tab demo_moving) [[192], [64]] [[], [], [128], []]"
    using t0 t1 p0 p1 h unfolding tabs_rep_def
    by (simp add: demo_moving_def pairwise_def demo_eqv demo_entry_def)
  moreover have "demo_three = held (hp (map_tab demo_moving)) (set (concat [[192], [64]] @ concat [[], [], [128], []]))"
    using h by (auto simp: held_def fun_eq_iff demo_three_def)
  ultimately have "ht_rep (map_hashv demo_opts) (map_eqv demo_opts) (map_tab demo_moving) demo_three"
    unfolding ht_rep_def by blast
  then show ?thesis using demo_lawful by (simp add: map_rep_def demo_moving_def)
qed

text \<open>
  C5. Every step of the incremental move keeps the contents: the same nodes with the same data are
  held before and after, nothing is released, every key is found as before, and as many steps as
  the old table has buckets complete the move. The table being moved has fewer than \<open>2 ^ 31\<close> buckets,
  which is part of the invariant and keeps the index, an \<^verbatim>\<open>int32_t\<close>, from overflowing.
\<close>

theorem map_rehash_keeps:
  assumes rep: "map_rep opts g M"
  shows "\<exists>g'. map_rehash g step = Some (g', []) \<and> map_rep opts g' M
    \<and> (\<forall>k. kylin_map_find m g' k = kylin_map_find m g k) \<and> kylin_map_count g' = kylin_map_count g
    \<and> (unat (ht_cap (ht0 (map_tab g))) \<le> step \<longrightarrow> rehashidx (map_tab g') = -1)"
proof -
  have l: "map_lawful opts" "map_opts g = opts" "ht_rep (map_hashv opts) (map_eqv opts) (map_tab g) M"
    using rep by (auto simp: map_rep_def)
  obtain t where t: "ht_rehash (map_hashv opts) (map_eqv opts) (map_rel opts) (map_tab g) step = Some (t, [])"
    "ht_rep (map_hashv opts) (map_eqv opts) t M" "unat (ht_cap (ht0 (map_tab g))) \<le> step \<longrightarrow> \<not> is_rehashing t"
    using ht_rehash_spec [OF l(3) map_lawful_keys_ok [OF l(1)]] by blast
  let ?g = "g\<lparr>map_tab := t\<rparr>"
  have rep': "map_rep opts ?g M" using t(2) l by (simp add: map_rep_def)
  have "kylin_map_find m ?g k = kylin_map_find m g k" for k
  proof (cases "\<exists>b e. M b = Some e \<and> map_keyed opts e k")
    case True
    then show ?thesis using kmap.look_hit [OF rep] kmap.look_hit [OF rep'] by metis
  next
    case False
    then show ?thesis using kmap.look_miss [OF rep, of k] kmap.look_miss [OF rep', of k] by auto
  qed
  then show ?thesis using rep' t l(2) map_rep_count [OF rep] map_rep_count [OF rep']
    by (intro exI [of _ ?g]) (simp add: map_rehash_def)
qed

theorem map_rehash_keeps_witness:
  "map_rep demo_opts demo_moving demo_three \<and> rehashidx (map_tab demo_moving) = 0
    \<and> map_option (\<lambda>(g', rels). (rehashidx (map_tab g'), ht_table (ht0 (map_tab g')), ht_table (ht1 (map_tab g'))))
        (map_rehash demo_moving 1) = Some (1, Some [0, 64], Some [192, 0, 128, 0])
    \<and> (\<exists>g'. map_rehash demo_moving 2 = Some (g', []) \<and> map_rep demo_opts g' demo_three
      \<and> kylin_map_count g' = 3 \<and> rehashidx (map_tab g') = -1)"
proof -
  have "rehashidx (map_tab demo_moving) = 0" "kylin_map_count demo_moving = 3"
    "unat (ht_cap (ht0 (map_tab demo_moving))) \<le> 2"
    by (simp_all add: demo_moving_def kylin_map_count_def)
  moreover have "map_option (\<lambda>(g', rels). (rehashidx (map_tab g'), ht_table (ht0 (map_tab g')), ht_table (ht1 (map_tab g'))))
      (map_rehash demo_moving 1) = Some (1, Some [0, 64], Some [192, 0, 128, 0])"
    by code_simp
  ultimately show ?thesis
    using map_rehash_keeps [OF demo_moving_rep, of 2 Map.empty] demo_moving_rep by auto
qed

text \<open>
  C23. Iteration: the nodes of the dictionary are listed without repetition by following next from
  the first of them to the last, whose next is null; the same order holds while the tables are
  being moved, and first is its start when they are not. The tables have fewer than \<open>2 ^ 31\<close> buckets each:
  first and the step into the second table count them in an \<^verbatim>\<open>int\<close>.
\<close>

theorem kylin_map_next_enumerates:
  assumes rep: "map_rep opts g M"
    and small: "unat (ht_cap (ht0 (map_tab g))) < 2 ^ 31" "unat (ht_cap (ht1 (map_tab g))) < 2 ^ 31"
  shows "\<exists>xs. distinct xs \<and> set xs = dom M
    \<and> (rehashidx (map_tab g) = -1 \<longrightarrow> kylin_map_first g = Some (if xs = [] then 0 else xs ! 0))
    \<and> (\<forall>i < length xs. kylin_map_next g (xs ! i) = Some (if Suc i < length xs then xs ! Suc i else 0))"
proof -
  have l: "map_lawful opts" "map_opts g = opts" "ht_rep (map_hashv opts) (map_eqv opts) (map_tab g) M"
    using rep by (auto simp: map_rep_def)
  show ?thesis
    using ht_iterate [OF l(3) map_lawful_keys_ok [OF l(1)] small] l(2)
    by (auto simp: kylin_map_first_def kylin_map_next_def)
qed

theorem kylin_map_next_enumerates_witness:
  "map_rep demo_opts demo_moving demo_three \<and> rehashidx (map_tab demo_moving) = 0
    \<and> (\<exists>a b c. {a, b, c} = {64, 128, 192} \<and> distinct [a, b, c] \<and> kylin_map_next demo_moving a = Some b
      \<and> kylin_map_next demo_moving b = Some c \<and> kylin_map_next demo_moving c = Some 0)"
proof -
  have "unat (ht_cap (ht0 (map_tab demo_moving))) < 2 ^ 31" "unat (ht_cap (ht1 (map_tab demo_moving))) < 2 ^ 31"
    by (simp_all add: demo_moving_def)
  from kylin_map_next_enumerates [OF demo_moving_rep this] obtain xs where
    xs: "distinct xs" "set xs = {64, 128, 192}"
      "\<forall>i < length xs. kylin_map_next demo_moving (xs ! i) = Some (if Suc i < length xs then xs ! Suc i else 0)"
    unfolding dom_demo_three by blast
  have "length xs = 3" using xs(1,2) distinct_card [of xs] by simp
  then obtain a b c where x: "xs = [a, b, c]" by (auto simp: length_Suc_conv numeral_3_eq_3)
  have "kylin_map_next demo_moving a = Some b" "kylin_map_next demo_moving b = Some c" "kylin_map_next demo_moving c = Some 0"
    using xs(3) [rule_format, of 0] xs(3) [rule_format, of 1] xs(3) [rule_format, of 2] unfolding x by simp_all
  moreover have "rehashidx (map_tab demo_moving) = 0" by (simp add: demo_moving_def)
  moreover have "{a, b, c} = {64, 128, 192}" "distinct [a, b, c]" using xs(1,2) unfolding x by simp_all
  ultimately show ?thesis using demo_moving_rep by blast
qed

text \<open>
  Destroying a dictionary releases the key and value objects of every entry exactly once and
  frees exactly its nodes.
\<close>

theorem kylin_map_destroy_releases:
  assumes rep: "map_rep opts g M"
  shows "\<exists>as. distinct as \<and> set as = dom M
    \<and> kylin_map_destroy g = Some (drop_nodes (hp (map_tab g)) (dom M),
        concat (map (\<lambda>a. map_rel opts (the (M a))) as))"
proof -
  have "map_opts g = opts" "ht_rep (map_hashv opts) (map_eqv opts) (map_tab g) M"
    using rep by (auto simp: map_rep_def)
  then show ?thesis using ht_destroy_spec [of "map_hashv opts" "map_eqv opts" "map_tab g" M "map_rel opts"]
    by (simp add: kylin_map_destroy_def)
qed

theorem kylin_map_destroy_releases_witness:
  "\<exists>g H. map_rep demo_opts g [64 \<mapsto> demo_entry 7 900] \<and> kylin_map_destroy g = Some (H, [RelUser 7, RelUser 900])"
proof -
  obtain g where g: "map_rep demo_opts g [64 \<mapsto> demo_entry 7 900]" using demo_one by blast
  obtain as :: "kaddr list" where as: "distinct as" "set as = {64}" "kylin_map_destroy g = Some (drop_nodes (hp (map_tab g)) {64},
        concat (map (\<lambda>a. map_rel demo_opts (the ([64 \<mapsto> demo_entry 7 900] a))) as))"
    using kylin_map_destroy_releases [OF g] by auto
  have "length as = 1" using as(1,2) distinct_card [of as] by simp
  then have "as = [64]" using as(2) by (cases as) auto
  moreover have "map_rel demo_opts (demo_entry 7 900) = [RelUser 7, RelUser 900]"
    by (simp add: map_rel_def demo_opts_def demo_entry_def kmath_val_dtor_def kobj_is_int_def)
  ultimately show ?thesis using g as(3) by auto
qed

text \<open>
  Clearing a dictionary frees every node and sets the counts to zero but leaves the bucket
  heads: looking up a key that was stored reads a freed node.
\<close>

theorem kylin_map_clear_dangles:
  assumes rep: "map_rep opts g M" and idle: "rehashidx (map_tab g) = -1" and a: "M a = Some d"
  shows "\<exists>g' rels. kylin_map_clear g = Some (g', rels) \<and> kylin_map_count g' = 0
    \<and> kylin_map_find m g' (me_key d) = None"
proof -
  have l: "map_lawful opts" "map_opts g = opts" "ht_rep (map_hashv opts) (map_eqv opts) (map_tab g) M"
    using rep by (auto simp: map_rep_def)
  have h: "map_hash opts (Ptr (me_key d)) = map_hashv opts d" by (simp add: map_hashv_def map_lawful_arg [OF l(1)])
  obtain t rels where t: "ht_clear_both (map_rel opts) (map_tab g) = Some (t, rels)" "ht_used (ht0 t) = 0" "ht_used (ht1 t) = 0"
      "ht_find t (map_hashv opts d) (map_test m opts (me_key d)) = None"
    using ht_clear_dangles [OF l(3) _ a] idle by blast
  then show ?thesis using l(2) h
    by (intro exI [of _ "g\<lparr>map_tab := t\<rparr>"] exI [of _ rels])
       (simp add: kylin_map_clear_def kylin_map_count_def kylin_map_find_def)
qed

text \<open>
  The key of a node cannot be read back: \<^verbatim>\<open>kylin_map_key\<close> returns the pointer to the value of
  the entry, read with the type of the key; for object types it is what \<^verbatim>\<open>kylin_map_val\<close> returns.
\<close>

theorem kylin_map_key_is_val:
  assumes "map_rep opts g M" "M a = Some d" "\<not> kobj_is_int (me_val_type d)"
  shows "kylin_map_key g a = Some (Obj (me_val d)) \<and> kylin_map_val g a = Some (Obj (me_val d))"
proof -
  have l: "map_lawful opts" "map_opts g = opts" "ht_rep (map_hashv opts) (map_eqv opts) (map_tab g) M"
    using assms(1) by (auto simp: map_rep_def)
  have "\<not> kobj_is_int (map_key_type opts)" using l(1) by (auto simp: map_lawful_def kobj_is_int_def)
  moreover obtain n where "hp (map_tab g) a = Some n" "hn_data n = d" "a \<noteq> 0"
    using ht_rep_nonzero [OF l(3) assms(2)] by blast
  ultimately show ?thesis using l(2) assms(3)
    by (simp add: kylin_map_key_def kylin_map_val_def map_entry_def hnode_get_def kmath_val_get_def)
qed

theorem kylin_map_key_is_val_witness:
  "\<exists>g. map_rep demo_opts g [64 \<mapsto> demo_entry 7 900] \<and> kylin_map_key g 64 = Some (Obj 900)"
proof -
  obtain g where g: "map_rep demo_opts g [64 \<mapsto> demo_entry 7 900]" using demo_one by blast
  then show ?thesis using kylin_map_key_is_val [OF g, of 64 "demo_entry 7 900"]
    by (auto simp: demo_entry_def kobj_is_int_def)
qed

text \<open>
  With a key of an integer type nothing is ever found: the comparison with a raw key never
  answers equal, so a search that returns, returns null, whatever the dictionary holds.
\<close>

theorem kylin_map_integer_keys_lost:
  assumes "map_key_type (map_opts g) < KOBJ_NORMAL"
  shows "kylin_map_find m g key = None \<or> kylin_map_find m g key = Some 0"
proof -
  have "kmath_val_cmp_raw m kc (map_key_type (map_opts g)) v key \<noteq> Some 0" for kc v
    using assms by (auto simp: kmath_val_cmp_raw_def bind_eq_Some_conv)
  then have "map_test m (map_opts g) key d \<noteq> Some True" for d by (auto simp: map_test_def)
  then show ?thesis unfolding kylin_map_find_def by (rule ht_find_never)
qed

definition demo_int_opts :: kmap_opts where
  "demo_int_opts = demo_opts\<lparr>map_key_type := KOBJ_INT32\<rparr>"

theorem kylin_map_integer_keys_lost_witness:
  "kylin_map_find m (the (kylin_map_create True demo_int_opts)) 7 = None
    \<or> kylin_map_find m (the (kylin_map_create True demo_int_opts)) 7 = Some 0"
  by (rule kylin_map_integer_keys_lost) (simp add: kylin_map_create_def demo_int_opts_def)

text \<open>
  Inserting a key that is present, when the tables are idle and do not have to grow, returns
  the node that holds it and changes no entry; the node and the objects made for the insertion
  stay allocated, and nothing is released.
\<close>

theorem kylin_map_insert_existing:
  assumes rep: "map_rep opts g M" and ctors: "map_key_ctor opts = None" "map_val_ctor opts = None"
    and val: "\<not> kobj_is_int val_type"
    and idle: "rehashidx (map_tab g) = -1" "\<not> map_need_expand g"
    and node: "node \<noteq> 0" "M node = None"
    and b: "M b = Some e" "kc_cmp (map_key_cmp opts) (me_key e) key = 0"
  shows "\<exists>g'. kylin_map_insert m tok g node key val val_type sz = Some (b, g', [], m)
    \<and> map_rep opts g' M
    \<and> map_entry g' node = Some \<lparr>me_key = key, me_val = val, me_val_type = val_type, me_val_size = sz\<rparr>"
proof -
  let ?d = "\<lparr>me_key = key, me_val = val, me_val_type = val_type, me_val_size = sz\<rparr>"
  have l: "map_lawful opts" "map_opts g = opts" "ht_rep (map_hashv opts) (map_eqv opts) (map_tab g) M"
    using rep by (auto simp: map_rep_def)
  let ?n = "\<lparr>hn_data = ?d, hn_next = 0\<rparr>"
  let ?t = "(map_tab g)\<lparr>hp := (hp (map_tab g))(node \<mapsto> ?n)\<rparr>"
  have fr: "ht_rep (map_hashv opts) (map_eqv opts) ?t M" using ht_rep_frame [OF l(3) node(2)] .
  have i: "\<not> is_rehashing ?t" "\<not> ht_need_expand ?t"
    using idle by (simp_all add: map_need_expand_def ht_need_expand_def)
  have n: "hp ?t node = Some ?n" by simp
  have "map_eqv opts e (hn_data ?n)" using b(2) by (simp add: map_lawful_eqv [OF l(1)])
  then have ins: "ht_insert_raw (map_hashv opts) (map_eqv opts) (map_rel opts) tok ?t node = Some (b, ?t, [])"
    using ht_insert_old [OF fr map_lawful_keys_ok [OF l(1)] i n node(1) b(1)] by blast
  have ct: "kmath_val_ctor m key (map_key_type opts) s None = Some (key, m)"
      "kmath_val_ctor m val val_type s None = Some (val, m)" for s
    using l(1) val by (auto simp: kmath_val_ctor_def kobj_is_int_def map_lawful_def)
  have "kylin_map_insert m tok g node key val val_type sz = Some (b, g\<lparr>map_tab := ?t\<rparr>, [], m)"
    using node(1) l(2) ctors ct ins by (simp add: kylin_map_insert_def kylin_map_insert_raw_def Let_def)
  moreover have "map_rep opts (g\<lparr>map_tab := ?t\<rparr>) M" using fr l by (simp add: map_rep_def)
  ultimately show ?thesis using node(1)
    by (intro exI [of _ "g\<lparr>map_tab := ?t\<rparr>"]) (simp add: map_entry_def hnode_get_def)
qed

text \<open>
  A dictionary with one entry, computed: the first insertion makes a table of two buckets.
\<close>

definition demo_map :: kmap where
  "demo_map = \<lparr>map_opts = demo_opts, map_tab =
     \<lparr>hp = [64 \<mapsto> \<lparr>hn_data = demo_entry 7 900, hn_next = 0\<rparr>],
      ht0 = \<lparr>ht_table = Some [0, 64], ht_cap = 2, ht_mask = 1, ht_used = 1\<rparr>,
      ht1 = kmath_ht_reset, rehashidx = -1\<rparr>\<rparr>"

lemma demo_map_rep: "map_rep demo_opts demo_map [64 \<mapsto> demo_entry 7 900]"
proof -
  have t: "table_rep (hp (map_tab demo_map)) (ht0 (map_tab demo_map)) [[], [64]]"
    by (simp add: table_rep_def demo_map_def mask_eq_exp_minus_1, intro exI [of _ 1]) (simp add: lt_2)
  have h: "hdata (hp (map_tab demo_map)) 64 = demo_entry 7 900" by (simp add: hdata_def demo_map_def)
  have "map_hashv demo_opts (demo_entry 7 900) = 7"
    by (simp add: map_hashv_def demo_opts_def demo_entry_def kmath_arg_def kobj_is_int_def)
  then have p: "placed (map_hashv demo_opts) (hp (map_tab demo_map)) [[], [64]]"
    using h by (simp add: placed_def less_Suc_eq) (simp add: numeral_2_eq_2 [symmetric])
  have "tabs_rep (map_hashv demo_opts) (map_eqv demo_opts) (map_tab demo_map) [[], [64]] []"
    using t p by (auto simp: tabs_rep_def demo_map_def placed_def)
  moreover have "[64 \<mapsto> demo_entry 7 900] = held (hp (map_tab demo_map)) (set (concat [[], [64]] @ concat []))"
    using h by (auto simp: held_def fun_eq_iff)
  ultimately have "ht_rep (map_hashv demo_opts) (map_eqv demo_opts) (map_tab demo_map) [64 \<mapsto> demo_entry 7 900]"
    unfolding ht_rep_def by blast
  then show ?thesis using demo_lawful by (simp add: map_rep_def demo_map_def)
qed

theorem kylin_map_insert_existing_witness:
  "\<exists>g'. kylin_map_insert Map.empty True demo_map 128 7 500 KOBJ_OTHERS 8 = Some (64, g', [], Map.empty)
    \<and> map_rep demo_opts g' [64 \<mapsto> demo_entry 7 900]"
proof -
  have "\<not> map_need_expand demo_map"
    by (simp add: map_need_expand_def ht_need_expand_def demo_map_def word_less_nat_alt unat_div)
  from kylin_map_insert_existing [OF demo_map_rep _ _ _ _ this, of KOBJ_OTHERS 128 64 "demo_entry 7 900" 7 Map.empty True 500 8]
  show ?thesis by (auto simp: demo_map_def demo_opts_def demo_entry_def kobj_is_int_def)
qed

theorem kylin_map_clear_dangles_witness:
  "\<exists>g' rels. kylin_map_clear demo_map = Some (g', rels) \<and> kylin_map_count g' = 0
    \<and> kylin_map_find Map.empty g' 7 = None"
  using kylin_map_clear_dangles [OF demo_map_rep, of 64 "demo_entry 7 900" Map.empty]
  by (simp add: demo_map_def demo_entry_def)

text \<open>Fifteen insertions, the thirteenth of which repeats the first key.\<close>

definition dup_ops :: "(kaddr, kmap_entry) dict_op list" where
  "dup_ops = map (\<lambda>k. Add (64 * k) (demo_entry k k)) [1, 2, 3, 4, 5, 6, 7, 8, 9, 10, 11, 12] @
     [Add 832 (demo_entry 1 1), Add 896 (demo_entry 14 14), Add 960 (demo_entry 15 15)]"

text \<open>
  A key inserted again while the tables are being moved corrupts the dictionary: the insertion
  only looks into the new table, the move then destroys the older entry without counting it, the
  old table never becomes empty, and a later operation walks past its end. Here twelve keys fill
  the first table, the thirteenth insertion repeats the key 1, and the fifteenth is undefined.
\<close>

theorem kylin_map_duplicate_corrupts:
  "map_option fst (dict_run (dict_impl kmap_add (kmap_del Map.empty) (kylin_map_find Map.empty))
      (the (kylin_map_create True demo_opts)) (take 14 dup_ops)) =
     Some [64, 128, 192, 256, 320, 384, 448, 512, 576, 640, 704, 768, 832, 896]
   \<and> dict_run (dict_impl kmap_add (kmap_del Map.empty) (kylin_map_find Map.empty))
      (the (kylin_map_create True demo_opts)) dup_ops = None"
proof
  show "map_option fst (dict_run (dict_impl kmap_add (kmap_del Map.empty) (kylin_map_find Map.empty))
      (the (kylin_map_create True demo_opts)) (take 14 dup_ops)) =
     Some [64, 128, 192, 256, 320, 384, 448, 512, 576, 640, 704, 768, 832, 896]"
    by code_simp
  have "map_option fst (dict_run (dict_impl kmap_add (kmap_del Map.empty) (kylin_map_find Map.empty))
      (the (kylin_map_create True demo_opts)) dup_ops) = None"
    by code_simp
  then show "dict_run (dict_impl kmap_add (kmap_del Map.empty) (kylin_map_find Map.empty))
      (the (kylin_map_create True demo_opts)) dup_ops = None" by simp
qed

text \<open>
  When the first allocation of a bucket array fails, the insertion returns null, and so does
  every later insertion, even when memory is available again: the capacity is already recorded
  and the table is never allocated.
\<close>

theorem kylin_map_first_allocation_failure:
  assumes "map_tab g = \<lparr>hp = H, ht0 = kmath_ht_reset, ht1 = kmath_ht_reset, rehashidx = -1\<rparr>"
  shows "\<exists>g'. kylin_map_insert_raw False g node = Some (0, g', [])
    \<and> (\<forall>tok node'. kylin_map_insert_raw tok g' node' = Some (0, g', []))"
proof -
  let ?ht = "\<lparr>ht_table = None, ht_cap = 2, ht_mask = 1, ht_used = 0\<rparr>"
  let ?t = "\<lparr>hp = H, ht0 = ?ht, ht1 = kmath_ht_reset, rehashidx = -1\<rparr>"
  have "ht_insert_raw hf eqf rel False (map_tab g) node = Some (0, ?t, [])" for hf eqf rel
    unfolding assms
    by (simp add: ht_insert_raw_def ht_need_expand_def ht_resize_def kmath_ht_reset_def roundup_4 Let_def kylin_malloc_def)
  moreover have "\<not> ht_need_expand ?t" by (simp add: ht_need_expand_def word_less_nat_alt unat_div)
  then have "ht_insert_raw hf eqf rel tok ?t node' = Some (0, ?t, [])" for hf eqf rel tok node'
    by (simp add: ht_insert_raw_def Let_def)
  ultimately show ?thesis
    by (intro exI [of _ "g\<lparr>map_tab := ?t\<rparr>"]) (simp add: kylin_map_insert_raw_def Let_def)
qed

theorem kylin_map_first_allocation_failure_witness:
  "\<exists>g'. kylin_map_insert_raw False (the (kylin_map_create True demo_opts)) 64 = Some (0, g', [])
    \<and> kylin_map_insert_raw True g' 128 = Some (0, g', [])"
  using kylin_map_first_allocation_failure [of "the (kylin_map_create True demo_opts)" Map.empty 64]
  by (auto simp: kylin_map_create_def)

end
