(* ===== verification/Kylin_Index.thy ===== *)
theory Kylin_Index
  imports Kylin_Dictionary Kylin_Hashtable_Iter
begin

section \<open>Indexes (lib/core/math/kylin_index.c)\<close>

text \<open>
  The index is the second client of the shared hash table: its nodes hold one value, which is its
  own key. The address an allocation returns (0 when it fails) is an argument, \<open>tok\<close> says whether
  the allocation of a bucket array succeeds.
\<close>

subsection \<open>Definitions\<close>

record kindex_opts =
  index_priv :: kaddr
  index_val_type :: kobj
  index_val_size :: ksize
  index_hash :: "karg \<Rightarrow> kword"
  index_compare :: kcmp
  index_val_ctor :: "kctor option"

record kindex =
  index_opts :: kindex_opts
  index_tab :: "kmath_val htab"

definition index_hashv :: "kindex_opts \<Rightarrow> kmath_val \<Rightarrow> kword" where
  "index_hashv opts v = index_hash opts (kmath_arg v (index_val_type opts))"

definition index_eqv :: "kindex_opts \<Rightarrow> kmath_val \<Rightarrow> kmath_val \<Rightarrow> bool" where
  "index_eqv opts v w \<longleftrightarrow> kmath_val_cmp (index_compare opts) (index_val_type opts) v w = 0"

definition index_test :: "umem \<Rightarrow> kindex_opts \<Rightarrow> kaddr \<Rightarrow> kmath_val \<Rightarrow> bool option" where
  "index_test m opts val v =
     map_option (\<lambda>r. r = 0) (kmath_val_cmp_raw m (index_compare opts) (index_val_type opts) v val)"

definition index_rel :: "kindex_opts \<Rightarrow> kmath_val \<Rightarrow> krelease list" where
  "index_rel opts v = kmath_val_dtor v (index_val_type opts) True"

definition index_ht_clear :: "kindex \<Rightarrow> kht \<Rightarrow> (kmath_val hheap \<times> kht \<times> krelease list) option" where
  "index_ht_clear guard ht = ht_clear (index_rel (index_opts guard)) (hp (index_tab guard)) ht"

definition index_need_expand :: "kindex \<Rightarrow> bool" where
  "index_need_expand guard = ht_need_expand (index_tab guard)"

definition index_rehash :: "kindex \<Rightarrow> nat \<Rightarrow> (kindex \<times> krelease list) option" where
  "index_rehash guard step = do {
     (g, rels) \<leftarrow> ht_rehash (index_hashv (index_opts guard)) (index_eqv (index_opts guard))
                   (index_rel (index_opts guard)) (index_tab guard) step;
     Some (guard\<lparr>index_tab := g\<rparr>, rels) }"

definition kylin_index_create :: "bool \<Rightarrow> kindex_opts \<Rightarrow> kindex option" where
  "kylin_index_create ok opts =
     (if ok then Some \<lparr>index_opts = opts, index_tab = \<lparr>hp = Map.empty, ht0 = kmath_ht_reset, ht1 = kmath_ht_reset,
                                                       rehashidx = -1\<rparr>\<rparr>
      else None)"

definition kylin_index_destroy :: "kindex \<Rightarrow> (kmath_val hheap \<times> krelease list) option" where
  "kylin_index_destroy guard = ht_destroy (index_rel (index_opts guard)) (index_tab guard)"

definition kylin_index_priv :: "kindex \<Rightarrow> kaddr" where
  "kylin_index_priv guard = index_priv (index_opts guard)"

definition kylin_index_val_type :: "kindex \<Rightarrow> kobj" where
  "kylin_index_val_type guard = index_val_type (index_opts guard)"

definition kylin_index_val_size :: "kindex \<Rightarrow> ksize" where
  "kylin_index_val_size guard = index_val_size (index_opts guard)"

definition kylin_index_val :: "kindex \<Rightarrow> kaddr \<Rightarrow> kaddr kref option" where
  "kylin_index_val guard node = do {
     n \<leftarrow> hnode_get (hp (index_tab guard)) node;
     Some (kmath_val_get node (hn_data n) (index_val_type (index_opts guard))) }"

definition kylin_index_count :: "kindex \<Rightarrow> ksize" where
  "kylin_index_count guard = ht_used (ht0 (index_tab guard)) + ht_used (ht1 (index_tab guard))"

definition kylin_index_resize :: "bool \<Rightarrow> kindex \<Rightarrow> ksize \<Rightarrow> (kerr \<times> kindex) option" where
  "kylin_index_resize tok guard count = do {
     (e, g) \<leftarrow> ht_resize tok (index_tab guard) count;
     Some (e, guard\<lparr>index_tab := g\<rparr>) }"

definition kylin_index_clear :: "kindex \<Rightarrow> (kindex \<times> krelease list) option" where
  "kylin_index_clear guard = do {
     (g, rels) \<leftarrow> ht_clear_both (index_rel (index_opts guard)) (index_tab guard);
     Some (guard\<lparr>index_tab := g\<rparr>, rels) }"

definition kylin_index_unlink_raw :: "kindex \<Rightarrow> kaddr \<Rightarrow> (kaddr \<times> kindex \<times> krelease list) option" where
  "kylin_index_unlink_raw guard node = (let opts = index_opts guard in do {
     (g, rels) \<leftarrow> (if is_rehashing (index_tab guard)
                   then ht_rehash (index_hashv opts) (index_eqv opts) (index_rel opts) (index_tab guard) 1
                   else Some (index_tab guard, []));
     n \<leftarrow> hnode_get (hp g) node;
     r \<leftarrow> ht_search True g (index_hashv opts (hn_data n)) (\<lambda>d. Some (index_eqv opts (hn_data n) d));
     case r of None \<Rightarrow> Some (0, guard\<lparr>index_tab := g\<rparr>, rels)
     | Some (second, idx, prev, a) \<Rightarrow> do {
         (H, t) \<leftarrow> ht_detach (hp g) (if second then ht1 g else ht0 g) idx prev a;
         Some (a, guard\<lparr>index_tab := if second then g\<lparr>hp := H, ht1 := t\<rparr> else g\<lparr>hp := H, ht0 := t\<rparr>\<rparr>, rels) } })"

text \<open>The search for a raw value and the detaching of its node, the part before the node is freed.\<close>

definition index_unlink_node :: "umem \<Rightarrow> kindex \<Rightarrow> kaddr \<Rightarrow> (kaddr \<times> kindex \<times> krelease list) option" where
  "index_unlink_node m guard val = (let opts = index_opts guard in do {
     (a, g, rels) \<leftarrow> ht_unlink (index_hashv opts) (index_eqv opts) (index_rel opts) (index_tab guard)
                      (index_hash opts (Ptr val)) (index_test m opts val);
     Some (a, guard\<lparr>index_tab := g\<rparr>, rels) })"

text \<open>
  Unlinking by value takes the pointer to the value first and frees the node then; for an integer
  type the pointer is into the freed node.
\<close>

definition kylin_index_unlink :: "umem \<Rightarrow> kindex \<Rightarrow> kaddr \<Rightarrow> (kaddr kref option \<times> kindex \<times> krelease list) option" where
  "kylin_index_unlink m guard val = do {
     (a, guard, rels) \<leftarrow> index_unlink_node m guard val;
     if a = 0 then Some (None, guard, rels)
     else do {
       result \<leftarrow> kylin_index_val guard a;
       let g = index_tab guard;
       Some (Some result, guard\<lparr>index_tab := g\<lparr>hp := (hp g)(a := None)\<rparr>\<rparr>, rels) } }"

text \<open>
  \<^verbatim>\<open>kylin_index_remove\<close> takes the pointer to the value that unlink returns for a node: it destroys
  the word stored at that address as the node's value and frees the address as the node. For an
  integer type the address is inside the node that unlink has just freed.
\<close>

definition kylin_index_remove :: "umem \<Rightarrow> kindex \<Rightarrow> kaddr \<Rightarrow> (kerr \<times> kindex \<times> krelease list) option" where
  "kylin_index_remove m guard cmp = do {
     (result, guard, rels) \<leftarrow> kylin_index_unlink m guard cmp;
     case result of None \<Rightarrow> Some (KYLIN_ERROR_NODATA, guard, rels)
     | Some (Slot _) \<Rightarrow> None
     | Some (Obj p) \<Rightarrow> do {
         w \<leftarrow> mem_word m p 8;
         Some (KYLIN_ERROR_OK, guard, rels @ index_rel (index_opts guard) w @ [RelUser p]) } }"

definition kylin_index_remove_raw :: "kindex \<Rightarrow> kaddr \<Rightarrow> (kerr \<times> kindex \<times> krelease list) option" where
  "kylin_index_remove_raw guard cmp = do {
     (node, guard, rels) \<leftarrow> kylin_index_unlink_raw guard cmp;
     if node = 0 then Some (KYLIN_ERROR_NODATA, guard, rels)
     else do {
       n \<leftarrow> hnode_get (hp (index_tab guard)) node;
       let g = index_tab guard;
       Some (KYLIN_ERROR_OK, guard\<lparr>index_tab := g\<lparr>hp := (hp g)(node := None)\<rparr>\<rparr>,
             rels @ index_rel (index_opts guard) (hn_data n)) } }"

definition kylin_index_insert_raw :: "bool \<Rightarrow> kindex \<Rightarrow> kaddr \<Rightarrow> (kaddr \<times> kindex \<times> krelease list) option" where
  "kylin_index_insert_raw tok guard node = (let opts = index_opts guard in do {
     (a, g, rels) \<leftarrow> ht_insert_raw (index_hashv opts) (index_eqv opts) (index_rel opts) tok (index_tab guard) node;
     Some (a, guard\<lparr>index_tab := g\<rparr>, rels) })"

text \<open>When the raw insertion returns null, the source reads the value of the null node.\<close>

definition kylin_index_insert ::
    "umem \<Rightarrow> bool \<Rightarrow> kindex \<Rightarrow> kaddr \<Rightarrow> kaddr \<Rightarrow> (kaddr kref option \<times> kindex \<times> krelease list \<times> umem) option" where
  "kylin_index_insert m tok guard node val =
     (if node = 0 then Some (None, guard, [], m)
      else do {
        let opts = index_opts guard;
        (v, m) \<leftarrow> kmath_val_ctor m val (index_val_type opts) (index_val_size opts) (index_val_ctor opts);
        let g = index_tab guard;
        (a, guard, rels) \<leftarrow> kylin_index_insert_raw tok
           (guard\<lparr>index_tab := g\<lparr>hp := (hp g)(node \<mapsto> \<lparr>hn_data = v, hn_next = 0\<rparr>)\<rparr>\<rparr>) node;
        if a = 0 then do {
          n \<leftarrow> hnode_get (hp (index_tab guard)) a;
          Some (None, guard, rels @ index_rel opts (hn_data n), m) }
        else do {
          r \<leftarrow> kylin_index_val guard a;
          Some (Some r, guard, rels, m) } })"

definition kylin_index_replace ::
    "umem \<Rightarrow> kindex \<Rightarrow> kaddr \<Rightarrow> (kaddr \<times> kindex \<times> krelease list \<times> umem) option" where
  "kylin_index_replace m guard val = (let opts = index_opts guard in do {
     (g, rels) \<leftarrow> (if is_rehashing (index_tab guard)
                   then ht_rehash (index_hashv opts) (index_eqv opts) (index_rel opts) (index_tab guard) 1
                   else Some (index_tab guard, []));
     r \<leftarrow> ht_search False g (index_hash opts (Ptr val)) (index_test m opts val);
     case r of None \<Rightarrow> Some (0, guard\<lparr>index_tab := g\<rparr>, rels, m)
     | Some (_, _, _, a) \<Rightarrow> do {
         n \<leftarrow> hnode_get (hp g) a;
         let rels = rels @ index_rel opts (hn_data n);
         (v, m) \<leftarrow> kmath_val_ctor m val (index_val_type opts) (index_val_size opts) (index_val_ctor opts);
         Some (a, guard\<lparr>index_tab := g\<lparr>hp := (hp g)(a \<mapsto> n\<lparr>hn_data := v\<rparr>)\<rparr>\<rparr>, rels, m) } })"

definition kylin_index_find :: "umem \<Rightarrow> kindex \<Rightarrow> kaddr \<Rightarrow> kaddr option" where
  "kylin_index_find m guard val =
     ht_find (index_tab guard) (index_hash (index_opts guard) (Ptr val)) (index_test m (index_opts guard) val)"

definition kylin_index_first :: "kindex \<Rightarrow> kaddr option" where
  "kylin_index_first guard = ht_first (index_tab guard)"

definition kylin_index_last :: "kindex \<Rightarrow> kaddr option" where
  "kylin_index_last guard = ht_last (index_tab guard)"

definition kylin_index_next :: "kindex \<Rightarrow> kaddr \<Rightarrow> kaddr option" where
  "kylin_index_next guard node =
     ht_next (index_hashv (index_opts guard)) (index_eqv (index_opts guard)) (index_tab guard) node"

definition kylin_index_prev :: "kindex \<Rightarrow> kaddr \<Rightarrow> kaddr option" where
  "kylin_index_prev guard node =
     ht_prev (index_hashv (index_opts guard)) (index_eqv (index_opts guard)) (index_tab guard) node"

subsection \<open>The dictionary contract\<close>

definition index_lawful :: "kindex_opts \<Rightarrow> bool" where
  "index_lawful opts \<longleftrightarrow> index_val_type opts \<ge> KOBJ_NORMAL
     \<and> equivp (\<lambda>a b. kc_cmp (index_compare opts) a b = 0)
     \<and> (\<forall>a b. kc_cmp (index_compare opts) a b = 0 \<longrightarrow> index_hash opts (Ptr a) = index_hash opts (Ptr b))"

definition index_keyed :: "kindex_opts \<Rightarrow> kmath_val \<Rightarrow> kaddr \<Rightarrow> bool" where
  "index_keyed opts v k \<longleftrightarrow> kc_cmp (index_compare opts) v k = 0"

definition index_rep :: "kindex_opts \<Rightarrow> kindex \<Rightarrow> (kaddr \<rightharpoonup> kmath_val) \<Rightarrow> bool" where
  "index_rep opts guard M \<longleftrightarrow> index_opts guard = opts \<and> index_lawful opts
     \<and> ht_rep (index_hashv opts) (index_eqv opts) (index_tab guard) M"

definition kindex_add :: "kindex \<Rightarrow> kaddr \<Rightarrow> kmath_val \<Rightarrow> (kaddr \<times> kindex) option" where
  "kindex_add guard node d = (let g = index_tab guard in map_option (\<lambda>(a, guard, _). (a, guard))
     (kylin_index_insert_raw True (guard\<lparr>index_tab := g\<lparr>hp := (hp g)(node \<mapsto> \<lparr>hn_data = d, hn_next = 0\<rparr>)\<rparr>\<rparr>) node))"

definition kindex_del :: "umem \<Rightarrow> kindex \<Rightarrow> kaddr \<Rightarrow> (kaddr \<times> kindex) option" where
  "kindex_del m guard val = map_option (\<lambda>(a, guard, _). (a, guard)) (index_unlink_node m guard val)"

lemma index_lawful_eqv: "index_lawful opts \<Longrightarrow> index_eqv opts = (\<lambda>v w. kc_cmp (index_compare opts) v w = 0)"
  by (auto simp: index_lawful_def index_eqv_def kmath_val_cmp_def fun_eq_iff)

lemma index_lawful_hashv: "index_lawful opts \<Longrightarrow> index_hashv opts v = index_hash opts (Ptr v)"
  by (auto simp: index_lawful_def index_hashv_def kmath_arg_def kobj_is_int_def)

lemma index_lawful_keys_ok: "index_lawful opts \<Longrightarrow> keys_ok (index_hashv opts) (index_eqv opts)"
  by (auto simp: keys_ok_def index_lawful_eqv index_lawful_hashv) (auto simp: index_lawful_def)

lemma index_lawful_test:
  assumes "index_lawful opts"
  shows "\<forall>a d. N a = Some d \<longrightarrow> index_test m opts k d = Some (index_eqv opts d k)"
    "index_keyed opts d k = index_eqv opts d k"
  using assms
  by (auto simp: index_test_def kmath_val_cmp_raw_def index_lawful_eqv index_keyed_def) (auto simp: index_lawful_def)

lemma index_repE:
  assumes "index_rep opts g M"
  obtains "index_lawful opts" "index_opts g = opts" "ht_rep (index_hashv opts) (index_eqv opts) (index_tab g) M"
    "keys_ok (index_hashv opts) (index_eqv opts)"
  using assms index_lawful_keys_ok by (auto simp: index_rep_def)

interpretation kindex: dictionary "index_rep opts" "index_keyed opts" "index_eqv opts" kindex_add "kindex_del m"
    "kylin_index_find m"
  for opts :: kindex_opts and m :: umem
proof (unfold_locales, goal_cases)
  case (1 s M a d k)
  from 1(1) show ?case
  proof (rule index_repE)
    assume l: "index_lawful opts" "index_opts s = opts" "ht_rep (index_hashv opts) (index_eqv opts) (index_tab s) M"
      "keys_ok (index_hashv opts) (index_eqv opts)"
    show ?thesis
      using ht_find_hit [OF l(3,4) index_lawful_test(1) [OF l(1)] 1(2)] 1(3) l
      by (simp add: kylin_index_find_def index_lawful_hashv index_lawful_test(2))
  qed
next
  case (2 s M k)
  from 2(1) show ?case
  proof (rule index_repE)
    assume l: "index_lawful opts" "index_opts s = opts" "ht_rep (index_hashv opts) (index_eqv opts) (index_tab s) M"
      "keys_ok (index_hashv opts) (index_eqv opts)"
    show ?thesis
      using ht_find_miss [OF l(3,4) index_lawful_test(1) [OF l(1)], of k m] 2(2) l
      by (simp add: kylin_index_find_def index_lawful_hashv index_lawful_test(2))
  qed
next
  case (3 s M a d k)
  from 3(1) show ?case
  proof (rule index_repE)
    assume l: "index_lawful opts" "index_opts s = opts" "ht_rep (index_hashv opts) (index_eqv opts) (index_tab s) M"
      "keys_ok (index_hashv opts) (index_eqv opts)"
    show ?thesis
      using ht_unlink_hit [where rel = "index_rel opts" and x = k and test = "index_test m opts k",
          OF l(3,4) index_lawful_test(1) [OF l(1)] 3(2)] 3(3) l
      by (auto simp: kindex_del_def index_unlink_node_def index_rep_def index_lawful_hashv index_lawful_test(2))
  qed
next
  case (4 s M k)
  from 4(1) show ?case
  proof (rule index_repE)
    assume l: "index_lawful opts" "index_opts s = opts" "ht_rep (index_hashv opts) (index_eqv opts) (index_tab s) M"
      "keys_ok (index_hashv opts) (index_eqv opts)"
    show ?thesis
      using ht_unlink_miss [where rel = "index_rel opts" and x = k and test = "index_test m opts k",
          OF l(3,4) index_lawful_test(1) [OF l(1)]] 4(2) l
      by (auto simp: kindex_del_def index_unlink_node_def index_rep_def index_lawful_hashv index_lawful_test(2))
  qed
next
  case (5 s M a d)
  from 5(1) show ?case
  proof (rule index_repE)
    assume l: "index_lawful opts" "index_opts s = opts" "ht_rep (index_hashv opts) (index_eqv opts) (index_tab s) M"
      "keys_ok (index_hashv opts) (index_eqv opts)"
    let ?n = "\<lparr>hn_data = d, hn_next = 0\<rparr>"
    let ?g = "(index_tab s)\<lparr>hp := (hp (index_tab s))(a \<mapsto> ?n)\<rparr>"
    have fr: "ht_rep (index_hashv opts) (index_eqv opts) ?g M" using ht_rep_frame [OF l(3) 5(3)] .
    show ?thesis
      using ht_insert_new [where g = ?g and n = ?n and rel = "index_rel opts", OF fr l(4) 5(4) 5(3) 5(2)] 5(5) l
      by (auto simp: kindex_add_def kylin_index_insert_raw_def index_rep_def Let_def)
  qed
qed

subsection \<open>Properties\<close>

lemma index_rep_create:
  "kylin_index_create True opts = Some g \<Longrightarrow> index_lawful opts \<Longrightarrow> index_rep opts g Map.empty"
  by (auto simp: kylin_index_create_def index_rep_def ht_rep_empty)

text \<open>
  C7. An index of objects refines the abstract dictionary: after creation, every sequence of
  insertions of absent values, removals and searches is answered exactly as the list of nodes
  answers it, and the count is the number of values.
\<close>

theorem kylin_index_refines_dictionary:
  assumes "index_lawful opts" "kylin_index_create True opts = Some g0"
    and "dict_run (dict_spec (index_keyed opts) (index_eqv opts)) [] ops = Some (rs, ys)"
  shows "\<exists>g. dict_run (dict_impl kindex_add (kindex_del m) (kylin_index_find m)) g0 ops = Some (rs, g)
    \<and> index_rep opts g (map_of ys) \<and> kylin_index_count g = of_nat (card (dom (map_of ys)))"
proof -
  have "index_rep opts g0 (map_of [])" using index_rep_create [OF assms(2,1)] by simp
  from kindex.run_refines [OF this _ assms(3), of m] obtain g where
    "dict_run (dict_impl kindex_add (kindex_del m) (kylin_index_find m)) g0 ops = Some (rs, g)"
    "index_rep opts g (map_of ys)" by auto
  then show ?thesis using ht_rep_count(1) by (auto simp: index_rep_def kylin_index_count_def)
qed

definition demo_index_opts :: kindex_opts where
  "demo_index_opts = \<lparr>index_priv = 0, index_val_type = KOBJ_OTHERS, index_val_size = 8,
     index_hash = (\<lambda>a. case a of Cell w \<Rightarrow> w | Ptr p \<Rightarrow> p),
     index_compare = \<lparr>kc_cmp = \<lambda>a b. if a = b then 0 else 1, kc_dgt = (>), kc_sdgt = (>)\<rparr>,
     index_val_ctor = None\<rparr>"

lemma demo_index_lawful: "index_lawful demo_index_opts"
  by (auto simp: index_lawful_def demo_index_opts_def intro!: equivpI reflpI sympI transpI split: if_splits)

lemma demo_index_eqv: "index_eqv demo_index_opts v w \<longleftrightarrow> v = w" "index_keyed demo_index_opts v k \<longleftrightarrow> v = k"
  using demo_index_lawful by (auto simp: index_lawful_eqv index_keyed_def demo_index_opts_def)

theorem kylin_index_refines_dictionary_witness:
  "\<exists>g. dict_run (dict_impl kindex_add (kindex_del Map.empty) (kylin_index_find Map.empty))
      (the (kylin_index_create True demo_index_opts)) [Add 64 1, Add 128 2, Look 1, Unlink 1, Look 1, Look 2] =
        Some ([64, 128, 64, 64, 0, 128], g)
    \<and> kylin_index_count g = 1"
proof -
  have "kylin_index_create True demo_index_opts = Some (the (kylin_index_create True demo_index_opts))"
    by (simp add: kylin_index_create_def)
  moreover have "dict_run (dict_spec (index_keyed demo_index_opts) (index_eqv demo_index_opts)) []
      [Add 64 1, Add 128 2, Look 1, Unlink 1, Look 1, Look 2] = Some ([64, 128, 64, 64, 0, 128], [(128, 2)])"
    by (simp add: demo_index_eqv)
  ultimately show ?thesis
    using kylin_index_refines_dictionary [OF demo_index_lawful, where m = Map.empty] by fastforce
qed

text \<open>
  Removing a stored object by value destroys the wrong things: the index unlinks the node, then
  takes the object for the node, hands the word stored in the object to the value destructor and
  frees the object.
\<close>

theorem kylin_index_remove_frees_contents:
  assumes rep: "index_rep opts g M" and a: "M a = Some v" "kc_cmp (index_compare opts) v val = 0"
    and type: "index_val_type opts = KOBJ_OTHERS" and w: "mem_word m v 8 = Some w"
  shows "\<exists>g'. kylin_index_remove m g val = Some (KYLIN_ERROR_OK, g', [RelUser w, RelUser v])
    \<and> index_rep opts g' (M(a := None))"
  using rep
proof (rule index_repE)
  assume l: "index_lawful opts" "index_opts g = opts" "ht_rep (index_hashv opts) (index_eqv opts) (index_tab g) M"
    "keys_ok (index_hashv opts) (index_eqv opts)"
  obtain t n where t: "ht_unlink (index_hashv opts) (index_eqv opts) (index_rel opts) (index_tab g)
      (index_hashv opts val) (index_test m opts val) = Some (a, t, [])"
      "ht_rep (index_hashv opts) (index_eqv opts) t (M(a := None))" "hp t a = Some n" "hn_data n = v"
    using ht_unlink_hit [where rel = "index_rel opts" and x = val and test = "index_test m opts val",
        OF l(3,4) index_lawful_test(1) [OF l(1)] a(1)] a(2) l(1)
    by (auto simp: index_lawful_eqv)
  have a0: "a \<noteq> 0" using ht_rep_nonzero(1) [OF l(3) a(1)] .
  let ?g = "g\<lparr>index_tab := t\<lparr>hp := (hp t)(a := None)\<rparr>\<rparr>"
  have "kylin_index_remove m g val = Some (KYLIN_ERROR_OK, ?g, [RelUser w, RelUser v])"
    using t l(1,2) a0 type w
    by (simp add: kylin_index_remove_def kylin_index_unlink_def index_unlink_node_def kylin_index_val_def hnode_get_def
        index_lawful_hashv kmath_val_get_def kobj_is_int_def index_rel_def kmath_val_dtor_def Let_def)
  moreover have "ht_rep (index_hashv opts) (index_eqv opts) (t\<lparr>hp := (hp t)(a := None)\<rparr>) (M(a := None))"
    by (rule ht_rep_frame [OF t(2)]) simp
  ultimately show ?thesis using l by (intro exI [of _ ?g]) (simp add: index_rep_def)
qed

theorem kylin_index_remove_frees_contents_witness:
  "\<exists>g g'. index_rep demo_index_opts g [64 \<mapsto> 8]
    \<and> kylin_index_remove (\<lambda>p. Some 0) g 8 = Some (KYLIN_ERROR_OK, g', [RelUser 0, RelUser 8])"
proof -
  have c: "kylin_index_create True demo_index_opts = Some (the (kylin_index_create True demo_index_opts))"
    by (simp add: kylin_index_create_def)
  have "\<exists>s'. kindex_add (the (kylin_index_create True demo_index_opts)) 64 8 = Some (64, s')
      \<and> index_rep demo_index_opts s' (Map.empty(64 \<mapsto> 8))"
    by (rule kindex.add_new [OF index_rep_create [OF c demo_index_lawful]]) simp_all
  then obtain g where g: "index_rep demo_index_opts g [64 \<mapsto> 8]" by blast
  have "mem_word (\<lambda>p. Some 0) 8 8 = Some 0" by code_simp
  from kylin_index_remove_frees_contents [OF g _ _ _ this, of 64 8] show ?thesis
    using g by (fastforce simp: demo_index_opts_def)
qed

text \<open>
  When the bucket array cannot be allocated, inserting into a new index does not report the
  failure: it reads the value of the null node.
\<close>

theorem kylin_index_insert_null:
  assumes "kylin_index_create True opts = Some g" "index_lawful opts" "index_val_ctor opts = None" "node \<noteq> 0"
  shows "kylin_index_insert m False g node val = None"
proof -
  have "kmath_val_ctor m val (index_val_type opts) s None = Some (val, m)" for s
    using assms(2) by (auto simp: kmath_val_ctor_def index_lawful_def)
  then show ?thesis using assms
    by (auto simp: kylin_index_insert_def kylin_index_create_def kylin_index_insert_raw_def ht_insert_raw_def
        ht_need_expand_def ht_resize_def kmath_ht_reset_def roundup_4 kylin_malloc_def hnode_get_def Let_def)
qed

theorem kylin_index_insert_null_witness:
  "kylin_index_insert Map.empty False (the (kylin_index_create True demo_index_opts)) 64 8 = None"
  using kylin_index_insert_null [OF _ demo_index_lawful, of _ 64 Map.empty 8]
  by (simp add: kylin_index_create_def demo_index_opts_def)

end
