(* ===== verification/Kylin_Rb.thy ===== *)
theory Kylin_Rb
  imports Kylin_Value "HOL-Library.Tree"
begin

section \<open>Red-black trees (lib/core/math/kylin_rb.c)\<close>

text \<open>
  The tree at the level of its pointers: a heap maps the address of a node to its record, address
  0 is the null pointer, reading or writing a node that is not in the heap is \<open>None\<close>. The loops
  follow pointers and need not end on a corrupt heap, hence partial functions. The address an
  allocation returns (0 when it fails) is an argument of the operation that allocates.
\<close>

subsection \<open>Definitions\<close>

abbreviation RB_RED :: bool where "RB_RED \<equiv> True"
abbreviation RB_BLACK :: bool where "RB_BLACK \<equiv> False"

record krb_node =
  rb_parent :: kaddr
  rb_left :: kaddr
  rb_right :: kaddr
  rb_color :: bool
  rb_val :: kmath_val

type_synonym rheap = "kaddr \<Rightarrow> krb_node option"

record krb_opts =
  rb_val_type :: kobj
  rb_val_size :: ksize
  rb_compare :: kcmp
  rb_val_ctor :: "kctor option"

record krb =
  rb_opts :: krb_opts
  rb_count :: ksize
  rb_min :: kaddr
  rb_max :: kaddr
  rb_root :: kaddr

definition rget :: "(krb_node \<Rightarrow> 'a) \<Rightarrow> rheap \<Rightarrow> kaddr \<Rightarrow> 'a option" where
  "rget f H p = (if p = 0 then None else map_option f (H p))"

definition rset :: "(krb_node \<Rightarrow> krb_node) \<Rightarrow> kaddr \<Rightarrow> rheap \<Rightarrow> rheap option" where
  "rset u p H = (if p = 0 then None else map_option (\<lambda>n. H(p \<mapsto> u n)) (H p))"

definition set_parent :: "kaddr \<Rightarrow> kaddr \<Rightarrow> rheap \<Rightarrow> rheap option" where
  "set_parent p v = rset (\<lambda>n. n\<lparr>rb_parent := v\<rparr>) p"

definition set_left :: "kaddr \<Rightarrow> kaddr \<Rightarrow> rheap \<Rightarrow> rheap option" where
  "set_left p v = rset (\<lambda>n. n\<lparr>rb_left := v\<rparr>) p"

definition set_right :: "kaddr \<Rightarrow> kaddr \<Rightarrow> rheap \<Rightarrow> rheap option" where
  "set_right p v = rset (\<lambda>n. n\<lparr>rb_right := v\<rparr>) p"

definition set_color :: "kaddr \<Rightarrow> bool \<Rightarrow> rheap \<Rightarrow> rheap option" where
  "set_color p v = rset (\<lambda>n. n\<lparr>rb_color := v\<rparr>) p"

text \<open>
  The replacement of a child link: in the parent \<open>p\<close> the link to \<open>old\<close> becomes \<open>new\<close>, and the
  root does when there is no parent.
\<close>

definition replace_child :: "krb \<Rightarrow> kaddr \<Rightarrow> kaddr \<Rightarrow> kaddr \<Rightarrow> rheap \<Rightarrow> (krb \<times> rheap) option" where
  "replace_child guard p old new H =
     (if p \<noteq> 0 then do {
        pl \<leftarrow> rget rb_left H p;
        H \<leftarrow> (if pl = old then set_left p new H else set_right p new H);
        Some (guard, H) }
      else Some (guard\<lparr>rb_root := new\<rparr>, H))"

definition rotate_left :: "krb \<Rightarrow> kaddr \<Rightarrow> rheap \<Rightarrow> (krb \<times> rheap) option" where
  "rotate_left guard node H = do {
     tmp \<leftarrow> rget rb_right H node;
     l \<leftarrow> rget rb_left H tmp;
     H \<leftarrow> set_right node l H;
     H \<leftarrow> (if l \<noteq> 0 then do { tl \<leftarrow> rget rb_left H tmp; set_parent tl node H } else Some H);
     p \<leftarrow> rget rb_parent H node;
     H \<leftarrow> set_parent tmp p H;
     (guard, H) \<leftarrow> replace_child guard p node tmp H;
     H \<leftarrow> set_left tmp node H;
     H \<leftarrow> set_parent node tmp H;
     Some (guard, H) }"

definition rotate_right :: "krb \<Rightarrow> kaddr \<Rightarrow> rheap \<Rightarrow> (krb \<times> rheap) option" where
  "rotate_right guard node H = do {
     tmp \<leftarrow> rget rb_left H node;
     r \<leftarrow> rget rb_right H tmp;
     H \<leftarrow> set_left node r H;
     H \<leftarrow> (if r \<noteq> 0 then do { tr \<leftarrow> rget rb_right H tmp; set_parent tr node H } else Some H);
     p \<leftarrow> rget rb_parent H node;
     H \<leftarrow> set_parent tmp p H;
     (guard, H) \<leftarrow> replace_child guard p node tmp H;
     H \<leftarrow> set_right tmp node H;
     H \<leftarrow> set_parent node tmp H;
     Some (guard, H) }"

text \<open>The test \<^verbatim>\<open>node == NULL || RB_COLOR(node) == RB_BLACK\<close>.\<close>

definition is_black :: "kaddr \<Rightarrow> rheap \<Rightarrow> bool option" where
  "is_black p H = (if p = 0 then Some True else map_option Not (rget rb_color H p))"

partial_function (option) insert_color :: "krb \<Rightarrow> kaddr \<Rightarrow> rheap \<Rightarrow> (krb \<times> rheap) option" where
  "insert_color guard node H = do {
     parent \<leftarrow> rget rb_parent H node;
     black \<leftarrow> is_black parent H;
     if black then do {
       H \<leftarrow> set_color (rb_root guard) RB_BLACK H;
       Some (guard, H) }
     else do {
       gparent \<leftarrow> rget rb_parent H parent;
       gl \<leftarrow> rget rb_left H gparent;
       if parent = gl then do {
         tmp \<leftarrow> rget rb_right H gparent;
         tb \<leftarrow> is_black tmp H;
         if \<not> tb then do {
           H \<leftarrow> set_color tmp RB_BLACK H;
           H \<leftarrow> set_color parent RB_BLACK H;
           H \<leftarrow> set_color gparent RB_RED H;
           insert_color guard gparent H }
         else do {
           pr \<leftarrow> rget rb_right H parent;
           (guard, H, node, parent) \<leftarrow>
             (if pr = node then do {
                (guard, H) \<leftarrow> rotate_left guard parent H;
                Some (guard, H, parent, node) }
              else Some (guard, H, node, parent));
           H \<leftarrow> set_color parent RB_BLACK H;
           H \<leftarrow> set_color gparent RB_RED H;
           (guard, H) \<leftarrow> rotate_right guard gparent H;
           insert_color guard node H } }
       else do {
         tmp \<leftarrow> rget rb_left H gparent;
         tb \<leftarrow> is_black tmp H;
         if \<not> tb then do {
           H \<leftarrow> set_color tmp RB_BLACK H;
           H \<leftarrow> set_color parent RB_BLACK H;
           H \<leftarrow> set_color gparent RB_RED H;
           insert_color guard gparent H }
         else do {
           pl \<leftarrow> rget rb_left H parent;
           (guard, H, node, parent) \<leftarrow>
             (if pl = node then do {
                (guard, H) \<leftarrow> rotate_right guard parent H;
                Some (guard, H, parent, node) }
              else Some (guard, H, node, parent));
           H \<leftarrow> set_color parent RB_BLACK H;
           H \<leftarrow> set_color gparent RB_RED H;
           (guard, H) \<leftarrow> rotate_left guard gparent H;
           insert_color guard node H } } } }"

text \<open>
  The repair after a removal, for a node that is the left child and for one that is the right
  child: the result is the parent and node of the next round, or none when the loop breaks. A
  colour read of the sibling \<^verbatim>\<open>tmp\<close> goes through a pointer that the source does not check.
\<close>

definition remove_color_left :: "krb \<Rightarrow> kaddr \<Rightarrow> rheap \<Rightarrow> (krb \<times> rheap \<times> (kaddr \<times> kaddr) option) option" where
  "remove_color_left guard parent H = do {
     tmp \<leftarrow> rget rb_right H parent;
     red \<leftarrow> rget rb_color H tmp;
     (guard, H, tmp) \<leftarrow>
       (if red then do {
          H \<leftarrow> set_color tmp RB_BLACK H;
          H \<leftarrow> set_color parent RB_RED H;
          (guard, H) \<leftarrow> rotate_left guard parent H;
          tmp \<leftarrow> rget rb_right H parent;
          Some (guard, H, tmp) }
        else Some (guard, H, tmp));
     tl \<leftarrow> rget rb_left H tmp;
     lb \<leftarrow> is_black tl H;
     tr \<leftarrow> rget rb_right H tmp;
     rb \<leftarrow> is_black tr H;
     if lb \<and> rb then do {
       H \<leftarrow> set_color tmp RB_RED H;
       pp \<leftarrow> rget rb_parent H parent;
       Some (guard, H, Some (pp, parent)) }
     else do {
       (guard, H, tmp) \<leftarrow>
         (if rb then do {
            H \<leftarrow> (if tl \<noteq> 0 then set_color tl RB_BLACK H else Some H);
            H \<leftarrow> set_color tmp RB_RED H;
            (guard, H) \<leftarrow> rotate_right guard tmp H;
            tmp \<leftarrow> rget rb_right H parent;
            Some (guard, H, tmp) }
          else Some (guard, H, tmp));
       pc \<leftarrow> rget rb_color H parent;
       H \<leftarrow> set_color tmp pc H;
       H \<leftarrow> set_color parent RB_BLACK H;
       far \<leftarrow> rget rb_right H tmp;
       H \<leftarrow> (if far \<noteq> 0 then set_color far RB_BLACK H else Some H);
       (guard, H) \<leftarrow> rotate_left guard parent H;
       Some (guard, H, None) } }"

definition remove_color_right :: "krb \<Rightarrow> kaddr \<Rightarrow> rheap \<Rightarrow> (krb \<times> rheap \<times> (kaddr \<times> kaddr) option) option" where
  "remove_color_right guard parent H = do {
     tmp \<leftarrow> rget rb_left H parent;
     red \<leftarrow> rget rb_color H tmp;
     (guard, H, tmp) \<leftarrow>
       (if red then do {
          H \<leftarrow> set_color tmp RB_BLACK H;
          H \<leftarrow> set_color parent RB_RED H;
          (guard, H) \<leftarrow> rotate_right guard parent H;
          tmp \<leftarrow> rget rb_left H parent;
          Some (guard, H, tmp) }
        else Some (guard, H, tmp));
     tl \<leftarrow> rget rb_left H tmp;
     lb \<leftarrow> is_black tl H;
     tr \<leftarrow> rget rb_right H tmp;
     rb \<leftarrow> (if lb then is_black tr H else Some False);
     if lb \<and> rb then do {
       H \<leftarrow> set_color tmp RB_RED H;
       pp \<leftarrow> rget rb_parent H parent;
       Some (guard, H, Some (pp, parent)) }
     else do {
       (guard, H, tmp) \<leftarrow>
         (if lb then do {
            H \<leftarrow> (if tr \<noteq> 0 then set_color tr RB_BLACK H else Some H);
            H \<leftarrow> set_color tmp RB_RED H;
            (guard, H) \<leftarrow> rotate_left guard tmp H;
            tmp \<leftarrow> rget rb_left H parent;
            Some (guard, H, tmp) }
          else Some (guard, H, tmp));
       pc \<leftarrow> rget rb_color H parent;
       H \<leftarrow> set_color tmp pc H;
       H \<leftarrow> set_color parent RB_BLACK H;
       far \<leftarrow> rget rb_left H tmp;
       H \<leftarrow> (if far \<noteq> 0 then set_color far RB_BLACK H else Some H);
       (guard, H) \<leftarrow> rotate_right guard parent H;
       Some (guard, H, None) } }"

partial_function (option) remove_color :: "krb \<Rightarrow> kaddr \<Rightarrow> kaddr \<Rightarrow> rheap \<Rightarrow> (krb \<times> rheap) option" where
  "remove_color guard parent node H = do {
     nb \<leftarrow> is_black node H;
     if \<not> (nb \<and> node \<noteq> rb_root guard) then do {
       H \<leftarrow> (if node \<noteq> 0 then set_color node RB_BLACK H else Some H);
       Some (guard, H) }
     else do {
       pl \<leftarrow> rget rb_left H parent;
       (guard, H, next) \<leftarrow> (if pl = node then remove_color_left guard parent H else remove_color_right guard parent H);
       case next of Some (pp, n) \<Rightarrow> remove_color guard pp n H
       | None \<Rightarrow> do {
           H \<leftarrow> (if rb_root guard \<noteq> 0 then set_color (rb_root guard) RB_BLACK H else Some H);
           Some (guard, H) } } }"

definition kylin_rb_create :: "bool \<Rightarrow> krb_opts \<Rightarrow> krb option" where
  "kylin_rb_create ok opts =
     (if ok then Some \<lparr>rb_opts = opts, rb_count = 0, rb_min = 0, rb_max = 0, rb_root = 0\<rparr> else None)"

definition kylin_rb_clear :: "krb \<Rightarrow> unit" where
  "kylin_rb_clear guard = ()"

definition kylin_rb_val :: "krb \<Rightarrow> rheap \<Rightarrow> kaddr \<Rightarrow> kaddr kref option" where
  "kylin_rb_val guard H node = do {
     v \<leftarrow> rget rb_val H node;
     Some (kmath_val_get node v (rb_val_type (rb_opts guard))) }"

text \<open>
  The descent to the place of a new value: \<open>None\<close> inside says that an equal value is stored;
  otherwise the result is the value of \<^verbatim>\<open>tmp\<close> after the loop (null), the parent and the result
  of the last comparison.
\<close>

partial_function (option) rb_descend ::
    "krb \<Rightarrow> rheap \<Rightarrow> kaddr \<Rightarrow> kaddr \<Rightarrow> kaddr \<Rightarrow> int \<Rightarrow> (kaddr \<times> kaddr \<times> int) option option" where
  "rb_descend guard H node tmp parent result =
     (if tmp = 0 then Some (Some (tmp, parent, result))
      else do {
        v \<leftarrow> rget rb_val H node;
        w \<leftarrow> rget rb_val H tmp;
        let result = kmath_val_cmp (rb_compare (rb_opts guard)) (rb_val_type (rb_opts guard)) v w;
        if result < 0 then do { l \<leftarrow> rget rb_left H tmp; rb_descend guard H node l tmp result }
        else if result > 0 then do { r \<leftarrow> rget rb_right H tmp; rb_descend guard H node r tmp result }
        else Some None })"

definition rb_attach :: "krb \<Rightarrow> kaddr \<Rightarrow> kaddr \<times> kaddr \<times> int \<Rightarrow> rheap \<Rightarrow> (krb \<times> rheap) option" where
  "rb_attach guard node = (\<lambda>(tmp, parent, result) H. do {
     H \<leftarrow> set_parent node parent H;
     H \<leftarrow> set_right node 0 H;
     H \<leftarrow> set_left node 0 H;
     H \<leftarrow> set_color node RB_RED H;
     (guard, H) \<leftarrow>
       (if tmp \<noteq> 0 then do {
          H \<leftarrow> (if result < 0 then set_left parent node H else set_right parent node H);
          Some (guard, H) }
        else Some (guard\<lparr>rb_root := node\<rparr>, H));
     insert_color guard node H })"

definition kylin_rb_insert ::
    "umem \<Rightarrow> krb \<Rightarrow> rheap \<Rightarrow> kaddr \<Rightarrow> kaddr \<Rightarrow> (kaddr kref option \<times> krb \<times> rheap \<times> krelease list \<times> umem) option" where
  "kylin_rb_insert m guard H node elm =
     (if node = 0 then Some (None, guard, H, [], m)
      else do {
        let opts = rb_opts guard;
        (v, m) \<leftarrow> kmath_val_ctor m elm (rb_val_type opts) (rb_val_size opts) (rb_val_ctor opts);
        let H = H(node \<mapsto> \<lparr>rb_parent = 0, rb_left = 0, rb_right = 0, rb_color = False, rb_val = v\<rparr>);
        r \<leftarrow> rb_descend guard H node (rb_root guard) 0 0;
        case r of None \<Rightarrow> Some (None, guard, H(node := None), kmath_val_dtor v (rb_val_type opts) True, m)
        | Some place \<Rightarrow> do {
            (guard, H) \<leftarrow> rb_attach guard node place H;
            res \<leftarrow> kylin_rb_val guard H node;
            Some (Some res, guard, H, [], m) } })"

definition kylin_rb_insert_raw :: "krb \<Rightarrow> rheap \<Rightarrow> kaddr \<Rightarrow> (krb \<times> rheap) option" where
  "kylin_rb_insert_raw guard H node = do {
     r \<leftarrow> rb_descend guard H node (rb_root guard) 0 0;
     case r of None \<Rightarrow> Some (guard, H)
     | Some place \<Rightarrow> rb_attach guard node place H }"

partial_function (option) leftmost :: "rheap \<Rightarrow> kaddr \<Rightarrow> kaddr option" where
  "leftmost H node = do {
     l \<leftarrow> rget rb_left H node;
     if l \<noteq> 0 then leftmost H l else Some node }"

partial_function (option) rightmost :: "rheap \<Rightarrow> kaddr \<Rightarrow> kaddr option" where
  "rightmost H node = do {
     r \<leftarrow> rget rb_right H node;
     if r \<noteq> 0 then rightmost H r else Some node }"

definition kylin_rb_unlink_raw :: "krb \<Rightarrow> rheap \<Rightarrow> kaddr \<Rightarrow> (kaddr \<times> krb \<times> rheap) option" where
  "kylin_rb_unlink_raw guard H old = do {
     l \<leftarrow> rget rb_left H old;
     r \<leftarrow> rget rb_right H old;
     (guard, H, color, parent, child) \<leftarrow>
       (if l \<noteq> 0 \<and> r \<noteq> 0 then do {
          node \<leftarrow> leftmost H r;
          child \<leftarrow> rget rb_right H node;
          parent \<leftarrow> rget rb_parent H node;
          color \<leftarrow> rget rb_color H node;
          H \<leftarrow> (if child \<noteq> 0 then set_parent child parent H else Some H);
          (guard, H) \<leftarrow> replace_child guard parent node child H;
          np \<leftarrow> rget rb_parent H node;
          let parent = (if np = old then node else parent);
          op \<leftarrow> rget rb_parent H old;
          (guard, H) \<leftarrow> replace_child guard op old node H;
          ol \<leftarrow> rget rb_left H old;
          H \<leftarrow> set_parent ol node H;
          or \<leftarrow> rget rb_right H old;
          H \<leftarrow> (if or \<noteq> 0 then set_parent or node H else Some H);
          Some (guard, H, color, parent, child) }
        else do {
          let child = (if l = 0 then r else l);
          parent \<leftarrow> rget rb_parent H old;
          color \<leftarrow> rget rb_color H old;
          H \<leftarrow> (if child \<noteq> 0 then set_parent child parent H else Some H);
          (guard, H) \<leftarrow> replace_child guard parent old child H;
          Some (guard, H, color, parent, child) });
     (guard, H) \<leftarrow> (if color = RB_BLACK then remove_color guard parent child H else Some (guard, H));
     Some (old, guard, H) }"

text \<open>\<^verbatim>\<open>kylin_rb_remove_raw\<close> is the same removal, followed by the release of the node.\<close>

definition kylin_rb_remove_raw :: "krb \<Rightarrow> rheap \<Rightarrow> kaddr \<Rightarrow> (krb \<times> rheap \<times> krelease list) option" where
  "kylin_rb_remove_raw guard H node = do {
     (old, guard, H) \<leftarrow> kylin_rb_unlink_raw guard H node;
     v \<leftarrow> rget rb_val H old;
     Some (guard, H(old := None), kmath_val_dtor v (rb_val_type (rb_opts guard)) True) }"

partial_function (option) rb_search :: "umem \<Rightarrow> krb \<Rightarrow> rheap \<Rightarrow> kaddr \<Rightarrow> kaddr \<Rightarrow> kaddr option" where
  "rb_search m guard H cmp tmp =
     (if tmp = 0 then Some 0
      else do {
        v \<leftarrow> rget rb_val H tmp;
        result \<leftarrow> kmath_val_cmp_raw m (rb_compare (rb_opts guard)) (rb_val_type (rb_opts guard)) v cmp;
        if result < 0 then do { r \<leftarrow> rget rb_right H tmp; rb_search m guard H cmp r }
        else if result > 0 then do { l \<leftarrow> rget rb_left H tmp; rb_search m guard H cmp l }
        else Some tmp })"

partial_function (option) rb_search_next ::
    "umem \<Rightarrow> krb \<Rightarrow> rheap \<Rightarrow> kaddr \<Rightarrow> kaddr \<Rightarrow> kaddr \<Rightarrow> (bool \<times> kaddr) option" where
  "rb_search_next m guard H cmp res tmp =
     (if tmp = 0 then Some (False, res)
      else do {
        v \<leftarrow> rget rb_val H tmp;
        result \<leftarrow> kmath_val_cmp_raw m (rb_compare (rb_opts guard)) (rb_val_type (rb_opts guard)) v cmp;
        if result < 0 then do { r \<leftarrow> rget rb_right H tmp; rb_search_next m guard H cmp tmp r }
        else if result > 0 then do { l \<leftarrow> rget rb_left H tmp; rb_search_next m guard H cmp res l }
        else Some (True, tmp) })"

definition kylin_rb_find_raw :: "umem \<Rightarrow> krb \<Rightarrow> rheap \<Rightarrow> kaddr \<Rightarrow> kaddr option" where
  "kylin_rb_find_raw m guard H cmp = rb_search m guard H cmp (rb_root guard)"

definition kylin_rb_find :: "umem \<Rightarrow> krb \<Rightarrow> rheap \<Rightarrow> kaddr \<Rightarrow> kaddr kref option option" where
  "kylin_rb_find m guard H cmp = do {
     a \<leftarrow> rb_search m guard H cmp (rb_root guard);
     if a = 0 then Some None else map_option Some (kylin_rb_val guard H a) }"

definition kylin_rb_find_or_next_raw :: "umem \<Rightarrow> krb \<Rightarrow> rheap \<Rightarrow> kaddr \<Rightarrow> kaddr option" where
  "kylin_rb_find_or_next_raw m guard H cmp = map_option snd (rb_search_next m guard H cmp 0 (rb_root guard))"

text \<open>
  The variant that returns a value: a match is returned as the pointer to the value, anything
  else as the node itself, under the same type \<^verbatim>\<open>void *\<close>.
\<close>

datatype rb_found = FoundVal "kaddr kref" | FoundNode kaddr

definition kylin_rb_find_or_next :: "umem \<Rightarrow> krb \<Rightarrow> rheap \<Rightarrow> kaddr \<Rightarrow> rb_found option" where
  "kylin_rb_find_or_next m guard H cmp = do {
     (exact, a) \<leftarrow> rb_search_next m guard H cmp 0 (rb_root guard);
     if exact then map_option FoundVal (kylin_rb_val guard H a) else Some (FoundNode a) }"

definition kylin_rb_remove :: "umem \<Rightarrow> krb \<Rightarrow> rheap \<Rightarrow> kaddr \<Rightarrow> (krb \<times> rheap \<times> krelease list) option" where
  "kylin_rb_remove m guard H cmp = do {
     tmp \<leftarrow> kylin_rb_find_raw m guard H cmp;
     if tmp = 0 then Some (guard, H, []) else kylin_rb_remove_raw guard H tmp }"

definition kylin_rb_unlink :: "umem \<Rightarrow> krb \<Rightarrow> rheap \<Rightarrow> kaddr \<Rightarrow> (kaddr kref option \<times> krb \<times> rheap) option" where
  "kylin_rb_unlink m guard H cmp = do {
     tmp \<leftarrow> kylin_rb_find_raw m guard H cmp;
     if tmp = 0 then Some (None, guard, H)
     else do {
       (tmp, guard, H) \<leftarrow> kylin_rb_unlink_raw guard H tmp;
       if tmp = 0 then Some (None, guard, H)
       else do {
         result \<leftarrow> kylin_rb_val guard H tmp;
         Some (Some result, guard, H(tmp := None)) } } }"

definition kylin_rb_count :: "krb \<Rightarrow> ksize" where
  "kylin_rb_count guard = rb_count guard"

definition kylin_rb_min :: "krb \<Rightarrow> kaddr" where
  "kylin_rb_min guard = rb_min guard"

definition kylin_rb_max :: "krb \<Rightarrow> kaddr" where
  "kylin_rb_max guard = rb_max guard"

text \<open>
  The loop of destroy: the value of the minimum is destroyed before the pointer is tested, and
  the node's address is handed to the removal as the key to search. The destructor of an integer
  value does not read the value, so the null pointer is not followed then.
\<close>

partial_function (option) kylin_rb_destroy :: "umem \<Rightarrow> krb \<Rightarrow> rheap \<Rightarrow> krelease list \<Rightarrow> (rheap \<times> krelease list) option" where
  "kylin_rb_destroy m guard H rels = do {
     let node = kylin_rb_min guard;
     d \<leftarrow> (if kobj_is_int (rb_val_type (rb_opts guard)) then Some []
          else map_option (\<lambda>v. kmath_val_dtor v (rb_val_type (rb_opts guard)) True) (rget rb_val H node));
     let rels = rels @ d;
     (guard, H, r) \<leftarrow> kylin_rb_remove m guard H node;
     if node \<noteq> 0 then kylin_rb_destroy m guard H (rels @ r) else Some (H, rels @ r) }"

partial_function (option) climb_right :: "rheap \<Rightarrow> kaddr \<Rightarrow> kaddr option" where
  "climb_right H tmp = do {
     p \<leftarrow> rget rb_parent H tmp;
     if p = 0 then Some p
     else do {
       pr \<leftarrow> rget rb_right H p;
       if tmp = pr then climb_right H p else Some p } }"

partial_function (option) climb_left :: "rheap \<Rightarrow> kaddr \<Rightarrow> kaddr option" where
  "climb_left H tmp = do {
     p \<leftarrow> rget rb_parent H tmp;
     if p = 0 then Some p
     else do {
       pl \<leftarrow> rget rb_left H p;
       if tmp = pl then climb_left H p else Some p } }"

definition kylin_rb_next_raw :: "rheap \<Rightarrow> kaddr \<Rightarrow> kaddr option" where
  "kylin_rb_next_raw H node = do {
     r \<leftarrow> rget rb_right H node;
     if r \<noteq> 0 then leftmost H r
     else do {
       p \<leftarrow> rget rb_parent H node;
       pl \<leftarrow> (if p \<noteq> 0 then rget rb_left H p else Some 0);
       if p \<noteq> 0 \<and> node = pl then Some p else climb_right H node } }"

definition kylin_rb_prev_raw :: "rheap \<Rightarrow> kaddr \<Rightarrow> kaddr option" where
  "kylin_rb_prev_raw H node = do {
     l \<leftarrow> rget rb_left H node;
     if l \<noteq> 0 then rightmost H l
     else do {
       p \<leftarrow> rget rb_parent H node;
       pr \<leftarrow> (if p \<noteq> 0 then rget rb_right H p else Some 0);
       if p \<noteq> 0 \<and> node = pr then Some p else climb_left H node } }"

definition kylin_rb_next :: "umem \<Rightarrow> krb \<Rightarrow> rheap \<Rightarrow> kaddr \<Rightarrow> kaddr kref option option" where
  "kylin_rb_next m guard H cmp = do {
     node \<leftarrow> kylin_rb_find_raw m guard H cmp;
     if node = 0 then Some None
     else do {
       node \<leftarrow> kylin_rb_next_raw H node;
       if node = 0 then Some None else map_option Some (kylin_rb_val guard H node) } }"

definition kylin_rb_prev :: "umem \<Rightarrow> krb \<Rightarrow> rheap \<Rightarrow> kaddr \<Rightarrow> kaddr kref option option" where
  "kylin_rb_prev m guard H cmp = do {
     node \<leftarrow> kylin_rb_find_raw m guard H cmp;
     if node = 0 then Some None
     else do {
       node \<leftarrow> kylin_rb_prev_raw H node;
       if node = 0 then Some None else map_option Some (kylin_rb_val guard H node) } }"

text \<open>The loops are executable by their unfolding equations.\<close>

declare insert_color.simps [code]
declare remove_color.simps [code]
declare rb_descend.simps [code]
declare leftmost.simps [code]
declare rightmost.simps [code]
declare rb_search.simps [code]
declare rb_search_next.simps [code]
declare kylin_rb_destroy.simps [code]
declare climb_right.simps [code]
declare climb_left.simps [code]

end
