(* ===== verification/Kylin_Rb_Tree.thy ===== *)
theory Kylin_Rb_Tree
  imports Kylin_Rb
begin

section \<open>Red-black trees: the shape of the tree in the heap\<close>

text \<open>
  Lemmas on the definitions of \<open>Kylin_Rb\<close>: the predicate that a heap holds a well-linked binary
  tree, the search loops, the in-order neighbours and the two rotations in terms of that tree.
\<close>

subsection \<open>Trees in the heap\<close>

text \<open>
  \<open>rtree H q p t\<close>: at \<open>p\<close> hangs the tree \<open>t\<close> of node addresses, under the parent \<open>q\<close>, with all
  parent pointers as they should be.
\<close>

fun rtree :: "rheap \<Rightarrow> kaddr \<Rightarrow> kaddr \<Rightarrow> kaddr tree \<Rightarrow> bool" where
  "rtree H q p Leaf \<longleftrightarrow> p = 0"
| "rtree H q p (Node l a r) \<longleftrightarrow> p = a \<and> a \<noteq> 0 \<and>
     (\<exists>n. H a = Some n \<and> rb_parent n = q \<and> rtree H a (rb_left n) l \<and> rtree H a (rb_right n) r)"

definition rb_hd :: "kaddr list \<Rightarrow> kaddr" where
  "rb_hd xs = (case xs of [] \<Rightarrow> 0 | x # _ \<Rightarrow> x)"

lemma rget_some [simp]: "p \<noteq> 0 \<Longrightarrow> H p = Some n \<Longrightarrow> rget f H p = Some (f n)"
  by (simp add: rget_def)

lemma rget_null [simp]: "rget f H 0 = None"
  by (simp add: rget_def)

lemma rtree_frame: "(\<And>a. a \<in> set_tree t \<Longrightarrow> H' a = H a) \<Longrightarrow> rtree H' q p t = rtree H q p t"
  by (induction t arbitrary: q p) auto

lemma rtree_null: "rtree H q p t \<Longrightarrow> p = 0 \<longleftrightarrow> t = Leaf"
  by (cases t) auto

lemma rtree_root: "rtree H q p t \<Longrightarrow> p \<noteq> 0 \<Longrightarrow> p \<in> set_tree t"
  by (cases t) auto

lemma rtree_nonzero: "rtree H q p t \<Longrightarrow> 0 \<notin> set_tree t"
  by (induction t arbitrary: q p) auto

lemma rtree_heap: "rtree H q p t \<Longrightarrow> a \<in> set_tree t \<Longrightarrow> \<exists>n. H a = Some n"
  by (induction t arbitrary: q p) auto

subsection \<open>Search\<close>

text \<open>
  The laws of a comparison: it is the sign of a total preorder, and values are compared as objects.
\<close>

definition rb_lawful :: "krb_opts \<Rightarrow> bool" where
  "rb_lawful opts \<longleftrightarrow> rb_val_type opts \<ge> KOBJ_NORMAL \<and> (let cmp = kc_cmp (rb_compare opts) in
     (\<forall>a b. cmp a b < 0 \<longleftrightarrow> cmp b a > 0) \<and>
     (\<forall>a b c. cmp a b \<le> 0 \<longrightarrow> cmp b c \<le> 0 \<longrightarrow> cmp a c \<le> 0 \<and> (cmp a b < 0 \<or> cmp b c < 0 \<longrightarrow> cmp a c < 0)))"

definition rval :: "rheap \<Rightarrow> kaddr \<Rightarrow> kmath_val" where
  "rval H a = rb_val (the (H a))"

definition rb_cmp :: "krb \<Rightarrow> kmath_val \<Rightarrow> kaddr \<Rightarrow> int" where
  "rb_cmp guard = kc_cmp (rb_compare (rb_opts guard))"

text \<open>A search tree: the values rise in the in-order sequence.\<close>

definition rb_sorted :: "krb \<Rightarrow> rheap \<Rightarrow> kaddr tree \<Rightarrow> bool" where
  "rb_sorted guard H t \<longleftrightarrow> sorted_wrt (\<lambda>a b. rb_cmp guard (rval H a) (rval H b) < 0) (inorder t)"

lemma rb_lawful_raw:
  "rb_lawful (rb_opts guard) \<Longrightarrow>
   kmath_val_cmp_raw m (rb_compare (rb_opts guard)) (rb_val_type (rb_opts guard)) v k = Some (rb_cmp guard v k)"
  by (auto simp: rb_lawful_def kmath_val_cmp_raw_def rb_cmp_def)

lemma rb_lawful_trans:
  assumes "rb_lawful (rb_opts guard)"
  shows "rb_cmp guard a b < 0 \<Longrightarrow> rb_cmp guard b c \<le> 0 \<Longrightarrow> rb_cmp guard a c < 0"
    "rb_cmp guard a b < 0 \<Longrightarrow> rb_cmp guard a c \<ge> 0 \<Longrightarrow> rb_cmp guard b c > 0"
proof -
  have s: "rb_cmp guard x y < 0 \<longleftrightarrow> rb_cmp guard y x > 0" for x y
    using assms by (simp add: rb_lawful_def rb_cmp_def Let_def)
  have t: "rb_cmp guard x y \<le> 0 \<Longrightarrow> rb_cmp guard y z \<le> 0 \<Longrightarrow>
      rb_cmp guard x z \<le> 0 \<and> (rb_cmp guard x y < 0 \<or> rb_cmp guard y z < 0 \<longrightarrow> rb_cmp guard x z < 0)" for x y z
    using assms unfolding rb_lawful_def rb_cmp_def Let_def by blast
  show "rb_cmp guard a b < 0 \<Longrightarrow> rb_cmp guard b c \<le> 0 \<Longrightarrow> rb_cmp guard a c < 0"
    using t [of a b c] by simp
  show "rb_cmp guard b c > 0" if "rb_cmp guard a b < 0" "rb_cmp guard a c \<ge> 0"
  proof (rule ccontr)
    assume "\<not> rb_cmp guard b c > 0"
    then have "rb_cmp guard a c < 0" using t [of a b c] that(1) by simp
    with that(2) show False by simp
  qed
qed

lemma rb_search_tree:
  assumes "rtree H q p t" "rb_lawful (rb_opts guard)" "rb_sorted guard H t"
  shows "\<exists>a. rb_search m guard H k p = Some a \<and>
    (if a = 0 then \<forall>b \<in> set (inorder t). rb_cmp guard (rval H b) k \<noteq> 0
     else a \<in> set (inorder t) \<and> rb_cmp guard (rval H a) k = 0)"
  using assms
proof (induction t arbitrary: q p)
  case Leaf
  then show ?case by (simp add: rb_search.simps [of m guard H k])
next
  case (Node l x r)
  obtain n where n: "p = x" "x \<noteq> 0" "H x = Some n" "rtree H x (rb_left n) l" "rtree H x (rb_right n) r"
    using Node.prems(1) by auto
  have so: "rb_sorted guard H l" "rb_sorted guard H r"
    "\<And>b. b \<in> set (inorder l) \<Longrightarrow> rb_cmp guard (rval H b) (rval H x) < 0"
    "\<And>b. b \<in> set (inorder r) \<Longrightarrow> rb_cmp guard (rval H x) (rval H b) < 0"
    using Node.prems(3) by (auto simp: rb_sorted_def sorted_wrt_append)
  let ?c = "rb_cmp guard (rval H x) k"
  have step: "rb_search m guard H k p = (if ?c < 0 then rb_search m guard H k (rb_right n)
      else if ?c > 0 then rb_search m guard H k (rb_left n) else Some x)"
    using n rb_lawful_raw [OF Node.prems(2)] by (subst rb_search.simps) (simp add: rval_def)
  consider "?c < 0" | "?c > 0" | "?c = 0" by linarith
  then show ?case
  proof cases
    case 1
    have "rb_cmp guard (rval H b) k < 0" if "b \<in> set (inorder l)" for b
      using rb_lawful_trans(1) [OF Node.prems(2) so(3) [OF that]] 1 by simp
    then have no: "\<forall>b \<in> set (inorder l). rb_cmp guard (rval H b) k \<noteq> 0" by force
    obtain a where "rb_search m guard H k (rb_right n) = Some a"
        "if a = 0 then \<forall>b \<in> set (inorder r). rb_cmp guard (rval H b) k \<noteq> 0
         else a \<in> set (inorder r) \<and> rb_cmp guard (rval H a) k = 0"
      using Node.IH(2) [OF n(5) Node.prems(2) so(2)] by blast
    then show ?thesis using 1 no step by (auto split: if_splits)
  next
    case 2
    have "rb_cmp guard (rval H b) k > 0" if "b \<in> set (inorder r)" for b
      using rb_lawful_trans(2) [OF Node.prems(2) so(4) [OF that]] 2 by simp
    then have no: "\<forall>b \<in> set (inorder r). rb_cmp guard (rval H b) k \<noteq> 0" by force
    obtain a where "rb_search m guard H k (rb_left n) = Some a"
        "if a = 0 then \<forall>b \<in> set (inorder l). rb_cmp guard (rval H b) k \<noteq> 0
         else a \<in> set (inorder l) \<and> rb_cmp guard (rval H a) k = 0"
      using Node.IH(1) [OF n(4) Node.prems(2) so(1)] by blast
    then show ?thesis using 2 no step by (auto split: if_splits)
  next
    case 3
    then show ?thesis using n step by simp
  qed
qed

text \<open>
  The search that falls back: without an exact match it returns the last node it left to the
  right, which is the greatest smaller one, or what it started with.
\<close>

lemma rb_search_next_tree:
  assumes "rtree H q p t" "rb_lawful (rb_opts guard)" "rb_sorted guard H t"
    and "\<forall>b \<in> set (inorder t). rb_cmp guard (rval H b) k \<noteq> 0"
  shows "rb_search_next m guard H k res p =
    Some (False, last (res # filter (\<lambda>b. rb_cmp guard (rval H b) k < 0) (inorder t)))"
  using assms
proof (induction t arbitrary: q p res)
  case Leaf
  then show ?case by (simp add: rb_search_next.simps [of m guard H k])
next
  case (Node l x r)
  obtain n where n: "p = x" "x \<noteq> 0" "H x = Some n" "rtree H x (rb_left n) l" "rtree H x (rb_right n) r"
    using Node.prems(1) by auto
  have so: "rb_sorted guard H l" "rb_sorted guard H r"
    "\<And>b. b \<in> set (inorder l) \<Longrightarrow> rb_cmp guard (rval H b) (rval H x) < 0"
    "\<And>b. b \<in> set (inorder r) \<Longrightarrow> rb_cmp guard (rval H x) (rval H b) < 0"
    using Node.prems(3) by (auto simp: rb_sorted_def sorted_wrt_append)
  let ?c = "rb_cmp guard (rval H x) k"
  have step: "rb_search_next m guard H k res p = (if ?c < 0 then rb_search_next m guard H k x (rb_right n)
      else if ?c > 0 then rb_search_next m guard H k res (rb_left n) else Some (True, x))"
    using n rb_lawful_raw [OF Node.prems(2)] by (subst rb_search_next.simps) (simp add: rval_def)
  have "?c \<noteq> 0" using Node.prems(4) by simp
  then consider "?c < 0" | "?c > 0" by linarith
  then show ?case
  proof cases
    case 1
    have "rb_cmp guard (rval H b) k < 0" if "b \<in> set (inorder l)" for b
      using rb_lawful_trans(1) [OF Node.prems(2) so(3) [OF that]] 1 by simp
    then have "filter (\<lambda>b. rb_cmp guard (rval H b) k < 0) (inorder l) = inorder l" by simp
    moreover have "rb_search_next m guard H k x (rb_right n) =
        Some (False, last (x # filter (\<lambda>b. rb_cmp guard (rval H b) k < 0) (inorder r)))"
      using Node.IH(2) [OF n(5) Node.prems(2) so(2)] Node.prems(4) by simp
    ultimately show ?thesis using 1 step by simp
  next
    case 2
    have "\<not> rb_cmp guard (rval H b) k < 0" if "b \<in> set (inorder r)" for b
      using rb_lawful_trans(2) [OF Node.prems(2) so(4) [OF that], of k] 2 by linarith
    then have "filter (\<lambda>b. rb_cmp guard (rval H b) k < 0) (inorder r) = []" by simp
    moreover have "rb_search_next m guard H k res (rb_left n) =
        Some (False, last (res # filter (\<lambda>b. rb_cmp guard (rval H b) k < 0) (inorder l)))"
      using Node.IH(1) [OF n(4) Node.prems(2) so(1)] Node.prems(4) by simp
    ultimately show ?thesis using 2 step by simp
  qed
qed

subsection \<open>In-order neighbours\<close>

lemma leftmost_tree:
  "rtree H q p t \<Longrightarrow> t \<noteq> Leaf \<Longrightarrow> leftmost H p = Some (rb_hd (inorder t))"
proof (induction t arbitrary: q p)
  case (Node l x r)
  then obtain n where n: "p = x" "x \<noteq> 0" "H x = Some n" "rtree H x (rb_left n) l" by auto
  show ?case
  proof (cases "l = Leaf")
    case True
    then show ?thesis using n by (subst leftmost.simps) (simp add: rb_hd_def)
  next
    case False
    then have "rb_left n \<noteq> 0" using rtree_null [OF n(4)] by simp
    moreover have "inorder l \<noteq> []" using False by (cases l) auto
    ultimately show ?thesis using n Node.IH(1) [OF n(4) False]
      by (subst leftmost.simps) (auto simp: rb_hd_def split: list.splits)
  qed
qed simp

lemma rightmost_tree:
  "rtree H q p t \<Longrightarrow> t \<noteq> Leaf \<Longrightarrow> rightmost H p = Some (last (inorder t))"
proof (induction t arbitrary: q p)
  case (Node l x r)
  then obtain n where n: "p = x" "x \<noteq> 0" "H x = Some n" "rtree H x (rb_right n) r" by auto
  show ?case
  proof (cases "r = Leaf")
    case True
    then show ?thesis using n by (subst rightmost.simps) simp
  next
    case False
    then have "rb_right n \<noteq> 0" using rtree_null [OF n(4)] by simp
    moreover have "inorder r \<noteq> []" using False by (cases r) auto
    ultimately show ?thesis using n Node.IH(2) [OF n(4) False]
      by (subst rightmost.simps) simp
  qed
qed simp

text \<open>Next without its shortcut, for a node whose children differ.\<close>

lemma next_raw_climb:
  assumes "a \<noteq> 0" "H a = Some n" "rb_right n = 0"
    and "rb_parent n \<noteq> 0 \<Longrightarrow> \<exists>pn. H (rb_parent n) = Some pn \<and> (rb_left pn = a \<longrightarrow> rb_right pn \<noteq> a)"
  shows "kylin_rb_next_raw H a = climb_right H a"
proof (cases "rb_parent n = 0")
  case True
  then show ?thesis using assms by (simp add: kylin_rb_next_raw_def)
next
  case False
  then obtain pn where "H (rb_parent n) = Some pn" "rb_left pn = a \<longrightarrow> rb_right pn \<noteq> a" using assms(4) by blast
  moreover from this have "climb_right H a =
      (if a = rb_right pn then climb_right H (rb_parent n) else Some (rb_parent n))"
    using assms(1,2) False by (subst climb_right.simps) simp
  ultimately show ?thesis using assms(1-3) False by (auto simp: kylin_rb_next_raw_def)
qed

lemma distinct_split:
  assumes "us @ a # vs = us' @ a # vs'" "distinct (us @ a # vs)"
  shows "us = us'" "vs = vs'"
proof -
  have tw: "takeWhile (\<lambda>x. x \<noteq> a) (ws @ a # zs) = ws" if "a \<notin> set ws" for ws zs
    using that by (induction ws) auto
  have "a \<notin> set us" using assms(2) by simp
  moreover have "a \<notin> set us'" using assms(2) unfolding assms(1) by simp
  ultimately show "us = us'" using tw assms(1) by metis
  then show "vs = vs'" using assms(1) by simp
qed

lemma next_raw_tree:
  assumes "rtree H q p t" "distinct (inorder t)" "inorder t = us @ a # vs" "climb_right H p = Some s"
    and "q \<noteq> 0 \<Longrightarrow> \<exists>qn. H q = Some qn \<and> (rb_left qn = p \<longrightarrow> rb_right qn \<noteq> p)"
  shows "kylin_rb_next_raw H a = Some (rb_hd (vs @ [s]))"
  using assms
proof (induction t arbitrary: q p us vs s)
  case (Node l x r)
  obtain n where n: "p = x" "x \<noteq> 0" "H x = Some n" "rb_parent n = q" "rtree H x (rb_left n) l" "rtree H x (rb_right n) r"
    using Node.prems(1) by auto
  have d: "distinct (inorder l)" "distinct (inorder r)" "x \<notin> set (inorder l)" "x \<notin> set (inorder r)"
      "set (inorder l) \<inter> set (inorder r) = {}" using Node.prems(2) by auto
  have diff: "rb_left n = rb_right n \<Longrightarrow> rb_left n = 0"
    using rtree_root [OF n(5)] rtree_root [OF n(6)] d(5) by (metis IntI empty_iff set_inorder)
  have "a \<in> set (inorder (Node l x r))" unfolding Node.prems(3) by simp
  then consider "a = x" | "a \<in> set (inorder l)" | "a \<in> set (inorder r)" by auto
  then show ?case
  proof cases
    case 1
    then have "inorder l @ x # inorder r = us @ x # vs" using Node.prems(3) by simp
    moreover have "distinct (inorder l @ x # inorder r)" using Node.prems(2) by simp
    ultimately have vs: "vs = inorder r" using distinct_split(2) by metis
    show ?thesis
    proof (cases "r = Leaf")
      case True
      then have "rb_right n = 0" using n(6) by simp
      then have "kylin_rb_next_raw H a = climb_right H a"
        using 1 n Node.prems(5) by (intro next_raw_climb [where n = n]) auto
      then show ?thesis using True vs 1 n(1) Node.prems(4) by (simp add: rb_hd_def)
    next
      case False
      then have "rb_right n \<noteq> 0" using rtree_null [OF n(6)] by simp
      moreover have "inorder r \<noteq> []" using False by (cases r) auto
      ultimately show ?thesis using 1 n leftmost_tree [OF n(6) False] vs
        by (auto simp: kylin_rb_next_raw_def rb_hd_def split: list.splits)
    qed
  next
    case 2
    then obtain us' vs' where l: "inorder l = us' @ a # vs'" by (meson split_list)
    then have "us @ a # vs = us' @ a # (vs' @ x # inorder r)" using Node.prems(3) by simp
    moreover have "distinct (us @ a # vs)" using Node.prems(2) unfolding Node.prems(3) .
    ultimately have vs: "vs = vs' @ x # inorder r" by (rule distinct_split(2))
    have "rb_left n \<noteq> 0" using l n(5) by (cases l) auto
    moreover from this obtain ln where "H (rb_left n) = Some ln" "rb_parent ln = x"
      using n(5) by (cases l) auto
    ultimately have "climb_right H (rb_left n) = Some x"
      using n diff by (subst climb_right.simps) auto
    moreover have "rb_right n \<noteq> rb_left n" using diff \<open>rb_left n \<noteq> 0\<close> by metis
    ultimately have "kylin_rb_next_raw H a = Some (rb_hd (vs' @ [x]))"
      using Node.IH(1) [OF n(5) d(1) l] n(2,3) by auto
    then show ?thesis unfolding vs by (cases vs') (auto simp: rb_hd_def)
  next
    case 3
    then obtain us' vs' where r: "inorder r = us' @ a # vs'" by (meson split_list)
    then have "us @ a # vs = (inorder l @ x # us') @ a # vs'" using Node.prems(3) by simp
    moreover have "distinct (us @ a # vs)" using Node.prems(2) unfolding Node.prems(3) .
    ultimately have vs: "vs = vs'" by (rule distinct_split(2))
    have "rb_right n \<noteq> 0" using r n(6) by (cases r) auto
    moreover from this obtain rn where "H (rb_right n) = Some rn" "rb_parent rn = x"
      using n(6) by (cases r) auto
    ultimately have "climb_right H (rb_right n) = Some s"
      using n Node.prems(4) by (subst climb_right.simps) auto
    moreover have "rb_left n \<noteq> rb_right n" using diff \<open>rb_right n \<noteq> 0\<close> by metis
    ultimately show ?thesis
      using Node.IH(2) [OF n(6) d(2) r] n(2,3) unfolding vs by auto
  qed
qed simp

subsection \<open>Predecessors\<close>

lemma prev_raw_climb:
  assumes "a \<noteq> 0" "H a = Some n" "rb_left n = 0"
    and "rb_parent n \<noteq> 0 \<Longrightarrow> \<exists>pn. H (rb_parent n) = Some pn \<and> (rb_right pn = a \<longrightarrow> rb_left pn \<noteq> a)"
  shows "kylin_rb_prev_raw H a = climb_left H a"
proof (cases "rb_parent n = 0")
  case True
  then show ?thesis using assms by (simp add: kylin_rb_prev_raw_def)
next
  case False
  then obtain pn where "H (rb_parent n) = Some pn" "rb_right pn = a \<longrightarrow> rb_left pn \<noteq> a" using assms(4) by blast
  moreover from this have "climb_left H a =
      (if a = rb_left pn then climb_left H (rb_parent n) else Some (rb_parent n))"
    using assms(1,2) False by (subst climb_left.simps) simp
  ultimately show ?thesis using assms(1-3) False by (auto simp: kylin_rb_prev_raw_def)
qed

lemma prev_raw_tree:
  assumes "rtree H q p t" "distinct (inorder t)" "inorder t = us @ a # vs" "climb_left H p = Some s"
    and "q \<noteq> 0 \<Longrightarrow> \<exists>qn. H q = Some qn \<and> (rb_right qn = p \<longrightarrow> rb_left qn \<noteq> p)"
  shows "kylin_rb_prev_raw H a = Some (last (s # us))"
  using assms
proof (induction t arbitrary: q p us vs s)
  case (Node l x r)
  obtain n where n: "p = x" "x \<noteq> 0" "H x = Some n" "rb_parent n = q" "rtree H x (rb_left n) l" "rtree H x (rb_right n) r"
    using Node.prems(1) by auto
  have d: "distinct (inorder l)" "distinct (inorder r)" "x \<notin> set (inorder l)" "x \<notin> set (inorder r)"
      "set (inorder l) \<inter> set (inorder r) = {}" using Node.prems(2) by auto
  have diff: "rb_left n = rb_right n \<Longrightarrow> rb_left n = 0"
    using rtree_root [OF n(5)] rtree_root [OF n(6)] d(5) by (metis IntI empty_iff set_inorder)
  have "a \<in> set (inorder (Node l x r))" unfolding Node.prems(3) by simp
  then consider "a = x" | "a \<in> set (inorder l)" | "a \<in> set (inorder r)" by auto
  then show ?case
  proof cases
    case 1
    then have "inorder l @ x # inorder r = us @ x # vs" using Node.prems(3) by simp
    moreover have "distinct (inorder l @ x # inorder r)" using Node.prems(2) by simp
    ultimately have us: "us = inorder l" using distinct_split(1) by metis
    show ?thesis
    proof (cases "l = Leaf")
      case True
      then have "rb_left n = 0" using n(5) by simp
      then have "kylin_rb_prev_raw H a = climb_left H a"
        using 1 n Node.prems(5) by (intro prev_raw_climb [where n = n]) auto
      then show ?thesis using True us 1 n(1) Node.prems(4) by simp
    next
      case False
      then have "rb_left n \<noteq> 0" using rtree_null [OF n(5)] by simp
      moreover have "inorder l \<noteq> []" using False by (cases l) auto
      ultimately show ?thesis using 1 n rightmost_tree [OF n(5) False] us
        by (simp add: kylin_rb_prev_raw_def)
    qed
  next
    case 2
    then obtain us' vs' where l: "inorder l = us' @ a # vs'" by (meson split_list)
    then have "us @ a # vs = us' @ a # (vs' @ x # inorder r)" using Node.prems(3) by simp
    moreover have "distinct (us @ a # vs)" using Node.prems(2) unfolding Node.prems(3) .
    ultimately have us: "us = us'" by (rule distinct_split(1))
    have "rb_left n \<noteq> 0" using l n(5) by (cases l) auto
    moreover from this obtain ln where "H (rb_left n) = Some ln" "rb_parent ln = x"
      using n(5) by (cases l) auto
    ultimately have "climb_left H (rb_left n) = Some s"
      using n Node.prems(4) by (subst climb_left.simps) auto
    moreover have "rb_right n \<noteq> rb_left n" using diff \<open>rb_left n \<noteq> 0\<close> by metis
    ultimately show ?thesis
      using Node.IH(1) [OF n(5) d(1) l] n(2,3) unfolding us by auto
  next
    case 3
    then obtain us' vs' where r: "inorder r = us' @ a # vs'" by (meson split_list)
    then have "us @ a # vs = (inorder l @ x # us') @ a # vs'" using Node.prems(3) by simp
    moreover have "distinct (us @ a # vs)" using Node.prems(2) unfolding Node.prems(3) .
    ultimately have us: "us = inorder l @ x # us'" by (rule distinct_split(1))
    have "rb_right n \<noteq> 0" using r n(6) by (cases r) auto
    moreover from this obtain rn where "H (rb_right n) = Some rn" "rb_parent rn = x"
      using n(6) by (cases r) auto
    moreover have "rb_left n \<noteq> rb_right n" using diff \<open>rb_right n \<noteq> 0\<close> by metis
    ultimately have "climb_left H (rb_right n) = Some x"
      using n by (subst climb_left.simps) auto
    then have "kylin_rb_prev_raw H a = Some (last (x # us'))"
      using Node.IH(2) [OF n(6) d(2) r] n(2,3) \<open>rb_left n \<noteq> rb_right n\<close> by auto
    then show ?thesis unfolding us by simp
  qed
qed simp

subsection \<open>Rotations\<close>

fun rot_left_at :: "kaddr \<Rightarrow> kaddr tree \<Rightarrow> kaddr tree" where
  "rot_left_at x Leaf = Leaf"
| "rot_left_at x (Node l a r) =
     (if a = x then (case r of Leaf \<Rightarrow> Node l a r | Node b y c \<Rightarrow> Node (Node l a b) y c)
      else Node (rot_left_at x l) a (rot_left_at x r))"

fun rot_right_at :: "kaddr \<Rightarrow> kaddr tree \<Rightarrow> kaddr tree" where
  "rot_right_at y Leaf = Leaf"
| "rot_right_at y (Node l a r) =
     (if a = y then (case l of Leaf \<Rightarrow> Node l a r | Node b x c \<Rightarrow> Node b x (Node c a r))
      else Node (rot_right_at y l) a (rot_right_at y r))"

text \<open>The right child of a node, and whether there is one.\<close>

fun right_of :: "kaddr \<Rightarrow> kaddr tree \<Rightarrow> kaddr option" where
  "right_of x Leaf = None"
| "right_of x (Node l a r) =
     (if a = x then (case r of Leaf \<Rightarrow> None | Node _ y _ \<Rightarrow> Some y)
      else if x \<in> set_tree l then right_of x l else right_of x r)"

fun left_of :: "kaddr \<Rightarrow> kaddr tree \<Rightarrow> kaddr option" where
  "left_of x Leaf = None"
| "left_of x (Node l a r) =
     (if a = x then (case l of Leaf \<Rightarrow> None | Node _ y _ \<Rightarrow> Some y)
      else if x \<in> set_tree l then left_of x l else left_of x r)"

lemma inorder_rot_left: "inorder (rot_left_at x t) = inorder t"
  by (induction t) (auto split: tree.splits)

lemma inorder_rot_right: "inorder (rot_right_at x t) = inorder t"
  by (induction t) (auto split: tree.splits)

lemma rot_left_absent: "x \<notin> set_tree t \<Longrightarrow> rot_left_at x t = t"
  by (induction t) auto

lemma right_of_in: "right_of x t = Some y \<Longrightarrow> x \<in> set_tree t"
  by (induction t) (auto split: if_splits)

text \<open>What a rotation keeps of a node: its value and its colour.\<close>

definition same_content :: "rheap \<Rightarrow> rheap \<Rightarrow> bool" where
  "same_content H H' \<longleftrightarrow> (\<forall>a. map_option rb_val (H' a) = map_option rb_val (H a)
     \<and> map_option rb_color (H' a) = map_option rb_color (H a))"

definition relink :: "kaddr \<Rightarrow> kaddr \<Rightarrow> krb_node \<Rightarrow> krb_node" where
  "relink old new n = (if rb_left n = old then n\<lparr>rb_left := new\<rparr> else n\<lparr>rb_right := new\<rparr>)"

lemma replace_child_some:
  "p \<noteq> 0 \<Longrightarrow> H p = Some n \<Longrightarrow> replace_child g p old new H = Some (g, H(p \<mapsto> relink old new n))"
  by (simp add: replace_child_def relink_def set_left_def set_right_def rset_def)

lemma replace_child_root: "replace_child g 0 old new H = Some (g\<lparr>rb_root := new\<rparr>, H)"
  by (simp add: replace_child_def)

lemma rtree_parent_upd:
  assumes "rtree H q p t" "t \<noteq> Leaf" "distinct (inorder t)" "H p = Some n"
  shows "rtree (H(p \<mapsto> n\<lparr>rb_parent := q'\<rparr>)) q' p t"
proof (cases t)
  case (Node l a r)
  have "rtree (H(a \<mapsto> n\<lparr>rb_parent := q'\<rparr>)) a u s = rtree H a u s" if "a \<notin> set_tree s" for u s
    using that by (intro rtree_frame) auto
  then show ?thesis using assms Node by auto
qed (use assms in simp)

lemma rotate_left_root:
  assumes t: "rtree H q x (Node A x (Node B y C))" "distinct (inorder (Node A x (Node B y C)))"
    and q: "q \<notin> set_tree (Node A x (Node B y C))" "q \<noteq> 0 \<Longrightarrow> H q = Some qn"
  shows "\<exists>H'. rotate_left g x H = Some (if q = 0 then g\<lparr>rb_root := y\<rparr> else g, H')
    \<and> rtree H' q y (Node (Node A x B) y C)
    \<and> (q \<noteq> 0 \<longrightarrow> H' q = Some (relink x y qn))
    \<and> (\<forall>a. a \<noteq> q \<or> q = 0 \<longrightarrow> a \<notin> set_tree (Node A x (Node B y C)) \<longrightarrow> H' a = H a)
    \<and> same_content H H'"
proof -
  obtain xn yn where xn: "H x = Some xn" "rb_parent xn = q" "x \<noteq> 0" "rb_right xn = y"
    and yn: "H y = Some yn" "rb_parent yn = x" "y \<noteq> 0"
    and sub: "rtree H x (rb_left xn) A" "rtree H y (rb_left yn) B" "rtree H y (rb_right yn) C"
    using t(1) by auto
  have dx: "x \<noteq> y" "x \<notin> set_tree A" "x \<notin> set_tree B" "x \<notin> set_tree C"
      "y \<notin> set_tree A" "y \<notin> set_tree B" "y \<notin> set_tree C"
      "set_tree A \<inter> set_tree B = {}" "set_tree A \<inter> set_tree C = {}" "set_tree B \<inter> set_tree C = {}"
      "distinct (inorder B)"
    using t(2) by auto
  have qd: "q \<noteq> x" "q \<noteq> y" "q \<notin> set_tree A" "q \<notin> set_tree B" "q \<notin> set_tree C" using q(1) by auto
  define b where "b = rb_left yn"
  have b0: "b = 0 \<longleftrightarrow> B = Leaf" using rtree_null [OF sub(2)] by (simp add: b_def)
  have bB: "b \<noteq> 0 \<Longrightarrow> b \<in> set_tree B" using rtree_root [OF sub(2)] by (simp add: b_def)
  define H1 where "H1 = (if b = 0 then H else H(b \<mapsto> (the (H b))\<lparr>rb_parent := x\<rparr>))"
  define H2 where "H2 = H1(x \<mapsto> xn\<lparr>rb_right := b, rb_parent := y\<rparr>, y \<mapsto> yn\<lparr>rb_parent := q, rb_left := x\<rparr>)"
  define H' where "H' = (if q = 0 then H2 else H2(q \<mapsto> relink x y qn))"
  obtain bn where bn: "b \<noteq> 0 \<Longrightarrow> H b = Some bn" using rtree_heap [OF sub(2)] bB by blast
  have bd: "b \<noteq> 0 \<Longrightarrow> b \<noteq> x \<and> b \<noteq> y \<and> b \<noteq> q" using bB dx(3,6) qd(4) by auto
  have rot: "rotate_left g x H = Some (if q = 0 then g\<lparr>rb_root := y\<rparr> else g, H')"
  proof (cases "b = 0")
    case True
    then have "rb_left yn = 0" by (simp add: b_def)
    then show ?thesis
      using xn yn dx(1) qd(1,2) q(2) True
      unfolding rotate_left_def H'_def H2_def H1_def
      by (cases "q = 0")
         (auto simp: set_right_def set_left_def set_parent_def rset_def replace_child_some replace_child_root fun_upd_twist
           fun_eq_iff)
  next
    case False
    then show ?thesis
      using xn yn dx(1) qd(1,2) q(2) bn bd
      unfolding rotate_left_def H'_def H2_def H1_def b_def
      by (cases "q = 0")
         (auto simp: set_right_def set_left_def set_parent_def rset_def replace_child_some replace_child_root
           fun_eq_iff)
  qed
  have trB: "rtree H' x b B"
  proof -
    have "rtree H1 x b B"
    proof (cases "b = 0")
      case True
      then show ?thesis using b0 by simp
    next
      case False
      then show ?thesis using rtree_parent_upd [OF sub(2) _ dx(11), of bn x] bn b0 by (simp add: H1_def b_def)
    qed
    moreover have "H' a = H1 a" if "a \<in> set_tree B" for a
      using that dx(3,6) qd(4) by (auto simp: H'_def H2_def)
    ultimately show ?thesis using rtree_frame [of B H' H1] by blast
  qed
  have ag: "H' a = H a" if "a \<noteq> q \<or> q = 0" "a \<noteq> x" "a \<noteq> y" "a \<notin> set_tree B" for a
    using that bB by (auto simp: H'_def H2_def H1_def)
  have trA: "rtree H' x (rb_left xn) A" "rtree H' y (rb_right yn) C"
  proof -
    have "rtree H' x (rb_left xn) A = rtree H x (rb_left xn) A"
      using dx qd by (intro rtree_frame ag) auto
    then show "rtree H' x (rb_left xn) A" using sub by simp
    have "rtree H' y (rb_right yn) C = rtree H y (rb_right yn) C"
      using dx qd by (intro rtree_frame ag) auto
    then show "rtree H' y (rb_right yn) C" using sub by simp
  qed
  have hx: "H' x = Some (xn\<lparr>rb_right := b, rb_parent := y\<rparr>)" "H' y = Some (yn\<lparr>rb_parent := q, rb_left := x\<rparr>)"
    using qd dx(1) by (auto simp: H'_def H2_def)
  have "rtree H' q y (Node (Node A x B) y C)" using hx trA trB xn yn by simp
  moreover have "same_content H H'"
    unfolding same_content_def H'_def H2_def H1_def using xn yn bn q(2) qd bd
    by (auto simp: relink_def)
  moreover have "q \<noteq> 0 \<longrightarrow> H' q = Some (relink x y qn)" by (simp add: H'_def)
  ultimately show ?thesis using rot ag by (intro exI [of _ H']) auto
qed

lemma rotate_right_root:
  assumes t: "rtree H q x (Node (Node C y B) x A)" "distinct (inorder (Node (Node C y B) x A))"
    and q: "q \<notin> set_tree (Node (Node C y B) x A)" "q \<noteq> 0 \<Longrightarrow> H q = Some qn"
  shows "\<exists>H'. rotate_right g x H = Some (if q = 0 then g\<lparr>rb_root := y\<rparr> else g, H')
    \<and> rtree H' q y (Node C y (Node B x A))
    \<and> (q \<noteq> 0 \<longrightarrow> H' q = Some (relink x y qn))
    \<and> (\<forall>a. a \<noteq> q \<or> q = 0 \<longrightarrow> a \<notin> set_tree (Node (Node C y B) x A) \<longrightarrow> H' a = H a)
    \<and> same_content H H'"
proof -
  obtain xn yn where xn: "H x = Some xn" "rb_parent xn = q" "x \<noteq> 0" "rb_left xn = y"
    and yn: "H y = Some yn" "rb_parent yn = x" "y \<noteq> 0"
    and sub: "rtree H x (rb_right xn) A" "rtree H y (rb_right yn) B" "rtree H y (rb_left yn) C"
    using t(1) by auto
  have dx: "x \<noteq> y" "x \<notin> set_tree A" "x \<notin> set_tree B" "x \<notin> set_tree C"
      "y \<notin> set_tree A" "y \<notin> set_tree B" "y \<notin> set_tree C"
      "set_tree A \<inter> set_tree B = {}" "set_tree A \<inter> set_tree C = {}" "set_tree B \<inter> set_tree C = {}"
      "distinct (inorder B)"
    using t(2) by auto
  have qd: "q \<noteq> x" "q \<noteq> y" "q \<notin> set_tree A" "q \<notin> set_tree B" "q \<notin> set_tree C" using q(1) by auto
  define b where "b = rb_right yn"
  have b0: "b = 0 \<longleftrightarrow> B = Leaf" using rtree_null [OF sub(2)] by (simp add: b_def)
  have bB: "b \<noteq> 0 \<Longrightarrow> b \<in> set_tree B" using rtree_root [OF sub(2)] by (simp add: b_def)
  define H1 where "H1 = (if b = 0 then H else H(b \<mapsto> (the (H b))\<lparr>rb_parent := x\<rparr>))"
  define H2 where "H2 = H1(x \<mapsto> xn\<lparr>rb_left := b, rb_parent := y\<rparr>, y \<mapsto> yn\<lparr>rb_parent := q, rb_right := x\<rparr>)"
  define H' where "H' = (if q = 0 then H2 else H2(q \<mapsto> relink x y qn))"
  obtain bn where bn: "b \<noteq> 0 \<Longrightarrow> H b = Some bn" using rtree_heap [OF sub(2)] bB by blast
  have bd: "b \<noteq> 0 \<Longrightarrow> b \<noteq> x \<and> b \<noteq> y \<and> b \<noteq> q" using bB dx(3,6) qd(4) by auto
  have rot: "rotate_right g x H = Some (if q = 0 then g\<lparr>rb_root := y\<rparr> else g, H')"
  proof (cases "b = 0")
    case True
    then have "rb_right yn = 0" by (simp add: b_def)
    then show ?thesis
      using xn yn dx(1) qd(1,2) q(2) True
      unfolding rotate_right_def H'_def H2_def H1_def
      by (cases "q = 0")
         (auto simp: set_left_def set_right_def set_parent_def rset_def replace_child_some replace_child_root fun_upd_twist
           fun_eq_iff)
  next
    case False
    then show ?thesis
      using xn yn dx(1) qd(1,2) q(2) bn bd
      unfolding rotate_right_def H'_def H2_def H1_def b_def
      by (cases "q = 0")
         (auto simp: set_left_def set_right_def set_parent_def rset_def replace_child_some replace_child_root
           fun_eq_iff)
  qed
  have trB: "rtree H' x b B"
  proof -
    have "rtree H1 x b B"
    proof (cases "b = 0")
      case True
      then show ?thesis using b0 by simp
    next
      case False
      then show ?thesis using rtree_parent_upd [OF sub(2) _ dx(11), of bn x] bn b0 by (simp add: H1_def b_def)
    qed
    moreover have "H' a = H1 a" if "a \<in> set_tree B" for a
      using that dx(3,6) qd(4) by (auto simp: H'_def H2_def)
    ultimately show ?thesis using rtree_frame [of B H' H1] by blast
  qed
  have ag: "H' a = H a" if "a \<noteq> q \<or> q = 0" "a \<noteq> x" "a \<noteq> y" "a \<notin> set_tree B" for a
    using that bB by (auto simp: H'_def H2_def H1_def)
  have trA: "rtree H' x (rb_right xn) A" "rtree H' y (rb_left yn) C"
  proof -
    have "rtree H' x (rb_right xn) A = rtree H x (rb_right xn) A"
      using dx qd by (intro rtree_frame ag) auto
    then show "rtree H' x (rb_right xn) A" using sub by simp
    have "rtree H' y (rb_left yn) C = rtree H y (rb_left yn) C"
      using dx qd by (intro rtree_frame ag) auto
    then show "rtree H' y (rb_left yn) C" using sub by simp
  qed
  have hx: "H' x = Some (xn\<lparr>rb_left := b, rb_parent := y\<rparr>)" "H' y = Some (yn\<lparr>rb_parent := q, rb_right := x\<rparr>)"
    using qd dx(1) by (auto simp: H'_def H2_def)
  have "rtree H' q y (Node C y (Node B x A))" using hx trA trB xn yn by simp
  moreover have "same_content H H'"
    unfolding same_content_def H'_def H2_def H1_def using xn yn bn q(2) qd bd
    by (auto simp: relink_def)
  moreover have "q \<noteq> 0 \<longrightarrow> H' q = Some (relink x y qn)" by (simp add: H'_def)
  ultimately show ?thesis using rot ag by (intro exI [of _ H']) auto
qed

lemma relink_left: "rb_left n = a \<Longrightarrow> relink a b n = n\<lparr>rb_left := b\<rparr>"
  by (simp add: relink_def)

lemma relink_right: "rb_left n \<noteq> a \<Longrightarrow> relink a b n = n\<lparr>rb_right := b\<rparr>"
  by (simp add: relink_def)

lemma rtree_root_eq: "rtree H q p t \<Longrightarrow> t \<noteq> Leaf \<Longrightarrow> p \<in> set_tree t \<and> p \<noteq> 0"
  by (cases t) auto

text \<open>
  A rotation anywhere in the tree. The lemma is proved for an arbitrary step \<open>f\<close> on the subtree at
  \<open>x\<close> that replaces its root \<open>x\<close> by \<open>y\<close> and relinks the parent; both rotations are such steps.
\<close>

definition rot_step :: "(krb \<Rightarrow> kaddr \<Rightarrow> rheap \<Rightarrow> (krb \<times> rheap) option) \<Rightarrow> krb \<Rightarrow> kaddr \<Rightarrow> kaddr \<Rightarrow> rheap \<Rightarrow>
    kaddr \<Rightarrow> kaddr \<Rightarrow> kaddr tree \<Rightarrow> kaddr tree \<Rightarrow> bool" where
  "rot_step f g x y H q p t t' \<longleftrightarrow> (\<exists>H'. f g x H = Some (if q = 0 \<and> p = x then g\<lparr>rb_root := y\<rparr> else g, H')
    \<and> rtree H' q (if p = x then y else p) t'
    \<and> (q \<noteq> 0 \<longrightarrow> H' q = (if p = x then map_option (relink x y) (H q) else H q))
    \<and> (\<forall>a. a \<noteq> q \<or> q = 0 \<longrightarrow> a \<notin> set_tree t \<longrightarrow> H' a = H a)
    \<and> same_content H H')"

lemma rot_step_left:
  assumes "rot_step f g x y H a (rb_left n) l l'" "rtree H q p (Node l a r)" "H a = Some n"
    "distinct (inorder (Node l a r))" "q \<notin> set_tree (Node l a r)" "x \<in> set_tree l"
  shows "rot_step f g x y H q p (Node l a r) (Node l' a r)"
proof -
  have n: "p = a" "a \<noteq> 0" "rb_parent n = q" "rtree H a (rb_left n) l" "rtree H a (rb_right n) r"
    using assms(2,3) by auto
  obtain H' where f: "f g x H = Some (g, H')" and l': "rtree H' a (if rb_left n = x then y else rb_left n) l'"
    and ha: "H' a = (if rb_left n = x then map_option (relink x y) (H a) else H a)"
    and fr: "\<And>b. b \<noteq> a \<Longrightarrow> b \<notin> set_tree l \<Longrightarrow> H' b = H b" and sc: "same_content H H'"
    using assms(1) n(2) unfolding rot_step_def by auto
  have xa: "p \<noteq> x" using assms(4,6) n(1) by auto
  have an: "H' a = Some (n\<lparr>rb_left := if rb_left n = x then y else rb_left n\<rparr>)"
    using ha assms(3) by (simp add: relink_def)
  have "rtree H' a (rb_right n) r = rtree H a (rb_right n) r"
    using assms(4) by (intro rtree_frame fr) auto
  then have "rtree H' q p (Node l' a r)" using n an l' by simp
  moreover have "q \<noteq> 0 \<longrightarrow> H' q = H q" using fr [of q] assms(5) by simp
  moreover have "\<forall>b. b \<noteq> q \<or> q = 0 \<longrightarrow> b \<notin> set_tree (Node l a r) \<longrightarrow> H' b = H b" using fr by simp
  ultimately show ?thesis unfolding rot_step_def using f sc xa by (intro exI [of _ H']) simp
qed

lemma rot_step_right:
  assumes "rot_step f g x y H a (rb_right n) r r'" "rtree H q p (Node l a r)" "H a = Some n"
    "distinct (inorder (Node l a r))" "q \<notin> set_tree (Node l a r)" "x \<in> set_tree r"
  shows "rot_step f g x y H q p (Node l a r) (Node l a r')"
proof -
  have n: "p = a" "a \<noteq> 0" "rb_parent n = q" "rtree H a (rb_left n) l" "rtree H a (rb_right n) r"
    using assms(2,3) by auto
  obtain H' where f: "f g x H = Some (g, H')" and r': "rtree H' a (if rb_right n = x then y else rb_right n) r'"
    and ha: "H' a = (if rb_right n = x then map_option (relink x y) (H a) else H a)"
    and fr: "\<And>b. b \<noteq> a \<Longrightarrow> b \<notin> set_tree r \<Longrightarrow> H' b = H b" and sc: "same_content H H'"
    using assms(1) n(2) unfolding rot_step_def by auto
  have xa: "p \<noteq> x" "x \<noteq> 0" using assms(4,6) n(1) rtree_nonzero [OF n(5)] by auto
  have "rb_left n \<noteq> x" using rtree_root [OF n(4)] xa(2) assms(4,6) by auto
  then have an: "H' a = Some (n\<lparr>rb_right := if rb_right n = x then y else rb_right n\<rparr>)"
    using ha assms(3) by (simp add: relink_def)
  have "rtree H' a (rb_left n) l = rtree H a (rb_left n) l"
    using assms(4) by (intro rtree_frame fr) auto
  then have "rtree H' q p (Node l a r')" using n an r' by simp
  moreover have "q \<noteq> 0 \<longrightarrow> H' q = H q" using fr [of q] assms(5) by simp
  moreover have "\<forall>b. b \<noteq> q \<or> q = 0 \<longrightarrow> b \<notin> set_tree (Node l a r) \<longrightarrow> H' b = H b" using fr by simp
  ultimately show ?thesis unfolding rot_step_def using f sc xa by (intro exI [of _ H']) simp
qed

lemma rot_right_absent: "x \<notin> set_tree t \<Longrightarrow> rot_right_at x t = t"
  by (induction t) auto

lemma left_of_in: "left_of x t = Some y \<Longrightarrow> x \<in> set_tree t"
  by (induction t) (auto split: if_splits)

text \<open>
  What the two rotations and the removal of a node have in common: an operation on the subtree at
  \<open>x\<close> that is known to do its work when \<open>x\<close> is the root of that subtree does it anywhere in a tree.
  \<open>edit\<close> is the effect on the tree, \<open>pick\<close> the node that takes the place of \<open>x\<close>, \<open>ok\<close> a condition on
  the heap.
\<close>

locale node_edit =
  fixes f :: "krb \<Rightarrow> kaddr \<Rightarrow> rheap \<Rightarrow> (krb \<times> rheap) option"
    and edit :: "kaddr \<Rightarrow> kaddr tree \<Rightarrow> kaddr tree"
    and pick :: "kaddr \<Rightarrow> kaddr tree \<Rightarrow> kaddr option"
    and ok :: "rheap \<Rightarrow> kaddr \<Rightarrow> bool"
  assumes edit_node: "a \<noteq> x \<Longrightarrow> edit x (Node l a r) = Node (edit x l) a (edit x r)"
    and edit_absent: "x \<notin> set_tree t \<Longrightarrow> edit x t = t"
    and pick_node: "a \<noteq> x \<Longrightarrow> pick x (Node l a r) = (if x \<in> set_tree l then pick x l else pick x r)"
    and pick_in: "pick x t = Some y \<Longrightarrow> x \<in> set_tree t"
    and at_root: "rtree H q x (Node l x r) \<Longrightarrow> distinct (inorder (Node l x r)) \<Longrightarrow> q \<notin> set_tree (Node l x r) \<Longrightarrow>
      (q \<noteq> 0 \<longrightarrow> H q \<noteq> None) \<Longrightarrow> pick x (Node l x r) = Some y \<Longrightarrow> ok H x \<Longrightarrow>
      rot_step f guard x y H q x (Node l x r) (edit x (Node l x r))"
begin

lemma everywhere:
  assumes "rtree H q p t" "distinct (inorder t)" "pick x t = Some y" "q \<notin> set_tree t" "q \<noteq> 0 \<longrightarrow> H q \<noteq> None" "ok H x"
  shows "rot_step f guard x y H q p t (edit x t)"
  using assms
proof (induction t arbitrary: q p)
  case Leaf
  then show ?case using pick_in by fastforce
next
  case (Node l a r)
  obtain n where n: "p = a" "a \<noteq> 0" "H a = Some n" "rb_parent n = q" "rtree H a (rb_left n) l" "rtree H a (rb_right n) r"
    using Node.prems(1) by auto
  have ex: "a \<noteq> 0 \<longrightarrow> H a \<noteq> None" using n(3) by simp
  consider "a = x" | "a \<noteq> x" "x \<in> set_tree l" | "a \<noteq> x" "x \<notin> set_tree l" "x \<in> set_tree r"
    using pick_in [OF Node.prems(3)] by auto
  then show ?case
  proof cases
    case 1
    then show ?thesis using at_root Node.prems n(1) by simp
  next
    case 2
    have "rot_step f guard x y H a (rb_left n) l (edit x l)"
      using Node.IH(1) [OF n(5) _ _ _ ex Node.prems(6)] Node.prems(2,3) 2 by (auto simp: pick_node)
    then have "rot_step f guard x y H q p (Node l a r) (Node (edit x l) a r)"
      using rot_step_left Node.prems n(3) 2 by blast
    moreover have "edit x r = r" using Node.prems(2) 2(2) by (intro edit_absent) auto
    ultimately show ?thesis using 2 by (simp add: edit_node)
  next
    case 3
    have "rot_step f guard x y H a (rb_right n) r (edit x r)"
      using Node.IH(2) [OF n(6) _ _ _ ex Node.prems(6)] Node.prems(2,3) 3 by (auto simp: pick_node)
    then have "rot_step f guard x y H q p (Node l a r) (Node l a (edit x r))"
      using rot_step_right Node.prems n(3) 3 by blast
    then show ?thesis using 3 edit_absent [OF 3(2)] by (simp add: edit_node)
  qed
qed

lemma whole:
  assumes "rtree H 0 (rb_root guard) t" "distinct (inorder t)" "pick x t = Some y" "ok H x"
  shows "rot_step f guard x y H 0 (rb_root guard) t (edit x t)"
  using everywhere [OF assms(1-3) rtree_nonzero [OF assms(1)] _ assms(4)] by simp

end

interpretation rotl: node_edit rotate_left rot_left_at right_of "\<lambda>H x. True"
proof (unfold_locales, goal_cases)
  case (5 H q x l r y guard)
  then obtain b c where r: "r = Node b y c" by (cases r) auto
  obtain qn where "q \<noteq> 0 \<Longrightarrow> H q = Some qn" using 5(4) by blast
  then show ?case using rotate_left_root [of H q x l b y c qn guard] 5(1-3) r unfolding rot_step_def by auto
qed (auto simp: rot_left_absent dest: right_of_in)

interpretation rotr: node_edit rotate_right rot_right_at left_of "\<lambda>H x. True"
proof (unfold_locales, goal_cases)
  case (5 H q x l r y guard)
  then obtain b c where l: "l = Node c y b" by (cases l) auto
  obtain qn where "q \<noteq> 0 \<Longrightarrow> H q = Some qn" using 5(4) by blast
  then show ?case using rotate_right_root [of H q x c y b r qn guard] 5(1-3) l unfolding rot_step_def by auto
qed (auto simp: rot_right_absent dest: left_of_in)

text \<open>The heap of a tree is determined by the tree and by the values and colours.\<close>

lemma rtree_unique:
  assumes "rtree H q p t" "rtree H' q p t" "same_content H H'" "a \<in> set_tree t"
  shows "H a = H' a"
  using assms
proof (induction t arbitrary: q p)
  case (Node l x r)
  obtain n n' where n: "H x = Some n" "rb_parent n = q" "rtree H x (rb_left n) l" "rtree H x (rb_right n) r"
    and n': "H' x = Some n'" "rb_parent n' = q" "rtree H' x (rb_left n') l" "rtree H' x (rb_right n') r"
    using Node.prems(1,2) by auto
  have ch: "rb_left n = rb_left n'" "rb_right n = rb_right n'"
    using n(3) n'(3) apply (cases l; simp)
    using n(4) n'(4) apply (cases r; simp)
    done
  have "rb_val n = rb_val n'" "rb_color n = rb_color n'"
    using Node.prems(3) n(1) n'(1) unfolding same_content_def by (metis option.inject option.map(2))+
  then have "n = n'" using ch n(2) n'(2) by simp
  consider "a = x" | "a \<in> set_tree l" | "a \<in> set_tree r" using Node.prems(4) by auto
  then show ?case
  proof cases
    case 1
    then show ?thesis using n(1) n'(1) \<open>n = n'\<close> by simp
  next
    case 2
    then show ?thesis using Node.IH(1) n(3) n'(3) ch(1) Node.prems(3) by simp
  next
    case 3
    then show ?thesis using Node.IH(2) n(4) n'(4) ch(2) Node.prems(3) by simp
  qed
qed simp

lemma rot_right_left:
  "right_of x t = Some y \<Longrightarrow> distinct (inorder t) \<Longrightarrow>
   rot_right_at y (rot_left_at x t) = t \<and> left_of y (rot_left_at x t) = Some x"
proof (induction t)
  case (Node l a r)
  consider "a = x" | "a \<noteq> x" "x \<in> set_tree l" | "a \<noteq> x" "x \<notin> set_tree l" "x \<in> set_tree r"
    using right_of_in [OF Node.prems(1)] by auto
  then show ?case
  proof cases
    case 1
    then obtain B C where "r = Node B y C" using Node.prems(1) by (cases r) auto
    then show ?thesis using 1 Node.prems(2) by auto
  next
    case 2
    then have "right_of x l = Some y" "x \<notin> set_tree r" using Node.prems by auto
    moreover from this have l: "rot_right_at y (rot_left_at x l) = l \<and> left_of y (rot_left_at x l) = Some x"
      using Node.IH(1) Node.prems(2) by simp
    moreover have y: "y \<in> set_tree (rot_left_at x l)" using l left_of_in by blast
    moreover from this have "y \<in> set (inorder l)" unfolding set_inorder [symmetric] inorder_rot_left .
    moreover from this have "y \<notin> set_tree r" "y \<noteq> a" using Node.prems(2) by auto
    ultimately show ?thesis
      using 2 rot_left_absent [of x r] rot_right_absent [of y r] by simp
  next
    case 3
    then have "right_of x r = Some y" using Node.prems by auto
    moreover from this have r: "rot_right_at y (rot_left_at x r) = r \<and> left_of y (rot_left_at x r) = Some x"
      using Node.IH(2) Node.prems(2) by simp
    moreover have y: "y \<in> set_tree (rot_left_at x r)" using r left_of_in by blast
    moreover from this have "y \<in> set (inorder r)" unfolding set_inorder [symmetric] inorder_rot_left .
    moreover from this have "y \<notin> set_tree l" "y \<noteq> a" using Node.prems(2) by auto
    ultimately show ?thesis
      using 3 rot_left_absent [of x l] rot_right_absent [of y l] by simp
  qed
qed simp

lemma same_content_sym: "same_content H H' \<Longrightarrow> same_content H' H"
  by (simp add: same_content_def)

lemma same_content_trans: "same_content H H' \<Longrightarrow> same_content H' H'' \<Longrightarrow> same_content H H''"
  by (simp add: same_content_def)

subsection \<open>Removing a node with at most one child\<close>

fun del_at :: "kaddr \<Rightarrow> kaddr tree \<Rightarrow> kaddr tree" where
  "del_at x Leaf = Leaf"
| "del_at x (Node l a r) = (if a = x then (if l = Leaf then r else l) else Node (del_at x l) a (del_at x r))"

text \<open>The only child of a node, as an address; none when it has two.\<close>

fun child_of :: "kaddr \<Rightarrow> kaddr tree \<Rightarrow> kaddr option" where
  "child_of x Leaf = None"
| "child_of x (Node l a r) =
     (if a = x then
        (case (l, r) of (Leaf, Leaf) \<Rightarrow> Some 0 | (Leaf, Node _ y _) \<Rightarrow> Some y | (Node _ y _, Leaf) \<Rightarrow> Some y | _ \<Rightarrow> None)
      else if x \<in> set_tree l then child_of x l else child_of x r)"

definition unlink_step :: "krb \<Rightarrow> kaddr \<Rightarrow> rheap \<Rightarrow> (krb \<times> rheap) option" where
  "unlink_step guard x H = map_option snd (kylin_rb_unlink_raw guard H x)"

lemma del_at_absent: "x \<notin> set_tree t \<Longrightarrow> del_at x t = t"
  by (induction t) auto

lemma child_of_in: "child_of x t = Some y \<Longrightarrow> x \<in> set_tree t"
  by (induction t) (auto split: if_splits)

lemma inorder_del_at:
  "child_of x t = Some y \<Longrightarrow> distinct (inorder t) \<Longrightarrow> inorder (del_at x t) = remove1 x (inorder t)"
proof (induction t)
  case (Node l a r)
  consider "a = x" | "a \<noteq> x" "x \<in> set_tree l" | "a \<noteq> x" "x \<notin> set_tree l" "x \<in> set_tree r"
    using child_of_in [OF Node.prems(1)] by auto
  then show ?case
  proof cases
    case 1
    then have "x \<notin> set (inorder l)" "l = Leaf \<or> r = Leaf" using Node.prems by (auto split: tree.splits)
    then show ?thesis using 1 by (auto simp: remove1_append)
  next
    case 2
    then have "x \<notin> set_tree r" using Node.prems(2) by auto
    then show ?thesis using 2 Node by (simp add: del_at_absent remove1_append)
  next
    case 3
    then show ?thesis using Node by (simp add: del_at_absent remove1_append)
  qed
qed simp

lemma unlink_root:
  assumes "rtree H q x (Node l x r)" "distinct (inorder (Node l x r))" "q \<notin> set_tree (Node l x r)" "q \<noteq> 0 \<longrightarrow> H q \<noteq> None"
    and "child_of x (Node l x r) = Some y" "rget rb_color H x = Some RB_RED"
  shows "rot_step unlink_step guard x y H q x (Node l x r) (if l = Leaf then r else l)"
proof -
  obtain xn where xn: "H x = Some xn" "x \<noteq> 0" "rb_parent xn = q" "rtree H x (rb_left xn) l" "rtree H x (rb_right xn) r"
    using assms(1) by auto
  have red: "rb_color xn" using assms(6) xn by simp
  let ?s = "if l = Leaf then r else l"
  have lr: "l = Leaf \<or> r = Leaf" using assms(5) by (auto split: tree.splits)
  have y: "y = (if rb_left xn = 0 then rb_right xn else rb_left xn)" "rtree H x y ?s"
    using assms(5) xn(4,5) by (cases l; cases r; auto)+
  have ch: "\<not> (rb_left xn \<noteq> 0 \<and> rb_right xn \<noteq> 0)" using lr xn(4,5) by auto
  have ds: "distinct (inorder ?s)" "x \<notin> set_tree ?s" "q \<notin> set_tree ?s" "q \<noteq> x" using assms(2,3) by (auto split: if_splits)
  have y0: "y = 0 \<longleftrightarrow> ?s = Leaf" by (rule rtree_null [OF y(2)])
  have ys: "y \<noteq> 0 \<Longrightarrow> y \<in> set_tree ?s" by (rule rtree_root [OF y(2)])
  obtain yn where yn: "y \<noteq> 0 \<Longrightarrow> H y = Some yn" using rtree_heap [OF y(2)] ys by blast
  obtain qn where qn: "q \<noteq> 0 \<Longrightarrow> H q = Some qn" using assms(4) by blast
  have yd: "y \<noteq> 0 \<Longrightarrow> y \<noteq> x \<and> y \<noteq> q" using ys ds by auto
  define H1 where "H1 = (if y = 0 then H else H(y \<mapsto> yn\<lparr>rb_parent := q\<rparr>))"
  define H' where "H' = (if q = 0 then H1 else H1(q \<mapsto> relink x y qn))"
  have "unlink_step guard x H = Some (if q = 0 then guard\<lparr>rb_root := y\<rparr> else guard, H')"
    using xn(1-3) red ch yn qn yd y(1)
    unfolding unlink_step_def kylin_rb_unlink_raw_def H'_def H1_def
    by (cases "q = 0"; cases "y = 0")
       (auto simp: set_parent_def rset_def replace_child_some replace_child_root Let_def)
  moreover have "rtree H' q y ?s"
  proof (cases "y = 0")
    case False
    then have "rtree H1 q y ?s" using rtree_parent_upd [OF y(2) _ ds(1), of yn q] y0 yn by (simp add: H1_def)
    moreover have "rtree H' q y ?s = rtree H1 q y ?s" using ds(3) by (intro rtree_frame) (auto simp: H'_def)
    ultimately show ?thesis by simp
  qed (use y0 in simp)
  moreover have "q \<noteq> 0 \<longrightarrow> H' q = map_option (relink x y) (H q)" using qn by (simp add: H'_def)
  moreover have "H' a = H a" if "a \<noteq> q \<or> q = 0" "a \<notin> set_tree (Node l x r)" for a
    using that ys by (auto simp: H'_def H1_def split: if_splits)
  moreover have "same_content H H'"
    unfolding same_content_def H'_def H1_def using yn qn yd by (auto simp: relink_def)
  ultimately show ?thesis unfolding rot_step_def by (intro exI [of _ H']) simp
qed

interpretation unl: node_edit unlink_step del_at child_of "\<lambda>H x. rget rb_color H x = Some RB_RED"
proof (unfold_locales, goal_cases)
  case (5 H q x l r y guard)
  then show ?case using unlink_root [of H q x l r y guard] by simp
qed (auto simp: del_at_absent dest: child_of_in)

end
