(* ===== verification/Kylin_Rb_Balance.thy ===== *)
theory Kylin_Rb_Balance
  imports Kylin_Rb_Tree
begin

section \<open>Red-black trees: the repair after an insertion\<close>

text \<open>
  The loop \<^verbatim>\<open>_insert_color\<close> of lib/core/math/kylin_rb.c keeps a red-black tree: seen from the red
  node, through the path to the root, one round either recolours and moves two levels up or
  rotates and ends. The lemmas carry the tree, its colours and what is left alone through the
  heap operations of a round.
\<close>

subsection \<open>Trees seen from a node\<close>

text \<open>
  The path from a node to the root, innermost step first: the node is the left child of \<open>a\<close>, whose
  right subtree is \<open>r\<close>, or the right child of \<open>a\<close>, whose left subtree is \<open>l\<close>.
\<close>

datatype frame = InLeft kaddr "kaddr tree" | InRight "kaddr tree" kaddr

fun fill :: "frame \<Rightarrow> kaddr tree \<Rightarrow> kaddr tree" where
  "fill (InLeft a r) t = Node t a r"
| "fill (InRight l a) t = Node l a t"

fun plug :: "frame list \<Rightarrow> kaddr tree \<Rightarrow> kaddr tree" where
  "plug [] t = t"
| "plug (f # fs) t = plug fs (fill f t)"

fun frame_key :: "frame \<Rightarrow> kaddr" where
  "frame_key (InLeft a r) = a"
| "frame_key (InRight l a) = a"

fun ctx_parent :: "kaddr \<Rightarrow> frame list \<Rightarrow> kaddr" where
  "ctx_parent q [] = q"
| "ctx_parent q (f # fs) = frame_key f"

fun root_of :: "kaddr tree \<Rightarrow> kaddr" where
  "root_of Leaf = 0"
| "root_of (Node l a r) = a"

fun ctx_set :: "frame list \<Rightarrow> kaddr set" where
  "ctx_set [] = {}"
| "ctx_set (InLeft a r # fs) = insert a (set_tree r) \<union> ctx_set fs"
| "ctx_set (InRight l a # fs) = insert a (set_tree l) \<union> ctx_set fs"

lemma rtree_root_of: "rtree H q p t \<Longrightarrow> p = root_of t"
  by (cases t) auto

lemma rtree_at_root: "rtree H q p t \<Longrightarrow> rtree H q (root_of t) t"
  using rtree_root_of by metis

lemma set_plug: "set_tree (plug fs t) = set_tree t \<union> ctx_set fs"
proof (induction fs arbitrary: t)
  case (Cons f fs)
  then show ?case by (cases f) auto
qed simp

lemma distinct_plug:
  "distinct (inorder (plug fs t)) \<Longrightarrow> distinct (inorder t) \<and> set_tree t \<inter> ctx_set fs = {}"
proof (induction fs arbitrary: t)
  case (Cons f fs)
  then have "distinct (inorder (fill f t)) \<and> set_tree (fill f t) \<inter> ctx_set fs = {}" by simp
  then show ?case by (cases f) auto
qed simp

lemma inorder_plug_cong: "inorder t = inorder t' \<Longrightarrow> inorder (plug fs t) = inorder (plug fs t')"
proof (induction fs arbitrary: t t')
  case (Cons f fs)
  have "inorder (fill f t) = inorder (fill f t')" using Cons.prems by (cases f) auto
  then show ?case using Cons.IH [of "fill f t" "fill f t'"] by simp
qed simp

lemma rtree_plug: "rtree H q p (plug fs t) \<Longrightarrow> rtree H (ctx_parent q fs) (root_of t) t"
proof (induction fs arbitrary: t)
  case Nil
  then show ?case using rtree_root_of by fastforce
next
  case (Cons f fs)
  then have "rtree H (ctx_parent q fs) (root_of (fill f t)) (fill f t)" by simp
  then show ?case by (cases f) (auto intro: rtree_at_root)
qed

lemma rot_left_plug:
  "distinct (inorder (plug fs t)) \<Longrightarrow> x \<in> set_tree t \<Longrightarrow> rot_left_at x (plug fs t) = plug fs (rot_left_at x t)"
proof (induction fs arbitrary: t)
  case (Cons f fs)
  have d: "distinct (inorder (fill f t))" using Cons.prems(1) distinct_plug [of fs] by simp
  have "rot_left_at x (fill f t) = fill f (rot_left_at x t)" "x \<in> set_tree (fill f t)"
    using d Cons.prems(2) by (cases f; auto intro: rot_left_absent)+
  then show ?case using Cons by simp
qed simp

lemma rot_right_plug:
  "distinct (inorder (plug fs t)) \<Longrightarrow> x \<in> set_tree t \<Longrightarrow> rot_right_at x (plug fs t) = plug fs (rot_right_at x t)"
proof (induction fs arbitrary: t)
  case (Cons f fs)
  have d: "distinct (inorder (fill f t))" using Cons.prems(1) distinct_plug [of fs] by simp
  have "rot_right_at x (fill f t) = fill f (rot_right_at x t)" "x \<in> set_tree (fill f t)"
    using d Cons.prems(2) by (cases f; auto intro: rot_right_absent)+
  then show ?case using Cons by simp
qed simp

lemma right_of_plug:
  "distinct (inorder (plug fs t)) \<Longrightarrow> x \<in> set_tree t \<Longrightarrow> right_of x (plug fs t) = right_of x t"
proof (induction fs arbitrary: t)
  case (Cons f fs)
  have d: "distinct (inorder (fill f t))" using Cons.prems(1) distinct_plug [of fs] by simp
  have "right_of x (fill f t) = right_of x t" "x \<in> set_tree (fill f t)"
    using d Cons.prems(2) by (cases f; auto)+
  then show ?case using Cons by simp
qed simp

lemma left_of_plug:
  "distinct (inorder (plug fs t)) \<Longrightarrow> x \<in> set_tree t \<Longrightarrow> left_of x (plug fs t) = left_of x t"
proof (induction fs arbitrary: t)
  case (Cons f fs)
  have d: "distinct (inorder (fill f t))" using Cons.prems(1) distinct_plug [of fs] by simp
  have "left_of x (fill f t) = left_of x t" "x \<in> set_tree (fill f t)"
    using d Cons.prems(2) by (cases f; auto)+
  then show ?case using Cons by simp
qed simp

subsection \<open>Colours\<close>

definition rcol :: "rheap \<Rightarrow> kaddr \<Rightarrow> bool" where
  "rcol H a = rb_color (the (H a))"

fun red_root :: "(kaddr \<Rightarrow> bool) \<Rightarrow> kaddr tree \<Rightarrow> bool" where
  "red_root c Leaf = False"
| "red_root c (Node l a r) = c a"

fun bheight :: "(kaddr \<Rightarrow> bool) \<Rightarrow> kaddr tree \<Rightarrow> nat" where
  "bheight c Leaf = 0"
| "bheight c (Node l a r) = bheight c l + (if c a then 0 else 1)"

fun invh :: "(kaddr \<Rightarrow> bool) \<Rightarrow> kaddr tree \<Rightarrow> bool" where
  "invh c Leaf = True"
| "invh c (Node l a r) \<longleftrightarrow> invh c l \<and> invh c r \<and> bheight c l = bheight c r"

fun invc :: "(kaddr \<Rightarrow> bool) \<Rightarrow> kaddr tree \<Rightarrow> bool" where
  "invc c Leaf = True"
| "invc c (Node l a r) \<longleftrightarrow> invc c l \<and> invc c r \<and> (c a \<longrightarrow> \<not> red_root c l \<and> \<not> red_root c r)"

lemma red_root_cong: "(\<And>a. a \<in> set_tree t \<Longrightarrow> c a = c' a) \<Longrightarrow> red_root c t = red_root c' t"
  by (cases t) auto

lemma bheight_cong: "(\<And>a. a \<in> set_tree t \<Longrightarrow> c a = c' a) \<Longrightarrow> bheight c t = bheight c' t"
  by (induction t) auto

lemma invh_cong: "(\<And>a. a \<in> set_tree t \<Longrightarrow> c a = c' a) \<Longrightarrow> invh c t = invh c' t"
proof (induction t)
  case (Node l a r)
  then show ?case using bheight_cong [of l c c'] bheight_cong [of r c c'] by simp
qed simp

lemma invc_cong: "(\<And>a. a \<in> set_tree t \<Longrightarrow> c a = c' a) \<Longrightarrow> invc c t = invc c' t"
proof (induction t)
  case (Node l a r)
  then show ?case using red_root_cong [of l c c'] red_root_cong [of r c c'] by simp
qed simp

lemma color_upd [simp]:
  assumes "a \<notin> set_tree t"
  shows "red_root (c(a := v)) t = red_root c t" "bheight (c(a := v)) t = bheight c t"
    "invh (c(a := v)) t = invh c t" "invc (c(a := v)) t = invc c t"
  using assms by (auto intro!: red_root_cong bheight_cong invh_cong invc_cong split: if_splits)

lemma inv_plugD: "invh c (plug fs t) \<Longrightarrow> invh c t" "invc c (plug fs t) \<Longrightarrow> invc c t"
proof (induction fs arbitrary: t)
  case (Cons f fs)
  { case 1 then show ?case using Cons.IH(1) [of "fill f t"] by (cases f) auto }
  { case 2 then show ?case using Cons.IH(2) [of "fill f t"] by (cases f) auto }
qed simp_all

lemma invh_plug:
  assumes "invh c (plug fs t)" "invh c' t'" "bheight c' t' = bheight c t" "\<And>a. a \<in> ctx_set fs \<Longrightarrow> c a = c' a"
  shows "invh c' (plug fs t')"
  using assms
proof (induction fs arbitrary: t t')
  case (Cons f fs)
  have i: "invh c (fill f t)" using Cons.prems(1) inv_plugD(1) [of c fs "fill f t"] by simp
  have "invh c' (fill f t') \<and> bheight c' (fill f t') = bheight c (fill f t)"
  proof (cases f)
    case (InLeft a r)
    then have "invh c' r = invh c r" "bheight c' r = bheight c r"
      using Cons.prems(4) invh_cong [of r c' c] bheight_cong [of r c' c] by auto
    then show ?thesis using InLeft i Cons.prems by auto
  next
    case (InRight l a)
    then have "invh c' l = invh c l" "bheight c' l = bheight c l"
      using Cons.prems(4) invh_cong [of l c' c] bheight_cong [of l c' c] by auto
    then show ?thesis using InRight i Cons.prems by auto
  qed
  moreover have "c a = c' a" if "a \<in> ctx_set fs" for a using Cons.prems(4) that by (cases f) auto
  ultimately show ?case using Cons.IH [of "fill f t" "fill f t'"] Cons.prems(1) by simp
qed simp

lemma invc_plug:
  assumes "invc c (plug fs t)" "invc c' t'" "red_root c' t' \<Longrightarrow> red_root c t" "\<And>a. a \<in> ctx_set fs \<Longrightarrow> c a = c' a"
  shows "invc c' (plug fs t')"
  using assms
proof (induction fs arbitrary: t t')
  case (Cons f fs)
  have i: "invc c (fill f t)" using Cons.prems(1) inv_plugD(2) [of c fs "fill f t"] by simp
  have "invc c' (fill f t') \<and> (red_root c' (fill f t') \<longrightarrow> red_root c (fill f t))"
  proof (cases f)
    case (InLeft a r)
    then have "invc c' r = invc c r" "red_root c' r = red_root c r"
      using Cons.prems(4) invc_cong [of r c' c] red_root_cong [of r c' c] by auto
    then show ?thesis using InLeft i Cons.prems by auto
  next
    case (InRight l a)
    then have "invc c' l = invc c l" "red_root c' l = red_root c l"
      using Cons.prems(4) invc_cong [of l c' c] red_root_cong [of l c' c] by auto
    then show ?thesis using InRight i Cons.prems by auto
  qed
  moreover have "c a = c' a" if "a \<in> ctx_set fs" for a using Cons.prems(4) that by (cases f) auto
  ultimately show ?case using Cons.IH [of "fill f t" "fill f t'"] Cons.prems(1) by simp
qed simp

subsection \<open>Recolouring and rotating in the heap\<close>

lemma rtree_color: "H a = Some n \<Longrightarrow> rtree (H(a \<mapsto> n\<lparr>rb_color := v\<rparr>)) q p t = rtree H q p t"
  by (induction t arbitrary: q p) auto

lemma set_color_some: "a \<noteq> 0 \<Longrightarrow> H a = Some n \<Longrightarrow> set_color a v H = Some (H(a \<mapsto> n\<lparr>rb_color := v\<rparr>))"
  by (simp add: set_color_def rset_def)

lemma rcol_upd: "H a = Some n \<Longrightarrow> rcol (H(a \<mapsto> n\<lparr>rb_color := v\<rparr>)) = (rcol H)(a := v)"
  by (rule ext) (simp add: rcol_def)

lemma rcol_same: "same_content H H' \<Longrightarrow> rcol H' a = rcol H a"
  unfolding same_content_def rcol_def by (metis option.collapse option.map_disc_iff option.map_sel)

text \<open>The values of the nodes, which the repair never changes.\<close>

definition rb_same_vals :: "rheap \<Rightarrow> rheap \<Rightarrow> bool" where
  "rb_same_vals H H' \<longleftrightarrow> (\<forall>a. map_option rb_val (H' a) = map_option rb_val (H a))"

lemma rb_same_vals_refl [simp]: "rb_same_vals H H"
  by (simp add: rb_same_vals_def)

lemma rb_same_vals_trans: "rb_same_vals H H' \<Longrightarrow> rb_same_vals H' H'' \<Longrightarrow> rb_same_vals H H''"
  by (simp add: rb_same_vals_def)

lemma rb_same_vals_color: "H a = Some n \<Longrightarrow> rb_same_vals H (H(a \<mapsto> n\<lparr>rb_color := v\<rparr>))"
  by (simp add: rb_same_vals_def)

lemma rb_same_vals_content: "same_content H H' \<Longrightarrow> rb_same_vals H H'"
  by (simp add: rb_same_vals_def same_content_def)

definition rb_at :: "krb \<Rightarrow> rheap \<Rightarrow> frame list \<Rightarrow> kaddr tree \<Rightarrow> bool" where
  "rb_at guard H fs t \<longleftrightarrow> rtree H 0 (rb_root guard) (plug fs t) \<and> distinct (inorder (plug fs t))"

text \<open>What a step of the repair leaves alone: the values, the nodes outside the tree, the options.\<close>

definition rb_kept :: "kaddr set \<Rightarrow> krb \<times> rheap \<Rightarrow> krb \<times> rheap \<Rightarrow> bool" where
  "rb_kept A = (\<lambda>(guard, H) (guard', H'). rb_same_vals H H' \<and> (\<forall>a. a \<notin> A \<longrightarrow> H' a = H a)
     \<and> guard' = guard\<lparr>rb_root := rb_root guard'\<rparr>)"

lemma rb_kept_trans: "rb_kept A s s' \<Longrightarrow> rb_kept A s' s'' \<Longrightarrow> rb_kept A s s''"
  by (auto simp: rb_kept_def intro: rb_same_vals_trans) (metis krb.unfold_congs(5) krb.surjective krb.update_convs(5))

lemma rb_at_up: "rb_at guard H (f # fs) t = rb_at guard H fs (fill f t)"
  by (simp add: rb_at_def)

lemma rb_at_node:
  assumes "rb_at guard H fs (Node l x r)"
  obtains n where "H x = Some n" "x \<noteq> 0" "rb_parent n = ctx_parent 0 fs" "rb_left n = root_of l" "rb_right n = root_of r"
  using rtree_plug [of H 0 "rb_root guard" fs "Node l x r"] assms
  by (auto simp: rb_at_def dest: rtree_root_of)

lemma rb_at_get:
  assumes "rb_at guard H fs (Node l x r)"
  shows "x \<noteq> 0" "rget rb_parent H x = Some (ctx_parent 0 fs)" "rget rb_left H x = Some (root_of l)"
    "rget rb_right H x = Some (root_of r)" "rget rb_color H x = Some (rcol H x)"
  using assms by (auto elim!: rb_at_node simp: rcol_def)

lemma rb_at_black:
  assumes "rb_at guard H fs t" "set_tree s \<subseteq> set_tree (plug fs t)"
  shows "is_black (root_of s) H = Some (\<not> red_root (rcol H) s)"
proof (cases s)
  case (Node l a r)
  then have "a \<in> set_tree (plug fs t)" using assms(2) by auto
  moreover have T: "rtree H 0 (rb_root guard) (plug fs t)" using assms(1) by (simp add: rb_at_def)
  ultimately obtain n where "H a = Some n" "a \<noteq> 0" using rtree_heap [OF T] rtree_nonzero [OF T] by metis
  then show ?thesis using Node by (simp add: is_black_def rcol_def)
qed (simp add: is_black_def)

lemma rb_at_set_color:
  assumes "rb_at guard H fs t" "a \<in> set_tree (plug fs t)"
  obtains H' where "set_color a v H = Some H'" "rb_at guard H' fs t" "rcol H' = (rcol H)(a := v)"
    "rb_kept (set_tree (plug fs t)) (guard, H) (guard, H')"
proof -
  have T: "rtree H 0 (rb_root guard) (plug fs t)" using assms(1) by (simp add: rb_at_def)
  obtain n where n: "H a = Some n" "a \<noteq> 0" using rtree_heap [OF T assms(2)] rtree_nonzero [OF T] assms(2) by metis
  show thesis
  proof (rule that)
    show "set_color a v H = Some (H(a \<mapsto> n\<lparr>rb_color := v\<rparr>))" using n by (simp add: set_color_some)
    show "rb_at guard (H(a \<mapsto> n\<lparr>rb_color := v\<rparr>)) fs t" using assms(1) n by (simp add: rb_at_def rtree_color)
    show "rcol (H(a \<mapsto> n\<lparr>rb_color := v\<rparr>)) = (rcol H)(a := v)" using n(1) by (intro rcol_upd)
    show "rb_kept (set_tree (plug fs t)) (guard, H) (guard, H(a \<mapsto> n\<lparr>rb_color := v\<rparr>))"
      using assms(2) n(1) by (auto simp: rb_kept_def intro: rb_same_vals_color)
  qed
qed

lemma rot_step_whole:
  assumes "rot_step f guard x y H 0 (rb_root guard) t t'" "rtree H 0 (rb_root guard) t" "inorder t' = inorder t"
    "distinct (inorder t)"
  obtains guard' H' where "f guard x H = Some (guard', H')" "rtree H' 0 (rb_root guard') t'" "rcol H' = rcol H"
    "rb_kept (set_tree t) (guard, H) (guard', H')"
proof -
  let ?p = "rb_root guard"
  obtain H' where H': "f guard x H = Some (if ?p = x then guard\<lparr>rb_root := y\<rparr> else guard, H')"
    "rtree H' 0 (if ?p = x then y else ?p) t'" "\<And>a. a \<notin> set_tree t \<Longrightarrow> H' a = H a" "same_content H H'"
    using assms(1) unfolding rot_step_def by auto
  show thesis
  proof (rule that [OF H'(1)])
    show "rtree H' 0 (rb_root (if ?p = x then guard\<lparr>rb_root := y\<rparr> else guard)) t'" using H'(2) by (auto split: if_splits)
    show "rcol H' = rcol H" using rcol_same [OF H'(4)] by auto
    show "rb_kept (set_tree t) (guard, H) (if ?p = x then guard\<lparr>rb_root := y\<rparr> else guard, H')"
      using H'(3,4) by (simp add: rb_kept_def rb_same_vals_content)
  qed
qed

lemma rb_at_rotate_left:
  assumes "rb_at guard H fs (Node a x (Node b y c))"
  obtains guard' H' where "rotate_left guard x H = Some (guard', H')" "rb_at guard' H' fs (Node (Node a x b) y c)"
    "rcol H' = rcol H" "rb_kept (set_tree (plug fs (Node a x (Node b y c)))) (guard, H) (guard', H')"
proof -
  let ?t = "plug fs (Node a x (Node b y c))"
  have T: "rtree H 0 (rb_root guard) ?t" and d: "distinct (inorder ?t)" using assms by (simp_all add: rb_at_def)
  have r: "right_of x ?t = Some y" using right_of_plug [OF d] by simp
  have e: "rot_left_at x ?t = plug fs (Node (Node a x b) y c)" using rot_left_plug [OF d] by simp
  have io: "inorder (rot_left_at x ?t) = inorder ?t" by (rule inorder_rot_left)
  show thesis
    using rot_step_whole [OF rotl.whole [OF T d r TrueI] T io d] that io d
    unfolding rb_at_def e by metis
qed

lemma rb_at_rotate_right:
  assumes "rb_at guard H fs (Node (Node a x b) y c)"
  obtains guard' H' where "rotate_right guard y H = Some (guard', H')" "rb_at guard' H' fs (Node a x (Node b y c))"
    "rcol H' = rcol H" "rb_kept (set_tree (plug fs (Node (Node a x b) y c))) (guard, H) (guard', H')"
proof -
  let ?t = "plug fs (Node (Node a x b) y c)"
  have T: "rtree H 0 (rb_root guard) ?t" and d: "distinct (inorder ?t)" using assms by (simp_all add: rb_at_def)
  have r: "left_of y ?t = Some x" using left_of_plug [OF d] by simp
  have e: "rot_right_at y ?t = plug fs (Node a x (Node b y c))" using rot_right_plug [OF d] by simp
  have io: "inorder (rot_right_at y ?t) = inorder ?t" by (rule inorder_rot_right)
  show thesis
    using rot_step_whole [OF rotr.whole [OF T d r TrueI] T io d] that io d
    unfolding rb_at_def e by metis
qed

subsection \<open>The repair after an insertion\<close>

text \<open>A finished tree: well linked, black root, no red node with a red child, one black height.\<close>

definition rb_valid :: "krb \<Rightarrow> rheap \<Rightarrow> kaddr tree \<Rightarrow> bool" where
  "rb_valid guard H t \<longleftrightarrow> rtree H 0 (rb_root guard) t \<and> distinct (inorder t)
     \<and> invc (rcol H) t \<and> invh (rcol H) t \<and> \<not> red_root (rcol H) t"

definition repaired :: "krb \<times> rheap \<Rightarrow> kaddr tree \<Rightarrow> krb \<times> rheap \<Rightarrow> bool" where
  "repaired s t = (\<lambda>(guard', H'). \<exists>t'. rb_valid guard' H' t' \<and> inorder t' = inorder t \<and> rb_kept (set_tree t) s (guard', H'))"

lemma blacken_root:
  assumes "distinct (inorder t)" "t \<noteq> Leaf"
  shows "invc c t \<Longrightarrow> invc (c(root_of t := False)) t" "invh c t \<Longrightarrow> invh (c(root_of t := False)) t"
    "\<not> red_root (c(root_of t := False)) t"
  using assms by (cases t; auto)+

lemma plug_not_leaf: "t \<noteq> Leaf \<Longrightarrow> plug fs t \<noteq> Leaf"
proof (induction fs arbitrary: t)
  case (Cons f fs)
  then show ?case by (cases f) auto
qed simp

lemma insert_color_stop:
  assumes at: "rb_at guard H fs (Node l z r)" and p: "fs = [] \<or> \<not> rcol H (ctx_parent 0 fs)"
    and inv: "invc (rcol H) (plug fs (Node l z r))" "invh (rcol H) (plug fs (Node l z r))"
  shows "\<exists>s. insert_color guard z H = Some s \<and> repaired (guard, H) (plug fs (Node l z r)) s"
proof -
  let ?t = "plug fs (Node l z r)"
  have T: "rtree H 0 (rb_root guard) ?t" and d: "distinct (inorder ?t)" using at by (simp_all add: rb_at_def)
  have ne: "?t \<noteq> Leaf" by (rule plug_not_leaf) simp
  have root: "rb_root guard = root_of ?t" "root_of ?t \<in> set_tree ?t" using rtree_root_of [OF T] ne by (simp, cases ?t, auto)
  obtain H' where H': "set_color (root_of ?t) RB_BLACK H = Some H'" "rb_at guard H' fs (Node l z r)"
      "rcol H' = (rcol H)(root_of ?t := False)" "rb_kept (set_tree ?t) (guard, H) (guard, H')"
    using rb_at_set_color [OF at root(2)] by metis
  have "is_black (ctx_parent 0 fs) H = Some True"
  proof (cases fs)
    case (Cons f fs')
    have "ctx_parent 0 fs \<in> set_tree ?t" unfolding set_plug Cons by (cases f) auto
    then obtain n where "H (ctx_parent 0 fs) = Some n" "ctx_parent 0 fs \<noteq> 0"
      using rtree_heap [OF T] rtree_nonzero [OF T] by metis
    then show ?thesis using p Cons by (auto simp: is_black_def rcol_def)
  qed (simp add: is_black_def)
  then have "insert_color guard z H = Some (guard, H')"
    using rb_at_get(2) [OF at] H'(1) root(1) by (subst insert_color.simps) simp
  moreover have "rb_valid guard H' ?t"
    using H'(2,3) blacken_root [OF d ne] inv by (simp add: rb_valid_def rb_at_def)
  ultimately show ?thesis using H'(4) by (auto simp: repaired_def)
qed

fun sibling :: "frame \<Rightarrow> kaddr tree" where
  "sibling (InLeft a r) = r"
| "sibling (InRight l a) = l"

lemma root_plug: "fs \<noteq> [] \<Longrightarrow> root_of (plug fs t) = frame_key (last fs)"
proof (induction fs arbitrary: t)
  case (Cons f fs)
  then show ?case by (cases f; cases fs) auto
qed simp

lemma frame_key_ctx: "f \<in> set fs \<Longrightarrow> frame_key f \<in> ctx_set fs"
proof (induction fs)
  case (Cons g fs)
  then show ?case by (cases g) auto
qed simp

text \<open>
  The state in the loop: the node \<open>z\<close> is red and the tree is right but for a red parent of \<open>z\<close>, that is
  it would be right if \<open>z\<close> were black.
\<close>

definition red_at :: "(kaddr \<Rightarrow> bool) \<Rightarrow> frame list \<Rightarrow> kaddr tree \<Rightarrow> kaddr \<Rightarrow> kaddr tree \<Rightarrow> bool" where
  "red_at c fs l z r \<longleftrightarrow> c z \<and> invc c (Node l z r) \<and> invh c (plug fs (Node l z r))
     \<and> invc (c(z := False)) (plug fs (Node l z r)) \<and> \<not> (c(z := False)) (root_of (plug fs (Node l z r)))"

lemma red_atD:
  assumes "red_at c (f1 # f2 # fs) l z r" "distinct (inorder (plug (f1 # f2 # fs) (Node l z r)))" "c (frame_key f1)"
  shows "\<not> c (frame_key f2)" "\<not> red_root c (sibling f1)" "invc c (sibling f1)" "invc c (sibling f2)"
    "invh c (fill f2 (fill f1 (Node l z r)))" "invc c (Node l z r)" "c z"
proof -
  let ?c = "c(z := False)" and ?s = "fill f2 (fill f1 (Node l z r))"
  have d: "distinct (inorder ?s)" using distinct_plug [of fs ?s] assms(2) by simp
  have i: "invc ?c ?s" using assms(1) inv_plugD(2) [of ?c fs ?s] by (simp add: red_at_def)
  show "\<not> c (frame_key f2)" "\<not> red_root c (sibling f1)" "invc c (sibling f1)" "invc c (sibling f2)"
    using i d assms(3) by (cases f1; cases f2; auto)+
  show "invh c ?s" using assms(1) inv_plugD(1) [of c fs ?s] by (simp add: red_at_def)
  show "invc c (Node l z r)" "c z" using assms(1) by (simp_all add: red_at_def)
qed

lemma red_at_plug:
  assumes "red_at c (f1 # f2 # fs) l z r" "distinct (inorder (plug (f1 # f2 # fs) (Node l z r)))" "c (frame_key f1)"
    and "\<And>a. a \<in> ctx_set fs \<Longrightarrow> c a = c' a"
    and "invh c' t'" "bheight c' t' = bheight c (fill f2 (fill f1 (Node l z r)))" "invc c' t'" "\<not> red_root c' t'"
  shows "invh c' (plug fs t')" "invc c' (plug fs t')"
proof -
  let ?c = "c(z := False)" and ?s = "fill f2 (fill f1 (Node l z r))"
  have "set_tree ?s \<inter> ctx_set fs = {}" using distinct_plug [of fs ?s] assms(2) by simp
  moreover have "z \<in> set_tree ?s" by (cases f1; cases f2; auto)
  ultimately have "?c a = c' a" if "a \<in> ctx_set fs" for a using that assms(4) by auto
  then show "invc c' (plug fs t')"
    using invc_plug [of ?c fs ?s c' t'] assms(1,7,8) by (simp add: red_at_def)
  show "invh c' (plug fs t')"
    using invh_plug [of c fs ?s c' t'] assms(1,4,5,6) by (simp add: red_at_def)
qed

lemma red_uncle_inv:
  assumes "red_at c (f1 # f2 # fs) l z r" "distinct (inorder (plug (f1 # f2 # fs) (Node l z r)))" "c (frame_key f1)"
    and "red_root c (sibling f2)" "fill f2 (fill f1 (Node l z r)) = Node l' (frame_key f2) r'"
    and "c' = c(root_of (sibling f2) := False, frame_key f1 := False, frame_key f2 := True)"
  shows "red_at c' fs l' (frame_key f2) r'"
proof -
  let ?s = "fill f2 (fill f1 (Node l z r))" and ?g = "frame_key f2"
  note D = red_atD [OF assms(1-3)]
  have d: "distinct (inorder ?s)" "set_tree ?s \<inter> ctx_set fs = {}" using distinct_plug [of fs ?s] assms(2) by simp_all
  obtain dl u dr where u: "sibling f2 = Node dl u dr" using assms(4) by (cases "sibling f2") auto
  have key: "frame_key f1 \<in> set_tree ?s" "?g \<in> set_tree ?s" "u \<in> set_tree ?s" using u by (cases f1; cases f2; auto)+
  have c': "c' = c(u := False, frame_key f1 := False, ?g := True)" using assms(6) u by simp
  have ag: "c a = (c'(?g := False)) a" "c a = c' a" if "a \<in> ctx_set fs" for a
    using that d(2) key by (auto simp: c')
  have inv: "invc c' ?s" "invh c' ?s" "bheight c' ?s = bheight c ?s"
    using D d(1) u assms(3,4) unfolding c' by (cases f1; cases f2; auto)+
  have inv': "invc (c'(?g := False)) ?s" "\<not> red_root (c'(?g := False)) ?s"
    using inv(1) D d(1) u assms(3,4) unfolding c' by (cases f1; cases f2; auto)+
  have "invc (c'(?g := False)) (plug fs ?s)"
  proof -
    have z: "z \<in> set_tree ?s" by (cases f1; cases f2; auto)
    have "invc (c(z := False)) (plug fs ?s)" using assms(1) by (simp add: red_at_def)
    moreover have "(c(z := False)) a = (c'(?g := False)) a" if "a \<in> ctx_set fs" for a
      using ag(1) [OF that] z d(2) that by auto
    ultimately show ?thesis using invc_plug inv' by blast
  qed
  moreover have "invh c' (plug fs ?s)"
    using invh_plug [of c fs ?s c' ?s] inv ag(2) assms(1) by (simp add: red_at_def)
  moreover have "\<not> (c'(?g := False)) (root_of (plug fs ?s))"
  proof (cases "fs = []")
    case False
    then have "frame_key (last fs) \<in> ctx_set fs" by (intro frame_key_ctx) simp
    moreover have "\<not> (c(z := False)) (frame_key (last fs))"
      using assms(1) root_plug [OF False] by (simp add: red_at_def)
    moreover have "z \<notin> ctx_set fs" using d(2) by (cases f1; cases f2; auto)
    ultimately show ?thesis using ag(1) root_plug [OF False] by (metis fun_upd_other)
  qed (use assms(5) in simp)
  moreover have "c' ?g" by (simp add: c')
  ultimately show ?thesis using inv(1) unfolding red_at_def assms(5) [symmetric] by blast
qed

text \<open>The reads of one round, from the node up to its uncle.\<close>

lemma insert_color_reads:
  assumes "rb_at guard H (f1 # f2 # fs) (Node l z r)"
  shows "rget rb_parent H z = Some (frame_key f1)" "rget rb_parent H (frame_key f1) = Some (frame_key f2)"
    "is_black (frame_key f1) H = Some (\<not> rcol H (frame_key f1))"
    "frame_key f1 \<noteq> 0" "frame_key f2 \<noteq> 0"
    "is_black (root_of (sibling f2)) H = Some (\<not> red_root (rcol H) (sibling f2))"
proof -
  have at1: "rb_at guard H (f2 # fs) (fill f1 (Node l z r))" and at2: "rb_at guard H fs (fill f2 (fill f1 (Node l z r)))"
    using assms by (simp_all add: rb_at_up)
  show "rget rb_parent H z = Some (frame_key f1)" using rb_at_get(2) [OF assms] by simp
  show "rget rb_parent H (frame_key f1) = Some (frame_key f2)" "frame_key f1 \<noteq> 0"
    using at1 by (cases f1; auto dest: rb_at_get)+
  show "frame_key f2 \<noteq> 0" using at2 by (cases f2; auto dest: rb_at_get)
  have "is_black (root_of (fill f1 (Node l z r))) H = Some (\<not> red_root (rcol H) (fill f1 (Node l z r)))"
    by (rule rb_at_black [OF at1]) (simp only: set_plug Un_upper1)
  then show "is_black (frame_key f1) H = Some (\<not> rcol H (frame_key f1))" by (cases f1) simp_all
  show "is_black (root_of (sibling f2)) H = Some (\<not> red_root (rcol H) (sibling f2))"
    by (rule rb_at_black [OF at2]) (cases f2; auto simp: set_plug)
qed

lemma uncle_red_step:
  assumes at: "rb_at guard H (f1 # f2 # fs) (Node l z r)" and red: "rcol H (frame_key f1)" "red_root (rcol H) (sibling f2)"
  obtains H' where "insert_color guard z H = insert_color guard (frame_key f2) H'"
    "rb_at guard H' fs (fill f2 (fill f1 (Node l z r)))"
    "rcol H' = (rcol H)(root_of (sibling f2) := False, frame_key f1 := False, frame_key f2 := True)"
    "rb_kept (set_tree (plug (f1 # f2 # fs) (Node l z r))) (guard, H) (guard, H')"
proof -
  let ?s = "fill f2 (fill f1 (Node l z r))" and ?u = "root_of (sibling f2)"
  let ?A = "set_tree (plug fs ?s)"
  have at2: "rb_at guard H fs ?s" using at by (simp add: rb_at_up)
  have mem: "?u \<in> ?A" "frame_key f1 \<in> ?A" "frame_key f2 \<in> ?A"
    using red(2) by (cases f1; cases f2; cases "sibling f2"; auto simp: set_plug)+
  note rd = insert_color_reads [OF at]
  obtain H1 where H1: "set_color ?u RB_BLACK H = Some H1" "rb_at guard H1 fs ?s" "rcol H1 = (rcol H)(?u := False)"
    "rb_kept ?A (guard, H) (guard, H1)" using rb_at_set_color [OF at2 mem(1)] by metis
  obtain H2 where H2: "set_color (frame_key f1) RB_BLACK H1 = Some H2" "rb_at guard H2 fs ?s"
    "rcol H2 = (rcol H1)(frame_key f1 := False)" "rb_kept ?A (guard, H1) (guard, H2)"
    using rb_at_set_color [OF H1(2) mem(2)] by metis
  obtain H3 where H3: "set_color (frame_key f2) RB_RED H2 = Some H3" "rb_at guard H3 fs ?s"
    "rcol H3 = (rcol H2)(frame_key f2 := True)" "rb_kept ?A (guard, H2) (guard, H3)"
    using rb_at_set_color [OF H2(2) mem(3)] by metis
  have "insert_color guard z H = insert_color guard (frame_key f2) H3"
  proof (cases f2)
    case (InLeft g u)
    have ch: "rget rb_left H g = Some (frame_key f1)" "rget rb_right H g = Some ?u"
      using rb_at_get [of guard H fs "fill f1 (Node l z r)" g u] at2 InLeft by (simp; cases f1; simp)+
    show ?thesis using rd red ch H1(1) H2(1) H3(1) InLeft by (subst insert_color.simps) simp
  next
    case (InRight u g)
    have ch: "rget rb_right H g = Some (frame_key f1)" "rget rb_left H g = Some ?u"
      using rb_at_get [of guard H fs u g "fill f1 (Node l z r)"] at2 InRight by (simp; cases f1; simp)+
    have "distinct (inorder ?s)" using at2 distinct_plug [of fs ?s] by (simp add: rb_at_def)
    then have "frame_key f1 \<noteq> ?u" using red(2) InRight by (cases u; cases f1; auto)
    then show ?thesis using rd red ch H1(1) H2(1) H3(1) InRight by (subst insert_color.simps) simp
  qed
  moreover have "rb_kept ?A (guard, H) (guard, H3)" using H1(4) H2(4) H3(4) rb_kept_trans by blast
  ultimately show thesis using that H3(2) H1(3) H2(3) H3(3) by simp
qed

text \<open>The last turn with a black uncle on the right, and on the left.\<close>

lemma finish_right:
  assumes "rb_at guard H fs (Node (Node a x b) y c)"
  obtains guard' H1 H2 H' where "set_color x RB_BLACK H = Some H1" "set_color y RB_RED H1 = Some H2"
    "rotate_right guard y H2 = Some (guard', H')" "rb_at guard' H' fs (Node a x (Node b y c))"
    "rcol H' = (rcol H)(x := False, y := True)"
    "rb_kept (set_tree (plug fs (Node (Node a x b) y c))) (guard, H) (guard', H')"
proof -
  let ?A = "set_tree (plug fs (Node (Node a x b) y c))"
  obtain H1 where H1: "set_color x RB_BLACK H = Some H1" "rb_at guard H1 fs (Node (Node a x b) y c)"
    "rcol H1 = (rcol H)(x := False)" "rb_kept ?A (guard, H) (guard, H1)"
    using rb_at_set_color [OF assms, of x] by (auto simp: set_plug)
  obtain H2 where H2: "set_color y RB_RED H1 = Some H2" "rb_at guard H2 fs (Node (Node a x b) y c)"
    "rcol H2 = (rcol H1)(y := True)" "rb_kept ?A (guard, H1) (guard, H2)"
    using rb_at_set_color [OF H1(2), of y] by (auto simp: set_plug)
  obtain guard' H' where H': "rotate_right guard y H2 = Some (guard', H')" "rb_at guard' H' fs (Node a x (Node b y c))"
    "rcol H' = rcol H2" "rb_kept ?A (guard, H2) (guard', H')" by (rule rb_at_rotate_right [OF H2(2)])
  show thesis
    by (rule that [OF H1(1) H2(1) H'(1,2)]) (use H1 H2 H' rb_kept_trans in \<open>simp, blast\<close>)
qed

lemma finish_left:
  assumes "rb_at guard H fs (Node a x (Node b y c))"
  obtains guard' H1 H2 H' where "set_color y RB_BLACK H = Some H1" "set_color x RB_RED H1 = Some H2"
    "rotate_left guard x H2 = Some (guard', H')" "rb_at guard' H' fs (Node (Node a x b) y c)"
    "rcol H' = (rcol H)(y := False, x := True)"
    "rb_kept (set_tree (plug fs (Node a x (Node b y c)))) (guard, H) (guard', H')"
proof -
  let ?A = "set_tree (plug fs (Node a x (Node b y c)))"
  obtain H1 where H1: "set_color y RB_BLACK H = Some H1" "rb_at guard H1 fs (Node a x (Node b y c))"
    "rcol H1 = (rcol H)(y := False)" "rb_kept ?A (guard, H) (guard, H1)"
    using rb_at_set_color [OF assms, of y] by (auto simp: set_plug)
  obtain H2 where H2: "set_color x RB_RED H1 = Some H2" "rb_at guard H2 fs (Node a x (Node b y c))"
    "rcol H2 = (rcol H1)(x := True)" "rb_kept ?A (guard, H1) (guard, H2)"
    using rb_at_set_color [OF H1(2), of x] by (auto simp: set_plug)
  obtain guard' H' where H': "rotate_left guard x H2 = Some (guard', H')" "rb_at guard' H' fs (Node (Node a x b) y c)"
    "rcol H' = rcol H2" "rb_kept ?A (guard, H2) (guard', H')" by (rule rb_at_rotate_left [OF H2(2)])
  show thesis
    by (rule that [OF H1(1) H2(1) H'(1,2)]) (use H1 H2 H' rb_kept_trans in \<open>simp, blast\<close>)
qed

lemma repaired_trans:
  assumes "rb_kept (set_tree t) s s'" "inorder t' = inorder t" "repaired s' t' s''"
  shows "repaired s t s''"
proof -
  have "set_tree t' = set_tree t" using assms(2) by (metis set_inorder)
  then show ?thesis using assms unfolding repaired_def by (auto intro: rb_kept_trans)
qed

lemma insert_color_finish:
  assumes ic: "insert_color guard z H = insert_color guard' x H'"
    and at: "rb_at guard' H' (f # fs) (Node a x b)" and p: "\<not> rcol H' (frame_key f)"
    and t: "inorder (plug (f # fs) (Node a x b)) = inorder t" and k: "rb_kept (set_tree t) (guard, H) (guard', H')"
    and inv: "invc (rcol H') (plug (f # fs) (Node a x b))" "invh (rcol H') (plug (f # fs) (Node a x b))"
  shows "\<exists>s. insert_color guard z H = Some s \<and> repaired (guard, H) t s"
  using insert_color_stop [OF at _ inv] p repaired_trans [OF k t] ic by auto

lemma uncle_black_ll:
  assumes at: "rb_at guard H (InLeft p w # InLeft g u # fs) (Node l z r)" and red: "rcol H p" "\<not> red_root (rcol H) u"
    and inv: "red_at (rcol H) (InLeft p w # InLeft g u # fs) l z r"
  shows "\<exists>s. insert_color guard z H = Some s \<and> repaired (guard, H) (plug fs (Node (Node (Node l z r) p w) g u)) s"
proof -
  let ?s = "Node (Node (Node l z r) p w) g u" and ?t = "Node (Node l z r) p (Node w g u)" and ?c = "rcol H"
  have d: "distinct (inorder (plug (InLeft p w # InLeft g u # fs) (Node l z r)))" using at by (simp add: rb_at_def)
  have at1: "rb_at guard H (InLeft g u # fs) (Node (Node l z r) p w)" and at2: "rb_at guard H fs ?s"
    using at by (simp_all add: rb_at_up)
  have ds: "distinct (inorder ?s)" "set_tree ?s \<inter> ctx_set fs = {}" using distinct_plug [of fs ?s] d by simp_all
  note D = red_atD [OF inv d, simplified, OF red(1)]
  note rd = insert_color_reads [OF at] rb_at_get(3,4) [OF at1] rb_at_get(3,4) [OF at2]
  have ne: "root_of w \<noteq> z" "root_of u \<noteq> p" using ds(1) rb_at_get(1) [OF at] rb_at_get(1) [OF at1] by (cases w; cases u; auto)+
  obtain guard' H1 H2 H' where st: "set_color p RB_BLACK H = Some H1" "set_color g RB_RED H1 = Some H2"
    "rotate_right guard g H2 = Some (guard', H')" "rb_at guard' H' fs ?t"
    and c': "rcol H' = ?c(p := False, g := True)" and k: "rb_kept (set_tree (plug fs ?s)) (guard, H) (guard', H')"
    by (rule finish_right [OF at2])
  have ic: "insert_color guard z H = insert_color guard' z H'"
    using rd red ne st by (subst insert_color.simps) simp
  have ag: "\<And>a. a \<in> ctx_set fs \<Longrightarrow> ?c a = rcol H' a" using ds(2) by (auto simp: c')
  have "invh (rcol H') ?t" "bheight (rcol H') ?t = bheight ?c ?s" "invc (rcol H') ?t" "\<not> red_root (rcol H') ?t"
    using D ds(1) red unfolding c' by auto
  then have fin: "invh (rcol H') (plug fs ?t)" "invc (rcol H') (plug fs ?t)"
    using red_at_plug [OF inv d _ ag] red(1) by simp_all
  show ?thesis
    by (rule insert_color_finish [OF ic, of "InLeft p (Node w g u)" fs])
       (use st(4) c' k fin ds(1) in \<open>auto simp: rb_at_up intro!: inorder_plug_cong\<close>)
qed

lemma uncle_black_lr:
  assumes at: "rb_at guard H (InRight w p # InLeft g u # fs) (Node l z r)" and red: "rcol H p" "\<not> red_root (rcol H) u"
    and inv: "red_at (rcol H) (InRight w p # InLeft g u # fs) l z r"
  shows "\<exists>s. insert_color guard z H = Some s \<and> repaired (guard, H) (plug fs (Node (Node w p (Node l z r)) g u)) s"
proof -
  let ?s = "Node (Node w p (Node l z r)) g u" and ?m = "Node (Node (Node w p l) z r) g u"
    and ?t = "Node (Node w p l) z (Node r g u)" and ?c = "rcol H"
  have d: "distinct (inorder (plug (InRight w p # InLeft g u # fs) (Node l z r)))" using at by (simp add: rb_at_def)
  have at1: "rb_at guard H (InLeft g u # fs) (Node w p (Node l z r))" and at2: "rb_at guard H fs ?s"
    using at by (simp_all add: rb_at_up)
  have ds: "distinct (inorder ?s)" "set_tree ?s \<inter> ctx_set fs = {}" using distinct_plug [of fs ?s] d by simp_all
  note D = red_atD [OF inv d, simplified, OF red(1)]
  note rd = insert_color_reads [OF at] rb_at_get(3,4) [OF at1] rb_at_get(3,4) [OF at2]
  have ne: "root_of u \<noteq> p" using ds(1) rb_at_get(1) [OF at1] by (cases u) auto
  obtain guard1 H0 where r1: "rotate_left guard p H = Some (guard1, H0)" "rb_at guard1 H0 (InLeft g u # fs) (Node (Node w p l) z r)"
    "rcol H0 = ?c" "rb_kept (set_tree (plug (InLeft g u # fs) (Node w p (Node l z r)))) (guard, H) (guard1, H0)"
    by (rule rb_at_rotate_left [OF at1])
  have at3: "rb_at guard1 H0 fs ?m" using r1(2) by (simp add: rb_at_up)
  obtain guard' H1 H2 H' where st: "set_color z RB_BLACK H0 = Some H1" "set_color g RB_RED H1 = Some H2"
    "rotate_right guard1 g H2 = Some (guard', H')" "rb_at guard' H' fs ?t"
    and c0: "rcol H' = (rcol H0)(z := False, g := True)"
    and k': "rb_kept (set_tree (plug fs ?m)) (guard1, H0) (guard', H')"
    by (rule finish_right [OF at3])
  have c': "rcol H' = ?c(z := False, g := True)" using c0 r1(3) by simp
  have "set_tree (plug fs ?m) = set_tree (plug fs ?s)" by (auto simp: set_plug)
  then have k: "rb_kept (set_tree (plug fs ?s)) (guard, H) (guard', H')"
    using r1(4) k' rb_kept_trans [of "set_tree (plug fs ?s)" "(guard, H)" "(guard1, H0)"] by simp
  have ic: "insert_color guard z H = insert_color guard' p H'"
    using rd red ne r1(1) st by (subst insert_color.simps) simp
  have ag: "\<And>a. a \<in> ctx_set fs \<Longrightarrow> ?c a = rcol H' a" using ds(2) by (auto simp: c')
  have "invh (rcol H') ?t" "bheight (rcol H') ?t = bheight ?c ?s" "invc (rcol H') ?t" "\<not> red_root (rcol H') ?t"
    using D ds(1) red unfolding c' by auto
  then have fin: "invh (rcol H') (plug fs ?t)" "invc (rcol H') (plug fs ?t)"
    using red_at_plug [OF inv d _ ag] red(1) by simp_all
  show ?thesis
    by (rule insert_color_finish [OF ic, of "InLeft z (Node r g u)" fs])
       (use st(4) c' k fin ds(1) in \<open>auto simp: rb_at_up intro!: inorder_plug_cong\<close>)
qed

lemma uncle_black_rr:
  assumes at: "rb_at guard H (InRight w p # InRight u g # fs) (Node r z l)" and red: "rcol H p" "\<not> red_root (rcol H) u"
    and inv: "red_at (rcol H) (InRight w p # InRight u g # fs) r z l"
  shows "\<exists>s. insert_color guard z H = Some s \<and> repaired (guard, H) (plug fs (Node u g (Node w p (Node r z l)))) s"
proof -
  let ?s = "Node u g (Node w p (Node r z l))" and ?t = "Node (Node u g w) p (Node r z l)" and ?c = "rcol H"
  have d: "distinct (inorder (plug (InRight w p # InRight u g # fs) (Node r z l)))" using at by (simp add: rb_at_def)
  have at1: "rb_at guard H (InRight u g # fs) (Node w p (Node r z l))" and at2: "rb_at guard H fs ?s"
    using at by (simp_all add: rb_at_up)
  have ds: "distinct (inorder ?s)" "set_tree ?s \<inter> ctx_set fs = {}" using distinct_plug [of fs ?s] d by simp_all
  note D = red_atD [OF inv d, simplified, OF red(1)]
  note rd = insert_color_reads [OF at] rb_at_get(3,4) [OF at1] rb_at_get(3,4) [OF at2]
  have ne: "root_of w \<noteq> z" "root_of u \<noteq> p" using ds(1) rb_at_get(1) [OF at] rb_at_get(1) [OF at1] by (cases w; cases u; auto)+
  obtain guard' H1 H2 H' where st: "set_color p RB_BLACK H = Some H1" "set_color g RB_RED H1 = Some H2"
    "rotate_left guard g H2 = Some (guard', H')" "rb_at guard' H' fs ?t"
    and c': "rcol H' = ?c(p := False, g := True)" and k: "rb_kept (set_tree (plug fs ?s)) (guard, H) (guard', H')"
    by (rule finish_left [OF at2])
  have ic: "insert_color guard z H = insert_color guard' z H'"
    using rd red ne st by (subst insert_color.simps) simp
  have ag: "\<And>a. a \<in> ctx_set fs \<Longrightarrow> ?c a = rcol H' a" using ds(2) by (auto simp: c')
  have "invh (rcol H') ?t" "bheight (rcol H') ?t = bheight ?c ?s" "invc (rcol H') ?t" "\<not> red_root (rcol H') ?t"
    using D ds(1) red unfolding c' by auto
  then have fin: "invh (rcol H') (plug fs ?t)" "invc (rcol H') (plug fs ?t)"
    using red_at_plug [OF inv d _ ag] red(1) by simp_all
  show ?thesis
    by (rule insert_color_finish [OF ic, of "InRight (Node u g w) p" fs])
       (use st(4) c' k fin ds(1) in \<open>auto simp: rb_at_up intro!: inorder_plug_cong\<close>)
qed

lemma uncle_black_rl:
  assumes at: "rb_at guard H (InLeft p w # InRight u g # fs) (Node r z l)" and red: "rcol H p" "\<not> red_root (rcol H) u"
    and inv: "red_at (rcol H) (InLeft p w # InRight u g # fs) r z l"
  shows "\<exists>s. insert_color guard z H = Some s \<and> repaired (guard, H) (plug fs (Node u g (Node (Node r z l) p w))) s"
proof -
  let ?s = "Node u g (Node (Node r z l) p w)" and ?m = "Node u g (Node r z (Node l p w))"
    and ?t = "Node (Node u g r) z (Node l p w)" and ?c = "rcol H"
  have d: "distinct (inorder (plug (InLeft p w # InRight u g # fs) (Node r z l)))" using at by (simp add: rb_at_def)
  have at1: "rb_at guard H (InRight u g # fs) (Node (Node r z l) p w)" and at2: "rb_at guard H fs ?s"
    using at by (simp_all add: rb_at_up)
  have ds: "distinct (inorder ?s)" "set_tree ?s \<inter> ctx_set fs = {}" using distinct_plug [of fs ?s] d by simp_all
  note D = red_atD [OF inv d, simplified, OF red(1)]
  note rd = insert_color_reads [OF at] rb_at_get(3,4) [OF at1] rb_at_get(3,4) [OF at2]
  have ne: "root_of u \<noteq> p" using ds(1) rb_at_get(1) [OF at1] by (cases u) auto
  obtain guard1 H0 where r1: "rotate_right guard p H = Some (guard1, H0)" "rb_at guard1 H0 (InRight u g # fs) (Node r z (Node l p w))"
    "rcol H0 = ?c" "rb_kept (set_tree (plug (InRight u g # fs) (Node (Node r z l) p w))) (guard, H) (guard1, H0)"
    by (rule rb_at_rotate_right [OF at1])
  have at3: "rb_at guard1 H0 fs ?m" using r1(2) by (simp add: rb_at_up)
  obtain guard' H1 H2 H' where st: "set_color z RB_BLACK H0 = Some H1" "set_color g RB_RED H1 = Some H2"
    "rotate_left guard1 g H2 = Some (guard', H')" "rb_at guard' H' fs ?t"
    and c0: "rcol H' = (rcol H0)(z := False, g := True)"
    and k': "rb_kept (set_tree (plug fs ?m)) (guard1, H0) (guard', H')"
    by (rule finish_left [OF at3])
  have c': "rcol H' = ?c(z := False, g := True)" using c0 r1(3) by simp
  have "set_tree (plug fs ?m) = set_tree (plug fs ?s)" by (auto simp: set_plug)
  then have k: "rb_kept (set_tree (plug fs ?s)) (guard, H) (guard', H')"
    using r1(4) k' rb_kept_trans [of "set_tree (plug fs ?s)" "(guard, H)" "(guard1, H0)"] by simp
  have ic: "insert_color guard z H = insert_color guard' p H'"
    using rd red ne r1(1) st by (subst insert_color.simps) simp
  have ag: "\<And>a. a \<in> ctx_set fs \<Longrightarrow> ?c a = rcol H' a" using ds(2) by (auto simp: c')
  have "invh (rcol H') ?t" "bheight (rcol H') ?t = bheight ?c ?s" "invc (rcol H') ?t" "\<not> red_root (rcol H') ?t"
    using D ds(1) red unfolding c' by auto
  then have fin: "invh (rcol H') (plug fs ?t)" "invc (rcol H') (plug fs ?t)"
    using red_at_plug [OF inv d _ ag] red(1) by simp_all
  show ?thesis
    by (rule insert_color_finish [OF ic, of "InRight (Node u g r) z" fs])
       (use st(4) c' k fin ds(1) in \<open>auto simp: rb_at_up intro!: inorder_plug_cong\<close>)
qed

lemma insert_color_at:
  assumes "rb_at guard H fs (Node l z r)" "red_at (rcol H) fs l z r"
  shows "\<exists>s. insert_color guard z H = Some s \<and> repaired (guard, H) (plug fs (Node l z r)) s"
  using assms
proof (induction "length fs" arbitrary: fs H l z r rule: less_induct)
  case less
  let ?c = "rcol H"
  have d: "distinct (inorder (plug fs (Node l z r)))" using less.prems(1) by (simp add: rb_at_def)
  have rz: "?c z" "invc ?c (Node l z r)" "invh ?c (plug fs (Node l z r))" "invc (?c(z := False)) (plug fs (Node l z r))"
    using less.prems(2) by (simp_all add: red_at_def)
  consider "fs = []" | f fs' where "fs = f # fs'" "\<not> ?c (frame_key f)" | f where "fs = [f]" "?c (frame_key f)"
    | f1 f2 fs' where "fs = f1 # f2 # fs'" "?c (frame_key f1)"
    by (cases fs rule: remdups_adj.cases) auto
  then show ?case
  proof cases
    case 1
    then show ?thesis using insert_color_stop [OF less.prems(1)] rz by simp
  next
    case (2 f fs')
    have ds: "distinct (inorder (fill f (Node l z r)))" "set_tree (fill f (Node l z r)) \<inter> ctx_set fs' = {}"
      using distinct_plug [of fs' "fill f (Node l z r)"] d 2(1) by simp_all
    have "invc (?c(z := False)) (fill f (Node l z r))" using inv_plugD(2) rz(4) 2(1) by fastforce
    then have "invc ?c (fill f (Node l z r))" "\<not> red_root ?c (fill f (Node l z r))"
      using rz(2) 2(2) ds(1) by (cases f; auto)+
    moreover have "z \<notin> ctx_set fs'" using ds(2) by (cases f) auto
    moreover from this have "\<And>a. a \<in> ctx_set fs' \<Longrightarrow> (?c(z := False)) a = ?c a" by auto
    moreover have "invc (?c(z := False)) (plug fs' (fill f (Node l z r)))" using rz(4) 2(1) by simp
    ultimately have "invc ?c (plug fs' (fill f (Node l z r)))" by (blast intro: invc_plug)
    then have "invc ?c (plug fs (Node l z r))" using 2(1) by simp
    then show ?thesis using insert_color_stop [OF less.prems(1)] rz(3) 2 by simp
  next
    case (3 f)
    have "frame_key f \<noteq> z" using d 3(1) by (cases f) auto
    moreover have "root_of (fill f (Node l z r)) = frame_key f" by (cases f) auto
    ultimately show ?thesis using less.prems(2) 3 by (simp add: red_at_def)
  next
    case (4 f1 f2 fs')
    note at = less.prems(1) [unfolded 4(1)] and inv = less.prems(2) [unfolded 4(1)] and d' = d [unfolded 4(1)]
    show ?thesis
    proof (cases "red_root ?c (sibling f2)")
      case True
      obtain H' where H': "insert_color guard z H = insert_color guard (frame_key f2) H'"
        "rb_at guard H' fs' (fill f2 (fill f1 (Node l z r)))"
        "rcol H' = ?c(root_of (sibling f2) := False, frame_key f1 := False, frame_key f2 := True)"
        "rb_kept (set_tree (plug (f1 # f2 # fs') (Node l z r))) (guard, H) (guard, H')"
        by (rule uncle_red_step [OF at 4(2) True])
      obtain l' r' where s: "fill f2 (fill f1 (Node l z r)) = Node l' (frame_key f2) r'" by (cases f2) auto
      have "red_at (rcol H') fs' l' (frame_key f2) r'" by (rule red_uncle_inv [OF inv d' 4(2) True s H'(3)])
      then have "\<exists>s. insert_color guard (frame_key f2) H' = Some s \<and> repaired (guard, H') (plug fs' (Node l' (frame_key f2) r')) s"
        using H'(2) s 4(1) by (intro less.hyps) simp_all
      then show ?thesis using H'(1) repaired_trans [OF H'(4), of "plug fs' (Node l' (frame_key f2) r')"] s 4(1) by auto
    next
      case False
      then show ?thesis using 4 at inv
        by (cases f1; cases f2; simp del: split_paired_Ex)
           (blast intro: uncle_black_ll uncle_black_lr uncle_black_rr uncle_black_rl)+
    qed
  qed
qed

subsection \<open>Balance\<close>

lemma bheight_size: "invh c t \<Longrightarrow> 2 ^ bheight c t \<le> size1 t"
proof (induction t)
  case (Node l a r)
  then have "2 ^ bheight c l \<le> size1 l" "2 ^ bheight c l \<le> size1 r" by simp_all
  then show ?case by simp
qed simp

lemma bheight_height: "invc c t \<Longrightarrow> invh c t \<Longrightarrow> height t \<le> 2 * bheight c t + (if red_root c t then 1 else 0)"
proof (induction t)
  case (Node l a r)
  then have "height l \<le> 2 * bheight c l + (if red_root c l then 1 else 0)"
    "height r \<le> 2 * bheight c l + (if red_root c r then 1 else 0)" by simp_all
  then show ?case using Node.prems(1) by (auto split: if_splits)
qed simp

lemma rb_valid_balanced: "rb_valid guard H t \<Longrightarrow> 2 ^ height t \<le> (size1 t)\<^sup>2"
proof -
  assume v: "rb_valid guard H t"
  let ?b = "bheight (rcol H) t"
  have "height t \<le> 2 * ?b" using bheight_height [of "rcol H" t] v by (simp add: rb_valid_def)
  then have "(2::nat) ^ height t \<le> 2 ^ (2 * ?b)" by (rule power_increasing) simp
  also have "\<dots> = (2 ^ ?b)\<^sup>2" by (simp add: power_mult power2_eq_square power_mult_distrib mult_2 power_add)
  also have "\<dots> \<le> (size1 t)\<^sup>2" using bheight_size [of "rcol H" t] v by (intro power_mono) (simp_all add: rb_valid_def)
  finally show ?thesis .
qed

lemma red_leaf_at:
  assumes "distinct (inorder (plug fs (Node Leaf z Leaf)))" "c z"
    and "invc c (plug fs Leaf)" "invh c (plug fs Leaf)" "\<not> red_root c (plug fs Leaf)"
  shows "red_at c fs Leaf z Leaf"
proof -
  have z: "z \<notin> ctx_set fs" using distinct_plug [OF assms(1)] by auto
  have "invh c (plug fs (Node Leaf z Leaf))" using invh_plug [OF assms(4), of c "Node Leaf z Leaf"] assms(2) by simp
  moreover have "c a = (c(z := False)) a" if "a \<in> ctx_set fs" for a using that z by auto
  then have "invc (c(z := False)) (plug fs (Node Leaf z Leaf))"
    by (intro invc_plug [OF assms(3)]) simp_all
  moreover have "\<not> (c(z := False)) (root_of (plug fs (Node Leaf z Leaf)))"
  proof (cases "fs = []")
    case False
    then have "plug fs Leaf \<noteq> Leaf" by (cases fs; cases "hd fs") (simp_all add: plug_not_leaf)
    then have "red_root c (plug fs Leaf) = c (root_of (plug fs Leaf))" by (cases "plug fs Leaf") auto
    then show ?thesis using assms(5) root_plug [OF False] by simp
  qed simp
  ultimately show ?thesis using assms(2) by (simp add: red_at_def)
qed

end
