(* ===== verification/Kylin_Rb_Correct.thy ===== *)
theory Kylin_Rb_Correct
  imports Kylin_Rb_Balance
begin

section \<open>Red-black trees: what the operations do\<close>

text \<open>
  The properties of lib/core/math/kylin_rb.c: searches, walks and rotations are right on every
  search tree; insertion, removal of a node with two children and destroy are not.
\<close>

subsection \<open>A tree of three nodes\<close>

definition rb_word_cmp :: kcmp where
  "rb_word_cmp = \<lparr>kc_cmp = \<lambda>a b. if a < b then -1 else if b < a then 1 else 0, kc_dgt = (>), kc_sdgt = (>)\<rparr>"

definition rb_demo :: krb where
  "rb_demo = \<lparr>rb_opts = \<lparr>rb_val_type = KOBJ_OTHERS, rb_val_size = 8, rb_compare = rb_word_cmp, rb_val_ctor = None\<rparr>,
     rb_count = 0, rb_min = 0, rb_max = 0, rb_root = 2\<rparr>"

definition rb_node :: "kaddr \<Rightarrow> kaddr \<Rightarrow> kaddr \<Rightarrow> bool \<Rightarrow> kmath_val \<Rightarrow> krb_node" where
  "rb_node p l r c v = \<lparr>rb_parent = p, rb_left = l, rb_right = r, rb_color = c, rb_val = v\<rparr>"

definition rb_demo_heap :: rheap where
  "rb_demo_heap = [2 \<mapsto> rb_node 0 1 3 RB_BLACK 20, 1 \<mapsto> rb_node 2 0 0 RB_RED 10, 3 \<mapsto> rb_node 2 0 0 RB_RED 30]"

abbreviation rb_demo_tree :: "kaddr tree" where
  "rb_demo_tree \<equiv> Node (Node Leaf 1 Leaf) 2 (Node Leaf 3 Leaf)"

lemma rb_word_cmp_lawful: "rb_val_type opts \<ge> KOBJ_NORMAL \<Longrightarrow> rb_compare opts = rb_word_cmp \<Longrightarrow> rb_lawful opts"
  by (auto simp: rb_lawful_def rb_word_cmp_def Let_def split: if_splits)

lemma rb_demo_facts:
  "rtree rb_demo_heap 0 (rb_root rb_demo) rb_demo_tree"
  "rb_lawful (rb_opts rb_demo)"
  "rb_sorted rb_demo rb_demo_heap rb_demo_tree"
  "distinct (inorder rb_demo_tree)"
  by (auto simp: rb_demo_def rb_demo_heap_def rb_node_def rb_sorted_def rb_cmp_def rval_def rb_word_cmp_def
      intro: rb_word_cmp_lawful)

lemma rb_demo_cmp:
  "rb_cmp rb_demo (rval rb_demo_heap 1) k = (if 10 < k then -1 else if k < 10 then 1 else 0)"
  "rb_cmp rb_demo (rval rb_demo_heap 2) k = (if 20 < k then -1 else if k < 20 then 1 else 0)"
  "rb_cmp rb_demo (rval rb_demo_heap 3) k = (if 30 < k then -1 else if k < 30 then 1 else 0)"
  by (simp_all add: rb_cmp_def rb_demo_def rb_demo_heap_def rb_node_def rval_def rb_word_cmp_def)

subsection \<open>Properties\<close>

text \<open>
  C22. On every search tree the search of \<^verbatim>\<open>kylin_rb_find_raw\<close> ends without following a null pointer:
  it returns a node of the tree that compares equal to the key, or null and then no node does.
  \<^verbatim>\<open>kylin_rb_find\<close> returns the value of that node.
\<close>

theorem kylin_rb_find_correct:
  assumes "rtree H 0 (rb_root guard) t" "rb_lawful (rb_opts guard)" "rb_sorted guard H t"
  shows "\<exists>a. kylin_rb_find_raw m guard H k = Some a
    \<and> (if a = 0 then \<forall>b \<in> set (inorder t). rb_cmp guard (rval H b) k \<noteq> 0
       else a \<in> set (inorder t) \<and> rb_cmp guard (rval H a) k = 0)
    \<and> kylin_rb_find m guard H k =
      Some (if a = 0 then None else Some (kmath_val_get a (rval H a) (rb_val_type (rb_opts guard))))"
proof -
  obtain a where a: "rb_search m guard H k (rb_root guard) = Some a"
    "if a = 0 then \<forall>b \<in> set (inorder t). rb_cmp guard (rval H b) k \<noteq> 0
     else a \<in> set (inorder t) \<and> rb_cmp guard (rval H a) k = 0"
    using rb_search_tree [OF assms] by blast
  then have "kylin_rb_find m guard H k =
      Some (if a = 0 then None else Some (kmath_val_get a (rval H a) (rb_val_type (rb_opts guard))))"
    using rtree_heap [OF assms(1), of a]
    by (auto simp: kylin_rb_find_def kylin_rb_val_def rval_def split: if_splits)
  with a show ?thesis by (auto simp: kylin_rb_find_raw_def)
qed

theorem kylin_rb_find_correct_witness:
  "kylin_rb_find_raw (\<lambda>_. None) rb_demo rb_demo_heap 30 = Some 3"
  using kylin_rb_find_correct [OF rb_demo_facts(1-3), of "\<lambda>_. None" 30]
  by (auto simp: rb_demo_cmp split: if_splits)

text \<open>
  Without an exact match \<^verbatim>\<open>kylin_rb_find_or_next_raw\<close> returns the greatest node below the key,
  null when there is none: the node before the key and not, as its name says, the next one.
\<close>

theorem kylin_rb_find_or_next_is_previous:
  assumes "rtree H 0 (rb_root guard) t" "rb_lawful (rb_opts guard)" "rb_sorted guard H t"
    and "\<forall>b \<in> set (inorder t). rb_cmp guard (rval H b) k \<noteq> 0"
  shows "kylin_rb_find_or_next_raw m guard H k = Some (last (0 # filter (\<lambda>b. rb_cmp guard (rval H b) k < 0) (inorder t)))"
  using rb_search_next_tree [OF assms] by (simp add: kylin_rb_find_or_next_raw_def)

theorem kylin_rb_find_or_next_is_previous_witness:
  "kylin_rb_find_or_next_raw (\<lambda>_. None) rb_demo rb_demo_heap 25 = Some 2"
proof -
  have "\<forall>b \<in> set (inorder rb_demo_tree). rb_cmp rb_demo (rval rb_demo_heap b) 25 \<noteq> 0"
    by (simp add: rb_demo_cmp)
  from kylin_rb_find_or_next_is_previous [OF rb_demo_facts(1-3) this]
  show ?thesis by (simp add: rb_demo_cmp)
qed

text \<open>
  C31. \<^verbatim>\<open>kylin_rb_next_raw\<close> and \<^verbatim>\<open>kylin_rb_prev_raw\<close> walk any tree in its in-order sequence: they return
  the node after and the node before, null at the ends, from every node of the tree.
\<close>

theorem kylin_rb_next_prev_in_order:
  assumes "rtree H 0 p t" "distinct (inorder t)" "inorder t = us @ a # vs"
  shows "kylin_rb_next_raw H a = Some (rb_hd (vs @ [0])) \<and> kylin_rb_prev_raw H a = Some (last (0 # us))"
proof -
  have "p \<in> set_tree t" "p \<noteq> 0" using rtree_root_eq [OF assms(1)] assms(3) by (cases t; auto)+
  then obtain n where "H p = Some n" "rb_parent n = 0" using assms(1) by (cases t) auto
  then have "climb_right H p = Some 0" "climb_left H p = Some 0"
    using \<open>p \<noteq> 0\<close> by (subst climb_right.simps climb_left.simps, simp)+
  then show ?thesis using next_raw_tree [OF assms] prev_raw_tree [OF assms] by simp
qed

theorem kylin_rb_next_prev_in_order_witness:
  "kylin_rb_next_raw rb_demo_heap 2 = Some 3 \<and> kylin_rb_prev_raw rb_demo_heap 2 = Some 1"
  using kylin_rb_next_prev_in_order [OF rb_demo_facts(1,4), of "[1]" 2 "[3]"] by (simp add: rb_hd_def)

text \<open>
  C6. A left rotation at any node with a right child, anywhere in a tree, turns exactly that node:
  the tree stays well linked, its in-order sequence, values and colours stay, the root pointer
  follows, nothing outside the tree changes, and the right rotation at the node that came up
  restores the heap and the root.
\<close>

theorem rotate_left_rotate_right:
  assumes "rtree H 0 (rb_root guard) t" "distinct (inorder t)" "right_of x t = Some y"
  shows "\<exists>guard' H'. rotate_left guard x H = Some (guard', H')
    \<and> rtree H' 0 (rb_root guard') (rot_left_at x t) \<and> inorder (rot_left_at x t) = inorder t
    \<and> same_content H H' \<and> (\<forall>a. a \<notin> set_tree t \<longrightarrow> H' a = H a)
    \<and> rotate_right guard' y H' = Some (guard, H)"
proof -
  have n0: "0 \<notin> set_tree t" by (rule rtree_nonzero [OF assms(1)])
  define t' where "t' = rot_left_at x t"
  have io: "inorder t' = inorder t" unfolding t'_def by (rule inorder_rot_left)
  then have st: "set_tree t' = set_tree t" by (metis set_inorder)
  let ?p = "rb_root guard"
  obtain H' where rl: "rotate_left guard x H = Some (if ?p = x then guard\<lparr>rb_root := y\<rparr> else guard, H')"
    and t': "rtree H' 0 (if ?p = x then y else ?p) t'" and sc: "same_content H H'"
    and fr: "\<And>a. a \<notin> set_tree t \<Longrightarrow> H' a = H a"
    using rotl.whole [OF assms TrueI] unfolding rot_step_def t'_def by auto
  let ?g = "if ?p = x then guard\<lparr>rb_root := y\<rparr> else guard"
  have undo: "rot_right_at y t' = t" "left_of y t' = Some x"
    using rot_right_left [OF assms(3,2)] unfolding t'_def by auto
  have "distinct (inorder t')" "0 \<notin> set_tree t'" "(0 :: kaddr) \<noteq> 0 \<longrightarrow> H' 0 \<noteq> None" using assms(2) io n0 st by auto
  from rotr.everywhere [OF t' this(1) undo(2) this(2,3) TrueI, of ?g]
  obtain H'' where rr: "rotate_right ?g y H' = Some (if (if ?p = x then y else ?p) = y then ?g\<lparr>rb_root := x\<rparr> else ?g, H'')"
    and t'': "rtree H'' 0 (if (if ?p = x then y else ?p) = y then x else if ?p = x then y else ?p) t"
    and sc': "same_content H' H''" and fr': "\<And>a. a \<notin> set_tree t \<Longrightarrow> H'' a = H' a"
    unfolding rot_step_def undo(1) st by auto
  have root: "rb_root guard = (if (if ?p = x then y else ?p) = y then x else if ?p = x then y else ?p)"
    using t'' assms(1) by (cases t) auto
  have "H'' a = H a" for a
  proof (cases "a \<in> set_tree t")
    case True
    have "same_content H'' H" using same_content_trans [OF sc sc'] by (rule same_content_sym)
    then show ?thesis using rtree_unique [OF t''[folded root] assms(1) _ True] by simp
  qed (use fr fr' in simp)
  then have "H'' = H" by auto
  moreover have "(if (if ?p = x then y else ?p) = y then ?g\<lparr>rb_root := x\<rparr> else ?g) = guard"
    using root by (cases "?p = x") auto
  ultimately have "rotate_right ?g y H' = Some (guard, H)" using rr by simp
  moreover have "rb_root ?g = (if ?p = x then y else ?p)" by simp
  ultimately show ?thesis using rl t' io sc fr unfolding t'_def by (intro exI [of _ ?g] exI [of _ H']) simp
qed

theorem rotate_left_rotate_right_witness:
  "\<exists>guard' H'. rotate_left rb_demo 2 rb_demo_heap = Some (guard', H')
    \<and> rtree H' 0 (rb_root guard') (Node (Node (Node Leaf 1 Leaf) 2 Leaf) 3 Leaf)
    \<and> rotate_right guard' 3 H' = Some (rb_demo, rb_demo_heap)"
proof -
  have "right_of 2 rb_demo_tree = Some 3" "rot_left_at 2 rb_demo_tree = Node (Node (Node Leaf 1 Leaf) 2 Leaf) 3 Leaf"
    by simp_all
  then show ?thesis using rotate_left_rotate_right [OF rb_demo_facts(1,4)] by metis
qed

text \<open>The only state the insertions of the library reach: no root, or a black root without children.\<close>

definition rb_single :: "krb \<Rightarrow> rheap \<Rightarrow> bool" where
  "rb_single guard H \<longleftrightarrow> rb_root guard = 0 \<or>
     (\<exists>n. H (rb_root guard) = Some n \<and> rb_left n = 0 \<and> rb_right n = 0 \<and> rb_color n = RB_BLACK)"

text \<open>
  C37. After the descent \<^verbatim>\<open>tmp\<close> is always null, so \<^verbatim>\<open>kylin_rb_insert_raw\<close> never links the new node below
  its parent: it makes it the root, black and without children. This state is kept by every
  insertion, and the previous root, whose value differs, can no longer be found.
\<close>

theorem kylin_rb_insert_forgets:
  assumes "rb_single guard H" "H node = Some n" "node \<noteq> 0" "node \<noteq> rb_root guard" "rb_lawful (rb_opts guard)"
    and "rb_root guard \<noteq> 0 \<Longrightarrow> rb_cmp guard (rb_val n) (rval H (rb_root guard)) \<noteq> 0"
  shows "\<exists>guard' H'. kylin_rb_insert_raw guard H node = Some (guard', H')
    \<and> rb_root guard' = node \<and> rb_single guard' H'
    \<and> (\<forall>k. rb_cmp guard (rb_val n) k \<noteq> 0 \<longrightarrow> kylin_rb_find_raw m guard' H' k = Some 0)"
proof -
  let ?r = "rb_root guard"
  let ?n = "n\<lparr>rb_parent := ?r, rb_right := 0, rb_left := 0, rb_color := RB_BLACK\<rparr>"
  obtain result where d: "rb_descend guard H node ?r 0 0 = Some (Some (0, ?r, result))"
  proof (cases "?r = 0")
    case True
    then show thesis using that by (subst (asm) rb_descend.simps) simp
  next
    case False
    then obtain rn where rn: "H ?r = Some rn" "rb_left rn = 0" "rb_right rn = 0"
      using assms(1) by (auto simp: rb_single_def)
    let ?c = "rb_cmp guard (rb_val n) (rb_val rn)"
    have "kmath_val_cmp (rb_compare (rb_opts guard)) (rb_val_type (rb_opts guard)) (rb_val n) (rb_val rn) = ?c"
      using assms(5) by (auto simp: rb_lawful_def kmath_val_cmp_def rb_cmp_def)
    moreover have "?c \<noteq> 0" using assms(6) False rn(1) by (simp add: rval_def)
    ultimately have "rb_descend guard H node ?r 0 0 = Some (Some (0, ?r, ?c))"
      using False rn assms(2,3) by (subst rb_descend.simps) (simp add: Let_def rb_descend.simps [of guard H node 0])
    then show thesis by (rule that)
  qed
  let ?g = "guard\<lparr>rb_root := node\<rparr>" and ?H = "H(node \<mapsto> ?n)"
  have red: "is_black ?r (H(node \<mapsto> ?n\<lparr>rb_color := RB_RED\<rparr>)) = Some True"
    using assms(1,4) by (auto simp: is_black_def rb_single_def rget_def)
  have "kylin_rb_insert_raw guard H node = Some (?g, ?H)"
    using d assms(2-4) red
    by (simp add: kylin_rb_insert_raw_def rb_attach_def set_parent_def set_left_def set_right_def set_color_def rset_def
        insert_color.simps [of ?g node])
  moreover have "rb_single ?g ?H" by (simp add: rb_single_def)
  moreover have "kylin_rb_find_raw m ?g ?H k = Some 0" if "rb_cmp guard (rb_val n) k \<noteq> 0" for k
  proof -
    have "kmath_val_cmp_raw m (rb_compare (rb_opts guard)) (rb_val_type (rb_opts guard)) (rb_val n) k = Some (rb_cmp guard (rb_val n) k)"
      by (rule rb_lawful_raw [OF assms(5)])
    then show ?thesis using that assms(3) unfolding kylin_rb_find_raw_def
      by (subst rb_search.simps) (simp add: rb_search.simps [of m ?g ?H k 0])
  qed
  ultimately show ?thesis by (intro exI [of _ ?g] exI [of _ ?H]) simp
qed

theorem kylin_rb_insert_forgets_witness:
  "\<exists>guard' H'. kylin_rb_insert_raw (rb_demo\<lparr>rb_root := 1\<rparr>) (rb_demo_heap(1 \<mapsto> rb_node 0 0 0 RB_BLACK 10)) 3 = Some (guard', H')
    \<and> rb_root guard' = 3 \<and> kylin_rb_find_raw (\<lambda>_. None) guard' H' 10 = Some 0"
proof -
  let ?g = "rb_demo\<lparr>rb_root := 1\<rparr>" and ?H = "rb_demo_heap(1 \<mapsto> rb_node 0 0 0 RB_BLACK 10)"
  have "rb_single ?g ?H" by (simp add: rb_single_def rb_node_def)
  moreover have "?H 3 = Some (rb_node 2 0 0 RB_RED 30)" by (simp add: rb_demo_heap_def)
  moreover have "rb_lawful (rb_opts ?g)" using rb_demo_facts(2) by simp
  moreover have c: "rb_cmp ?g (rb_val (rb_node 2 0 0 RB_RED 30)) k = (if 30 < k then -1 else if k < 30 then 1 else 0)" for k
    by (simp add: rb_cmp_def rb_demo_def rb_word_cmp_def rb_node_def)
  moreover have "rval ?H (rb_root ?g) = 10" by (simp add: rval_def rb_node_def)
  ultimately show ?thesis
    using kylin_rb_insert_forgets [of ?g ?H 3 "rb_node 2 0 0 RB_RED 30" "\<lambda>_. None"]
    by (auto split: if_splits dest: spec [of _ 10])
qed

text \<open>
  \<^verbatim>\<open>kylin_rb_destroy\<close> on what \<^verbatim>\<open>kylin_rb_create\<close> returns dereferences a null pointer for every value
  type but the integers, whatever was inserted: the minimum is never set. Memory is never released.
\<close>

theorem kylin_rb_destroy_null:
  assumes "kylin_rb_create True opts = Some guard" "\<not> kobj_is_int (rb_val_type opts)"
  shows "kylin_rb_destroy m (guard\<lparr>rb_root := r\<rparr>) H rels = None"
  using assms by (subst kylin_rb_destroy.simps) (auto simp: kylin_rb_create_def kylin_rb_min_def)

theorem kylin_rb_destroy_null_witness:
  "kylin_rb_destroy (\<lambda>_. None) (rb_demo\<lparr>rb_root := 2\<rparr>) rb_demo_heap [] = None"
  using kylin_rb_destroy_null [of "rb_opts rb_demo" "rb_demo\<lparr>rb_root := 0\<rparr>" "\<lambda>_. None" 2 rb_demo_heap "[]"]
  by (simp add: kylin_rb_create_def rb_demo_def kobj_is_int_def)

text \<open>
  Removing a node with two children loses its left subtree: the successor takes the place of
  the node as root but not its children. After the removal from a root whose right child is a
  red leaf the new root has no child at all, and the left subtree hangs nowhere.
\<close>

theorem kylin_rb_unlink_loses_left:
  assumes "rtree H 0 (rb_root guard) (Node l x (Node Leaf y Leaf))" "l \<noteq> Leaf"
    and "distinct (inorder (Node l x (Node Leaf y Leaf)))" "rget rb_color H y = Some RB_RED"
  shows "\<exists>guard' H'. kylin_rb_unlink_raw guard H x = Some (x, guard', H') \<and> rb_root guard' = y
    \<and> rget rb_left H' y = Some 0 \<and> rget rb_right H' y = Some 0"
proof -
  obtain xn yn where xn: "H x = Some xn" "x \<noteq> 0" "rb_parent xn = 0" "rb_right xn = y" "rtree H x (rb_left xn) l"
    and yn: "H y = Some yn" "y \<noteq> 0" "rb_parent yn = x" "rb_left yn = 0" "rb_right yn = 0"
    using assms(1) by auto
  have dx: "x \<noteq> y" "x \<notin> set_tree l" "y \<notin> set_tree l" using assms(3) by auto
  have rl: "rb_left xn \<noteq> 0" "rb_left xn \<in> set_tree l" using rtree_root_eq [OF xn(5) assms(2)] by auto
  then obtain ln where ln: "H (rb_left xn) = Some ln" using rtree_heap [OF xn(5)] by blast
  have ne: "rb_left xn \<noteq> x" "rb_left xn \<noteq> y" using rl(2) dx by auto
  have "leftmost H y = Some y" using yn by (subst leftmost.simps) simp
  moreover have "rb_color yn" using assms(4) yn by simp
  ultimately show ?thesis using xn yn rl(1) ln ne dx(1)
    by (simp add: kylin_rb_unlink_raw_def replace_child_some replace_child_root relink_def set_parent_def rset_def)
qed

theorem kylin_rb_unlink_loses_left_witness:
  "\<exists>guard' H'. kylin_rb_unlink_raw rb_demo rb_demo_heap 2 = Some (2, guard', H') \<and> rb_root guard' = 3
    \<and> rget rb_left H' 3 = Some 0 \<and> rget rb_right H' 3 = Some 0"
  by (rule kylin_rb_unlink_loses_left [OF rb_demo_facts(1) _ rb_demo_facts(4)])
     (simp_all add: rget_def rb_demo_heap_def rb_node_def)

text \<open>
  C4. The repair \<^verbatim>\<open>_insert_color\<close> is right on every red-black tree: when a red node hangs in the place of a leaf
  of a tree with a black root, no red node with a red child and one black height, the loop ends, and
  the tree it leaves is such a tree again, with the same in-order sequence and values, nothing
  outside it changed, and a height of at most twice the logarithm of its size.
\<close>

theorem insert_color_repairs:
  assumes "rtree H 0 (rb_root guard) (plug fs (Node Leaf z Leaf))" "distinct (inorder (plug fs (Node Leaf z Leaf)))"
    and "rcol H z" "invc (rcol H) (plug fs Leaf)" "invh (rcol H) (plug fs Leaf)" "\<not> red_root (rcol H) (plug fs Leaf)"
  shows "\<exists>guard' H' t'. insert_color guard z H = Some (guard', H') \<and> rb_valid guard' H' t'
    \<and> inorder t' = inorder (plug fs (Node Leaf z Leaf)) \<and> rb_same_vals H H'
    \<and> (\<forall>a. a \<notin> set_tree t' \<longrightarrow> H' a = H a) \<and> 2 ^ height t' \<le> (size1 t')\<^sup>2"
proof -
  let ?t = "plug fs (Node Leaf z Leaf)"
  have "rb_at guard H fs (Node Leaf z Leaf)" using assms(1,2) by (simp add: rb_at_def)
  from insert_color_at [OF this red_leaf_at [OF assms(2-6)]]
  obtain guard' H' t' where s: "insert_color guard z H = Some (guard', H')" "rb_valid guard' H' t'"
    "inorder t' = inorder ?t" "rb_kept (set_tree ?t) (guard, H) (guard', H')"
    by (auto simp: repaired_def)
  moreover have "set_tree t' = set_tree ?t" using s(3) by (metis set_inorder)
  ultimately show ?thesis using rb_valid_balanced [OF s(2)] by (auto simp: rb_kept_def)
qed

theorem insert_color_repairs_witness:
  "\<exists>guard' H' t'. insert_color rb_demo 4
      (rb_demo_heap(3 \<mapsto> rb_node 2 0 4 RB_RED 30, 4 \<mapsto> rb_node 3 0 0 RB_RED 40)) = Some (guard', H')
    \<and> rb_valid guard' H' t' \<and> inorder t' = [1, 2, 3, 4]"
proof -
  let ?H = "rb_demo_heap(3 \<mapsto> rb_node 2 0 4 RB_RED 30, 4 \<mapsto> rb_node 3 0 0 RB_RED 40)"
  let ?fs = "[InRight Leaf 3, InRight (Node Leaf 1 Leaf) 2]"
  have "rtree ?H 0 (rb_root rb_demo) (plug ?fs (Node Leaf 4 Leaf))"
    by (simp add: rb_demo_def rb_demo_heap_def rb_node_def)
  moreover have "rcol ?H 4" "invc (rcol ?H) (plug ?fs Leaf)" "invh (rcol ?H) (plug ?fs Leaf)"
      "\<not> red_root (rcol ?H) (plug ?fs Leaf)" "distinct (inorder (plug ?fs (Node Leaf 4 Leaf)))"
    by (simp_all add: rcol_def rb_demo_heap_def rb_node_def)
  ultimately show ?thesis using insert_color_repairs [of ?H rb_demo ?fs 4] by auto
qed

text \<open>
  \<^verbatim>\<open>kylin_rb_unlink_raw\<close> of a red node with at most one child, anywhere in a tree, removes exactly
  that node: the tree stays well linked, its in-order sequence loses that node only, and values
  and colours stay.
\<close>

theorem kylin_rb_unlink_red:
  assumes "rtree H 0 (rb_root guard) t" "distinct (inorder t)" "child_of x t = Some y" "rget rb_color H x = Some RB_RED"
  shows "\<exists>old guard' H'. kylin_rb_unlink_raw guard H x = Some (old, guard', H')
    \<and> rtree H' 0 (rb_root guard') (del_at x t) \<and> inorder (del_at x t) = remove1 x (inorder t) \<and> same_content H H'"
proof -
  let ?p = "rb_root guard"
  obtain H' where H': "unlink_step guard x H = Some (if ?p = x then guard\<lparr>rb_root := y\<rparr> else guard, H')"
    "rtree H' 0 (if ?p = x then y else ?p) (del_at x t)" "same_content H H'"
    using unl.whole [OF assms] unfolding rot_step_def by auto
  let ?g = "if ?p = x then guard\<lparr>rb_root := y\<rparr> else guard"
  obtain old where "kylin_rb_unlink_raw guard H x = Some (old, ?g, H')"
    using H'(1) by (auto simp: unlink_step_def)
  moreover have "rtree H' 0 (rb_root ?g) (del_at x t)" using H'(2) by (simp split: if_splits)
  ultimately show ?thesis using H'(3) inorder_del_at [OF assms(3,2)] by blast
qed

theorem kylin_rb_unlink_red_witness:
  "\<exists>old guard' H'. kylin_rb_unlink_raw rb_demo rb_demo_heap 3 = Some (old, guard', H')
    \<and> rtree H' 0 (rb_root guard') (Node (Node Leaf 1 Leaf) 2 Leaf)"
proof -
  have "child_of 3 rb_demo_tree = Some 0" "rget rb_color rb_demo_heap 3 = Some RB_RED"
    by (simp_all add: rget_def rb_demo_heap_def rb_node_def)
  moreover have "del_at 3 rb_demo_tree = Node (Node Leaf 1 Leaf) 2 Leaf" by simp
  ultimately show ?thesis using kylin_rb_unlink_red [OF rb_demo_facts(1,4), of 3 0] by (simp only:) blast
qed

end
