(* ===== verification/Kylin_Rb_Guard.thy ===== *)
theory Kylin_Rb_Guard
  imports Kylin_Rb_Correct
begin

section \<open>Red-black trees: the fields of the guard\<close>

text \<open>
  The operations of the tree assign no field of the guard but the root. \<open>guard_rest\<close> is the guard
  without the root, \<open>keeps q c r\<close> says that the guard \<open>q\<close> finds in the result \<open>r\<close>, if there is one, has
  the rest \<open>c\<close>, and the rules carry this through the monadic definitions.
\<close>

definition guard_rest :: "krb \<Rightarrow> krb" where
  "guard_rest g = g\<lparr>rb_root := 0\<rparr>"

lemma guard_rest_root [simp]: "guard_rest (g\<lparr>rb_root := p\<rparr>) = guard_rest g"
  by (simp add: guard_rest_def)

lemma guard_rest_fields:
  assumes "guard_rest g = guard_rest h"
  shows "rb_opts g = rb_opts h" "rb_count g = rb_count h" "rb_min g = rb_min h" "rb_max g = rb_max h"
  using assms by (cases g; cases h; simp add: guard_rest_def)+

definition keeps :: "('b \<Rightarrow> krb) \<Rightarrow> krb \<Rightarrow> 'b option \<Rightarrow> bool" where
  "keeps q c r \<longleftrightarrow> (\<forall>x. r = Some x \<longrightarrow> guard_rest (q x) = c)"

named_theorems guard_rules \<open>introduction rules for the rest of the guard\<close>

lemma keeps_some [guard_rules]: "guard_rest (q x) = c \<Longrightarrow> keeps q c (Some x)"
  by (simp add: keeps_def)

lemma keeps_bind [guard_rules]:
  "keeps fst c m \<Longrightarrow> (\<And>x. guard_rest (fst x) = c \<Longrightarrow> keeps q c (f x)) \<Longrightarrow> keeps q c (Option.bind m f)"
  unfolding keeps_def bind_eq_Some_conv by blast

lemma keeps_bind_other [guard_rules]:
  "(\<And>x :: kaddr. keeps q c (f x)) \<Longrightarrow> keeps q c (Option.bind m f)"
  "(\<And>x :: bool. keeps q c (g x)) \<Longrightarrow> keeps q c (Option.bind n g)"
  "(\<And>x :: rheap. keeps q c (h x)) \<Longrightarrow> keeps q c (Option.bind p h)"
  unfolding keeps_def bind_eq_Some_conv by blast+

lemma keeps_if [guard_rules]: "keeps q c x \<Longrightarrow> keeps q c y \<Longrightarrow> keeps q c (if b then x else y)"
  by simp

lemma keeps_prod [guard_rules]: "(\<And>a b. x = (a, b) \<Longrightarrow> keeps q c (f a b)) \<Longrightarrow> keeps q c (case_prod f x)"
  by (cases x) simp

lemma keeps_option [guard_rules]:
  "keeps q c f \<Longrightarrow> (\<And>a. keeps q c (g a)) \<Longrightarrow> keeps q c (case_option f g x)"
  by (cases x) simp_all

lemma keeps_let [guard_rules]: "(\<And>y. keeps q c (f y)) \<Longrightarrow> keeps q c (Let x f)"
  by simp

lemma keepsD: "keeps q c r \<Longrightarrow> r = Some x \<Longrightarrow> guard_rest (q x) = c"
  by (simp add: keeps_def)

lemma replace_child_keeps [guard_rules]: "guard_rest g = c \<Longrightarrow> keeps fst c (replace_child g p old new H)"
  unfolding replace_child_def by (intro guard_rules) simp_all

lemma rotate_keeps [guard_rules]:
  "guard_rest g = c \<Longrightarrow> keeps fst c (rotate_left g x H)" "guard_rest g = c \<Longrightarrow> keeps fst c (rotate_right g x H)"
  unfolding rotate_left_def rotate_right_def by (intro guard_rules; simp)+

lemma insert_color_keeps [guard_rules]:
  assumes "guard_rest g = c"
  shows "keeps fst c (insert_color g x H)"
proof -
  have "guard_rest (fst s) = guard_rest g" if "insert_color g x H = Some s" for s
  proof (rule insert_color.raw_induct [OF _ that, where P = "\<lambda>g x H s. guard_rest (fst s) = guard_rest g"], goal_cases)
    case (1 f g x H s)
    have f: "guard_rest g' = c \<Longrightarrow> keeps fst c (f g' x' H')" for c g' x' H'
      using 1(1) by (auto simp: keeps_def)
    have "keeps fst (guard_rest g) (Some s)" unfolding 1(2) [symmetric] by (intro guard_rules f; simp)
    then show ?case by (simp add: keeps_def)
  qed
  then show ?thesis using assms by (simp add: keeps_def)
qed

lemma remove_color_step_keeps [guard_rules]:
  "guard_rest g = c \<Longrightarrow> keeps fst c (remove_color_left g p H)"
  "guard_rest g = c \<Longrightarrow> keeps fst c (remove_color_right g p H)"
  unfolding remove_color_left_def remove_color_right_def by (intro guard_rules; simp)+

lemma remove_color_keeps [guard_rules]:
  assumes "guard_rest g = c"
  shows "keeps fst c (remove_color g p x H)"
proof -
  have "guard_rest (fst s) = guard_rest g" if "remove_color g p x H = Some s" for s
  proof (rule remove_color.raw_induct [OF _ that, where P = "\<lambda>g p x H s. guard_rest (fst s) = guard_rest g"], goal_cases)
    case (1 f g p x H s)
    have f: "guard_rest g' = c \<Longrightarrow> keeps fst c (f g' p' x' H')" for c g' p' x' H'
      using 1(1) by (auto simp: keeps_def)
    have "keeps fst (guard_rest g) (Some s)" unfolding 1(2) [symmetric] by (intro guard_rules f; simp)
    then show ?case by (simp add: keeps_def)
  qed
  then show ?thesis using assms by (simp add: keeps_def)
qed

lemma rb_attach_keeps [guard_rules]: "guard_rest g = c \<Longrightarrow> keeps fst c (rb_attach g x pl H)"
  unfolding rb_attach_def by (cases pl) (simp, intro guard_rules; simp)

lemma kylin_rb_unlink_raw_keeps: "keeps (\<lambda>(x, g', H'). g') (guard_rest g) (kylin_rb_unlink_raw g H old)"
  unfolding kylin_rb_unlink_raw_def by (intro guard_rules; simp)

lemma kylin_rb_unlink_rest:
  assumes "kylin_rb_unlink m g H cmp = Some (r, g', H')"
  shows "guard_rest g' = guard_rest g"
  using assms keepsD [OF kylin_rb_unlink_raw_keeps]
  by (fastforce simp: kylin_rb_unlink_def bind_eq_Some_conv split: if_splits)

lemma kylin_rb_remove_rest:
  assumes "kylin_rb_remove m g H cmp = Some (g', H', rels)"
  shows "guard_rest g' = guard_rest g"
  using assms keepsD [OF kylin_rb_unlink_raw_keeps]
  by (fastforce simp: kylin_rb_remove_def kylin_rb_remove_raw_def bind_eq_Some_conv split: if_splits)

lemma kylin_rb_insert_rest:
  assumes "kylin_rb_insert m g H x elm = Some (r, g', H', rels, m')"
  shows "guard_rest g' = guard_rest g"
  using assms keepsD [OF rb_attach_keeps [OF refl]]
  by (fastforce simp: kylin_rb_insert_def Let_def bind_eq_Some_conv split: if_splits option.splits)

subsection \<open>Sequences of operations\<close>

text \<open>One call of an operation that changes a tree, on the guard and the heap.\<close>

inductive rb_step :: "krb \<times> rheap \<Rightarrow> krb \<times> rheap \<Rightarrow> bool" where
  insert: "kylin_rb_insert m g H x elm = Some (r, g', H', rels, m') \<Longrightarrow> rb_step (g, H) (g', H')"
| insert_raw: "kylin_rb_insert_raw g H x = Some (g', H') \<Longrightarrow> rb_step (g, H) (g', H')"
| remove: "kylin_rb_remove m g H cmp = Some (g', H', rels) \<Longrightarrow> rb_step (g, H) (g', H')"
| remove_raw: "kylin_rb_remove_raw g H x = Some (g', H', rels) \<Longrightarrow> rb_step (g, H) (g', H')"
| unlink: "kylin_rb_unlink m g H cmp = Some (r, g', H') \<Longrightarrow> rb_step (g, H) (g', H')"
| unlink_raw: "kylin_rb_unlink_raw g H x = Some (y, g', H') \<Longrightarrow> rb_step (g, H) (g', H')"

lemma kylin_rb_raw_rest:
  "kylin_rb_unlink_raw g H x = Some (y, g', H') \<Longrightarrow> guard_rest g' = guard_rest g"
  "kylin_rb_remove_raw g H x = Some (g', H', rels) \<Longrightarrow> guard_rest g' = guard_rest g"
  "kylin_rb_insert_raw g H x = Some (g', H') \<Longrightarrow> guard_rest g' = guard_rest g"
  using keepsD [OF kylin_rb_unlink_raw_keeps] keepsD [OF rb_attach_keeps [OF refl]]
  by (fastforce simp: kylin_rb_remove_raw_def kylin_rb_insert_raw_def bind_eq_Some_conv split: option.splits)+

lemma rb_step_rest: "rb_step s s' \<Longrightarrow> guard_rest (fst s') = guard_rest (fst s)"
  by (induction rule: rb_step.induct)
    (simp_all add: kylin_rb_insert_rest kylin_rb_remove_rest kylin_rb_unlink_rest kylin_rb_raw_rest)

lemma rb_steps_rest: "rb_step\<^sup>*\<^sup>* s s' \<Longrightarrow> guard_rest (fst s') = guard_rest (fst s)"
  by (induction rule: rtranclp_induct) (simp_all add: rb_step_rest)

text \<open>
  C38. After any sequence of operations on a tree that was just created, the number of elements
  the tree reports is 0 and its minimum and maximum are the null pointer, whatever was inserted:
  no operation assigns these fields. The options of the tree are those given to create.
\<close>

theorem kylin_rb_fields_never_set:
  assumes "kylin_rb_create ok opts = Some g" "rb_step\<^sup>*\<^sup>* (g, H) (g', H')"
  shows "kylin_rb_count g' = 0 \<and> kylin_rb_min g' = 0 \<and> kylin_rb_max g' = 0 \<and> rb_opts g' = opts"
proof -
  have "guard_rest g' = guard_rest g" using rb_steps_rest [OF assms(2)] by simp
  then show ?thesis using assms(1) guard_rest_fields [of g' g]
    by (auto simp: kylin_rb_create_def kylin_rb_count_def kylin_rb_min_def kylin_rb_max_def split: if_splits)
qed

abbreviation rb_empty_demo :: krb where "rb_empty_demo \<equiv> rb_demo\<lparr>rb_root := 0\<rparr>"

lemma rb_empty_demo_insert:
  "\<exists>g H. rb_step (rb_empty_demo, Map.empty) (g, H) \<and> rb_root g = 7 \<and> rb_opts g = rb_opts rb_demo"
proof -
  obtain r g H rels m where "kylin_rb_insert Map.empty rb_empty_demo Map.empty 7 42 = Some (r, g, H, rels, m)"
      "rb_root g = 7" "rb_opts g = rb_opts rb_demo"
    by (simp add: kylin_rb_insert_def kmath_val_ctor_def rb_demo_def rb_descend.simps rb_attach_def
        insert_color.simps set_parent_def set_left_def set_right_def set_color_def rset_def rget_def
        is_black_def kylin_rb_val_def)
  then show ?thesis by (blast intro: rb_step.insert)
qed

theorem kylin_rb_fields_never_set_witness:
  "\<exists>g H. rb_root g = 7 \<and> rb_step (rb_empty_demo, Map.empty) (g, H) \<and> kylin_rb_count g = 0"
proof -
  obtain g H where s: "rb_step (rb_empty_demo, Map.empty) (g, H)" "rb_root g = 7"
    using rb_empty_demo_insert by blast
  have "kylin_rb_create True (rb_opts rb_demo) = Some rb_empty_demo" "rb_step\<^sup>*\<^sup>* (rb_empty_demo, Map.empty) (g, H)"
    using s(1) by (simp_all add: kylin_rb_create_def rb_demo_def)
  then have "kylin_rb_count g = 0"
    using kylin_rb_fields_never_set by blast
  with s show ?thesis by blast
qed

end
