(* ===== verification/Kylin_Objtree.thy ===== *)
theory Kylin_Objtree
  imports Kylin_Rb_Guard
begin

section \<open>Trees of objects\<close>

text \<open>
  How the log, the threads and the Unix sockets use the red-black tree: the values are pointers to structures of
  the client, compared by a field of them. The structures that are alive are a store \<open>S\<close>; comparing with
  one that was released is undefined.
\<close>

definition key_compare :: "('x \<Rightarrow> 'k :: linorder) \<Rightarrow> (kaddr \<Rightarrow> 'x option) \<Rightarrow> kmath_val \<Rightarrow> kaddr \<Rightarrow> int" where
  "key_compare key S v1 v2 = (case (S v1, S v2) of
       (Some a, Some b) \<Rightarrow> if key a > key b then 1 else if key a < key b then -1 else 0
     | _ \<Rightarrow> 1)"

definition obj_tree_opts :: "('x \<Rightarrow> 'k :: linorder) \<Rightarrow> ksize \<Rightarrow> (kaddr \<Rightarrow> 'x option) \<Rightarrow> krb_opts" where
  "obj_tree_opts key sz S = \<lparr>rb_val_type = KOBJ_OTHERS, rb_val_size = sz,
     rb_compare = \<lparr>kc_cmp = key_compare key S, kc_dgt = (>), kc_sdgt = (>)\<rparr>, rb_val_ctor = None\<rparr>"

text \<open>The objects a search compares with are alive: \<open>d\<close> is the result of comparing with the key that is searched for.\<close>

partial_function (option) path_alive :: "(kaddr \<Rightarrow> 'x option) \<Rightarrow> (kmath_val \<Rightarrow> int) \<Rightarrow> rheap \<Rightarrow> kaddr \<Rightarrow> unit option" where
  "path_alive S d H p =
     (if p = 0 then Some ()
      else do {
        v \<leftarrow> rget rb_val H p;
        _ \<leftarrow> S v;
        if d v < 0 then do { l \<leftarrow> rget rb_left H p; path_alive S d H l }
        else if d v > 0 then do { r \<leftarrow> rget rb_right H p; path_alive S d H r }
        else Some () })"

declare path_alive.simps [code]

text \<open>The operations of the tree on objects; the first result of an insertion is whether it returned a value.\<close>

definition tree_insert :: "('x \<Rightarrow> 'k :: linorder) \<Rightarrow> ksize \<Rightarrow> (kaddr \<Rightarrow> 'x option) \<Rightarrow> krb \<Rightarrow> rheap \<Rightarrow> kaddr \<Rightarrow> kaddr \<Rightarrow> (bool \<times> krb \<times> rheap \<times> (kaddr \<Rightarrow> 'x option)) option" where
  "tree_insert key sz S g H node obj = do {
     _ \<leftarrow> (if node = 0 then Some () else path_alive S (key_compare key S obj) H (rb_root g));
     (res, g, H, rels, _) \<leftarrow> kylin_rb_insert Map.empty (g\<lparr>rb_opts := obj_tree_opts key sz S\<rparr>) H node obj;
     Some (res \<noteq> None, g, H, release_objs rels S) }"

definition tree_find :: "('x \<Rightarrow> 'k :: linorder) \<Rightarrow> ksize \<Rightarrow> (kaddr \<Rightarrow> 'x option) \<Rightarrow> krb \<Rightarrow> rheap \<Rightarrow> kaddr \<Rightarrow> kaddr option" where
  "tree_find key sz S g H cmp = do {
     _ \<leftarrow> path_alive S (key_compare key S cmp) H (rb_root g);
     r \<leftarrow> kylin_rb_find Map.empty (g\<lparr>rb_opts := obj_tree_opts key sz S\<rparr>) H cmp;
     Some (case r of Some (Obj p) \<Rightarrow> p | _ \<Rightarrow> 0) }"

definition tree_remove :: "('x \<Rightarrow> 'k :: linorder) \<Rightarrow> ksize \<Rightarrow> (kaddr \<Rightarrow> 'x option) \<Rightarrow> krb \<Rightarrow> rheap \<Rightarrow> kaddr \<Rightarrow> (krb \<times> rheap \<times> (kaddr \<Rightarrow> 'x option)) option" where
  "tree_remove key sz S g H cmp = do {
     _ \<leftarrow> path_alive S (key_compare key S cmp) H (rb_root g);
     (g, H, rels) \<leftarrow> kylin_rb_remove Map.empty (g\<lparr>rb_opts := obj_tree_opts key sz S\<rparr>) H cmp;
     Some (g, H, release_objs rels S) }"

definition tree_unlink :: "('x \<Rightarrow> 'k :: linorder) \<Rightarrow> ksize \<Rightarrow> (kaddr \<Rightarrow> 'x option) \<Rightarrow> krb \<Rightarrow> rheap \<Rightarrow> kaddr \<Rightarrow> (kaddr \<times> krb \<times> rheap) option" where
  "tree_unlink key sz S g H cmp = do {
     _ \<leftarrow> path_alive S (key_compare key S cmp) H (rb_root g);
     (r, g, H) \<leftarrow> kylin_rb_unlink Map.empty (g\<lparr>rb_opts := obj_tree_opts key sz S\<rparr>) H cmp;
     Some (case r of Some (Obj p) \<Rightarrow> p | _ \<Rightarrow> 0, g, H) }"

definition tree_next :: "('x \<Rightarrow> 'k :: linorder) \<Rightarrow> ksize \<Rightarrow> (kaddr \<Rightarrow> 'x option) \<Rightarrow> krb \<Rightarrow> rheap \<Rightarrow> kaddr \<Rightarrow> kaddr option" where
  "tree_next key sz S g H cmp = do {
     _ \<leftarrow> path_alive S (key_compare key S cmp) H (rb_root g);
     r \<leftarrow> kylin_rb_next Map.empty (g\<lparr>rb_opts := obj_tree_opts key sz S\<rparr>) H cmp;
     Some (case r of Some (Obj p) \<Rightarrow> p | _ \<Rightarrow> 0) }"

definition tree_destroy :: "('x \<Rightarrow> 'k :: linorder) \<Rightarrow> ksize \<Rightarrow> (kaddr \<Rightarrow> 'x option) \<Rightarrow> krb \<Rightarrow> rheap \<Rightarrow> (rheap \<times> (kaddr \<Rightarrow> 'x option)) option" where
  "tree_destroy key sz S g H = do {
     (H, rels) \<leftarrow> kylin_rb_destroy Map.empty (g\<lparr>rb_opts := obj_tree_opts key sz S\<rparr>) H [];
     Some (H, release_objs rels S) }"

subsection \<open>A tree with at most one node\<close>

lemma kylin_rb_insert_first:
  assumes "node \<noteq> 0" "rb_root g = 0" "rb_val_type (rb_opts g) = KOBJ_OTHERS" "rb_val_ctor (rb_opts g) = None"
  shows "kylin_rb_insert m g H node t = Some (Some (Obj t), g\<lparr>rb_root := node\<rparr>, H(node \<mapsto> rb_node 0 0 0 RB_BLACK t), [], m)"
  using assms by (simp add: kylin_rb_insert_def kmath_val_ctor_def rb_descend.simps rb_attach_def insert_color.simps rb_node_def
      set_parent_def set_left_def set_right_def set_color_def rset_def rget_def is_black_def kylin_rb_val_def kmath_val_get_def kobj_is_int_def)

lemma kylin_rb_unlink_sole:
  assumes "node \<noteq> 0" "rb_root g = node" "H node = Some (rb_node 0 0 0 RB_BLACK t)" "rb_val_type (rb_opts g) = KOBJ_OTHERS"
    "kc_cmp (rb_compare (rb_opts g)) t cmp = 0"
  shows "kylin_rb_unlink m g H cmp = Some (Some (Obj t), g\<lparr>rb_root := 0\<rparr>, H(node := None))"
  using assms by (simp add: kylin_rb_unlink_def kylin_rb_find_raw_def rb_search.simps rget_def rb_node_def kmath_val_cmp_raw_def
      kylin_rb_unlink_raw_def replace_child_def remove_color.simps is_black_def kylin_rb_val_def kmath_val_get_def kobj_is_int_def)

lemma key_compare_self: "S a = Some x \<Longrightarrow> key_compare key S a a = 0"
  by (simp add: key_compare_def)

lemma release_objs_sub: "release_objs rels S \<subseteq>\<^sub>m S"
proof (induction rels S rule: release_objs.induct)
  case (2 t rs S)
  have "S(t := None) \<subseteq>\<^sub>m S" by (auto simp: map_le_def)
  then show ?case unfolding release_objs.simps using 2 map_le_trans by blast
qed auto

text \<open>Into an empty tree an object is inserted as the root.\<close>

lemma tree_insert_first:
  assumes "node \<noteq> 0" "rb_root g = 0"
  shows "tree_insert key sz S g H node obj = Some (True, g\<lparr>rb_opts := obj_tree_opts key sz S, rb_root := node\<rparr>, H(node \<mapsto> rb_node 0 0 0 RB_BLACK obj), S)"
  using assms by (simp add: tree_insert_def path_alive.simps kylin_rb_insert_first obj_tree_opts_def)

lemma tree_insert_no_memory: "tree_insert key sz S g H 0 obj = Some (False, g\<lparr>rb_opts := obj_tree_opts key sz S\<rparr>, H, S)"
  by (simp add: tree_insert_def kylin_rb_insert_def)

text \<open>The object at the root decides whether an operation is defined.\<close>

definition root_obj :: "krb \<Rightarrow> rheap \<Rightarrow> kaddr \<Rightarrow> bool" where
  "root_obj g H obj \<longleftrightarrow> rb_root g \<noteq> 0 \<and> map_option rb_val (H (rb_root g)) = Some obj"

lemma path_alive_dead:
  assumes "root_obj g H obj" "S obj = None"
  shows "path_alive S d H (rb_root g) = None"
  using assms by (subst path_alive.simps) (auto simp: root_obj_def rget_def)

lemma tree_dead:
  assumes "root_obj g H obj" "S obj = None"
  shows "tree_find key sz S g H cmp = None" "tree_remove key sz S g H cmp = None" "tree_unlink key sz S g H cmp = None"
    "node \<noteq> 0 \<Longrightarrow> tree_insert key sz S g H node new = None"
  using path_alive_dead [of g H obj S] assms by (simp_all add: tree_find_def tree_remove_def tree_unlink_def tree_insert_def)

lemma tree_find_empty: "rb_root g = 0 \<Longrightarrow> tree_find key sz S g H cmp = Some 0"
  by (simp add: tree_find_def path_alive.simps kylin_rb_find_def rb_search.simps)

lemma tree_find_root:
  assumes "root_obj g H obj" "S obj = Some x" "S cmp = Some y" "key x = key y" "obj \<noteq> 0"
  shows "tree_find key sz S g H cmp = Some obj"
proof -
  obtain n where n: "rb_root g \<noteq> 0" "H (rb_root g) = Some n" "rb_val n = obj" using assms(1) by (auto simp: root_obj_def)
  have "key_compare key S cmp obj = 0" "key_compare key S obj cmp = 0" using assms by (simp_all add: key_compare_def)
  then show ?thesis using n assms(2) by (simp add: tree_find_def path_alive.simps kylin_rb_find_def rb_search.simps rget_def
      kmath_val_cmp_raw_def obj_tree_opts_def kylin_rb_val_def kmath_val_get_def kobj_is_int_def)
qed

text \<open>An object with the key of the root is refused and released.\<close>

lemma tree_insert_equal:
  assumes "root_obj g H old" "S old = Some x" "S obj = Some y" "key x = key y" "node \<noteq> 0" "node \<noteq> rb_root g" "H node = None"
  shows "tree_insert key sz S g H node obj = Some (False, g\<lparr>rb_opts := obj_tree_opts key sz S\<rparr>, H, S(obj := None))"
proof -
  obtain n where n: "rb_root g \<noteq> 0" "H (rb_root g) = Some n" "rb_val n = old" using assms(1) by (auto simp: root_obj_def)
  have "key_compare key S obj old = 0" "H(node := None) = H" using assms by (simp_all add: key_compare_def fun_upd_idem)
  then show ?thesis using n assms(2,5,6) by (simp add: tree_insert_def path_alive.simps kylin_rb_insert_def kmath_val_ctor_def rb_descend.simps rget_def
      kmath_val_cmp_def obj_tree_opts_def kmath_val_dtor_def kobj_is_int_def)
qed

end
