(* ===== verification/Kylin_Spinlock.thy ===== *)
theory Kylin_Spinlock
  imports Kylin_Prelude
begin

section \<open>Spin locks (include/arch/kylin_spinlock.h, include/arch/x86/kylin_spinlock.h)\<close>

text \<open>
  The lock word, 0 when unlocked, and its operations as one sequential run sees them: acquiring a
  lock that is held spins until another thread releases it, so by itself it does not return.
\<close>

subsection \<open>Definitions\<close>

record kspinlock =
  sl_locked :: "32 word"

definition kylin_spinlock_init :: "kspinlock \<Rightarrow> kspinlock" where
  "kylin_spinlock_init sl = sl\<lparr>sl_locked := 0\<rparr>"

definition kylin_spinlock_is_locked :: "kspinlock \<Rightarrow> 32 word" where
  "kylin_spinlock_is_locked sl = sl_locked sl"

definition kylin_spinlock_lock :: "kspinlock \<Rightarrow> kspinlock option" where
  "kylin_spinlock_lock sl = (if sl_locked sl = 0 then Some (sl\<lparr>sl_locked := 1\<rparr>) else None)"

definition kylin_spinlock_unlock :: "kspinlock \<Rightarrow> kspinlock" where
  "kylin_spinlock_unlock sl = sl\<lparr>sl_locked := 0\<rparr>"

definition kylin_spinlock_trylock :: "kspinlock \<Rightarrow> 32 word \<times> kspinlock" where
  "kylin_spinlock_trylock sl = (sl_locked sl, sl\<lparr>sl_locked := 1\<rparr>)"

subsection \<open>Properties\<close>

lemma kylin_spinlock_lock_free [simp]: "sl_locked sl = 0 \<Longrightarrow> kylin_spinlock_lock sl = Some (sl\<lparr>sl_locked := 1\<rparr>)"
  by (simp add: kylin_spinlock_lock_def)

lemma kylin_spinlock_lock_some:
  "kylin_spinlock_lock sl = Some sl' \<longleftrightarrow> sl_locked sl = 0 \<and> sl' = sl\<lparr>sl_locked := 1\<rparr>"
  by (auto simp: kylin_spinlock_lock_def)

lemma kylin_spinlock_relock [simp]: "sl_locked sl = 0 \<Longrightarrow> kylin_spinlock_unlock (sl\<lparr>sl_locked := 1\<rparr>) = sl"
  by (cases sl) (simp add: kylin_spinlock_unlock_def)

end
