(* ===== verification/Kylin_Timer.thy ===== *)
theory Kylin_Timer
  imports Kylin_Objtree Kylin_Spinlock
begin

section \<open>Timers (lib/core/timer/kylin_timer.c, kylin_timer_source.c)\<close>

text \<open>
  The timers over the red-black tree of \<open>Kylin_Rb\<close>: per clock source a tree of pending timers
  ordered by their expiry. Each function is one sequential run: spinning for a lock that is held, or
  for a callback that has not finished, does not return by itself and is \<open>None\<close>. The timers live in a
  store of their own; the tree compares pointers to timers, so its comparison reads the store of the
  moment.
\<close>

subsection \<open>Definitions\<close>

abbreviation KTIMER_SRC_MAX :: nat where "KTIMER_SRC_MAX \<equiv> 3"

datatype ktimer_type = KTIMER_TYPE_SINGLE | KTIMER_TYPE_PERIODICAL | KTIMER_TYPE_BLK_SINGLE | KTIMER_TYPE_BLK_PERIODICAL

datatype ktimer_state = KTIMER_STATE_INIT | KTIMER_STATE_STOP | KTIMER_STATE_PENDING | KTIMER_STATE_RUNNING

record ktimer =
  tm_expire :: "64 word"
  tm_period :: "64 word"
  tm_src :: nat
  tm_type :: ktimer_type
  tm_state :: ktimer_state
  tm_exec :: kaddr
  tm_arg :: "kbyte list"

type_synonym tstore = "kaddr \<Rightarrow> ktimer option"

record ktimers =
  tms_store :: tstore
  tms_heap :: rheap
  tms_pending :: "krb list"
  tms_lock :: "kspinlock list"

text \<open>The three clock sources are stubs that return 0.\<close>

definition get_cycle :: "nat \<Rightarrow> 64 word" where
  "get_cycle src = 0"

text \<open>
  The comparison of two pointers to timers. Comparing a released timer has no meaning; the value
  0 given here is not used, since the properties keep the timers in the trees alive.
\<close>

definition timer_compare :: "tstore \<Rightarrow> kmath_val \<Rightarrow> kaddr \<Rightarrow> int" where
  "timer_compare S v1 v2 = (case (S v1, S v2) of
       (Some a, Some b) \<Rightarrow> if tm_expire a > tm_expire b then 1 else if tm_expire a < tm_expire b then -1 else 0
     | _ \<Rightarrow> 0)"

definition timer_opts :: "tstore \<Rightarrow> krb_opts" where
  "timer_opts S = \<lparr>rb_val_type = KOBJ_OTHERS, rb_val_size = 64,
     rb_compare = \<lparr>kc_cmp = timer_compare S, kc_dgt = (>), kc_sdgt = (>)\<rparr>, rb_val_ctor = None\<rparr>"

definition pending_rb :: "ktimers \<Rightarrow> nat \<Rightarrow> krb option" where
  "pending_rb st i = map_option (\<lambda>g. g\<lparr>rb_opts := timer_opts (tms_store st)\<rparr>) (arr_get (tms_pending st) i)"

text \<open>The value destructor is \<^verbatim>\<open>kylin_free\<close>: what the tree releases is a timer.\<close>

fun release_timers :: "krelease list \<Rightarrow> tstore \<Rightarrow> tstore" where
  "release_timers [] S = S"
| "release_timers (RelUser t # rs) S = release_timers rs (S(t := None))"
| "release_timers (_ # rs) S = release_timers rs S"

definition set_pending :: "nat \<Rightarrow> krb \<Rightarrow> rheap \<Rightarrow> krelease list \<Rightarrow> ktimers \<Rightarrow> ktimers" where
  "set_pending i g H rels st = st\<lparr>tms_pending := (tms_pending st)[i := g], tms_heap := H,
     tms_store := release_timers rels (tms_store st)\<rparr>"

definition upd_timer :: "kaddr \<Rightarrow> (ktimer \<Rightarrow> ktimer) \<Rightarrow> ktimers \<Rightarrow> ktimers option" where
  "upd_timer t f st = map_option (\<lambda>x. st\<lparr>tms_store := (tms_store st)(t \<mapsto> f x)\<rparr>) (tms_store st t)"

definition src_lock :: "nat \<Rightarrow> ktimers \<Rightarrow> ktimers option" where
  "src_lock i st = do {
     sl \<leftarrow> arr_get (tms_lock st) i;
     sl \<leftarrow> kylin_spinlock_lock sl;
     Some (st\<lparr>tms_lock := (tms_lock st)[i := sl]\<rparr>) }"

definition src_unlock :: "nat \<Rightarrow> ktimers \<Rightarrow> ktimers option" where
  "src_unlock i st = do {
     sl \<leftarrow> arr_get (tms_lock st) i;
     Some (st\<lparr>tms_lock := (tms_lock st)[i := kylin_spinlock_unlock sl]\<rparr>) }"

text \<open>The pending insertion, removal and unlinking that the operations share.\<close>

definition pend_insert :: "nat \<Rightarrow> kaddr \<Rightarrow> kaddr \<Rightarrow> ktimers \<Rightarrow> (bool \<times> ktimers) option" where
  "pend_insert i node t st = do {
     g \<leftarrow> pending_rb st i;
     (res, g, H, rels, _) \<leftarrow> kylin_rb_insert Map.empty g (tms_heap st) node t;
     Some (res \<noteq> None, set_pending i g H rels st) }"

definition pend_unlink :: "nat \<Rightarrow> kaddr \<Rightarrow> ktimers \<Rightarrow> (bool \<times> ktimers) option" where
  "pend_unlink i t st = do {
     g \<leftarrow> pending_rb st i;
     (res, g, H) \<leftarrow> kylin_rb_unlink Map.empty g (tms_heap st) t;
     Some (res \<noteq> None, set_pending i g H [] st) }"

definition kylin_timer_create ::
    "kaddr \<Rightarrow> 64 word \<Rightarrow> nat \<Rightarrow> ktimer_type \<Rightarrow> kaddr \<Rightarrow> kbyte list \<Rightarrow> nat \<Rightarrow> ktimers \<Rightarrow> (kaddr \<times> ktimers) option" where
  "kylin_timer_create timer expire src type exec arg arg_size st =
     (if timer = 0 then Some (0, st)
      else do {
        a \<leftarrow> buf_read arg 0 arg_size;
        Some (timer, st\<lparr>tms_store := (tms_store st)(timer \<mapsto>
          \<lparr>tm_expire = expire, tm_period = (if type = KTIMER_TYPE_PERIODICAL then expire else 0), tm_src = src,
           tm_type = type, tm_state = KTIMER_STATE_INIT, tm_exec = exec, tm_arg = a\<rparr>)\<rparr>) })"

definition kylin_timer_destroy :: "kaddr \<Rightarrow> ktimers \<Rightarrow> ktimers option" where
  "kylin_timer_destroy t st = do {
     x \<leftarrow> tms_store st t;
     if tm_state x = KTIMER_STATE_RUNNING then None
     else do {
       st \<leftarrow> src_lock (tm_src x) st;
       g \<leftarrow> pending_rb st (tm_src x);
       (g, H, rels) \<leftarrow> kylin_rb_remove Map.empty g (tms_heap st) t;
       src_unlock (tm_src x) (set_pending (tm_src x) g H rels st) } }"

definition kylin_timer_start :: "kaddr \<Rightarrow> kaddr \<Rightarrow> ktimers \<Rightarrow> (kerr \<times> ktimers) option" where
  "kylin_timer_start node t st = do {
     x \<leftarrow> tms_store st t;
     let expire = tm_expire x;
     if tm_state x \<noteq> KTIMER_STATE_INIT then Some (KYLIN_ERROR_NOENT, st)
     else do {
       st \<leftarrow> upd_timer t (\<lambda>x. x\<lparr>tm_expire := expire + get_cycle (tm_src x)\<rparr>) st;
       st \<leftarrow> src_lock (tm_src x) st;
       (ok, st) \<leftarrow> pend_insert (tm_src x) node t st;
       y \<leftarrow> tms_store st t;
       st \<leftarrow> src_unlock (tm_src y) st;
       if \<not> ok then do {
         st \<leftarrow> upd_timer t (\<lambda>x. x\<lparr>tm_expire := expire\<rparr>) st;
         Some (KYLIN_ERROR_NOMEM, st) }
       else do {
         st \<leftarrow> upd_timer t (\<lambda>x. x\<lparr>tm_state := KTIMER_STATE_PENDING\<rparr>) st;
         Some (KYLIN_ERROR_OK, st) } } }"

text \<open>Starting with retries: the list gives the result of the allocation in each round.\<close>

fun kylin_timer_start_sync :: "kaddr list \<Rightarrow> kaddr \<Rightarrow> ktimers \<Rightarrow> (kerr \<times> ktimers) option" where
  "kylin_timer_start_sync [] t st = None"
| "kylin_timer_start_sync (node # nodes) t st = do {
     (ret, st) \<leftarrow> kylin_timer_start node t st;
     if ret = KYLIN_ERROR_OK then Some (KYLIN_ERROR_OK, st)
     else if ret = KYLIN_ERROR_NOENT then Some (ret, st)
     else kylin_timer_start_sync nodes t st }"

definition kylin_timer_stop :: "kaddr \<Rightarrow> ktimers \<Rightarrow> (kerr \<times> ktimers) option" where
  "kylin_timer_stop t st = do {
     x \<leftarrow> tms_store st t;
     if tm_state x = KTIMER_STATE_RUNNING then Some (KYLIN_ERROR_NOENT, st)
     else do {
       st \<leftarrow> src_lock (tm_src x) st;
       (ok, st) \<leftarrow> pend_unlink (tm_src x) t st;
       st \<leftarrow> src_unlock (tm_src x) st;
       if \<not> ok then Some (KYLIN_ERROR_INVAL, st)
       else do {
         st \<leftarrow> upd_timer t (\<lambda>x. x\<lparr>tm_state := KTIMER_STATE_STOP\<rparr>) st;
         Some (KYLIN_ERROR_OK, st) } } }"

definition kylin_timer_stop_sync :: "kaddr \<Rightarrow> ktimers \<Rightarrow> (kerr \<times> ktimers) option" where
  "kylin_timer_stop_sync t st = do {
     x \<leftarrow> tms_store st t;
     if tm_state x = KTIMER_STATE_RUNNING then None else kylin_timer_stop t st }"


text \<open>
  The scheduler. \<open>alloc\<close> is the result of the node allocation and \<open>exec\<close> the effect of the callbacks; a
  run is recorded as the list of the timers whose callback was called.
\<close>

partial_function (option) reinsert :: "(ktimers \<Rightarrow> kaddr) \<Rightarrow> nat \<Rightarrow> kaddr \<Rightarrow> ktimers \<Rightarrow> ktimers option" where
  "reinsert alloc i t st = do {
     (ok, st) \<leftarrow> pend_insert i (alloc st) t st;
     if ok then Some st
     else do {
       st \<leftarrow> upd_timer t (\<lambda>x. x\<lparr>tm_expire := tm_expire x + 1\<rparr>) st;
       reinsert alloc i t st } }"

definition timer_fire ::
    "(ktimers \<Rightarrow> kaddr) \<Rightarrow> (kaddr \<Rightarrow> ktimers \<Rightarrow> ktimers option) \<Rightarrow> nat \<Rightarrow> 64 word \<Rightarrow> kaddr \<Rightarrow> ktimers \<Rightarrow> ktimers option" where
  "timer_fire alloc exec i now t st = do {
     (_, st) \<leftarrow> pend_unlink i t st;
     st \<leftarrow> src_unlock i st;
     st \<leftarrow> upd_timer t (\<lambda>x. x\<lparr>tm_state := KTIMER_STATE_RUNNING\<rparr>) st;
     st \<leftarrow> exec t st;
     x \<leftarrow> tms_store st t;
     if tm_period x = 0 then do {
       st \<leftarrow> upd_timer t (\<lambda>x. x\<lparr>tm_expire := tm_period x + now, tm_state := KTIMER_STATE_PENDING\<rparr>) st;
       st \<leftarrow> src_lock i st;
       st \<leftarrow> reinsert alloc i t st;
       src_unlock i st }
     else upd_timer t (\<lambda>x. x\<lparr>tm_state := KTIMER_STATE_STOP\<rparr>) st }"

partial_function (option) schedule_source ::
    "(ktimers \<Rightarrow> kaddr) \<Rightarrow> (kaddr \<Rightarrow> ktimers \<Rightarrow> ktimers option) \<Rightarrow> nat \<Rightarrow> 64 word \<Rightarrow> kaddr list \<Rightarrow> ktimers \<Rightarrow> (kaddr list \<times> ktimers) option" where
  "schedule_source alloc exec i now fired st = do {
     g \<leftarrow> pending_rb st i;
     let node = kylin_rb_min g;
     if node = 0 then Some (fired, st)
     else do {
       t \<leftarrow> rget rb_val (tms_heap st) node;
       if t = 0 then do { st \<leftarrow> src_unlock i st; Some (fired, st) }
       else do {
         x \<leftarrow> tms_store st t;
         if tm_expire x > now then do { st \<leftarrow> src_unlock i st; Some (fired, st) }
         else do {
           st \<leftarrow> timer_fire alloc exec i now t st;
           schedule_source alloc exec i now (fired @ [t]) st } } } }"

fun schedule_from ::
    "nat list \<Rightarrow> (ktimers \<Rightarrow> kaddr) \<Rightarrow> (kaddr \<Rightarrow> ktimers \<Rightarrow> ktimers option) \<Rightarrow> kaddr list \<Rightarrow> ktimers \<Rightarrow> (kaddr list \<times> ktimers) option" where
  "schedule_from [] alloc exec fired st = Some (fired, st)"
| "schedule_from (i # is) alloc exec fired st = do {
     st \<leftarrow> src_lock i st;
     (fired, st) \<leftarrow> schedule_source alloc exec i (get_cycle i) fired st;
     schedule_from is alloc exec fired st }"

definition timer_schedule ::
    "(ktimers \<Rightarrow> kaddr) \<Rightarrow> (kaddr \<Rightarrow> ktimers \<Rightarrow> ktimers option) \<Rightarrow> ktimers \<Rightarrow> (kaddr list \<times> ktimers) option" where
  "timer_schedule alloc exec st = schedule_from [0..<KTIMER_SRC_MAX] alloc exec [] st"

definition kylin_timer_source_init :: kerr where
  "kylin_timer_source_init = KYLIN_ERROR_OK"

definition kylin_timer_source_fini :: unit where
  "kylin_timer_source_fini = ()"

text \<open>
  Initialisation: the results of the three allocations and of \<^verbatim>\<open>pthread_create\<close> are arguments. The
  thread that is created runs \<open>timer_schedule\<close> once.
\<close>

fun timer_trees :: "bool list \<Rightarrow> krb list option" where
  "timer_trees [] = Some []"
| "timer_trees (ok # oks) = do { g \<leftarrow> kylin_rb_create ok (timer_opts Map.empty); gs \<leftarrow> timer_trees oks; Some (g # gs) }"

definition kylin_timer_init :: "bool \<times> bool \<times> bool \<Rightarrow> kerr \<Rightarrow> kerr \<times> ktimers option" where
  "kylin_timer_init = (\<lambda>(a, b, c) thread. case timer_trees [a, b, c] of
       None \<Rightarrow> (KYLIN_ERROR_NOMEM, None)
     | Some gs \<Rightarrow> if kylin_timer_source_init \<noteq> KYLIN_ERROR_OK then (kylin_timer_source_init, None)
         else (thread, Some \<lparr>tms_store = Map.empty, tms_heap = Map.empty, tms_pending = gs,
           tms_lock = map (\<lambda>_. kylin_spinlock_init \<lparr>sl_locked = 0\<rparr>) gs\<rparr>))"

fun timer_fini_from :: "nat list \<Rightarrow> ktimers \<Rightarrow> ktimers option" where
  "timer_fini_from [] st = Some st"
| "timer_fini_from (i # is) st = do {
     g \<leftarrow> pending_rb st i;
     (H, rels) \<leftarrow> kylin_rb_destroy Map.empty g (tms_heap st) [];
     timer_fini_from is (set_pending i g H rels st) }"

definition kylin_timer_fini :: "ktimers \<Rightarrow> ktimers option" where
  "kylin_timer_fini st = timer_fini_from [0..<KTIMER_SRC_MAX] st"

declare reinsert.simps [code]
declare schedule_source.simps [code]

subsection \<open>The pending trees have no minimum\<close>

definition no_minima :: "ktimers \<Rightarrow> bool" where
  "no_minima st \<longleftrightarrow> list_all (\<lambda>g. rb_min g = 0) (tms_pending st)"

definition src_step :: "ktimers \<Rightarrow> ktimers \<Rightarrow> bool" where
  "src_step st st' \<longleftrightarrow> length (tms_pending st') = length (tms_pending st) \<and> (no_minima st \<longrightarrow> no_minima st')"

lemma src_step_refl [simp]: "src_step st st"
  by (simp add: src_step_def)

lemma src_step_trans: "src_step a b \<Longrightarrow> src_step b c \<Longrightarrow> src_step a c"
  by (simp add: src_step_def)

lemma upd_timer_some:
  assumes "upd_timer t f st = Some st'"
  shows "src_step st st'" "tms_lock st' = tms_lock st"
  using assms by (auto simp: upd_timer_def src_step_def no_minima_def)

lemma src_lock_some:
  assumes "src_lock i st = Some st'"
  shows "src_step st st'" "i < length (tms_lock st)" "sl_locked (tms_lock st ! i) = 0"
    "tms_lock st' = (tms_lock st)[i := (tms_lock st ! i)\<lparr>sl_locked := 1\<rparr>]"
  using assms by (auto simp: src_lock_def bind_eq_Some_conv src_step_def no_minima_def arr_get_def
      kylin_spinlock_lock_def split: if_splits)

lemma src_unlock_some:
  assumes "src_unlock i st = Some st'"
  shows "src_step st st'" "i < length (tms_lock st)"
    "tms_lock st' = (tms_lock st)[i := (tms_lock st ! i)\<lparr>sl_locked := 0\<rparr>]"
  using assms by (auto simp: src_unlock_def bind_eq_Some_conv src_step_def no_minima_def arr_get_def
      kylin_spinlock_unlock_def split: if_splits)

lemma set_pending_step:
  assumes "pending_rb st i = Some g" "guard_rest g' = guard_rest g"
  shows "src_step st (set_pending i g' H rels st)" "tms_lock (set_pending i g' H rels st) = tms_lock st"
proof -
  have "i < length (tms_pending st)" "rb_min g' = rb_min (tms_pending st ! i)"
    using assms guard_rest_fields(3) [OF assms(2)] by (auto simp: pending_rb_def arr_get_def split: if_splits)
  then show "src_step st (set_pending i g' H rels st)"
    by (auto simp: src_step_def no_minima_def set_pending_def list_all_iff dest!: set_update_subset_insert [THEN subsetD])
  show "tms_lock (set_pending i g' H rels st) = tms_lock st" by (simp add: set_pending_def)
qed

lemma pend_insert_some:
  assumes "pend_insert i node t st = Some (ok, st')"
  shows "src_step st st'" "tms_lock st' = tms_lock st"
  using assms by (auto simp: pend_insert_def bind_eq_Some_conv set_pending_step dest: kylin_rb_insert_rest)

lemma pend_unlink_some:
  assumes "pend_unlink i t st = Some (ok, st')"
  shows "src_step st st'" "tms_lock st' = tms_lock st"
  using assms by (auto simp: pend_unlink_def bind_eq_Some_conv set_pending_step dest: kylin_rb_unlink_rest)

lemma release_timers_some: "release_timers rels S t = Some x \<Longrightarrow> S t = Some x"
  by (induction rels S rule: release_timers.induct) (auto split: if_splits)

lemma pend_insert_store: "pend_insert i node t st = Some (ok, st') \<Longrightarrow> tms_store st' u = Some x \<Longrightarrow> tms_store st u = Some x"
  by (auto simp: pend_insert_def bind_eq_Some_conv set_pending_def dest: release_timers_some)

lemma src_lock_store: "src_lock i st = Some st' \<Longrightarrow> tms_store st' = tms_store st"
  by (auto simp: src_lock_def bind_eq_Some_conv)

text \<open>A call that leaves the locks as it found them.\<close>

definition timer_call :: "ktimers \<Rightarrow> ktimers \<Rightarrow> bool" where
  "timer_call st st' \<longleftrightarrow> src_step st st' \<and> tms_lock st' = tms_lock st"

lemma timer_call_trans: "timer_call a b \<Longrightarrow> timer_call b c \<Longrightarrow> timer_call a c"
  by (auto simp: timer_call_def intro: src_step_trans)

lemma locked_section:
  assumes "src_lock i st = Some a" "timer_call a b" "src_unlock i b = Some st'"
  shows "timer_call st st'"
proof -
  note l = src_lock_some [OF assms(1)] and u = src_unlock_some [OF assms(3)]
  have "tms_lock st' = tms_lock st"
    using l u assms(2) by (cases "tms_lock st ! i") (simp add: timer_call_def list_update_same_conv)
  moreover have "src_step st st'"
    using l(1) u(1) assms(2) unfolding timer_call_def by (blast intro: src_step_trans)
  ultimately show ?thesis by (simp add: timer_call_def)
qed

lemma upd_timer_call: "upd_timer t f st = Some st' \<Longrightarrow> timer_call st st'"
  by (simp add: timer_call_def upd_timer_some)

lemma pend_call:
  "pend_insert i node t st = Some (ok, st') \<Longrightarrow> timer_call st st'"
  "pend_unlink i t st = Some (ok, st') \<Longrightarrow> timer_call st st'"
  by (auto simp: timer_call_def dest: pend_insert_some pend_unlink_some)

lemma kylin_timer_create_call: "kylin_timer_create p e src type exec arg n st = Some (t, st') \<Longrightarrow> timer_call st st'"
  by (auto simp: kylin_timer_create_def bind_eq_Some_conv timer_call_def src_step_def no_minima_def split: if_splits)

lemma kylin_timer_destroy_call:
  assumes "kylin_timer_destroy t st = Some st'"
  shows "timer_call st st'"
proof -
  obtain x :: ktimer and a g g' H rels where "src_lock (tm_src x) st = Some a" "pending_rb a (tm_src x) = Some g"
      "kylin_rb_remove Map.empty g (tms_heap a) t = Some (g', H, rels)"
      "src_unlock (tm_src x) (set_pending (tm_src x) g' H rels a) = Some st'"
    using assms by (auto simp: kylin_timer_destroy_def bind_eq_Some_conv split: if_splits)
  moreover from this have "timer_call a (set_pending (tm_src x) g' H rels a)"
    by (simp add: timer_call_def set_pending_step kylin_rb_remove_rest)
  ultimately show ?thesis using locked_section by blast
qed

lemma kylin_timer_start_call:
  assumes "kylin_timer_start node t st = Some (ret, st')"
  shows "timer_call st st'"
proof (cases "st' = st")
  case False
  obtain x a b c d y ok where s: "tms_store st t = Some x"
      "upd_timer t (\<lambda>y. y\<lparr>tm_expire := tm_expire x + get_cycle (tm_src y)\<rparr>) st = Some a"
      "src_lock (tm_src x) a = Some b" "pend_insert (tm_src x) node t b = Some (ok, c)"
      "tms_store c t = Some y" "src_unlock (tm_src y) c = Some d" "\<exists>f. upd_timer t f d = Some st'"
    using assms False by (auto simp: kylin_timer_start_def Let_def bind_eq_Some_conv split: if_splits) blast+
  have "tms_store b t = Some y" using pend_insert_store s(4,5) by blast
  then have "tm_src y = tm_src x"
    using s(1,2) src_lock_store [OF s(3)] by (auto simp: upd_timer_def)
  then have "timer_call a d" using locked_section s(3,4,6) pend_call by metis
  then show ?thesis using s(2,7) by (blast intro: timer_call_trans upd_timer_call)
qed (simp add: timer_call_def)

lemma kylin_timer_start_sync_call:
  "kylin_timer_start_sync nodes t st = Some (ret, st') \<Longrightarrow> timer_call st st'"
  by (induction nodes t st rule: kylin_timer_start_sync.induct)
    (auto simp: bind_eq_Some_conv split: if_splits intro: kylin_timer_start_call timer_call_trans)

lemma kylin_timer_stop_call:
  assumes "kylin_timer_stop t st = Some (ret, st')"
  shows "timer_call st st'"
proof (cases "st' = st")
  case False
  obtain x :: ktimer and a b c ok where s: "src_lock (tm_src x) st = Some a" "pend_unlink (tm_src x) t a = Some (ok, b)"
      "src_unlock (tm_src x) b = Some c" "c = st' \<or> (\<exists>f. upd_timer t f c = Some st')"
    using assms False by (auto simp: kylin_timer_stop_def bind_eq_Some_conv split: if_splits) blast+
  have "timer_call st c" using locked_section [OF s(1) pend_call(2) [OF s(2)] s(3)] .
  then show ?thesis using s(4) by (auto intro: timer_call_trans upd_timer_call)
qed (simp add: timer_call_def)

text \<open>A call of one of the operations by a user of the timers.\<close>

inductive timer_step :: "ktimers \<Rightarrow> ktimers \<Rightarrow> bool" where
  create: "kylin_timer_create p e src type exec arg n st = Some (t, st') \<Longrightarrow> timer_step st st'"
| destroy: "kylin_timer_destroy t st = Some st' \<Longrightarrow> timer_step st st'"
| start: "kylin_timer_start node t st = Some (ret, st') \<Longrightarrow> timer_step st st'"
| start_sync: "kylin_timer_start_sync nodes t st = Some (ret, st') \<Longrightarrow> timer_step st st'"
| stop: "kylin_timer_stop t st = Some (ret, st') \<Longrightarrow> timer_step st st'"
| stop_sync: "kylin_timer_stop_sync t st = Some (ret, st') \<Longrightarrow> timer_step st st'"

lemma timer_step_call: "timer_step st st' \<Longrightarrow> timer_call st st'"
  by (induction rule: timer_step.induct)
    (auto simp: kylin_timer_create_call kylin_timer_destroy_call kylin_timer_start_call kylin_timer_start_sync_call
      kylin_timer_stop_call kylin_timer_stop_sync_def bind_eq_Some_conv split: if_splits)

lemma timer_steps_call: "timer_step\<^sup>*\<^sup>* st st' \<Longrightarrow> timer_call st st'"
  by (induction rule: rtranclp_induct)
    (auto simp: timer_call_def dest!: timer_step_call intro: src_step_trans)

subsection \<open>Properties\<close>

lemma schedule_source_no_minimum:
  "i < length (tms_pending st) \<Longrightarrow> no_minima st \<Longrightarrow> schedule_source alloc exec i now fired st = Some (fired, st)"
  by (subst schedule_source.simps)
    (simp add: pending_rb_def no_minima_def list_all_length kylin_rb_min_def)

definition all_locked :: "ktimers \<Rightarrow> ktimers" where
  "all_locked st = st\<lparr>tms_lock := map (\<lambda>sl. sl\<lparr>sl_locked := 1\<rparr>) (tms_lock st)\<rparr>"

lemma schedule_no_minimum:
  assumes "length (tms_pending st) = 3" "no_minima st" "tms_lock st = [\<lparr>sl_locked = 0\<rparr>, \<lparr>sl_locked = 0\<rparr>, \<lparr>sl_locked = 0\<rparr>]"
  shows "timer_schedule alloc exec st = Some ([], all_locked st)"
proof -
  have "no_minima (st\<lparr>tms_lock := l\<rparr>)" for l using assms(2) by (simp add: no_minima_def)
  then show ?thesis using assms(1,3)
    by (simp add: timer_schedule_def upt_rec src_lock_def kylin_spinlock_lock_def all_locked_def schedule_source_no_minimum)
qed

lemma src_lock_held: "list_all (\<lambda>sl. sl_locked sl \<noteq> 0) (tms_lock st) \<Longrightarrow> src_lock i st = None"
  by (auto simp: src_lock_def arr_get_def list_all_length kylin_spinlock_lock_def)

lemma all_locked_held: "list_all (\<lambda>sl. sl_locked sl \<noteq> 0) (tms_lock (all_locked st))"
  by (simp add: all_locked_def list_all_iff)

lemma kylin_timer_start_held:
  assumes "list_all (\<lambda>sl. sl_locked sl \<noteq> 0) (tms_lock st)"
  shows "kylin_timer_start node t st \<noteq> Some (KYLIN_ERROR_OK, st')"
  using assms by (auto simp: kylin_timer_start_def Let_def bind_eq_Some_conv src_lock_held upd_timer_some(2) split: if_splits)

lemma kylin_timer_stop_held:
  assumes "list_all (\<lambda>sl. sl_locked sl \<noteq> 0) (tms_lock st)"
  shows "kylin_timer_stop t st \<noteq> Some (KYLIN_ERROR_OK, st')" "kylin_timer_destroy t st = None"
  using assms by (auto simp: kylin_timer_stop_def kylin_timer_destroy_def bind_eq_Some_conv src_lock_held split: if_splits bind_splits)

lemma kylin_timer_init_state:
  assumes "kylin_timer_init oks thread = (ret, Some st)"
  shows "length (tms_pending st) = 3" "no_minima st" "tms_lock st = [\<lparr>sl_locked = 0\<rparr>, \<lparr>sl_locked = 0\<rparr>, \<lparr>sl_locked = 0\<rparr>]"
  using assms by (auto simp: kylin_timer_init_def no_minima_def kylin_rb_create_def bind_eq_Some_conv
      kylin_timer_source_init_def kylin_spinlock_init_def split: prod.splits option.splits if_splits)

subsection \<open>One timer\<close>

lemmas timer_defs = kylin_timer_start_def kylin_timer_stop_def src_lock_def src_unlock_def kylin_spinlock_lock_def
  kylin_spinlock_unlock_def pend_insert_def pend_unlink_def pending_rb_def upd_timer_def set_pending_def timer_opts_def
  get_cycle_def

text \<open>The state while the timer \<open>t\<close> is the only one pending in its tree.\<close>

definition sole_pending :: "kaddr \<Rightarrow> kaddr \<Rightarrow> ktimer \<Rightarrow> krb \<Rightarrow> ktimers \<Rightarrow> ktimers" where
  "sole_pending node t x g st = st\<lparr>tms_store := (tms_store st)(t \<mapsto> x\<lparr>tm_state := KTIMER_STATE_PENDING\<rparr>),
     tms_heap := (tms_heap st)(node \<mapsto> rb_node 0 0 0 RB_BLACK t), tms_pending := (tms_pending st)[tm_src x := g\<lparr>rb_root := node\<rparr>]\<rparr>"

lemma kylin_timer_start_first:
  assumes "tms_store st t = Some x" "tm_state x = KTIMER_STATE_INIT" "rb_root (tms_pending st ! tm_src x) = 0"
    "tm_src x < length (tms_pending st)" "tm_src x < length (tms_lock st)" "sl_locked (tms_lock st ! tm_src x) = 0" "node \<noteq> 0"
  shows "kylin_timer_start node t st = Some (KYLIN_ERROR_OK,
    sole_pending node t x ((tms_pending st ! tm_src x)\<lparr>rb_opts := timer_opts (tms_store st)\<rparr>) st)"
proof -
  have "(tms_lock st)[tm_src x := (tms_lock st ! tm_src x)\<lparr>sl_locked := 0\<rparr>] = tms_lock st"
    using assms(5,6) by (cases "tms_lock st ! tm_src x") (simp add: list_update_same_conv)
  moreover have "x\<lparr>tm_expire := tm_expire x\<rparr> = x" "(tms_store st)(t \<mapsto> x) = tms_store st" using assms(1) by auto
  ultimately show ?thesis using assms by (simp add: timer_defs kylin_rb_insert_first sole_pending_def)
qed

definition timer_demo :: ktimer where
  "timer_demo = \<lparr>tm_expire = 5, tm_period = 0, tm_src = 0, tm_type = KTIMER_TYPE_SINGLE, tm_state = KTIMER_STATE_INIT,
     tm_exec = 9, tm_arg = []\<rparr>"

definition timers_fresh :: ktimers where
  "timers_fresh = the (snd (kylin_timer_init (True, True, True) KYLIN_ERROR_OK))"

definition timers_demo :: ktimers where
  "timers_demo = timers_fresh\<lparr>tms_store := [100 \<mapsto> timer_demo]\<rparr>"

lemma timers_fresh_init: "kylin_timer_init (True, True, True) KYLIN_ERROR_OK = (KYLIN_ERROR_OK, Some timers_fresh)"
  by (simp add: timers_fresh_def kylin_timer_init_def kylin_rb_create_def kylin_timer_source_init_def)

lemma timers_demo_create: "kylin_timer_create 100 5 0 KTIMER_TYPE_SINGLE 9 [] 0 timers_fresh = Some (100, timers_demo)"
  by (simp add: kylin_timer_create_def buf_read_def timers_demo_def timer_demo_def timers_fresh_def kylin_timer_init_def
      kylin_rb_create_def kylin_timer_source_init_def)

lemma timers_demo_facts:
  "tms_store timers_demo 100 = Some timer_demo" "tm_state timer_demo = KTIMER_STATE_INIT" "tm_src timer_demo = 0"
  "rb_root (tms_pending timers_demo ! 0) = 0" "0 < length (tms_pending timers_demo)" "0 < length (tms_lock timers_demo)"
  "sl_locked (tms_lock timers_demo ! 0) = 0" "tms_heap timers_demo 40 = None"
  by (simp_all add: timers_demo_def timer_demo_def timers_fresh_def kylin_timer_init_def kylin_rb_create_def
      kylin_timer_source_init_def kylin_spinlock_init_def)

text \<open>
  C8. Whatever timers have been created and started since the initialisation, the run of the
  scheduler thread fires none of them, because the trees never report a minimum, and ends with the
  lock of every clock source held: from then on no start and no stop of a timer succeeds and no
  destroy returns.
\<close>

theorem timers_never_fire:
  assumes "kylin_timer_init oks thread = (ret, Some st0)" "timer_step\<^sup>*\<^sup>* st0 st"
  shows "\<exists>st'. timer_schedule alloc exec st = Some ([], st')
    \<and> (\<forall>node t st''. kylin_timer_start node t st' \<noteq> Some (KYLIN_ERROR_OK, st'')
        \<and> kylin_timer_stop t st' \<noteq> Some (KYLIN_ERROR_OK, st'') \<and> kylin_timer_destroy t st' = None)"
proof -
  have "timer_call st0 st" by (rule timer_steps_call [OF assms(2)])
  then have "timer_schedule alloc exec st = Some ([], all_locked st)"
    using kylin_timer_init_state [OF assms(1)] by (intro schedule_no_minimum) (auto simp: timer_call_def src_step_def)
  then show ?thesis using all_locked_held by (blast dest: kylin_timer_start_held kylin_timer_stop_held)
qed

theorem timers_never_fire_witness:
  "\<exists>st st'. kylin_timer_start 40 100 timers_demo = Some (KYLIN_ERROR_OK, st) \<and> timer_step\<^sup>*\<^sup>* timers_fresh st
     \<and> timer_schedule (\<lambda>_. 41) (\<lambda>_. Some) st = Some ([], st')"
proof -
  obtain st where st: "kylin_timer_start 40 100 timers_demo = Some (KYLIN_ERROR_OK, st)"
    using kylin_timer_start_first [of timers_demo 100 timer_demo 40] timers_demo_facts by simp
  then have steps: "timer_step\<^sup>*\<^sup>* timers_fresh st"
    using timers_demo_create by (meson converse_rtranclp_into_rtranclp rtranclp.rtrancl_refl timer_step.create timer_step.start)
  show ?thesis using timers_never_fire [OF timers_fresh_init steps] st steps by blast
qed



text \<open>
  Starting a timer that expires at the same time as the timer at the root of its tree releases
  the timer that is being started, because the tree destroys a value it rejects; the function then
  reads the released timer, so it has no defined result.
\<close>

theorem kylin_timer_start_same_expiry:
  assumes "tms_store st t = Some x" "tm_state x = KTIMER_STATE_INIT" "tm_src x < length (tms_pending st)"
    "rb_root (tms_pending st ! tm_src x) = r" "r \<noteq> 0" "tms_heap st r = Some n" "tms_store st (rb_val n) = Some y"
    "tm_expire y = tm_expire x" "node \<noteq> 0" "tms_heap st node = None"
  shows "kylin_timer_start node t st = None"
proof -
  have "timer_compare (tms_store st) t (rb_val n) = 0"
    using assms by (auto simp: timer_compare_def)
  moreover have "node \<noteq> r" using assms by auto
  ultimately show ?thesis using assms
    by (simp add: timer_defs kylin_rb_insert_def kmath_val_ctor_def rb_descend.simps rget_def kmath_val_cmp_def
        kmath_val_dtor_def kobj_is_int_def fun_upd_idem bind_eq_None_conv split: bind_splits)
qed

definition timers_two :: ktimers where
  "timers_two = timers_demo\<lparr>tms_store := [100 \<mapsto> timer_demo\<lparr>tm_state := KTIMER_STATE_PENDING\<rparr>, 200 \<mapsto> timer_demo],
     tms_heap := [40 \<mapsto> rb_node 0 0 0 RB_BLACK 100], tms_pending := (tms_pending timers_demo)[0 := (tms_pending timers_demo ! 0)\<lparr>rb_root := 40\<rparr>]\<rparr>"

theorem kylin_timer_start_same_expiry_witness: "kylin_timer_start 41 200 timers_two = None"
  by (rule kylin_timer_start_same_expiry [where r = 40 and x = timer_demo and n = "rb_node 0 0 0 RB_BLACK 100"
      and y = "timer_demo\<lparr>tm_state := KTIMER_STATE_PENDING\<rparr>"])
    (use timers_demo_facts in \<open>auto simp: timers_two_def rb_node_def\<close>)

end
