(* ===== verification/Kylin_Hash.thy ===== *)
theory Kylin_Hash
  imports Kylin_Prelude
begin

section \<open>Hash functions (include/utils/kylin_hash.h)\<close>

text \<open>
  Jenkins' hash of a byte string, of an array of words and of up to three words. The arithmetic
  is that of 32-bit words; the key is the list of its bytes (or words), and a read behind its end
  is \<open>None\<close>. Words are read in the little-endian order of the x86 target.
\<close>

subsection \<open>Definitions\<close>

type_synonym hstate = "32 word \<times> 32 word \<times> 32 word"

definition kylin_hash_size :: "nat \<Rightarrow> 32 word" where
  "kylin_hash_size n = push_bit n 1"

definition kylin_hash_mask :: "nat \<Rightarrow> 32 word" where
  "kylin_hash_mask n = kylin_hash_size n - 1"

definition rol32 :: "32 word \<Rightarrow> nat \<Rightarrow> 32 word" where
  "rol32 w s = push_bit s w OR drop_bit (32 - s) w"

text \<open>The three assignments of one line of the macros.\<close>

definition mix_line :: "nat \<Rightarrow> hstate \<Rightarrow> hstate" where
  "mix_line s = (\<lambda>(x, y, z). let x = x - z; x = x XOR rol32 z s; z = z + y in (x, y, z))"

definition kylin_hash_mix :: "hstate \<Rightarrow> hstate" where
  "kylin_hash_mix = (\<lambda>(a, b, c).
     let (a, b, c) = mix_line 4 (a, b, c);
         (b, c, a) = mix_line 6 (b, c, a);
         (c, a, b) = mix_line 8 (c, a, b);
         (a, b, c) = mix_line 16 (a, b, c);
         (b, c, a) = mix_line 19 (b, c, a);
         (c, a, b) = mix_line 4 (c, a, b)
     in (a, b, c))"

definition kylin_hash_final :: "hstate \<Rightarrow> hstate" where
  "kylin_hash_final = (\<lambda>(a, b, c).
     let c = c XOR b; c = c - rol32 b 14;
         a = a XOR c; a = a - rol32 c 11;
         b = b XOR a; b = b - rol32 a 25;
         c = c XOR b; c = c - rol32 b 16;
         a = a XOR c; a = a - rol32 c 4;
         b = b XOR a; b = b - rol32 a 14;
         c = c XOR b; c = c - rol32 b 24
     in (a, b, c))"

abbreviation JHASH_INITVAL :: "32 word" where
  "JHASH_INITVAL \<equiv> 0xdeadbeef"

definition load32 :: "kbyte list \<Rightarrow> nat \<Rightarrow> 32 word option" where
  "load32 k off = do {
     b0 \<leftarrow> arr_get k off; b1 \<leftarrow> arr_get k (off + 1); b2 \<leftarrow> arr_get k (off + 2); b3 \<leftarrow> arr_get k (off + 3);
     Some (ucast b0 + push_bit 8 (ucast b1) + push_bit 16 (ucast b2) + push_bit 24 (ucast b3)) }"

text \<open>All but the last block; \<open>off\<close> is how far the key pointer has moved.\<close>

function hash_blocks :: "kbyte list \<Rightarrow> nat \<Rightarrow> 32 word \<Rightarrow> hstate \<Rightarrow> (nat \<times> 32 word \<times> hstate) option" where
  "hash_blocks k off len s =
     (if len > 12 then do {
        x \<leftarrow> load32 k off; y \<leftarrow> load32 k (off + 4); z \<leftarrow> load32 k (off + 8);
        hash_blocks k (off + 12) (len - 12) (kylin_hash_mix (case s of (a, b, c) \<Rightarrow> (a + x, b + y, c + z))) }
      else Some (off, len, s))"
  by pat_completeness auto
termination
  by (relation "measure (\<lambda>(k, off, len, s). unat len)") (auto simp: word_less_nat_alt unat_sub_if_size)

declare hash_blocks.simps [simp del]

text \<open>The cases of the switch fall through: byte \<open>i\<close> is added for every length above \<open>i\<close>.\<close>

definition add_byte :: "kbyte list \<Rightarrow> nat \<Rightarrow> 32 word \<Rightarrow> nat \<Rightarrow> nat \<Rightarrow> 32 word \<Rightarrow> 32 word option" where
  "add_byte k off len i sh w =
     (if unat len > i then do { b \<leftarrow> arr_get k (off + i); Some (w + push_bit sh (ucast b)) } else Some w)"

definition hash_tail :: "kbyte list \<Rightarrow> nat \<Rightarrow> 32 word \<Rightarrow> hstate \<Rightarrow> 32 word option" where
  "hash_tail k off len = (\<lambda>(a, b, c). do {
     c \<leftarrow> add_byte k off len 11 24 c;
     c \<leftarrow> add_byte k off len 10 16 c;
     c \<leftarrow> add_byte k off len 9 8 c;
     c \<leftarrow> add_byte k off len 8 0 c;
     b \<leftarrow> add_byte k off len 7 24 b;
     b \<leftarrow> add_byte k off len 6 16 b;
     b \<leftarrow> add_byte k off len 5 8 b;
     b \<leftarrow> add_byte k off len 4 0 b;
     a \<leftarrow> add_byte k off len 3 24 a;
     a \<leftarrow> add_byte k off len 2 16 a;
     a \<leftarrow> add_byte k off len 1 8 a;
     a \<leftarrow> add_byte k off len 0 0 a;
     Some (if len = 0 then c else snd (snd (kylin_hash_final (a, b, c)))) })"

definition kylin_hash :: "kbyte list \<Rightarrow> 32 word \<Rightarrow> 32 word \<Rightarrow> 32 word option" where
  "kylin_hash key len initval = do {
     let i = JHASH_INITVAL + len + initval;
     (off, len, s) \<leftarrow> hash_blocks key 0 len (i, i, i);
     hash_tail key off len s }"

function hash2_blocks :: "32 word list \<Rightarrow> nat \<Rightarrow> 32 word \<Rightarrow> hstate \<Rightarrow> (nat \<times> 32 word \<times> hstate) option" where
  "hash2_blocks k off len s =
     (if len > 3 then do {
        x \<leftarrow> arr_get k off; y \<leftarrow> arr_get k (off + 1); z \<leftarrow> arr_get k (off + 2);
        hash2_blocks k (off + 3) (len - 3) (kylin_hash_mix (case s of (a, b, c) \<Rightarrow> (a + x, b + y, c + z))) }
      else Some (off, len, s))"
  by pat_completeness auto
termination
  by (relation "measure (\<lambda>(k, off, len, s). unat len)") (auto simp: word_less_nat_alt unat_sub_if_size)

declare hash2_blocks.simps [simp del]

definition add_word :: "32 word list \<Rightarrow> nat \<Rightarrow> 32 word \<Rightarrow> nat \<Rightarrow> 32 word \<Rightarrow> 32 word option" where
  "add_word k off len i w = (if unat len > i then map_option ((+) w) (arr_get k (off + i)) else Some w)"

definition hash2_tail :: "32 word list \<Rightarrow> nat \<Rightarrow> 32 word \<Rightarrow> hstate \<Rightarrow> 32 word option" where
  "hash2_tail k off len = (\<lambda>(a, b, c). do {
     c \<leftarrow> add_word k off len 2 c;
     b \<leftarrow> add_word k off len 1 b;
     a \<leftarrow> add_word k off len 0 a;
     Some (if len = 0 then c else snd (snd (kylin_hash_final (a, b, c)))) })"

definition kylin_hash2 :: "32 word list \<Rightarrow> 32 word \<Rightarrow> 32 word \<Rightarrow> 32 word option" where
  "kylin_hash2 k len initval = do {
     let i = JHASH_INITVAL + push_bit 2 len + initval;
     (off, len, s) \<leftarrow> hash2_blocks k 0 len (i, i, i);
     hash2_tail k off len s }"

definition kylin_hash_3words :: "32 word \<Rightarrow> 32 word \<Rightarrow> 32 word \<Rightarrow> 32 word \<Rightarrow> 32 word" where
  "kylin_hash_3words a b c initval =
     (let a = a + JHASH_INITVAL; b = b + JHASH_INITVAL; c = c + initval in snd (snd (kylin_hash_final (a, b, c))))"

definition kylin_hash_2words :: "32 word \<Rightarrow> 32 word \<Rightarrow> 32 word \<Rightarrow> 32 word" where
  "kylin_hash_2words a b initval = kylin_hash_3words a b 0 initval"

definition kylin_hash_1word :: "32 word \<Rightarrow> 32 word \<Rightarrow> 32 word" where
  "kylin_hash_1word a initval = kylin_hash_3words a 0 0 initval"

subsection \<open>Mixing\<close>

definition unmix_line :: "nat \<Rightarrow> hstate \<Rightarrow> hstate" where
  "unmix_line s = (\<lambda>(x, y, z). let z = z - y; x = (x XOR rol32 z s) + z in (x, y, z))"

lemma unmix_line [simp]: "unmix_line s (mix_line s t) = t"
  by (cases t) (simp add: unmix_line_def mix_line_def Let_def xor.assoc)

lemma mix_line_unmix [simp]: "mix_line s (unmix_line s t) = t"
  by (cases t) (simp add: unmix_line_def mix_line_def Let_def xor.assoc)

definition rot3 :: "hstate \<Rightarrow> hstate" where
  "rot3 = (\<lambda>(a, b, c). (b, c, a))"

lemma rot3_cycle [simp]: "rot3 (rot3 (rot3 t)) = t"
  by (cases t) (simp add: rot3_def)

lemma bij_rot3: "bij rot3"
  by (rule o_bij [where g = "rot3 \<circ> rot3"]) (simp_all add: fun_eq_iff)

lemma bij_mix_line: "bij (mix_line s)"
  by (rule o_bij [where g = "unmix_line s"]) (simp_all add: fun_eq_iff)

lemma kylin_hash_mix_lines:
  "kylin_hash_mix = rot3 \<circ> mix_line 4 \<circ> rot3 \<circ> mix_line 19 \<circ> rot3 \<circ> mix_line 16 \<circ>
     rot3 \<circ> mix_line 8 \<circ> rot3 \<circ> mix_line 6 \<circ> rot3 \<circ> mix_line 4"
  by (simp add: fun_eq_iff kylin_hash_mix_def rot3_def split: prod.splits)

text \<open>
  The mixing of three words is reversible, as its comment says: it is a bijection on the states, so
  no two states are mixed into one.
\<close>

theorem kylin_hash_mix_bij: "bij kylin_hash_mix"
  unfolding kylin_hash_mix_lines by (intro bij_comp bij_rot3 bij_mix_line)

subsection \<open>Totality\<close>

lemma load32_append: "off + 3 < length k \<Longrightarrow> load32 (k @ ext) off = load32 k off"
  by (simp add: load32_def nth_append)

lemma load32_some: "off + 3 < length k \<Longrightarrow> \<exists>w. load32 k off = Some w"
  by (simp add: load32_def)

lemma unat_minus12: "len > 12 \<Longrightarrow> unat (len - 12 :: 32 word) = unat len - 12"
  by (simp add: word_less_nat_alt unat_sub_if_size)

lemma hash_blocks_total:
  assumes "off + unat len \<le> length k"
  shows "\<exists>off' len' s'. hash_blocks k off len s = Some (off', len', s') \<and> off' + unat len' = off + unat len
    \<and> unat len' \<le> 12 \<and> hash_blocks (k @ ext) off len s = Some (off', len', s')"
  using assms
proof (induction k off len s rule: hash_blocks.induct)
  case (1 k off len s)
  show ?case
  proof (cases "len > 12")
    case True
    then have l: "unat len > 12" by (simp add: word_less_nat_alt)
    obtain x y z where x: "load32 k off = Some x" and y: "load32 k (off + 4) = Some y" and z: "load32 k (off + 8) = Some z"
      using load32_some [of off k] load32_some [of "off + 4" k] load32_some [of "off + 8" k] 1(2) l by fastforce
    then have "load32 (k @ ext) off = Some x" "load32 (k @ ext) (off + 4) = Some y" "load32 (k @ ext) (off + 8) = Some z"
      using 1(2) l by (simp_all add: load32_append)
    moreover have "off + 12 + unat (len - 12) \<le> length k" using 1(2) l True by (simp add: unat_minus12)
    note 1(1) [OF True x y z this]
    ultimately show ?thesis using x y z True l
      by (auto simp: hash_blocks.simps [of _ off len s] unat_minus12)
  next
    case False
    then show ?thesis using 1(2) by (simp add: hash_blocks.simps [of _ off len s] word_less_nat_alt)
  qed
qed

lemma add_byte_total:
  assumes "off + unat len \<le> length k"
  shows "\<exists>w'. add_byte k off len i sh w = Some w'" "add_byte (k @ ext) off len i sh w = add_byte k off len i sh w"
  using assms by (auto simp: add_byte_def nth_append)

lemma hash_tail_total:
  assumes "off + unat len \<le> length k"
  shows "\<exists>h. hash_tail k off len s = Some h" "hash_tail (k @ ext) off len s = hash_tail k off len s"
proof -
  show "hash_tail (k @ ext) off len s = hash_tail k off len s"
    by (cases s) (simp add: hash_tail_def add_byte_total(2) [OF assms])
  have *: "\<And>i sh w. add_byte k off len i sh w = Some (the (add_byte k off len i sh w))"
    using add_byte_total(1) [OF assms] by (metis option.sel)
  show "\<exists>h. hash_tail k off len s = Some h"
    by (cases s) (simp add: hash_tail_def, subst *, simp, (subst *, simp)+)
qed

text \<open>
  The hash of a byte string is defined for every length up to the size of the key and reads no
  byte behind the given length: whatever follows there does not change the result.
\<close>

theorem kylin_hash_total:
  assumes "unat len \<le> length key"
  shows "\<exists>h. \<forall>ext. kylin_hash (take (unat len) key @ ext) len initval = Some h"
proof -
  let ?k = "take (unat len) key" and ?i = "JHASH_INITVAL + len + initval"
  have l: "0 + unat len \<le> length ?k" using assms by simp
  obtain off' len' s' where b: "hash_blocks ?k 0 len (?i, ?i, ?i) = Some (off', len', s')" "off' + unat len' = unat len"
    using hash_blocks_total [OF l, of "(?i, ?i, ?i)" "[]"] by (metis add_0)
  have "hash_blocks (?k @ ext) 0 len (?i, ?i, ?i) = Some (off', len', s')" for ext
    using hash_blocks_total [OF l, of "(?i, ?i, ?i)" ext] b(1) by auto
  moreover have t: "off' + unat len' \<le> length ?k" using b(2) l by simp
  moreover obtain h where "hash_tail ?k off' len' s' = Some h" using hash_tail_total(1) [OF t] by blast
  ultimately show ?thesis by (auto simp: kylin_hash_def Let_def hash_tail_total(2) [OF t])
qed

theorem kylin_hash_total_witness:
  "\<exists>h. \<forall>ext. kylin_hash ([1, 2, 3] @ ext) 3 0 = Some h"
  using kylin_hash_total [of 3 "[1, 2, 3, 4]" 0] by simp

subsection \<open>Words and bytes\<close>

definition word_bytes :: "32 word \<Rightarrow> kbyte list" where
  "word_bytes w = [ucast w, ucast (drop_bit 8 w), ucast (drop_bit 16 w), ucast (drop_bit 24 w)]"

lemma ucast_byte: "(ucast (ucast (w :: 32 word) :: 8 word) :: 32 word) = take_bit 8 w"
  by (rule bit_word_eqI) (auto simp: bit_simps)

lemma word_bytes_sum:
  "take_bit 8 w + push_bit 8 (take_bit 8 (drop_bit 8 w)) + push_bit 16 (take_bit 8 (drop_bit 16 w))
     + push_bit 24 (take_bit 8 (drop_bit 24 w)) = (w :: 32 word)"
proof -
  have e: "push_bit 8 (drop_bit 8 v) + take_bit 8 v = v" for v :: "32 word" by (rule bits_ident)
  have s: "push_bit n (a + b) = push_bit n a + push_bit n b" for n and a b :: "32 word"
    by (simp add: push_bit_eq_mult algebra_simps)
  have "drop_bit 32 w = 0" by (rule bit_word_eqI) (simp add: bit_simps)
  then have "take_bit 8 (drop_bit 24 w) = drop_bit 24 w" using e [of "drop_bit 24 w"] by simp
  then have "push_bit 24 (take_bit 8 (drop_bit 24 w)) + push_bit 16 (take_bit 8 (drop_bit 16 w)) = push_bit 16 (drop_bit 16 w)"
    using e [of "drop_bit 16 w"] s [of 16 "push_bit 8 (drop_bit 24 w)" "take_bit 8 (drop_bit 16 w)"] by simp
  moreover have "push_bit 16 (drop_bit 16 w) + push_bit 8 (take_bit 8 (drop_bit 8 w)) = push_bit 8 (drop_bit 8 w)"
    using e [of "drop_bit 8 w"] s [of 8 "push_bit 8 (drop_bit 16 w)" "take_bit 8 (drop_bit 8 w)"] by simp
  ultimately show ?thesis using e [of w] by (simp add: algebra_simps)
qed

definition key_bytes :: "32 word list \<Rightarrow> kbyte list" where
  "key_bytes ws = concat (map word_bytes ws)"

lemma length_key_bytes [simp]: "length (key_bytes ws) = 4 * length ws"
  by (induction ws) (simp_all add: key_bytes_def word_bytes_def)

lemma key_bytes_nth:
  "i < length ws \<Longrightarrow> j < 4 \<Longrightarrow> key_bytes ws ! (4 * i + j) = word_bytes (ws ! i) ! j"
proof (induction ws arbitrary: i)
  case (Cons w ws)
  have l: "length (word_bytes w) = 4" by (simp add: word_bytes_def)
  show ?case
  proof (cases i)
    case 0
    then show ?thesis using l Cons.prems(2) by (simp add: key_bytes_def nth_append)
  next
    case (Suc i')
    then have "key_bytes (w # ws) ! (4 * i + j) = key_bytes ws ! (4 * i' + j)"
      using l by (simp add: key_bytes_def nth_append)
    then show ?thesis using Cons Suc by simp
  qed
qed simp

lemma key_bytes_get:
  assumes "i < length ws"
  shows "key_bytes ws ! (4 * i) = ucast (ws ! i)"
    "key_bytes ws ! Suc (4 * i) = ucast (drop_bit 8 (ws ! i))"
    "key_bytes ws ! Suc (Suc (4 * i)) = ucast (drop_bit 16 (ws ! i))"
    "key_bytes ws ! (4 * i + 3) = ucast (drop_bit 24 (ws ! i))"
  using key_bytes_nth [OF assms, of 0] key_bytes_nth [OF assms, of 1] key_bytes_nth [OF assms, of 2]
    key_bytes_nth [OF assms, of 3] by (simp_all add: word_bytes_def)

lemma load32_key_bytes: "i < length ws \<Longrightarrow> load32 (key_bytes ws) (4 * i) = Some (ws ! i)"
  using word_bytes_sum [of "ws ! i"] by (simp add: load32_def key_bytes_get ucast_byte)

text \<open>The last block of words, added byte by byte from the top.\<close>

lemma add_bytes_word:
  assumes "off + i < length ws" "unat len = 4 * unat n" "unat n > i"
  shows "do { w \<leftarrow> add_byte (key_bytes ws) (4 * off) len (4 * i + 3) 24 w;
      w \<leftarrow> add_byte (key_bytes ws) (4 * off) len (4 * i + 2) 16 w;
      w \<leftarrow> add_byte (key_bytes ws) (4 * off) len (4 * i + 1) 8 w;
      add_byte (key_bytes ws) (4 * off) len (4 * i) 0 w } = Some (w + ws ! (off + i))"
proof -
  let ?K = "key_bytes ws" and ?v = "ws ! (off + i)"
  have lt: "4 * (off + i) + 3 < length ?K" using assms(1) by simp
  have lo: "4 * i + 3 < unat len" using assms(2,3) by simp
  have b3: "add_byte ?K (4 * off) len (4 * i + 3) 24 w = Some (w + push_bit 24 (take_bit 8 (drop_bit 24 ?v)))" for w
  proof -
    have "arr_get ?K (4 * off + (4 * i + 3)) = Some (ucast (drop_bit 24 ?v))"
      using key_bytes_get(4) [OF assms(1)] lt by (simp add: algebra_simps)
    then show ?thesis using lo by (simp add: add_byte_def ucast_byte)
  qed
  have b2: "add_byte ?K (4 * off) len (4 * i + 2) 16 w = Some (w + push_bit 16 (take_bit 8 (drop_bit 16 ?v)))" for w
  proof -
    have "arr_get ?K (4 * off + (4 * i + 2)) = Some (ucast (drop_bit 16 ?v))"
      using key_bytes_get(3) [OF assms(1)] lt by (simp add: algebra_simps)
    then show ?thesis using lo by (simp add: add_byte_def ucast_byte)
  qed
  have b1: "add_byte ?K (4 * off) len (4 * i + 1) 8 w = Some (w + push_bit 8 (take_bit 8 (drop_bit 8 ?v)))" for w
  proof -
    have "arr_get ?K (4 * off + (4 * i + 1)) = Some (ucast (drop_bit 8 ?v))"
      using key_bytes_get(2) [OF assms(1)] lt by (simp add: algebra_simps)
    then show ?thesis using lo by (simp add: add_byte_def ucast_byte)
  qed
  have b0: "add_byte ?K (4 * off) len (4 * i) 0 w = Some (w + take_bit 8 ?v)" for w
  proof -
    have "arr_get ?K (4 * off + 4 * i) = Some (ucast ?v)"
      using key_bytes_get(1) [OF assms(1)] lt by (simp add: algebra_simps)
    then show ?thesis using lo by (simp add: add_byte_def ucast_byte)
  qed
  have "w + push_bit 24 (take_bit 8 (drop_bit 24 ?v)) + push_bit 16 (take_bit 8 (drop_bit 16 ?v))
      + push_bit 8 (take_bit 8 (drop_bit 8 ?v)) + take_bit 8 ?v = w + (take_bit 8 ?v + push_bit 8 (take_bit 8 (drop_bit 8 ?v))
      + push_bit 16 (take_bit 8 (drop_bit 16 ?v)) + push_bit 24 (take_bit 8 (drop_bit 24 ?v)))"
    by (simp only: ac_simps)
  also have "\<dots> = w + ?v" by (simp only: word_bytes_sum)
  finally have "w + push_bit 24 (take_bit 8 (drop_bit 24 ?v)) + push_bit 16 (take_bit 8 (drop_bit 16 ?v))
      + push_bit 8 (take_bit 8 (drop_bit 8 ?v)) + take_bit 8 ?v = w + ?v" .
  then show ?thesis by (simp only: b3 b2 b1 b0 bind.bind_lunit)
qed

lemma add_bytes_none:
  assumes "unat len = 4 * unat n" "\<not> unat n > i"
  shows "add_byte k off len (4 * i + 3) sh w = Some w" "add_byte k off len (4 * i + 2) sh w = Some w"
    "add_byte k off len (4 * i + 1) sh w = Some w" "add_byte k off len (4 * i) sh w = Some w"
  using assms by (simp_all add: add_byte_def)

lemma add_bytes_step:
  assumes "off + unat n \<le> length ws" "unat len = 4 * unat n"
    and "j3 = 4 * i + 3" "j2 = 4 * i + 2" "j1 = 4 * i + 1" "j0 = 4 * i"
  shows "do { w \<leftarrow> add_byte (key_bytes ws) (4 * off) len j3 24 w;
      w \<leftarrow> add_byte (key_bytes ws) (4 * off) len j2 16 w;
      w \<leftarrow> add_byte (key_bytes ws) (4 * off) len j1 8 w;
      w \<leftarrow> add_byte (key_bytes ws) (4 * off) len j0 0 w; f w } = add_word ws off n i w \<bind> f"
proof (cases "unat n > i")
  case True
  have "do { w \<leftarrow> add_byte (key_bytes ws) (4 * off) len j3 24 w;
      w \<leftarrow> add_byte (key_bytes ws) (4 * off) len j2 16 w;
      w \<leftarrow> add_byte (key_bytes ws) (4 * off) len j1 8 w;
      add_byte (key_bytes ws) (4 * off) len j0 0 w } = Some (w + ws ! (off + i))"
    unfolding assms(3-6) using assms(1,2) True by (intro add_bytes_word) simp_all
  then show ?thesis using True assms(1) by (auto simp: add_word_def bind_eq_Some_conv)
next
  case False
  then show ?thesis unfolding assms(3-6) using add_bytes_none [OF assms(2)] by (simp add: add_word_def)
qed

lemma hash_tail_words:
  assumes "off + unat n \<le> length ws" "unat len = 4 * unat n"
  shows "hash_tail (key_bytes ws) (4 * off) len s = hash2_tail ws off n s"
proof -
  have z: "len = 0 \<longleftrightarrow> n = 0" using assms(2) by (simp add: unat_eq_zero [symmetric] del: unat_eq_zero)
  show ?thesis
    by (cases s) (simp add: hash_tail_def hash2_tail_def z add_bytes_step [OF assms, of 11 2 10 9 8]
        add_bytes_step [OF assms, of 7 1 6 5 4] add_bytes_step [OF assms, of 3 0 2 1 0] del: One_nat_def)
qed

lemma hash_blocks_words:
  assumes "off + unat n \<le> length ws" "unat len = 4 * unat n"
  shows "\<exists>off' len' n' s'. hash2_blocks ws off n s = Some (off', n', s') \<and> off' + unat n' \<le> length ws
    \<and> unat len' = 4 * unat n' \<and> hash_blocks (key_bytes ws) (4 * off) len s = Some (4 * off', len', s')"
  using assms
proof (induction ws off n s arbitrary: len rule: hash2_blocks.induct)
  case (1 ws off n s)
  show ?case
  proof (cases "n > 3")
    case True
    then have n: "unat n > 3" by (simp add: word_less_nat_alt)
    then have l: "len > 12" using 1(3) by (simp add: word_less_nat_alt)
    have n': "unat (n - 3) = unat n - 3" using n True by (simp add: unat_sub_if_size word_less_nat_alt)
    have lt: "off < length ws" "off + 1 < length ws" "off + 2 < length ws" using 1(2) n by simp_all
    let ?s = "kylin_hash_mix (case s of (a, b, c) \<Rightarrow> (a + ws ! off, b + ws ! (off + 1), c + ws ! (off + 2)))"
    have ih: "\<exists>off' len' n' s'. hash2_blocks ws (off + 3) (n - 3) ?s = Some (off', n', s') \<and> off' + unat n' \<le> length ws
      \<and> unat len' = 4 * unat n' \<and> hash_blocks (key_bytes ws) (4 * (off + 3)) (len - 12) ?s = Some (4 * off', len', s')"
      using True lt n n' 1(2,3) l by (intro 1(1)) (simp_all add: unat_minus12)
    have ld: "load32 (key_bytes ws) (4 * off) = Some (ws ! off)"
      "load32 (key_bytes ws) (4 * off + 4) = Some (ws ! (off + 1))" "load32 (key_bytes ws) (4 * off + 8) = Some (ws ! (off + 2))"
      using load32_key_bytes [OF lt(1)] load32_key_bytes [OF lt(2)] load32_key_bytes [OF lt(3)] by (simp_all add: add.commute)
    have "hash2_blocks ws off n s = hash2_blocks ws (off + 3) (n - 3) ?s"
      using True lt by (subst hash2_blocks.simps) (simp del: add_2_eq_Suc' One_nat_def)
    moreover have "hash_blocks (key_bytes ws) (4 * off) len s = hash_blocks (key_bytes ws) (4 * (off + 3)) (len - 12) ?s"
      using l ld by (subst hash_blocks.simps) (simp add: add.commute del: add_2_eq_Suc' One_nat_def)
    ultimately show ?thesis using ih by (simp only:)
  next
    case False
    then have "\<not> len > 12" using 1(3) by (simp add: word_less_nat_alt)
    then show ?thesis using False 1(2,3)
      by (subst hash2_blocks.simps, subst hash_blocks.simps) simp
  qed
qed

text \<open>
  C24. On this little-endian machine the hash of an array of words is the hash of its bytes: the word version is
  an optimisation of the byte version, for every array of less than a billion words.
\<close>

theorem kylin_hash2_is_kylin_hash:
  assumes "unat n \<le> length ws" "unat n < 2 ^ 30"
  shows "kylin_hash2 ws n initval = kylin_hash (key_bytes ws) (4 * n) initval"
proof -
  have l: "unat (4 * n) = 4 * unat n" using assms(2) by (simp add: unat_word_ariths)
  let ?i = "JHASH_INITVAL + push_bit 2 n + initval"
  have i: "push_bit 2 n = 4 * n" by (simp add: push_bit_eq_mult)
  obtain off' len' n' s' where b: "hash2_blocks ws 0 n (?i, ?i, ?i) = Some (off', n', s')" "off' + unat n' \<le> length ws"
    "unat len' = 4 * unat n'" "hash_blocks (key_bytes ws) 0 (4 * n) (?i, ?i, ?i) = Some (4 * off', len', s')"
    using hash_blocks_words [of 0 n ws "4 * n" "(?i, ?i, ?i)"] assms(1) l by auto
  then show ?thesis
    by (simp add: kylin_hash2_def kylin_hash_def Let_def i hash_tail_words)
qed

theorem kylin_hash2_is_kylin_hash_witness:
  "kylin_hash2 [1, 0x01020304] 2 7 = kylin_hash [1, 0, 0, 0, 4, 3, 2, 1] 8 7"
proof -
  have "key_bytes [1, 0x01020304] = [1, 0, 0, 0, 4, 3, 2, 1]"
    by code_simp
  then show ?thesis using kylin_hash2_is_kylin_hash [of 2 "[1, 0x01020304]" 7] by simp
qed

end
