(* ===== verification/Kylin_Autoid.thy ===== *)
theory Kylin_Autoid
  imports Kylin_Bitmap
begin

section \<open>Automatic ids (lib/core/math/kylin_autoid.c)\<close>

text \<open>
  An id allocator over a bitmap. Only creation and destruction have a body in the source; the
  other functions are empty, and those that return a value run off their end, so that the value a
  caller reads is undefined (\<open>None\<close>).
\<close>

subsection \<open>Definitions\<close>

abbreviation AUTOID_STATE_MAGIC :: nat where
  "AUTOID_STATE_MAGIC \<equiv> 32"

record kautoid =
  auto_max_id :: "32 word"
  auto_used :: "32 word"
  auto_state :: "32 word list"
  auto_index :: kbitmap

text \<open>The two allocations are arguments; \<open>Some None\<close> is the null pointer.\<close>

definition kylin_autoid_create :: "bool \<Rightarrow> bool \<Rightarrow> 16 word \<Rightarrow> kautoid option option" where
  "kylin_autoid_create ok index_ok max_id =
     (if \<not> ok then Some None
      else do {
        m \<leftarrow> (if \<not> kylin_is_pow_of_two (ucast max_id) then map_option ucast (kylin_roundup_pow_of_two (ucast max_id))
              else Some 0);
        Some (case kylin_bitmap_create index_ok \<lparr>cap = ucast m, guard_ctor = None\<rparr> of
            None \<Rightarrow> None
          | Some index \<Rightarrow> Some \<lparr>auto_max_id = m, auto_used = 0, auto_state = replicate AUTOID_STATE_MAGIC 0,
                                auto_index = index\<rparr>) })"

text \<open>Destroying frees the bitmap's block and then the guard.\<close>

datatype auto_free = FreeIndex | FreeGuard

definition kylin_autoid_destroy :: "bool \<Rightarrow> auto_free list" where
  "kylin_autoid_destroy has_index = (if has_index then [FreeIndex] else []) @ [FreeGuard]"

definition kylin_autoid_clear :: "kautoid \<Rightarrow> kautoid" where
  "kylin_autoid_clear guard = guard"

definition kylin_autoid_total_count :: "kautoid \<Rightarrow> 32 word option" where
  "kylin_autoid_total_count guard = None"

definition kylin_autoid_unset_count :: "kautoid \<Rightarrow> 32 word option" where
  "kylin_autoid_unset_count guard = None"

definition kylin_autoid_get :: "kautoid \<Rightarrow> 32 word option" where
  "kylin_autoid_get guard = None"

definition kylin_autoid_put :: "kautoid \<Rightarrow> 16 word \<Rightarrow> kerr option" where
  "kylin_autoid_put guard i = None"

definition kylin_autoid_set :: "kautoid \<Rightarrow> 16 word \<Rightarrow> kerr option" where
  "kylin_autoid_set guard i = None"

subsection \<open>Capacity\<close>

lemma bitmap_create_malloc:
  "kylin_bitmap_create True \<lparr>cap = c, guard_ctor = None\<rparr> =
     Some \<lparr>bm_opts = \<lparr>cap = c, guard_ctor = None\<rparr>, bm_size = BITS_TO_WORDS c, bm_val = replicate (BITS_TO_WORDS c) 0\<rparr>"
  by (simp add: kylin_bitmap_create_def kylin_malloc_def Let_def)

lemma unat_ucast16 [simp]: "unat (ucast (x :: 16 word) :: kword) = unat x"
proof -
  have "unat x < 2 ^ 16" using unsigned_less [of x, where ?'a = nat] by simp
  then show ?thesis by (simp add: unsigned_ucast_eq take_bit_nat_eq_self)
qed

lemma ucast16_ge2: "2 \<le> unat (max_id :: 16 word) \<Longrightarrow> (2 :: kword) \<le> ucast max_id"
  by (simp add: word_le_nat_alt)

text \<open>
  C33. An id allocator for a maximum that is a power of two is created with room for no id at all,
  because the maximum is only stored when it had to be rounded; any other maximum from 3 is
  rounded down, so the allocator has fewer ids than it was asked for, but at least half of them.
\<close>

theorem kylin_autoid_create_capacity:
  assumes "2 \<le> unat max_id"
  shows "\<exists>guard. kylin_autoid_create True True max_id = Some (Some guard)
    \<and> (if kylin_is_pow_of_two (ucast max_id)
       then auto_max_id guard = 0 \<and> bm_val (auto_index guard) = []
       else unat (auto_max_id guard) < unat max_id \<and> unat max_id \<le> 2 * unat (auto_max_id guard)
          \<and> kylin_is_pow_of_two (ucast (auto_max_id guard))
          \<and> length (bm_val (auto_index guard)) = BITS_TO_WORDS (ucast (auto_max_id guard) :: ksize))"
proof (cases "kylin_is_pow_of_two (ucast max_id)")
  case True
  have "BITS_TO_WORDS (0 :: ksize) = 0" by (simp add: BITS_TO_WORDS_def)
  with True show ?thesis by (simp add: kylin_autoid_create_def bitmap_create_malloc)
next
  case False
  obtain k where k: "kylin_roundup_pow_of_two (ucast max_id) = Some (2 ^ k)" "2 ^ k < unat (ucast max_id :: kword)"
      "unat (ucast max_id :: kword) \<le> 2 ^ Suc k" "k < 64"
    using roundup_pow_of_two_spec [OF ucast16_ge2 [OF assms]] by blast
  have m: "unat (ucast max_id :: kword) = unat max_id" by simp
  have "unat max_id < 2 ^ 16" using unsigned_less [of max_id] by simp
  then have "(2 :: nat) ^ k < 2 ^ 16" using k(2) m by simp
  then have k16: "k < 16" by (rule power_less_imp_less_exp [rotated]) simp
  have lt: "(2 :: nat) ^ k < 2 ^ 32" using k16 by (intro power_strict_increasing) simp_all
  have u: "unat (2 ^ k :: 32 word) = 2 ^ k" "unat (2 ^ k :: kword) = 2 ^ k" using k16 by (simp_all add: unat_pow2)
  have e: "(ucast (2 ^ k :: kword) :: 32 word) = 2 ^ k"
    by (rule word_unat_eq_iff [THEN iffD2]) (use u lt k16 in \<open>simp add: unsigned_ucast_eq take_bit_nat_eq_self\<close>)
  have e': "(ucast (2 ^ k :: 32 word) :: kword) = 2 ^ k"
    by (rule word_unat_eq_iff [THEN iffD2]) (use u lt k16 in \<open>simp add: unsigned_ucast_eq take_bit_nat_eq_self\<close>)
  have "kylin_is_pow_of_two (2 ^ k)" using k(4) kylin_is_pow_of_two_iff by blast
  then show ?thesis using False k m e e' u by (simp add: kylin_autoid_create_def bitmap_create_malloc)
qed

theorem kylin_autoid_create_capacity_witness:
  "\<exists>guard. kylin_autoid_create True True 64 = Some (Some guard) \<and> auto_max_id guard = 0"
proof -
  have "kylin_is_pow_of_two (ucast (64 :: 16 word))" by code_simp
  moreover have "2 \<le> unat (64 :: 16 word)" by simp
  ultimately show ?thesis using kylin_autoid_create_capacity [of 64] by auto
qed

end
