(* ===== verification/Kylin_Addr.thy ===== *)
theory Kylin_Addr
  imports Kylin_Slices
begin

section \<open>Network addresses (include/utils/kylin_addr.h)\<close>

text \<open>
  An address is the union of its views, that is its 16 bytes; a 32-bit view is read in the
  little-endian order of the target, and \<^verbatim>\<open>ntohl\<close> of it in big-endian order. The socket address
  structures are the byte layouts of the system's headers: the family in bytes 0 and 1, the port
  in bytes 2 and 3, an IPv4 address in bytes 4 to 7, an IPv6 address in bytes 8 to 23.
\<close>

subsection \<open>Definitions\<close>

abbreviation AF_INET :: kbyte where "AF_INET \<equiv> 2"
abbreviation AF_INET6 :: kbyte where "AF_INET6 \<equiv> 10"

type_synonym ip_addr = "kbyte list"

definition ip_wf :: "ip_addr \<Rightarrow> bool" where
  "ip_wf a \<longleftrightarrow> length a = 16"

text \<open>The number that a list of bytes writes in big-endian order, and in little-endian order.\<close>

fun be_num :: "kbyte list \<Rightarrow> nat" where
  "be_num [] = 0"
| "be_num (b # bs) = unat b * 256 ^ length bs + be_num bs"

definition le_num :: "kbyte list \<Rightarrow> nat" where
  "le_num bs = be_num (rev bs)"

definition addr32 :: "ip_addr \<Rightarrow> nat \<Rightarrow> 32 word" where
  "addr32 a i = of_nat (le_num (take 4 (drop (4 * i) a)))"

definition addr64 :: "ip_addr \<Rightarrow> nat \<Rightarrow> 64 word" where
  "addr64 a i = of_nat (le_num (take 8 (drop (8 * i) a)))"

definition ntohl32 :: "ip_addr \<Rightarrow> nat \<Rightarrow> 32 word" where
  "ntohl32 a i = of_nat (be_num (take 4 (drop (4 * i) a)))"

definition set_addr32 :: "ip_addr \<Rightarrow> nat \<Rightarrow> kbyte list \<Rightarrow> ip_addr" where
  "set_addr32 a i bs = take (4 * i) a @ bs @ drop (4 * i + 4) a"

definition get_addr32 :: "ip_addr \<Rightarrow> nat \<Rightarrow> kbyte list" where
  "get_addr32 a i = take 4 (drop (4 * i) a)"

definition kylin_addr_comp :: "kbyte \<Rightarrow> ip_addr \<Rightarrow> ip_addr \<Rightarrow> int" where
  "kylin_addr_comp af a b =
     (if af = AF_INET then
        if ntohl32 a 0 > ntohl32 b 0 then 1 else if ntohl32 a 0 < ntohl32 b 0 then -1 else 0
      else
        if ntohl32 a 0 > ntohl32 b 0 then 1 else if ntohl32 a 0 < ntohl32 b 0 then -1 else
        if ntohl32 a 1 > ntohl32 b 1 then 1 else if ntohl32 a 1 < ntohl32 b 1 then -1 else
        if ntohl32 a 2 > ntohl32 b 2 then 1 else if ntohl32 a 2 < ntohl32 b 2 then -1 else
        if ntohl32 a 3 > ntohl32 b 3 then 1 else if ntohl32 a 3 < ntohl32 b 3 then -1 else 0)"

definition kylin_addr_zero :: "kbyte \<Rightarrow> ip_addr \<Rightarrow> ip_addr" where
  "kylin_addr_zero af a =
     (if af = AF_INET then set_addr32 a 0 [0, 0, 0, 0]
      else let a = set_addr32 a 0 [0, 0, 0, 0]; a = set_addr32 a 1 [0, 0, 0, 0];
               a = set_addr32 a 2 [0, 0, 0, 0]; a = set_addr32 a 3 [0, 0, 0, 0] in a)"

definition kylin_addr_copy :: "kbyte \<Rightarrow> ip_addr \<Rightarrow> ip_addr \<Rightarrow> ip_addr" where
  "kylin_addr_copy af dst src =
     (if af = AF_INET then set_addr32 dst 0 (get_addr32 src 0)
      else let dst = set_addr32 dst 0 (get_addr32 src 0); dst = set_addr32 dst 1 (get_addr32 src 1);
               dst = set_addr32 dst 2 (get_addr32 src 2); dst = set_addr32 dst 3 (get_addr32 src 3) in dst)"

definition kylin_addr_is_zero :: "kbyte \<Rightarrow> ip_addr \<Rightarrow> bool" where
  "kylin_addr_is_zero af a = (if af = AF_INET then addr32 a 0 = 0 else addr64 a 0 + addr64 a 1 = 0)"

definition kylin_addr_is_max :: "kbyte \<Rightarrow> ip_addr \<Rightarrow> bool" where
  "kylin_addr_is_max af a =
     (if af = AF_INET then addr32 a 0 = 0xffffffff
      else addr64 a 0 = 0xffffffffffffffff \<and> addr64 a 1 = 0xffffffffffffffff)"

subsubsection \<open>Socket addresses\<close>

abbreviation SOCKADDR_IN6_SIZE :: nat where "SOCKADDR_IN6_SIZE \<equiv> 28"

text \<open>The result is the family and the address.\<close>

definition kylin_addr_sockaddr_2_paddr :: "kbyte list \<Rightarrow> (kbyte \<times> ip_addr) option" where
  "kylin_addr_sockaddr_2_paddr sock = do {
     fam \<leftarrow> buf_read sock 0 2;
     if fam = [AF_INET, 0] then do {
       v4 \<leftarrow> buf_read sock 4 4;
       Some (AF_INET, v4 @ replicate 12 0) }
     else do {
       v6 \<leftarrow> buf_read sock 8 16;
       Some (AF_INET, v6) } }"

definition kylin_addr_sockaddr_2_paddr_af :: "kbyte list \<Rightarrow> kbyte \<Rightarrow> ip_addr option" where
  "kylin_addr_sockaddr_2_paddr_af sock af =
     (if af = AF_INET then do { v4 \<leftarrow> buf_read sock 4 4; Some (v4 @ replicate 12 0) }
      else buf_read sock 8 16)"

definition kylin_addr_paddr_2_sockaddr_af :: "kbyte \<Rightarrow> ip_addr \<Rightarrow> kbyte list \<Rightarrow> kbyte list option" where
  "kylin_addr_paddr_2_sockaddr_af af a sock =
     (if af = AF_INET then do {
        sock \<leftarrow> buf_write sock 0 [AF_INET, 0];
        sock \<leftarrow> buf_write sock 2 [0, 0];
        buf_write sock 4 (take 4 a) }
      else do {
        sock \<leftarrow> buf_write sock 0 (replicate SOCKADDR_IN6_SIZE 0);
        sock \<leftarrow> buf_write sock 0 [AF_INET6, 0];
        buf_write sock 8 a })"

subsubsection \<open>Network masks\<close>

text \<open>The loop over the full bytes, which also counts down the bits; the result is \<open>n\<close>.\<close>

function mask_full :: "kbyte \<Rightarrow> ip_addr \<Rightarrow> nat \<Rightarrow> (kbyte \<times> ip_addr \<times> nat) option" where
  "mask_full bits a n =
     (if bits \<ge> 8 then do { a \<leftarrow> arr_set a n 0xff; mask_full (bits - 8) a (n + 1) } else Some (bits, a, n))"
  by pat_completeness auto
termination
  by (relation "measure (\<lambda>(bits, a, n). unat bits)") (auto simp: word_le_nat_alt unat_sub_if_size word_less_nat_alt)

declare mask_full.simps [simp del]

definition kylin_addr_maskbits_2_maskaddr :: "kbyte \<Rightarrow> kbyte \<Rightarrow> ip_addr \<Rightarrow> ip_addr option" where
  "kylin_addr_maskbits_2_maskaddr af bits a =
     (let mx = (if af = AF_INET then 4 else 16);
          bits = (if af = AF_INET \<and> bits > 32 then 32 else if bits > 128 then 128 else bits) in do {
        (bits, a, n) \<leftarrow> mask_full bits a 0;
        (a, n) \<leftarrow> (if bits > 0 then do { a \<leftarrow> arr_set a n (NOT (push_bit (8 - unat bits) 1 - 1)); Some (a, n + 1) }
                  else Some (a, n));
        for_loop [n..<mx] (\<lambda>i a. arr_set a i 0) a })"

text \<open>The inner loop counts the bits until the byte is shifted out.\<close>

function count_shifts :: "kbyte \<Rightarrow> kbyte \<Rightarrow> kbyte" where
  "count_shifts v bits = (if v > 0 then count_shifts (push_bit 1 v) (bits + 1) else bits)"
  by pat_completeness auto
termination
proof (relation "measure (\<lambda>(v, bits). LEAST k. push_bit k v = 0)", simp, goal_cases)
  case (1 v bits)
  have ex: "push_bit 8 v = 0" by (rule bit_word_eqI) (simp add: bit_simps)
  let ?k = "LEAST k. push_bit k v = 0"
  have k: "push_bit ?k v = 0" by (rule LeastI [of "\<lambda>k. push_bit k v = 0", OF ex])
  have "?k \<noteq> 0" using 1 k by (metis push_bit_0_id id_apply less_irrefl)
  then obtain j where j: "?k = Suc j" by (metis not0_implies_Suc)
  have "push_bit j (push_bit 1 v) = 0" using k j by (simp add: push_bit_push_bit)
  then have "(LEAST k. push_bit k (push_bit 1 v) = 0) \<le> j" by (rule Least_le)
  then show ?case using j by simp
qed

declare count_shifts.simps [simp del]

fun mask_bytes :: "kbyte list \<Rightarrow> kbyte \<Rightarrow> kbyte" where
  "mask_bytes [] bits = bits"
| "mask_bytes (v # vs) bits = (if v = 0xff then mask_bytes vs (bits + 8) else count_shifts v bits)"

definition kylin_addr_maskaddr_2_maskbits :: "kbyte \<Rightarrow> ip_addr \<Rightarrow> kbyte" where
  "kylin_addr_maskaddr_2_maskbits af a = mask_bytes (take (if af = AF_INET then 4 else 16) a) 0"

definition kylin_addr_broadaddr :: "kbyte \<Rightarrow> ip_addr \<Rightarrow> ip_addr \<Rightarrow> ip_addr \<Rightarrow> ip_addr option" where
  "kylin_addr_broadaddr af a msk bc =
     for_loop [0..<(if af = AF_INET then 4 else 16)]
       (\<lambda>i bc. do { x \<leftarrow> arr_get a i; y \<leftarrow> arr_get msk i; arr_set bc i (x OR NOT y) }) bc"

subsubsection \<open>Tuples of hosts\<close>

record kylin_host =
  host_addr :: ip_addr
  host_port :: "16 word"

record kylin_host_tuple =
  ht_proto :: kbyte
  ht_src :: kylin_host
  ht_dst :: kylin_host

definition kylin_host_tuple_copy :: "kylin_host_tuple \<Rightarrow> kylin_host_tuple \<Rightarrow> kylin_host_tuple" where
  "kylin_host_tuple_copy dst src = src"

definition kylin_host_tuple_invert :: "kbyte \<Rightarrow> kylin_host_tuple \<Rightarrow> kylin_host_tuple" where
  "kylin_host_tuple_invert af t =
     (let s = ht_src t; d = ht_dst t;
          port = host_port s;
          s = s\<lparr>host_port := host_port d\<rparr>;
          d = d\<lparr>host_port := port\<rparr> in
      if af = AF_INET then
        let addrx = get_addr32 (host_addr s) 0;
            s = s\<lparr>host_addr := set_addr32 (host_addr s) 0 (get_addr32 (host_addr d) 0)\<rparr>;
            d = d\<lparr>host_addr := set_addr32 (host_addr d) 0 addrx\<rparr>
        in t\<lparr>ht_src := s, ht_dst := d\<rparr>
      else
        let addr = kylin_addr_copy af (replicate 16 0) (host_addr s);
            s = s\<lparr>host_addr := kylin_addr_copy af (host_addr s) (host_addr d)\<rparr>;
            d = d\<lparr>host_addr := kylin_addr_copy af (host_addr d) addr\<rparr>
        in t\<lparr>ht_src := s, ht_dst := d\<rparr>)"

definition addr_equal :: "kbyte \<Rightarrow> ip_addr \<Rightarrow> ip_addr \<Rightarrow> bool" where
  "addr_equal af a b =
     (if af = AF_INET then addr32 a 0 = addr32 b 0
      else addr32 a 0 = addr32 b 0 \<and> addr32 a 1 = addr32 b 1 \<and> addr32 a 2 = addr32 b 2 \<and> addr32 a 3 = addr32 b 3)"

definition kylin_host_tuple_src_equal :: "kbyte \<Rightarrow> kylin_host_tuple \<Rightarrow> kylin_host_tuple \<Rightarrow> bool" where
  "kylin_host_tuple_src_equal af t1 t2 \<longleftrightarrow> ht_proto t1 = ht_proto t2 \<and> host_port (ht_src t1) = host_port (ht_src t2)
     \<and> addr_equal af (host_addr (ht_src t1)) (host_addr (ht_src t2))"

definition kylin_host_tuple_dst_equal :: "kbyte \<Rightarrow> kylin_host_tuple \<Rightarrow> kylin_host_tuple \<Rightarrow> bool" where
  "kylin_host_tuple_dst_equal af t1 t2 \<longleftrightarrow> ht_proto t1 = ht_proto t2 \<and> host_port (ht_dst t1) = host_port (ht_dst t2)
     \<and> addr_equal af (host_addr (ht_dst t1)) (host_addr (ht_dst t2))"

definition kylin_host_tuple_equal :: "kbyte \<Rightarrow> kylin_host_tuple \<Rightarrow> kylin_host_tuple \<Rightarrow> bool" where
  "kylin_host_tuple_equal af t1 t2 \<longleftrightarrow> kylin_host_tuple_src_equal af t1 t2 \<and> kylin_host_tuple_dst_equal af t1 t2"

definition masked32 :: "ip_addr \<Rightarrow> ip_addr \<Rightarrow> ip_addr \<Rightarrow> nat \<Rightarrow> 32 word" where
  "masked32 a b m i = (addr32 a i XOR addr32 b i) AND addr32 m i"

definition kylin_host_tuple_mask_cmp :: "kbyte \<Rightarrow> kylin_host_tuple \<Rightarrow> kylin_host_tuple \<Rightarrow> kylin_host_tuple \<Rightarrow> bool" where
  "kylin_host_tuple_mask_cmp af t tuple msk =
     (let s = masked32 (host_addr (ht_src t)) (host_addr (ht_src tuple)) (host_addr (ht_src msk));
          d = masked32 (host_addr (ht_dst t)) (host_addr (ht_dst tuple)) (host_addr (ht_dst msk)) in
      if (ht_proto t XOR ht_proto tuple) AND ht_proto msk = 0
          \<and> (host_port (ht_src t) XOR host_port (ht_src tuple)) AND host_port (ht_src msk) = 0
          \<and> (host_port (ht_dst t) XOR host_port (ht_dst tuple)) AND host_port (ht_dst msk) = 0
      then if af = AF_INET then s 0 = 0 \<and> d 0 = 0
           else s 0 = 0 \<and> d 0 = 0 \<and> s 1 = 0 \<and> d 1 = 0 \<and> s 2 = 0 \<and> d 2 = 0 \<and> s 3 = 0 \<and> d 3 = 0
      else False)"

subsection \<open>Numbers and bytes\<close>

lemma be_num_append: "be_num (xs @ ys) = be_num xs * 256 ^ length ys + be_num ys"
  by (induction xs) (simp_all add: algebra_simps power_add)

lemma be_num_less: "be_num xs < 256 ^ length xs"
proof (induction xs)
  case (Cons b bs)
  have "unat b < 256" using unsigned_less [of b, where ?'a = nat] by simp
  then have "Suc (unat b) * 256 ^ length bs \<le> 256 * 256 ^ length bs" by (intro mult_le_mono1) simp
  moreover have "be_num (b # bs) < Suc (unat b) * 256 ^ length bs" using Cons by simp
  ultimately have "be_num (b # bs) < 256 * 256 ^ length bs" by (rule less_le_trans [rotated])
  then show ?case by simp
qed simp

lemma ntohl32_num:
  assumes "ip_wf a" "i < 4"
  shows "unat (ntohl32 a i) = be_num (take 4 (drop (4 * i) a))"
proof -
  have "length (take 4 (drop (4 * i) a)) = 4" using assms by (simp add: ip_wf_def)
  then have "be_num (take 4 (drop (4 * i) a)) < 2 ^ 32" using be_num_less [of "take 4 (drop (4 * i) a)"] by simp
  then show ?thesis by (simp add: ntohl32_def unat_of_nat)
qed

lemma ip_words:
  assumes "ip_wf a"
  shows "be_num a = ((unat (ntohl32 a 0) * 2 ^ 32 + unat (ntohl32 a 1)) * 2 ^ 32 + unat (ntohl32 a 2)) * 2 ^ 32 + unat (ntohl32 a 3)"
proof -
  have l: "length a = 16" using assms by (simp add: ip_wf_def)
  have "drop 4 a = take 4 (drop 4 a) @ drop 8 a" "drop 8 a = take 4 (drop 8 a) @ drop 12 a" "drop 12 a = take 4 (drop 12 a)"
    using append_take_drop_id [of 4 "drop 4 a"] append_take_drop_id [of 4 "drop 8 a"] l by simp_all
  then have "a = take 4 a @ take 4 (drop 4 a) @ take 4 (drop 8 a) @ take 4 (drop 12 a)"
    using append_take_drop_id [of 4 a] by metis
  then have "be_num a = be_num (take 4 a @ take 4 (drop 4 a) @ take 4 (drop 8 a) @ take 4 (drop 12 a))" by simp
  also have "\<dots> = ((be_num (take 4 a) * 2 ^ 32 + be_num (take 4 (drop 4 a))) * 2 ^ 32 + be_num (take 4 (drop 8 a))) * 2 ^ 32
      + be_num (take 4 (drop 12 a))"
    using l by (simp add: be_num_append)
  finally show ?thesis using assms by (simp add: ntohl32_num)
qed

lemma num_eq: "y < B \<Longrightarrow> y' < (B :: nat) \<Longrightarrow> x * B + y = x' * B + y' \<longleftrightarrow> x = x' \<and> y = y'"
  by (metis add.commute add_right_cancel div_mult_self1 div_less mod_less mod_mult_self1 not_less_zero add_0 mult.commute)

text \<open>The three-way comparison of numbers.\<close>

definition ncmp :: "nat \<Rightarrow> nat \<Rightarrow> int" where
  "ncmp x y = (if x > y then 1 else if x < y then -1 else 0)"

lemma num_ncmp:
  assumes "y < B" "y' < (B :: nat)"
  shows "ncmp (x * B + y) (x' * B + y') = (if x = x' then ncmp y y' else ncmp x x')"
proof -
  have lt: "u * B + v < u' * B + v'" if "u < u'" "v < B" for u u' v v'
  proof -
    have "Suc u * B \<le> u' * B" using that(1) by (intro mult_le_mono1) simp
    then show ?thesis using that(2) by simp
  qed
  consider "x = x'" | "x < x'" | "x' < x" by linarith
  then show ?thesis using lt [of x x' y y'] lt [of x' x y' y] assms by cases (auto simp: ncmp_def)
qed

lemma ncmp_word:
  "(if (w :: 32 word) > v then 1 else if w < v then -1 else R) = (if unat w = unat v then R else ncmp (unat w) (unat v))"
  by (auto simp: ncmp_def word_less_nat_alt)

lemma ncmp_refl [simp]: "ncmp x x = 0"
  by (simp add: ncmp_def)

lemma ncmp_self: "(if x = y then 0 else ncmp x y) = ncmp x y"
  by simp

text \<open>
  The comparison of two addresses is that of the numbers they write in network byte order: of the
  first four bytes for IPv4 and of all sixteen for IPv6; it answers 1, -1 or 0.
\<close>

theorem kylin_addr_comp_numeric:
  assumes "ip_wf a" "ip_wf b"
  shows "kylin_addr_comp af a b =
    (if af = AF_INET then ncmp (be_num (take 4 a)) (be_num (take 4 b)) else ncmp (be_num a) (be_num b))"
proof (cases "af = AF_INET")
  case True
  then show ?thesis using ntohl32_num [OF assms(1), of 0] ntohl32_num [OF assms(2), of 0]
    by (simp add: kylin_addr_comp_def ncmp_word ncmp_self)
next
  case False
  have lt: "unat (w :: 32 word) < 2 ^ 32" for w using unsigned_less [of w, where ?'a = nat] by simp
  show ?thesis
    using False unfolding ip_words [OF assms(1)] ip_words [OF assms(2)] num_ncmp [OF lt lt] num_eq [OF lt lt]
      kylin_addr_comp_def ncmp_word ncmp_self by simp
qed

theorem kylin_addr_comp_numeric_witness:
  "kylin_addr_comp AF_INET6 [0, 0, 0, 0, 0, 0, 0, 0, 0, 0, 0, 0, 0, 0, 0, 1] [1, 0, 0, 0, 0, 0, 0, 0, 0, 0, 0, 0, 0, 0, 0, 0] = -1"
  by (subst kylin_addr_comp_numeric) (simp_all add: ip_wf_def ncmp_def)

subsection \<open>Network masks\<close>

lemma mask_full_spec:
  "n + unat bits div 8 \<le> length a \<Longrightarrow>
   mask_full bits a n = Some (of_nat (unat bits mod 8), take n a @ replicate (unat bits div 8) 0xff @ drop (n + unat bits div 8) a,
     n + unat bits div 8)"
proof (induction bits a n rule: mask_full.induct)
  case (1 bits a n)
  show ?case
  proof (cases "bits \<ge> 8")
    case True
    then have b: "8 \<le> unat bits" by (simp add: word_le_nat_alt)
    have u: "unat (bits - 8) = unat bits - 8" using True by (simp add: unat_sub_if_size word_le_nat_alt)
    obtain k where k: "unat bits div 8 = Suc k" using b by (cases "unat bits div 8") auto
    have k': "unat (bits - 8) div 8 = k" "unat (bits - 8) mod 8 = unat bits mod 8"
      using k b by (simp_all add: u le_div_geq le_mod_geq)
    have n: "n < length a" using 1(2) k by simp
    have "mask_full (bits - 8) (a[n := 0xff]) (n + 1) = Some (of_nat (unat bits mod 8),
        take (n + 1) (a[n := 0xff]) @ replicate k 0xff @ drop (n + 1 + k) (a[n := 0xff]), n + 1 + k)"
      using 1(1) [OF True, of "a[n := 0xff]"] 1(2) k k' n by simp
    moreover have "take (n + 1) (a[n := 0xff]) = take n a @ [0xff]" using n by (simp add: take_Suc_conv_app_nth)
    ultimately show ?thesis using True n k by (subst mask_full.simps) simp
  next
    case False
    then have "unat bits < 8" by (simp add: word_le_nat_alt)
    then show ?thesis using False by (subst mask_full.simps) simp
  qed
qed

lemma count_shifts_add: "count_shifts v (b + c) = c + count_shifts v b"
proof (induction v b rule: count_shifts.induct)
  case (1 v b)
  show ?case
  proof (cases "v > 0")
    case True
    have "count_shifts v (b + c) = count_shifts (push_bit 1 v) (b + 1 + c)" "count_shifts v b = count_shifts (push_bit 1 v) (b + 1)"
      using True by (subst count_shifts.simps, simp add: algebra_simps)+
    then show ?thesis using 1 [OF True] by simp
  qed (simp add: count_shifts.simps [of v])
qed

lemma count_shifts_mask:
  assumes "0 < r" "r < 8"
  shows "count_shifts (NOT (push_bit (8 - r) 1 - 1)) b = b + of_nat r" "NOT (push_bit (8 - r) 1 - 1) \<noteq> (0xff :: kbyte)"
proof -
  have "\<forall>r \<in> set [1..<8]. count_shifts (NOT (push_bit (8 - r) 1 - 1)) 0 = of_nat r \<and> NOT (push_bit (8 - r) 1 - 1) \<noteq> (0xff :: kbyte)"
    by code_simp
  then show "count_shifts (NOT (push_bit (8 - r) 1 - 1)) b = b + of_nat r" "NOT (push_bit (8 - r) 1 - 1) \<noteq> (0xff :: kbyte)"
    using assms count_shifts_add [of _ 0 b] by (auto simp: Suc_le_eq)
qed

lemma mask_bytes_ones: "mask_bytes (replicate k 0xff @ vs) b = mask_bytes vs (b + 8 * of_nat k)"
  by (induction k arbitrary: b) (simp_all add: algebra_simps)

lemma zero_fill:
  assumes "n \<le> m" "m \<le> length a"
  shows "for_loop [n..<m] (\<lambda>i a. arr_set a i 0) a = Some (take n a @ replicate (m - n) 0 @ drop m (a :: kbyte list))"
proof -
  have "\<exists>d'. for_loop [n..<m] (\<lambda>i a. arr_set a i 0) a = Some d' \<and> length d' = length a \<and>
    (\<forall>j < length a. d' ! j = (if 0 \<le> j \<and> j - 0 \<in> set [n..<m] then (\<lambda>_. 0) (j - 0) else a ! j))"
    by (rule for_loop_fill) (use assms in auto)
  then obtain d' where d: "for_loop [n..<m] (\<lambda>i a. arr_set a i 0) a = Some d'" "length d' = length a"
    "\<forall>j < length a. d' ! j = (if n \<le> j \<and> j < m then 0 else a ! j)" by auto
  moreover have "d' = take n a @ replicate (m - n) 0 @ drop m a"
    using d(2,3) assms by (intro nth_equalityI) (auto simp: nth_append)
  ultimately show ?thesis by simp
qed

text \<open>The bytes of a mask of \<open>k\<close> bits in an address of \<open>m\<close> bytes.\<close>

definition mask_list :: "nat \<Rightarrow> nat \<Rightarrow> kbyte list" where
  "mask_list m k = replicate (k div 8) 0xff @
     (if k mod 8 = 0 then replicate (m - k div 8) 0
      else NOT (push_bit (8 - k mod 8) 1 - 1) # replicate (m - k div 8 - 1) 0)"

lemma length_mask_list: "k \<le> 8 * m \<Longrightarrow> length (mask_list m k) = m"
  by (auto simp: mask_list_def) presburger+

lemma mask_list_bits: "k \<le> 8 * m \<Longrightarrow> k < 256 \<Longrightarrow> mask_bytes (mask_list m k) 0 = of_nat k"
proof -
  assume k: "k \<le> 8 * m" "k < 256"
  have e: "(of_nat k :: kbyte) = 8 * of_nat (k div 8) + of_nat (k mod 8)"
    by (metis of_nat_add of_nat_mult of_nat_numeral mult_div_mod_eq)
  have z: "mask_bytes (replicate n 0) b = b" for n b by (cases n) (simp_all add: count_shifts.simps)
  show ?thesis
  proof (cases "k mod 8 = 0")
    case True
    then show ?thesis using e by (simp add: mask_list_def mask_bytes_ones z)
  next
    case False
    then show ?thesis using e count_shifts_mask [of "k mod 8"] by (simp add: mask_list_def mask_bytes_ones)
  qed
qed

lemma maskbits_spec:
  assumes "ip_wf a" "m = (if af = AF_INET then 4 else 16)" "unat bits \<le> 8 * m"
  shows "kylin_addr_maskbits_2_maskaddr af bits a = Some (mask_list m (unat bits) @ drop m a)"
proof -
  let ?k = "unat bits div 8" and ?r = "unat bits mod 8"
  have m: "m \<le> 16" "length a = 16" using assms(1,2) by (simp_all add: ip_wf_def)
  have "\<not> bits > 128" "af = AF_INET \<longrightarrow> \<not> bits > 32" using assms(2,3) by (auto simp: word_less_nat_alt split: if_splits)
  then have clip: "(if af = AF_INET \<and> bits > 32 then 32 else if bits > 128 then 128 else bits) = bits" by auto
  have k: "?k \<le> m" "?r \<noteq> 0 \<Longrightarrow> ?k < m" using assms(3) by presburger+
  let ?a = "replicate ?k 0xff @ drop ?k a"
  have full: "mask_full bits a 0 = Some (of_nat ?r, ?a, ?k)" using mask_full_spec [of 0 bits a] k(1) m by simp
  have r: "unat (of_nat ?r :: kbyte) = ?r" by (simp add: unat_of_nat)
  show ?thesis
  proof (cases "?r = 0")
    case True
    have "for_loop [?k..<m] (\<lambda>i a. arr_set a i 0) ?a = Some (take ?k ?a @ replicate (m - ?k) 0 @ drop m ?a)"
      using k(1) m by (intro zero_fill) simp_all
    then show ?thesis using full True clip k(1) m assms(2)
      by (simp add: kylin_addr_maskbits_2_maskaddr_def Let_def mask_list_def)
  next
    case False
    let ?v = "NOT (push_bit (8 - ?r) 1 - 1) :: kbyte"
    let ?b = "?a[?k := ?v]"
    have "drop ?k a = a ! ?k # drop (Suc ?k) a" using k(2) False m by (simp add: Cons_nth_drop_Suc)
    then have b: "?b = replicate ?k 0xff @ ?v # drop (Suc ?k) a" by (simp add: list_update_append)
    have "for_loop [Suc ?k..<m] (\<lambda>i a. arr_set a i 0) ?b = Some (take (Suc ?k) ?b @ replicate (m - Suc ?k) 0 @ drop m ?b)"
      using k(2) False m by (intro zero_fill) simp_all
    moreover have "drop m ?b = drop m a"
    proof -
      obtain j where "m = Suc (?k + j)" using k(2) False by (metis less_imp_Suc_add)
      then show ?thesis unfolding b by (simp add: add.commute)
    qed
    moreover have "take (Suc ?k) ?b = replicate ?k 0xff @ [?v]" unfolding b by simp
    ultimately have "for_loop [Suc ?k..<m] (\<lambda>i a. arr_set a i 0) ?b = Some (mask_list m (unat bits) @ drop m a)"
      using False by (simp add: mask_list_def)
    moreover have "of_nat ?r > (0 :: kbyte)" using False r by (simp add: word_less_nat_alt)
    moreover have "?k < length ?a" using k(2) False m by simp
    ultimately show ?thesis using full clip assms(2) r
      unfolding kylin_addr_maskbits_2_maskaddr_def Let_def clip by simp
  qed
qed

text \<open>
  C26. A prefix length within the size of the address turns into the mask with that many leading
  one bits, without a write outside the address and without touching the bytes that do not belong
  to the family, and counting the bits of that mask gives the prefix length back.
\<close>

theorem kylin_addr_mask_roundtrip:
  assumes "ip_wf a" "m = (if af = AF_INET then 4 else 16)" "unat bits \<le> 8 * m"
  shows "\<exists>msk. kylin_addr_maskbits_2_maskaddr af bits a = Some msk \<and> ip_wf msk
    \<and> take m msk = mask_list m (unat bits) \<and> drop m msk = drop m a
    \<and> kylin_addr_maskaddr_2_maskbits af msk = bits"
proof -
  have l: "length (mask_list m (unat bits)) = m" using length_mask_list [OF assms(3)] .
  have b: "unat bits < 256" using unsigned_less [of bits, where ?'a = nat] by simp
  have "mask_bytes (mask_list m (unat bits)) 0 = bits" using mask_list_bits [OF assms(3) b] by simp
  then show ?thesis using maskbits_spec [OF assms] l assms(1,2)
    by (simp add: ip_wf_def kylin_addr_maskaddr_2_maskbits_def)
qed

theorem kylin_addr_mask_roundtrip_witness:
  "\<exists>msk. kylin_addr_maskbits_2_maskaddr AF_INET 20 (replicate 16 7) = Some msk \<and> take 4 msk = [255, 255, 240, 0]
    \<and> kylin_addr_maskaddr_2_maskbits AF_INET msk = 20"
proof -
  have "ip_wf (replicate 16 7)" "unat (20 :: kbyte) \<le> 8 * 4" by (simp_all add: ip_wf_def)
  moreover have "mask_list 4 (unat (20 :: kbyte)) = [255, 255, 240, 0]" by code_simp
  ultimately show ?thesis using kylin_addr_mask_roundtrip [of "replicate 16 7" 4 AF_INET 20] by auto
qed

text \<open>
  The broadcast address has the network part of the address and all ones in the host part: in
  every byte of the family, masking it gives the masked address, and the other bits are set.
\<close>

theorem kylin_addr_broadaddr_correct:
  assumes "ip_wf a" "ip_wf msk" "ip_wf bc" "m = (if af = AF_INET then 4 else 16)"
  shows "\<exists>bc'. kylin_addr_broadaddr af a msk bc = Some bc' \<and> ip_wf bc' \<and> drop m bc' = drop m bc
    \<and> (\<forall>i < m. bc' ! i AND msk ! i = a ! i AND msk ! i \<and> bc' ! i OR msk ! i = NOT 0)"
proof -
  have l: "length a = 16" "length msk = 16" "length bc = 16" "m \<le> 16" using assms by (simp_all add: ip_wf_def)
  let ?body = "\<lambda>i bc. do { x \<leftarrow> arr_get a i; y \<leftarrow> arr_get msk i; arr_set bc i (x OR NOT y) }"
  have "\<exists>d'. for_loop [0..<m] ?body bc = Some d' \<and> length d' = length bc \<and>
    (\<forall>j < length bc. d' ! j = (if 0 \<le> j \<and> j - 0 \<in> set [0..<m] then (\<lambda>i. a ! i OR NOT (msk ! i)) (j - 0) else bc ! j))"
    by (rule for_loop_fill) (use l in auto)
  then obtain d where d: "for_loop [0..<m] ?body bc = Some d" "length d = 16"
    "\<forall>j < 16. d ! j = (if j < m then a ! j OR NOT (msk ! j) else bc ! j)" using l by auto
  have "drop m d = drop m bc" using d(2,3) l by (intro nth_equalityI) auto
  moreover have "d ! i AND msk ! i = a ! i AND msk ! i \<and> d ! i OR msk ! i = NOT 0" if "i < m" for i
  proof -
    have "d ! i = a ! i OR NOT (msk ! i)" using d(3) that l(4) by simp
    then show ?thesis by (auto simp: bit_eq_iff bit_simps)
  qed
  ultimately show ?thesis using d assms(4) by (auto simp: kylin_addr_broadaddr_def ip_wf_def)
qed

theorem kylin_addr_broadaddr_correct_witness:
  "\<exists>bc. kylin_addr_broadaddr AF_INET (replicate 16 10) (replicate 16 0xf0) (replicate 16 0) = Some bc
    \<and> bc ! 0 AND 0xf0 = 0 \<and> bc ! 0 OR 0xf0 = NOT 0"
  using kylin_addr_broadaddr_correct [of "replicate 16 10" "replicate 16 0xf0" "replicate 16 0" 4 AF_INET]
  by (fastforce simp: ip_wf_def)

subsection \<open>Copies and tuples\<close>

lemma get_addr32_len: "ip_wf a \<Longrightarrow> i < 4 \<Longrightarrow> length (get_addr32 a i) = 4"
  by (simp add: ip_wf_def get_addr32_def)

lemma set_get_addr32:
  assumes "ip_wf a" "length bs = 4" "i < 4"
  shows "ip_wf (set_addr32 a i bs)" "get_addr32 (set_addr32 a i bs) i = bs"
    "j < 4 \<Longrightarrow> j \<noteq> i \<Longrightarrow> get_addr32 (set_addr32 a i bs) j = get_addr32 a j"
proof -
  have l: "length a = 16" using assms(1) by (simp add: ip_wf_def)
  show w: "ip_wf (set_addr32 a i bs)" and "get_addr32 (set_addr32 a i bs) i = bs"
    using l assms(2,3) by (simp_all add: ip_wf_def set_addr32_def get_addr32_def)
  show "get_addr32 (set_addr32 a i bs) j = get_addr32 a j" if "j < 4" "j \<noteq> i"
  proof (rule nth_equalityI)
    show "length (get_addr32 (set_addr32 a i bs) j) = length (get_addr32 a j)"
      using get_addr32_len [OF w that(1)] get_addr32_len [OF assms(1) that(1)] by simp
    fix k assume "k < length (get_addr32 (set_addr32 a i bs) j)"
    then have k: "k < 4" by (simp add: get_addr32_def)
    then have "4 * j + k < 16" using that(1) by simp
    moreover have "(set_addr32 a i bs) ! (4 * j + k) = a ! (4 * j + k)"
    proof (cases "j < i")
      case True
      then have "4 * j + k < 4 * i" using k by simp
      then show ?thesis using l assms(3) by (simp add: set_addr32_def nth_append)
    next
      case False
      then have "4 * i + 4 \<le> 4 * j + k" using that(2) by simp
      moreover from this have "\<not> 4 * j + k - 4 * i < 4" by linarith
      ultimately show ?thesis using l assms(2,3) that(1) k by (simp add: set_addr32_def nth_append)
    qed
    ultimately show "get_addr32 (set_addr32 a i bs) j ! k = get_addr32 a j ! k"
      using k l w by (simp add: get_addr32_def ip_wf_def)
  qed
qed

lemma ip_eqI:
  assumes "ip_wf a" "ip_wf b" "\<And>i. i < 4 \<Longrightarrow> get_addr32 a i = get_addr32 b i"
  shows "a = b"
proof (rule nth_equalityI)
  show "length a = length b" using assms(1,2) by (simp add: ip_wf_def)
  fix k assume "k < length a"
  then have k: "k div 4 < 4" "k mod 4 < 4" "k < 16" using assms(1) by (simp_all add: ip_wf_def)
  have "get_addr32 c (k div 4) ! (k mod 4) = c ! k" if "ip_wf c" for c
    using that k by (simp add: get_addr32_def ip_wf_def)
  then show "a ! k = b ! k" using assms k(1) by metis
qed

lemma copy_v6:
  assumes "ip_wf d" "ip_wf s" "af \<noteq> AF_INET"
  shows "kylin_addr_copy af d s = s"
proof (rule ip_eqI)
  note g = get_addr32_len [OF assms(2)]
  let ?d1 = "set_addr32 d 0 (get_addr32 s 0)"
  let ?d2 = "set_addr32 ?d1 1 (get_addr32 s 1)"
  let ?d3 = "set_addr32 ?d2 2 (get_addr32 s 2)"
  let ?d4 = "set_addr32 ?d3 3 (get_addr32 s 3)"
  have w: "ip_wf ?d1" "ip_wf ?d2" "ip_wf ?d3" "ip_wf ?d4" using assms(1) g by (simp_all add: set_get_addr32(1))
  have e: "kylin_addr_copy af d s = ?d4" using assms(3) by (simp add: kylin_addr_copy_def)
  show "ip_wf (kylin_addr_copy af d s)" using w(4) e by simp
  show "ip_wf s" by fact
  fix i :: nat assume "i < 4"
  then consider "i = 0" | "i = 1" | "i = 2" | "i = 3" by arith
  then show "get_addr32 (kylin_addr_copy af d s) i = get_addr32 s i"
    unfolding e using g w assms(1) by cases (simp_all add: set_get_addr32(2,3))
qed

definition tuple_wf :: "kylin_host_tuple \<Rightarrow> bool" where
  "tuple_wf t \<longleftrightarrow> ip_wf (host_addr (ht_src t)) \<and> ip_wf (host_addr (ht_dst t))"

lemma addr32_bytes: "addr32 a i = of_nat (le_num (get_addr32 a i))"
  by (simp add: addr32_def get_addr32_def)

lemma set_addr32_self: "ip_wf a \<Longrightarrow> i < 4 \<Longrightarrow> set_addr32 a i (get_addr32 a i) = a"
proof -
  assume w: "ip_wf a" "i < 4"
  have "take 4 (drop (4 * i) a) @ drop (4 * i + 4) a = drop (4 * i) a"
    using append_take_drop_id [of 4 "drop (4 * i) a"] by (simp add: add.commute)
  then show ?thesis by (simp add: set_addr32_def get_addr32_def)
qed

lemma set_addr32_twice: "ip_wf a \<Longrightarrow> i < 4 \<Longrightarrow> length bs = 4 \<Longrightarrow> set_addr32 (set_addr32 a i bs) i cs = set_addr32 a i cs"
  by (simp add: set_addr32_def ip_wf_def)

text \<open>
  Inverting a tuple exchanges its two ends: inverting twice gives the tuple back, equal tuples have
  equal inverses, and the source of the inverse is equal to a tuple's source exactly when the
  destination was, for both families.
\<close>

theorem kylin_host_tuple_invert_involution:
  assumes "tuple_wf t" "tuple_wf t'"
  shows "kylin_host_tuple_invert af (kylin_host_tuple_invert af t) = t
    \<and> kylin_host_tuple_equal af (kylin_host_tuple_invert af t) (kylin_host_tuple_invert af t') = kylin_host_tuple_equal af t t'
    \<and> kylin_host_tuple_src_equal af (kylin_host_tuple_invert af t) (kylin_host_tuple_invert af t') = kylin_host_tuple_dst_equal af t t'"
proof -
  obtain p sa sp da dp where t: "t = \<lparr>ht_proto = p, ht_src = \<lparr>host_addr = sa, host_port = sp\<rparr>, ht_dst = \<lparr>host_addr = da, host_port = dp\<rparr>\<rparr>"
    by (metis kylin_host.surjective kylin_host_tuple.surjective old.unit.exhaust)
  obtain p' sa' sp' da' dp' where t': "t' = \<lparr>ht_proto = p', ht_src = \<lparr>host_addr = sa', host_port = sp'\<rparr>, ht_dst = \<lparr>host_addr = da', host_port = dp'\<rparr>\<rparr>"
    by (metis kylin_host.surjective kylin_host_tuple.surjective old.unit.exhaust)
  have w: "ip_wf sa" "ip_wf da" "ip_wf sa'" "ip_wf da'" using assms by (simp_all add: t t' tuple_wf_def)
  note defs = kylin_host_tuple_invert_def kylin_host_tuple_equal_def kylin_host_tuple_src_equal_def
    kylin_host_tuple_dst_equal_def addr_equal_def t t' Let_def
  show ?thesis
  proof (cases "af = AF_INET")
    case True
    then show ?thesis using w
      by (auto simp: defs addr32_bytes set_get_addr32(1,2) get_addr32_len set_addr32_self set_addr32_twice)
  next
    case False
    then show ?thesis using w by (auto simp: defs copy_v6 ip_wf_def)
  qed
qed

definition demo_tuple :: "kbyte \<Rightarrow> kylin_host_tuple" where
  "demo_tuple b = \<lparr>ht_proto = 6, ht_src = \<lparr>host_addr = replicate 16 b, host_port = 80\<rparr>,
     ht_dst = \<lparr>host_addr = replicate 16 2, host_port = 5000\<rparr>\<rparr>"

lemma demo_tuple_wf: "tuple_wf (demo_tuple b)"
  by (simp add: tuple_wf_def demo_tuple_def ip_wf_def)

theorem kylin_host_tuple_invert_involution_witness:
  "kylin_host_tuple_invert AF_INET (kylin_host_tuple_invert AF_INET (demo_tuple 1)) = demo_tuple 1
   \<and> kylin_host_tuple_invert AF_INET (demo_tuple 1) \<noteq> demo_tuple 1"
proof -
  have "kylin_host_tuple_invert AF_INET (demo_tuple 1) \<noteq> demo_tuple 1"
    by (simp add: kylin_host_tuple_invert_def demo_tuple_def Let_def)
  then show ?thesis using kylin_host_tuple_invert_involution [OF demo_tuple_wf demo_tuple_wf, of AF_INET 1 1] by simp
qed

lemma masked_eq: "(x XOR y) AND m = 0 \<longleftrightarrow> x AND m = y AND (m :: 'a::len word)"
  by (auto simp: bit_eq_iff bit_simps)

text \<open>
  The masked comparison answers true exactly when the two tuples agree on all bits of the mask:
  protocol, both ports and, word by word, both addresses of the family.
\<close>

theorem kylin_host_tuple_mask_cmp_correct:
  "kylin_host_tuple_mask_cmp af t tuple msk \<longleftrightarrow>
     ht_proto t AND ht_proto msk = ht_proto tuple AND ht_proto msk
   \<and> host_port (ht_src t) AND host_port (ht_src msk) = host_port (ht_src tuple) AND host_port (ht_src msk)
   \<and> host_port (ht_dst t) AND host_port (ht_dst msk) = host_port (ht_dst tuple) AND host_port (ht_dst msk)
   \<and> (\<forall>i \<in> set [0..<if af = AF_INET then 1 else 4].
        addr32 (host_addr (ht_src t)) i AND addr32 (host_addr (ht_src msk)) i
          = addr32 (host_addr (ht_src tuple)) i AND addr32 (host_addr (ht_src msk)) i
      \<and> addr32 (host_addr (ht_dst t)) i AND addr32 (host_addr (ht_dst msk)) i
          = addr32 (host_addr (ht_dst tuple)) i AND addr32 (host_addr (ht_dst msk)) i)"
proof -
  have s: "set [0..<4] = {0, 1, 2, 3 :: nat}" by auto
  show ?thesis unfolding kylin_host_tuple_mask_cmp_def masked32_def masked_eq Let_def
    by (cases "af = AF_INET") (auto simp: s simp del: set_upt)
qed

subsection \<open>Socket addresses\<close>

text \<open>
  An address written into a socket address and read back with the same family is the address
  again, with the bytes behind an IPv4 address cleared; but read back without naming the family, an
  IPv6 address is reported with the family of IPv4.
\<close>

theorem kylin_addr_sockaddr_roundtrip:
  assumes "ip_wf a" "length sock = SOCKADDR_IN6_SIZE"
  shows "\<exists>s. kylin_addr_paddr_2_sockaddr_af af a sock = Some s
    \<and> kylin_addr_sockaddr_2_paddr_af s af = Some (if af = AF_INET then take 4 a @ replicate 12 0 else a)
    \<and> kylin_addr_sockaddr_2_paddr s = Some (AF_INET, if af = AF_INET then take 4 a @ replicate 12 0 else a)"
proof (cases "af = AF_INET")
  case True
  then show ?thesis using assms
    by (simp add: kylin_addr_paddr_2_sockaddr_af_def kylin_addr_sockaddr_2_paddr_af_def kylin_addr_sockaddr_2_paddr_def
        ip_wf_def buf_simps)
next
  case False
  then show ?thesis using assms
    by (simp add: kylin_addr_paddr_2_sockaddr_af_def kylin_addr_sockaddr_2_paddr_af_def kylin_addr_sockaddr_2_paddr_def
        ip_wf_def buf_simps)
qed

theorem kylin_addr_sockaddr_roundtrip_witness:
  "\<exists>s. kylin_addr_paddr_2_sockaddr_af AF_INET6 (replicate 16 7) (replicate 28 0) = Some s
    \<and> kylin_addr_sockaddr_2_paddr s = Some (AF_INET, replicate 16 7)"
  using kylin_addr_sockaddr_roundtrip [of "replicate 16 7" "replicate 28 0" AF_INET6] by (auto simp: ip_wf_def)

text \<open>
  The test for the zero address adds the two halves of an IPv6 address and is fooled by the carry:
  an address whose halves are 1 and \<open>2 ^ 64 - 1\<close> counts as zero.
\<close>

theorem kylin_addr_is_zero_carry:
  "kylin_addr_is_zero AF_INET6 [1, 0, 0, 0, 0, 0, 0, 0, 255, 255, 255, 255, 255, 255, 255, 255]"
  by (simp add: kylin_addr_is_zero_def addr64_def le_num_def)

theorem kylin_host_tuple_mask_cmp_correct_witness:
  "kylin_host_tuple_mask_cmp AF_INET (demo_tuple 1) (demo_tuple 1) (demo_tuple 9)"
  by (subst kylin_host_tuple_mask_cmp_correct) simp

subsection \<open>Hardware addresses\<close>

text \<open>
  The parser of a hardware address. The function of three arguments, \<^verbatim>\<open>kylin_strchr(start, stop, c)\<close>, that it calls is
  declared nowhere in the repository; the \<^verbatim>\<open>kylin_strchr\<close> of kylin_string.c takes a string object and a character. It is the
  parameter \<open>strchr\<close>, of which nothing is assumed: it gets the text, the first
  and the last position and the character. Positions are indices into the text; \<open>-22\<close> is \<^verbatim>\<open>-EINVAL\<close>.
\<close>

type_synonym strchr3 = "kbyte list \<Rightarrow> nat \<Rightarrow> nat \<Rightarrow> kbyte \<Rightarrow> nat option"

abbreviation KYLIN_ADDR_MAC_ADDR_HEX_LEN :: nat where "KYLIN_ADDR_MAC_ADDR_HEX_LEN \<equiv> 6"

definition hex_digit :: "kbyte \<Rightarrow> kbyte option" where
  "hex_digit c =
     (if 48 \<le> c \<and> c \<le> 57 then Some (c - 48)
      else if 65 \<le> c \<and> c \<le> 70 then Some (c - 65 + 10)
      else if 97 \<le> c \<and> c \<le> 102 then Some (c - 97 + 10)
      else None)"

text \<open>A group of two digits and of one digit; a character that is no digit leaves the byte as it is.\<close>

definition mac_pair :: "kbyte list \<Rightarrow> nat \<Rightarrow> kbyte list \<Rightarrow> nat \<Rightarrow> kbyte list option" where
  "mac_pair str start hex pos = do {
     c0 \<leftarrow> arr_get str start;
     hex \<leftarrow> (case hex_digit c0 of Some d \<Rightarrow> arr_set hex pos (push_bit 4 d) | None \<Rightarrow> Some hex);
     c1 \<leftarrow> arr_get str (start + 1);
     case hex_digit c1 of Some d \<Rightarrow> do { h \<leftarrow> arr_get hex pos; arr_set hex pos (h OR d) } | None \<Rightarrow> Some hex }"

definition mac_single :: "kbyte list \<Rightarrow> nat \<Rightarrow> kbyte list \<Rightarrow> nat \<Rightarrow> kbyte list option" where
  "mac_single str start hex pos = do {
     c0 \<leftarrow> arr_get str start;
     case hex_digit c0 of Some d \<Rightarrow> arr_set hex pos d | None \<Rightarrow> Some hex }"

text \<open>The end of the group that starts at \<open>start\<close>: the next separator, or the end of the text in the last group.\<close>

definition mac_end :: "strchr3 \<Rightarrow> kbyte list \<Rightarrow> nat \<Rightarrow> nat \<Rightarrow> nat \<Rightarrow> nat option" where
  "mac_end strchr str stop start pos = (case strchr str start stop 58 of
       Some ch \<Rightarrow> Some ch
     | None \<Rightarrow> if pos \<noteq> KYLIN_ADDR_MAC_ADDR_HEX_LEN - 1 then None else Some (stop + 1))"

definition mac_group :: "kbyte list \<Rightarrow> nat \<Rightarrow> nat \<Rightarrow> kbyte list \<Rightarrow> nat \<Rightarrow> kbyte list option option" where
  "mac_group str start ch hex pos =
     (if int ch - int start = 2 then map_option Some (mac_pair str start hex pos)
      else if int ch - int start = 1 then map_option Some (mac_single str start hex pos)
      else Some None)"

partial_function (option) mac_loop ::
    "strchr3 \<Rightarrow> kbyte list \<Rightarrow> nat \<Rightarrow> nat \<Rightarrow> nat \<Rightarrow> kbyte list \<Rightarrow> nat \<Rightarrow> (int \<times> kbyte list) option" where
  "mac_loop strchr str stop hexlen start hex pos =
     (if \<not> start \<le> stop then Some (0, hex)
      else case mac_end strchr str stop start pos of
          None \<Rightarrow> Some (-22, hex)
        | Some ch \<Rightarrow> do {
            g \<leftarrow> mac_group str start ch hex pos;
            case g of None \<Rightarrow> Some (-22, hex)
            | Some hex \<Rightarrow>
                if pos + 1 > hexlen then Some (-22, hex)
                else mac_loop strchr str stop hexlen (ch + 1) hex (pos + 1) })"

definition kylin_addr_mac_addr_str2hex ::
    "strchr3 \<Rightarrow> int \<Rightarrow> kbyte list \<Rightarrow> nat \<Rightarrow> kbyte list \<Rightarrow> (int \<times> kbyte list) option" where
  "kylin_addr_mac_addr_str2hex strchr len str hexlen hex = do {
     hex \<leftarrow> buf_write hex 0 (replicate hexlen 0);
     if len < int (KYLIN_ADDR_MAC_ADDR_HEX_LEN * 2) - 1 then Some (0, hex)
     else mac_loop strchr str (nat (len - 1)) hexlen 0 hex 0 }"

declare mac_loop.simps [code]

definition hex_char :: "kbyte \<Rightarrow> kbyte" where
  "hex_char d = (if d < 10 then d + 48 else d - 10 + 65)"

text \<open>The text of the format \<^verbatim>\<open>MACADDR_FMT\<close>.\<close>

definition byte_text :: "kbyte \<Rightarrow> kbyte list" where
  "byte_text b = [hex_char (drop_bit 4 b), hex_char (b AND 15)]"

fun mac_text :: "kbyte list \<Rightarrow> kbyte list" where
  "mac_text [] = []"
| "mac_text [b] = byte_text b"
| "mac_text (b # c # bs) = byte_text b @ 58 # mac_text (c # bs)"

lemma hex_round_digit:
  assumes "unat d < 16"
  shows "hex_digit (hex_char d) = Some d" "hex_char d \<noteq> 58"
proof -
  have "\<forall>n \<in> set [0..<16]. hex_digit (hex_char (of_nat n)) = Some (of_nat n) \<and> hex_char (of_nat n) \<noteq> 58" by code_simp
  moreover have "unat d \<in> set [0..<16]" using assms by simp
  ultimately have "hex_digit (hex_char (of_nat (unat d))) = Some (of_nat (unat d)) \<and> hex_char (of_nat (unat d)) \<noteq> 58"
    by (rule bspec)
  then show "hex_digit (hex_char d) = Some d" "hex_char d \<noteq> 58" by simp_all
qed

lemma byte_halves: "unat (drop_bit 4 (b :: kbyte)) < 16" "unat (b AND 15) < 16" "push_bit 4 (drop_bit 4 b) OR (b AND 15) = b"
proof -
  have b: "unat b < 256" using unsigned_less [of b, where ?'a = nat] by simp
  then show "unat (drop_bit 4 b) < 16" by (simp add: drop_bit_eq_div unat_div)
  have m: "(15 :: kbyte) = mask 4" by (simp add: mask_eq_exp_minus_1)
  show "unat (b AND 15) < 16" unfolding m unat_and_mask_eq_mod by simp
  show "push_bit 4 (drop_bit 4 b) OR (b AND 15) = b" unfolding m by (rule bit_word_eqI) (auto simp: bit_simps)
qed

text \<open>A group of two digits is read back as the byte it was written from.\<close>

lemma mac_pair_byte:
  assumes "str ! start = hex_char (drop_bit 4 b)" "str ! Suc start = hex_char (b AND 15)" "Suc start < length str" "pos < length hex"
  shows "mac_pair str start hex pos = Some (hex[pos := b])"
  using assms by (simp add: mac_pair_def hex_round_digit byte_halves)

text \<open>A search for the first position of a character between two given ones.\<close>

definition find_char :: strchr3 where
  "find_char str start stop c = find (\<lambda>i. i < length str \<and> str ! i = c) [start..<stop + 1]"

text \<open>
  The length check comes after the byte is stored: with this search a text with eight groups writes behind the buffer
  of six bytes.
\<close>

theorem kylin_addr_mac_overflow:
  "kylin_addr_mac_addr_str2hex find_char 23 (mac_text [1, 2, 3, 4, 5, 6, 7, 8]) 6 [0, 0, 0, 0, 0, 0] = None"
  by code_simp

end
