(* ===== verification/Kylin_Shm.thy ===== *)
theory Kylin_Shm
  imports Kylin_String Kylin_Spinlock
begin

section \<open>Shared memory (lib/core/ipc/shm/kylin_shm.c, kylin_shm_obj.c, kylin_shm_open.c)\<close>

text \<open>
  A table of named objects in a shared mapping, and the segments that processes open by name. A C
  string is the list of the bytes from its address on, as in \<open>Kylin_String\<close>; comparing it over the full
  length of a name reads that many bytes of it. The results of the system calls are arguments
  (\<open>shm_sys\<close>), the calls a function makes are returned as a list, in order.
\<close>

subsection \<open>Definitions\<close>

abbreviation KYLIN_SHM_OBJ_MAX :: nat where "KYLIN_SHM_OBJ_MAX \<equiv> 512"
abbreviation KYLIN_ERROR_NOSPC :: kerr where "KYLIN_ERROR_NOSPC \<equiv> 28"

record kshm_obj =
  so_name :: "kbyte list"
  so_cap :: ksize
  so_refcnt :: "32 word"

record kshm_overview =
  ov_lock :: kspinlock
  ov_count :: "16 word"
  ov_obj :: "kshm_obj list"

text \<open>
  \<open>KYLIN_SHM_LOCAL\<close> is the directory of the segments, as bytes. \<open>shm_path\<close> is the file name that
  \<^verbatim>\<open>kshm_open\<close> and \<^verbatim>\<open>kshm_unlink\<close> build, terminator included.
\<close>

definition KYLIN_SHM_LOCAL :: "kbyte list" where
  "KYLIN_SHM_LOCAL = map (\<lambda>c. of_nat (of_char c)) ''/var/ipc/shm/''"

definition shm_path :: "kbyte list \<Rightarrow> kbyte list option" where
  "shm_path name = do {
     n \<leftarrow> strlen name;
     t \<leftarrow> buf_read name 0 (unat n + 1);
     f \<leftarrow> buf_write (replicate (unat n + length KYLIN_SHM_LOCAL + 1) 0) 0 KYLIN_SHM_LOCAL;
     buf_write f (length KYLIN_SHM_LOCAL) t }"

datatype shm_call =
    SysOpen "kbyte list" bool
  | SysUnlink "kbyte list"
  | SysTruncate "32 word" ksize
  | SysMap ksize "32 word"
  | SysUnmap kaddr ksize
  | Clear kaddr ksize

record shm_sys =
  sys_open :: "32 word"
  sys_create :: "32 word"
  sys_truncate :: bool
  sys_map :: "kaddr option"
  sys_errno :: kerr

definition kshm_open :: "kbyte list \<Rightarrow> bool \<Rightarrow> shm_call option" where
  "kshm_open name create = map_option (\<lambda>f. SysOpen f create) (shm_path name)"

definition kshm_unlink :: "kbyte list \<Rightarrow> shm_call option" where
  "kshm_unlink name = map_option SysUnlink (shm_path name)"

text \<open>The table of objects. \<open>move_down\<close> is the \<^verbatim>\<open>memmove\<close> of \<open>n\<close> entries from \<open>i + 1\<close> to \<open>i\<close>.\<close>

definition shm_lock :: "kshm_overview \<Rightarrow> kshm_overview option" where
  "shm_lock ov = map_option (\<lambda>sl. ov\<lparr>ov_lock := sl\<rparr>) (kylin_spinlock_lock (ov_lock ov))"

definition shm_unlock :: "kshm_overview \<Rightarrow> kshm_overview" where
  "shm_unlock ov = ov\<lparr>ov_lock := kylin_spinlock_unlock (ov_lock ov)\<rparr>"

definition move_down :: "'a list \<Rightarrow> nat \<Rightarrow> nat \<Rightarrow> 'a list option" where
  "move_down xs i n = do { ys \<leftarrow> buf_read xs (i + 1) n; buf_write xs i ys }"

definition shm_object_insert :: "kshm_obj \<Rightarrow> kshm_overview \<Rightarrow> (kerr \<times> kshm_overview) option" where
  "shm_object_insert obj ov = do {
     ov \<leftarrow> shm_lock ov;
     if unat (ov_count ov) > KYLIN_SHM_OBJ_MAX - 1 then Some (KYLIN_ERROR_NOSPC, shm_unlock ov)
     else do {
       xs \<leftarrow> arr_set (ov_obj ov) (unat (ov_count ov)) obj;
       Some (KYLIN_ERROR_OK, shm_unlock (ov\<lparr>ov_obj := xs, ov_count := ov_count ov + 1\<rparr>)) } }"

text \<open>The scan for the entry with a name, which delete and find share: the index of the first match.\<close>

definition shm_scan :: "kbyte list \<Rightarrow> kshm_overview \<Rightarrow> nat option option" where
  "shm_scan name ov = find_loop [0..<unat (ov_count ov)] (\<lambda>i. do {
     o' \<leftarrow> arr_get (ov_obj ov) i;
     r \<leftarrow> memcmp (so_name o') 0 name 0 KYLIN_NAME_LENGTH;
     Some (r = 0) })"

definition shm_object_delete :: "kbyte list \<Rightarrow> kshm_overview \<Rightarrow> (kerr \<times> kshm_overview) option" where
  "shm_object_delete name ov = do {
     ov \<leftarrow> shm_lock ov;
     pos \<leftarrow> shm_scan name ov;
     case pos of None \<Rightarrow> Some (KYLIN_ERROR_NOENT, shm_unlock ov)
     | Some i \<Rightarrow> do {
         xs \<leftarrow> move_down (ov_obj ov) i (unat (ov_count ov) - i - 1);
         Some (KYLIN_ERROR_OK, shm_unlock (ov\<lparr>ov_obj := xs, ov_count := ov_count ov - 1\<rparr>)) } }"

text \<open>
  Deletion by index: the number of entries is computed in 32 bits unsigned and then scaled to bytes
  in 64 bits, so an index behind the last entry makes the move leave the table.
\<close>

definition shm_object_delete_by_index :: "32 word \<Rightarrow> kshm_overview \<Rightarrow> (kerr \<times> kshm_overview) option" where
  "shm_object_delete_by_index index ov = do {
     ov \<leftarrow> shm_lock ov;
     xs \<leftarrow> move_down (ov_obj ov) (unat index) (unat (ucast (ov_count ov) - index - 1 :: 32 word));
     Some (KYLIN_ERROR_OK, shm_unlock (ov\<lparr>ov_obj := xs, ov_count := ov_count ov - 1\<rparr>)) }"

definition shm_object_find :: "kbyte list \<Rightarrow> kshm_overview \<Rightarrow> (nat option \<times> kshm_overview) option" where
  "shm_object_find name ov = do {
     ov \<leftarrow> shm_lock ov;
     pos \<leftarrow> shm_scan name ov;
     Some (pos, shm_unlock ov) }"

definition shm_object_find_by_index :: "32 word \<Rightarrow> nat" where
  "shm_object_find_by_index index = unat index"

text \<open>
  The mapping of the table: an existing one is used as it is (its content \<open>old\<close>), a new one is
  cleared.
\<close>

definition overview_name :: "kbyte list" where
  "overview_name = map (\<lambda>c. of_nat (of_char c)) ''overview'' @ [0]"

definition shm_object_init :: "shm_sys \<Rightarrow> kshm_overview \<Rightarrow> (kerr \<times> kshm_overview option \<times> shm_call list) option" where
  "shm_object_init sys old = do {
     o1 \<leftarrow> kshm_open overview_name False;
     o2 \<leftarrow> kshm_open overview_name True;
     u \<leftarrow> kshm_unlink overview_name;
     let create = (sys_open sys = - 1);
     let calls = (if create then [o1, o2] else [o1]);
     let fd = (if create then sys_create sys else sys_open sys);
     let sz = 8 + of_nat KYLIN_SHM_OBJ_MAX * 80;
     let tr = (if create then [SysTruncate fd sz] else []);
     let zero = \<lparr>ov_lock = \<lparr>sl_locked = 0\<rparr>, ov_count = 0,
       ov_obj = replicate KYLIN_SHM_OBJ_MAX \<lparr>so_name = replicate KYLIN_NAME_LENGTH 0, so_cap = 0, so_refcnt = 0\<rparr>\<rparr>;
     if create \<and> fd = - 1 then Some (sys_errno sys, None, calls)
     else if create \<and> \<not> sys_truncate sys then Some (sys_errno sys, None, calls @ tr @ [u])
     else if sys_map sys = None then Some (sys_errno sys, None, calls @ tr @ [SysMap sz fd, u])
     else Some (KYLIN_ERROR_OK, Some (if create then zero\<lparr>ov_lock := kylin_spinlock_init (ov_lock zero)\<rparr> else old),
       calls @ tr @ [SysMap sz fd]) }"

definition shm_object_fini :: "kshm_overview option \<Rightarrow> kaddr \<Rightarrow> shm_call list option" where
  "shm_object_fini ov addr = (case ov of None \<Rightarrow> Some []
     | Some _ \<Rightarrow> do { u \<leftarrow> kshm_unlink overview_name; Some [u, SysUnmap addr (8 + of_nat KYLIN_SHM_OBJ_MAX * 80)] })"

text \<open>The segments. A handle is the structure the opening process gets.\<close>

record kshm =
  shm_name :: "kbyte list"
  shm_fd :: "32 word"
  shm_spin :: kspinlock
  shm_cap :: ksize
  shm_addr :: kaddr

definition shm_name_copy :: "kbyte list \<Rightarrow> kbyte list option" where
  "shm_name_copy name = do {
     n \<leftarrow> strlen name;
     t \<leftarrow> buf_read name 0 (unat n);
     buf_write (replicate KYLIN_NAME_LENGTH 0) 0 t }"

definition kylin_shm_create :: "kbyte list \<Rightarrow> ksize \<Rightarrow> kshm_overview \<Rightarrow> (kerr \<times> kshm_overview) option" where
  "kylin_shm_create name cap ov = do {
     n \<leftarrow> strlen name;
     if unat n > KYLIN_NAME_LENGTH then Some (KYLIN_ERROR_INVAL, ov)
     else do {
       (found, ov) \<leftarrow> shm_object_find name ov;
       if found \<noteq> None then Some (KYLIN_ERROR_EXIST, ov)
       else do {
         nm \<leftarrow> shm_name_copy name;
         shm_object_insert \<lparr>so_name = nm, so_cap = cap, so_refcnt = 0\<rparr> ov } } }"

definition set_refcnt :: "nat \<Rightarrow> 32 word \<Rightarrow> kshm_overview \<Rightarrow> kshm_overview option" where
  "set_refcnt i r ov = do {
     o' \<leftarrow> arr_get (ov_obj ov) i;
     xs \<leftarrow> arr_set (ov_obj ov) i (o'\<lparr>so_refcnt := r\<rparr>);
     Some (ov\<lparr>ov_obj := xs\<rparr>) }"

definition kylin_shm_destroy :: "kbyte list \<Rightarrow> kshm_overview \<Rightarrow> kshm_overview option" where
  "kylin_shm_destroy name ov = do {
     (found, ov) \<leftarrow> shm_object_find name ov;
     case found of None \<Rightarrow> Some ov
     | Some i \<Rightarrow> do {
         o' \<leftarrow> arr_get (ov_obj ov) i;
         ov \<leftarrow> set_refcnt i (so_refcnt o' - 1) ov;
         if so_refcnt o' - 1 = 0 then do {
           (_, ov) \<leftarrow> shm_object_delete (so_name o') ov;
           Some ov }
         else Some ov } }"

text \<open>The handle is allocated when \<open>ok\<close> holds; \<open>None\<close> as the first component is the null pointer.\<close>

definition kylin_shm_open ::
    "bool \<Rightarrow> shm_sys \<Rightarrow> kbyte list \<Rightarrow> kshm_overview \<Rightarrow> (kshm option \<times> kshm_overview \<times> shm_call list) option" where
  "kylin_shm_open ok sys name ov = do {
     n \<leftarrow> strlen name;
     if unat n > KYLIN_NAME_LENGTH then Some (None, ov, [])
     else do {
       (found, ov) \<leftarrow> shm_object_find name ov;
       case found of None \<Rightarrow> Some (None, ov, [])
       | Some i \<Rightarrow> if \<not> ok then Some (None, ov, []) else do {
           o' \<leftarrow> arr_get (ov_obj ov) i;
           c \<leftarrow> kshm_open name True;
           u \<leftarrow> kshm_unlink name;
           let fd = sys_open sys;
           let tr = SysTruncate fd (so_cap o');
           let mp = SysMap (so_cap o') fd;
           if fd = - 1 then Some (None, ov, [c, u])
           else if \<not> sys_truncate sys then Some (None, ov, [c, tr, u])
           else (case sys_map sys of None \<Rightarrow> Some (None, ov, [c, tr, mp, u])
             | Some a \<Rightarrow> do {
                 nm \<leftarrow> shm_name_copy name;
                 ov \<leftarrow> set_refcnt i (so_refcnt o' + 1) ov;
                 Some (Some \<lparr>shm_name = nm, shm_fd = fd, shm_spin = kylin_spinlock_init \<lparr>sl_locked = 0\<rparr>,
                   shm_cap = so_cap o', shm_addr = a\<rparr>, ov, [c, tr, mp, Clear a (so_cap o')]) }) } } }"

definition MAP_FAILED :: kaddr where "MAP_FAILED = - 1"

definition kylin_shm_close :: "kshm \<Rightarrow> kshm_overview \<Rightarrow> (kshm_overview \<times> shm_call list) option" where
  "kylin_shm_close shm ov = do {
     (found, ov) \<leftarrow> shm_object_find (shm_name shm) ov;
     case found of None \<Rightarrow> Some (ov, [])
     | Some i \<Rightarrow> do {
         o' \<leftarrow> arr_get (ov_obj ov) i;
         ov \<leftarrow> set_refcnt i (so_refcnt o' - 1) ov;
         us \<leftarrow> (if shm_fd shm \<noteq> 0 then map_option (\<lambda>u. [u]) (kshm_unlink (shm_name shm)) else Some []);
         Some (ov, us @ (if shm_addr shm \<noteq> MAP_FAILED then [SysUnmap (shm_addr shm) (shm_cap shm)] else [])) } }"

definition kylin_shm_lock :: "kshm \<Rightarrow> kshm option" where
  "kylin_shm_lock shm = map_option (\<lambda>sl. shm\<lparr>shm_spin := sl\<rparr>) (kylin_spinlock_lock (shm_spin shm))"

definition kylin_shm_unlock :: "kshm \<Rightarrow> kshm" where
  "kylin_shm_unlock shm = shm\<lparr>shm_spin := kylin_spinlock_unlock (shm_spin shm)\<rparr>"

definition kylin_shm_trylock :: "kshm \<Rightarrow> 32 word \<times> kshm" where
  "kylin_shm_trylock shm = (let (r, sl) = kylin_spinlock_trylock (shm_spin shm) in (r, shm\<lparr>shm_spin := sl\<rparr>))"

definition kylin_shm_addr :: "kshm \<Rightarrow> kaddr" where
  "kylin_shm_addr shm = shm_addr shm"

definition kylin_shm_size :: "kshm \<Rightarrow> ksize" where
  "kylin_shm_size shm = shm_cap shm"

definition kylin_shm_init :: "shm_sys \<Rightarrow> kshm_overview \<Rightarrow> (kerr \<times> kshm_overview option \<times> shm_call list) option" where
  "kylin_shm_init sys old = shm_object_init sys old"

definition kylin_shm_fini :: "kshm_overview option \<Rightarrow> kaddr \<Rightarrow> shm_call list option" where
  "kylin_shm_fini ov addr = shm_object_fini ov addr"

subsection \<open>The table as a finite map\<close>

lemma map_of_snoc: "k \<notin> fst ` set xs \<Longrightarrow> map_of (xs @ [(k, v)]) = (map_of xs)(k \<mapsto> v)"
  by (auto simp: fun_eq_iff map_add_def map_of_append[symmetric] dest: weak_map_of_SomeI split: option.splits)
    (metis map_of_SomeD fst_conv image_eqI option.exhaust)

lemma map_of_update_nth:
  assumes "distinct (map fst xs)" "i < length xs" "fst (xs ! i) = k"
  shows "map_of (xs[i := (k, v)]) = (map_of xs)(k \<mapsto> v)"
  using assms
proof (induction xs arbitrary: i)
  case (Cons x xs)
  have "fst (xs ! j) \<noteq> fst x" if "j < length xs" for j
    using Cons.prems(1) that by (metis distinct.simps(2) image_eqI list.map(2) list.set_map nth_mem)
  with Cons show ?case by (cases i) (auto simp: fun_eq_iff)
qed simp

lemma map_of_remove_nth:
  assumes "distinct (map fst xs)" "i < length xs" "fst (xs ! i) = k"
  shows "map_of (take i xs @ drop (Suc i) xs) = (map_of xs)(k := None)"
  using assms
proof (induction xs arbitrary: i)
  case (Cons x xs)
  have "fst (xs ! j) \<noteq> fst x" if "j < length xs" for j
    using Cons.prems(1) that by (metis distinct.simps(2) image_eqI list.map(2) list.set_map nth_mem)
  with Cons show ?case by (cases i) (auto simp: fun_eq_iff map_of_eq_None_iff)
qed simp

lemma distinct_remove_nth: "distinct xs \<Longrightarrow> distinct (take i xs @ drop (Suc i) xs)"
  by (simp add: set_take_disj_set_drop_if_distinct)

definition shm_objs :: "kshm_overview \<Rightarrow> kshm_obj list" where
  "shm_objs ov = take (unat (ov_count ov)) (ov_obj ov)"

definition shm_entry :: "kshm_obj \<Rightarrow> kbyte list \<times> (ksize \<times> 32 word)" where
  "shm_entry obj = (so_name obj, so_cap obj, so_refcnt obj)"

definition shm_wf :: "kshm_overview \<Rightarrow> bool" where
  "shm_wf ov \<longleftrightarrow> length (ov_obj ov) = KYLIN_SHM_OBJ_MAX \<and> unat (ov_count ov) \<le> KYLIN_SHM_OBJ_MAX
     \<and> sl_locked (ov_lock ov) = 0 \<and> (\<forall>obj \<in> set (shm_objs ov). length (so_name obj) = KYLIN_NAME_LENGTH)"

definition shm_rep :: "kshm_overview \<Rightarrow> (kbyte list \<rightharpoonup> ksize \<times> 32 word) \<Rightarrow> bool" where
  "shm_rep ov M \<longleftrightarrow> shm_wf ov \<and> distinct (map so_name (shm_objs ov)) \<and> M = map_of (map shm_entry (shm_objs ov))"

lemma shm_rep_wf: "shm_rep ov M \<Longrightarrow> shm_wf ov"
  by (simp add: shm_rep_def)

text \<open>The index of the entry with a name, or none.\<close>

definition shm_index :: "kbyte list \<Rightarrow> kshm_overview \<Rightarrow> nat option" where
  "shm_index n ov = find (\<lambda>i. so_name (shm_objs ov ! i) = n) [0..<length (shm_objs ov)]"

lemma shm_scan_index:
  assumes "shm_wf ov" "length n = KYLIN_NAME_LENGTH"
  shows "shm_scan n ov = Some (shm_index n ov)"
proof -
  have l: "length (shm_objs ov) = unat (ov_count ov)" using assms by (simp add: shm_wf_def shm_objs_def)
  have "do { o' \<leftarrow> arr_get (ov_obj ov) i; r \<leftarrow> memcmp (so_name o') 0 n 0 KYLIN_NAME_LENGTH; Some (r = 0) }
      = Some (so_name (shm_objs ov ! i) = n)" if "i \<in> set [0..<unat (ov_count ov)]" for i
  proof -
    have i: "i < length (shm_objs ov)" using that l by simp
    then have "length (so_name (shm_objs ov ! i)) = KYLIN_NAME_LENGTH" using assms(1) nth_mem unfolding shm_wf_def by blast
    moreover have "i < length (ov_obj ov)" "ov_obj ov ! i = shm_objs ov ! i" using i by (auto simp: shm_objs_def)
    ultimately show ?thesis using assms(2) by (simp add: memcmp_def buf_read_def byte_cmp_zero)
  qed
  then show ?thesis unfolding shm_scan_def shm_index_def l by (rule find_loop_find)
qed

lemma shm_index_cases:
  assumes "shm_rep ov M"
  obtains (absent) "shm_index n ov = None" "M n = None"
  | (present) i where "shm_index n ov = Some i" "i < length (shm_objs ov)" "so_name (shm_objs ov ! i) = n"
      "M n = Some (so_cap (shm_objs ov ! i), so_refcnt (shm_objs ov ! i))"
proof (cases "shm_index n ov")
  case None
  then have "\<forall>obj \<in> set (shm_objs ov). so_name obj \<noteq> n" by (auto simp: shm_index_def find_None_iff in_set_conv_nth)
  then have "M n = None" using assms by (auto simp: shm_rep_def map_of_eq_None_iff shm_entry_def)
  with None absent show thesis by blast
next
  case (Some i)
  then have i: "i < length (shm_objs ov)" "so_name (shm_objs ov ! i) = n" by (auto simp: shm_index_def find_Some_iff)
  have "map_of (map shm_entry (shm_objs ov)) n = Some (so_cap (shm_objs ov ! i), so_refcnt (shm_objs ov ! i))"
    using assms i by (intro map_of_is_SomeI) (auto simp: shm_rep_def shm_entry_def comp_def in_set_conv_nth image_iff intro!: exI [of _ i])
  then show thesis using Some i present assms by (simp add: shm_rep_def)
qed

lemma shm_unlock_lock:
  "sl_locked (ov_lock ov) = 0 \<Longrightarrow> shm_lock ov = Some (ov\<lparr>ov_lock := (ov_lock ov)\<lparr>sl_locked := 1\<rparr>\<rparr>)"
  "sl_locked (ov_lock ov) = 0 \<Longrightarrow> shm_unlock (ov\<lparr>ov_lock := (ov_lock ov)\<lparr>sl_locked := 1\<rparr>\<rparr>) = ov"
  "sl_locked (ov_lock ov) = 0 \<Longrightarrow>
     shm_unlock (ov\<lparr>ov_lock := (ov_lock ov)\<lparr>sl_locked := 1\<rparr>, ov_obj := xs, ov_count := c\<rparr>) = ov\<lparr>ov_obj := xs, ov_count := c\<rparr>"
  by (simp_all add: shm_lock_def shm_unlock_def)

lemma shm_scan_lock [simp]: "shm_scan n (ov\<lparr>ov_lock := l\<rparr>) = shm_scan n ov"
  by (simp add: shm_scan_def)

lemma shm_object_find_spec:
  assumes "shm_wf ov" "length n = KYLIN_NAME_LENGTH"
  shows "shm_object_find n ov = Some (shm_index n ov, ov)"
  using assms shm_scan_index [OF assms] by (simp add: shm_object_find_def shm_unlock_lock shm_wf_def)

lemma shm_object_insert_objs:
  assumes "shm_wf ov" "unat (ov_count ov) < KYLIN_SHM_OBJ_MAX" "length (so_name obj) = KYLIN_NAME_LENGTH"
  shows "\<exists>ov'. shm_object_insert obj ov = Some (KYLIN_ERROR_OK, ov') \<and> shm_wf ov' \<and> shm_objs ov' = shm_objs ov @ [obj]"
proof -
  note r = assms(1) [unfolded shm_wf_def]
  let ?c = "unat (ov_count ov)"
  let ?ov = "ov\<lparr>ov_obj := (ov_obj ov)[?c := obj], ov_count := ov_count ov + 1\<rparr>"
  have u: "unat (ov_count ov + 1) = ?c + 1" using assms(2) by (intro unat_add_noflow [THEN trans]) simp_all
  have objs: "shm_objs ?ov = shm_objs ov @ [obj]" using assms(2) r u by (simp add: shm_objs_def take_Suc_conv_app_nth)
  have "shm_object_insert obj ov = Some (KYLIN_ERROR_OK, ?ov)"
    using r assms(2) by (simp add: shm_object_insert_def shm_unlock_lock)
  moreover have "shm_wf ?ov" unfolding shm_wf_def objs using r assms u by auto
  ultimately show ?thesis using objs by blast
qed

lemma shm_rep_card:
  assumes "shm_rep ov M"
  shows "card (dom M) = unat (ov_count ov)"
proof -
  have "dom M = set (map so_name (shm_objs ov))" using assms by (auto simp: shm_rep_def dom_map_of_conv_image_fst shm_entry_def image_iff)
  moreover have "length (shm_objs ov) = unat (ov_count ov)" using assms by (simp add: shm_rep_def shm_wf_def shm_objs_def)
  ultimately show ?thesis using assms by (metis distinct_card length_map shm_rep_def)
qed

lemma shm_object_insert_spec:
  assumes "shm_rep ov M" "length (so_name obj) = KYLIN_NAME_LENGTH" "M (so_name obj) = None"
  shows "if card (dom M) = KYLIN_SHM_OBJ_MAX then shm_object_insert obj ov = Some (KYLIN_ERROR_NOSPC, ov)
    else \<exists>ov'. shm_object_insert obj ov = Some (KYLIN_ERROR_OK, ov')
      \<and> shm_rep ov' (M(so_name obj \<mapsto> (so_cap obj, so_refcnt obj)))"
proof (cases "unat (ov_count ov) = KYLIN_SHM_OBJ_MAX")
  case True
  then show ?thesis using assms(1) shm_rep_card [OF assms(1)]
    by (simp add: shm_object_insert_def shm_unlock_lock shm_rep_def shm_wf_def)
next
  case False
  then have c: "unat (ov_count ov) < KYLIN_SHM_OBJ_MAX" using assms(1) by (simp add: shm_rep_def shm_wf_def)
  obtain ov' where ov': "shm_object_insert obj ov = Some (KYLIN_ERROR_OK, ov')" "shm_wf ov'" "shm_objs ov' = shm_objs ov @ [obj]"
    using shm_object_insert_objs [OF shm_rep_wf [OF assms(1)] c assms(2)] by blast
  have "so_name obj \<notin> so_name ` set (shm_objs ov)"
    using assms(1,3) by (auto simp: shm_rep_def map_of_eq_None_iff shm_entry_def image_iff)
  then have "shm_rep ov' (M(so_name obj \<mapsto> (so_cap obj, so_refcnt obj)))"
    using assms(1) ov' map_of_snoc [of "so_name obj" "map shm_entry (shm_objs ov)" "(so_cap obj, so_refcnt obj)"]
    by (auto simp: shm_rep_def shm_entry_def image_iff)
  then show ?thesis using ov'(1) False shm_rep_card [OF assms(1)] by simp
qed

lemma shm_object_delete_spec:
  assumes "shm_rep ov M" "M n \<noteq> None" "length n = KYLIN_NAME_LENGTH"
  shows "\<exists>ov'. shm_object_delete n ov = Some (KYLIN_ERROR_OK, ov') \<and> shm_rep ov' (M(n := None))"
  using assms(1)
proof (cases rule: shm_index_cases [where n = n])
  case (present i)
  note r = assms(1) [unfolded shm_rep_def shm_wf_def]
  let ?c = "unat (ov_count ov)"
  have l: "length (shm_objs ov) = ?c" using r by (simp add: shm_objs_def)
  have i: "i < ?c" "?c \<le> KYLIN_SHM_OBJ_MAX" using present l r by simp_all
  let ?xs = "take i (ov_obj ov) @ take (?c - i - 1) (drop (i + 1) (ov_obj ov)) @ drop (?c - 1) (ov_obj ov)"
  let ?ov = "ov\<lparr>ov_obj := ?xs, ov_count := ov_count ov - 1\<rparr>"
  have u: "unat (ov_count ov - 1) = ?c - 1" using i by (intro unat_minus_one) auto
  have m: "move_down (ov_obj ov) i (?c - i - 1) = Some ?xs"
    using i r by (auto simp: move_down_def buf_simps)
  have "shm_object_delete n ov = Some (KYLIN_ERROR_OK, ?ov)"
    using r present m assms shm_scan_index [OF shm_rep_wf [OF assms(1)] assms(3)]
    by (simp add: shm_object_delete_def shm_unlock_lock)
  moreover have objs: "shm_objs ?ov = take i (shm_objs ov) @ drop (Suc i) (shm_objs ov)"
    using i r u by (simp add: shm_objs_def take_drop)
  have len: "\<forall>obj \<in> set (take i (shm_objs ov) @ drop (Suc i) (shm_objs ov)). length (so_name obj) = KYLIN_NAME_LENGTH"
    using r by (auto dest: in_set_takeD in_set_dropD)
  have "shm_rep ?ov (M(n := None))"
    unfolding shm_rep_def shm_wf_def objs
    using r i u len present(2,3) distinct_remove_nth [of "map so_name (shm_objs ov)" i]
      map_of_remove_nth [of "map shm_entry (shm_objs ov)" i n]
    by (simp add: shm_entry_def comp_def take_map drop_map)
  ultimately show ?thesis by blast
qed (use assms in simp)

lemma set_refcnt_spec:
  assumes "shm_rep ov M" "i < length (shm_objs ov)" "so_name (shm_objs ov ! i) = n"
  shows "\<exists>ov'. set_refcnt i r ov = Some ov' \<and> shm_rep ov' (M(n \<mapsto> (so_cap (shm_objs ov ! i), r)))"
proof -
  note rp = assms(1) [unfolded shm_rep_def shm_wf_def]
  let ?o = "(shm_objs ov ! i)\<lparr>so_refcnt := r\<rparr>"
  have i: "i < length (ov_obj ov)" "ov_obj ov ! i = shm_objs ov ! i" "i < unat (ov_count ov)"
    using assms(2) by (auto simp: shm_objs_def)
  let ?ov = "ov\<lparr>ov_obj := (ov_obj ov)[i := ?o]\<rparr>"
  have objs: "shm_objs ?ov = (shm_objs ov)[i := ?o]" using i by (simp add: shm_objs_def take_update_swap)
  have nm: "(map so_name (shm_objs ov))[i := n] = map so_name (shm_objs ov)"
    using assms(2,3) by (simp add: list_update_same_conv)
  have len: "\<forall>obj \<in> set ((shm_objs ov)[i := ?o]). length (so_name obj) = KYLIN_NAME_LENGTH"
    using rp assms(2) by (auto dest!: set_update_subset_insert [THEN subsetD])
  have "shm_rep ?ov (M(n \<mapsto> (so_cap (shm_objs ov ! i), r)))"
    unfolding shm_rep_def shm_wf_def objs
    using rp assms(2,3) len nm map_of_update_nth [of "map shm_entry (shm_objs ov)" i n "(so_cap (shm_objs ov ! i), r)"]
    by (simp add: shm_entry_def comp_def map_update)
  moreover have "set_refcnt i r ov = Some ?ov" using i by (simp add: set_refcnt_def)
  ultimately show ?thesis by blast
qed

text \<open>
  A name as the library uses it: a buffer of the full length of a name that holds a string, with zero
  bytes behind the string.
\<close>

definition shm_valid :: "kbyte list \<Rightarrow> bool" where
  "shm_valid name \<longleftrightarrow> length name = KYLIN_NAME_LENGTH \<and> 0 \<in> set name
     \<and> list_all (\<lambda>b. b = 0) (dropWhile (\<lambda>b. b \<noteq> 0) name)"

lemma shm_valid_text:
  assumes "shm_valid name"
  defines "k \<equiv> length (takeWhile (\<lambda>b. b \<noteq> 0) name)"
  shows "strlen name = Some (of_nat k)" "unat (of_nat k :: ksize) = k" "k < KYLIN_NAME_LENGTH"
    "take k name @ replicate (KYLIN_NAME_LENGTH - k) 0 = name"
proof -
  have v: "length name = KYLIN_NAME_LENGTH" "0 \<in> set name" "\<forall>b \<in> set (dropWhile (\<lambda>b. b \<noteq> 0) name). b = 0"
    using assms(1) unfolding shm_valid_def list_all_iff by blast+
  have "k < length name" unfolding k_def takeWhile_length_lt using v(2) by auto
  then show k: "k < KYLIN_NAME_LENGTH" using v(1) by simp
  then show "unat (of_nat k :: ksize) = k" by (simp add: unat_of_nat)
  show "strlen name = Some (of_nat k)" using v(2) by (simp add: strlen_def k_def)
  have "dropWhile (\<lambda>b. b \<noteq> 0) name = replicate (KYLIN_NAME_LENGTH - k) 0"
  proof (rule replicate_eqI)
    show "length (dropWhile (\<lambda>b. b \<noteq> 0) name) = KYLIN_NAME_LENGTH - k"
      unfolding k_def dropWhile_eq_drop using v(1) by simp
  qed (use v(3) in blast)
  then show "take k name @ replicate (KYLIN_NAME_LENGTH - k) 0 = name"
    by (metis k_def takeWhile_dropWhile_id takeWhile_eq_take)
qed

lemma shm_name_copy_valid: "shm_valid name \<Longrightarrow> shm_name_copy name = Some name"
  using shm_valid_text [of name] by (simp add: shm_name_copy_def shm_valid_def buf_simps)

lemma shm_path_valid: "shm_valid name \<Longrightarrow> \<exists>f. shm_path name = Some f"
  using shm_valid_text [of name] by (simp add: shm_path_def shm_valid_def buf_simps)

subsection \<open>Named segments\<close>

text \<open>
  The contract of the segments: a finite map from names to a size and a reference count. Creating
  adds a name with count 0, opening and closing count up and down, destroying counts down and removes
  the name when the count becomes 0.
\<close>

datatype 'n seg_op = SegCreate 'n ksize | SegOpen 'n | SegClose 'n | SegDestroy 'n

datatype seg_out = Code kerr | Opened "ksize option" | Done

fun seg_spec :: "('n \<rightharpoonup> ksize \<times> 32 word) \<Rightarrow> 'n seg_op \<Rightarrow> seg_out \<times> ('n \<rightharpoonup> ksize \<times> 32 word)" where
  "seg_spec M (SegCreate n c) =
     (if M n \<noteq> None then (Code KYLIN_ERROR_EXIST, M)
      else if card (dom M) = KYLIN_SHM_OBJ_MAX then (Code KYLIN_ERROR_NOSPC, M)
      else (Code KYLIN_ERROR_OK, M(n \<mapsto> (c, 0))))"
| "seg_spec M (SegOpen n) = (case M n of None \<Rightarrow> (Opened None, M) | Some (c, r) \<Rightarrow> (Opened (Some c), M(n \<mapsto> (c, r + 1))))"
| "seg_spec M (SegClose n) = (Done, case M n of None \<Rightarrow> M | Some (c, r) \<Rightarrow> M(n \<mapsto> (c, r - 1)))"
| "seg_spec M (SegDestroy n) = (Done, case M n of None \<Rightarrow> M
     | Some (c, r) \<Rightarrow> if r = 1 then M(n := None) else M(n \<mapsto> (c, r - 1)))"

fun seg_spec_run :: "('n \<rightharpoonup> ksize \<times> 32 word) \<Rightarrow> 'n seg_op list \<Rightarrow> seg_out list \<times> ('n \<rightharpoonup> ksize \<times> 32 word)" where
  "seg_spec_run M [] = ([], M)"
| "seg_spec_run M (x # xs) = (let (r, M) = seg_spec M x; (rs, M) = seg_spec_run M xs in (r # rs, M))"

fun seg_name :: "'n seg_op \<Rightarrow> 'n" where
  "seg_name (SegCreate n c) = n"
| "seg_name (SegOpen n) = n"
| "seg_name (SegClose n) = n"
| "seg_name (SegDestroy n) = n"

fun seg_run :: "('s \<Rightarrow> 'n seg_op \<Rightarrow> (seg_out \<times> 's) option) \<Rightarrow> 's \<Rightarrow> 'n seg_op list \<Rightarrow> (seg_out list \<times> 's) option" where
  "seg_run step s [] = Some ([], s)"
| "seg_run step s (x # xs) = do { (r, s) \<leftarrow> step s x; (rs, s) \<leftarrow> seg_run step s xs; Some (r # rs, s) }"

locale named_segments =
  fixes rep :: "'s \<Rightarrow> ('n \<rightharpoonup> ksize \<times> 32 word) \<Rightarrow> bool"
    and valid :: "'n \<Rightarrow> bool"
    and step :: "'s \<Rightarrow> 'n seg_op \<Rightarrow> (seg_out \<times> 's) option"
  assumes step_refines: "rep s M \<Longrightarrow> valid (seg_name x) \<Longrightarrow>
    \<exists>s'. step s x = Some (fst (seg_spec M x), s') \<and> rep s' (snd (seg_spec M x))"
begin

lemma run_refines:
  assumes "rep s M" "list_all (\<lambda>x. valid (seg_name x)) xs"
  shows "\<exists>s'. seg_run step s xs = Some (fst (seg_spec_run M xs), s') \<and> rep s' (snd (seg_spec_run M xs))"
  using assms
proof (induction xs arbitrary: s M)
  case (Cons x xs)
  obtain s1 where s1: "step s x = Some (fst (seg_spec M x), s1)" "rep s1 (snd (seg_spec M x))"
    using step_refines Cons.prems by fastforce
  then obtain s2 where "seg_run step s1 xs = Some (fst (seg_spec_run (snd (seg_spec M x)) xs), s2)"
      "rep s2 (snd (seg_spec_run (snd (seg_spec M x)) xs))"
    using Cons.IH Cons.prems(2) by fastforce
  with s1 show ?case by (simp add: case_prod_beta)
qed simp

text \<open>A segment that was never opened survives its destruction, and its name cannot be created again.\<close>

lemma destroy_unopened:
  assumes "rep s M" "valid n" "M n = None" "card (dom M) < KYLIN_SHM_OBJ_MAX"
  shows "\<exists>s'. seg_run step s [SegCreate n c, SegDestroy n, SegCreate n c'] = Some ([Code KYLIN_ERROR_OK, Done, Code KYLIN_ERROR_EXIST], s')
    \<and> rep s' (M(n \<mapsto> (c, - 1)))"
  using run_refines [OF assms(1), of "[SegCreate n c, SegDestroy n, SegCreate n c']"] assms
  by simp

lemma open_close:
  assumes "rep s M" "valid n" "M n = Some (c, r)"
  shows "\<exists>s'. seg_run step s [SegOpen n, SegClose n] = Some ([Opened (Some c), Done], s') \<and> rep s' M"
  using run_refines [OF assms(1), of "[SegOpen n, SegClose n]"] assms by (simp add: fun_upd_idem)

end

text \<open>The operations of the library as steps, with the system calls of an open that succeeds.\<close>

definition sys_good :: "shm_sys \<Rightarrow> bool" where
  "sys_good sys \<longleftrightarrow> sys_open sys \<noteq> - 1 \<and> sys_truncate sys \<and> sys_map sys \<noteq> None"

definition shm_handle :: "kbyte list \<Rightarrow> shm_sys \<Rightarrow> kshm" where
  "shm_handle n sys = \<lparr>shm_name = n, shm_fd = sys_open sys, shm_spin = \<lparr>sl_locked = 0\<rparr>, shm_cap = 0, shm_addr = the (sys_map sys)\<rparr>"

fun shm_step :: "shm_sys \<Rightarrow> kshm_overview \<Rightarrow> kbyte list seg_op \<Rightarrow> (seg_out \<times> kshm_overview) option" where
  "shm_step sys ov (SegCreate n c) = do { (r, ov) \<leftarrow> kylin_shm_create n c ov; Some (Code r, ov) }"
| "shm_step sys ov (SegOpen n) = do {
     (h, ov, _) \<leftarrow> kylin_shm_open True sys n ov; Some (Opened (map_option shm_cap h), ov) }"
| "shm_step sys ov (SegClose n) = do { (ov, _) \<leftarrow> kylin_shm_close (shm_handle n sys) ov; Some (Done, ov) }"
| "shm_step sys ov (SegDestroy n) = do { ov \<leftarrow> kylin_shm_destroy n ov; Some (Done, ov) }"

lemma shm_valid_length: "shm_valid n \<Longrightarrow> length n = KYLIN_NAME_LENGTH"
  by (simp add: shm_valid_def)

lemma kylin_shm_create_spec:
  assumes "shm_rep ov M" "shm_valid n"
  shows "\<exists>ov'. shm_step sys ov (SegCreate n c) = Some (fst (seg_spec M (SegCreate n c)), ov')
    \<and> shm_rep ov' (snd (seg_spec M (SegCreate n c)))"
proof -
  note v = shm_valid_text [OF assms(2)] and l = shm_valid_length [OF assms(2)]
  note f = shm_object_find_spec [OF shm_rep_wf [OF assms(1)] l]
  from assms(1) show ?thesis
  proof (cases rule: shm_index_cases [where n = n])
    case absent
    then show ?thesis
      using v l f shm_name_copy_valid [OF assms(2)] assms(1)
        shm_object_insert_spec [OF assms(1), of "\<lparr>so_name = n, so_cap = c, so_refcnt = 0\<rparr>"]
      by (auto simp: kylin_shm_create_def split: if_splits)
  next
    case (present i)
    then show ?thesis using v f assms(1) by (simp add: kylin_shm_create_def)
  qed
qed

lemma shm_objs_nth: "i < length (shm_objs ov) \<Longrightarrow> arr_get (ov_obj ov) i = Some (shm_objs ov ! i)"
  by (simp add: shm_objs_def)

lemma kylin_shm_open_spec:
  assumes "shm_rep ov M" "shm_valid n" "sys_good sys"
  shows "\<exists>ov'. shm_step sys ov (SegOpen n) = Some (fst (seg_spec M (SegOpen n)), ov') \<and> shm_rep ov' (snd (seg_spec M (SegOpen n)))"
proof -
  note v = shm_valid_text [OF assms(2)] and f = shm_object_find_spec [OF shm_rep_wf [OF assms(1)] shm_valid_length [OF assms(2)]]
  obtain p where p: "shm_path n = Some p" using shm_path_valid [OF assms(2)] by blast
  from assms(1) show ?thesis
  proof (cases rule: shm_index_cases [where n = n])
    case absent
    then show ?thesis using v f assms(1) by (simp add: kylin_shm_open_def)
  next
    case (present i)
    obtain ov' where "set_refcnt i (so_refcnt (shm_objs ov ! i) + 1) ov = Some ov'"
        "shm_rep ov' (M(n \<mapsto> (so_cap (shm_objs ov ! i), so_refcnt (shm_objs ov ! i) + 1)))"
      using set_refcnt_spec [OF assms(1) present(2,3)] by blast
    then show ?thesis using present v f p assms(3) shm_name_copy_valid [OF assms(2)] shm_objs_nth [OF present(2)]
      by (auto simp: kylin_shm_open_def kshm_open_def kshm_unlink_def sys_good_def Let_def)
  qed
qed

lemma kylin_shm_close_spec:
  assumes "shm_rep ov M" "shm_valid n"
  shows "\<exists>ov'. shm_step sys ov (SegClose n) = Some (fst (seg_spec M (SegClose n)), ov') \<and> shm_rep ov' (snd (seg_spec M (SegClose n)))"
proof -
  note f = shm_object_find_spec [OF shm_rep_wf [OF assms(1)] shm_valid_length [OF assms(2)]]
  obtain p where p: "shm_path n = Some p" using shm_path_valid [OF assms(2)] by blast
  from assms(1) show ?thesis
  proof (cases rule: shm_index_cases [where n = n])
    case absent
    then show ?thesis using f assms(1) by (simp add: kylin_shm_close_def shm_handle_def)
  next
    case (present i)
    obtain ov' where "set_refcnt i (so_refcnt (shm_objs ov ! i) - 1) ov = Some ov'"
        "shm_rep ov' (M(n \<mapsto> (so_cap (shm_objs ov ! i), so_refcnt (shm_objs ov ! i) - 1)))"
      using set_refcnt_spec [OF assms(1) present(2,3)] by blast
    then show ?thesis using present f p shm_objs_nth [OF present(2)]
      by (auto simp: kylin_shm_close_def kshm_unlink_def shm_handle_def)
  qed
qed

lemma kylin_shm_destroy_spec:
  assumes "shm_rep ov M" "shm_valid n"
  shows "\<exists>ov'. shm_step sys ov (SegDestroy n) = Some (fst (seg_spec M (SegDestroy n)), ov') \<and> shm_rep ov' (snd (seg_spec M (SegDestroy n)))"
proof -
  note l = shm_valid_length [OF assms(2)]
  note f = shm_object_find_spec [OF shm_rep_wf [OF assms(1)] l]
  from assms(1) show ?thesis
  proof (cases rule: shm_index_cases [where n = n])
    case absent
    then show ?thesis using f assms(1) by (simp add: kylin_shm_destroy_def)
  next
    case (present i)
    obtain ov1 where ov1: "set_refcnt i (so_refcnt (shm_objs ov ! i) - 1) ov = Some ov1"
        "shm_rep ov1 (M(n \<mapsto> (so_cap (shm_objs ov ! i), so_refcnt (shm_objs ov ! i) - 1)))"
      using set_refcnt_spec [OF assms(1) present(2,3)] by blast
    obtain ov2 where "shm_object_delete n ov1 = Some (KYLIN_ERROR_OK, ov2)" "shm_rep ov2 (M(n := None))"
      using shm_object_delete_spec [OF ov1(2) _ l] by (auto simp: fun_upd_twist)
    then show ?thesis using present f ov1 shm_objs_nth [OF present(2)]
      by (auto simp: kylin_shm_destroy_def)
  qed
qed

interpretation shm: named_segments "\<lambda>ov M. sys_good sys \<and> shm_rep ov M" shm_valid "shm_step sys" for sys
proof
  fix ov :: kshm_overview and M x
  assume "sys_good sys \<and> shm_rep ov M" "shm_valid (seg_name x)"
  then show "\<exists>ov'. shm_step sys ov x = Some (fst (seg_spec M x), ov') \<and> sys_good sys \<and> shm_rep ov' (snd (seg_spec M x))"
    using kylin_shm_create_spec kylin_shm_open_spec kylin_shm_close_spec kylin_shm_destroy_spec
    by (cases x) (metis seg_name.simps)+
qed

subsection \<open>Properties\<close>

definition demo_name :: "kbyte list" where
  "demo_name = 97 # replicate 63 0"

definition demo_sys :: shm_sys where
  "demo_sys = \<lparr>sys_open = 5, sys_create = 6, sys_truncate = True, sys_map = Some 4096, sys_errno = 0\<rparr>"

text \<open>The table right after a new mapping was cleared.\<close>

definition demo_overview :: kshm_overview where
  "demo_overview = \<lparr>ov_lock = \<lparr>sl_locked = 0\<rparr>, ov_count = 0,
     ov_obj = replicate KYLIN_SHM_OBJ_MAX \<lparr>so_name = replicate KYLIN_NAME_LENGTH 0, so_cap = 0, so_refcnt = 0\<rparr>\<rparr>"

lemma demo_shm_facts: "shm_valid demo_name" "sys_good demo_sys" "shm_rep demo_overview Map.empty"
  by (simp_all add: shm_valid_def demo_name_def sys_good_def demo_sys_def shm_rep_def shm_wf_def shm_objs_def demo_overview_def list_all_iff)

text \<open>
  C11. While the system calls succeed, every sequence of creations, openings, closings and
  destructions of segments, under names that are zero-padded buffers, returns and answers what the
  contract of named segments answers, and the table holds the contract's map afterwards: names are
  unique, a name is refused while it exists or while the table is full, sizes are kept.
\<close>

theorem kylin_shm_refines_segments:
  assumes "sys_good sys" "shm_rep ov M" "list_all (\<lambda>x. shm_valid (seg_name x)) xs"
  shows "\<exists>ov'. seg_run (shm_step sys) ov xs = Some (fst (seg_spec_run M xs), ov') \<and> shm_rep ov' (snd (seg_spec_run M xs))"
  using shm.run_refines [of sys ov M xs] assms by blast

theorem kylin_shm_refines_segments_witness:
  "\<exists>ov'. seg_run (shm_step demo_sys) demo_overview [SegCreate demo_name 64, SegOpen demo_name, SegCreate demo_name 32, SegDestroy demo_name]
    = Some ([Code KYLIN_ERROR_OK, Opened (Some 64), Code KYLIN_ERROR_EXIST, Done], ov') \<and> shm_rep ov' Map.empty"
  using kylin_shm_refines_segments [OF demo_shm_facts(2,3),
      of "[SegCreate demo_name 64, SegOpen demo_name, SegCreate demo_name 32, SegDestroy demo_name]"]
  by (simp add: demo_shm_facts)

text \<open>
  A segment that no process has open is not removed by its destruction: the count is 0 and
  wraps, the entry stays in the table with the count \<open>2 ^ 32 - 1\<close>, and creating the name again is
  refused.
\<close>

theorem kylin_shm_destroy_unopened:
  assumes "shm_rep ov M" "shm_valid n" "M n = None" "card (dom M) < KYLIN_SHM_OBJ_MAX"
  shows "\<exists>ov1 ov2. kylin_shm_create n c ov = Some (KYLIN_ERROR_OK, ov1) \<and> kylin_shm_destroy n ov1 = Some ov2
    \<and> shm_rep ov2 (M(n \<mapsto> (c, - 1))) \<and> kylin_shm_create n c' ov2 = Some (KYLIN_ERROR_EXIST, ov2)"
proof -
  obtain ov1 where 1: "kylin_shm_create n c ov = Some (KYLIN_ERROR_OK, ov1)" "shm_rep ov1 (M(n \<mapsto> (c, 0)))"
    using kylin_shm_create_spec [OF assms(1,2), of undefined c] assms(3,4) by (auto simp: bind_eq_Some_conv)
  obtain ov2 where 2: "kylin_shm_destroy n ov1 = Some ov2" "shm_rep ov2 (M(n \<mapsto> (c, - 1)))"
    using kylin_shm_destroy_spec [OF 1(2) assms(2), of undefined] by (auto simp: bind_eq_Some_conv)
  have "kylin_shm_create n c' ov2 = Some (KYLIN_ERROR_EXIST, ov2)"
    using 2(2)
  proof (cases rule: shm_index_cases [where n = n])
    case (present i)
    then show ?thesis
      using shm_valid_text(1-3) [OF assms(2)] shm_object_find_spec [OF shm_rep_wf [OF 2(2)] shm_valid_length [OF assms(2)]]
      by (simp add: kylin_shm_create_def)
  qed simp
  with 1 2 show ?thesis by blast
qed

theorem kylin_shm_destroy_unopened_witness:
  "\<exists>ov1 ov2. kylin_shm_create demo_name 64 demo_overview = Some (KYLIN_ERROR_OK, ov1) \<and> kylin_shm_destroy demo_name ov1 = Some ov2
    \<and> kylin_shm_create demo_name 64 ov2 = Some (KYLIN_ERROR_EXIST, ov2)"
  using kylin_shm_destroy_unopened [OF demo_shm_facts(3,1), of 64 64] by auto

text \<open>
  The comparison of names goes over the whole buffer and not over the string: a name with other
  bytes behind its string is never found, so it can be created again and again, and the table gets
  two entries with the same name.
\<close>

theorem kylin_shm_create_twice:
  assumes "shm_wf ov" "unat (ov_count ov) + 2 \<le> KYLIN_SHM_OBJ_MAX" "shm_index name ov = None"
    "length name = KYLIN_NAME_LENGTH" "0 \<in> set name" "\<not> shm_valid name"
  shows "\<exists>ov1 ov2 nm. kylin_shm_create name c ov = Some (KYLIN_ERROR_OK, ov1) \<and> kylin_shm_create name c' ov1 = Some (KYLIN_ERROR_OK, ov2)
    \<and> shm_objs ov2 = shm_objs ov @ [\<lparr>so_name = nm, so_cap = c, so_refcnt = 0\<rparr>, \<lparr>so_name = nm, so_cap = c', so_refcnt = 0\<rparr>]"
proof -
  define k where "k = length (takeWhile (\<lambda>b. b \<noteq> 0) name)"
  have "k < length name" unfolding k_def takeWhile_length_lt using assms(5) by auto
  then have k: "k < KYLIN_NAME_LENGTH" using assms(4) by simp
  then have u: "unat (of_nat k :: ksize) = k" by (simp add: unat_of_nat)
  have sl: "strlen name = Some (of_nat k)" using assms(5) by (simp add: strlen_def k_def)
  define nm where "nm = take k name @ replicate (KYLIN_NAME_LENGTH - k) 0"
  have nm: "shm_name_copy name = Some nm" using k u sl assms(4) by (simp add: shm_name_copy_def buf_simps nm_def)
  have ln: "length nm = KYLIN_NAME_LENGTH" using k assms(4) by (simp add: nm_def)
  have "name = nm \<Longrightarrow> shm_valid name"
    unfolding shm_valid_def list_all_iff dropWhile_eq_drop k_def [symmetric]
    by (metis assms(4,5) append_eq_conv_conj append_take_drop_id in_set_replicate length_take nm_def)
  then have ne: "nm \<noteq> name" using assms(6) by auto
  have create: "\<exists>ov'. kylin_shm_create name d w = Some (KYLIN_ERROR_OK, ov') \<and> shm_wf ov'
      \<and> shm_objs ov' = shm_objs w @ [\<lparr>so_name = nm, so_cap = d, so_refcnt = 0\<rparr>]"
    if "shm_wf w" "unat (ov_count w) < KYLIN_SHM_OBJ_MAX" "shm_index name w = None" for w d
    using shm_object_insert_objs [OF that(1,2), of "\<lparr>so_name = nm, so_cap = d, so_refcnt = 0\<rparr>"] that k u sl nm ln
      shm_object_find_spec [OF that(1) assms(4)] by (simp add: kylin_shm_create_def)
  obtain ov1 where 1: "kylin_shm_create name c ov = Some (KYLIN_ERROR_OK, ov1)" "shm_wf ov1"
      "shm_objs ov1 = shm_objs ov @ [\<lparr>so_name = nm, so_cap = c, so_refcnt = 0\<rparr>]"
    using create [OF assms(1) _ assms(3)] assms(2) by fastforce
  have "length (shm_objs ov1) = unat (ov_count ov1)" "length (shm_objs ov) = unat (ov_count ov)"
    using 1(2) assms(1) by (simp_all add: shm_wf_def shm_objs_def)
  then have "unat (ov_count ov1) < KYLIN_SHM_OBJ_MAX" using 1(3) assms(2) by simp
  moreover have "shm_index name ov1 = None"
    using assms(3) ne 1(3) by (auto simp: shm_index_def find_None_iff nth_append)
  ultimately show ?thesis using create [OF 1(2)] 1 by fastforce
qed

definition junk_name :: "kbyte list" where
  "junk_name = 97 # 0 # replicate 62 98"

theorem kylin_shm_create_twice_witness:
  "\<exists>ov1 ov2. kylin_shm_create junk_name 64 demo_overview = Some (KYLIN_ERROR_OK, ov1)
    \<and> kylin_shm_create junk_name 32 ov1 = Some (KYLIN_ERROR_OK, ov2)"
proof -
  have "shm_wf demo_overview" "unat (ov_count demo_overview) + 2 \<le> KYLIN_SHM_OBJ_MAX" "shm_index junk_name demo_overview = None"
    using demo_shm_facts(3) by (simp_all add: shm_rep_def shm_index_def shm_objs_def demo_overview_def)
  moreover have "length junk_name = KYLIN_NAME_LENGTH" "0 \<in> set junk_name" "\<not> shm_valid junk_name"
    by (simp_all add: junk_name_def shm_valid_def list_all_iff)
  ultimately show ?thesis using kylin_shm_create_twice [of demo_overview junk_name 64 32] by blast
qed

end
