(* ===== verification/Kylin_Registry.thy ===== *)
theory Kylin_Registry
  imports Kylin_List "HOL-Library.Multiset"
begin

section \<open>Plugins and the objects that use them\<close>

text \<open>
  What lib/core/event and lib/core/socket have in common: a table of plugins, one per type, with a
  reference count, and a list of the objects that are alive. Both keep their objects in a
  \<^verbatim>\<open>klist_t\<close> of pointers that is searched by comparing ids.
\<close>

record 'r kplugin =
  pl_ref :: "32 word"
  pl_type :: nat
  pl_reg :: 'r

definition free_plugin :: "'r \<Rightarrow> nat \<Rightarrow> 'r kplugin" where
  "free_plugin r t = \<lparr>pl_ref = 0, pl_type = t, pl_reg = r\<rparr>"

text \<open>
  A function of a plugin acts on a state of its own, \<open>'w\<close>; \<open>None\<close> is a call that does not return or is
  undefined.
\<close>

type_synonym ('w, 'r) kcall = "'w \<Rightarrow> ('r \<times> 'w) option"

text \<open>A function pointer that may be null: calling it, or the value to use when it is null.\<close>

definition call_or :: "'r \<Rightarrow> ('w, 'r) kcall option \<Rightarrow> ('w, 'r) kcall" where
  "call_or r f w = (case f of Some f \<Rightarrow> f w | None \<Rightarrow> Some (r, w))"

subsection \<open>Lists of objects\<close>

definition obj_list :: "lheap \<Rightarrow> klist \<Rightarrow> kaddr list \<Rightarrow> bool" where
  "obj_list h g vs \<longleftrightarrow> (\<exists>ps. dlist h g ps \<and> list_vals h ps = vs)"

text \<open>The options of such a list: pointers are stored as they are.\<close>

definition obj_opts :: "(kaddr \<Rightarrow> kaddr \<Rightarrow> int) \<Rightarrow> ksize \<Rightarrow> klist_opts" where
  "obj_opts match sz = \<lparr>list_val_type = KOBJ_OTHERS, list_val_size = sz, list_match = match, list_val_ctor = None\<rparr>"

definition obj_guard :: "klist \<Rightarrow> bool" where
  "obj_guard g \<longleftrightarrow> list_val_type (list_opts g) = KOBJ_OTHERS \<and> list_val_ctor (list_opts g) = None"

lemma obj_guard_opts [simp]: "obj_guard (g\<lparr>list_opts := obj_opts match sz\<rparr>)"
  by (simp add: obj_guard_def obj_opts_def)

lemma obj_opts_match [simp]: "list_match (obj_opts match sz) = match"
  by (simp add: obj_opts_def)

lemma obj_list_opts [simp]: "obj_list h (g\<lparr>list_opts := opts\<rparr>) vs = obj_list h g vs"
  by (simp add: obj_list_def dlist_def)

lemma obj_list_create: "kylin_list_create True opts = Some g \<Longrightarrow> obj_list h g []"
  by (auto simp: kylin_list_create_def obj_list_def dlist_def list_vals_def)

lemma list_vals_upd: "n \<notin> set ps \<Longrightarrow> list_vals (h(n := x)) ps = list_vals h ps"
  by (auto simp: list_vals_def)

lemma list_vals_Cons: "list_vals h (p # ps) = ln_val (the (h p)) # list_vals h ps"
  by (simp add: list_vals_def)

lemma obj_list_insert_head:
  assumes "obj_list h g vs" "obj_guard g" "node \<noteq> 0" "h node = None"
  shows "\<exists>h' g'. kylin_list_insert_head m h g node v = Some (Some (Obj v), m, h', g') \<and> obj_list h' g' (v # vs)"
proof -
  obtain ps where ps: "dlist h g ps" "list_vals h ps = vs" using assms(1) by (auto simp: obj_list_def)
  have n: "node \<notin> set ps" using ps(1) assms(4) dseg_dom [of h 0 ps 0 node] by (auto simp: dlist_def)
  let ?h = "h(node \<mapsto> \<lparr>ln_prev = 0, ln_next = 0, ln_val = v\<rparr>)"
  have "dlist ?h g ps" using ps(1) n by (simp add: dlist_def)
  then obtain h' g' where l: "kylin_list_insert_head_raw ?h g node = Some (h', g')" "dlist h' g' (node # ps)" "same_vals ?h h'"
    using insert_head_raw_ok [of ?h g ps node] n assms(3) by auto
  have "list_vals h' (node # ps) = v # vs"
    unfolding same_vals_list [OF l(3)] using ps(2) n by (simp add: list_vals_Cons list_vals_upd)
  then show ?thesis using l assms(2,3)
    by (auto simp: kylin_list_insert_head_def list_new_def kmath_val_ctor_def obj_guard_def kmath_val_get_def kobj_is_int_def obj_list_def)
qed

lemma obj_list_insert_head_fails: "kylin_list_insert_head m h g 0 v = Some (None, m, h, g)"
  by (simp add: kylin_list_insert_head_def list_new_def)

lemma obj_list_insert_tail:
  assumes "obj_list h g vs" "obj_guard g" "node \<noteq> 0" "h node = None"
  shows "\<exists>h' g'. kylin_list_insert_tail m h g node v = Some (Some (Obj v), m, h', g') \<and> obj_list h' g' (vs @ [v])"
proof -
  obtain ps where ps: "dlist h g ps" "list_vals h ps = vs" using assms(1) by (auto simp: obj_list_def)
  have n: "node \<notin> set ps" using ps(1) assms(4) dseg_dom [of h 0 ps 0 node] by (auto simp: dlist_def)
  let ?h = "h(node \<mapsto> \<lparr>ln_prev = 0, ln_next = 0, ln_val = v\<rparr>)"
  have "dlist ?h g ps" using ps(1) n by (simp add: dlist_def)
  then obtain h' g' where l: "kylin_list_insert_tail_raw ?h g node = Some (h', g')" "dlist h' g' (ps @ [node])" "same_vals ?h h'"
    using insert_tail_raw_ok [of ?h g ps node] n assms(3) by auto
  have "list_vals h' (ps @ [node]) = vs @ [v]"
    unfolding same_vals_list [OF l(3)] using ps(2) n list_vals_upd [OF n, of h] by (simp add: list_vals_def)
  then show ?thesis using l assms(2,3)
    by (auto simp: kylin_list_insert_tail_def list_new_def kmath_val_ctor_def obj_guard_def kmath_val_get_def kobj_is_int_def obj_list_def)
qed

lemma obj_list_find:
  assumes "obj_list h g vs" "obj_guard g"
  shows "kylin_list_find h g key = Some (case find (\<lambda>v. list_match (list_opts g) key v = 0) vs of None \<Rightarrow> None | Some v \<Rightarrow> Some (Obj v))"
proof -
  obtain ps where ps: "dlist h g ps" "list_vals h ps = vs" using assms(1) by (auto simp: obj_list_def)
  let ?P = "\<lambda>p. list_match (list_opts g) key (ln_val (the (h p))) = 0"
  have s: "list_search h (list_match (list_opts g)) key (list_head g) = Some (hd (filter ?P ps @ [0]))"
    using find_raw_first [OF ps(1)] by (simp add: kylin_list_find_raw_def)
  have nz: "\<forall>p \<in> set ps. p \<noteq> 0 \<and> (\<exists>x. h p = Some x)"
    using ps(1) dseg_dom [of h 0 ps 0] by (auto simp: dlist_def)
  have f: "find (\<lambda>v. list_match (list_opts g) key v = 0) vs = map_option (\<lambda>p. ln_val (the (h p))) (find ?P ps)"
    unfolding ps(2) [symmetric] list_vals_def by (induction ps) auto
  show ?thesis
  proof (cases "find ?P ps")
    case None
    then have "filter ?P ps = []" by (simp add: find_None_iff filter_empty_conv)
    then show ?thesis using s f None by (simp add: kylin_list_find_def)
  next
    case (Some p)
    then have "hd (filter ?P ps @ [0]) = p" "p \<in> set ps" by (induction ps) (auto split: if_splits)
    then show ?thesis using s f Some nz assms(2)
      by (auto simp: kylin_list_find_def kylin_list_val_def node_get_def obj_guard_def kmath_val_get_def kobj_is_int_def)
  qed
qed

lemma obj_list_unlink_miss:
  assumes "obj_list h g vs" "obj_guard g" "\<forall>v \<in> set vs. list_match (list_opts g) key v \<noteq> 0"
  shows "kylin_list_unlink h g key = Some (None, h, g)"
proof -
  obtain ps where ps: "dlist h g ps" "list_vals h ps = vs" using assms(1) by (auto simp: obj_list_def)
  then have "kylin_list_find_raw h g key = Some 0"
    using find_raw_cases [OF ps(1), of key] assms(2,3) by (auto simp: list_vals_def)
  then show ?thesis by (simp add: kylin_list_unlink_def)
qed

lemma obj_list_unlink_hit:
  assumes "obj_list h g (us @ v # ws)" "obj_guard g" "list_match (list_opts g) key v = 0"
    "\<forall>u \<in> set us. list_match (list_opts g) key u \<noteq> 0"
  shows "\<exists>h' g'. kylin_list_unlink h g key = Some (Some (Obj v), h', g') \<and> obj_list h' g' (us @ ws)"
proof -
  obtain ps where ps: "dlist h g ps" "list_vals h ps = us @ v # ws" using assms(1) by (auto simp: obj_list_def)
  then obtain xs p ys where s: "ps = xs @ p # ys" "list_vals h xs = us" "ln_val (the (h p)) = v" "list_vals h ys = ws"
    by (auto simp: list_vals_def map_eq_append_conv map_eq_Cons_conv)
  have "kylin_list_find_raw h g key = Some p"
  proof -
    have "filter (\<lambda>p. list_match (list_opts g) key (ln_val (the (h p))) = 0) xs = []"
      using assms(2,4) s(2) by (auto simp: filter_empty_conv list_vals_def)
    then show ?thesis using find_raw_first [OF ps(1), of key] s(1,3) assms(3) by simp
  qed
  moreover obtain h' g' where u: "kylin_list_unlink_raw h g p = Some (p, h', g')" "dlist h' g' (xs @ ys)"
      "list_opts g' = list_opts g" "same_vals h h'" "p \<notin> set (xs @ ys)"
    using unlink_raw_ok [of h g xs p ys] ps(1) s(1) by auto
  obtain n where n: "h p = Some n" "p \<noteq> 0" using ps(1) s(1) by (auto simp: dlist_def split: option.splits)
  then obtain n' where n': "h' p = Some n'" "ln_val n' = v"
    using u(4) s(3) by (auto simp: same_vals_def dest!: spec [of _ p])
  have "obj_list (h'(p := None)) g' (us @ ws)"
    using dlist_free [OF u(2,5)] same_vals_list [OF u(4)] s(2,4) list_vals_upd [OF u(5), of h' None]
    by (auto simp: obj_list_def list_vals_def intro!: exI [of _ "xs @ ys"])
  ultimately show ?thesis using u n n' assms(2)
    by (auto simp: kylin_list_unlink_def kylin_list_val_def node_get_def obj_guard_def kmath_val_get_def kobj_is_int_def)
qed

text \<open>Ids that order the objects of a store tell them apart.\<close>

lemma store_ids_distinct:
  assumes "inj_on (\<lambda>v. f (the (S v))) (dom S)" "S a = Some x" "S b = Some y"
  shows "f x = f y \<longleftrightarrow> a = b"
  using inj_on_eq_iff [OF assms(1), of a b] assms(2,3) by auto

text \<open>Keys of the objects of a store stay distinct when an object with a new key is added or one is removed.\<close>

lemma inj_on_store_add:
  assumes "inj_on (\<lambda>v. f (the (S v))) A" "a \<notin> A" "f x \<notin> (\<lambda>v. f (the (S v))) ` A"
  shows "inj_on (\<lambda>v. f (the ((S(a \<mapsto> x)) v))) (insert a A)"
proof -
  have "inj_on (\<lambda>v. f (the ((S(a \<mapsto> x)) v))) A" using assms(1,2) by (subst inj_on_cong [where g = "\<lambda>v. f (the (S v))"]) auto
  moreover have "(\<lambda>v. f (the ((S(a \<mapsto> x)) v))) ` A = (\<lambda>v. f (the (S v))) ` A" using assms(2) by (intro image_cong) auto
  ultimately show ?thesis using assms(2,3) by simp
qed

lemma inj_on_store_remove:
  assumes "inj_on (\<lambda>v. f (the (S v))) B" "A \<subseteq> B" "a \<notin> A"
  shows "inj_on (\<lambda>v. f (the ((S(a := y)) v))) A"
  using inj_on_subset [OF assms(1,2)] assms(3) by (subst inj_on_cong [where g = "\<lambda>v. f (the (S v))"]) auto

subsection \<open>Reference counts\<close>

text \<open>
  The contract of a component with counted plugins: a state has the types of the objects that are
  alive, a count and a registration per type. A step creates an object of a registered type, destroys
  one, or changes neither the objects nor the counts and then only touches registrations with count 0.
\<close>

locale counted_registry =
  fixes live :: "'s \<Rightarrow> nat multiset" and refs :: "'s \<Rightarrow> nat \<Rightarrow> nat" and registered :: "'s \<Rightarrow> nat \<Rightarrow> bool"
    and wf :: "'s \<Rightarrow> bool" and step :: "'s \<Rightarrow> 's \<Rightarrow> bool"
  assumes step_wf: "wf s \<Longrightarrow> refs s = count (live s) \<Longrightarrow> \<forall>t \<in># live s. registered s t \<Longrightarrow> step s s' \<Longrightarrow> wf s'"
    and step_cases: "wf s \<Longrightarrow> refs s = count (live s) \<Longrightarrow> \<forall>t \<in># live s. registered s t \<Longrightarrow> step s s' \<Longrightarrow>
      (\<exists>t. registered s t \<and> live s' = add_mset t (live s) \<and> refs s' = (refs s)(t := refs s t + 1) \<and> registered s' = registered s)
      \<or> (\<exists>t. live s = add_mset t (live s') \<and> refs s' = (refs s)(t := refs s t - 1) \<and> registered s' = registered s)
      \<or> (live s' = live s \<and> (\<forall>t. registered s t \<longrightarrow> refs s t > 0 \<longrightarrow> registered s' t \<and> refs s' t = refs s t)
          \<and> (\<forall>t. refs s t = 0 \<longrightarrow> refs s' t = 0))"
begin

definition counted :: "'s \<Rightarrow> bool" where
  "counted s \<longleftrightarrow> refs s = count (live s) \<and> (\<forall>t \<in># live s. registered s t)"

lemma step_counted:
  assumes "wf s" "counted s" "step s s'"
  shows "counted s'"
proof -
  have c: "refs s = count (live s)" "\<forall>t \<in># live s. registered s t" using assms(2) by (auto simp: counted_def)
  from step_cases [OF assms(1) c assms(3)] show ?thesis
  proof (elim disjE exE conjE)
    fix t assume "registered s t" "live s' = add_mset t (live s)" "refs s' = (refs s)(t := refs s t + 1)" "registered s' = registered s"
    then show ?thesis using c by (auto simp: counted_def fun_eq_iff)
  next
    fix t assume "live s = add_mset t (live s')" "refs s' = (refs s)(t := refs s t - 1)" "registered s' = registered s"
    then show ?thesis using c by (auto simp: counted_def fun_eq_iff)
  next
    assume same: "live s' = live s" "\<forall>t. registered s t \<longrightarrow> refs s t > 0 \<longrightarrow> registered s' t \<and> refs s' t = refs s t"
      "\<forall>t. refs s t = 0 \<longrightarrow> refs s' t = 0"
    have "refs s' t = count (live s') t \<and> (t \<in># live s' \<longrightarrow> registered s' t)" for t
      using same c by (cases "count (live s) t = 0") (auto simp: count_eq_zero_iff)
    then show ?thesis by (auto simp: counted_def)
  qed
qed

lemma steps_counted: "step\<^sup>*\<^sup>* s s' \<Longrightarrow> wf s \<Longrightarrow> counted s \<Longrightarrow> wf s' \<and> counted s'"
proof (induction rule: rtranclp_induct)
  case (step s1 s2)
  then show ?case using step_wf [of s1 s2] step_counted [of s1 s2] unfolding counted_def by blast
qed blast

end

subsection \<open>Tables of plugins\<close>

text \<open>
  What a table of plugins and its objects have of the state of a component, and the steps such a
  component makes on it: creating and destroying an object, changing an object but not its id and type,
  and replacing an entry of the table that is free or has count 0. The entry \<open>max_type\<close> marks free
  entries. All steps keep the counts, whatever the functions of the plugins do.
\<close>

record ('r, 'o) registry =
  rg_plugin :: "'r kplugin list"
  rg_store :: "kaddr \<Rightarrow> 'o option"
  rg_heap :: lheap
  rg_list :: klist

locale plugin_table =
  fixes max_type :: nat and ident :: "'o \<Rightarrow> 32 word" and kind :: "'o \<Rightarrow> nat"
begin

definition inv :: "('r, 'o) registry \<times> kaddr list \<Rightarrow> bool" where
  "inv = (\<lambda>(R, vs). length (rg_plugin R) = max_type \<and> obj_list (rg_heap R) (rg_list R) vs \<and> distinct vs
     \<and> set vs = dom (rg_store R) \<and> inj_on (\<lambda>v. ident (the (rg_store R v))) (set vs)
     \<and> (\<forall>v \<in> set vs. kind (the (rg_store R v)) < max_type))"

definition live :: "('r, 'o) registry \<times> kaddr list \<Rightarrow> nat multiset" where
  "live = (\<lambda>(R, vs). image_mset (\<lambda>v. kind (the (rg_store R v))) (mset vs))"

definition refs :: "('r, 'o) registry \<times> kaddr list \<Rightarrow> nat \<Rightarrow> nat" where
  "refs = (\<lambda>(R, vs) t. if t < max_type then unat (pl_ref (rg_plugin R ! t)) else 0)"

definition registered :: "('r, 'o) registry \<times> kaddr list \<Rightarrow> nat \<Rightarrow> bool" where
  "registered = (\<lambda>(R, vs) t. t < max_type \<and> pl_type (rg_plugin R ! t) \<noteq> max_type)"

definition set_ref :: "(32 word \<Rightarrow> 32 word) \<Rightarrow> nat \<Rightarrow> 'r kplugin list \<Rightarrow> 'r kplugin list" where
  "set_ref f t ps = ps[t := (ps ! t)\<lparr>pl_ref := f (pl_ref (ps ! t))\<rparr>]"

inductive tstep :: "('r, 'o) registry \<times> kaddr list \<Rightarrow> ('r, 'o) registry \<times> kaddr list \<Rightarrow> bool" where
  create: "registered (R, vs) (kind x) \<Longrightarrow> rg_store R v = None \<Longrightarrow> ident x \<notin> (\<lambda>v. ident (the (rg_store R v))) ` set vs
    \<Longrightarrow> obj_list h l (v # vs) \<Longrightarrow> length vs < 2 ^ 32 - 1
    \<Longrightarrow> tstep (R, vs) (\<lparr>rg_plugin = set_ref (\<lambda>r. r + 1) (kind x) (rg_plugin R), rg_store = (rg_store R)(v \<mapsto> x), rg_heap = h, rg_list = l\<rparr>, v # vs)"
| destroy: "rg_store R v = Some x \<Longrightarrow> obj_list h l (us @ ws)
    \<Longrightarrow> tstep (R, us @ v # ws) (\<lparr>rg_plugin = set_ref (\<lambda>r. r - 1) (kind x) (rg_plugin R), rg_store = (rg_store R)(v := None), rg_heap = h, rg_list = l\<rparr>, us @ ws)"
| change: "rg_store R v = Some x \<Longrightarrow> ident y = ident x \<Longrightarrow> kind y = kind x \<Longrightarrow> tstep (R, vs) (R\<lparr>rg_store := (rg_store R)(v \<mapsto> y)\<rparr>, vs)"
| plugin: "t < length (rg_plugin R) \<Longrightarrow> pl_ref (rg_plugin R ! t) = 0 \<or> pl_type (rg_plugin R ! t) = max_type \<Longrightarrow> pl_ref pl = 0
    \<Longrightarrow> tstep (R, vs) (R\<lparr>rg_plugin := (rg_plugin R)[t := pl]\<rparr>, vs)"
| idle: "tstep s s"

lemma refs_set_ref:
  assumes "length (rg_plugin R) = max_type" "t < max_type"
  shows "refs (R\<lparr>rg_plugin := set_ref f t (rg_plugin R)\<rparr>, vs') = (refs (R, vs))(t := unat (f (pl_ref (rg_plugin R ! t))))"
    "registered (R\<lparr>rg_plugin := set_ref f t (rg_plugin R)\<rparr>, vs') = registered (R, vs)"
  using assms by (auto simp: refs_def registered_def fun_eq_iff set_ref_def nth_list_update)

lemma refs_cong: "rg_plugin R = rg_plugin R' \<Longrightarrow> refs (R, vs) = refs (R', vs')" "rg_plugin R = rg_plugin R' \<Longrightarrow> registered (R, vs) = registered (R', vs')"
  by (auto simp: refs_def registered_def fun_eq_iff)

lemma live_cong: "live (R\<lparr>rg_plugin := ps\<rparr>, vs) = live (R, vs)"
  by (simp add: live_def)

lemma tstep_inv: "tstep s s' \<Longrightarrow> inv s \<Longrightarrow> inv s'"
proof (induction rule: tstep.induct)
  case (create R vs x v h l)
  then have i: "length (rg_plugin R) = max_type" "distinct vs" "set vs = dom (rg_store R)" "inj_on (\<lambda>v. ident (the (rg_store R v))) (set vs)"
    "\<forall>v \<in> set vs. kind (the (rg_store R v)) < max_type" "kind x < max_type" by (auto simp: inv_def registered_def)
  then have v: "v \<notin> set vs" using create(2) by auto
  then have "\<forall>u \<in> set (v # vs). kind (the (((rg_store R)(v \<mapsto> x)) u)) < max_type" using i(5,6) by auto
  then show ?case using inj_on_store_add [OF i(4) v create(3)] i(1-3) v create(4)
    by (simp add: inv_def set_ref_def del: fun_upd_apply)
next
  case (destroy R v x h l us ws)
  then have i: "distinct (us @ v # ws)" "set (us @ v # ws) = dom (rg_store R)"
    "inj_on (\<lambda>v. ident (the (rg_store R v))) (set (us @ v # ws))" unfolding inv_def split_conv by blast+
  have "inj_on (\<lambda>u. ident (the (((rg_store R)(v := None)) u))) (set (us @ ws))"
    by (rule inj_on_store_remove [OF i(3)]) (use i(1) in auto)
  moreover have "set (us @ ws) = dom ((rg_store R)(v := None))" using i by auto
  ultimately show ?case using destroy i(1) by (auto simp: inv_def set_ref_def)
next
  case (change R v x y vs)
  then have same: "(\<lambda>u. ident (the (((rg_store R)(v \<mapsto> y)) u))) = (\<lambda>u. ident (the (rg_store R u)))"
    "(\<lambda>u. kind (the (((rg_store R)(v \<mapsto> y)) u))) = (\<lambda>u. kind (the (rg_store R u)))" by (auto simp: fun_eq_iff)
  then show ?case using change by (auto simp: inv_def fun_eq_iff simp del: fun_upd_apply)
next
  case (plugin t R pl vs)
  from plugin(4) show ?case unfolding inv_def split_conv by simp metis
qed

lemma create_counts:
  assumes "inv (R, vs)" "refs (R, vs) = count (live (R, vs))" "registered (R, vs) (kind x)" "rg_store R v = None" "length vs < 2 ^ 32 - 1"
    "rg_plugin R' = set_ref (\<lambda>r. r + 1) (kind x) (rg_plugin R)" "rg_store R' = (rg_store R)(v \<mapsto> x)"
  shows "live (R', v # vs) = add_mset (kind x) (live (R, vs)) \<and> refs (R', v # vs) = (refs (R, vs))(kind x := refs (R, vs) (kind x) + 1)
    \<and> registered (R', v # vs) = registered (R, vs)"
proof -
  have i: "length (rg_plugin R) = max_type" "v \<notin> set vs" "kind x < max_type" using assms by (auto simp: inv_def registered_def)
  have "unat (pl_ref (rg_plugin R ! kind x)) \<le> length vs"
    using assms(2) i(3) count_le_size [of "live (R, vs)" "kind x"] by (auto simp: refs_def fun_eq_iff live_def split: if_splits)
  then have "unat (pl_ref (rg_plugin R ! kind x) + 1) = refs (R, vs) (kind x) + 1"
    using assms(5) i(3) by (subst unat_add_noflow) (simp_all add: refs_def)
  moreover have "live (R', v # vs) = add_mset (kind x) (live (R, vs))"
    using i(2) assms(7) by (auto simp: live_def intro!: image_mset_cong)
  ultimately show ?thesis
    using refs_set_ref [OF i(1,3), of "\<lambda>r. r + 1" "v # vs" vs] refs_cong [of R' "R\<lparr>rg_plugin := set_ref (\<lambda>r. r + 1) (kind x) (rg_plugin R)\<rparr>" "v # vs" "v # vs"] assms(6) by simp
qed

lemma destroy_counts:
  assumes "inv (R, us @ v # ws)" "refs (R, us @ v # ws) = count (live (R, us @ v # ws))" "rg_store R v = Some x"
    "rg_plugin R' = set_ref (\<lambda>r. r - 1) (kind x) (rg_plugin R)" "rg_store R' = (rg_store R)(v := None)"
  shows "live (R, us @ v # ws) = add_mset (kind x) (live (R', us @ ws))
    \<and> refs (R', us @ ws) = (refs (R, us @ v # ws))(kind x := refs (R, us @ v # ws) (kind x) - 1)
    \<and> registered (R', us @ ws) = registered (R, us @ v # ws)"
proof -
  have i: "length (rg_plugin R) = max_type" "distinct (us @ v # ws)" "kind x < max_type" using assms(1,3) by (auto simp: inv_def)
  have live: "live (R, us @ v # ws) = add_mset (kind x) (live (R', us @ ws))"
    using i(2) assms(3,5) by (auto simp: live_def intro!: image_mset_cong arg_cong2 [where f = "(+)"])
  then have "refs (R, us @ v # ws) (kind x) \<noteq> 0" using assms(2) by simp
  then have "unat (pl_ref (rg_plugin R ! kind x) - 1) = refs (R, us @ v # ws) (kind x) - 1"
    using i(3) by (subst unat_minus_one) (auto simp: refs_def)
  then show ?thesis
    using live refs_set_ref [OF i(1,3), of "\<lambda>r. r - 1" "us @ ws" "us @ v # ws"]
      refs_cong [of R' "R\<lparr>rg_plugin := set_ref (\<lambda>r. r - 1) (kind x) (rg_plugin R)\<rparr>" "us @ ws" "us @ ws"] assms(4) by simp
qed

lemma change_live: "rg_store R v = Some x \<Longrightarrow> kind y = kind x \<Longrightarrow> live (R\<lparr>rg_store := (rg_store R)(v \<mapsto> y)\<rparr>, vs) = live (R, vs)"
  by (auto simp: live_def intro!: image_mset_cong)

sublocale registry: counted_registry live refs registered inv tstep
proof (unfold_locales, goal_cases)
  case (1 s s')
  then show ?case using tstep_inv by blast
next
  case (2 s s')
  from 2(4,1,2,3) show ?case
  proof (induction rule: tstep.induct)
    case (create R vs x v h l)
    then show ?case using create_counts [OF create(6,7,1,2,5)] by (intro disjI1 exI [of _ "kind x"]) simp
  next
    case (destroy R v x h l us ws)
    then show ?case using destroy_counts [OF destroy(3,4,1)] by (intro disjI2 disjI1 exI [of _ "kind x"]) simp
  next
    case (change R v x y vs)
    then show ?case using change_live [of R v x y vs] refs_cong [of "R\<lparr>rg_store := (rg_store R)(v \<mapsto> y)\<rparr>" R vs vs] by simp
  next
    case (plugin t R pl vs)
    have "refs (R, vs) t = 0"
      using plugin(2)
    proof
      assume "pl_type (rg_plugin R ! t) = max_type"
      then have "t \<notin># live (R, vs)" using plugin(6) by (auto simp: registered_def)
      then show ?thesis unfolding plugin(5) by (simp add: count_eq_zero_iff)
    qed (simp add: refs_def)
    then have "refs (R\<lparr>rg_plugin := (rg_plugin R)[t := pl]\<rparr>, vs) = refs (R, vs)"
      using plugin(1,3,4) by (auto simp: refs_def nth_list_update fun_eq_iff inv_def)
    moreover have "registered (R\<lparr>rg_plugin := (rg_plugin R)[t := pl]\<rparr>, vs) u = registered (R, vs) u" if "u \<noteq> t" for u
      using that by (simp add: registered_def)
    ultimately show ?case using \<open>refs (R, vs) t = 0\<close> by (intro disjI2) (metis less_numeral_extra(3) live_cong)
  qed auto
qed

text \<open>A component whose steps are steps of the table keeps the counts.\<close>

lemma simulated:
  assumes sim: "\<And>s s'. step s s' \<Longrightarrow> inv (view s) \<Longrightarrow> tstep\<^sup>*\<^sup>* (view s) (view s')"
    and "step\<^sup>*\<^sup>* s s'" "inv (view s)" "registry.counted (view s)"
  shows "inv (view s') \<and> registry.counted (view s')"
  using assms(2,3,4)
proof (induction rule: rtranclp_induct)
  case (step s1 s2)
  then show ?case using registry.steps_counted [of "view s1" "view s2"] sim [of s1 s2] by blast
qed blast

lemma counted_refs:
  assumes "registry.counted (R, vs)" "t < max_type"
  shows "unat (pl_ref (rg_plugin R ! t)) = length (filter (\<lambda>v. kind (the (rg_store R v)) = t) vs)"
proof -
  have "count (image_mset f (mset vs)) t = length (filter (\<lambda>v. f v = t) vs)" for f :: "kaddr \<Rightarrow> nat"
    by (induction vs) auto
  then show ?thesis using assms unfolding registry.counted_def by (auto simp: refs_def live_def dest: fun_cong [of _ _ t])
qed

lemma counted_registered:
  "registry.counted (R, vs) \<Longrightarrow> v \<in> set vs \<Longrightarrow> pl_type (rg_plugin R ! kind (the (rg_store R v))) \<noteq> max_type"
  unfolding registry.counted_def by (auto simp: registered_def live_def)

lemma counted_start:
  "length (rg_plugin R) = max_type \<Longrightarrow> list_all (\<lambda>p. pl_ref p = 0) (rg_plugin R) \<Longrightarrow> registry.counted (R, [])"
  unfolding registry.counted_def by (auto simp: refs_def live_def list_all_length fun_eq_iff)

end

end
