(* ===== verification/Kylin_Socket.thy ===== *)
theory Kylin_Socket
  imports Kylin_Registry
begin

section \<open>Sockets (lib/core/socket/kylin_socket.c, kylin_socket_plugin.c)\<close>

text \<open>
  The table of socket types and the sockets created from it. What a plugin does is a parameter: its
  functions act on a state \<open>'w\<close> of their own (the system and the plugins' private data) and are given the socket
  by address and content. A socket is a structure in a store; the list of sockets is a \<open>klist\<close> of
  addresses that compares the ids the store has at the moment.
\<close>

subsection \<open>Definitions\<close>

abbreviation KYLIN_SOCK_SERVER_TCP :: nat where "KYLIN_SOCK_SERVER_TCP \<equiv> 0"
abbreviation KYLIN_SOCK_SERVER_UDP :: nat where "KYLIN_SOCK_SERVER_UDP \<equiv> 1"
abbreviation KYLIN_SOCK_SERVER_UNIX :: nat where "KYLIN_SOCK_SERVER_UNIX \<equiv> 2"
abbreviation KYLIN_SOCK_SERVER_MAX :: nat where "KYLIN_SOCK_SERVER_MAX \<equiv> 15"
abbreviation KYLIN_SOCK_CLIENT_TCP :: nat where "KYLIN_SOCK_CLIENT_TCP \<equiv> 16"
abbreviation KYLIN_SOCK_CLIENT_UDP :: nat where "KYLIN_SOCK_CLIENT_UDP \<equiv> 17"
abbreviation KYLIN_SOCK_CLIENT_UNIX :: nat where "KYLIN_SOCK_CLIENT_UNIX \<equiv> 18"
abbreviation KYLIN_SOCK_MAX :: nat where "KYLIN_SOCK_MAX \<equiv> 32"

abbreviation KYLIN_SOCK_TYPE_DEF_CNT :: nat where "KYLIN_SOCK_TYPE_DEF_CNT \<equiv> 3"
abbreviation KYLIN_SOCK_TYPE_MAX_CNT :: nat where "KYLIN_SOCK_TYPE_MAX_CNT \<equiv> KYLIN_SOCK_SERVER_MAX"

abbreviation KYLIN_ERROR_FAULT :: kerr where "KYLIN_ERROR_FAULT \<equiv> 14"

record ksock =
  sk_id :: "32 word"
  sk_type :: nat
  sk_opts :: "8 word list"
  sk_priv :: kaddr

record 'w ksock_reg =
  sr_create :: "(kaddr \<Rightarrow> ksock \<Rightarrow> ('w, kaddr) kcall) option"
  sr_destroy :: "(kaddr \<Rightarrow> ('w, unit) kcall) option"
  sr_connect :: "(kaddr \<Rightarrow> ksock \<Rightarrow> ('w, kerr) kcall) option"
  sr_accept :: "(kaddr \<Rightarrow> ksock \<Rightarrow> ('w, kaddr) kcall) option"
  sr_recv :: "(kaddr \<Rightarrow> ksock \<Rightarrow> 32 word \<Rightarrow> kaddr \<Rightarrow> ksize \<Rightarrow> ('w, 64 word \<times> 8 word list) kcall) option"
  sr_send :: "(kaddr \<Rightarrow> ksock \<Rightarrow> 32 word \<Rightarrow> kaddr \<Rightarrow> ksize \<Rightarrow> ('w, 64 word) kcall) option"
  sr_conn_count :: "(kaddr \<Rightarrow> ksock \<Rightarrow> ('w, 32 word) kcall) option"
  sr_conn_get_first :: "(kaddr \<Rightarrow> ksock \<Rightarrow> ('w, kaddr) kcall) option"
  sr_conn_get_next :: "(kaddr \<Rightarrow> ksock \<Rightarrow> kaddr \<Rightarrow> ('w, kaddr) kcall) option"
  sr_conn_destroy :: "(kaddr \<Rightarrow> ksock \<Rightarrow> kaddr \<Rightarrow> ('w, unit) kcall) option"
  sr_get_sockfd :: "(kaddr \<Rightarrow> ksock \<Rightarrow> ('w, 32 word) kcall) option"
  sr_init :: "('w, kerr) kcall option"
  sr_fini :: "('w, unit) kcall option"

type_synonym 'w ksock_plugin = "'w ksock_reg kplugin"

record 'w ksocks =
  sks_plugin :: "'w ksock_plugin list"
  sks_sid :: "32 word"
  sks_store :: "kaddr \<Rightarrow> ksock option"
  sks_heap :: lheap
  sks_list :: klist
  sks_world :: 'w

definition sk_run :: "('w, 'r) kcall \<Rightarrow> 'w ksocks \<Rightarrow> ('r \<times> 'w ksocks) option" where
  "sk_run f st = map_option (\<lambda>(r, w). (r, st\<lparr>sks_world := w\<rparr>)) (f (sks_world st))"

text \<open>
  The comparison reads both sockets. For a released socket it has no meaning; the value 1 given here is
  not used, since destroying checks its argument and the sockets of the list are alive.
\<close>

definition slist_match :: "(kaddr \<Rightarrow> ksock option) \<Rightarrow> kaddr \<Rightarrow> kaddr \<Rightarrow> int" where
  "slist_match S v1 v2 = (case (S v1, S v2) of
       (Some a, Some b) \<Rightarrow> if sk_id a > sk_id b then 1 else if sk_id a < sk_id b then -1 else 0
     | _ \<Rightarrow> 1)"

abbreviation sizeof_ksock :: ksize where "sizeof_ksock \<equiv> 144"

definition sk_list_now :: "'w ksocks \<Rightarrow> klist" where
  "sk_list_now st = (sks_list st)\<lparr>list_opts := obj_opts (slist_match (sks_store st)) sizeof_ksock\<rparr>"

definition sk_plugin :: "'w ksocks \<Rightarrow> nat \<Rightarrow> 'w ksock_plugin option" where
  "sk_plugin st t = arr_get (sks_plugin st) t"

definition sk_ref :: "(32 word \<Rightarrow> 32 word) \<Rightarrow> nat \<Rightarrow> 'w ksocks \<Rightarrow> 'w ksocks option" where
  "sk_ref f t st = do {
     pl \<leftarrow> sk_plugin st t;
     ps \<leftarrow> arr_set (sks_plugin st) t (pl\<lparr>pl_ref := f (pl_ref pl)\<rparr>);
     Some (st\<lparr>sks_plugin := ps\<rparr>) }"

text \<open>
  The table as the source initialises it: the six built-in types, thirteen free entries between the
  servers and the clients, and the entries behind the clients, which C fills with zeros.
\<close>

definition null_reg :: "'w ksock_reg" where
  "null_reg = \<lparr>sr_create = None, sr_destroy = None, sr_connect = None, sr_accept = None, sr_recv = None, sr_send = None,
     sr_conn_count = None, sr_conn_get_first = None, sr_conn_get_next = None, sr_conn_destroy = None, sr_get_sockfd = None, sr_init = None, sr_fini = None\<rparr>"

definition splugin :: "'w ksock_reg list \<Rightarrow> 'w ksock_reg list \<Rightarrow> 'w ksock_plugin list" where
  "splugin servers clients =
     [free_plugin (servers ! 0) KYLIN_SOCK_SERVER_TCP, free_plugin (servers ! 1) KYLIN_SOCK_SERVER_UDP,
      free_plugin (servers ! 2) KYLIN_SOCK_SERVER_UNIX] @ replicate 13 (free_plugin null_reg KYLIN_SOCK_MAX) @
     [free_plugin (clients ! 0) KYLIN_SOCK_CLIENT_TCP, free_plugin (clients ! 1) KYLIN_SOCK_CLIENT_UDP,
      free_plugin (clients ! 2) KYLIN_SOCK_CLIENT_UNIX] @ replicate 13 (free_plugin null_reg 0)"

definition kylin_socket_register :: "nat \<Rightarrow> 'w ksock_reg \<Rightarrow> 'w ksocks \<Rightarrow> (kerr \<times> 'w ksocks) option" where
  "kylin_socket_register t reg st = do {
     pl \<leftarrow> sk_plugin st t;
     if pl_type pl \<noteq> KYLIN_SOCK_MAX then Some (KYLIN_ERROR_EXIST, st)
     else if sr_create reg = None \<or> sr_destroy reg = None then Some (KYLIN_ERROR_INVAL, st)
     else do {
       (ret, st) \<leftarrow> sk_run (call_or KYLIN_ERROR_OK (sr_init reg)) st;
       if ret \<noteq> KYLIN_ERROR_OK then Some (ret, st)
       else do {
         ps \<leftarrow> arr_set (sks_plugin st) t \<lparr>pl_ref = 0, pl_type = t, pl_reg = reg\<rparr>;
         Some (KYLIN_ERROR_OK, st\<lparr>sks_plugin := ps\<rparr>) } } }"

definition kylin_socket_unregister :: "nat \<Rightarrow> 'w ksocks \<Rightarrow> 'w ksocks option" where
  "kylin_socket_unregister t st = do {
     pl \<leftarrow> sk_plugin st t;
     if pl_type pl = KYLIN_SOCK_MAX then Some st
     else if pl_ref pl \<noteq> 0 then Some st
     else do {
       (_, st) \<leftarrow> sk_run (call_or () (sr_fini (pl_reg pl))) st;
       ps \<leftarrow> arr_set (sks_plugin st) t (free_plugin null_reg KYLIN_SOCK_MAX);
       Some (st\<lparr>sks_plugin := ps\<rparr>) } }"

text \<open>The initialisation of one plugin, and the two loops of \<^verbatim>\<open>kylin_socket_plugin_init\<close>.\<close>

definition sk_init_plugin :: "nat \<Rightarrow> 'w ksocks \<Rightarrow> (kerr \<times> 'w ksocks) option" where
  "sk_init_plugin i st = do {
     pl \<leftarrow> sk_plugin st i;
     if pl_type pl \<noteq> KYLIN_SOCK_MAX then sk_run (call_or KYLIN_ERROR_OK (sr_init (pl_reg pl))) st
     else Some (KYLIN_ERROR_OK, st) }"

fun sk_init_all :: "nat list \<Rightarrow> 'w ksocks \<Rightarrow> (kerr \<times> 'w ksocks) option" where
  "sk_init_all [] st = Some (KYLIN_ERROR_OK, st)"
| "sk_init_all (i # is) st = do {
     (ret, st) \<leftarrow> sk_init_plugin i st;
     if ret \<noteq> KYLIN_ERROR_OK then Some (ret, st)
     else do {
       (ret, st) \<leftarrow> sk_init_plugin (i + KYLIN_SOCK_TYPE_MAX_CNT) st;
       if ret \<noteq> KYLIN_ERROR_OK then Some (ret, st) else sk_init_all is st } }"

definition sk_free_type :: "nat \<Rightarrow> 'w ksock_plugin list \<Rightarrow> 'w ksock_plugin list option" where
  "sk_free_type i ps = do { pl \<leftarrow> arr_get ps i; arr_set ps i (pl\<lparr>pl_type := KYLIN_SOCK_MAX\<rparr>) }"

definition sk_free_rest :: "'w ksock_plugin list \<Rightarrow> 'w ksock_plugin list option" where
  "sk_free_rest ps = for_loop [KYLIN_SOCK_TYPE_DEF_CNT..<KYLIN_SOCK_TYPE_MAX_CNT] (\<lambda>i ps. do {
     ps \<leftarrow> sk_free_type i ps;
     sk_free_type (i + KYLIN_SOCK_TYPE_MAX_CNT) ps }) ps"

definition kylin_socket_plugin_init :: "'w ksocks \<Rightarrow> (kerr \<times> 'w ksocks) option" where
  "kylin_socket_plugin_init st = do {
     (ret, st) \<leftarrow> sk_init_all [0..<KYLIN_SOCK_TYPE_DEF_CNT] st;
     if ret \<noteq> KYLIN_ERROR_OK then Some (ret, st)
     else do {
       ps \<leftarrow> sk_free_rest (sks_plugin st);
       Some (KYLIN_ERROR_OK, st\<lparr>sks_plugin := ps\<rparr>) } }"

definition kylin_socket_plugin_fini :: "'w ksocks \<Rightarrow> 'w ksocks option" where
  "kylin_socket_plugin_fini st = for_loop [0..<KYLIN_SOCK_MAX] (\<lambda>i st. do {
     pl \<leftarrow> sk_plugin st i;
     if pl_type pl \<noteq> KYLIN_SOCK_MAX then do {
       (_, st) \<leftarrow> sk_run (call_or () (sr_fini (pl_reg pl))) st;
       Some st }
     else Some st }) st"

text \<open>
  Creation and destruction of a socket. The addresses the two allocations return are arguments; the
  result is the address of the socket, 0 when there is none. The options are the bytes that the source
  copies into the socket; they are read and written through a pointer to the copy, here as the bytes themselves.
\<close>

definition kylin_socket_create :: "kaddr \<Rightarrow> kaddr \<Rightarrow> nat \<Rightarrow> 8 word list \<Rightarrow> 'w ksocks \<Rightarrow> (kaddr \<times> 'w ksocks) option" where
  "kylin_socket_create guard node t opts st = do {
     pl \<leftarrow> sk_plugin st t;
     if pl_type pl = KYLIN_SOCK_MAX then Some (0, st)
     else if guard = 0 then Some (0, st)
     else do {
       let g = \<lparr>sk_id = sks_sid st, sk_type = t, sk_opts = opts, sk_priv = 0\<rparr>;
       let st = st\<lparr>sks_sid := sks_sid st + 1, sks_store := (sks_store st)(guard \<mapsto> g)\<rparr>;
       (priv, st) \<leftarrow> sk_run (call_or 0 (map_option (\<lambda>f. f guard g) (sr_create (pl_reg pl)))) st;
       if sr_create (pl_reg pl) \<noteq> None \<and> priv = 0 then Some (0, st\<lparr>sks_store := (sks_store st)(guard := None)\<rparr>)
       else do {
         let st = st\<lparr>sks_store := (sks_store st)(guard \<mapsto> g\<lparr>sk_priv := priv\<rparr>)\<rparr>;
         (res, _, h, l) \<leftarrow> kylin_list_insert_head Map.empty (sks_heap st) (sk_list_now st) node guard;
         if res = None then do {
           (_, st) \<leftarrow> sk_run (call_or () (map_option (\<lambda>f. f priv) (sr_destroy (pl_reg pl)))) st;
           Some (0, st\<lparr>sks_store := (sks_store st)(guard := None)\<rparr>) }
         else do {
           st \<leftarrow> sk_ref (\<lambda>r. r + 1) t (st\<lparr>sks_heap := h, sks_list := l\<rparr>);
           Some (guard, st) } } } }"

definition kylin_socket_destroy :: "kaddr \<Rightarrow> 'w ksocks \<Rightarrow> 'w ksocks option" where
  "kylin_socket_destroy guard st = do {
     _ \<leftarrow> (if list_head (sks_list st) = 0 then Some () else map_option (\<lambda>_. ()) (sks_store st guard));
     (res, h, l) \<leftarrow> kylin_list_unlink (sks_heap st) (sk_list_now st) guard;
     if res = None then Some st
     else do {
       let st = st\<lparr>sks_heap := h, sks_list := l\<rparr>;
       g \<leftarrow> sks_store st guard;
       pl \<leftarrow> sk_plugin st (sk_type g);
       (_, st) \<leftarrow> sk_run (call_or () (map_option (\<lambda>f. f (sk_priv g)) (sr_destroy (pl_reg pl)))) st;
       st \<leftarrow> sk_ref (\<lambda>r. r - 1) (sk_type g) st;
       Some (st\<lparr>sks_store := (sks_store st)(guard := None)\<rparr>) } }"

text \<open>
  The operations that dispatch to the plugin: \<open>none\<close> is the result when the type is free, \<open>null\<close> when
  the plugin does not have the function.
\<close>

definition sk_dispatch ::
    "'r \<Rightarrow> 'r \<Rightarrow> ('w ksock_reg \<Rightarrow> (kaddr \<Rightarrow> ksock \<Rightarrow> ('w, 'r) kcall) option) \<Rightarrow> kaddr \<Rightarrow> 'w ksocks \<Rightarrow> ('r \<times> 'w ksocks) option" where
  "sk_dispatch none null f guard st = do {
     g \<leftarrow> sks_store st guard;
     pl \<leftarrow> sk_plugin st (sk_type g);
     if pl_type pl = KYLIN_SOCK_MAX then Some (none, st)
     else sk_run (call_or null (map_option (\<lambda>f. f guard g) (f (pl_reg pl)))) st }"

definition kylin_socket_get_fd :: "kaddr \<Rightarrow> 'w ksocks \<Rightarrow> (32 word \<times> 'w ksocks) option" where
  "kylin_socket_get_fd = sk_dispatch (- 1) (- 1) sr_get_sockfd"

definition kylin_socket_accept :: "kaddr \<Rightarrow> 'w ksocks \<Rightarrow> (kaddr \<times> 'w ksocks) option" where
  "kylin_socket_accept = sk_dispatch 0 0 sr_accept"

definition kylin_socket_connection_destroy :: "kaddr \<Rightarrow> kaddr \<Rightarrow> 'w ksocks \<Rightarrow> (unit \<times> 'w ksocks) option" where
  "kylin_socket_connection_destroy guard conn =
     sk_dispatch () () (\<lambda>r. map_option (\<lambda>f a g. f a g conn) (sr_conn_destroy r)) guard"

definition kylin_socket_connect :: "kaddr \<Rightarrow> 'w ksocks \<Rightarrow> (kerr \<times> 'w ksocks) option" where
  "kylin_socket_connect = sk_dispatch KYLIN_ERROR_NOENT KYLIN_ERROR_FAULT sr_connect"

text \<open>Receiving may write the options of the socket, the address of the sender; the function returns them beside the number of bytes.\<close>

definition kylin_socket_recv :: "32 word \<Rightarrow> kaddr \<Rightarrow> ksize \<Rightarrow> kaddr \<Rightarrow> 'w ksocks \<Rightarrow> (64 word \<times> 'w ksocks) option" where
  "kylin_socket_recv fd buf len guard st = do {
     g \<leftarrow> sks_store st guard;
     ((n, opts), st) \<leftarrow> sk_dispatch (ucast KYLIN_ERROR_NOENT, sk_opts g) (ucast KYLIN_ERROR_FAULT, sk_opts g)
       (\<lambda>r. map_option (\<lambda>f a g. f a g fd buf len) (sr_recv r)) guard st;
     Some (n, st\<lparr>sks_store := (sks_store st)(guard \<mapsto> g\<lparr>sk_opts := opts\<rparr>)\<rparr>) }"

definition kylin_socket_send :: "32 word \<Rightarrow> kaddr \<Rightarrow> ksize \<Rightarrow> kaddr \<Rightarrow> 'w ksocks \<Rightarrow> (64 word \<times> 'w ksocks) option" where
  "kylin_socket_send fd buf len =
     sk_dispatch (ucast KYLIN_ERROR_NOENT) (ucast KYLIN_ERROR_FAULT) (\<lambda>r. map_option (\<lambda>f a g. f a g fd buf len) (sr_send r))"

definition kylin_socket_get_priv :: "kaddr \<Rightarrow> 'w ksocks \<Rightarrow> kaddr option" where
  "kylin_socket_get_priv guard st = map_option sk_priv (sks_store st guard)"

definition kylin_socket_get_type :: "kaddr \<Rightarrow> 'w ksocks \<Rightarrow> nat option" where
  "kylin_socket_get_type guard st = map_option sk_type (sks_store st guard)"

definition kylin_socket_get_opts :: "kaddr \<Rightarrow> 'w ksocks \<Rightarrow> 8 word list option" where
  "kylin_socket_get_opts guard st = map_option sk_opts (sks_store st guard)"

definition kylin_socket_init :: "bool \<Rightarrow> 'w ksocks \<Rightarrow> (kerr \<times> 'w ksocks) option" where
  "kylin_socket_init ok st = (case kylin_list_create ok (obj_opts (slist_match (sks_store st)) sizeof_ksock) of
       None \<Rightarrow> Some (KYLIN_ERROR_NOMEM, st)
     | Some l \<Rightarrow> kylin_socket_plugin_init (st\<lparr>sks_list := l\<rparr>))"

text \<open>
  The end, after an initialisation that has made the list: every socket of the list is destroyed through its plugin, then the list and the plugins
  are. The list is destroyed by the operation of the container, with its flaws on a list that is not empty.
\<close>

partial_function (option) sk_fini_loop :: "kaddr \<Rightarrow> 'w ksocks \<Rightarrow> 'w ksocks option" where
  "sk_fini_loop p st =
     (if p = 0 then Some st
      else do {
        n \<leftarrow> node_get (sks_heap st) p;
        if ln_val n = 0 then sk_fini_loop (ln_next n) st
        else do {
          g \<leftarrow> sks_store st (ln_val n);
          pl \<leftarrow> sk_plugin st (sk_type g);
          (_, st) \<leftarrow> sk_run (call_or () (map_option (\<lambda>f. f (sk_priv g)) (sr_destroy (pl_reg pl)))) st;
          st \<leftarrow> sk_ref (\<lambda>r. r - 1) (sk_type g) st;
          sk_fini_loop (ln_next n) st } })"

declare sk_fini_loop.simps [code]

definition kylin_socket_fini :: "'w ksocks \<Rightarrow> 'w ksocks option" where
  "kylin_socket_fini st = do {
     st \<leftarrow> sk_fini_loop (list_head (sks_list st)) st;
     (_, h) \<leftarrow> kylin_list_destroy (sks_heap st) (sk_list_now st);
     kylin_socket_plugin_fini (st\<lparr>sks_heap := h\<rparr>) }"

subsection \<open>Sockets that are alive\<close>

text \<open>The state as a table of plugins with its objects, together with the addresses of the sockets that are alive.\<close>

definition sk_view :: "'w ksocks \<times> kaddr list \<Rightarrow> ('w ksock_reg, ksock) registry \<times> kaddr list" where
  "sk_view = (\<lambda>(st, vs). (\<lparr>rg_plugin = sks_plugin st, rg_store = sks_store st, rg_heap = sks_heap st, rg_list = sks_list st\<rparr>, vs))"

interpretation sockets: plugin_table KYLIN_SOCK_MAX sk_id sk_type .

lemma sk_run_some: "sk_run f st = Some (r, st') \<Longrightarrow> \<exists>w. st' = st\<lparr>sks_world := w\<rparr>"
  by (auto simp: sk_run_def)

lemma sk_plugin_some: "sk_plugin st t = Some pl \<Longrightarrow> t < length (sks_plugin st) \<and> pl = sks_plugin st ! t"
  by (auto simp: sk_plugin_def arr_get_def split: if_splits)

lemma sk_ref_some:
  assumes "sk_ref f t st = Some st'"
  shows "t < length (sks_plugin st) \<and> st' = st\<lparr>sks_plugin := sockets.set_ref f t (sks_plugin st)\<rparr>"
  using assms by (auto simp: sk_ref_def bind_eq_Some_conv sk_plugin_def arr_get_def arr_set_def sockets.set_ref_def split: if_splits)

lemma slist_match_same:
  assumes "inj_on (\<lambda>v. sk_id (the (S v))) (dom S)" "a \<in> dom S" "b \<in> dom S"
  shows "slist_match S a b = 0 \<longleftrightarrow> a = b"
proof -
  obtain x y where xy: "S a = Some x" "S b = Some y" using assms(2,3) by auto
  then have "slist_match S a b = 0 \<longleftrightarrow> sk_id x = sk_id y" by (auto simp: slist_match_def)
  then show ?thesis using store_ids_distinct [OF assms(1) xy] by simp
qed

text \<open>
  One call by a user, on a state together with the addresses of the sockets that are alive. The
  allocations return fresh addresses, the id that is handed out is not in use, and there are
  fewer than \<open>2 ^ 32 - 1\<close> sockets.
\<close>

inductive sock_step :: "'w ksocks \<times> kaddr list \<Rightarrow> 'w ksocks \<times> kaddr list \<Rightarrow> bool" where
  create: "kylin_socket_create guard node t opts st = Some (r, st') \<Longrightarrow> sks_store st guard = None
    \<Longrightarrow> node = 0 \<or> sks_heap st node = None \<Longrightarrow> sks_sid st \<notin> (\<lambda>v. sk_id (the (sks_store st v))) ` set vs
    \<Longrightarrow> length vs < 2 ^ 32 - 1 \<Longrightarrow> sock_step (st, vs) (st', if r = 0 then vs else r # vs)"
| destroy: "kylin_socket_destroy guard st = Some st' \<Longrightarrow> sock_step (st, vs) (st', remove1 guard vs)"
| register: "kylin_socket_register t reg st = Some (ret, st') \<Longrightarrow> sock_step (st, vs) (st', vs)"
| unregister: "kylin_socket_unregister t st = Some st' \<Longrightarrow> sock_step (st, vs) (st', vs)"
| get_fd: "kylin_socket_get_fd guard st = Some (fd, st') \<Longrightarrow> sock_step (st, vs) (st', vs)"
| accept: "kylin_socket_accept guard st = Some (conn, st') \<Longrightarrow> sock_step (st, vs) (st', vs)"
| conn_destroy: "kylin_socket_connection_destroy guard conn st = Some (u, st') \<Longrightarrow> sock_step (st, vs) (st', vs)"
| connect: "kylin_socket_connect guard st = Some (ret, st') \<Longrightarrow> sock_step (st, vs) (st', vs)"
| recv: "kylin_socket_recv fd buf len guard st = Some (n, st') \<Longrightarrow> sock_step (st, vs) (st', vs)"
| send: "kylin_socket_send fd buf len guard st = Some (n, st') \<Longrightarrow> sock_step (st, vs) (st', vs)"

text \<open>Every call is a step of the table: first the creation, with its three ways to fail, then the destruction.\<close>

lemma sk_view_idle: "sk_view (st\<lparr>sks_world := w\<rparr>, vs) = sk_view (st, vs)" "sk_view (st\<lparr>sks_sid := n, sks_world := w\<rparr>, vs) = sk_view (st, vs)"
  by (simp_all add: sk_view_def)

lemma kylin_socket_create_step:
  assumes "sockets.inv (sk_view (st, vs))" "kylin_socket_create guard node t opts st = Some (r, st')"
    "sks_store st guard = None" "node = 0 \<or> sks_heap st node = None" "sks_sid st \<notin> (\<lambda>v. sk_id (the (sks_store st v))) ` set vs"
    "length vs < 2 ^ 32 - 1"
  shows "sockets.tstep (sk_view (st, vs)) (sk_view (st', if r = 0 then vs else r # vs))"
proof -
  have inv: "length (sks_plugin st) = KYLIN_SOCK_MAX" "obj_list (sks_heap st) (sks_list st) vs"
    using assms(1) by (simp_all add: sockets.inv_def sk_view_def)
  let ?g = "\<lparr>sk_id = sks_sid st, sk_type = t, sk_opts = opts, sk_priv = 0\<rparr>"
  let ?st1 = "st\<lparr>sks_sid := sks_sid st + 1, sks_store := (sks_store st)(guard \<mapsto> ?g)\<rparr>"
  have store: "(sks_store st)(guard := None) = sks_store st" using assms(3) by auto
  obtain pl where pl: "sk_plugin st t = Some pl" using assms(2) by (auto simp: kylin_socket_create_def bind_eq_Some_conv)
  note p = sk_plugin_some [OF pl]
  show ?thesis
  proof (cases "pl_type pl = KYLIN_SOCK_MAX \<or> guard = 0")
    case True
    then show ?thesis using assms(2) pl by (auto simp: kylin_socket_create_def intro: sockets.tstep.idle split: if_splits)
  next
    case False
    then obtain priv st2 where run: "sk_run (call_or 0 (map_option (\<lambda>f. f guard ?g) (sr_create (pl_reg pl)))) ?st1 = Some (priv, st2)"
      using assms(2) pl by (auto simp: kylin_socket_create_def Let_def bind_eq_Some_conv)
    obtain w where w: "st2 = ?st1\<lparr>sks_world := w\<rparr>" using sk_run_some [OF run] by blast
    let ?g3 = "?g\<lparr>sk_priv := priv\<rparr>"
    let ?st3 = "st2\<lparr>sks_store := (sks_store st2)(guard \<mapsto> ?g3)\<rparr>"
    show ?thesis
    proof (cases "sr_create (pl_reg pl) \<noteq> None \<and> priv = 0 \<or> node = 0")
      case True
      then have "r = 0 \<and> (\<exists>w. st' = st\<lparr>sks_sid := sks_sid st + 1, sks_world := w\<rparr>)"
        using assms(2) pl False run w store
        by (auto simp: kylin_socket_create_def Let_def bind_eq_Some_conv obj_list_insert_head_fails dest!: sk_run_some split: if_splits)
      then have "sk_view (st', if r = 0 then vs else r # vs) = sk_view (st, vs)" by (auto simp: sk_view_def)
      then show ?thesis using sockets.tstep.idle [of "sk_view (st, vs)"] by simp
    next
      case ok: False
      have "obj_list (sks_heap ?st3) (sk_list_now ?st3) vs" using inv(2) w by (simp add: sk_list_now_def)
      then obtain h l where ins: "kylin_list_insert_head Map.empty (sks_heap ?st3) (sk_list_now ?st3) node guard = Some (Some (Obj guard), Map.empty, h, l)"
          "obj_list h l (guard # vs)"
        using obj_list_insert_head [of "sks_heap ?st3" "sk_list_now ?st3" vs node Map.empty guard] ok assms(4) w by (auto simp: sk_list_now_def)
      have r: "sk_ref (\<lambda>r. r + 1) t (?st3\<lparr>sks_heap := h, sks_list := l\<rparr>) = Some st'" "r = guard"
        using assms(2) pl False run ok ins(1) by (auto simp: kylin_socket_create_def Let_def bind_eq_Some_conv split: if_splits)
      have v: "sk_view (st', guard # vs) =
          (\<lparr>rg_plugin = sockets.set_ref (\<lambda>r. r + 1) (sk_type ?g3) (sks_plugin st), rg_store = (sks_store st)(guard \<mapsto> ?g3), rg_heap = h, rg_list = l\<rparr>, guard # vs)"
        using sk_ref_some [OF r(1)] w by (simp add: sk_view_def)
      have "sockets.registered (sk_view (st, vs)) (sk_type ?g3)" using p False inv(1) by (simp add: sockets.registered_def sk_view_def)
      then show ?thesis
        using sockets.tstep.create [of "fst (sk_view (st, vs))" vs ?g3 guard h l] assms(3,5,6) ins(2) v r(2) False
        by (simp add: sk_view_def)
    qed
  qed
qed

lemma kylin_socket_destroy_step:
  assumes "sockets.inv (sk_view (st, vs))" "kylin_socket_destroy guard st = Some st'"
  shows "sockets.tstep (sk_view (st, vs)) (sk_view (st', remove1 guard vs))"
proof -
  have inv: "obj_list (sks_heap st) (sks_list st) vs" "distinct vs" "set vs = dom (sks_store st)" "inj_on (\<lambda>v. sk_id (the (sks_store st v))) (set vs)"
    using assms(1) unfolding sockets.inv_def sk_view_def by auto
  show ?thesis
  proof (cases "guard \<in> set vs")
    case False
    then have g: "sks_store st guard = None" using inv(3) by auto
    then have "kylin_list_unlink (sks_heap st) (sk_list_now st) guard = Some (None, sks_heap st, sk_list_now st)"
      using obj_list_unlink_miss [of "sks_heap st" "sk_list_now st" vs guard] inv(1) by (simp add: sk_list_now_def slist_match_def)
    then have "st' = st" using assms(2) g by (auto simp: kylin_socket_destroy_def split: if_splits)
    then show ?thesis using False by (simp add: remove1_idem sockets.tstep.idle)
  next
    case True
    then obtain us ws where vs: "vs = us @ guard # ws" by (meson split_list)
    obtain g where g: "sks_store st guard = Some g" using True inv(3) by auto
    have m: "slist_match (sks_store st) guard v = 0 \<longleftrightarrow> guard = v" if "v \<in> set vs" for v
      using slist_match_same [of "sks_store st" guard v] inv(3,4) True that by simp
    obtain h l where u: "kylin_list_unlink (sks_heap st) (sk_list_now st) guard = Some (Some (Obj guard), h, l)" "obj_list h l (us @ ws)"
      using obj_list_unlink_hit [of "sks_heap st" "sk_list_now st" us guard ws guard] m inv(1,2) vs
      by (fastforce simp: sk_list_now_def)
    have v: "sk_view (st', us @ ws) = (\<lparr>rg_plugin = sockets.set_ref (\<lambda>r. r - 1) (sk_type g) (sks_plugin st),
        rg_store = (sks_store st)(guard := None), rg_heap = h, rg_list = l\<rparr>, us @ ws)"
      using assms(2) u(1) g
      by (auto simp: kylin_socket_destroy_def Let_def bind_eq_Some_conv sk_view_def split: if_splits dest!: sk_run_some sk_ref_some)
    have "remove1 guard vs = us @ ws" using inv(2) vs by (simp add: remove1_append)
    then show ?thesis using sockets.tstep.destroy [of "fst (sk_view (st, vs))" guard g h l us ws] u(2) g v vs by (simp add: sk_view_def)
  qed
qed

lemma kylin_socket_register_step:
  assumes "kylin_socket_register t reg st = Some (ret, st')"
  shows "sockets.tstep (sk_view (st, vs)) (sk_view (st', vs))"
  using assms sockets.tstep.plugin [of t "fst (sk_view (st, vs))" "\<lparr>pl_ref = 0, pl_type = t, pl_reg = reg\<rparr>" vs] sockets.tstep.idle
  by (auto simp: kylin_socket_register_def bind_eq_Some_conv arr_set_def sk_view_def dest!: sk_run_some sk_plugin_some split: if_splits)

lemma kylin_socket_unregister_step:
  assumes "kylin_socket_unregister t st = Some st'"
  shows "sockets.tstep (sk_view (st, vs)) (sk_view (st', vs))"
  using assms sockets.tstep.plugin [of t "fst (sk_view (st, vs))" "free_plugin null_reg KYLIN_SOCK_MAX" vs] sockets.tstep.idle
  by (auto simp: kylin_socket_unregister_def bind_eq_Some_conv arr_set_def sk_view_def free_plugin_def dest!: sk_run_some sk_plugin_some split: if_splits)

lemma sk_dispatch_some:
  assumes "sk_dispatch none null f guard st = Some (r, st')"
  shows "\<exists>w. st' = st\<lparr>sks_world := w\<rparr>"
proof -
  obtain g pl where g: "sks_store st guard = Some g" "sk_plugin st (sk_type g) = Some pl"
    using assms by (auto simp: sk_dispatch_def bind_eq_Some_conv)
  show ?thesis
  proof (cases "pl_type pl = KYLIN_SOCK_MAX")
    case True
    then have "st' = st" using assms g by (simp add: sk_dispatch_def)
    then show ?thesis by (intro exI [of _ "sks_world st"]) simp
  next
    case False
    then show ?thesis using assms g by (auto simp: sk_dispatch_def dest!: sk_run_some)
  qed
qed

lemma sk_dispatch_step: "sk_dispatch none null f guard st = Some (r, st') \<Longrightarrow> sockets.tstep (sk_view (st, vs)) (sk_view (st', vs))"
  by (auto simp: sk_view_idle intro: sockets.tstep.idle dest!: sk_dispatch_some)

lemmas sk_dispatch_defs = kylin_socket_get_fd_def kylin_socket_accept_def kylin_socket_connection_destroy_def
  kylin_socket_connect_def kylin_socket_send_def

lemma kylin_socket_recv_step:
  assumes "kylin_socket_recv fd buf len guard st = Some (n, st')"
  shows "sockets.tstep (sk_view (st, vs)) (sk_view (st', vs))"
proof -
  obtain g opts w where g: "sks_store st guard = Some g" "st' = st\<lparr>sks_world := w, sks_store := (sks_store st)(guard \<mapsto> g\<lparr>sk_opts := opts\<rparr>)\<rparr>"
    using assms sk_dispatch_some by (fastforce simp: kylin_socket_recv_def bind_eq_Some_conv)
  then show ?thesis using sockets.tstep.change [of "fst (sk_view (st, vs))" guard g "g\<lparr>sk_opts := opts\<rparr>" vs] by (simp add: sk_view_def)
qed

lemma sock_step_tstep: "sock_step s s' \<Longrightarrow> sockets.inv (sk_view s) \<Longrightarrow> sockets.tstep\<^sup>*\<^sup>* (sk_view s) (sk_view s')"
proof (rule r_into_rtranclp, induction rule: sock_step.induct)
  case (create guard node t opts st r st' vs)
  then show ?case by (intro kylin_socket_create_step)
next
  case (destroy guard st st' vs)
  then show ?case by (intro kylin_socket_destroy_step)
next
  case (recv fd buf len guard st n st' vs)
  then show ?case by (intro kylin_socket_recv_step)
qed (unfold sk_dispatch_defs, auto intro: kylin_socket_register_step kylin_socket_unregister_step sk_dispatch_step)

subsection \<open>The table after initialisation\<close>

text \<open>
  What the initialisation leaves of the table. The second half of the table starts at index 16,
  but both loops take it to start at 15.
\<close>

definition sk_table_after :: "'w ksock_reg list \<Rightarrow> 'w ksock_reg list \<Rightarrow> 'w ksock_plugin list" where
  "sk_table_after servers clients =
     [free_plugin (servers ! 0) KYLIN_SOCK_SERVER_TCP, free_plugin (servers ! 1) KYLIN_SOCK_SERVER_UDP,
      free_plugin (servers ! 2) KYLIN_SOCK_SERVER_UNIX] @ replicate 13 (free_plugin null_reg KYLIN_SOCK_MAX) @
     [free_plugin (clients ! 0) KYLIN_SOCK_CLIENT_TCP, free_plugin (clients ! 1) KYLIN_SOCK_CLIENT_UDP,
      free_plugin (clients ! 2) KYLIN_SOCK_MAX] @ replicate 11 (free_plugin null_reg KYLIN_SOCK_MAX)
     @ replicate 2 (free_plugin null_reg 0)"

lemma sk_free_rest_table: "sk_free_rest (splugin servers clients) = Some (sk_table_after servers clients)"
  by (simp add: sk_free_rest_def splugin_def sk_table_after_def sk_free_type_def arr_get_def arr_set_def upt_rec numeral_eq_Suc
      free_plugin_def)

lemma sk_init_plugin_world: "sk_init_plugin i st = Some (r, st') \<Longrightarrow> \<exists>w. st' = st\<lparr>sks_world := w\<rparr>"
  by (auto simp: sk_init_plugin_def bind_eq_Some_conv dest!: sk_run_some split: if_splits)
    (metis ksocks.surjective ksocks.update_convs(6))

lemma sk_init_all_world: "sk_init_all is st = Some (r, st') \<Longrightarrow> \<exists>w. st' = st\<lparr>sks_world := w\<rparr>"
proof (induction "is" arbitrary: st)
  case Nil
  then show ?case by (metis ksocks.surjective ksocks.update_convs(6) option.inject prod.inject sk_init_all.simps(1))
next
  case (Cons i "is")
  then show ?case by (fastforce simp: bind_eq_Some_conv dest!: sk_init_plugin_world split: if_splits)
qed

lemma kylin_socket_init_state:
  assumes "kylin_socket_init True st = Some (KYLIN_ERROR_OK, st0)" "sks_plugin st = splugin servers clients"
  shows "sks_plugin st0 = sk_table_after servers clients" "obj_list (sks_heap st0) (sks_list st0) []" "sks_store st0 = sks_store st"
proof -
  obtain l where l: "kylin_list_create True (obj_opts (slist_match (sks_store st)) sizeof_ksock) = Some l"
    by (simp add: kylin_list_create_def)
  then obtain r st1 ps where 1: "sk_init_all [0..<KYLIN_SOCK_TYPE_DEF_CNT] (st\<lparr>sks_list := l\<rparr>) = Some (r, st1)"
      "sk_free_rest (sks_plugin st1) = Some ps"
      "st0 = st1\<lparr>sks_plugin := ps\<rparr>"
    using assms(1) by (auto simp: kylin_socket_init_def kylin_socket_plugin_init_def bind_eq_Some_conv split: if_splits)
  obtain w where w: "st1 = st\<lparr>sks_list := l, sks_world := w\<rparr>" using sk_init_all_world [OF 1(1)] by auto
  then have ps: "ps = sk_table_after servers clients" using 1(2) assms(2) sk_free_rest_table [of servers clients] by simp
  show "sks_plugin st0 = sk_table_after servers clients" "sks_store st0 = sks_store st" using 1(3) w ps by simp_all
  show "obj_list (sks_heap st0) (sks_list st0) []" using 1(3) w obj_list_create [OF l] by simp
qed

lemma sk_table_after_facts:
  "length (sk_table_after servers clients) = KYLIN_SOCK_MAX" "list_all (\<lambda>p. pl_ref p = 0) (sk_table_after servers clients)"
  by (simp_all add: sk_table_after_def free_plugin_def list_all_iff)

subsection \<open>Properties\<close>

text \<open>
  C9. In every state that calls of the library reach after the initialisation, the reference count of
  a socket type is the number of sockets of this type that are alive, and the type of a living
  socket is registered: unregistering never takes a plugin away from a socket that uses it. Creations that fail and
  destructions of every kind keep the counts right.
\<close>

theorem kylin_socket_refs_counted:
  assumes "kylin_socket_init True st = Some (KYLIN_ERROR_OK, st0)" "sks_plugin st = splugin servers clients"
    "sks_store st = Map.empty" "sock_step\<^sup>*\<^sup>* (st0, []) (st', vs)" "t < KYLIN_SOCK_MAX"
  shows "unat (pl_ref (sks_plugin st' ! t)) = length (filter (\<lambda>v. sk_type (the (sks_store st' v)) = t) vs)
    \<and> list_all (\<lambda>v. pl_type (sks_plugin st' ! sk_type (the (sks_store st' v))) \<noteq> KYLIN_SOCK_MAX) vs"
proof -
  note i = kylin_socket_init_state [OF assms(1,2)]
  have "sockets.inv (sk_view (st0, []))" using i assms(3) sk_table_after_facts(1) by (simp add: sockets.inv_def sk_view_def)
  moreover have "sockets.registry.counted (sk_view (st0, []))"
    unfolding sk_view_def split_conv using i(1) sk_table_after_facts [of servers clients] by (intro sockets.counted_start) simp_all
  ultimately have "sockets.registry.counted (sk_view (st', vs))" using sockets.simulated [of sock_step sk_view, OF sock_step_tstep assms(4)] by blast
  then show ?thesis unfolding sk_view_def split_conv list_all_iff using sockets.counted_refs sockets.counted_registered assms(5) by fastforce
qed

text \<open>
  C34. The initialisation itself takes the Unix client away: it clears the entries from index 18 on as if the
  clients started at 15, so afterwards creating a Unix client socket returns null. The last two
  entries of the table, which C fills with zeros, look registered: a user cannot register them.
\<close>

theorem kylin_socket_init_drops_unix_client:
  assumes "kylin_socket_init True st = Some (KYLIN_ERROR_OK, st0)" "sks_plugin st = splugin servers clients"
  shows "kylin_socket_create guard node KYLIN_SOCK_CLIENT_UNIX opts st0 = Some (0, st0)
    \<and> kylin_socket_register 30 reg st0 = Some (KYLIN_ERROR_EXIST, st0) \<and> kylin_socket_register 31 reg st0 = Some (KYLIN_ERROR_EXIST, st0)"
proof -
  have "sks_plugin st0 = sk_table_after servers clients" by (rule kylin_socket_init_state(1) [OF assms])
  then show ?thesis
    by (simp add: kylin_socket_create_def kylin_socket_register_def sk_plugin_def sk_table_after_def arr_get_def nth_append free_plugin_def)
qed

text \<open>A table whose plugins create their private data at a fixed address.\<close>

definition demo_reg :: "unit ksock_reg" where
  "demo_reg = null_reg\<lparr>sr_create := Some (\<lambda>_ _ w. Some (4096, w)), sr_destroy := Some (\<lambda>_ w. Some ((), w))\<rparr>"

definition demo_socks :: "unit ksocks" where
  "demo_socks = \<lparr>sks_plugin = splugin [demo_reg, demo_reg, demo_reg] [demo_reg, demo_reg, demo_reg], sks_sid = 0,
     sks_store = Map.empty, sks_heap = Map.empty, sks_list = \<lparr>list_head = 0, list_tail = 0, list_opts = obj_opts (\<lambda>_ _. 0) 0, list_count = 0\<rparr>,
     sks_world = ()\<rparr>"

definition demo_socks_init :: "unit ksocks" where
  "demo_socks_init = demo_socks\<lparr>sks_list := \<lparr>list_head = 0, list_tail = 0, list_opts = obj_opts (slist_match Map.empty) sizeof_ksock, list_count = 0\<rparr>,
     sks_plugin := sk_table_after [demo_reg, demo_reg, demo_reg] [demo_reg, demo_reg, demo_reg]\<rparr>"

lemma sk_init_all_silent:
  assumes "list_all (\<lambda>p. sr_init (pl_reg p) = None) (sks_plugin st)" "\<forall>i \<in> set is. i + KYLIN_SOCK_TYPE_MAX_CNT < length (sks_plugin st)"
  shows "sk_init_all is st = Some (KYLIN_ERROR_OK, st)"
proof -
  have "sk_init_plugin i st = Some (KYLIN_ERROR_OK, st)" if "i < length (sks_plugin st)" for i
    using assms(1) that by (simp add: sk_init_plugin_def sk_plugin_def sk_run_def call_or_def list_all_length)
  then show ?thesis using assms(2) by (induction "is") auto
qed

lemma demo_socks_init: "kylin_socket_init True demo_socks = Some (KYLIN_ERROR_OK, demo_socks_init)"
proof -
  have s: "sk_init_all [0..<KYLIN_SOCK_TYPE_DEF_CNT] (demo_socks\<lparr>sks_list := l\<rparr>) = Some (KYLIN_ERROR_OK, demo_socks\<lparr>sks_list := l\<rparr>)" for l
    by (rule sk_init_all_silent) (simp_all add: demo_socks_def splugin_def free_plugin_def demo_reg_def null_reg_def list_all_iff)
  have p: "sks_plugin demo_socks = splugin [demo_reg, demo_reg, demo_reg] [demo_reg, demo_reg, demo_reg]" by (simp add: demo_socks_def)
  have "sks_store demo_socks = Map.empty" by (simp add: demo_socks_def)
  then show ?thesis
    unfolding kylin_socket_init_def kylin_socket_plugin_init_def kylin_list_create_def
    by (simp add: s p sk_free_rest_table demo_socks_init_def del: upt_rec_numeral)
qed

lemma demo_socks_create: "\<exists>st'. kylin_socket_create 100 200 0 [] demo_socks_init = Some (100, st')"
proof -
  let ?st = "demo_socks_init\<lparr>sks_sid := 1, sks_store := [100 \<mapsto> \<lparr>sk_id = 0, sk_type = 0, sk_opts = [], sk_priv = 4096\<rparr>]\<rparr>"
  have "obj_list (sks_heap ?st) (sk_list_now ?st) []"
    by (simp add: sk_list_now_def demo_socks_init_def obj_list_def dlist_def list_vals_def)
  then obtain h l where "kylin_list_insert_head Map.empty (sks_heap ?st) (sk_list_now ?st) 200 100 = Some (Some (Obj 100), Map.empty, h, l)"
    using obj_list_insert_head [of "sks_heap ?st" "sk_list_now ?st" "[]" 200 Map.empty 100]
    by (auto simp: sk_list_now_def demo_socks_init_def demo_socks_def obj_guard_def obj_opts_def)
  then show ?thesis
    by (simp add: kylin_socket_create_def sk_plugin_def demo_socks_init_def demo_socks_def sk_table_after_def free_plugin_def
        demo_reg_def sk_run_def call_or_def sk_ref_def arr_get_def arr_set_def)
qed

theorem kylin_socket_refs_counted_witness:
  "\<exists>st'. sock_step\<^sup>*\<^sup>* (demo_socks_init, []) (st', [100]) \<and> unat (pl_ref (sks_plugin st' ! 0)) = length [v \<leftarrow> [100]. sk_type (the (sks_store st' v)) = 0]"
proof -
  obtain st' where c: "kylin_socket_create 100 200 0 [] demo_socks_init = Some (100, st')" using demo_socks_create by blast
  have "sock_step (demo_socks_init, []) (st', [100])"
    using sock_step.create [OF c, of "[]"] by (simp add: demo_socks_init_def demo_socks_def)
  then have s: "sock_step\<^sup>*\<^sup>* (demo_socks_init, []) (st', [100])" by simp
  show ?thesis using kylin_socket_refs_counted [OF demo_socks_init _ _ s, of _ _ 0] s by (auto simp: demo_socks_def)
qed

theorem kylin_socket_init_drops_unix_client_witness:
  "kylin_socket_create 100 200 KYLIN_SOCK_CLIENT_UNIX [] demo_socks_init = Some (0, demo_socks_init)"
  using kylin_socket_init_drops_unix_client [OF demo_socks_init] by (simp add: demo_socks_def)

end
