(* ===== verification/Kylin_Memory.thy ===== *)
theory Kylin_Memory
  imports Kylin_Value
begin

section \<open>Structures in user memory\<close>

text \<open>
  Facts on the byte memory of \<open>Kylin_Value\<close> for components that keep structures in it: what loads and stores
  do as functions of the addresses, which regions they leave alone, and the bytes of a number. An allocation
  is \<^verbatim>\<open>kylin_malloc\<close> of include/kylin.h: it maps a region of zeros, or returns null.
\<close>

definition mem_alloc :: "kaddr \<Rightarrow> umem \<Rightarrow> ksize \<Rightarrow> kaddr \<times> umem" where
  "mem_alloc p m sz = (p, if p = 0 then m else (\<lambda>a. if a - p < sz then Some 0 else m a))"

definition mem_free :: "kaddr \<Rightarrow> ksize \<Rightarrow> umem \<Rightarrow> umem" where
  "mem_free p sz m = (\<lambda>a. if a - p < sz then None else m a)"

text \<open>The bytes of a number, the lowest first.\<close>

fun le_bytes :: "nat \<Rightarrow> 64 word \<Rightarrow> kbyte list" where
  "le_bytes 0 w = []"
| "le_bytes (Suc n) w = ucast w # le_bytes n (drop_bit 8 w)"

lemma length_le_bytes [simp]: "length (le_bytes n w) = n"
  by (induction n arbitrary: w) auto

lemma le_word_le_bytes: "le_word (le_bytes n w) = take_bit (8 * n) w"
proof (induction n arbitrary: w)
  case (Suc n)
  then show ?case by (intro bit_word_eqI) (auto simp: bit_simps)
qed simp

lemma ucast_field: "(ucast (le_word (le_bytes 4 (ucast (x :: 32 word)))) :: 32 word) = x"
  unfolding le_word_le_bytes by (rule bit_word_eqI) (simp add: bit_simps)

subsection \<open>Regions\<close>

definition region :: "kaddr \<Rightarrow> nat \<Rightarrow> kaddr set" where
  "region p n = {a. unat (a - p) < n}"

definition mapped :: "umem \<Rightarrow> kaddr set \<Rightarrow> bool" where
  "mapped m A \<longleftrightarrow> (\<forall>a \<in> A. m a \<noteq> None)"

lemma region_iff: "a \<in> region p n \<longleftrightarrow> unat (a - p) < n"
  by (simp add: region_def)

lemma mem_load_iff:
  "mem_load m a n = (if \<forall>i < n. m (a + of_nat i) \<noteq> None then Some (map (\<lambda>i. the (m (a + of_nat i))) [0..<n]) else None)"
proof (induction n arbitrary: a)
  case (Suc n)
  have e: "[0..<Suc n] = 0 # map Suc [0..<n]" by (simp add: upt_conv_Cons map_Suc_upt)
  have q: "(\<forall>i < Suc n. m (a + of_nat i) \<noteq> None) \<longleftrightarrow> m a \<noteq> None \<and> (\<forall>i < n. m (a + 1 + of_nat i) \<noteq> None)"
    by (auto simp: less_Suc_eq_0_disj add.assoc)
  show ?case unfolding mem_load.simps(2) Suc q e by (auto simp: comp_def add.assoc split: option.split)
qed simp

lemma mem_load_cong: "(\<And>i. i < n \<Longrightarrow> m (a + of_nat i) = m' (a + of_nat i)) \<Longrightarrow> mem_load m a n = mem_load m' a n"
  by (simp add: mem_load_iff cong: map_cong)

lemma mem_store_iff:
  assumes "length bs < 2 ^ 64 - 1"
  shows "mem_store m a bs = (if \<forall>i < length bs. m (a + of_nat i) \<noteq> None
    then Some (\<lambda>x. if unat (x - a) < length bs then Some (bs ! unat (x - a)) else m x) else None)"
  using assms
proof (induction bs arbitrary: m a)
  case (Cons b bs)
  have l: "length bs < 2 ^ 64 - 1" using Cons.prems by simp
  have q: "(\<forall>i < length (b # bs). m (a + of_nat i) \<noteq> None) \<longleftrightarrow> m a \<noteq> None \<and> (\<forall>i < length bs. m (a + 1 + of_nat i) \<noteq> None)"
    by (auto simp: less_Suc_eq_0_disj add.assoc)
  have ne: "a + 1 + of_nat i \<noteq> a" if "i < length bs" for i
  proof
    assume "a + 1 + of_nat i = a"
    then have "of_nat (Suc i) = (0 :: kaddr)" by (simp add: add.assoc)
    then have "unat (of_nat (Suc i) :: kaddr) = 0" by simp
    then show False using that Cons.prems by (simp add: unat_of_nat take_bit_nat_eq_self_iff del: of_nat_Suc)
  qed
  have same: "(\<forall>i < length bs. (m(a \<mapsto> b)) (a + 1 + of_nat i) \<noteq> None) \<longleftrightarrow> (\<forall>i < length bs. m (a + 1 + of_nat i) \<noteq> None)"
    using ne by auto
  have f: "(\<lambda>x. if unat (x - (a + 1)) < length bs then Some (bs ! unat (x - (a + 1))) else (m(a \<mapsto> b)) x)
      = (\<lambda>x. if unat (x - a) < length (b # bs) then Some ((b # bs) ! unat (x - a)) else m x)"
  proof
    fix x
    show "(if unat (x - (a + 1)) < length bs then Some (bs ! unat (x - (a + 1))) else (m(a \<mapsto> b)) x)
      = (if unat (x - a) < length (b # bs) then Some ((b # bs) ! unat (x - a)) else m x)"
    proof (cases "x = a")
      case True
      moreover have "unat (- 1 :: kaddr) = 2 ^ 64 - 1" by (simp add: unsigned_minus_1_eq_mask mask_eq_exp_minus_1)
      ultimately show ?thesis using l by simp
    next
      case False
      then have d: "x - a \<noteq> 0" by simp
      have "x - (a + 1) = x - a - 1" by simp
      then have "unat (x - (a + 1)) = unat (x - a) - 1" using unat_minus_one [OF d] by (simp only:)
      moreover have "unat (x - a) \<noteq> 0" using d by (simp only: unat_eq_0 not_False_eq_True)
      ultimately have "unat (x - a) = Suc (unat (x - (a + 1)))" by simp
      then show ?thesis using False by auto
    qed
  qed
  show ?case unfolding mem_store.simps(2) q Cons.IH [OF l] same f by auto
qed simp

lemma region_index: "i < n \<Longrightarrow> n \<le> 2 ^ 64 \<Longrightarrow> p + of_nat i \<in> region p n"
  by (simp add: region_iff unat_of_nat take_bit_nat_eq_self)

lemma region_nth: "a \<in> region p n \<Longrightarrow> \<exists>i < n. a = p + of_nat i"
  by (rule exI [of _ "unat (a - p)"]) (simp add: region_iff)

lemma region_all: "n \<le> 2 ^ 64 \<Longrightarrow> (\<forall>i < n. P (p + of_nat i)) \<longleftrightarrow> (\<forall>a \<in> region p n. P a)"
  using region_index [of _ n p] region_nth [of _ p n] by blast

lemma region_disjoint:
  assumes "n \<le> d" "d + k \<le> 2 ^ 64"
  shows "region p n \<inter> region (p + of_nat d) k = {}"
proof (rule ccontr)
  assume "region p n \<inter> region (p + of_nat d) k \<noteq> {}"
  then obtain i j where ij: "i < n" "j < k" "p + of_nat i = p + of_nat d + of_nat j" using region_nth by blast
  then have "(of_nat i :: kaddr) = of_nat (d + j)" by simp
  then have "unat (of_nat i :: kaddr) = unat (of_nat (d + j) :: kaddr)" by simp
  moreover have "i < 2 ^ 64" "d + j < 2 ^ 64" using ij assms by simp_all
  ultimately have "i = d + j" by (simp add: unat_of_nat take_bit_nat_eq_self del: of_nat_add)
  then show False using ij(1) assms(1) by simp
qed

lemma mem_load_mapped: "n \<le> 2 ^ 64 \<Longrightarrow> mapped m (region p n) \<Longrightarrow> \<exists>bs. mem_load m p n = Some bs \<and> length bs = n"
  using region_all [of n "\<lambda>a. m a \<noteq> None" p] by (simp add: mem_load_iff mapped_def)

lemma mem_load_same: "n \<le> 2 ^ 64 \<Longrightarrow> \<forall>a \<in> region p n. m' a = m a \<Longrightarrow> mem_load m' p n = mem_load m p n"
  using region_all [of n "\<lambda>a. m' a = m a" p] by (intro mem_load_cong) blast

lemma mem_load_part:
  assumes "mem_load m a (length bs) = Some bs" "k + n \<le> length bs"
  shows "mem_load m (a + of_nat k) n = Some (take n (drop k bs))"
proof -
  have b: "\<forall>i < length bs. m (a + of_nat i) \<noteq> None" "bs = map (\<lambda>i. the (m (a + of_nat i))) [0..<length bs]"
    using assms(1) by (auto simp: mem_load_iff split: if_splits)
  have "m (a + of_nat k + of_nat i) \<noteq> None" if "i < n" for i
    using b(1) assms(2) that by (metis add.assoc of_nat_add add_less_cancel_left order_less_le_trans)
  moreover have "map (\<lambda>i. the (m (a + of_nat k + of_nat i))) [0..<n] = take n (drop k bs)"
  proof (rule nth_equalityI)
    fix i assume "i < length (map (\<lambda>i. the (m (a + of_nat k + of_nat i))) [0..<n])"
    then have "i < n" by simp
    moreover have "bs ! (k + i) = the (m (a + of_nat (k + i)))" using \<open>i < n\<close> assms(2) by (subst b(2)) simp
    ultimately show "map (\<lambda>i. the (m (a + of_nat k + of_nat i))) [0..<n] ! i = take n (drop k bs) ! i"
      using assms(2) by (simp add: add.assoc)
  qed (use assms(2) in simp)
  ultimately show ?thesis by (simp add: mem_load_iff)
qed

lemma mem_store_mapped:
  assumes "length bs < 2 ^ 64 - 1" "mapped m (region a (length bs))"
  shows "\<exists>m'. mem_store m a bs = Some m' \<and> mem_load m' a (length bs) = Some bs \<and> (\<forall>x. x \<notin> region a (length bs) \<longrightarrow> m' x = m x) \<and> dom m' = dom m"
proof -
  let ?m = "\<lambda>x. if unat (x - a) < length bs then Some (bs ! unat (x - a)) else m x"
  have all: "\<forall>i < length bs. m (a + of_nat i) \<noteq> None"
    using assms region_all [of "length bs" "\<lambda>a. m a \<noteq> None" a] by (simp add: mapped_def)
  then have "mem_store m a bs = Some ?m" using mem_store_iff [OF assms(1)] by simp
  moreover have "mem_load ?m a (length bs) = Some bs"
  proof -
    have "?m (a + of_nat i) = Some (bs ! i)" if "i < length bs" for i
      using that assms(1) by (simp add: unat_of_nat take_bit_nat_eq_self)
    then have "map (\<lambda>i. the (?m (a + of_nat i))) [0..<length bs] = map (\<lambda>i. bs ! i) [0..<length bs]" by (intro map_cong) simp_all
    moreover have "\<forall>i < length bs. ?m (a + of_nat i) \<noteq> None" using all by auto
    ultimately show ?thesis by (subst mem_load_iff, subst if_P) (simp_all only: map_nth)
  qed
  moreover have "dom ?m = dom m" using assms(2) by (auto simp: mapped_def region_iff)
  ultimately show ?thesis by (intro exI [of _ ?m]) (auto simp: region_iff)
qed

lemma mapped_mono: "mapped m A \<Longrightarrow> B \<subseteq> A \<Longrightarrow> mapped m B"
  by (auto simp: mapped_def)

lemma mapped_dom: "dom m' = dom m \<Longrightarrow> mapped m' A = mapped m A"
  by (auto simp: mapped_def dom_def set_eq_iff)

lemma mem_alloc_region:
  assumes "p \<noteq> 0"
  shows "\<exists>m'. mem_alloc p m sz = (p, m') \<and> mapped m' (region p (unat sz)) \<and> (\<forall>x. x \<notin> region p (unat sz) \<longrightarrow> m' x = m x) \<and> dom m' = dom m \<union> region p (unat sz)"
  using assms by (auto simp: mem_alloc_def mapped_def word_less_nat_alt region_iff split: if_splits)

text \<open>The constructor of a value that is a structure: the structure is copied to the allocated memory.\<close>

lemma object_copy:
  assumes "mapped m (region src n)" "p \<noteq> 0" "region p n \<inter> dom m = {}" "n < 2 ^ 64 - 1"
  shows "\<exists>bs m'. mem_load m src n = Some bs \<and> kmath_val_ctor m src KOBJ_OTHERS (of_nat n) (Some (mem_alloc p)) = Some (p, m')
    \<and> mem_load m' p n = Some bs \<and> dom m' = dom m \<union> region p n \<and> (\<forall>x. x \<notin> region p n \<longrightarrow> m' x = m x)"
proof -
  have u: "unat (of_nat n :: ksize) = n" using assms(4) by (simp add: unat_of_nat take_bit_nat_eq_self)
  obtain bs where bs: "mem_load m src n = Some bs" "length bs = n" using mem_load_mapped [OF _ assms(1)] assms(4) by auto
  obtain ma where ma: "mem_alloc p m (of_nat n) = (p, ma)" "mapped ma (region p n)" "\<forall>x. x \<notin> region p n \<longrightarrow> ma x = m x" "dom ma = dom m \<union> region p n"
    using mem_alloc_region [OF assms(2), of m "of_nat n"] unfolding u by auto
  have "\<forall>a \<in> region src n. ma a = m a" using ma(3) assms(1,3) by (force simp: mapped_def)
  then have "mem_load ma src n = Some bs" using mem_load_same [of n src ma m] bs(1) assms(4) by simp
  moreover obtain m' where m': "mem_store ma p bs = Some m'" "mem_load m' p n = Some bs" "\<forall>x. x \<notin> region p n \<longrightarrow> m' x = ma x" "dom m' = dom ma"
    using mem_store_mapped [of bs ma p] ma(2) bs(2) assms(4) by auto
  ultimately have "kmath_val_ctor m src KOBJ_OTHERS (of_nat n) (Some (mem_alloc p)) = Some (p, m')"
    using ma(1) u by (simp add: kmath_val_ctor_def)
  then show ?thesis using bs(1) m' ma by auto
qed

lemma mem_free_other: "x \<notin> region p (unat n) \<Longrightarrow> mem_free p n m x = m x"
  by (simp add: mem_free_def region_iff word_less_nat_alt)

lemma dom_mem_free: "dom (mem_free p n m) = dom m - region p (unat n)"
  by (auto simp: mem_free_def region_iff word_less_nat_alt split: if_splits)

end
