(* ===== verification/Kylin_Socktypes.thy ===== *)
theory Kylin_Socktypes
  imports Kylin_Socket Kylin_Memory
begin

section \<open>The built-in types of sockets (lib/core/socket/plugin)\<close>

text \<open>
  The functions the table of socket types is filled with: kylin_socket_tcp.c, kylin_socket_udp.c and
  kylin_socket_unix.c. Their state is the private structures of the sockets and the connections of the servers, with
  the lists that hold them; the calls of the operating system act on a state \<open>'k\<close> of their own. The options of
  a socket are the bytes of the structure, 124 on the target: what a server and a client have configured overlaps in them.
\<close>

subsection \<open>Definitions\<close>

record ksock_conn =
  cn_fd :: "32 word"
  cn_sock :: kaddr
  cn_server :: "kbyte list"
  cn_client :: "kbyte list"

record sock_priv =
  pv_fd :: "32 word"
  pv_conns :: "klist option"

record 'k skw =
  kw_priv :: "kaddr \<Rightarrow> sock_priv option"
  kw_conn :: "kaddr \<Rightarrow> ksock_conn option"
  kw_heap :: lheap
  kw_kern :: 'k

text \<open>
  The system calls with what they are given and return; a length behind a pointer is an argument and a result.
  \<^verbatim>\<open>recvfrom\<close> is given the room for an address and yields the number of bytes with the address of the sender, or nothing when it
  fails; \<^verbatim>\<open>sendto\<close> is given the bytes of the address and their number. The last four are the
  allocations and the value of a length that is not initialised.
\<close>

record 'k net_sys =
  ns_socket :: "nat \<Rightarrow> 32 word \<Rightarrow> ('k, 32 word) kcall"
  ns_setsockopt :: "32 word \<Rightarrow> nat \<Rightarrow> nat \<Rightarrow> ('k, unit) kcall"
  ns_getfl :: "32 word \<Rightarrow> ('k, 32 word) kcall"
  ns_setfl :: "32 word \<Rightarrow> 32 word \<Rightarrow> ('k, unit) kcall"
  ns_unlink :: "kbyte list \<Rightarrow> ('k, unit) kcall"
  ns_bind :: "32 word \<Rightarrow> kbyte list \<Rightarrow> 32 word \<Rightarrow> ('k, bool) kcall"
  ns_listen :: "32 word \<Rightarrow> 32 word \<Rightarrow> ('k, bool) kcall"
  ns_connect :: "32 word \<Rightarrow> kbyte list \<Rightarrow> 32 word \<Rightarrow> ('k, kerr) kcall"
  ns_accept :: "32 word \<Rightarrow> 32 word \<Rightarrow> ('k, 32 word \<times> kbyte list \<times> 32 word) kcall"
  ns_close :: "32 word \<Rightarrow> ('k, unit) kcall"
  ns_recv :: "32 word \<Rightarrow> kaddr \<Rightarrow> ksize \<Rightarrow> ('k, 64 word) kcall"
  ns_send :: "32 word \<Rightarrow> kaddr \<Rightarrow> ksize \<Rightarrow> ('k, 64 word) kcall"
  ns_recvfrom :: "32 word \<Rightarrow> kaddr \<Rightarrow> ksize \<Rightarrow> 32 word \<Rightarrow> ('k, 64 word \<times> kbyte list option) kcall"
  ns_sendto :: "32 word \<Rightarrow> kaddr \<Rightarrow> ksize \<Rightarrow> kbyte list \<Rightarrow> 32 word \<Rightarrow> ('k, 64 word) kcall"
  ns_malloc :: "'k skw \<Rightarrow> kaddr"
  ns_list :: "'k skw \<Rightarrow> bool"
  ns_node :: "'k skw \<Rightarrow> kaddr"
  ns_len :: "32 word"

abbreviation PF_LOCAL :: nat where "PF_LOCAL \<equiv> 1"
abbreviation PF_INET :: nat where "PF_INET \<equiv> 2"
abbreviation SOCK_STREAM :: "32 word" where "SOCK_STREAM \<equiv> 1"
abbreviation SOCK_DGRAM :: "32 word" where "SOCK_DGRAM \<equiv> 2"
abbreviation SOL_SOCKET :: nat where "SOL_SOCKET \<equiv> 1"
abbreviation SO_REUSEADDR :: nat where "SO_REUSEADDR \<equiv> 2"
abbreviation MSG_NOSIGNAL :: nat where "MSG_NOSIGNAL \<equiv> 0x4000"
abbreviation IPPROTO_TCP :: nat where "IPPROTO_TCP \<equiv> 6"
abbreviation TCP_NODELAY :: nat where "TCP_NODELAY \<equiv> 1"
abbreviation O_NONBLOCK :: "32 word" where "O_NONBLOCK \<equiv> 0x800"
abbreviation sizeof_ksock_conn :: ksize where "sizeof_ksock_conn \<equiv> 248"
abbreviation KYLIN_ERROR_IO :: kerr where "KYLIN_ERROR_IO \<equiv> 5"

definition kw_run :: "('k, 'r) kcall \<Rightarrow> 'k skw \<Rightarrow> ('r \<times> 'k skw) option" where
  "kw_run f w = map_option (\<lambda>(r, k). (r, w\<lparr>kw_kern := k\<rparr>)) (f (kw_kern w))"

text \<open>
  The fields of the options: the type, then the configuration, which is either the backlog and the local address of a server or
  the remote address of a client. An address is a length and a socket address.
\<close>

definition opt_int :: "kbyte list \<Rightarrow> nat \<Rightarrow> 32 word option" where
  "opt_int opts off = map_option (\<lambda>bs. ucast (le_word bs)) (buf_read opts off 4)"

definition opts_type :: "kbyte list \<Rightarrow> 32 word option" where "opts_type opts = opt_int opts 0"
definition opts_backlog :: "kbyte list \<Rightarrow> 32 word option" where "opts_backlog opts = opt_int opts 4"
definition local_len :: "kbyte list \<Rightarrow> 32 word option" where "local_len opts = opt_int opts 8"
definition local_addr :: "kbyte list \<Rightarrow> kbyte list option" where "local_addr opts = buf_read opts 12 112"
definition remote_len :: "kbyte list \<Rightarrow> 32 word option" where "remote_len opts = opt_int opts 4"
definition remote_addr :: "kbyte list \<Rightarrow> kbyte list option" where "remote_addr opts = buf_read opts 8 112"

definition nonblock :: "'k net_sys \<Rightarrow> 32 word \<Rightarrow> 'k skw \<Rightarrow> 'k skw option" where
  "nonblock sys fd w = do {
     (fl, w) \<leftarrow> kw_run (ns_getfl sys fd) w;
     (_, w) \<leftarrow> kw_run (ns_setfl sys fd (fl OR O_NONBLOCK)) w;
     Some w }"

text \<open>The end of a creation that fails: the descriptor is closed or not, the structure is released, and the result is null.\<close>

definition sock_drop :: "'k net_sys \<Rightarrow> bool \<Rightarrow> kaddr \<Rightarrow> 'k skw \<Rightarrow> (kaddr \<times> 'k skw) option" where
  "sock_drop sys shut a w = do {
     p \<leftarrow> kw_priv w a;
     (_, w) \<leftarrow> (if shut then kw_run (ns_close sys (pv_fd p)) w else Some ((), w));
     Some (0, w\<lparr>kw_priv := (kw_priv w)(a := None)\<rparr>) }"

definition new_priv :: "kaddr \<Rightarrow> 32 word \<Rightarrow> 'k skw \<Rightarrow> 'k skw" where
  "new_priv a fd w = w\<lparr>kw_priv := (kw_priv w)(a \<mapsto> \<lparr>pv_fd = fd, pv_conns = None\<rparr>)\<rparr>"

subsubsection \<open>Connections\<close>

definition conn_match :: "(kaddr \<Rightarrow> ksock_conn option) \<Rightarrow> kaddr \<Rightarrow> kaddr \<Rightarrow> int" where
  "conn_match S v1 v2 = (case (S v1, S v2) of
       (Some a, Some b) \<Rightarrow> if sint (cn_fd a) > sint (cn_fd b) then 1 else if sint (cn_fd a) < sint (cn_fd b) then -1 else 0
     | _ \<Rightarrow> 1)"

definition conn_list :: "'k skw \<Rightarrow> klist \<Rightarrow> klist" where
  "conn_list w l = l\<lparr>list_opts := obj_opts (conn_match (kw_conn w)) sizeof_ksock_conn\<rparr>"

text \<open>A search reads the key and the connections up to the one it finds; all must be alive.\<close>

partial_function (option) conns_alive :: "(kaddr \<Rightarrow> ksock_conn option) \<Rightarrow> lheap \<Rightarrow> kaddr \<Rightarrow> kaddr \<Rightarrow> unit option" where
  "conns_alive S h key p =
     (if p = 0 then Some ()
      else do {
        k \<leftarrow> S key;
        n \<leftarrow> node_get h p;
        a \<leftarrow> S (ln_val n);
        if cn_fd a = cn_fd k then Some () else conns_alive S h key (ln_next n) })"

declare conns_alive.simps [code]

text \<open>
  The list of connections of a server that listens, and a new connection: the insertion returns the connection, and what it
  returns is compared with \<^verbatim>\<open>KYLIN_ERROR_OK\<close>, which is 0.
\<close>

definition make_conns :: "'k net_sys \<Rightarrow> kaddr \<Rightarrow> bool \<Rightarrow> 'k skw \<Rightarrow> (kaddr \<times> 'k skw) option" where
  "make_conns sys a shut w = (case kylin_list_create (ns_list sys w) (obj_opts (conn_match (kw_conn w)) sizeof_ksock_conn) of
       None \<Rightarrow> sock_drop sys shut a w
     | Some l \<Rightarrow> do {
         p \<leftarrow> kw_priv w a;
         Some (a, w\<lparr>kw_priv := (kw_priv w)(a \<mapsto> p\<lparr>pv_conns := Some l\<rparr>)\<rparr>) })"

definition conn_add :: "'k net_sys \<Rightarrow> kaddr \<Rightarrow> ksock \<Rightarrow> 32 word \<Rightarrow> kbyte list \<Rightarrow> 32 word \<Rightarrow> nat \<Rightarrow> 'k skw \<Rightarrow> (kaddr \<times> 'k skw) option" where
  "conn_add sys guard g fd client len n w = do {
     let c = ns_malloc sys w;
     if c = 0 then do { (_, w) \<leftarrow> kw_run (ns_close sys fd) w; Some (0, w) }
     else do {
       addr \<leftarrow> buf_read client 0 n;
       server \<leftarrow> buf_read (sk_opts g) 8 116;
       let conn = \<lparr>cn_fd = fd, cn_sock = guard, cn_server = server, cn_client = le_bytes 4 (ucast len) @ addr @ replicate (112 - n) 0\<rparr>;
       let w = w\<lparr>kw_conn := (kw_conn w)(c \<mapsto> conn)\<rparr>;
       p \<leftarrow> kw_priv w (sk_priv g);
       l \<leftarrow> pv_conns p;
       (r, _, h, l) \<leftarrow> kylin_list_insert_head Map.empty (kw_heap w) (conn_list w l) (ns_node sys w) c;
       let w = w\<lparr>kw_heap := h, kw_priv := (kw_priv w)(sk_priv g \<mapsto> p\<lparr>pv_conns := Some l\<rparr>)\<rparr>;
       if r \<noteq> None then do {
         (_, w) \<leftarrow> kw_run (ns_close sys fd) w;
         Some (0, w\<lparr>kw_conn := (kw_conn w)(c := None)\<rparr>) }
       else Some (c, w) } }"

text \<open>What the two types with connections do in the same words.\<close>

definition sock_destroy :: "'k net_sys \<Rightarrow> kaddr \<Rightarrow> 'k skw \<Rightarrow> (unit \<times> 'k skw) option" where
  "sock_destroy sys a w =
     (if a = 0 then Some ((), w)
      else do {
        p \<leftarrow> kw_priv w a;
        (_, w) \<leftarrow> (if pv_fd p \<noteq> 0 then kw_run (ns_close sys (pv_fd p)) w else Some ((), w));
        w \<leftarrow> (case pv_conns p of None \<Rightarrow> Some w
          | Some l \<Rightarrow> do {
              (rels, h) \<leftarrow> kylin_list_destroy (kw_heap w) (conn_list w l);
              Some (w\<lparr>kw_heap := h, kw_conn := release_objs rels (kw_conn w)\<rparr>) });
        Some ((), w\<lparr>kw_priv := (kw_priv w)(a := None)\<rparr>) })"

definition conn_count :: "ksock \<Rightarrow> 'k skw \<Rightarrow> (32 word \<times> 'k skw) option" where
  "conn_count g w =
     (if sk_priv g = 0 then Some (0, w)
      else do { p \<leftarrow> kw_priv w (sk_priv g); l \<leftarrow> pv_conns p; Some (ucast (kylin_list_count l), w) })"

definition conn_at :: "'k skw \<Rightarrow> klist \<Rightarrow> kaddr \<Rightarrow> (kaddr \<times> 'k skw) option" where
  "conn_at w l node =
     (if node = 0 then Some (0, w)
      else do { v \<leftarrow> kylin_list_val (kw_heap w) (conn_list w l) node; Some (case v of Obj c \<Rightarrow> c | _ \<Rightarrow> 0, w) })"

definition conn_get_first :: "ksock \<Rightarrow> 'k skw \<Rightarrow> (kaddr \<times> 'k skw) option" where
  "conn_get_first g w =
     (if sk_priv g = 0 then Some (0, w)
      else do {
        p \<leftarrow> kw_priv w (sk_priv g);
        case pv_conns p of None \<Rightarrow> Some (0, w) | Some l \<Rightarrow> conn_at w l (kylin_list_first l) })"

definition conn_get_next :: "ksock \<Rightarrow> kaddr \<Rightarrow> 'k skw \<Rightarrow> (kaddr \<times> 'k skw) option" where
  "conn_get_next g conn w =
     (if sk_priv g = 0 then Some (0, w)
      else do {
        p \<leftarrow> kw_priv w (sk_priv g);
        case pv_conns p of None \<Rightarrow> Some (0, w)
        | Some l \<Rightarrow> do {
            _ \<leftarrow> conns_alive (kw_conn w) (kw_heap w) conn (list_head l);
            node \<leftarrow> kylin_list_find_raw (kw_heap w) (conn_list w l) conn;
            if node = 0 then Some (0, w)
            else do { node \<leftarrow> kylin_list_next (kw_heap w) l node; conn_at w l node } } })"

definition conn_destroy :: "'k net_sys \<Rightarrow> ksock \<Rightarrow> kaddr \<Rightarrow> 'k skw \<Rightarrow> (unit \<times> 'k skw) option" where
  "conn_destroy sys g conn w =
     (if sk_priv g = 0 then Some ((), w)
      else do {
        p \<leftarrow> kw_priv w (sk_priv g);
        case pv_conns p of None \<Rightarrow> Some ((), w)
        | Some l \<Rightarrow> do {
            _ \<leftarrow> conns_alive (kw_conn w) (kw_heap w) conn (list_head l);
            (r, h, l) \<leftarrow> kylin_list_unlink (kw_heap w) (conn_list w l) conn;
            let w = w\<lparr>kw_heap := h, kw_priv := (kw_priv w)(sk_priv g \<mapsto> p\<lparr>pv_conns := Some l\<rparr>)\<rparr>;
            if r = None then Some ((), w)
            else do {
              c \<leftarrow> kw_conn w conn;
              (_, w) \<leftarrow> kw_run (ns_close sys (cn_fd c)) w;
              Some ((), w\<lparr>kw_conn := (kw_conn w)(conn := None)\<rparr>) } } })"

definition get_sockfd :: "ksock \<Rightarrow> 'k skw \<Rightarrow> (32 word \<times> 'k skw) option" where
  "get_sockfd g w = (if sk_priv g = 0 then Some (- 1, w) else do { p \<leftarrow> kw_priv w (sk_priv g); Some (pv_fd p, w) })"

subsubsection \<open>TCP\<close>

definition tcp_create :: "'k net_sys \<Rightarrow> kaddr \<Rightarrow> ksock \<Rightarrow> ('k skw, kaddr) kcall" where
  "tcp_create sys guard g w =
     (if sk_type g \<noteq> KYLIN_SOCK_SERVER_TCP \<and> sk_type g \<noteq> KYLIN_SOCK_CLIENT_TCP then Some (0, w)
      else do {
        let a = ns_malloc sys w;
        if a = 0 then Some (0, w)
        else do {
          (fd, w) \<leftarrow> kw_run (ns_socket sys PF_INET SOCK_STREAM) w;
          let w = new_priv a fd w;
          if fd = - 1 then sock_drop sys (fd \<noteq> 0) a w
          else do {
            (_, w) \<leftarrow> kw_run (ns_setsockopt sys fd SOL_SOCKET SO_REUSEADDR) w;
            (_, w) \<leftarrow> kw_run (ns_setsockopt sys fd SOL_SOCKET MSG_NOSIGNAL) w;
            (_, w) \<leftarrow> kw_run (ns_setsockopt sys fd IPPROTO_TCP TCP_NODELAY) w;
            w \<leftarrow> nonblock sys fd w;
            if sk_type g = KYLIN_SOCK_SERVER_TCP then do {
              addr \<leftarrow> local_addr (sk_opts g);
              len \<leftarrow> local_len (sk_opts g);
              (ok, w) \<leftarrow> kw_run (ns_bind sys fd addr len) w;
              if \<not> ok then sock_drop sys (fd \<noteq> 0) a w
              else do {
                backlog \<leftarrow> opts_backlog (sk_opts g);
                (ok, w) \<leftarrow> kw_run (ns_listen sys fd backlog) w;
                if \<not> ok then sock_drop sys (fd \<noteq> 0) a w else make_conns sys a (fd \<noteq> 0) w } }
            else Some (a, w) } } })"

definition tcp_destroy :: "'k net_sys \<Rightarrow> kaddr \<Rightarrow> ('k skw, unit) kcall" where
  "tcp_destroy = sock_destroy"

text \<open>A client connects to the address in the place of a server's local address.\<close>

definition sock_connect :: "'k net_sys \<Rightarrow> ksock \<Rightarrow> ('k skw, kerr) kcall" where
  "sock_connect sys g w = do {
     len \<leftarrow> local_len (sk_opts g);
     if len = 0 then Some (KYLIN_ERROR_NOENT, w)
     else if sk_priv g = 0 then Some (KYLIN_ERROR_IO, w)
     else do {
       p \<leftarrow> kw_priv w (sk_priv g);
       if pv_fd p = - 1 then Some (KYLIN_ERROR_IO, w)
       else do {
         addr \<leftarrow> local_addr (sk_opts g);
         kw_run (ns_connect sys (pv_fd p) addr len) w } } }"

definition tcp_connect :: "'k net_sys \<Rightarrow> kaddr \<Rightarrow> ksock \<Rightarrow> ('k skw, kerr) kcall" where
  "tcp_connect sys guard g w = (if sk_type g \<noteq> KYLIN_SOCK_CLIENT_TCP then Some (KYLIN_ERROR_INVAL, w) else sock_connect sys g w)"

definition tcp_accept :: "'k net_sys \<Rightarrow> kaddr \<Rightarrow> ksock \<Rightarrow> ('k skw, kaddr) kcall" where
  "tcp_accept sys guard g w =
     (if sk_priv g = 0 then Some (0, w)
      else do {
        p \<leftarrow> kw_priv w (sk_priv g);
        if pv_fd p = - 1 then Some (0, w)
        else do {
          ((fd, client, len), w) \<leftarrow> kw_run (ns_accept sys (pv_fd p) (ns_len sys)) w;
          if fd = - 1 then Some (0, w)
          else do {
            (_, w) \<leftarrow> kw_run (ns_setsockopt sys fd SOL_SOCKET MSG_NOSIGNAL) w;
            loc \<leftarrow> local_len (sk_opts g);
            if loc = 0 then do { (_, w) \<leftarrow> kw_run (ns_close sys fd) w; Some (0, w) }
            else conn_add sys guard g fd client len 16 w } } })"

definition tcp_recv :: "'k net_sys \<Rightarrow> kaddr \<Rightarrow> ksock \<Rightarrow> 32 word \<Rightarrow> kaddr \<Rightarrow> ksize \<Rightarrow> ('k skw, 64 word \<times> 8 word list) kcall" where
  "tcp_recv sys guard g fd buf len w = do { (n, w) \<leftarrow> kw_run (ns_recv sys fd buf len) w; Some ((n, sk_opts g), w) }"

definition tcp_send :: "'k net_sys \<Rightarrow> kaddr \<Rightarrow> ksock \<Rightarrow> 32 word \<Rightarrow> kaddr \<Rightarrow> ksize \<Rightarrow> ('k skw, 64 word) kcall" where
  "tcp_send sys guard g fd buf len w = kw_run (ns_send sys fd buf len) w"

definition tcp_conn_count :: "kaddr \<Rightarrow> ksock \<Rightarrow> ('k skw, 32 word) kcall" where "tcp_conn_count guard = conn_count"
definition tcp_conn_get_first :: "kaddr \<Rightarrow> ksock \<Rightarrow> ('k skw, kaddr) kcall" where "tcp_conn_get_first guard = conn_get_first"
definition tcp_conn_get_next :: "kaddr \<Rightarrow> ksock \<Rightarrow> kaddr \<Rightarrow> ('k skw, kaddr) kcall" where "tcp_conn_get_next guard = conn_get_next"
definition tcp_conn_destroy :: "'k net_sys \<Rightarrow> kaddr \<Rightarrow> ksock \<Rightarrow> kaddr \<Rightarrow> ('k skw, unit) kcall" where "tcp_conn_destroy sys guard = conn_destroy sys"
definition tcp_get_sockfd :: "kaddr \<Rightarrow> ksock \<Rightarrow> ('k skw, 32 word) kcall" where "tcp_get_sockfd guard = get_sockfd"
definition tcp_init :: "('k skw, kerr) kcall" where "tcp_init w = Some (KYLIN_ERROR_OK, w)"
definition tcp_fini :: "('k skw, unit) kcall" where "tcp_fini w = Some ((), w)"

subsubsection \<open>UDP\<close>

definition udp_create :: "'k net_sys \<Rightarrow> kaddr \<Rightarrow> ksock \<Rightarrow> ('k skw, kaddr) kcall" where
  "udp_create sys guard g w =
     (if sk_type g \<noteq> KYLIN_SOCK_SERVER_UDP \<and> sk_type g \<noteq> KYLIN_SOCK_CLIENT_UDP then Some (0, w)
      else do {
        let a = ns_malloc sys w;
        if a = 0 then Some (0, w)
        else do {
          (fd, w) \<leftarrow> kw_run (ns_socket sys PF_INET SOCK_DGRAM) w;
          let w = new_priv a fd w;
          if fd = - 1 then sock_drop sys False a w
          else do {
            (_, w) \<leftarrow> kw_run (ns_setsockopt sys fd SOL_SOCKET SO_REUSEADDR) w;
            w \<leftarrow> nonblock sys fd w;
            if sk_type g = KYLIN_SOCK_SERVER_UDP then do {
              addr \<leftarrow> local_addr (sk_opts g);
              len \<leftarrow> local_len (sk_opts g);
              (ok, w) \<leftarrow> kw_run (ns_bind sys fd addr len) w;
              if \<not> ok then sock_drop sys True a w else Some (a, w) }
            else Some (a, w) } } })"

definition udp_destroy :: "'k net_sys \<Rightarrow> kaddr \<Rightarrow> ('k skw, unit) kcall" where
  "udp_destroy sys a w =
     (if a = 0 then Some ((), w)
      else do {
        p \<leftarrow> kw_priv w a;
        (_, w) \<leftarrow> (if pv_fd p \<noteq> 0 then kw_run (ns_close sys (pv_fd p)) w else Some ((), w));
        Some ((), w\<lparr>kw_priv := (kw_priv w)(a := None)\<rparr>) })"

text \<open>
  Datagrams: a server receives the address of the sender in the place of a client's remote address and sends to it, a client uses
  the place of a server's local address. \<open>off\<close> is the place: a length of 4 bytes and the address. As documented, \<^verbatim>\<open>recvfrom\<close> stores
  as much of the address as there is room for and its true length, and \<^verbatim>\<open>sendto\<close> reads as many bytes as the length says.
\<close>

definition recv_from :: "'k net_sys \<Rightarrow> nat \<Rightarrow> 8 word list \<Rightarrow> 32 word \<Rightarrow> kaddr \<Rightarrow> ksize \<Rightarrow> ('k skw, 64 word \<times> 8 word list) kcall" where
  "recv_from sys off opts fd buf len w = do {
     room \<leftarrow> opt_int opts off;
     ((n, from), w) \<leftarrow> kw_run (ns_recvfrom sys fd buf len room) w;
     case from of None \<Rightarrow> Some ((n, opts), w)
     | Some addr \<Rightarrow> do {
         opts \<leftarrow> buf_write opts (off + 4) (take (unat room) addr);
         opts \<leftarrow> buf_write opts off (le_bytes 4 (ucast (of_nat (length addr) :: 32 word)));
         Some ((n, opts), w) } }"

definition send_to :: "'k net_sys \<Rightarrow> nat \<Rightarrow> 8 word list \<Rightarrow> 32 word \<Rightarrow> kaddr \<Rightarrow> ksize \<Rightarrow> ('k skw, 64 word) kcall" where
  "send_to sys off opts fd buf len w = do {
     alen \<leftarrow> opt_int opts off;
     kw_run (ns_sendto sys fd buf len (take (unat alen) (drop (off + 4) opts)) alen) w }"

definition udp_recv :: "'k net_sys \<Rightarrow> kaddr \<Rightarrow> ksock \<Rightarrow> 32 word \<Rightarrow> kaddr \<Rightarrow> ksize \<Rightarrow> ('k skw, 64 word \<times> 8 word list) kcall" where
  "udp_recv sys guard g fd buf len w =
     (if sk_type g \<noteq> KYLIN_SOCK_SERVER_UDP \<and> sk_type g \<noteq> KYLIN_SOCK_CLIENT_UDP then Some ((0, sk_opts g), w)
      else if sk_type g = KYLIN_SOCK_SERVER_UDP then recv_from sys 4 (sk_opts g) fd buf len w
      else recv_from sys 8 (sk_opts g) fd buf len w)"

definition udp_send :: "'k net_sys \<Rightarrow> kaddr \<Rightarrow> ksock \<Rightarrow> 32 word \<Rightarrow> kaddr \<Rightarrow> ksize \<Rightarrow> ('k skw, 64 word) kcall" where
  "udp_send sys guard g fd buf len w =
     (if sk_type g \<noteq> KYLIN_SOCK_SERVER_UDP \<and> sk_type g \<noteq> KYLIN_SOCK_CLIENT_UDP then Some (0, w)
      else if sk_type g = KYLIN_SOCK_SERVER_UDP then send_to sys 4 (sk_opts g) fd buf len w
      else send_to sys 8 (sk_opts g) fd buf len w)"

definition udp_get_sockfd :: "kaddr \<Rightarrow> ksock \<Rightarrow> ('k skw, 32 word) kcall" where "udp_get_sockfd guard = get_sockfd"
definition udp_init :: "('k skw, kerr) kcall" where "udp_init w = Some (KYLIN_ERROR_OK, w)"
definition udp_fini :: "('k skw, unit) kcall" where "udp_fini w = Some ((), w)"

subsubsection \<open>Unix sockets\<close>

definition unix_create :: "'k net_sys \<Rightarrow> kaddr \<Rightarrow> ksock \<Rightarrow> ('k skw, kaddr) kcall" where
  "unix_create sys guard g w =
     (if sk_type g \<noteq> KYLIN_SOCK_SERVER_UNIX \<and> sk_type g \<noteq> KYLIN_SOCK_CLIENT_UNIX then Some (0, w)
      else do {
        let a = ns_malloc sys w;
        if a = 0 then Some (0, w)
        else do {
          t \<leftarrow> opts_type (sk_opts g);
          (fd, w) \<leftarrow> kw_run (ns_socket sys PF_LOCAL t) w;
          let w = new_priv a fd w;
          if fd = - 1 then sock_drop sys False a w
          else if sk_type g = KYLIN_SOCK_SERVER_UNIX then do {
            addr \<leftarrow> local_addr (sk_opts g);
            (_, w) \<leftarrow> kw_run (ns_unlink sys (drop 2 addr)) w;
            len \<leftarrow> local_len (sk_opts g);
            (ok, w) \<leftarrow> kw_run (ns_bind sys fd addr len) w;
            if \<not> ok then sock_drop sys True a w
            else do {
              w \<leftarrow> nonblock sys fd w;
              backlog \<leftarrow> opts_backlog (sk_opts g);
              (ok, w) \<leftarrow> kw_run (ns_listen sys fd backlog) w;
              if \<not> ok then sock_drop sys True a w
              else if t = SOCK_STREAM then make_conns sys a True w
              else Some (a, w) } }
          else Some (a, w) } })"

definition unix_destroy :: "'k net_sys \<Rightarrow> kaddr \<Rightarrow> ('k skw, unit) kcall" where
  "unix_destroy = sock_destroy"

definition unix_connect :: "'k net_sys \<Rightarrow> kaddr \<Rightarrow> ksock \<Rightarrow> ('k skw, kerr) kcall" where
  "unix_connect sys guard g w = (if sk_type g \<noteq> KYLIN_SOCK_CLIENT_UNIX then Some (KYLIN_ERROR_INVAL, w) else sock_connect sys g w)"

definition unix_accept :: "'k net_sys \<Rightarrow> kaddr \<Rightarrow> ksock \<Rightarrow> ('k skw, kaddr) kcall" where
  "unix_accept sys guard g w = do {
     t \<leftarrow> opts_type (sk_opts g);
     loc \<leftarrow> local_len (sk_opts g);
     if t \<noteq> SOCK_STREAM \<or> loc = 0 then Some (0, w)
     else if sk_priv g = 0 then Some (0, w)
     else do {
       p \<leftarrow> kw_priv w (sk_priv g);
       if pv_fd p = - 1 then Some (0, w)
       else do {
         ((fd, client, len), w) \<leftarrow> kw_run (ns_accept sys (pv_fd p) (ns_len sys)) w;
         if fd = - 1 then Some (0, w) else conn_add sys guard g fd client len 110 w } } }"

definition unix_recv :: "'k net_sys \<Rightarrow> kaddr \<Rightarrow> ksock \<Rightarrow> 32 word \<Rightarrow> kaddr \<Rightarrow> ksize \<Rightarrow> ('k skw, 64 word \<times> 8 word list) kcall" where
  "unix_recv sys guard g fd buf len w =
     (if sk_type g \<noteq> KYLIN_SOCK_SERVER_UNIX \<and> sk_type g \<noteq> KYLIN_SOCK_CLIENT_UNIX then Some ((0, sk_opts g), w)
      else do {
        t \<leftarrow> opts_type (sk_opts g);
        if t = SOCK_STREAM then do { (n, w) \<leftarrow> kw_run (ns_recv sys fd buf len) w; Some ((n, sk_opts g), w) }
        else if sk_type g = KYLIN_SOCK_SERVER_UNIX then recv_from sys 4 (sk_opts g) fd buf len w
        else recv_from sys 8 (sk_opts g) fd buf len w })"

definition unix_send :: "'k net_sys \<Rightarrow> kaddr \<Rightarrow> ksock \<Rightarrow> 32 word \<Rightarrow> kaddr \<Rightarrow> ksize \<Rightarrow> ('k skw, 64 word) kcall" where
  "unix_send sys guard g fd buf len w =
     (if sk_type g \<noteq> KYLIN_SOCK_SERVER_UNIX \<and> sk_type g \<noteq> KYLIN_SOCK_CLIENT_UNIX then Some (0, w)
      else do {
        t \<leftarrow> opts_type (sk_opts g);
        if t = SOCK_STREAM then kw_run (ns_send sys fd buf len) w
        else if sk_type g = KYLIN_SOCK_SERVER_UNIX then send_to sys 4 (sk_opts g) fd buf len w
        else send_to sys 8 (sk_opts g) fd buf len w })"

definition unix_conn_count :: "kaddr \<Rightarrow> ksock \<Rightarrow> ('k skw, 32 word) kcall" where "unix_conn_count guard = conn_count"
definition unix_conn_get_first :: "kaddr \<Rightarrow> ksock \<Rightarrow> ('k skw, kaddr) kcall" where "unix_conn_get_first guard = conn_get_first"
definition unix_conn_get_next :: "kaddr \<Rightarrow> ksock \<Rightarrow> kaddr \<Rightarrow> ('k skw, kaddr) kcall" where "unix_conn_get_next guard = conn_get_next"
definition unix_conn_destroy :: "'k net_sys \<Rightarrow> kaddr \<Rightarrow> ksock \<Rightarrow> kaddr \<Rightarrow> ('k skw, unit) kcall" where "unix_conn_destroy sys guard = conn_destroy sys"
definition unix_get_sockfd :: "kaddr \<Rightarrow> ksock \<Rightarrow> ('k skw, 32 word) kcall" where "unix_get_sockfd guard = get_sockfd"
definition unix_init :: "('k skw, kerr) kcall" where "unix_init w = Some (KYLIN_ERROR_OK, w)"
definition unix_fini :: "('k skw, unit) kcall" where "unix_fini w = Some ((), w)"

subsubsection \<open>The table\<close>

definition tcp_server :: "'k net_sys \<Rightarrow> 'k skw ksock_reg" where
  "tcp_server sys = \<lparr>sr_create = Some (tcp_create sys), sr_destroy = Some (tcp_destroy sys), sr_connect = None, sr_accept = Some (tcp_accept sys),
     sr_recv = Some (tcp_recv sys), sr_send = Some (tcp_send sys), sr_conn_count = Some tcp_conn_count, sr_conn_get_first = Some tcp_conn_get_first,
     sr_conn_get_next = Some tcp_conn_get_next, sr_conn_destroy = Some (tcp_conn_destroy sys), sr_get_sockfd = Some tcp_get_sockfd,
     sr_init = Some tcp_init, sr_fini = Some tcp_fini\<rparr>"

definition tcp_client :: "'k net_sys \<Rightarrow> 'k skw ksock_reg" where
  "tcp_client sys = \<lparr>sr_create = Some (tcp_create sys), sr_destroy = Some (tcp_destroy sys), sr_connect = Some (tcp_connect sys), sr_accept = None,
     sr_recv = Some (tcp_recv sys), sr_send = Some (tcp_send sys), sr_conn_count = None, sr_conn_get_first = None,
     sr_conn_get_next = None, sr_conn_destroy = None, sr_get_sockfd = Some tcp_get_sockfd, sr_init = Some tcp_init, sr_fini = Some tcp_fini\<rparr>"

definition udp_both :: "'k net_sys \<Rightarrow> 'k skw ksock_reg" where
  "udp_both sys = \<lparr>sr_create = Some (udp_create sys), sr_destroy = Some (udp_destroy sys), sr_connect = None, sr_accept = None,
     sr_recv = Some (udp_recv sys), sr_send = Some (udp_send sys), sr_conn_count = None, sr_conn_get_first = None,
     sr_conn_get_next = None, sr_conn_destroy = None, sr_get_sockfd = Some udp_get_sockfd, sr_init = Some udp_init, sr_fini = Some udp_fini\<rparr>"

definition unix_server :: "'k net_sys \<Rightarrow> 'k skw ksock_reg" where
  "unix_server sys = \<lparr>sr_create = Some (unix_create sys), sr_destroy = Some (unix_destroy sys), sr_connect = None, sr_accept = Some (unix_accept sys),
     sr_recv = Some (unix_recv sys), sr_send = Some (unix_send sys), sr_conn_count = Some unix_conn_count, sr_conn_get_first = Some unix_conn_get_first,
     sr_conn_get_next = Some unix_conn_get_next, sr_conn_destroy = Some (unix_conn_destroy sys), sr_get_sockfd = Some unix_get_sockfd,
     sr_init = Some unix_init, sr_fini = Some unix_fini\<rparr>"

definition unix_client :: "'k net_sys \<Rightarrow> 'k skw ksock_reg" where
  "unix_client sys = \<lparr>sr_create = Some (unix_create sys), sr_destroy = Some (unix_destroy sys), sr_connect = Some (unix_connect sys), sr_accept = None,
     sr_recv = Some (unix_recv sys), sr_send = Some (unix_send sys), sr_conn_count = None, sr_conn_get_first = None,
     sr_conn_get_next = None, sr_conn_destroy = None, sr_get_sockfd = Some unix_get_sockfd, sr_init = Some unix_init, sr_fini = Some unix_fini\<rparr>"

definition builtin_types :: "'k net_sys \<Rightarrow> 'k skw ksock_plugin list" where
  "builtin_types sys = splugin [tcp_server sys, udp_both sys, unix_server sys] [tcp_client sys, udp_both sys, unix_client sys]"

subsection \<open>Creating and destroying\<close>

text \<open>
  What is documented of descriptors: \<^verbatim>\<open>socket\<close> opens one that was not open or answers -1, \<^verbatim>\<open>close\<close> closes the one it is given and
  returns, and the other calls open and close none. \<open>opened\<close> are the open descriptors of the state of the system.
\<close>

definition keeps :: "('k \<Rightarrow> 32 word set) \<Rightarrow> ('k, 'r) kcall \<Rightarrow> bool" where
  "keeps opened f \<longleftrightarrow> (\<forall>k r k'. f k = Some (r, k') \<longrightarrow> opened k' = opened k)"

definition opens :: "('k \<Rightarrow> 32 word set) \<Rightarrow> ('k, 32 word) kcall \<Rightarrow> bool" where
  "opens opened f \<longleftrightarrow> (\<forall>k fd k'. f k = Some (fd, k') \<longrightarrow>
     (if fd = - 1 then opened k' = opened k else fd \<notin> opened k \<and> opened k' = insert fd (opened k)))"

definition closes :: "('k \<Rightarrow> 32 word set) \<Rightarrow> 32 word \<Rightarrow> ('k, unit) kcall \<Rightarrow> bool" where
  "closes opened fd f \<longleftrightarrow> (\<forall>k. \<exists>k'. f k = Some ((), k') \<and> opened k' = opened k - {fd})"

definition fd_kernel :: "'k net_sys \<Rightarrow> ('k \<Rightarrow> 32 word set) \<Rightarrow> bool" where
  "fd_kernel sys opened \<longleftrightarrow> (\<forall>k. - 1 \<notin> opened k) \<and> (\<forall>d t. opens opened (ns_socket sys d t)) \<and> (\<forall>fd. closes opened fd (ns_close sys fd))
     \<and> (\<forall>fd l x. keeps opened (ns_setsockopt sys fd l x)) \<and> (\<forall>fd. keeps opened (ns_getfl sys fd)) \<and> (\<forall>fd fl. keeps opened (ns_setfl sys fd fl))
     \<and> (\<forall>s. keeps opened (ns_unlink sys s)) \<and> (\<forall>fd a n. keeps opened (ns_bind sys fd a n)) \<and> (\<forall>fd n. keeps opened (ns_listen sys fd n))"

lemma fd_kernelD:
  assumes "fd_kernel sys opened"
  shows "- 1 \<notin> opened k" "opens opened (ns_socket sys d t)" "closes opened fd (ns_close sys fd)"
    "keeps opened (ns_setsockopt sys fd l x)" "keeps opened (ns_getfl sys fd)" "keeps opened (ns_setfl sys fd fl)" "keeps opened (ns_unlink sys s)"
    "keeps opened (ns_bind sys fd a n)" "keeps opened (ns_listen sys fd m)"
  using assms by (simp_all add: fd_kernel_def)

text \<open>A state in which a structure with a new descriptor has been made, and one in which nothing is left of it.\<close>

definition made :: "('k \<Rightarrow> 32 word set) \<Rightarrow> 'k skw \<Rightarrow> kaddr \<Rightarrow> sock_priv \<Rightarrow> 'k skw \<Rightarrow> bool" where
  "made opened w a p w' \<longleftrightarrow> kw_priv w a = None \<and> kw_priv w' = (kw_priv w)(a \<mapsto> p) \<and> kw_conn w' = kw_conn w \<and> kw_heap w' = kw_heap w
     \<and> pv_fd p \<noteq> - 1 \<and> pv_fd p \<notin> opened (kw_kern w) \<and> opened (kw_kern w') = insert (pv_fd p) (opened (kw_kern w))"

definition unmade :: "('k \<Rightarrow> 32 word set) \<Rightarrow> 'k skw \<Rightarrow> 'k skw \<Rightarrow> bool" where
  "unmade opened w w' \<longleftrightarrow> kw_priv w' = kw_priv w \<and> kw_conn w' = kw_conn w \<and> kw_heap w' = kw_heap w \<and> opened (kw_kern w') = opened (kw_kern w)"

text \<open>The result of a creation: the structure with its descriptor, with a list of connections when it has to have one, or nothing.\<close>

definition created :: "('k \<Rightarrow> 32 word set) \<Rightarrow> bool \<Rightarrow> 'k skw \<Rightarrow> kaddr \<Rightarrow> 'k skw \<Rightarrow> bool" where
  "created opened conns w a w' \<longleftrightarrow> (if a = 0 then unmade opened w w'
     else \<exists>p. made opened w a p w' \<and> (case pv_conns p of None \<Rightarrow> \<not> conns | Some l \<Rightarrow> conns \<and> obj_list (kw_heap w') l []))"

lemma made_run:
  assumes "kw_run f w1 = Some (r, w2)" "made opened w a p w1" "keeps opened f"
  shows "made opened w a p w2"
  using assms by (auto simp: kw_run_def keeps_def made_def)

lemma made_nonblock:
  assumes "nonblock sys fd w1 = Some w2" "made opened w a p w1" "fd_kernel sys opened"
  shows "made opened w a p w2"
  using assms(1,2) fd_kernelD(5,6) [OF assms(3)] by (auto simp: nonblock_def bind_eq_Some_conv dest!: made_run)

lemma made_socket:
  assumes "kw_run (ns_socket sys d t) w = Some (fd, w1)" "fd_kernel sys opened" "kw_priv w a = None"
  shows "if fd = - 1 then unmade opened w w1 \<and> kw_priv (new_priv a fd w1) a = Some \<lparr>pv_fd = fd, pv_conns = None\<rparr>
    else made opened w a \<lparr>pv_fd = fd, pv_conns = None\<rparr> (new_priv a fd w1)"
  using assms(1,3) fd_kernelD(2) [OF assms(2), of d t]
  by (auto simp: kw_run_def opens_def made_def unmade_def new_priv_def)

lemma made_drop:
  assumes "made opened w a p w1" "fd_kernel sys opened" "sock_drop sys True a w1 = Some (r, w2)"
  shows "r = 0 \<and> unmade opened w w2"
proof -
  obtain k where k: "ns_close sys (pv_fd p) (kw_kern w1) = Some ((), k)" "opened k = opened (kw_kern w1) - {pv_fd p}"
    using fd_kernelD(3) [OF assms(2), of "pv_fd p"] by (auto simp: closes_def)
  then show ?thesis using assms(1,3) by (auto simp: made_def sock_drop_def kw_run_def unmade_def)
qed

lemma socket_drop:
  assumes "kw_run (ns_socket sys d t) w = Some (- 1, w1)" "fd_kernel sys opened" "kw_priv w a = None" "sock_drop sys shut a (new_priv a (- 1) w1) = Some (r, w2)"
  shows "r = 0 \<and> unmade opened w w2"
proof -
  obtain k where k: "ns_close sys (- 1) (kw_kern w1) = Some ((), k)" "opened k = opened (kw_kern w1) - {- 1}"
    using fd_kernelD(3) [OF assms(2), of "- 1"] by (auto simp: closes_def)
  have "unmade opened w w1" using made_socket [OF assms(1-3)] by simp
  then show ?thesis using assms(3,4) k fd_kernelD(1) [OF assms(2)]
    by (auto simp: unmade_def sock_drop_def kw_run_def new_priv_def split: if_splits)
qed

lemma made_conns:
  assumes "made opened w a \<lparr>pv_fd = fd, pv_conns = None\<rparr> w1" "fd_kernel sys opened" "make_conns sys a True w1 = Some (r, w2)" "a \<noteq> 0"
  shows "created opened True w r w2"
proof (cases "kylin_list_create (ns_list sys w1) (obj_opts (conn_match (kw_conn w1)) sizeof_ksock_conn)")
  case None
  then show ?thesis using made_drop [OF assms(1,2)] assms(3) by (simp add: make_conns_def created_def)
next
  case (Some l)
  then have "ns_list sys w1" by (auto simp: kylin_list_create_def split: if_splits)
  then have "obj_list (kw_heap w1) l []" using Some obj_list_create by fastforce
  then show ?thesis using assms Some
    by (auto simp: make_conns_def created_def made_def intro!: exI [of _ "\<lparr>pv_fd = fd, pv_conns = Some l\<rparr>"])
qed

lemma made_created: "made opened w a p w' \<Longrightarrow> a \<noteq> 0 \<Longrightarrow> pv_conns p = None \<Longrightarrow> created opened False w a w'"
  by (auto simp: created_def)

lemma unmade_created: "unmade opened w w' \<Longrightarrow> created opened c w 0 w'"
  by (simp add: created_def)

lemma unmade_refl: "unmade opened w w"
  by (simp add: unmade_def)

lemma listen_created:
  assumes "made opened w a \<lparr>pv_fd = fd, pv_conns = None\<rparr> w1" "fd_kernel sys opened" "a \<noteq> 0"
    and "do { backlog \<leftarrow> opts_backlog opts; (ok, w) \<leftarrow> kw_run (ns_listen sys fd backlog) w1;
         if \<not> ok then sock_drop sys True a w else if c then make_conns sys a True w else Some (a, w) } = Some (r, w')"
  shows "created opened c w r w'"
proof -
  obtain n ok w2 where l: "kw_run (ns_listen sys fd n) w1 = Some (ok, w2)"
      "(if \<not> ok then sock_drop sys True a w2 else if c then make_conns sys a True w2 else Some (a, w2)) = Some (r, w')"
    using assms(4) by (auto simp: bind_eq_Some_conv)
  have m: "made opened w a \<lparr>pv_fd = fd, pv_conns = None\<rparr> w2" using made_run [OF l(1) assms(1) fd_kernelD(9) [OF assms(2)]] .
  show ?thesis
  proof (cases "\<not> ok")
    case True
    then show ?thesis using l(2) made_drop [OF m assms(2)] by (auto intro: unmade_created)
  next
    case False
    then show ?thesis using l(2) made_conns [OF m assms(2)] made_created [OF m assms(3)] assms(3) by (auto split: if_splits)
  qed
qed

lemma tcp_create_created:
  assumes k: "fd_kernel sys opened" and z: "0 \<in> opened (kw_kern w)" and f: "kw_priv w (ns_malloc sys w) = None"
    and r: "tcp_create sys guard g w = Some (a, w')" and t: "sk_type g = KYLIN_SOCK_SERVER_TCP \<or> sk_type g = KYLIN_SOCK_CLIENT_TCP"
  shows "created opened (sk_type g = KYLIN_SOCK_SERVER_TCP) w a w'"
proof (cases "ns_malloc sys w = 0")
  case True
  then show ?thesis using r t by (auto simp: tcp_create_def created_def unmade_def)
next
  case nz: False
  let ?a = "ns_malloc sys w"
  obtain fd w1 where s: "kw_run (ns_socket sys PF_INET SOCK_STREAM) w = Some (fd, w1)"
    using r t nz by (auto simp: tcp_create_def Let_def bind_eq_Some_conv)
  show ?thesis
  proof (cases "fd = - 1")
    case True
    then have "sock_drop sys True ?a (new_priv ?a (- 1) w1) = Some (a, w')" using r t nz s by (auto simp: tcp_create_def Let_def)
    then show ?thesis using socket_drop [OF s [unfolded True] k f] by (auto intro: unmade_created)
  next
    case False
    let ?p = "\<lparr>pv_fd = fd, pv_conns = None\<rparr>"
    have m: "made opened w ?a ?p (new_priv ?a fd w1)" using made_socket [OF s k f] False by simp
    then have "fd \<noteq> 0" using z by (auto simp: made_def)
    then obtain w2 w3 w4 w5 u where c: "kw_run (ns_setsockopt sys fd SOL_SOCKET SO_REUSEADDR) (new_priv ?a fd w1) = Some (u, w2)"
        "kw_run (ns_setsockopt sys fd SOL_SOCKET MSG_NOSIGNAL) w2 = Some (u, w3)" "kw_run (ns_setsockopt sys fd IPPROTO_TCP TCP_NODELAY) w3 = Some (u, w4)"
        "nonblock sys fd w4 = Some w5"
      using r t nz s False by (auto simp: tcp_create_def Let_def bind_eq_Some_conv)
    note run = made_run [OF _ _ fd_kernelD(4) [OF k]]
    have w5: "made opened w ?a ?p w5" using made_nonblock [OF c(4) run [OF c(3) run [OF c(2) run [OF c(1) m]]] k] .
    show ?thesis
    proof (cases "sk_type g = KYLIN_SOCK_SERVER_TCP")
      case True
      obtain addr len ok w6 where b: "kw_run (ns_bind sys fd addr len) w5 = Some (ok, w6)"
        "(if \<not> ok then sock_drop sys True ?a w6
          else do { backlog \<leftarrow> opts_backlog (sk_opts g); (ok, w) \<leftarrow> kw_run (ns_listen sys fd backlog) w6;
            if \<not> ok then sock_drop sys True ?a w else if True then make_conns sys ?a True w else Some (?a, w) }) = Some (a, w')"
        using r nz s False c \<open>fd \<noteq> 0\<close> True by (auto simp: tcp_create_def Let_def bind_eq_Some_conv cong: if_cong)
      have w6: "made opened w ?a ?p w6" using made_run [OF b(1) w5 fd_kernelD(8) [OF k]] .
      show ?thesis
      proof (cases ok)
        case False
        then show ?thesis using b(2) made_drop [OF w6 k] by (auto intro: unmade_created)
      next
        case ok: True
        then show ?thesis using b(2) listen_created [OF w6 k nz, of "sk_opts g" True] True by simp
      qed
    next
      case client: False
      then have "a = ?a \<and> w' = w5" using r t nz s False c by (auto simp: tcp_create_def Let_def bind_eq_Some_conv)
      then show ?thesis using client made_created [OF w5] nz by auto
    qed
  qed
qed

lemma udp_create_created:
  assumes k: "fd_kernel sys opened" and f: "kw_priv w (ns_malloc sys w) = None"
    and r: "udp_create sys guard g w = Some (a, w')" and t: "sk_type g = KYLIN_SOCK_SERVER_UDP \<or> sk_type g = KYLIN_SOCK_CLIENT_UDP"
  shows "created opened False w a w'"
proof (cases "ns_malloc sys w = 0")
  case True
  then show ?thesis using r t by (auto simp: udp_create_def created_def unmade_def)
next
  case nz: False
  let ?a = "ns_malloc sys w"
  obtain fd w1 where s: "kw_run (ns_socket sys PF_INET SOCK_DGRAM) w = Some (fd, w1)"
    using r t nz by (auto simp: udp_create_def Let_def bind_eq_Some_conv)
  show ?thesis
  proof (cases "fd = - 1")
    case True
    then have "sock_drop sys False ?a (new_priv ?a (- 1) w1) = Some (a, w')" using r t nz s by (auto simp: udp_create_def Let_def)
    then show ?thesis using socket_drop [OF s [unfolded True] k f] by (auto intro: unmade_created)
  next
    case False
    let ?p = "\<lparr>pv_fd = fd, pv_conns = None\<rparr>"
    have m: "made opened w ?a ?p (new_priv ?a fd w1)" using made_socket [OF s k f] False by simp
    obtain w2 w3 u where c: "kw_run (ns_setsockopt sys fd SOL_SOCKET SO_REUSEADDR) (new_priv ?a fd w1) = Some (u, w2)" "nonblock sys fd w2 = Some w3"
      using r t nz s False by (auto simp: udp_create_def Let_def bind_eq_Some_conv)
    have w3: "made opened w ?a ?p w3" using made_nonblock [OF c(2) made_run [OF c(1) m fd_kernelD(4) [OF k]] k] .
    show ?thesis
    proof (cases "sk_type g = KYLIN_SOCK_SERVER_UDP")
      case True
      obtain addr len ok w4 where b: "kw_run (ns_bind sys fd addr len) w3 = Some (ok, w4)" "(if \<not> ok then sock_drop sys True ?a w4 else Some (?a, w4)) = Some (a, w')"
        using r nz s False c True by (auto simp: udp_create_def Let_def bind_eq_Some_conv cong: if_cong)
      have w4: "made opened w ?a ?p w4" using made_run [OF b(1) w3 fd_kernelD(8) [OF k]] .
      show ?thesis using b(2) made_drop [OF w4 k] made_created [OF w4 nz] by (cases ok) (auto intro: unmade_created)
    next
      case client: False
      then have "a = ?a \<and> w' = w3" using r t nz s False c by (auto simp: udp_create_def Let_def bind_eq_Some_conv)
      then show ?thesis using made_created [OF w3 nz] by auto
    qed
  qed
qed

lemma unix_create_created:
  assumes k: "fd_kernel sys opened" and f: "kw_priv w (ns_malloc sys w) = None"
    and r: "unix_create sys guard g w = Some (a, w')" and t: "sk_type g = KYLIN_SOCK_SERVER_UNIX \<or> sk_type g = KYLIN_SOCK_CLIENT_UNIX"
  shows "created opened (sk_type g = KYLIN_SOCK_SERVER_UNIX \<and> opts_type (sk_opts g) = Some SOCK_STREAM) w a w'"
proof (cases "ns_malloc sys w = 0")
  case True
  then show ?thesis using r t by (auto simp: unix_create_def created_def unmade_def)
next
  case nz: False
  let ?a = "ns_malloc sys w"
  obtain ty fd w1 where ty: "opts_type (sk_opts g) = Some ty" and s: "kw_run (ns_socket sys PF_LOCAL ty) w = Some (fd, w1)"
    using r t nz by (auto simp: unix_create_def Let_def bind_eq_Some_conv)
  show ?thesis
  proof (cases "fd = - 1")
    case True
    then have "sock_drop sys False ?a (new_priv ?a (- 1) w1) = Some (a, w')" using r t nz s ty by (auto simp: unix_create_def Let_def)
    then show ?thesis using socket_drop [OF s [unfolded True] k f] by (auto intro: unmade_created)
  next
    case fd: False
    let ?p = "\<lparr>pv_fd = fd, pv_conns = None\<rparr>"
    have m: "made opened w ?a ?p (new_priv ?a fd w1)" using made_socket [OF s k f] fd by simp
    show ?thesis
    proof (cases "sk_type g = KYLIN_SOCK_SERVER_UNIX")
      case True
      obtain addr len u ok w2 w3 where b: "kw_run (ns_unlink sys (drop 2 addr)) (new_priv ?a fd w1) = Some (u, w2)" "kw_run (ns_bind sys fd addr len) w2 = Some (ok, w3)"
        "(if \<not> ok then sock_drop sys True ?a w3 else do { w3 \<leftarrow> nonblock sys fd w3;
           do { backlog \<leftarrow> opts_backlog (sk_opts g); (ok, w) \<leftarrow> kw_run (ns_listen sys fd backlog) w3;
             if \<not> ok then sock_drop sys True ?a w else if ty = SOCK_STREAM then make_conns sys ?a True w else Some (?a, w) } }) = Some (a, w')"
        using r nz s fd ty True by (auto simp: unix_create_def Let_def bind_eq_Some_conv cong: if_cong)
      have w3: "made opened w ?a ?p w3" using made_run [OF b(2) made_run [OF b(1) m fd_kernelD(7) [OF k]] fd_kernelD(8) [OF k]] .
      show ?thesis
      proof (cases ok)
        case False
        then show ?thesis using b(3) made_drop [OF w3 k] by (auto intro: unmade_created)
      next
        case ok: True
        then obtain w4 where "nonblock sys fd w3 = Some w4" and w4: "do { backlog \<leftarrow> opts_backlog (sk_opts g); (ok, w) \<leftarrow> kw_run (ns_listen sys fd backlog) w4;
             if \<not> ok then sock_drop sys True ?a w else if ty = SOCK_STREAM then make_conns sys ?a True w else Some (?a, w) } = Some (a, w')"
          using b(3) by (auto simp: bind_eq_Some_conv)
        then show ?thesis using listen_created [OF made_nonblock [OF _ w3 k] k nz w4] ty True by simp
      qed
    next
      case False
      then have "a = ?a \<and> w' = new_priv ?a fd w1" using r t nz s fd ty by (auto simp: unix_create_def Let_def)
      then show ?thesis using made_created [OF m nz] False by auto
    qed
  qed
qed

lemma sock_destroy_created:
  assumes "fd_kernel sys opened" "0 \<in> opened (kw_kern w)" "created opened c w a w'" "a \<noteq> 0"
  shows "\<exists>w''. sock_destroy sys a w' = Some ((), w'') \<and> unmade opened w w''"
proof -
  obtain p where p: "made opened w a p w'" "case pv_conns p of None \<Rightarrow> True | Some l \<Rightarrow> obj_list (kw_heap w') l []"
    using assms(3,4) by (auto simp: created_def split: option.splits)
  have fd: "pv_fd p \<noteq> 0" using assms(2) p(1) by (auto simp: made_def)
  obtain k where k: "ns_close sys (pv_fd p) (kw_kern w') = Some ((), k)" "opened k = opened (kw_kern w') - {pv_fd p}"
    using fd_kernelD(3) [OF assms(1), of "pv_fd p"] by (auto simp: closes_def)
  have d: "kylin_list_destroy h (conn_list v l) = Some ([], h)" if "obj_list h l []" for h l and v :: "'a skw"
    using that by (auto simp: obj_list_def list_vals_def kylin_list_destroy_def kylin_list_clear.simps conn_list_def dlist_def)
  show ?thesis
  proof (cases "pv_conns p")
    case None
    then show ?thesis using p(1) fd k assms(4) by (auto simp: sock_destroy_def made_def unmade_def kw_run_def)
  next
    case (Some l)
    then show ?thesis using p fd k assms(4) d by (auto simp: sock_destroy_def made_def unmade_def kw_run_def)
  qed
qed

lemma udp_destroy_created:
  assumes "fd_kernel sys opened" "0 \<in> opened (kw_kern w)" "created opened False w a w'" "a \<noteq> 0"
  shows "\<exists>w''. udp_destroy sys a w' = Some ((), w'') \<and> unmade opened w w''"
proof -
  have "udp_destroy sys a w' = sock_destroy sys a w'"
    using assms(3,4) by (auto simp: created_def made_def udp_destroy_def sock_destroy_def split: option.splits)
  then show ?thesis using sock_destroy_created [OF assms] by simp
qed

lemma builtin_type:
  assumes "t < KYLIN_SOCK_MAX" "sr_create (pl_reg (builtin_types sys ! t)) = Some f"
  shows "t \<in> {KYLIN_SOCK_SERVER_TCP, KYLIN_SOCK_SERVER_UDP, KYLIN_SOCK_SERVER_UNIX, KYLIN_SOCK_CLIENT_TCP, KYLIN_SOCK_CLIENT_UDP, KYLIN_SOCK_CLIENT_UNIX}"
proof (rule ccontr)
  assume n: "\<not> ?thesis"
  then consider "t - 3 < 13" "t \<ge> 3" | "t - 19 < 13" "t \<ge> 19" using assms(1) by (simp, arith)
  then have "sr_create (pl_reg (builtin_types sys ! t)) = None"
  proof cases
    case 1
    then show ?thesis by (auto simp: builtin_types_def splugin_def nth_append nth_Cons' free_plugin_def null_reg_def numeral_3_eq_3)
  next
    case 2
    then show ?thesis by (simp add: builtin_types_def splugin_def nth_append nth_Cons' free_plugin_def null_reg_def)
  qed
  then show False using assms(2) by simp
qed

lemma builtin_entry:
  "builtin_types sys ! KYLIN_SOCK_SERVER_TCP = free_plugin (tcp_server sys) KYLIN_SOCK_SERVER_TCP"
  "builtin_types sys ! KYLIN_SOCK_SERVER_UDP = free_plugin (udp_both sys) KYLIN_SOCK_SERVER_UDP"
  "builtin_types sys ! KYLIN_SOCK_SERVER_UNIX = free_plugin (unix_server sys) KYLIN_SOCK_SERVER_UNIX"
  "builtin_types sys ! KYLIN_SOCK_CLIENT_TCP = free_plugin (tcp_client sys) KYLIN_SOCK_CLIENT_TCP"
  "builtin_types sys ! KYLIN_SOCK_CLIENT_UDP = free_plugin (udp_both sys) KYLIN_SOCK_CLIENT_UDP"
  "builtin_types sys ! KYLIN_SOCK_CLIENT_UNIX = free_plugin (unix_client sys) KYLIN_SOCK_CLIENT_UNIX"
  by (simp_all add: builtin_types_def splugin_def nth_append nth_Cons')

text \<open>
  C10. A socket of a built-in type is created completely or not at all: with the descriptors of the system as documented and descriptor 0 in use,
  a creation that fails leaves no structure and no open descriptor behind; one that succeeds leaves one structure with one new descriptor,
  and a list of connections exactly for a stream server. Destroying the new socket gives back all of it.
\<close>

theorem builtin_sockets_clean:
  assumes "fd_kernel sys opened" "0 \<in> opened (kw_kern w)" "kw_priv w (ns_malloc sys w) = None"
    and "sk_type g < KYLIN_SOCK_MAX"
    and "sr_create (pl_reg (builtin_types sys ! sk_type g)) = Some create" "sr_destroy (pl_reg (builtin_types sys ! sk_type g)) = Some destroy"
    and "create guard g w = Some (a, w')"
  shows "created opened (sk_type g = KYLIN_SOCK_SERVER_TCP \<or> sk_type g = KYLIN_SOCK_SERVER_UNIX \<and> opts_type (sk_opts g) = Some SOCK_STREAM) w a w'
    \<and> (a \<noteq> 0 \<longrightarrow> (\<exists>w''. destroy a w' = Some ((), w'') \<and> unmade opened w w''))"
proof -
  note d = sock_destroy_created [OF assms(1,2)] udp_destroy_created [OF assms(1,2)]
  note reg = free_plugin_def tcp_server_def tcp_client_def udp_both_def unix_server_def unix_client_def tcp_destroy_def unix_destroy_def
  consider "sk_type g = KYLIN_SOCK_SERVER_TCP \<or> sk_type g = KYLIN_SOCK_CLIENT_TCP" | "sk_type g = KYLIN_SOCK_SERVER_UDP \<or> sk_type g = KYLIN_SOCK_CLIENT_UDP"
    | "sk_type g = KYLIN_SOCK_SERVER_UNIX \<or> sk_type g = KYLIN_SOCK_CLIENT_UNIX"
    using builtin_type [OF assms(4,5)] by auto
  then show ?thesis
  proof cases
    case 1
    then have "create = tcp_create sys" "destroy = sock_destroy sys" using assms(5,6) builtin_entry(1,4) [of sys] by (auto simp: reg)
    moreover from this have "created opened (sk_type g = KYLIN_SOCK_SERVER_TCP) w a w'" using tcp_create_created [OF assms(1-3) _ 1] assms(7) 1 by auto
    ultimately show ?thesis using d(1) 1 by fastforce
  next
    case 2
    then have "create = udp_create sys" "destroy = udp_destroy sys" using assms(5,6) builtin_entry(2,5) [of sys] by (auto simp: reg)
    moreover from this have "created opened False w a w'" using udp_create_created [OF assms(1,3) _ 2] assms(7) 2 by auto
    ultimately show ?thesis using d(2) 2 by fastforce
  next
    case 3
    then have "create = unix_create sys" "destroy = sock_destroy sys" using assms(5,6) builtin_entry(3,6) [of sys] by (auto simp: reg)
    moreover from this have "created opened (sk_type g = KYLIN_SOCK_SERVER_UNIX \<and> opts_type (sk_opts g) = Some SOCK_STREAM) w a w'" using unix_create_created [OF assms(1,3) _ 3] assms(7) 3 by auto
    ultimately show ?thesis using d(1) 3 by fastforce
  qed
qed

text \<open>A system with two descriptors, 0 and at most one more, and the options of a TCP server.\<close>

definition demo_net :: "32 word set net_sys" where
  "demo_net = \<lparr>ns_socket = \<lambda>d t k. Some (if 3 \<in> k then (- 1, k) else (3, insert 3 k)), ns_setsockopt = \<lambda>fd l x k. Some ((), k), ns_getfl = \<lambda>fd k. Some (0, k),
     ns_setfl = \<lambda>fd fl k. Some ((), k), ns_unlink = \<lambda>s k. Some ((), k), ns_bind = \<lambda>fd a n k. Some (True, k), ns_listen = \<lambda>fd n k. Some (True, k),
     ns_connect = \<lambda>fd a n k. Some (0, k), ns_accept = \<lambda>fd n k. Some ((4, replicate 16 7, 16), insert 4 k), ns_close = \<lambda>fd k. Some ((), k - {fd}),
     ns_recv = \<lambda>fd b n k. Some (0, k), ns_send = \<lambda>fd b n k. Some (0, k), ns_recvfrom = \<lambda>fd b n l k. Some ((1, Some (replicate 16 7)), k),
     ns_sendto = \<lambda>fd b n a l k. Some (0, k), ns_malloc = \<lambda>w. if kw_priv w 256 = None then 256 else 512, ns_list = \<lambda>_. True, ns_node = \<lambda>_. 1024, ns_len = 0\<rparr>"

definition demo_skw :: "32 word set skw" where
  "demo_skw = \<lparr>kw_priv = Map.empty, kw_conn = Map.empty, kw_heap = Map.empty, kw_kern = {0}\<rparr>"

definition demo_server :: "nat \<Rightarrow> ksock" where
  "demo_server t = \<lparr>sk_id = 1, sk_type = t, sk_opts = [1, 0, 0, 0, 20, 0, 0, 0, 16, 0, 0, 0] @ replicate 112 0, sk_priv = 0\<rparr>"

lemma demo_fd_kernel: "fd_kernel demo_net (\<lambda>k. k - {- 1})"
  by (auto simp: fd_kernel_def opens_def closes_def keeps_def demo_net_def)

theorem builtin_sockets_clean_witness:
  "created (\<lambda>k. k - {- 1}) True demo_skw 256 (the (map_option snd (tcp_create demo_net 64 (demo_server 0) demo_skw)))"
proof -
  obtain w' where w': "tcp_create demo_net 64 (demo_server 0) demo_skw = Some (256, w')"
    by (simp add: tcp_create_def demo_server_def demo_net_def demo_skw_def kw_run_def new_priv_def nonblock_def local_addr_def local_len_def opts_backlog_def
        opt_int_def buf_read_def make_conns_def kylin_list_create_def)
  then show ?thesis using builtin_sockets_clean [OF demo_fd_kernel, of demo_skw "demo_server 0" "tcp_create demo_net" "tcp_destroy demo_net" 64 256 w']
      builtin_entry(1) [of demo_net]
    by (simp add: demo_server_def free_plugin_def tcp_server_def demo_skw_def demo_net_def)
qed

subsection \<open>Accepting\<close>

lemma obj_insert_head_first: "kylin_list_insert_head m h g node v = Some (r, m', h', g') \<Longrightarrow> node \<noteq> 0 \<Longrightarrow> list_head g' = node"
  by (auto simp: kylin_list_insert_head_def list_new_def kylin_list_insert_head_raw_def Let_def bind_eq_Some_conv split: if_splits)

lemma conn_add_listed:
  assumes "kw_priv w (sk_priv g) = Some p" "pv_conns p = Some l" "obj_list (kw_heap w) l vs" "length (sk_opts g) = 124" "n \<le> length client"
    and "ns_malloc sys w = c" "c \<noteq> 0" "kw_conn w c = None"
    and "\<And>x. ns_node sys (w\<lparr>kw_conn := (kw_conn w)(c \<mapsto> x)\<rparr>) = node" "node \<noteq> 0" "kw_heap w node = None"
    and "ns_close sys fd (kw_kern w) = Some ((), k)"
  shows "\<exists>h l'. conn_add sys guard g fd client len n w = Some (0, w\<lparr>kw_heap := h, kw_priv := (kw_priv w)(sk_priv g \<mapsto> p\<lparr>pv_conns := Some l'\<rparr>), kw_kern := k\<rparr>)
    \<and> obj_list h l' (c # vs) \<and> list_head l' = node"
proof -
  let ?conn = "\<lparr>cn_fd = fd, cn_sock = guard, cn_server = take 116 (drop 8 (sk_opts g)), cn_client = le_bytes 4 (ucast len) @ take n client @ replicate (112 - n) 0\<rparr>"
  let ?w = "w\<lparr>kw_conn := (kw_conn w)(c \<mapsto> ?conn)\<rparr>"
  have "obj_list (kw_heap w) (conn_list ?w l) vs" "obj_guard (conn_list ?w l)" using assms(3) by (auto simp: conn_list_def)
  then obtain h l' where i: "kylin_list_insert_head Map.empty (kw_heap w) (conn_list ?w l) node c = Some (Some (Obj c), Map.empty, h, l')" "obj_list h l' (c # vs)"
    using obj_list_insert_head assms(10,11) by blast
  have r: "(kw_conn w)(c := None) = kw_conn w" using assms(8) by auto
  have "conn_add sys guard g fd client len n w = Some (0, w\<lparr>kw_heap := h, kw_priv := (kw_priv w)(sk_priv g \<mapsto> p\<lparr>pv_conns := Some l'\<rparr>), kw_kern := k\<rparr>)"
    using assms(1,2,4-7,9,12) i(1) r by (simp add: conn_add_def buf_read_def kw_run_def Let_def)
  then show ?thesis using i(2) obj_insert_head_first [OF i(1) assms(10)] by blast
qed

lemma conn_add_unlisted:
  assumes "kw_priv w (sk_priv g) = Some p" "pv_conns p = Some l" "length (sk_opts g) = 124" "n \<le> length client"
    and "ns_malloc sys w = c" "c \<noteq> 0" "\<And>x. ns_node sys (w\<lparr>kw_conn := (kw_conn w)(c \<mapsto> x)\<rparr>) = 0"
  shows "\<exists>conn l'. conn_add sys guard g fd client len n w = Some (c, w\<lparr>kw_conn := (kw_conn w)(c \<mapsto> conn), kw_priv := (kw_priv w)(sk_priv g \<mapsto> p\<lparr>pv_conns := Some l'\<rparr>)\<rparr>)
    \<and> cn_fd conn = fd \<and> (\<forall>vs. obj_list (kw_heap w) l vs \<longrightarrow> obj_list (kw_heap w) l' vs)"
proof -
  let ?conn = "\<lparr>cn_fd = fd, cn_sock = guard, cn_server = take 116 (drop 8 (sk_opts g)), cn_client = le_bytes 4 (ucast len) @ take n client @ replicate (112 - n) 0\<rparr>"
  let ?w = "w\<lparr>kw_conn := (kw_conn w)(c \<mapsto> ?conn)\<rparr>"
  have "conn_add sys guard g fd client len n w = Some (c, w\<lparr>kw_conn := (kw_conn w)(c \<mapsto> ?conn), kw_priv := (kw_priv w)(sk_priv g \<mapsto> p\<lparr>pv_conns := Some (conn_list ?w l)\<rparr>)\<rparr>)"
    using assms by (simp add: conn_add_def buf_read_def obj_list_insert_head_fails Let_def)
  then show ?thesis by (intro exI [of _ ?conn] exI [of _ "conn_list ?w l"]) (simp add: conn_list_def)
qed

text \<open>A list whose first connection was released: nothing can be looked up in it, and it cannot be destroyed.\<close>

lemma dead_conns:
  assumes "obj_list h l (c # vs)" "S c = None"
  shows "conns_alive S h key (list_head l) = None"
proof -
  obtain q n where "list_head l = q" "q \<noteq> 0" "h q = Some n" "ln_val n = c"
    using assms(1) by (auto simp: obj_list_def dlist_def list_vals_def split: option.splits)
  then show ?thesis using assms(2) by (cases "S key") (simp_all add: conns_alive.simps node_get_def)
qed

lemma dead_destroy:
  assumes "obj_list h l (c # vs)" "kw_conn w (list_head l) = None"
  shows "kylin_list_destroy h (conn_list w l) = None"
proof -
  obtain q ps where d: "dlist h (conn_list w l) (q # ps)" "list_head l = q"
    using assms(1) by (auto simp: obj_list_def dlist_def list_vals_def conn_list_def)
  then have "list_match (list_opts (conn_list w l)) q v \<noteq> 0" for v
    using assms(2) by (simp add: conn_list_def conn_match_def)
  then have "kylin_list_clear h (conn_list w l) [] = None" using d(1) clear_stuck by (metis option.exhaust)
  then show ?thesis by (simp add: kylin_list_destroy_def)
qed

text \<open>
  C35. The test of the insertion in \<^verbatim>\<open>tcp_accept\<close> is inverted. When a client connects and all allocations succeed, the connection is closed
  and released and the caller gets null, while the list of the server keeps the released connection at its head: the first connection a caller
  is given is dead, looking one up or destroying one is undefined, and so is the destruction of the server. Only when there is no memory for
  the node of the list does the caller get the connection, which then is in no list.
\<close>

theorem tcp_accept_inverted:
  assumes "sk_priv g \<noteq> 0" "kw_priv w (sk_priv g) = Some p" "pv_fd p \<noteq> - 1" "pv_conns p = Some l" "obj_list (kw_heap w) l vs"
    and "length (sk_opts g) = 124" "local_len (sk_opts g) = Some n" "n \<noteq> 0"
    and "ns_accept sys (pv_fd p) (ns_len sys) (kw_kern w) = Some ((fd, client, len), k1)" "fd \<noteq> - 1" "length client \<ge> 16"
    and "ns_setsockopt sys fd SOL_SOCKET MSG_NOSIGNAL k1 = Some ((), k2)" "ns_close sys fd k2 = Some ((), k3)"
    and "ns_malloc sys (w\<lparr>kw_kern := k2\<rparr>) = c" "c \<noteq> 0" "kw_conn w c = None"
    and "\<And>x. ns_node sys (w\<lparr>kw_kern := k2, kw_conn := (kw_conn w)(c \<mapsto> x)\<rparr>) = node" "kw_heap w node = None" "kw_conn w node = None"
  shows "if node \<noteq> 0 then
      (\<exists>w'. tcp_accept sys guard g w = Some (0, w') \<and> kw_kern w' = k3 \<and> tcp_conn_get_first guard g w' = Some (c, w') \<and> kw_conn w' c = None
        \<and> tcp_conn_get_next guard g conn w' = None \<and> tcp_conn_destroy sys guard g conn w' = None \<and> tcp_destroy sys (sk_priv g) w' = None)
    else (\<exists>w' x l'. tcp_accept sys guard g w = Some (c, w') \<and> kw_conn w' c = Some x \<and> cn_fd x = fd
        \<and> map_option pv_conns (kw_priv w' (sk_priv g)) = Some (Some l') \<and> obj_list (kw_heap w') l' vs)"
proof -
  let ?w = "w\<lparr>kw_kern := k2\<rparr>"
  have acc: "tcp_accept sys guard g w = conn_add sys guard g fd client len 16 ?w"
    using assms by (simp add: tcp_accept_def kw_run_def)
  show ?thesis
  proof (cases "node = 0")
    case True
    then show ?thesis using conn_add_unlisted [of ?w g p l 16 client sys c guard fd len] assms acc by (auto simp: fun_upd_def)
  next
    case False
    then obtain h l' where r: "tcp_accept sys guard g w = Some (0, ?w\<lparr>kw_heap := h, kw_priv := (kw_priv w)(sk_priv g \<mapsto> p\<lparr>pv_conns := Some l'\<rparr>), kw_kern := k3\<rparr>)"
        (is "_ = Some (0, ?w')") and l': "obj_list h l' (c # vs)" "list_head l' = node"
      using conn_add_listed [of ?w g p l vs 16 client sys c node fd k3 guard len] assms acc by auto
    have "conns_alive (kw_conn ?w') (kw_heap ?w') conn (list_head l') = None" using dead_conns [OF l'(1), of "kw_conn w"] assms(16) by simp
    moreover have "tcp_conn_get_first guard g ?w' = Some (c, ?w')"
    proof -
      obtain q n where "list_head l' = q" "q \<noteq> 0" "h q = Some n" "ln_val n = c"
        using l'(1) by (auto simp: obj_list_def dlist_def list_vals_def split: option.splits)
      then show ?thesis using assms(1) by (simp add: tcp_conn_get_first_def conn_get_first_def conn_at_def kylin_list_first_def kylin_list_val_def node_get_def
            conn_list_def obj_opts_def kmath_val_get_def kobj_is_int_def)
    qed
    moreover have "tcp_destroy sys (sk_priv g) ?w' = None"
    proof -
      have dd: "kylin_list_destroy h (conn_list v l') = None" if "kw_conn v = kw_conn w" for v :: "'a skw"
        using dead_destroy [OF l'(1), of v] that l'(2) assms(19) by simp
      show ?thesis
        by (cases "pv_fd p = 0"; cases "ns_close sys (pv_fd p) k3") (auto simp: tcp_destroy_def sock_destroy_def kw_run_def dd assms(1))
    qed
    ultimately show ?thesis using r False assms(1,16)
      by (simp add: tcp_conn_get_next_def tcp_conn_destroy_def conn_get_next_def conn_destroy_def)
  qed
qed

theorem tcp_accept_inverted_witness:
  "\<exists>w'. tcp_accept demo_net 64 (demo_server 0\<lparr>sk_priv := 256\<rparr>) (demo_skw\<lparr>kw_priv := [256 \<mapsto> \<lparr>pv_fd = 3, pv_conns = Some \<lparr>list_head = 0, list_tail = 0,
      list_opts = obj_opts (\<lambda>_ _. 1) sizeof_ksock_conn, list_count = 0\<rparr>\<rparr>]\<rparr>) = Some (0, w') \<and> tcp_destroy demo_net 256 w' = None"
proof -
  let ?l = "\<lparr>list_head = 0, list_tail = 0, list_opts = obj_opts (\<lambda>_ _. 1) sizeof_ksock_conn, list_count = 0\<rparr>"
  let ?w = "demo_skw\<lparr>kw_priv := [256 \<mapsto> \<lparr>pv_fd = 3, pv_conns = Some ?l\<rparr>]\<rparr>"
  have l: "obj_list Map.empty ?l []" by (auto simp: obj_list_def dlist_def list_vals_def)
  have n: "local_len (sk_opts (demo_server 0)) = Some 16" by (simp add: local_len_def opt_int_def buf_read_def demo_server_def)
  have s: "length (sk_opts (demo_server 0)) = 124" by (simp add: demo_server_def)
  show ?thesis
    using tcp_accept_inverted [of "demo_server 0\<lparr>sk_priv := 256\<rparr>" ?w "\<lparr>pv_fd = 3, pv_conns = Some ?l\<rparr>" ?l "[]" 16 demo_net 4 "replicate 16 7" 16
        "{0, 4}" "{0, 4}" "{0}" 512 1024 64 0] l n s
    by (fastforce simp: demo_net_def demo_skw_def)
qed

subsection \<open>Datagrams\<close>

text \<open>The address a server keeps when it has room for the first \<open>room\<close> bytes of it.\<close>

definition kept_addr :: "8 word list \<Rightarrow> nat \<Rightarrow> 8 word list \<Rightarrow> 8 word list" where
  "kept_addr opts room addr = take room addr @ take (length addr - room) (drop (8 + room) opts)"

text \<open>
  C19. What a UDP server sends after it has received: the options of the socket keep the address that came with the datagram, and the next
  message goes there. The room for it is read from the place of a client's length, where a server has its backlog: when the address is not
  longer than the backlog, the reply goes to the sender; otherwise only that many bytes of the address are kept, and the rest of the reply's
  address is what the server's own configuration has there. In both cases the backlog has become the length of the address, and
  the length of the local address its first four bytes.
\<close>

theorem udp_server_replies:
  assumes "sks_store st guard = Some g" "sk_type g = KYLIN_SOCK_SERVER_UDP" "length (sk_opts g) = 124"
    and "sk_plugin st KYLIN_SOCK_SERVER_UDP = Some pl" "pl_type pl \<noteq> KYLIN_SOCK_MAX" "pl_reg pl = udp_both sys"
    and "opts_backlog (sk_opts g) = Some backlog" "ns_recvfrom sys fd buf len backlog (kw_kern (sks_world st)) = Some ((n, Some addr), k)"
    and "4 \<le> length addr" "length addr \<le> 112"
  shows "\<exists>st' g'. kylin_socket_recv fd buf len guard st = Some (n, st') \<and> sks_store st' guard = Some g'
    \<and> kylin_socket_send fd' buf' len' guard st' =
        sk_run (kw_run (ns_sendto sys fd' buf' len' (kept_addr (sk_opts g) (unat backlog) addr) (of_nat (length addr)))) st'
    \<and> (length addr \<le> unat backlog \<longrightarrow> kept_addr (sk_opts g) (unat backlog) addr = addr)
    \<and> opts_backlog (sk_opts g') = Some (of_nat (length addr))
    \<and> local_len (sk_opts g') = Some (ucast (le_word (take 4 (kept_addr (sk_opts g) (unat backlog) addr))))"
proof -
  let ?o = "sk_opts g" and ?a = "take (unat backlog) addr" and ?n = "of_nat (length addr) :: 32 word"
  let ?k = "kept_addr ?o (unat backlog) addr"
  define o' where "o' = take 4 ?o @ le_bytes 4 (ucast ?n) @ ?a @ drop (8 + length ?a) ?o"
  define g' where "g' = g\<lparr>sk_opts := o'\<rparr>"
  define st' where "st' = st\<lparr>sks_world := (sks_world st)\<lparr>kw_kern := k\<rparr>, sks_store := (sks_store st)(guard \<mapsto> g')\<rparr>"
  have r: "recv_from sys 4 ?o fd buf len (sks_world st) = Some ((n, o'), (sks_world st)\<lparr>kw_kern := k\<rparr>)"
    using assms(3,7-10) by (simp add: recv_from_def opts_backlog_def kw_run_def buf_write_def o'_def)
  have recv: "kylin_socket_recv fd buf len guard st = Some (n, st')"
    using assms(1,2,4-6) r by (simp add: kylin_socket_recv_def sk_dispatch_def sk_run_def call_or_def udp_both_def udp_recv_def st'_def g'_def)
  have len: "unat ?n = length addr" using assms(10) by (simp add: unat_of_nat)
  have d: "drop 8 o' = ?a @ drop (8 + length ?a) ?o" "length o' = 124"
    using assms(3,10) by (auto simp: o'_def)
  have t: "take (length addr) (drop 8 o') = ?k"
    unfolding d(1) kept_addr_def by (cases "length addr \<le> unat backlog") (simp_all add: min_def)
  have o4: "opt_int o' 4 = Some ?n"
    using assms(3,10) ucast_field by (simp add: opt_int_def buf_read_def o'_def)
  have "take 4 (drop 8 o') = take 4 ?k" unfolding t [symmetric] using assms(9) by (simp add: min_def)
  then have o8: "opt_int o' 8 = Some (ucast (le_word (take 4 ?k)))" using d(2) by (simp add: opt_int_def buf_read_def)
  have "kylin_socket_send fd' buf' len' guard st' = sk_run (kw_run (ns_sendto sys fd' buf' len' ?k ?n)) st'"
    using assms(2,4-6) o4 t len
    by (simp add: kylin_socket_send_def sk_dispatch_def call_or_def udp_both_def udp_send_def send_to_def sk_plugin_def sk_run_def st'_def g'_def)
  moreover have "sks_store st' guard = Some g'" "sk_opts g' = o'" by (simp_all add: st'_def g'_def)
  moreover have "length addr \<le> unat backlog \<longrightarrow> ?k = addr" by (simp add: kept_addr_def)
  ultimately show ?thesis using recv o4 o8 unfolding opts_backlog_def local_len_def by blast
qed

theorem udp_server_replies_witness:
  "\<exists>st'. kylin_socket_recv 3 4096 100 64 \<lparr>sks_plugin = builtin_types demo_net, sks_sid = 2, sks_store = [64 \<mapsto> demo_server 1], sks_heap = Map.empty,
      sks_list = \<lparr>list_head = 0, list_tail = 0, list_opts = obj_opts (\<lambda>_ _. 1) 144, list_count = 0\<rparr>, sks_world = demo_skw\<rparr> = Some (1, st')
    \<and> kylin_socket_send 3 8192 10 64 st' = sk_run (kw_run (ns_sendto demo_net 3 8192 10 (replicate 16 7) 16)) st'"
proof -
  let ?st = "\<lparr>sks_plugin = builtin_types demo_net, sks_sid = 2, sks_store = [64 \<mapsto> demo_server 1], sks_heap = Map.empty,
      sks_list = \<lparr>list_head = 0, list_tail = 0, list_opts = obj_opts (\<lambda>_ _. 1) 144, list_count = 0\<rparr>, sks_world = demo_skw\<rparr> :: 32 word set skw ksocks"
  have p: "sk_plugin ?st KYLIN_SOCK_SERVER_UDP = Some (free_plugin (udp_both demo_net) KYLIN_SOCK_SERVER_UDP)"
    by (simp add: sk_plugin_def arr_get_def builtin_types_def splugin_def)
  have o: "length (sk_opts (demo_server 1)) = 124" "opts_backlog (sk_opts (demo_server 1)) = Some 20" "sk_type (demo_server 1) = KYLIN_SOCK_SERVER_UDP"
    by (simp_all add: demo_server_def opts_backlog_def opt_int_def buf_read_def)
  have n: "ns_recvfrom demo_net 3 4096 100 20 (kw_kern (sks_world ?st)) = Some ((1, Some (replicate 16 7)), {0})" by (simp add: demo_net_def demo_skw_def)
  have "pl_type (free_plugin (udp_both demo_net) KYLIN_SOCK_SERVER_UDP) \<noteq> KYLIN_SOCK_MAX" "pl_reg (free_plugin (udp_both demo_net) KYLIN_SOCK_SERVER_UDP) = udp_both demo_net"
    by (simp_all add: free_plugin_def)
  from udp_server_replies [of ?st 64, OF _ o(3,1) p this o(2) n, of 3 8192 10]
  show ?thesis by auto
qed

end
