(* ===== verification/Kylin_Event.thy ===== *)
theory Kylin_Event
  imports Kylin_Registry Kylin_Memory Kylin_Set
begin

section \<open>The event loop (lib/core/event/kylin_event.c, kylin_event_plugin.c)\<close>

text \<open>
  The table of event mechanisms, and the event objects created from it. An event object watches file
  descriptors: it holds a set of pointers to structures \<^verbatim>\<open>kevent_event_t\<close> (a descriptor and flags, 8 bytes)
  in user memory. What a mechanism does is a parameter: its functions act on a state \<open>'w\<close> of their own (the
  system, their private data and what the user's callbacks change) and read the event object and the memory.
\<close>

subsection \<open>Definitions\<close>

abbreviation KEVENT_TYPE_SELECT :: nat where "KEVENT_TYPE_SELECT \<equiv> 0"
abbreviation KEVENT_TYPE_POLL :: nat where "KEVENT_TYPE_POLL \<equiv> 1"
abbreviation KEVENT_TYPE_EPOLL :: nat where "KEVENT_TYPE_EPOLL \<equiv> 2"
abbreviation KEVENT_TYPE_KQUEUE :: nat where "KEVENT_TYPE_KQUEUE \<equiv> 3"
abbreviation KEVENT_TYPE_MAX :: nat where "KEVENT_TYPE_MAX \<equiv> 4"

abbreviation KEVENT_TYPE_DEF_CNT :: nat where "KEVENT_TYPE_DEF_CNT \<equiv> 4"

type_synonym kfd = "32 word"
type_synonym kevent_flag = "32 word"

abbreviation KEVENT_FLAG_NONE :: kevent_flag where "KEVENT_FLAG_NONE \<equiv> 0"
abbreviation KEVENT_FLAG_READ :: kevent_flag where "KEVENT_FLAG_READ \<equiv> 1"
abbreviation KEVENT_FLAG_WRITE :: kevent_flag where "KEVENT_FLAG_WRITE \<equiv> 2"
abbreviation KEVENT_FLAG_ERROR :: kevent_flag where "KEVENT_FLAG_ERROR \<equiv> 4"

record kevent_event =
  efd :: kfd
  eflags :: kevent_flag

record 'w kevent_opts =
  eo_priv :: kaddr
  eo_recv :: "(kfd \<Rightarrow> kaddr \<Rightarrow> ('w, unit) kcall) option"
  eo_send :: "(kfd \<Rightarrow> kaddr \<Rightarrow> ('w, unit) kcall) option"
  eo_error :: "(kfd \<Rightarrow> kaddr \<Rightarrow> ('w, unit) kcall) option"
  eo_timeout :: "(kfd \<Rightarrow> kaddr \<Rightarrow> ('w, unit) kcall) option"

record 'w kevent =
  ev_id :: "32 word"
  ev_type :: nat
  ev_opts :: "'w kevent_opts"
  ev_priv :: kaddr
  ev_events :: kset

record 'w kevent_reg =
  er_add :: "(umem \<Rightarrow> 'w kevent \<Rightarrow> kfd \<Rightarrow> kevent_flag \<Rightarrow> ('w, kerr) kcall) option"
  er_del :: "(umem \<Rightarrow> 'w kevent \<Rightarrow> kfd \<Rightarrow> kevent_flag \<Rightarrow> ('w, kerr) kcall) option"
  er_mod :: "(umem \<Rightarrow> 'w kevent \<Rightarrow> kfd \<Rightarrow> kevent_flag \<Rightarrow> ('w, kerr) kcall) option"
  er_proc :: "(umem \<Rightarrow> 'w kevent \<Rightarrow> 64 word \<Rightarrow> ('w, kerr) kcall) option"
  er_create :: "('w, kaddr) kcall option"
  er_destroy :: "(kaddr \<Rightarrow> ('w, unit) kcall) option"
  er_init :: "('w, kerr) kcall option"
  er_fini :: "('w, unit) kcall option"

type_synonym 'w kevent_plugin = "'w kevent_reg kplugin"

record 'w kevents =
  evs_plugin :: "'w kevent_plugin list"
  evs_eid :: "32 word"
  evs_store :: "kaddr \<Rightarrow> 'w kevent option"
  evs_heap :: lheap
  evs_list :: klist
  evs_mem :: umem
  evs_world :: 'w

definition ev_run :: "('w, 'r) kcall \<Rightarrow> 'w kevents \<Rightarrow> ('r \<times> 'w kevents) option" where
  "ev_run f st = map_option (\<lambda>(r, w). (r, st\<lparr>evs_world := w\<rparr>)) (f (evs_world st))"

text \<open>
  A structure \<^verbatim>\<open>kevent_event_t\<close>: its bytes, its fields in memory, and its fields as a comparison sees them, for which
  \<open>Cell w\<close> is a pointer to a local variable that holds the 8 bytes \<open>w\<close>. The pointers in a set are to mapped
  memory; the value 0 of a descriptor that cannot be read is not used.
\<close>

abbreviation sizeof_event :: ksize where "sizeof_event \<equiv> 8"

definition event_bytes :: "kevent_event \<Rightarrow> kbyte list" where
  "event_bytes e = le_bytes 4 (ucast (efd e)) @ le_bytes 4 (ucast (eflags e))"

definition event_word :: "kevent_event \<Rightarrow> 64 word" where
  "event_word e = ucast (efd e) OR push_bit 32 (ucast (eflags e))"

definition event_fd :: "umem \<Rightarrow> kaddr \<Rightarrow> kfd option" where
  "event_fd m p = map_option ucast (mem_word m p 4)"

definition event_flags :: "umem \<Rightarrow> kaddr \<Rightarrow> kevent_flag option" where
  "event_flags m p = map_option ucast (mem_word m (p + 4) 4)"

definition arg_fd :: "umem \<Rightarrow> karg \<Rightarrow> kfd" where
  "arg_fd m a = (case a of Cell w \<Rightarrow> ucast w | Ptr p \<Rightarrow> (case event_fd m p of Some fd \<Rightarrow> fd | None \<Rightarrow> 0))"

definition events_compare :: "umem \<Rightarrow> karg \<Rightarrow> karg \<Rightarrow> int" where
  "events_compare m v1 v2 =
     (if sint (arg_fd m v1) > sint (arg_fd m v2) then 1
      else if sint (arg_fd m v1) < sint (arg_fd m v2) then -1 else 0)"

text \<open>The options of the set of events; \<open>p\<close> is the address that the next allocation of an event returns.\<close>

definition events_opts :: "kaddr \<Rightarrow> umem \<Rightarrow> kset_opts" where
  "events_opts p m = \<lparr>set_is_order = False, set_cap = 4096, set_val_type = KOBJ_OTHERS, set_val_size = sizeof_event,
     set_compare = Some (events_compare m), set_val_ctor = Some (mem_alloc p), set_guard_ctor = None\<rparr>"

definition events_now :: "kaddr \<Rightarrow> umem \<Rightarrow> 'w kevent \<Rightarrow> kset" where
  "events_now p m g = (ev_events g)\<lparr>set_opts := events_opts p m\<rparr>"

definition ref_addr :: "nat kref option \<Rightarrow> kaddr" where
  "ref_addr r = (case r of Some (Obj p) \<Rightarrow> p | _ \<Rightarrow> 0)"

text \<open>Destroying a set releases the events it points to with \<^verbatim>\<open>kylin_free\<close>.\<close>

fun events_free :: "krelease list \<Rightarrow> umem \<Rightarrow> umem" where
  "events_free [] m = m"
| "events_free (RelUser p # rs) m = events_free rs (mem_free p sizeof_event m)"
| "events_free (_ # rs) m = events_free rs m"

definition elist_match :: "(kaddr \<Rightarrow> 'w kevent option) \<Rightarrow> kaddr \<Rightarrow> kaddr \<Rightarrow> int" where
  "elist_match S v1 v2 = (case (S v1, S v2) of
       (Some a, Some b) \<Rightarrow> if ev_id a > ev_id b then 1 else if ev_id a < ev_id b then -1 else 0
     | _ \<Rightarrow> 1)"

abbreviation sizeof_kevent :: ksize where "sizeof_kevent \<equiv> 64"

definition ev_list_now :: "'w kevents \<Rightarrow> klist" where
  "ev_list_now st = (evs_list st)\<lparr>list_opts := obj_opts (elist_match (evs_store st)) sizeof_kevent\<rparr>"

definition ev_plugin :: "'w kevents \<Rightarrow> nat \<Rightarrow> 'w kevent_plugin option" where
  "ev_plugin st t = arr_get (evs_plugin st) t"

definition ev_ref :: "(32 word \<Rightarrow> 32 word) \<Rightarrow> nat \<Rightarrow> 'w kevents \<Rightarrow> 'w kevents option" where
  "ev_ref f t st = do {
     pl \<leftarrow> ev_plugin st t;
     ps \<leftarrow> arr_set (evs_plugin st) t (pl\<lparr>pl_ref := f (pl_ref pl)\<rparr>);
     Some (st\<lparr>evs_plugin := ps\<rparr>) }"

text \<open>
  Creation and destruction of an event object. The results of the three allocations (the object, its set,
  the list node) are arguments; the result is the address of the object, 0 when there is none.
\<close>

definition kylin_event_create ::
    "kaddr \<Rightarrow> bool \<Rightarrow> kaddr \<Rightarrow> nat \<Rightarrow> 'w kevent_opts \<Rightarrow> 'w kevents \<Rightarrow> (kaddr \<times> 'w kevents) option" where
  "kylin_event_create guard ok node t opts st = do {
     pl \<leftarrow> ev_plugin st t;
     if pl_type pl = KEVENT_TYPE_MAX then Some (0, st)
     else if guard = 0 then Some (0, st)
     else (case kylin_set_create ok (events_opts 0 (evs_mem st)) of
         None \<Rightarrow> Some (0, st)
       | Some events \<Rightarrow> do {
           (priv, st) \<leftarrow> ev_run (call_or 0 (er_create (pl_reg pl))) st;
           if er_create (pl_reg pl) \<noteq> None \<and> priv = 0 then do {
             rels \<leftarrow> kylin_set_destroy events;
             Some (0, st\<lparr>evs_mem := events_free rels (evs_mem st)\<rparr>) }
           else do {
             (res, _, h, l) \<leftarrow> kylin_list_insert_head Map.empty (evs_heap st) (ev_list_now st) node guard;
             if res = None then do {
               (_, st) \<leftarrow> ev_run (call_or () (map_option (\<lambda>f. f priv) (er_destroy (pl_reg pl)))) st;
               rels \<leftarrow> kylin_set_destroy events;
               Some (0, st\<lparr>evs_mem := events_free rels (evs_mem st)\<rparr>) }
             else do {
               st \<leftarrow> ev_ref (\<lambda>r. r + 1) t (st\<lparr>evs_heap := h, evs_list := l\<rparr>);
               let g = \<lparr>ev_id = evs_eid st, ev_type = t, ev_opts = opts, ev_priv = priv, ev_events = events\<rparr>;
               Some (guard, st\<lparr>evs_eid := evs_eid st + 1, evs_store := (evs_store st)(guard \<mapsto> g)\<rparr>) } } }) }"

definition kylin_event_destroy :: "kaddr \<Rightarrow> 'w kevents \<Rightarrow> 'w kevents option" where
  "kylin_event_destroy guard st = do {
     _ \<leftarrow> (if list_head (evs_list st) = 0 then Some () else map_option (\<lambda>_. ()) (evs_store st guard));
     (res, h, l) \<leftarrow> kylin_list_unlink (evs_heap st) (ev_list_now st) guard;
     if res = None then Some st
     else do {
       let st = st\<lparr>evs_heap := h, evs_list := l\<rparr>;
       g \<leftarrow> evs_store st guard;
       pl \<leftarrow> ev_plugin st (ev_type g);
       (_, st) \<leftarrow> ev_run (call_or () (map_option (\<lambda>f. f (ev_priv g)) (er_destroy (pl_reg pl)))) st;
       st \<leftarrow> ev_ref (\<lambda>r. r - 1) (ev_type g) st;
       rels \<leftarrow> kylin_set_destroy (ev_events g);
       Some (st\<lparr>evs_mem := events_free rels (evs_mem st), evs_store := (evs_store st)(guard := None)\<rparr>) } }"

text \<open>
  Watching a descriptor: \<open>loc\<close> is the address of the local structure, \<open>p\<close> the address the allocation returns. The
  functions of the mechanism see the object as it is then.
\<close>

definition kylin_event_add :: "kaddr \<Rightarrow> kaddr \<Rightarrow> kaddr \<Rightarrow> kfd \<Rightarrow> kevent_flag \<Rightarrow> 'w kevents \<Rightarrow> (kerr \<times> 'w kevents) option" where
  "kylin_event_add loc p guard fd flags st = do {
     g \<leftarrow> evs_store st guard;
     m \<leftarrow> mem_store (evs_mem st) loc (event_bytes \<lparr>efd = fd, eflags = flags\<rparr>);
     (ret, events, m) \<leftarrow> kylin_set_insert m (events_now p m g) loc;
     let g = g\<lparr>ev_events := events\<rparr>;
     let st = st\<lparr>evs_mem := m, evs_store := (evs_store st)(guard \<mapsto> g)\<rparr>;
     if ret \<noteq> KYLIN_ERROR_OK then Some (ret, st)
     else do {
       pl \<leftarrow> ev_plugin st (ev_type g);
       ev_run (call_or KYLIN_ERROR_OK (map_option (\<lambda>f. f m g fd flags) (er_add (pl_reg pl)))) st } }"

definition kylin_event_del :: "kaddr \<Rightarrow> kfd \<Rightarrow> kevent_flag \<Rightarrow> 'w kevents \<Rightarrow> (kerr \<times> 'w kevents) option" where
  "kylin_event_del guard fd flags st = do {
     g \<leftarrow> evs_store st guard;
     let m = evs_mem st;
     r \<leftarrow> kylin_set_find (events_now 0 m g) (Cell (event_word \<lparr>efd = fd, eflags = flags\<rparr>));
     let event = ref_addr r;
     if event = 0 then Some (KYLIN_ERROR_NOENT, st)
     else do {
       f \<leftarrow> event_flags m event;
       pl \<leftarrow> ev_plugin st (ev_type g);
       if f = flags then do {
         (ret, st) \<leftarrow> ev_run (call_or KYLIN_ERROR_OK (map_option (\<lambda>f. f m g fd flags) (er_del (pl_reg pl)))) st;
         if ret \<noteq> KYLIN_ERROR_OK then Some (ret, st)
         else do {
           (ret, events) \<leftarrow> kylin_set_remove (events_now 0 m g) (Ptr event);
           Some (ret, st\<lparr>evs_store := (evs_store st)(guard \<mapsto> g\<lparr>ev_events := events\<rparr>)\<rparr>) } }
       else do {
         (ret, st) \<leftarrow> ev_run (call_or KYLIN_ERROR_OK (map_option (\<lambda>f. f m g fd flags) (er_mod (pl_reg pl)))) st;
         if ret \<noteq> KYLIN_ERROR_OK then Some (ret, st)
         else do {
           m \<leftarrow> mem_store m (event + 4) (le_bytes 4 (ucast flags));
           Some (KYLIN_ERROR_OK, st\<lparr>evs_mem := m\<rparr>) } } } }"

definition kylin_event_process :: "kaddr \<Rightarrow> 'w kevents \<Rightarrow> (kerr \<times> 'w kevents) option" where
  "kylin_event_process guard st = do {
     g \<leftarrow> evs_store st guard;
     pl \<leftarrow> ev_plugin st (ev_type g);
     ev_run (call_or KYLIN_ERROR_OK (map_option (\<lambda>f. f (evs_mem st) g 0) (er_proc (pl_reg pl)))) st }"

text \<open>The operations on one object that the mechanisms call.\<close>

definition kylin_event_get_priv_data :: "'w kevent \<Rightarrow> kaddr" where
  "kylin_event_get_priv_data g = ev_priv g"

definition kylin_event_get_opts :: "'w kevent \<Rightarrow> 'w kevent_opts" where
  "kylin_event_get_opts g = ev_opts g"

definition kylin_event_event_count :: "'w kevent \<Rightarrow> 32 word" where
  "kylin_event_event_count g = of_nat (kylin_set_count (ev_events g))"

definition kylin_event_event_get_first :: "umem \<Rightarrow> 'w kevent \<Rightarrow> kaddr option" where
  "kylin_event_event_get_first m g = map_option ref_addr (kylin_set_first (events_now 0 m g))"

definition kylin_event_event_get_next :: "umem \<Rightarrow> 'w kevent \<Rightarrow> kaddr \<Rightarrow> kaddr option" where
  "kylin_event_event_get_next m g event = map_option ref_addr (kylin_set_next (events_now 0 m g) (Ptr event))"

definition kylin_event_event_get_by_fd :: "umem \<Rightarrow> 'w kevent \<Rightarrow> kfd \<Rightarrow> kaddr option" where
  "kylin_event_event_get_by_fd m g fd =
     map_option ref_addr (kylin_set_find (events_now 0 m g) (Cell (event_word \<lparr>efd = fd, eflags = 0\<rparr>)))"

text \<open>The table of mechanisms, as the source initialises it under Linux.\<close>

definition null_event_reg :: "'w kevent_reg" where
  "null_event_reg = \<lparr>er_add = None, er_del = None, er_mod = None, er_proc = None, er_create = None, er_destroy = None,
     er_init = None, er_fini = None\<rparr>"

definition eplugin :: "'w kevent_reg \<Rightarrow> 'w kevent_reg \<Rightarrow> 'w kevent_reg \<Rightarrow> 'w kevent_plugin list" where
  "eplugin select poll epoll =
     [free_plugin select KEVENT_TYPE_SELECT, free_plugin poll KEVENT_TYPE_POLL, free_plugin epoll KEVENT_TYPE_EPOLL,
      free_plugin null_event_reg KEVENT_TYPE_MAX]"

definition kylin_event_register :: "nat \<Rightarrow> 'w kevent_reg \<Rightarrow> 'w kevents \<Rightarrow> (kerr \<times> 'w kevents) option" where
  "kylin_event_register t reg st = do {
     pl \<leftarrow> ev_plugin st t;
     if pl_type pl \<noteq> KEVENT_TYPE_MAX then Some (KYLIN_ERROR_EXIST, st)
     else if er_proc reg = None then Some (KYLIN_ERROR_INVAL, st)
     else do {
       (ret, st) \<leftarrow> ev_run (call_or KYLIN_ERROR_OK (er_init reg)) st;
       if ret \<noteq> KYLIN_ERROR_OK then Some (ret, st)
       else do {
         ps \<leftarrow> arr_set (evs_plugin st) t \<lparr>pl_ref = 0, pl_type = t, pl_reg = reg\<rparr>;
         Some (KYLIN_ERROR_OK, st\<lparr>evs_plugin := ps\<rparr>) } } }"

definition kylin_event_unregister :: "nat \<Rightarrow> 'w kevents \<Rightarrow> (kerr \<times> 'w kevents) option" where
  "kylin_event_unregister t st = do {
     pl \<leftarrow> ev_plugin st t;
     if pl_type pl = KEVENT_TYPE_MAX then Some (KYLIN_ERROR_NOENT, st)
     else if pl_ref pl \<noteq> 0 then Some (KYLIN_ERROR_BUSY, st)
     else do {
       (_, st) \<leftarrow> ev_run (call_or () (er_fini (pl_reg pl))) st;
       ps \<leftarrow> arr_set (evs_plugin st) t (free_plugin null_event_reg KEVENT_TYPE_MAX);
       Some (KYLIN_ERROR_OK, st\<lparr>evs_plugin := ps\<rparr>) } }"

definition ev_init_plugin :: "nat \<Rightarrow> 'w kevents \<Rightarrow> (kerr \<times> 'w kevents) option" where
  "ev_init_plugin i st = do {
     pl \<leftarrow> ev_plugin st i;
     if pl_type pl \<noteq> KEVENT_TYPE_MAX then ev_run (call_or KYLIN_ERROR_OK (er_init (pl_reg pl))) st
     else Some (KYLIN_ERROR_OK, st) }"

fun ev_init_all :: "nat list \<Rightarrow> 'w kevents \<Rightarrow> (kerr \<times> 'w kevents) option" where
  "ev_init_all [] st = Some (KYLIN_ERROR_OK, st)"
| "ev_init_all (i # is) st = do {
     (ret, st) \<leftarrow> ev_init_plugin i st;
     if ret \<noteq> KYLIN_ERROR_OK then Some (ret, st) else ev_init_all is st }"

definition kylin_event_plugin_init :: "'w kevents \<Rightarrow> (kerr \<times> 'w kevents) option" where
  "kylin_event_plugin_init st = do {
     (ret, st) \<leftarrow> ev_init_all [0..<KEVENT_TYPE_DEF_CNT] st;
     if ret \<noteq> KYLIN_ERROR_OK then Some (ret, st)
     else if KEVENT_TYPE_MAX > KEVENT_TYPE_DEF_CNT then do {
       ps \<leftarrow> for_loop [KEVENT_TYPE_DEF_CNT..<KEVENT_TYPE_MAX] (\<lambda>i ps. do {
         pl \<leftarrow> arr_get ps i;
         arr_set ps i (pl\<lparr>pl_type := KEVENT_TYPE_MAX\<rparr>) }) (evs_plugin st);
       Some (KYLIN_ERROR_OK, st\<lparr>evs_plugin := ps\<rparr>) }
     else Some (KYLIN_ERROR_OK, st) }"

definition kylin_event_plugin_fini :: "'w kevents \<Rightarrow> 'w kevents option" where
  "kylin_event_plugin_fini st = for_loop [0..<KEVENT_TYPE_MAX] (\<lambda>i st. do {
     pl \<leftarrow> ev_plugin st i;
     if pl_type pl \<noteq> KEVENT_TYPE_MAX then do {
       (_, st) \<leftarrow> ev_run (call_or () (er_fini (pl_reg pl))) st;
       Some st }
     else Some st }) st"

definition kylin_event_init :: "bool \<Rightarrow> 'w kevents \<Rightarrow> (kerr \<times> 'w kevents) option" where
  "kylin_event_init ok st = (case kylin_list_create ok (obj_opts (elist_match (evs_store st)) sizeof_kevent) of
       None \<Rightarrow> Some (KYLIN_ERROR_NOMEM, st)
     | Some l \<Rightarrow> kylin_event_plugin_init (st\<lparr>evs_list := l\<rparr>))"

text \<open>The end, after an initialisation that has made the list.\<close>

partial_function (option) ev_fini_loop :: "kaddr \<Rightarrow> 'w kevents \<Rightarrow> 'w kevents option" where
  "ev_fini_loop p st =
     (if p = 0 then Some st
      else do {
        n \<leftarrow> node_get (evs_heap st) p;
        if ln_val n = 0 then ev_fini_loop (ln_next n) st
        else do {
          g \<leftarrow> evs_store st (ln_val n);
          pl \<leftarrow> ev_plugin st (ev_type g);
          (_, st) \<leftarrow> ev_run (call_or () (map_option (\<lambda>f. f (ev_priv g)) (er_destroy (pl_reg pl)))) st;
          st \<leftarrow> ev_ref (\<lambda>r. r - 1) (ev_type g) st;
          rels \<leftarrow> kylin_set_destroy (ev_events g);
          ev_fini_loop (ln_next n) (st\<lparr>evs_mem := events_free rels (evs_mem st)\<rparr>) } })"

declare ev_fini_loop.simps [code]

definition kylin_event_fini :: "'w kevents \<Rightarrow> 'w kevents option" where
  "kylin_event_fini st = do {
     st \<leftarrow> ev_fini_loop (list_head (evs_list st)) st;
     (_, h) \<leftarrow> kylin_list_destroy (evs_heap st) (ev_list_now st);
     kylin_event_plugin_fini (st\<lparr>evs_heap := h\<rparr>) }"

subsection \<open>Event objects that are alive\<close>

text \<open>The state as a table of plugins with its objects, together with the addresses of the objects that are alive.\<close>

definition ev_view :: "'w kevents \<times> kaddr list \<Rightarrow> ('w kevent_reg, 'w kevent) registry \<times> kaddr list" where
  "ev_view = (\<lambda>(st, vs). (\<lparr>rg_plugin = evs_plugin st, rg_store = evs_store st, rg_heap = evs_heap st, rg_list = evs_list st\<rparr>, vs))"

interpretation events: plugin_table KEVENT_TYPE_MAX ev_id ev_type .

lemma ev_run_some: "ev_run f st = Some (r, st') \<Longrightarrow> \<exists>w. st' = st\<lparr>evs_world := w\<rparr>"
  by (auto simp: ev_run_def)

lemma ev_run_frame:
  "ev_run f st = Some (r, st') \<Longrightarrow> evs_plugin st' = evs_plugin st \<and> evs_store st' = evs_store st \<and> evs_heap st' = evs_heap st
    \<and> evs_list st' = evs_list st \<and> evs_mem st' = evs_mem st \<and> evs_eid st' = evs_eid st"
  by (auto simp: ev_run_def)

lemma ev_plugin_some: "ev_plugin st t = Some pl \<Longrightarrow> t < length (evs_plugin st) \<and> pl = evs_plugin st ! t"
  by (auto simp: ev_plugin_def arr_get_def split: if_splits)

lemma ev_ref_some:
  assumes "ev_ref f t st = Some st'"
  shows "t < length (evs_plugin st) \<and> st' = st\<lparr>evs_plugin := events.set_ref f t (evs_plugin st)\<rparr>"
  using assms by (auto simp: ev_ref_def bind_eq_Some_conv ev_plugin_def arr_get_def arr_set_def events.set_ref_def split: if_splits)

lemma elist_match_same:
  assumes "inj_on (\<lambda>v. ev_id (the (S v))) (dom S)" "a \<in> dom S" "b \<in> dom S"
  shows "elist_match S a b = 0 \<longleftrightarrow> a = b"
proof -
  obtain x y where xy: "S a = Some x" "S b = Some y" using assms(2,3) by auto
  then have "elist_match S a b = 0 \<longleftrightarrow> ev_id x = ev_id y" by (auto simp: elist_match_def)
  then show ?thesis using store_ids_distinct [OF assms(1) xy] by simp
qed

text \<open>
  One call by a user, on a state together with the addresses of the objects that are alive. The
  allocations return fresh addresses, the id that is handed out is not in use, and there are
  fewer than \<open>2 ^ 32 - 1\<close> objects.
\<close>

inductive event_step :: "'w kevents \<times> kaddr list \<Rightarrow> 'w kevents \<times> kaddr list \<Rightarrow> bool" where
  create: "kylin_event_create guard ok node t opts st = Some (r, st') \<Longrightarrow> evs_store st guard = None
    \<Longrightarrow> node = 0 \<or> evs_heap st node = None \<Longrightarrow> evs_eid st \<notin> (\<lambda>v. ev_id (the (evs_store st v))) ` set vs
    \<Longrightarrow> length vs < 2 ^ 32 - 1 \<Longrightarrow> event_step (st, vs) (st', if r = 0 then vs else r # vs)"
| destroy: "kylin_event_destroy guard st = Some st' \<Longrightarrow> event_step (st, vs) (st', remove1 guard vs)"
| add: "kylin_event_add loc p guard fd flags st = Some (ret, st') \<Longrightarrow> event_step (st, vs) (st', vs)"
| del: "kylin_event_del guard fd flags st = Some (ret, st') \<Longrightarrow> event_step (st, vs) (st', vs)"
| "process": "kylin_event_process guard st = Some (ret, st') \<Longrightarrow> event_step (st, vs) (st', vs)"
| register: "kylin_event_register t reg st = Some (ret, st') \<Longrightarrow> event_step (st, vs) (st', vs)"
| unregister: "kylin_event_unregister t st = Some (ret, st') \<Longrightarrow> event_step (st, vs) (st', vs)"

text \<open>Every call is a step of the table.\<close>

lemma ev_view_idle:
  "evs_plugin st' = evs_plugin st \<Longrightarrow> evs_store st' = evs_store st \<Longrightarrow> evs_heap st' = evs_heap st \<Longrightarrow> evs_list st' = evs_list st
    \<Longrightarrow> events.tstep (ev_view (st, vs)) (ev_view (st', vs))"
  using events.tstep.idle [of "ev_view (st, vs)"] by (simp add: ev_view_def)

lemma kylin_event_create_step:
  assumes "events.inv (ev_view (st, vs))" "kylin_event_create guard ok node t opts st = Some (r, st')"
    "evs_store st guard = None" "node = 0 \<or> evs_heap st node = None" "evs_eid st \<notin> (\<lambda>v. ev_id (the (evs_store st v))) ` set vs"
    "length vs < 2 ^ 32 - 1"
  shows "events.tstep (ev_view (st, vs)) (ev_view (st', if r = 0 then vs else r # vs))"
proof -
  have inv: "length (evs_plugin st) = KEVENT_TYPE_MAX" "obj_list (evs_heap st) (evs_list st) vs"
    using assms(1) by (simp_all add: events.inv_def ev_view_def)
  obtain pl where pl: "ev_plugin st t = Some pl" using assms(2) by (auto simp: kylin_event_create_def bind_eq_Some_conv)
  note p = ev_plugin_some [OF pl]
  show ?thesis
  proof (cases "pl_type pl = KEVENT_TYPE_MAX \<or> guard = 0 \<or> \<not> ok")
    case True
    then have "r = 0 \<and> st' = st"
      using assms(2) pl by (auto simp: kylin_event_create_def kylin_set_create_def events_opts_def split: if_splits)
    then show ?thesis by (simp add: events.tstep.idle)
  next
    case False
    then obtain events where es: "kylin_set_create ok (events_opts 0 (evs_mem st)) = Some events"
      by (simp add: kylin_set_create_def events_opts_def)
    obtain priv st2 where run: "ev_run (call_or 0 (er_create (pl_reg pl))) st = Some (priv, st2)"
      using assms(2) pl False es by (auto simp: kylin_event_create_def bind_eq_Some_conv)
    obtain w where w: "st2 = st\<lparr>evs_world := w\<rparr>" using ev_run_some [OF run] by blast
    show ?thesis
    proof (cases "er_create (pl_reg pl) \<noteq> None \<and> priv = 0 \<or> node = 0")
      case True
      then have "r = 0 \<and> evs_plugin st' = evs_plugin st \<and> evs_store st' = evs_store st \<and> evs_heap st' = evs_heap st \<and> evs_list st' = evs_list st"
        using assms(2) pl False es run w
        by (auto simp: kylin_event_create_def bind_eq_Some_conv obj_list_insert_head_fails dest!: ev_run_frame split: if_splits)
      then show ?thesis by (auto intro: ev_view_idle)
    next
      case ok: False
      have "obj_list (evs_heap st2) (ev_list_now st2) vs" using inv(2) w by (simp add: ev_list_now_def)
      then obtain h l where ins: "kylin_list_insert_head Map.empty (evs_heap st2) (ev_list_now st2) node guard = Some (Some (Obj guard), Map.empty, h, l)"
          "obj_list h l (guard # vs)"
        using obj_list_insert_head [of "evs_heap st2" "ev_list_now st2" vs node Map.empty guard] ok assms(4) w by (auto simp: ev_list_now_def)
      let ?g = "\<lparr>ev_id = evs_eid st, ev_type = t, ev_opts = opts, ev_priv = priv, ev_events = events\<rparr>"
      have v: "r = guard \<and> ev_view (st', guard # vs) =
          (\<lparr>rg_plugin = events.set_ref (\<lambda>r. r + 1) (ev_type ?g) (evs_plugin st), rg_store = (evs_store st)(guard \<mapsto> ?g), rg_heap = h, rg_list = l\<rparr>, guard # vs)"
        using assms(2) pl False es run ok ins(1) w
        by (auto simp: kylin_event_create_def Let_def bind_eq_Some_conv ev_view_def dest!: ev_ref_some split: if_splits)
      have "events.registered (ev_view (st, vs)) (ev_type ?g)" using p False inv(1) by (simp add: events.registered_def ev_view_def)
      then show ?thesis
        using events.tstep.create [of "fst (ev_view (st, vs))" vs ?g guard h l] assms(3,5,6) ins(2) v False
        by (simp add: ev_view_def)
    qed
  qed
qed

lemma kylin_event_destroy_step:
  assumes "events.inv (ev_view (st, vs))" "kylin_event_destroy guard st = Some st'"
  shows "events.tstep (ev_view (st, vs)) (ev_view (st', remove1 guard vs))"
proof -
  have inv: "obj_list (evs_heap st) (evs_list st) vs" "distinct vs" "set vs = dom (evs_store st)" "inj_on (\<lambda>v. ev_id (the (evs_store st v))) (set vs)"
    using assms(1) unfolding events.inv_def ev_view_def by auto
  show ?thesis
  proof (cases "guard \<in> set vs")
    case False
    then have g: "evs_store st guard = None" using inv(3) by auto
    then have "kylin_list_unlink (evs_heap st) (ev_list_now st) guard = Some (None, evs_heap st, ev_list_now st)"
      using obj_list_unlink_miss [of "evs_heap st" "ev_list_now st" vs guard] inv(1) by (simp add: ev_list_now_def elist_match_def)
    then have "st' = st" using assms(2) g by (auto simp: kylin_event_destroy_def split: if_splits)
    then show ?thesis using False by (simp add: remove1_idem events.tstep.idle)
  next
    case True
    then obtain us ws where vs: "vs = us @ guard # ws" by (meson split_list)
    obtain g where g: "evs_store st guard = Some g" using True inv(3) by auto
    have m: "elist_match (evs_store st) guard v = 0 \<longleftrightarrow> guard = v" if "v \<in> set vs" for v
      using elist_match_same [of "evs_store st" guard v] inv(3,4) True that by simp
    obtain h l where u: "kylin_list_unlink (evs_heap st) (ev_list_now st) guard = Some (Some (Obj guard), h, l)" "obj_list h l (us @ ws)"
      using obj_list_unlink_hit [of "evs_heap st" "ev_list_now st" us guard ws guard] m inv(1,2) vs
      by (fastforce simp: ev_list_now_def)
    have v: "ev_view (st', us @ ws) = (\<lparr>rg_plugin = events.set_ref (\<lambda>r. r - 1) (ev_type g) (evs_plugin st),
        rg_store = (evs_store st)(guard := None), rg_heap = h, rg_list = l\<rparr>, us @ ws)"
      using assms(2) u(1) g
      by (auto simp: kylin_event_destroy_def Let_def bind_eq_Some_conv ev_view_def split: if_splits dest!: ev_run_some ev_ref_some)
    have "remove1 guard vs = us @ ws" using inv(2) vs by (simp add: remove1_append)
    then show ?thesis using events.tstep.destroy [of "fst (ev_view (st, vs))" guard g h l us ws] u(2) g v vs by (simp add: ev_view_def)
  qed
qed

lemma ev_view_change:
  assumes "evs_store st guard = Some g" "evs_store st' = (evs_store st)(guard \<mapsto> g\<lparr>ev_events := es\<rparr>)"
    "evs_plugin st' = evs_plugin st" "evs_heap st' = evs_heap st" "evs_list st' = evs_list st"
  shows "events.tstep (ev_view (st, vs)) (ev_view (st', vs))"
  using events.tstep.change [of "fst (ev_view (st, vs))" guard g "g\<lparr>ev_events := es\<rparr>" vs] assms by (simp add: ev_view_def)

lemma kylin_event_add_step:
  assumes "kylin_event_add loc p guard fd flags st = Some (ret, st')"
  shows "events.tstep (ev_view (st, vs)) (ev_view (st', vs))"
proof -
  obtain g where g: "evs_store st guard = Some g" using assms by (auto simp: kylin_event_add_def bind_eq_Some_conv)
  then have "\<exists>es. evs_store st' = (evs_store st)(guard \<mapsto> g\<lparr>ev_events := es\<rparr>) \<and> evs_plugin st' = evs_plugin st \<and> evs_heap st' = evs_heap st \<and> evs_list st' = evs_list st"
    using assms by (auto simp: kylin_event_add_def Let_def bind_eq_Some_conv dest!: ev_run_frame split: if_splits)
  then show ?thesis using g ev_view_change by blast
qed

lemma kylin_event_del_step:
  assumes "kylin_event_del guard fd flags st = Some (ret, st')"
  shows "events.tstep (ev_view (st, vs)) (ev_view (st', vs))"
proof -
  obtain g where g: "evs_store st guard = Some g" using assms by (auto simp: kylin_event_del_def bind_eq_Some_conv)
  then have "(evs_store st' = evs_store st \<or> (\<exists>es. evs_store st' = (evs_store st)(guard \<mapsto> g\<lparr>ev_events := es\<rparr>)))
      \<and> evs_plugin st' = evs_plugin st \<and> evs_heap st' = evs_heap st \<and> evs_list st' = evs_list st"
    using assms by (auto simp: kylin_event_del_def Let_def bind_eq_Some_conv dest!: ev_run_frame split: if_splits)
  then show ?thesis using g ev_view_change ev_view_idle by blast
qed

lemma kylin_event_process_step: "kylin_event_process guard st = Some (ret, st') \<Longrightarrow> events.tstep (ev_view (st, vs)) (ev_view (st', vs))"
  by (auto simp: kylin_event_process_def bind_eq_Some_conv intro!: ev_view_idle dest!: ev_run_some)

lemma kylin_event_register_step:
  assumes "kylin_event_register t reg st = Some (ret, st')"
  shows "events.tstep (ev_view (st, vs)) (ev_view (st', vs))"
  using assms events.tstep.plugin [of t "fst (ev_view (st, vs))" "\<lparr>pl_ref = 0, pl_type = t, pl_reg = reg\<rparr>" vs] events.tstep.idle
  by (auto simp: kylin_event_register_def bind_eq_Some_conv arr_set_def ev_view_def dest!: ev_run_some ev_plugin_some split: if_splits)

lemma kylin_event_unregister_step:
  assumes "kylin_event_unregister t st = Some (ret, st')"
  shows "events.tstep (ev_view (st, vs)) (ev_view (st', vs))"
  using assms events.tstep.plugin [of t "fst (ev_view (st, vs))" "free_plugin null_event_reg KEVENT_TYPE_MAX" vs] events.tstep.idle
  by (auto simp: kylin_event_unregister_def bind_eq_Some_conv arr_set_def ev_view_def free_plugin_def dest!: ev_run_some ev_plugin_some split: if_splits)

lemma event_step_tstep: "event_step s s' \<Longrightarrow> events.inv (ev_view s) \<Longrightarrow> events.tstep\<^sup>*\<^sup>* (ev_view s) (ev_view s')"
proof (rule r_into_rtranclp, induction rule: event_step.induct)
  case (create guard ok node t opts st r st' vs)
  then show ?case by (intro kylin_event_create_step)
next
  case (destroy guard st st' vs)
  then show ?case by (intro kylin_event_destroy_step)
qed (auto intro: kylin_event_add_step kylin_event_del_step kylin_event_process_step kylin_event_register_step kylin_event_unregister_step)

subsection \<open>The watch list of an event object\<close>

text \<open>
  The events that an object watches, read from memory. In a well-formed object the pointers are distinct
  and not null, their structures are mapped and do not overlap each other or the local structure at \<open>loc\<close>.
\<close>

definition event_at :: "umem \<Rightarrow> kaddr \<Rightarrow> kevent_event" where
  "event_at m p = \<lparr>efd = the (event_fd m p), eflags = the (event_flags m p)\<rparr>"

definition watch :: "umem \<Rightarrow> 'w kevent \<Rightarrow> kevent_event list" where
  "watch m g = map (event_at m) (set_content (ev_events g))"

definition apart :: "kaddr \<Rightarrow> kaddr \<Rightarrow> bool" where
  "apart p q \<longleftrightarrow> region p 8 \<inter> region q 8 = {}"

definition ev_wf :: "kaddr \<Rightarrow> umem \<Rightarrow> 'w kevent \<Rightarrow> bool" where
  "ev_wf loc m g \<longleftrightarrow> set_wf (ev_events g) \<and> set_cap (set_opts (ev_events g)) = 4096
     \<and> (let ps = set_content (ev_events g) in distinct ps
        \<and> (\<forall>p \<in> set ps. p \<noteq> 0 \<and> mapped m (region p 8) \<and> apart loc p) \<and> (\<forall>p \<in> set ps. \<forall>q \<in> set ps. p \<noteq> q \<longrightarrow> apart p q))
     \<and> mapped m (region loc 8)"

lemma apart_sym: "apart p q = apart q p"
  by (auto simp: apart_def)

lemma events_now_facts [simp]:
  "set_content (events_now p m g) = set_content (ev_events g)" "set_opts (events_now p m g) = events_opts p m"
  "set_used (events_now p m g) = set_used (ev_events g)" "set_val (events_now p m g) = set_val (ev_events g)"
  by (simp_all add: events_now_def set_content_def)

lemma events_now_wf: "ev_wf loc m g \<Longrightarrow> set_wf (events_now p m' g)"
  by (simp add: ev_wf_def set_wf_def events_opts_def)

lemma length_watch: "ev_wf loc m g \<Longrightarrow> length (watch m g) = set_used (ev_events g)"
  by (simp add: watch_def ev_wf_def set_wf_def set_content_def)

subsubsection \<open>Reading and writing one structure\<close>

lemma region_sub: "k + n \<le> 8 \<Longrightarrow> region (p + of_nat k) n \<subseteq> region p 8"
proof
  fix a assume k: "k + n \<le> 8" and "a \<in> region (p + of_nat k) n"
  then obtain i where i: "i < n" "a = p + of_nat k + of_nat i" using region_nth by blast
  then have "a = p + of_nat (k + i)" by simp
  moreover have "k + i < 8" using i(1) k by simp
  ultimately show "a \<in> region p 8" using region_index [of "k + i" 8 p] by simp
qed

lemmas region_parts = region_sub [of 0 4, simplified] region_sub [of 4 4, simplified]

lemma event_fields_mapped:
  assumes "mapped m (region p 8)"
  shows "event_fd m p = Some (efd (event_at m p))" "event_flags m p = Some (eflags (event_at m p))"
proof -
  have "\<exists>bs. mem_load m p 4 = Some bs" "\<exists>bs. mem_load m (p + 4) 4 = Some bs"
    using mem_load_mapped [of 4 m p] mem_load_mapped [of 4 m "p + 4"] mapped_mono [OF assms region_parts(1)] mapped_mono [OF assms region_parts(2)] by auto
  then show "event_fd m p = Some (efd (event_at m p))" "event_flags m p = Some (eflags (event_at m p))"
    by (auto simp: event_at_def event_fd_def event_flags_def mem_word_def)
qed

lemma event_at_same:
  assumes "\<forall>a \<in> region p 8. m' a = m a"
  shows "event_at m' p = event_at m p"
proof -
  have "mem_load m' p 4 = mem_load m p 4" "mem_load m' (p + 4) 4 = mem_load m (p + 4) 4"
    using mem_load_same [of 4 p m' m] mem_load_same [of 4 "p + 4" m' m] assms region_parts [of p] by auto
  then show ?thesis by (simp add: event_at_def event_fd_def event_flags_def mem_word_def)
qed

lemma event_at_bytes:
  assumes "mem_load m p 8 = Some (event_bytes e)"
  shows "event_at m p = e"
proof -
  have l: "length (event_bytes e) = 8" by (simp add: event_bytes_def)
  have "mem_load m p 4 = Some (le_bytes 4 (ucast (efd e)))" "mem_load m (p + 4) 4 = Some (le_bytes 4 (ucast (eflags e)))"
    using mem_load_part [of m p "event_bytes e" 0 4] mem_load_part [of m p "event_bytes e" 4 4] assms l
    by (simp_all add: event_bytes_def)
  then show ?thesis by (simp add: event_at_def event_fd_def event_flags_def mem_word_def ucast_field)
qed

lemma event_set_flags:
  assumes "mapped m (region p 8)"
  shows "\<exists>m'. mem_store m (p + 4) (le_bytes 4 (ucast flags)) = Some m' \<and> event_at m' p = (event_at m p)\<lparr>eflags := flags\<rparr>
    \<and> (\<forall>x. x \<notin> region p 8 \<longrightarrow> m' x = m x) \<and> dom m' = dom m"
proof -
  obtain m' where m': "mem_store m (p + 4) (le_bytes 4 (ucast flags)) = Some m'" "mem_load m' (p + 4) 4 = Some (le_bytes 4 (ucast flags))"
      "\<forall>x. x \<notin> region (p + 4) 4 \<longrightarrow> m' x = m x" "dom m' = dom m"
    using mem_store_mapped [of "le_bytes 4 (ucast flags)" m "p + 4"] mapped_mono [OF assms region_parts(2)] by auto
  have "region p 4 \<inter> region (p + 4) 4 = {}" using region_disjoint [of 4 4 4 p] by simp
  then have "mem_load m' p 4 = mem_load m p 4" using m'(3) by (intro mem_load_same) auto
  then have "event_at m' p = (event_at m p)\<lparr>eflags := flags\<rparr>"
    using m'(2) by (simp add: event_at_def event_fd_def event_flags_def mem_word_def ucast_field)
  then show ?thesis using m' region_parts(2) [of p] by (intro exI [of _ m']) auto
qed

lemma arg_fd_event_word: "arg_fd m (Cell (event_word e)) = efd e"
  unfolding arg_fd_def event_word_def karg.case by (rule bit_word_eqI) (auto simp: bit_simps)

lemma arg_fd_ptr: "mapped m (region p 8) \<Longrightarrow> arg_fd m (Ptr p) = efd (event_at m p)"
  by (simp add: arg_fd_def event_fields_mapped)

lemma events_holds:
  assumes "ev_wf loc m g" "w \<in> set (set_content (ev_events g))"
  shows "set_holds (events_now p m g) key (\<lambda>r. r = 0) w \<longleftrightarrow> efd (event_at m w) = arg_fd m key"
proof -
  have "mapped m (region w 8)" using assms by (auto simp: ev_wf_def Let_def)
  then have "arg_fd m (Ptr w) = efd (event_at m w)" by (rule arg_fd_ptr)
  then show ?thesis
    by (auto simp: set_holds_def events_opts_def kobj_is_int_def events_compare_def signed_word_eqI)
qed

subsubsection \<open>Insertion and search\<close>

lemma ev_wf_content:
  assumes "ev_wf loc m g"
  shows "distinct (set_content (ev_events g))" "mapped m (region loc 8)"
    "\<And>p. p \<in> set (set_content (ev_events g)) \<Longrightarrow> p \<noteq> 0 \<and> mapped m (region p 8) \<and> apart loc p"
    "\<And>p q. p \<in> set (set_content (ev_events g)) \<Longrightarrow> q \<in> set (set_content (ev_events g)) \<Longrightarrow> p \<noteq> q \<Longrightarrow> apart p q"
  using assms by (auto simp: ev_wf_def Let_def)

lemma apart_fresh: "region p 8 \<inter> dom m = {} \<Longrightarrow> mapped m (region q 8) \<Longrightarrow> apart p q"
  by (force simp: apart_def mapped_def dom_def)

lemma self_region: "p \<in> region p 8"
  by (simp add: region_iff)

lemma event_ctor:
  assumes "mapped m (region loc 8)" "p \<noteq> 0" "region p 8 \<inter> dom m = {}"
  shows "\<exists>m1 m2. mem_store m loc (event_bytes e) = Some m1
    \<and> kmath_val_ctor m1 loc KOBJ_OTHERS sizeof_event (Some (mem_alloc p)) = Some (p, m2)
    \<and> event_at m2 p = e \<and> dom m2 = dom m \<union> region p 8 \<and> (\<forall>x. x \<notin> region loc 8 \<union> region p 8 \<longrightarrow> m2 x = m x)"
proof -
  have l: "length (event_bytes e) = 8" by (simp add: event_bytes_def)
  obtain m1 where m1: "mem_store m loc (event_bytes e) = Some m1" "mem_load m1 loc 8 = Some (event_bytes e)"
      "\<forall>x. x \<notin> region loc 8 \<longrightarrow> m1 x = m x" "dom m1 = dom m"
    using mem_store_mapped [of "event_bytes e" m loc] assms(1) l by auto
  obtain ma where ma: "mem_alloc p m1 8 = (p, ma)" "mapped ma (region p 8)" "\<forall>x. x \<notin> region p 8 \<longrightarrow> ma x = m1 x" "dom ma = dom m \<union> region p 8"
    using mem_alloc_region [OF assms(2), of m1 8] m1(4) by auto
  have "apart p loc" by (rule apart_fresh [OF assms(3,1)])
  then have "mem_load ma loc 8 = Some (event_bytes e)" using mem_load_same [of 8 loc ma m1] ma(3) m1(2) by (auto simp: apart_def)
  moreover obtain m2 where m2: "mem_store ma p (event_bytes e) = Some m2" "mem_load m2 p 8 = Some (event_bytes e)"
      "\<forall>x. x \<notin> region p 8 \<longrightarrow> m2 x = ma x" "dom m2 = dom ma"
    using mem_store_mapped [of "event_bytes e" ma p] ma(2) l by auto
  ultimately have "kmath_val_ctor m1 loc KOBJ_OTHERS sizeof_event (Some (mem_alloc p)) = Some (p, m2)"
    using ma(1) by (simp add: kmath_val_ctor_def)
  then show ?thesis using m1 m2 ma event_at_bytes [OF m2(2)] by auto
qed

lemma event_insert:
  assumes wf: "ev_wf loc m g" and room: "set_used (ev_events g) < 4096" and p: "p \<noteq> 0" "region p 8 \<inter> dom m = {}"
  shows "\<exists>m1 m2 es. mem_store m loc (event_bytes e) = Some m1 \<and> kylin_set_insert m1 (events_now p m1 g) loc = Some (KYLIN_ERROR_OK, es, m2)
    \<and> ev_wf loc m2 (g\<lparr>ev_events := es\<rparr>) \<and> watch m2 (g\<lparr>ev_events := es\<rparr>) = watch m g @ [e] \<and> dom m2 = dom m \<union> region p 8"
proof -
  note w = ev_wf_content [OF wf]
  obtain m1 m2 where m: "mem_store m loc (event_bytes e) = Some m1"
      "kmath_val_ctor m1 loc KOBJ_OTHERS sizeof_event (Some (mem_alloc p)) = Some (p, m2)"
      "event_at m2 p = e" "dom m2 = dom m \<union> region p 8" "\<forall>x. x \<notin> region loc 8 \<union> region p 8 \<longrightarrow> m2 x = m x"
    using event_ctor [OF w(2) p] by blast
  let ?s = "events_now p m1 g"
  obtain es where es: "kylin_set_insert m1 ?s loc = Some (KYLIN_ERROR_OK, es, m2)" "set_wf es" "set_opts es = events_opts p m1"
      "set_content es = set_content (ev_events g) @ [p]"
    using kylin_set_insert_content [OF events_now_wf [OF wf, of p m1], of m1 loc p m2] room m(2) by (auto simp: events_opts_def)
  have ap: "apart p q" if "q \<in> set (set_content (ev_events g))" for q using apart_fresh [OF p(2)] w(3) that by blast
  have np: "p \<notin> set (set_content (ev_events g))" using ap self_region [of p] by (auto simp: apart_def)
  have mono: "mapped m A \<Longrightarrow> mapped m2 A" for A using m(4) by (auto simp: mapped_def dom_def set_eq_iff)
  have new: "mapped m2 (region p 8)" using m(4) by (auto simp: mapped_def dom_def)
  have lp: "apart loc p" using apart_fresh [OF p(2) w(2)] by (simp add: apart_sym)
  have s: "set (set_content es) = insert p (set (set_content (ev_events g)))" using es(4) by simp
  have a: "\<forall>q \<in> set (set_content es). q \<noteq> 0 \<and> mapped m2 (region q 8) \<and> apart loc q" unfolding s using w(3) p(1) new lp mono by blast
  have b: "\<forall>q \<in> set (set_content es). \<forall>r \<in> set (set_content es). q \<noteq> r \<longrightarrow> apart q r" unfolding s using w(4) ap apart_sym by blast
  have d: "distinct (set_content es)" using es(4) w(1) np by simp
  have "ev_wf loc m2 (g\<lparr>ev_events := es\<rparr>)"
    unfolding ev_wf_def Let_def using es(2,3) a b d mono [OF w(2)] by (simp add: events_opts_def)
  moreover have "event_at m2 q = event_at m q" if "q \<in> set (set_content (ev_events g))" for q
    using event_at_same [of q m2 m] m(5) w(3) [OF that] ap [OF that] by (auto simp: apart_def)
  then have "watch m2 (g\<lparr>ev_events := es\<rparr>) = watch m g @ [e]" using es(4) m(3) by (simp add: watch_def)
  ultimately show ?thesis using m(1,4) es(1) by blast
qed

text \<open>A search finds the first structure with the descriptor.\<close>

lemma kylin_set_find_first:
  assumes wf: "set_wf g" and ty: "\<not> kobj_is_int (set_val_type (set_opts g))"
  shows "kylin_set_find g key = Some (map_option Obj (find (set_holds g key (\<lambda>r. r = 0)) (set_content g)))"
proof -
  let ?P = "set_holds g key (\<lambda>r. r = 0)" and ?c = "set_content g"
  let ?n = "length (takeWhile (\<lambda>w. \<not> ?P w) ?c)"
  have lc: "length ?c = set_used g" using wf by (simp add: set_content_def set_wf_def)
  have scan: "int_find 0 (set_used g) (set_test g key (\<lambda>r. r = 0)) = Some (if ?n < set_used g then Some ?n else None)"
    using set_scan [OF wf, of key "\<lambda>r. r = 0"] by (simp add: Let_def)
  show ?thesis
  proof (cases "?n < set_used g")
    case True
    have "find ?P ?c = Some (?c ! ?n)"
      using True lc nth_length_takeWhile [of "\<lambda>w. \<not> ?P w" ?c] takeWhile_nth [of _ "\<lambda>w. \<not> ?P w" ?c] set_takeWhileD [of _ "\<lambda>w. \<not> ?P w" ?c]
      by (auto simp: find_Some_iff intro!: exI [of _ ?n]) (metis nth_mem)
    moreover have "set_get g ?n = Some (Some (Obj (?c ! ?n)))"
      using True wf ty by (simp add: set_get_def set_wf_def set_content_def kmath_val_get_def arr_get_def)
    ultimately show ?thesis using scan True by (simp add: kylin_set_find_def)
  next
    case False
    then have "find ?P ?c = None" using lc takeWhile_length_lt [of "\<lambda>w. \<not> ?P w" ?c] by (auto simp: find_None_iff)
    then show ?thesis using scan False by (simp add: kylin_set_find_def)
  qed
qed

lemma find_cong_set: "(\<And>x. x \<in> set xs \<Longrightarrow> P x = Q x) \<Longrightarrow> find P xs = find Q xs"
  by (induction xs) auto

lemma event_find:
  assumes "ev_wf loc m g"
  shows "kylin_set_find (events_now p m g) key = Some (map_option Obj (find (\<lambda>q. efd (event_at m q) = arg_fd m key) (set_content (ev_events g))))"
proof -
  have "find (set_holds (events_now p m g) key (\<lambda>r. r = 0)) (set_content (ev_events g))
      = find (\<lambda>q. efd (event_at m q) = arg_fd m key) (set_content (ev_events g))"
    by (rule find_cong_set) (rule events_holds [OF assms])
  then show ?thesis using kylin_set_find_first [OF events_now_wf [OF assms], of p m key] by (simp add: events_opts_def kobj_is_int_def)
qed

lemma find_split: "find P xs = Some x \<Longrightarrow> \<exists>ys zs. xs = ys @ x # zs \<and> P x \<and> (\<forall>y \<in> set ys. \<not> P y)"
proof (induction xs)
  case (Cons a xs)
  then show ?case
    by (cases "P a") (force, auto, metis append_Cons set_ConsD)
qed simp

lemma event_remove:
  assumes wf: "ev_wf loc m g" and c: "set_content (ev_events g) = ps @ q # qs" and "\<forall>p \<in> set ps. efd (event_at m p) \<noteq> efd (event_at m q)"
  shows "\<exists>es. kylin_set_remove (events_now 0 m g) (Ptr q) = Some (KYLIN_ERROR_OK, es) \<and> ev_wf loc m (g\<lparr>ev_events := es\<rparr>)
    \<and> set_content es = ps @ qs"
proof -
  note w = ev_wf_content [OF wf]
  let ?s = "events_now 0 m g"
  have f: "arg_fd m (Ptr q) = efd (event_at m q)" using w(3) [of q] c by (simp add: arg_fd_ptr)
  have h: "set_holds ?s (Ptr q) (\<lambda>r. r = 0) x \<longleftrightarrow> efd (event_at m x) = efd (event_at m q)" if "x \<in> set (set_content (ev_events g))" for x
    using events_holds [OF wf that, of 0 "Ptr q"] f by simp
  have t: "takeWhile (\<lambda>w. \<not> set_holds ?s (Ptr q) (\<lambda>r. r = 0) w) (ps @ q # qs) = ps"
    "dropWhile (\<lambda>w. \<not> set_holds ?s (Ptr q) (\<lambda>r. r = 0) w) (ps @ q # qs) = q # qs"
    using h assms(3) c by (simp_all add: takeWhile_append dropWhile_append)
  have "\<not> (\<forall>x \<in> set (set_content ?s). \<not> set_holds ?s (Ptr q) (\<lambda>r. r = 0) x)" using h [of q] c by auto
  then obtain es where es: "kylin_set_remove ?s (Ptr q) = Some (KYLIN_ERROR_OK, es)" "set_wf es" "set_content es = ps @ qs"
    using kylin_set_remove_content [OF events_now_wf [OF wf, of 0 m], of "Ptr q"] t c by (auto split: if_splits)
  have "set_opts es = events_opts 0 m"
    using es(1) by (auto simp: kylin_set_remove_def kylin_set_remove_by_index_def bind_eq_Some_conv split: option.splits if_splits)
  then have "ev_wf loc m (g\<lparr>ev_events := es\<rparr>)"
    unfolding ev_wf_def Let_def using es w c by (auto simp: events_opts_def)
  then show ?thesis using es by blast
qed

subsubsection \<open>Refinement\<close>

text \<open>
  The abstract watch list: at most 4096 events in the order they were added. Deleting looks for the first
  event of the descriptor, and removes it when its flags are the given ones; with other flags the
  event stays and gets the given flags.
\<close>

definition wl_add :: "kevent_event \<Rightarrow> kevent_event list \<Rightarrow> kerr \<times> kevent_event list" where
  "wl_add e l = (if length l = 4096 then (KYLIN_ERROR_INVAL, l) else (KYLIN_ERROR_OK, l @ [e]))"

fun wl_del :: "kevent_event \<Rightarrow> kevent_event list \<Rightarrow> kerr \<times> kevent_event list" where
  "wl_del e [] = (KYLIN_ERROR_NOENT, [])"
| "wl_del e (x # xs) = (if efd x = efd e then (KYLIN_ERROR_OK, if eflags x = eflags e then xs else e # xs)
     else (let (r, ys) = wl_del e xs in (r, x # ys)))"

datatype watch_op = Watch kaddr kevent_event | Unwatch kevent_event

fun wl_run :: "watch_op list \<Rightarrow> kevent_event list \<Rightarrow> kerr list \<times> kevent_event list" where
  "wl_run [] l = ([], l)"
| "wl_run (Watch p e # ops) l = (let (r, l) = wl_add e l; (rs, l) = wl_run ops l in (r # rs, l))"
| "wl_run (Unwatch e # ops) l = (let (r, l) = wl_del e l; (rs, l) = wl_run ops l in (r # rs, l))"

text \<open>The same operations of the source on the object \<open>guard\<close>; an addition is given the address of its allocation.\<close>

fun watch_run :: "kaddr \<Rightarrow> kaddr \<Rightarrow> watch_op list \<Rightarrow> 'w kevents \<Rightarrow> (kerr list \<times> 'w kevents) option" where
  "watch_run loc guard [] st = Some ([], st)"
| "watch_run loc guard (Watch p e # ops) st = do {
     (r, st) \<leftarrow> kylin_event_add loc p guard (efd e) (eflags e) st;
     (rs, st) \<leftarrow> watch_run loc guard ops st;
     Some (r # rs, st) }"
| "watch_run loc guard (Unwatch e # ops) st = do {
     (r, st) \<leftarrow> kylin_event_del guard (efd e) (eflags e) st;
     (rs, st) \<leftarrow> watch_run loc guard ops st;
     Some (r # rs, st) }"

fun fresh_ops :: "watch_op list \<Rightarrow> kaddr set \<Rightarrow> bool" where
  "fresh_ops [] D \<longleftrightarrow> True"
| "fresh_ops (Watch p e # ops) D \<longleftrightarrow> p \<noteq> 0 \<and> region p 8 \<inter> D = {} \<and> fresh_ops ops (D \<union> region p 8)"
| "fresh_ops (Unwatch e # ops) D \<longleftrightarrow> fresh_ops ops D"

text \<open>A mechanism that accepts every change, as \<^verbatim>\<open>poll\<close> does.\<close>

definition mech_accepts :: "'w kevent_reg \<Rightarrow> bool" where
  "mech_accepts reg \<longleftrightarrow> (\<forall>f \<in> {er_add reg, er_del reg, er_mod reg}. \<forall>m g fd flags w.
     \<exists>w'. call_or KYLIN_ERROR_OK (map_option (\<lambda>f. f m g fd flags) f) w = Some (KYLIN_ERROR_OK, w'))"

definition watches :: "kaddr \<Rightarrow> kaddr \<Rightarrow> 'w kevents \<Rightarrow> kevent_event list \<Rightarrow> bool" where
  "watches loc guard st l \<longleftrightarrow> (\<exists>g pl. evs_store st guard = Some g \<and> ev_wf loc (evs_mem st) g \<and> watch (evs_mem st) g = l
     \<and> ev_plugin st (ev_type g) = Some pl \<and> mech_accepts (pl_reg pl))"

lemma event_eta [simp]: "\<lparr>efd = efd e, eflags = eflags e\<rparr> = (e :: kevent_event)"
  by simp

lemma fresh_ops_mono: "fresh_ops ops D \<Longrightarrow> D' \<subseteq> D \<Longrightarrow> fresh_ops ops D'"
proof (induction ops D arbitrary: D' rule: fresh_ops.induct)
  case (2 p e ops D)
  then have "D' \<union> region p 8 \<subseteq> D \<union> region p 8" by blast
  then show ?case using 2 by auto
qed auto

lemma mech_call:
  assumes "mech_accepts reg" "f \<in> {er_add reg, er_del reg, er_mod reg}"
  shows "\<exists>w. ev_run (call_or KYLIN_ERROR_OK (map_option (\<lambda>f. f m g fd flags) f)) st = Some (KYLIN_ERROR_OK, st\<lparr>evs_world := w\<rparr>)"
  using assms(1) [unfolded mech_accepts_def, THEN bspec, OF assms(2), THEN spec, THEN spec, THEN spec, THEN spec, THEN spec, of m g fd flags "evs_world st"]
  by (auto simp: ev_run_def)

lemma kylin_event_add_watches:
  assumes "watches loc guard st l" "p \<noteq> 0" "region p 8 \<inter> dom (evs_mem st) = {}"
  shows "\<exists>st'. kylin_event_add loc p guard (efd e) (eflags e) st = Some (fst (wl_add e l), st') \<and> watches loc guard st' (snd (wl_add e l))
    \<and> dom (evs_mem st') \<subseteq> dom (evs_mem st) \<union> region p 8"
proof -
  let ?m = "evs_mem st"
  obtain g pl where g: "evs_store st guard = Some g" "ev_wf loc ?m g" "watch ?m g = l" "ev_plugin st (ev_type g) = Some pl" "mech_accepts (pl_reg pl)"
    using assms(1) by (auto simp: watches_def)
  have len: "length l = set_used (ev_events g)" using length_watch [OF g(2)] g(3) by simp
  show ?thesis
  proof (cases "length l = 4096")
    case True
    have l8: "length (event_bytes e) = 8" by (simp add: event_bytes_def)
    obtain m1 where m1: "mem_store ?m loc (event_bytes e) = Some m1" "\<forall>x. x \<notin> region loc 8 \<longrightarrow> m1 x = ?m x" "dom m1 = dom ?m"
      using mem_store_mapped [of "event_bytes e" ?m loc] ev_wf_content(2) [OF g(2)] l8 by auto
    let ?g = "g\<lparr>ev_events := events_now p m1 g\<rparr>"
    let ?st = "st\<lparr>evs_mem := m1, evs_store := (evs_store st)(guard \<mapsto> ?g)\<rparr>"
    have add: "kylin_event_add loc p guard (efd e) (eflags e) st = Some (KYLIN_ERROR_INVAL, ?st)"
      using g(1) m1(1) True len by (simp add: kylin_event_add_def Let_def kylin_set_insert_def events_opts_def)
    have same: "event_at m1 q = event_at ?m q" if "q \<in> set (set_content (ev_events g))" for q
      using ev_wf_content(3) [OF g(2) that] m1(2) by (intro event_at_same) (auto simp: apart_def)
    have "ev_wf loc m1 ?g" using g(2) events_now_wf [OF g(2), of p m1] mapped_dom [OF m1(3)] by (simp add: ev_wf_def events_opts_def)
    moreover have "watch m1 ?g = l" using g(3) same by (auto simp: watch_def)
    ultimately have "watches loc guard ?st l" using g(4,5) by (auto simp: watches_def ev_plugin_def)
    then show ?thesis using add m1(3) True by (auto simp: wl_add_def)
  next
    case False
    have "length l \<le> 4096" using g(2) len by (simp add: ev_wf_def set_wf_def)
    then have room: "set_used (ev_events g) < 4096" using False len by simp
    obtain m1 m2 es where i: "mem_store ?m loc (event_bytes e) = Some m1" "kylin_set_insert m1 (events_now p m1 g) loc = Some (KYLIN_ERROR_OK, es, m2)"
        "ev_wf loc m2 (g\<lparr>ev_events := es\<rparr>)" "watch m2 (g\<lparr>ev_events := es\<rparr>) = l @ [e]" "dom m2 = dom ?m \<union> region p 8"
      using event_insert [OF g(2) room assms(2,3), of e] g(3) by blast
    let ?g = "g\<lparr>ev_events := es\<rparr>"
    let ?st = "st\<lparr>evs_mem := m2, evs_store := (evs_store st)(guard \<mapsto> ?g)\<rparr>"
    obtain w where w: "ev_run (call_or KYLIN_ERROR_OK (map_option (\<lambda>f. f m2 ?g (efd e) (eflags e)) (er_add (pl_reg pl)))) ?st = Some (KYLIN_ERROR_OK, ?st\<lparr>evs_world := w\<rparr>)"
      using mech_call [OF g(5), of "er_add (pl_reg pl)" m2 ?g "efd e" "eflags e" ?st] by auto
    have "ev_plugin ?st (ev_type g) = Some pl" using g(4) by (simp add: ev_plugin_def)
    then have add: "kylin_event_add loc p guard (efd e) (eflags e) st = Some (KYLIN_ERROR_OK, ?st\<lparr>evs_world := w\<rparr>)"
      using g(1) i(1,2) w by (simp add: kylin_event_add_def Let_def)
    have "watches loc guard (?st\<lparr>evs_world := w\<rparr>) (l @ [e])" using g(4,5) i(3,4) by (auto simp: watches_def ev_plugin_def)
    then show ?thesis using add i(5) False by (auto simp: wl_add_def)
  qed
qed

lemma wl_del_skip: "\<forall>x \<in> set xs. efd x \<noteq> efd e \<Longrightarrow> wl_del e (xs @ ys) = (fst (wl_del e ys), xs @ snd (wl_del e ys))"
  by (induction xs) (auto simp: case_prod_beta)

lemma watch_modified:
  assumes "ev_wf loc m g" "set_content (ev_events g) = ps @ q # qs" "\<forall>x. x \<notin> region q 8 \<longrightarrow> m' x = m x" "dom m' = dom m"
  shows "ev_wf loc m' g" "watch m' g = map (event_at m) ps @ event_at m' q # map (event_at m) qs"
proof -
  note w = ev_wf_content [OF assms(1)]
  have "event_at m' p = event_at m p" if "p \<in> set (ps @ qs)" for p
    using w(1) w(4) [of p q] that assms(2,3) by (intro event_at_same) (auto simp: apart_def)
  then show "watch m' g = map (event_at m) ps @ event_at m' q # map (event_at m) qs" using assms(2) by (simp add: watch_def)
  show "ev_wf loc m' g" using assms(1) mapped_dom [OF assms(4)] by (simp add: ev_wf_def)
qed

lemma kylin_event_del_watches:
  assumes "watches loc guard st l"
  shows "\<exists>st'. kylin_event_del guard (efd e) (eflags e) st = Some (fst (wl_del e l), st') \<and> watches loc guard st' (snd (wl_del e l))
    \<and> dom (evs_mem st') = dom (evs_mem st)"
proof -
  let ?m = "evs_mem st"
  obtain g pl where g: "evs_store st guard = Some g" "ev_wf loc ?m g" "watch ?m g = l" "ev_plugin st (ev_type g) = Some pl" "mech_accepts (pl_reg pl)"
    using assms(1) by (auto simp: watches_def)
  let ?P = "\<lambda>q. efd (event_at ?m q) = efd e" and ?c = "set_content (ev_events g)"
  have f: "kylin_set_find (events_now 0 ?m g) (Cell (event_word \<lparr>efd = efd e, eflags = eflags e\<rparr>)) = Some (map_option Obj (find ?P ?c))"
    using event_find [OF g(2), of 0] by (simp add: arg_fd_event_word)
  show ?thesis
  proof (cases "find ?P ?c")
    case None
    then have "wl_del e l = (KYLIN_ERROR_NOENT, l)" using g(3) wl_del_skip [of l e "[]"] by (auto simp: watch_def find_None_iff)
    moreover have "kylin_event_del guard (efd e) (eflags e) st = Some (KYLIN_ERROR_NOENT, st)"
      using g(1) f None by (simp add: kylin_event_del_def ref_addr_def)
    ultimately show ?thesis using assms by auto
  next
    case (Some q)
    then obtain ps qs where c: "?c = ps @ q # qs" "?P q" "\<forall>p \<in> set ps. \<not> ?P p" using find_split [OF Some] by blast
    have q: "q \<noteq> 0" "mapped ?m (region q 8)" using ev_wf_content(3) [OF g(2), of q] c(1) by auto
    have l: "l = map (event_at ?m) ps @ event_at ?m q # map (event_at ?m) qs" using g(3) c(1) by (simp add: watch_def)
    have d: "wl_del e l = (KYLIN_ERROR_OK, map (event_at ?m) ps @ (if eflags (event_at ?m q) = eflags e then [] else [e]) @ map (event_at ?m) qs)"
      using c(2,3) unfolding l by (subst wl_del_skip) auto
    note fl = event_fields_mapped(2) [OF q(2)]
    have r: "ref_addr (Some (Obj q)) = q" by (simp add: ref_addr_def)
    show ?thesis
    proof (cases "eflags (event_at ?m q) = eflags e")
      case True
      obtain es where es: "kylin_set_remove (events_now 0 ?m g) (Ptr q) = Some (KYLIN_ERROR_OK, es)" "ev_wf loc ?m (g\<lparr>ev_events := es\<rparr>)" "set_content es = ps @ qs"
        using event_remove [OF g(2) c(1)] c(2,3) by auto
      obtain w where w: "ev_run (call_or KYLIN_ERROR_OK (map_option (\<lambda>f. f ?m g (efd e) (eflags e)) (er_del (pl_reg pl)))) st = Some (KYLIN_ERROR_OK, st\<lparr>evs_world := w\<rparr>)"
        using mech_call [OF g(5), of "er_del (pl_reg pl)" ?m g "efd e" "eflags e" st] by auto
      let ?st = "st\<lparr>evs_world := w, evs_store := (evs_store st)(guard \<mapsto> g\<lparr>ev_events := es\<rparr>)\<rparr>"
      have del: "kylin_event_del guard (efd e) (eflags e) st = Some (KYLIN_ERROR_OK, ?st)"
        using g(1,4) f Some q(1) fl True w es(1) r by (simp add: kylin_event_del_def)
      have "watches loc guard ?st (map (event_at ?m) (ps @ qs))" using es(2,3) g(4,5) by (auto simp: watches_def ev_plugin_def watch_def)
      then show ?thesis using del d True by auto
    next
      case False
      obtain m' where m': "mem_store ?m (q + 4) (le_bytes 4 (ucast (eflags e))) = Some m'" "event_at m' q = (event_at ?m q)\<lparr>eflags := eflags e\<rparr>"
          "\<forall>x. x \<notin> region q 8 \<longrightarrow> m' x = ?m x" "dom m' = dom ?m"
        using event_set_flags [OF q(2)] by blast
      obtain w where w: "ev_run (call_or KYLIN_ERROR_OK (map_option (\<lambda>f. f ?m g (efd e) (eflags e)) (er_mod (pl_reg pl)))) st = Some (KYLIN_ERROR_OK, st\<lparr>evs_world := w\<rparr>)"
        using mech_call [OF g(5), of "er_mod (pl_reg pl)" ?m g "efd e" "eflags e" st] by auto
      let ?st = "st\<lparr>evs_world := w, evs_mem := m'\<rparr>"
      have del: "kylin_event_del guard (efd e) (eflags e) st = Some (KYLIN_ERROR_OK, ?st)"
        using g(1,4) f Some q(1) fl False w m'(1) r by (simp add: kylin_event_del_def)
      have e: "event_at m' q = e" using m'(2) c(2) by simp
      have "watches loc guard ?st (map (event_at ?m) ps @ e # map (event_at ?m) qs)"
        using watch_modified [OF g(2) c(1) m'(3,4)] e g(1,4,5) by (auto simp: watches_def ev_plugin_def)
      then show ?thesis using del d False m'(4) by auto
    qed
  qed
qed

lemma watch_run_refines:
  assumes "watches loc guard st l" "fresh_ops ops (dom (evs_mem st))"
  shows "\<exists>st'. watch_run loc guard ops st = Some (fst (wl_run ops l), st') \<and> watches loc guard st' (snd (wl_run ops l))"
  using assms
proof (induction ops arbitrary: st l)
  case (Cons op ops)
  show ?case
  proof (cases op)
    case (Watch p e)
    then have p: "p \<noteq> 0" "region p 8 \<inter> dom (evs_mem st) = {}" "fresh_ops ops (dom (evs_mem st) \<union> region p 8)" using Cons.prems(2) by simp_all
    obtain st1 where st1: "kylin_event_add loc p guard (efd e) (eflags e) st = Some (fst (wl_add e l), st1)" "watches loc guard st1 (snd (wl_add e l))"
        "dom (evs_mem st1) \<subseteq> dom (evs_mem st) \<union> region p 8"
      using kylin_event_add_watches [OF Cons.prems(1) p(1,2)] by blast
    then show ?thesis using Cons.IH [OF st1(2) fresh_ops_mono [OF p(3) st1(3)]] Watch by (auto simp: case_prod_beta Let_def)
  next
    case (Unwatch e)
    obtain st1 where st1: "kylin_event_del guard (efd e) (eflags e) st = Some (fst (wl_del e l), st1)" "watches loc guard st1 (snd (wl_del e l))"
        "dom (evs_mem st1) = dom (evs_mem st)"
      using kylin_event_del_watches [OF Cons.prems(1)] by blast
    then show ?thesis using Cons.IH [OF st1(2)] Cons.prems(2) Unwatch by (auto simp: case_prod_beta Let_def)
  qed
qed simp

lemma find_map_option: "find P (map f xs) = map_option f (find (\<lambda>x. P (f x)) xs)"
  by (induction xs) auto

text \<open>What a caller learns from looking a descriptor up: the event the returned pointer points to, or nothing.\<close>

definition ev_lookup :: "kaddr \<Rightarrow> kfd \<Rightarrow> 'w kevents \<Rightarrow> kevent_event option option" where
  "ev_lookup guard fd st = do {
     g \<leftarrow> evs_store st guard;
     p \<leftarrow> kylin_event_event_get_by_fd (evs_mem st) g fd;
     Some (if p = 0 then None else Some (event_at (evs_mem st) p)) }"

lemma watches_lookup:
  assumes "watches loc guard st l"
  shows "ev_lookup guard fd st = Some (find (\<lambda>e. efd e = fd) l)"
proof -
  let ?m = "evs_mem st"
  obtain g where g: "evs_store st guard = Some g" "ev_wf loc ?m g" "watch ?m g = l" using assms(1) by (auto simp: watches_def)
  let ?f = "find (\<lambda>q. efd (event_at ?m q) = fd) (set_content (ev_events g))"
  have f: "kylin_event_event_get_by_fd ?m g fd = Some (ref_addr (map_option Obj ?f))"
    using event_find [OF g(2), of 0] by (simp add: arg_fd_event_word kylin_event_event_get_by_fd_def)
  have w: "find (\<lambda>e. efd e = fd) l = map_option (event_at ?m) ?f" using g(3) by (auto simp: watch_def find_map_option)
  show ?thesis
  proof (cases ?f)
    case None
    then show ?thesis using f g(1) w by (simp add: ev_lookup_def ref_addr_def)
  next
    case (Some q)
    then have "q \<in> set (set_content (ev_events g))" by (auto simp: find_Some_iff)
    then have "q \<noteq> 0" using ev_wf_content(3) [OF g(2)] by blast
    then show ?thesis using Some f g(1) w by (simp add: ev_lookup_def ref_addr_def)
  qed
qed

lemma kylin_set_remove_last:
  assumes "kylin_set_remove s key = Some (KYLIN_ERROR_OK, s')" "set_used s = 1"
  shows "set_val s' = set_val s \<and> set_used s' = 0"
proof -
  have f: "int_find 0 (set_used s) (set_test s key (\<lambda>r. r = 0)) = find_loop [0] (set_test s key (\<lambda>r. r = 0))"
    using assms(2) by (simp add: int_find_def)
  then obtain b where b: "set_test s key (\<lambda>r. r = 0) 0 = Some b" using assms(1) by (auto simp: kylin_set_remove_def bind_eq_Some_conv)
  show ?thesis
    using assms b f by (cases b) (auto simp: kylin_set_remove_def kylin_set_remove_by_index_def int_for_def)
qed

subsection \<open>Initialisation\<close>

lemma ev_init_plugin_frame: "ev_init_plugin i st = Some (r, st') \<Longrightarrow> evs_plugin st' = evs_plugin st \<and> evs_store st' = evs_store st
    \<and> evs_heap st' = evs_heap st \<and> evs_list st' = evs_list st"
  by (auto simp: ev_init_plugin_def bind_eq_Some_conv dest!: ev_run_frame split: if_splits)

lemma ev_init_all_frame: "ev_init_all is st = Some (r, st') \<Longrightarrow> evs_plugin st' = evs_plugin st \<and> evs_store st' = evs_store st
    \<and> evs_heap st' = evs_heap st \<and> evs_list st' = evs_list st"
proof (induction "is" arbitrary: st)
  case (Cons i "is")
  then obtain ret st1 where "ev_init_plugin i st = Some (ret, st1)" "(if ret \<noteq> KYLIN_ERROR_OK then Some (ret, st1) else ev_init_all is st1) = Some (r, st')"
    by (auto simp: bind_eq_Some_conv)
  then show ?case using Cons.IH [of st1] ev_init_plugin_frame [of i st ret st1] by (auto split: if_splits)
qed simp

lemma kylin_event_init_state:
  assumes "kylin_event_init True st = Some (KYLIN_ERROR_OK, st0)"
  shows "evs_plugin st0 = evs_plugin st" "obj_list (evs_heap st0) (evs_list st0) []" "evs_store st0 = evs_store st"
proof -
  obtain l where l: "kylin_list_create True (obj_opts (elist_match (evs_store st)) sizeof_kevent) = Some l"
    by (simp add: kylin_list_create_def)
  then obtain r where "ev_init_all [0..<KEVENT_TYPE_DEF_CNT] (st\<lparr>evs_list := l\<rparr>) = Some (r, st0)"
    using assms(1) by (auto simp: kylin_event_init_def kylin_event_plugin_init_def bind_eq_Some_conv split: if_splits)
  note f = ev_init_all_frame [OF this]
  show "evs_plugin st0 = evs_plugin st" "obj_list (evs_heap st0) (evs_list st0) []" "evs_store st0 = evs_store st"
    using f obj_list_create [OF l] by simp_all
qed

subsection \<open>Properties\<close>

text \<open>
  C12. An event object implements the watch list: every sequence of additions and deletions, with a mechanism
  that accepts them and allocations that return fresh memory, returns; its error codes are those of
  the abstract list, and afterwards looking up any descriptor yields the first event with this descriptor
  in the abstract list, with the flags it has there. The set, the memory of the events and the local
  structures never interfere.
\<close>

theorem kylin_event_refines_watch_list:
  assumes "watches loc guard st l" "fresh_ops ops (dom (evs_mem st))"
  shows "\<exists>st'. watch_run loc guard ops st = Some (fst (wl_run ops l), st')
    \<and> (\<forall>fd. ev_lookup guard fd st' = Some (find (\<lambda>e. efd e = fd) (snd (wl_run ops l))))"
  using watch_run_refines [OF assms] watches_lookup by blast

text \<open>
  C14. In every state that calls of the library reach after the initialisation, the reference count of an event
  mechanism is the number of event objects of its type that are alive, and the mechanism of a
  living object is registered: unregistering never takes the mechanism away from an object that uses it.
\<close>

theorem kylin_event_refs_counted:
  assumes "kylin_event_init True st = Some (KYLIN_ERROR_OK, st0)" "evs_plugin st = eplugin select poll epoll"
    "evs_store st = Map.empty" "event_step\<^sup>*\<^sup>* (st0, []) (st', vs)" "t < KEVENT_TYPE_MAX"
  shows "unat (pl_ref (evs_plugin st' ! t)) = length (filter (\<lambda>v. ev_type (the (evs_store st' v)) = t) vs)
    \<and> list_all (\<lambda>v. pl_type (evs_plugin st' ! ev_type (the (evs_store st' v))) \<noteq> KEVENT_TYPE_MAX) vs"
proof -
  note i = kylin_event_init_state [OF assms(1)]
  have t: "length (evs_plugin st0) = KEVENT_TYPE_MAX" "list_all (\<lambda>p. pl_ref p = 0) (evs_plugin st0)"
    using i(1) assms(2) by (simp_all add: eplugin_def free_plugin_def)
  have "events.inv (ev_view (st0, []))" using i assms(3) t(1) by (simp add: events.inv_def ev_view_def)
  moreover have "events.registry.counted (ev_view (st0, []))"
    unfolding ev_view_def split_conv using t by (intro events.counted_start) simp_all
  ultimately have "events.registry.counted (ev_view (st', vs))" using events.simulated [of event_step ev_view, OF event_step_tstep assms(4)] by blast
  then show ?thesis unfolding ev_view_def split_conv list_all_iff using events.counted_refs events.counted_registered assms(5) by fastforce
qed

text \<open>
  Deleting the last event of an object leaves its pointer in the first cell of the set: the object then
  counts 0 events, but its first event is not null, it is the deleted event. A walk over the events
  of an empty object visits it.
\<close>

theorem kylin_event_first_after_del:
  assumes "watches loc guard st [e]"
  shows "\<exists>st' g p. kylin_event_del guard (efd e) (eflags e) st = Some (KYLIN_ERROR_OK, st') \<and> evs_store st' guard = Some g
    \<and> kylin_event_event_count g = 0 \<and> kylin_event_event_get_first (evs_mem st') g = Some p \<and> p \<noteq> 0 \<and> event_at (evs_mem st') p = e"
proof -
  let ?m = "evs_mem st"
  obtain g pl where g: "evs_store st guard = Some g" "ev_wf loc ?m g" "watch ?m g = [e]" "ev_plugin st (ev_type g) = Some pl" "mech_accepts (pl_reg pl)"
    using assms(1) by (auto simp: watches_def)
  then obtain q where q: "set_content (ev_events g) = [q]" "event_at ?m q = e" by (auto simp: watch_def map_eq_Cons_conv)
  note wq = ev_wf_content(3) [OF g(2), of q, simplified q(1), simplified]
  have used: "set_used (ev_events g) = 1" using length_watch [OF g(2)] g(3) by simp
  have v: "arr_get (set_val (ev_events g)) 0 = Some q"
    using q(1) used by (cases "set_val (ev_events g)") (auto simp: set_content_def arr_get_def)
  obtain es where es: "kylin_set_remove (events_now 0 ?m g) (Ptr q) = Some (KYLIN_ERROR_OK, es)"
    using event_remove [OF g(2), of "[]" q "[]"] q(1) by auto
  then have last: "set_val es = set_val (ev_events g)" "set_used es = 0" using kylin_set_remove_last [of "events_now 0 ?m g"] used by auto
  have f: "kylin_set_find (events_now 0 ?m g) (Cell (event_word e)) = Some (Some (Obj q))"
    using event_find [OF g(2), of 0 "Cell (event_word e)"] q by (simp add: arg_fd_event_word)
  obtain w where w: "ev_run (call_or KYLIN_ERROR_OK (map_option (\<lambda>f. f ?m g (efd e) (eflags e)) (er_del (pl_reg pl)))) st = Some (KYLIN_ERROR_OK, st\<lparr>evs_world := w\<rparr>)"
    using mech_call [OF g(5), of "er_del (pl_reg pl)" ?m g "efd e" "eflags e" st] by auto
  let ?g = "g\<lparr>ev_events := es\<rparr>"
  have "kylin_event_del guard (efd e) (eflags e) st = Some (KYLIN_ERROR_OK, st\<lparr>evs_world := w, evs_store := (evs_store st)(guard \<mapsto> ?g)\<rparr>)"
    using g(1,4) f wq event_fields_mapped(2) [of ?m q] q(2) w es by (simp add: kylin_event_del_def ref_addr_def)
  moreover have "kylin_event_event_get_first ?m ?g = Some q"
    using v last(1) by (simp add: kylin_event_event_get_first_def kylin_set_first_def set_get_def events_opts_def kmath_val_get_def kobj_is_int_def ref_addr_def)
  ultimately show ?thesis using wq q(2) last(2) by (auto simp: kylin_event_event_count_def kylin_set_count_def)
qed

subsection \<open>Witnesses\<close>

text \<open>
  A state after the initialisation with mechanisms whose functions are null, so that they accept everything,
  and one with an object at address 100 that watches nothing. The local structure is at address 4096.
\<close>

definition demo_mem :: umem where
  "demo_mem = (\<lambda>a. if a - 4096 < 8 then Some 0 else None)"

definition demo_events :: "unit kevents" where
  "demo_events = \<lparr>evs_plugin = eplugin null_event_reg null_event_reg null_event_reg, evs_eid = 0, evs_store = Map.empty, evs_heap = Map.empty,
     evs_list = \<lparr>list_head = 0, list_tail = 0, list_opts = obj_opts (elist_match (Map.empty :: kaddr \<Rightarrow> unit kevent option)) sizeof_kevent, list_count = 0\<rparr>,
     evs_mem = demo_mem, evs_world = ()\<rparr>"

definition demo_opts :: "unit kevent_opts" where
  "demo_opts = \<lparr>eo_priv = 0, eo_recv = None, eo_send = None, eo_error = None, eo_timeout = None\<rparr>"

definition demo_kevent :: "unit kevent" where
  "demo_kevent = \<lparr>ev_id = 0, ev_type = KEVENT_TYPE_POLL, ev_opts = demo_opts, ev_priv = 0,
     ev_events = \<lparr>set_opts = events_opts 0 demo_mem, set_used = 0, set_val = replicate 4096 0\<rparr>\<rparr>"

definition demo_watching :: "unit kevents" where
  "demo_watching = demo_events\<lparr>evs_store := [100 \<mapsto> demo_kevent]\<rparr>"

lemma demo_init: "kylin_event_init True demo_events = Some (KYLIN_ERROR_OK, demo_events)"
proof -
  have i: "ev_init_plugin i st = Some (KYLIN_ERROR_OK, st)" if "evs_plugin st = eplugin null_event_reg null_event_reg null_event_reg" "i < 4"
    for i and st :: "unit kevents"
  proof -
    have "er_init (pl_reg (evs_plugin st ! i)) = None"
      using that by (auto simp: eplugin_def free_plugin_def null_event_reg_def less_Suc_eq numeral_eq_Suc)
    moreover have "length (evs_plugin st) = 4" using that(1) by (simp add: eplugin_def)
    ultimately show ?thesis using that(2) by (simp add: ev_init_plugin_def ev_plugin_def arr_get_def ev_run_def call_or_def)
  qed
  have "[0..<KEVENT_TYPE_DEF_CNT] = [0, 1, 2, 3]" by (simp add: numeral_eq_Suc)
  then have "ev_init_all [0..<KEVENT_TYPE_DEF_CNT] demo_events = Some (KYLIN_ERROR_OK, demo_events)"
    using i [of demo_events] by (simp add: demo_events_def)
  then show ?thesis
    unfolding kylin_event_init_def kylin_event_plugin_init_def kylin_list_create_def by (simp add: demo_events_def)
qed

lemma demo_loc: "region 4096 8 = dom demo_mem"
  by (auto simp: region_iff demo_mem_def word_less_nat_alt split: if_splits)

lemma demo_watches: "watches 4096 100 demo_watching []"
proof -
  have "mapped demo_mem (region 4096 8)" unfolding demo_loc by (auto simp: mapped_def)
  then have "ev_wf 4096 demo_mem demo_kevent" by (simp add: ev_wf_def demo_kevent_def set_wf_def set_content_def events_opts_def)
  moreover have "mech_accepts (null_event_reg :: unit kevent_reg)" by (simp add: mech_accepts_def null_event_reg_def call_or_def)
  moreover have "ev_plugin demo_watching KEVENT_TYPE_POLL = Some (free_plugin null_event_reg KEVENT_TYPE_POLL)"
    by (simp add: ev_plugin_def demo_watching_def demo_events_def eplugin_def arr_get_def)
  ultimately show ?thesis
    by (auto simp: watches_def demo_watching_def demo_events_def demo_kevent_def watch_def set_content_def free_plugin_def intro!: exI [of _ demo_kevent])
qed

lemma demo_fresh: "region 8192 8 \<inter> dom (evs_mem demo_watching) = {}"
proof -
  have "region 4096 8 \<inter> region 8192 8 = {}" using region_disjoint [of 8 4096 8 4096] by simp
  then show ?thesis by (simp add: demo_watching_def demo_events_def demo_loc [symmetric] Int_commute)
qed

abbreviation demo_event :: kevent_event where "demo_event \<equiv> \<lparr>efd = 5, eflags = KEVENT_FLAG_READ\<rparr>"

theorem kylin_event_refines_watch_list_witness:
  "\<exists>st'. watch_run 4096 100 [Watch 8192 demo_event, Unwatch \<lparr>efd = 6, eflags = 0\<rparr>] demo_watching = Some ([KYLIN_ERROR_OK, KYLIN_ERROR_NOENT], st')
    \<and> ev_lookup 100 5 st' = Some (Some demo_event)"
  using kylin_event_refines_watch_list [OF demo_watches, of "[Watch 8192 demo_event, Unwatch \<lparr>efd = 6, eflags = 0\<rparr>]"] demo_fresh
  by (auto simp: wl_add_def)

theorem kylin_event_refs_counted_witness:
  "\<exists>st'. event_step\<^sup>*\<^sup>* (demo_events, []) (st', [100]) \<and> unat (pl_ref (evs_plugin st' ! 1)) = length [v \<leftarrow> [100]. ev_type (the (evs_store st' v)) = 1]"
proof -
  have "obj_list (evs_heap demo_events) (ev_list_now demo_events) []"
    by (simp add: ev_list_now_def demo_events_def obj_list_def dlist_def list_vals_def)
  then obtain h l where "kylin_list_insert_head Map.empty (evs_heap demo_events) (ev_list_now demo_events) 200 100 = Some (Some (Obj 100), Map.empty, h, l)"
    using obj_list_insert_head [of "evs_heap demo_events" "ev_list_now demo_events" "[]" 200 Map.empty 100]
    by (auto simp: ev_list_now_def demo_events_def obj_guard_def obj_opts_def)
  then obtain st' where c: "kylin_event_create 100 True 200 KEVENT_TYPE_POLL demo_opts demo_events = Some (100, st')"
    by (simp add: kylin_event_create_def ev_plugin_def demo_events_def eplugin_def free_plugin_def kylin_set_create_def events_opts_def
        null_event_reg_def ev_run_def call_or_def ev_ref_def arr_get_def arr_set_def)
  then have "event_step (demo_events, []) (st', [100])"
    using event_step.create [OF c, of "[]"] by (simp add: demo_events_def)
  then have s: "event_step\<^sup>*\<^sup>* (demo_events, []) (st', [100])" by simp
  show ?thesis using kylin_event_refs_counted [OF demo_init _ _ s, of _ _ _ 1] s by (auto simp: demo_events_def)
qed

theorem kylin_event_first_after_del_witness:
  "\<exists>st st' g p. kylin_event_add 4096 8192 100 5 KEVENT_FLAG_READ demo_watching = Some (KYLIN_ERROR_OK, st)
    \<and> kylin_event_del 100 5 KEVENT_FLAG_READ st = Some (KYLIN_ERROR_OK, st') \<and> evs_store st' 100 = Some g
    \<and> kylin_event_event_count g = 0 \<and> kylin_event_event_get_first (evs_mem st') g = Some p \<and> p \<noteq> 0"
proof -
  obtain st where "kylin_event_add 4096 8192 100 5 KEVENT_FLAG_READ demo_watching = Some (KYLIN_ERROR_OK, st)" "watches 4096 100 st [demo_event]"
    using kylin_event_add_watches [OF demo_watches, of 8192 demo_event] demo_fresh by (auto simp: wl_add_def)
  then show ?thesis using kylin_event_first_after_del [of 4096 100 st demo_event] by auto
qed

end
