(* ===== verification/Kylin_Poll.thy ===== *)
theory Kylin_Poll
  imports Kylin_Event
begin

section \<open>The event mechanisms of Linux (lib/core/event/plugin)\<close>

text \<open>
  The functions that the three built-in mechanisms register. The system calls and the allocator are
  parameters; they and the user's callbacks act on the state \<open>'k\<close> of the system. The private structures of epoll
  and select objects are in stores beside it. Arrays and the loops that fill and read them are as in the source.
\<close>

subsection \<open>Definitions\<close>

abbreviation POLLIN :: "16 word" where "POLLIN \<equiv> 1"
abbreviation POLLOUT :: "16 word" where "POLLOUT \<equiv> 4"
abbreviation POLLERR :: "16 word" where "POLLERR \<equiv> 8"
abbreviation POLLHUP :: "16 word" where "POLLHUP \<equiv> 16"
abbreviation POLLNVAL :: "16 word" where "POLLNVAL \<equiv> 32"

abbreviation EPOLLIN :: "32 word" where "EPOLLIN \<equiv> 1"
abbreviation EPOLLOUT :: "32 word" where "EPOLLOUT \<equiv> 4"
abbreviation EPOLLERR :: "32 word" where "EPOLLERR \<equiv> 8"
abbreviation EPOLLHUP :: "32 word" where "EPOLLHUP \<equiv> 16"
abbreviation EPOLLRDHUP :: "32 word" where "EPOLLRDHUP \<equiv> 8192"

abbreviation EPOLL_CTL_ADD :: "32 word" where "EPOLL_CTL_ADD \<equiv> 1"
abbreviation EPOLL_CTL_DEL :: "32 word" where "EPOLL_CTL_DEL \<equiv> 2"

record pollfd =
  pf_fd :: kfd
  pf_events :: "16 word"
  pf_revents :: "16 word"

record kevent_epoll =
  ep_cfd :: kfd
  ep_maxevents :: "32 word"
  ep_events :: kaddr

text \<open>A descriptor set is an array of bits; \<open>None\<close> is a null pointer to one.\<close>

record kevent_select =
  se_rdsets :: "bool list option"
  se_wtsets :: "bool list option"
  se_exsets :: "bool list option"
  se_fd_set :: "kset list"

record 'k kworld =
  kw_epoll :: "kaddr \<Rightarrow> kevent_epoll option"
  kw_select :: "kaddr \<Rightarrow> kevent_select option"
  kw_sys :: 'k

definition sys_run :: "('k, 'r) kcall \<Rightarrow> ('k kworld, 'r) kcall" where
  "sys_run f w = map_option (\<lambda>(r, k). (r, w\<lparr>kw_sys := k\<rparr>)) (f (kw_sys w))"

text \<open>A callback of the user, called when the condition holds and the pointer is not null.\<close>

definition act :: "bool \<Rightarrow> (kfd \<Rightarrow> kaddr \<Rightarrow> ('w, unit) kcall) option \<Rightarrow> kfd \<Rightarrow> kaddr \<Rightarrow> 'w \<Rightarrow> 'w option" where
  "act c f fd priv w = (if c then (case f of Some f \<Rightarrow> map_option snd (f fd priv w) | None \<Rightarrow> Some w) else Some w)"

subsubsection \<open>kylin_poll.c\<close>

definition kpoll_add :: "umem \<Rightarrow> 'w kevent \<Rightarrow> kfd \<Rightarrow> kevent_flag \<Rightarrow> ('w, kerr) kcall" where
  "kpoll_add m guard fd flags w = Some (KYLIN_ERROR_OK, w)"

definition kpoll_del :: "umem \<Rightarrow> 'w kevent \<Rightarrow> kfd \<Rightarrow> kevent_flag \<Rightarrow> ('w, kerr) kcall" where
  "kpoll_del m guard fd flags w = Some (KYLIN_ERROR_OK, w)"

definition kpoll_mod :: "umem \<Rightarrow> 'w kevent \<Rightarrow> kfd \<Rightarrow> kevent_flag \<Rightarrow> ('w, kerr) kcall" where
  "kpoll_mod m guard fd flags w = Some (KYLIN_ERROR_OK, w)"

text \<open>The walk over the events that fills the array; every step stores behind the last.\<close>

definition kpoll_entry :: "kevent_event \<Rightarrow> pollfd \<Rightarrow> pollfd" where
  "kpoll_entry e pf = pf\<lparr>pf_fd := efd e,
     pf_events := pf_events pf OR (if eflags e AND KEVENT_FLAG_READ \<noteq> 0 then POLLIN else 0)
       OR (if eflags e AND KEVENT_FLAG_WRITE \<noteq> 0 then POLLOUT else 0)\<rparr>"

partial_function (option) kpoll_fill :: "umem \<Rightarrow> 'w kevent \<Rightarrow> kaddr \<Rightarrow> nat \<Rightarrow> pollfd list \<Rightarrow> pollfd list option" where
  "kpoll_fill m guard event index fds =
     (if event = 0 then Some fds
      else do {
        fd \<leftarrow> event_fd m event;
        flags \<leftarrow> event_flags m event;
        pf \<leftarrow> arr_get fds index;
        fds \<leftarrow> arr_set fds index (kpoll_entry \<lparr>efd = fd, eflags = flags\<rparr> pf);
        event \<leftarrow> kylin_event_event_get_next m guard event;
        kpoll_fill m guard event (index + 1) fds })"

declare kpoll_fill.simps [code]

definition kpoll_dispatch :: "'w kevent_opts \<Rightarrow> pollfd \<Rightarrow> 'w \<Rightarrow> 'w option" where
  "kpoll_dispatch eopts pf w = do {
     w \<leftarrow> act (pf_revents pf AND POLLIN \<noteq> 0) (eo_recv eopts) (pf_fd pf) (eo_priv eopts) w;
     w \<leftarrow> act (pf_revents pf AND POLLOUT \<noteq> 0) (eo_send eopts) (pf_fd pf) (eo_priv eopts) w;
     act (pf_revents pf AND (POLLERR OR POLLHUP OR POLLNVAL) \<noteq> 0) (eo_error eopts) (pf_fd pf) (eo_priv eopts) w }"

text \<open>The call of \<^verbatim>\<open>poll\<close> returns a count and the array with the returned events; \<open>ok\<close> says whether the array was allocated.\<close>

definition kpoll_proc ::
    "bool \<Rightarrow> (pollfd list \<Rightarrow> 32 word \<Rightarrow> ('w, 32 word \<times> pollfd list) kcall) \<Rightarrow> umem \<Rightarrow> 'w kevent \<Rightarrow> 64 word \<Rightarrow> ('w, kerr) kcall" where
  "kpoll_proc ok poll m guard timeout w = do {
     let eopts = kylin_event_get_opts guard;
     let ecnt = kylin_event_event_count guard;
     if ecnt = 0 then Some (KYLIN_ERROR_NOENT, w)
     else if \<not> ok then Some (KYLIN_ERROR_NOMEM, w)
     else do {
       event \<leftarrow> kylin_event_event_get_first m guard;
       fds \<leftarrow> kpoll_fill m guard event 0 (replicate (unat ecnt) \<lparr>pf_fd = 0, pf_events = 0, pf_revents = 0\<rparr>);
       ((nevents, fds), w) \<leftarrow> poll fds (ucast timeout) w;
       w \<leftarrow> (if nevents \<noteq> 0 then for_loop [0..<unat ecnt] (\<lambda>i w. do {
             pf \<leftarrow> arr_get fds i;
             kpoll_dispatch eopts pf w }) w
           else Some w);
       Some (KYLIN_ERROR_OK, w) } }"

definition kpoll_create :: "('w, kaddr) kcall \<Rightarrow> ('w, kaddr) kcall" where
  "kpoll_create alloc w = alloc w"

definition kpoll_destroy :: "(kaddr \<Rightarrow> ('w, unit) kcall) \<Rightarrow> kaddr \<Rightarrow> ('w, unit) kcall" where
  "kpoll_destroy release priv w = (if priv \<noteq> 0 then release priv w else Some ((), w))"

definition kpoll_reg ::
    "('w, kaddr) kcall \<Rightarrow> (kaddr \<Rightarrow> ('w, unit) kcall) \<Rightarrow> bool \<Rightarrow> (pollfd list \<Rightarrow> 32 word \<Rightarrow> ('w, 32 word \<times> pollfd list) kcall) \<Rightarrow> 'w kevent_reg" where
  "kpoll_reg alloc release ok poll = \<lparr>er_add = Some kpoll_add, er_del = Some kpoll_del, er_mod = Some kpoll_mod,
     er_proc = Some (kpoll_proc ok poll), er_create = Some (kpoll_create alloc), er_destroy = Some (kpoll_destroy release),
     er_init = Some (\<lambda>w. Some (KYLIN_ERROR_OK, w)), er_fini = Some (\<lambda>w. Some ((), w))\<rparr>"

subsubsection \<open>kylin_epoll.c\<close>

text \<open>The control call takes the epoll descriptor, the operation, the descriptor and the event mask.\<close>

type_synonym 'k epoll_ctl = "kfd \<Rightarrow> 32 word \<Rightarrow> kfd \<Rightarrow> 32 word \<Rightarrow> ('k, 32 word) kcall"

definition ctl_if :: "'k epoll_ctl \<Rightarrow> bool \<Rightarrow> kfd \<Rightarrow> 32 word \<Rightarrow> kfd \<Rightarrow> 32 word \<Rightarrow> ('k kworld, kerr) kcall" where
  "ctl_if ctl c cfd op fd events w = (if c then sys_run (ctl cfd op fd events) w else Some (KYLIN_ERROR_OK, w))"

definition kepoll_add :: "'k epoll_ctl \<Rightarrow> umem \<Rightarrow> 'k kworld kevent \<Rightarrow> kfd \<Rightarrow> kevent_flag \<Rightarrow> ('k kworld, kerr) kcall" where
  "kepoll_add ctl m guard fd flags w =
     (if kylin_event_get_priv_data guard = 0 then Some (KYLIN_ERROR_NOENT, w)
      else do {
        ep \<leftarrow> kw_epoll w (kylin_event_get_priv_data guard);
        (ret, w) \<leftarrow> ctl_if ctl (flags AND KEVENT_FLAG_READ \<noteq> 0) (ep_cfd ep) EPOLL_CTL_ADD fd (EPOLLIN OR EPOLLRDHUP) w;
        if ret \<noteq> KYLIN_ERROR_OK then Some (ret, w)
        else ctl_if ctl (flags AND KEVENT_FLAG_WRITE \<noteq> 0) (ep_cfd ep) EPOLL_CTL_ADD fd (EPOLLOUT OR EPOLLRDHUP) w })"

definition kepoll_del :: "'k epoll_ctl \<Rightarrow> umem \<Rightarrow> 'k kworld kevent \<Rightarrow> kfd \<Rightarrow> kevent_flag \<Rightarrow> ('k kworld, kerr) kcall" where
  "kepoll_del ctl m guard fd flags w =
     (if kylin_event_get_priv_data guard = 0 then Some (KYLIN_ERROR_NOENT, w)
      else do {
        ep \<leftarrow> kw_epoll w (kylin_event_get_priv_data guard);
        (ret, w) \<leftarrow> ctl_if ctl (flags AND KEVENT_FLAG_READ \<noteq> 0) (ep_cfd ep) EPOLL_CTL_DEL fd EPOLLIN w;
        if ret \<noteq> KYLIN_ERROR_OK then Some (ret, w)
        else ctl_if ctl (flags AND KEVENT_FLAG_WRITE \<noteq> 0) (ep_cfd ep) EPOLL_CTL_DEL fd EPOLLOUT w })"

definition kepoll_mod :: "'k epoll_ctl \<Rightarrow> umem \<Rightarrow> 'k kworld kevent \<Rightarrow> kfd \<Rightarrow> kevent_flag \<Rightarrow> ('k kworld, kerr) kcall" where
  "kepoll_mod ctl m guard fd flags w = do {
     event \<leftarrow> kylin_event_event_get_by_fd m guard fd;
     if event = 0 then Some (KYLIN_ERROR_NOENT, w)
     else do {
       old \<leftarrow> event_flags m event;
       (ret, w) \<leftarrow> kepoll_del ctl m guard fd old w;
       if ret \<noteq> KYLIN_ERROR_OK then Some (ret, w)
       else kepoll_add ctl m guard fd flags w } }"

definition kepoll_dispatch :: "'w kevent_opts \<Rightarrow> kfd \<Rightarrow> 32 word \<Rightarrow> 'w \<Rightarrow> 'w option" where
  "kepoll_dispatch eopts fd flags w =
     (if flags AND (EPOLLHUP OR EPOLLERR) \<noteq> 0 then act True (eo_error eopts) fd (eo_priv eopts) w
      else do {
        w \<leftarrow> act (flags AND EPOLLIN \<noteq> 0) (eo_recv eopts) fd (eo_priv eopts) w;
        w \<leftarrow> act (flags AND EPOLLOUT \<noteq> 0) (eo_send eopts) fd (eo_priv eopts) w;
        act (flags AND EPOLLRDHUP \<noteq> 0) (eo_error eopts) fd (eo_priv eopts) w })"

text \<open>
  The call of \<^verbatim>\<open>epoll_wait\<close> writes to the array at \<open>ep_events\<close>; it is given whether there is one, and
  returns a count and what the array holds then.
\<close>

definition kepoll_proc ::
    "(kfd \<Rightarrow> bool \<Rightarrow> 32 word \<Rightarrow> 32 word \<Rightarrow> ('k, 32 word \<times> (kfd \<times> 32 word) list) kcall)
      \<Rightarrow> umem \<Rightarrow> 'k kworld kevent \<Rightarrow> 64 word \<Rightarrow> ('k kworld, kerr) kcall" where
  "kepoll_proc wait m guard timeout w =
     (if kylin_event_get_priv_data guard = 0 then Some (KYLIN_ERROR_NOENT, w)
      else do {
        let eopts = kylin_event_get_opts guard;
        ep \<leftarrow> kw_epoll w (kylin_event_get_priv_data guard);
        ((nevents, events), w) \<leftarrow> sys_run (wait (ep_cfd ep) (ep_events ep \<noteq> 0) (ep_maxevents ep) (ucast timeout)) w;
        w \<leftarrow> for_loop [0..<nat (sint nevents)] (\<lambda>i w. do {
          (fd, flags) \<leftarrow> arr_get events i;
          kepoll_dispatch eopts fd flags w }) w;
        Some (KYLIN_ERROR_OK, w) })"

text \<open>
  The results of the two allocations are arguments. The second test of the source is of the object, not
  of its array, and never holds.
\<close>

definition kepoll_create :: "kaddr \<Rightarrow> kaddr \<Rightarrow> (32 word \<Rightarrow> ('k, 32 word) kcall) \<Rightarrow> ('k kworld, kaddr) kcall" where
  "kepoll_create obj arr epoll_create w =
     (if obj = 0 then Some (0, w)
      else do {
        (cfd, w) \<leftarrow> sys_run (epoll_create 64) w;
        if cfd = - 1 then Some (0, w)
        else Some (obj, w\<lparr>kw_epoll := (kw_epoll w)(obj \<mapsto> \<lparr>ep_cfd = cfd, ep_maxevents = 64, ep_events = arr\<rparr>)\<rparr>) })"

definition kepoll_destroy :: "(kfd \<Rightarrow> ('k, 32 word) kcall) \<Rightarrow> kaddr \<Rightarrow> ('k kworld, unit) kcall" where
  "kepoll_destroy close priv w =
     (if priv \<noteq> 0 then do {
        ep \<leftarrow> kw_epoll w priv;
        (_, w) \<leftarrow> sys_run (close (ep_cfd ep)) w;
        Some ((), w\<lparr>kw_epoll := (kw_epoll w)(priv := None)\<rparr>) }
      else Some ((), w))"

subsubsection \<open>kylin_select.c\<close>

abbreviation SELECT_FDSET_TYPE_NUM :: nat where "SELECT_FDSET_TYPE_NUM \<equiv> 3"
abbreviation FD_SETSIZE :: nat where "FD_SETSIZE \<equiv> 1024"

text \<open>The macros on a descriptor set, through a pointer that may be null; a descriptor outside the set is out of bounds.\<close>

definition fd_put :: "bool \<Rightarrow> kfd \<Rightarrow> bool list option \<Rightarrow> bool list option option" where
  "fd_put b fd p = do { s \<leftarrow> p; s \<leftarrow> arr_set s (unat fd) b; Some (Some s) }"

definition FD_ISSET :: "kfd \<Rightarrow> bool list option \<Rightarrow> bool option" where
  "FD_ISSET fd p = do { s \<leftarrow> p; arr_get s (unat fd) }"

definition FD_ZERO :: "bool list option \<Rightarrow> bool list option option" where
  "FD_ZERO p = do { _ \<leftarrow> p; Some (Some (replicate FD_SETSIZE False)) }"

text \<open>The three classes of events, numbered as the source numbers their sets: read, write and error.\<close>

definition sel_bits :: "nat \<Rightarrow> kevent_select \<Rightarrow> bool list option" where
  "sel_bits i se = (if i = 0 then se_rdsets se else if i = 1 then se_wtsets se else se_exsets se)"

definition sel_put_bits :: "nat \<Rightarrow> bool list option \<Rightarrow> kevent_select \<Rightarrow> kevent_select" where
  "sel_put_bits i b se = (if i = 0 then se\<lparr>se_rdsets := b\<rparr> else if i = 1 then se\<lparr>se_wtsets := b\<rparr> else se\<lparr>se_exsets := b\<rparr>)"

definition sel_flag :: "nat \<Rightarrow> kevent_flag" where
  "sel_flag i = (if i = 0 then KEVENT_FLAG_READ else if i = 1 then KEVENT_FLAG_WRITE else KEVENT_FLAG_ERROR)"

text \<open>The set takes the descriptor through a pointer to the argument, here at address 8.\<close>

definition fd_arg :: "kfd \<Rightarrow> umem" where
  "fd_arg fd = (\<lambda>a. if a - 8 < 4 then Some (le_bytes 4 (ucast fd) ! unat (a - 8)) else None)"

definition sel_insert :: "nat \<Rightarrow> kfd \<Rightarrow> kevent_select \<Rightarrow> (kerr \<times> kevent_select) option" where
  "sel_insert i fd se = do {
     b \<leftarrow> fd_put True fd (sel_bits i se);
     s \<leftarrow> arr_get (se_fd_set se) i;
     (ret, s, _) \<leftarrow> kylin_set_insert (fd_arg fd) s 8;
     ss \<leftarrow> arr_set (se_fd_set se) i s;
     Some (ret, (sel_put_bits i b se)\<lparr>se_fd_set := ss\<rparr>) }"

definition sel_remove :: "nat \<Rightarrow> kfd \<Rightarrow> kevent_select \<Rightarrow> (kerr \<times> kevent_select) option" where
  "sel_remove i fd se = do {
     b \<leftarrow> fd_put False fd (sel_bits i se);
     s \<leftarrow> arr_get (se_fd_set se) i;
     (ret, s) \<leftarrow> kylin_set_remove s (Cell (ucast fd));
     ss \<leftarrow> arr_set (se_fd_set se) i s;
     Some (ret, (sel_put_bits i b se)\<lparr>se_fd_set := ss\<rparr>) }"

text \<open>The three blocks of a function one after the other, leaving at the first error.\<close>

fun sel_each :: "nat list \<Rightarrow> (nat \<Rightarrow> kevent_select \<Rightarrow> (kerr \<times> kevent_select) option) \<Rightarrow> kevent_select \<Rightarrow> (kerr \<times> kevent_select) option" where
  "sel_each [] f se = Some (KYLIN_ERROR_OK, se)"
| "sel_each (i # is) f se = do {
     (ret, se) \<leftarrow> f i se;
     if ret \<noteq> KYLIN_ERROR_OK then Some (ret, se) else sel_each is f se }"

definition sel_update ::
    "(nat \<Rightarrow> kevent_select \<Rightarrow> (kerr \<times> kevent_select) option) \<Rightarrow> 'k kworld kevent \<Rightarrow> ('k kworld, kerr) kcall" where
  "sel_update f guard w =
     (if kylin_event_get_priv_data guard = 0 then Some (KYLIN_ERROR_NOENT, w)
      else do {
        se \<leftarrow> kw_select w (kylin_event_get_priv_data guard);
        (ret, se) \<leftarrow> sel_each [0, 1, 2] f se;
        Some (ret, w\<lparr>kw_select := (kw_select w)(kylin_event_get_priv_data guard \<mapsto> se)\<rparr>) })"

definition kselect_add :: "umem \<Rightarrow> 'k kworld kevent \<Rightarrow> kfd \<Rightarrow> kevent_flag \<Rightarrow> ('k kworld, kerr) kcall" where
  "kselect_add m guard fd flags =
     sel_update (\<lambda>i se. if flags AND sel_flag i \<noteq> 0 then sel_insert i fd se else Some (KYLIN_ERROR_OK, se)) guard"

definition kselect_del :: "umem \<Rightarrow> 'k kworld kevent \<Rightarrow> kfd \<Rightarrow> kevent_flag \<Rightarrow> ('k kworld, kerr) kcall" where
  "kselect_del m guard fd flags =
     sel_update (\<lambda>i se. if flags AND sel_flag i \<noteq> 0 then sel_remove i fd se else Some (KYLIN_ERROR_OK, se)) guard"

definition kselect_mod :: "umem \<Rightarrow> 'k kworld kevent \<Rightarrow> kfd \<Rightarrow> kevent_flag \<Rightarrow> ('k kworld, kerr) kcall" where
  "kselect_mod m guard fd flags =
     sel_update (\<lambda>i se. do {
       b \<leftarrow> FD_ISSET fd (sel_bits i se);
       if NOT flags AND sel_flag i \<noteq> 0 then (if b then sel_remove i fd se else Some (KYLIN_ERROR_OK, se))
       else (if \<not> b then sel_insert i fd se else Some (KYLIN_ERROR_OK, se)) }) guard"

text \<open>The walk over a set of descriptors: the pointer is to a cell of the array.\<close>

partial_function (option) sel_foreach :: "kset \<Rightarrow> nat kref option \<Rightarrow> (kfd \<Rightarrow> 's \<Rightarrow> 's option) \<Rightarrow> 's \<Rightarrow> 's option" where
  "sel_foreach ks r body s = (case r of
       Some (Slot i) \<Rightarrow> do {
         v \<leftarrow> arr_get (set_val ks) i;
         s \<leftarrow> body (ucast v) s;
         r \<leftarrow> kylin_set_next ks (Cell v);
         sel_foreach ks r body s }
     | Some (Obj _) \<Rightarrow> None
     | None \<Rightarrow> Some s)"

declare sel_foreach.simps [code]

definition set_foreach :: "kset \<Rightarrow> (kfd \<Rightarrow> 's \<Rightarrow> 's option) \<Rightarrow> 's \<Rightarrow> 's option" where
  "set_foreach ks body s = do { r \<leftarrow> kylin_set_first ks; sel_foreach ks r body s }"

definition sel_last :: "kevent_select \<Rightarrow> nat \<Rightarrow> int option" where
  "sel_last se i = do {
     s \<leftarrow> arr_get (se_fd_set se) i;
     r \<leftarrow> kylin_set_last s;
     case r of Some (Slot j) \<Rightarrow> map_option (\<lambda>v. sint (ucast v :: kfd)) (arr_get (set_val s) j) | _ \<Rightarrow> None }"

text \<open>One class after the call of \<^verbatim>\<open>select\<close>: the callbacks of its ready descriptors, and watching all of its descriptors again.\<close>

definition sel_dispatch ::
    "nat \<Rightarrow> (kfd \<Rightarrow> kaddr \<Rightarrow> ('w, unit) kcall) option \<Rightarrow> kaddr \<Rightarrow> kevent_select \<Rightarrow> 'w \<Rightarrow> 'w option" where
  "sel_dispatch i f priv se w = do {
     s \<leftarrow> arr_get (se_fd_set se) i;
     set_foreach s (\<lambda>fd w. do { b \<leftarrow> FD_ISSET fd (sel_bits i se); act b f fd priv w }) w }"

definition sel_restore :: "nat \<Rightarrow> kevent_select \<Rightarrow> kevent_select option" where
  "sel_restore i se = do {
     s \<leftarrow> arr_get (se_fd_set se) i;
     b \<leftarrow> set_foreach s (\<lambda>fd b. fd_put True fd b) (sel_bits i se);
     Some (sel_put_bits i b se) }"

definition kselect_proc ::
    "(int \<Rightarrow> bool list option \<Rightarrow> bool list option \<Rightarrow> bool list option \<Rightarrow> 64 word
        \<Rightarrow> ('k, 32 word \<times> bool list option \<times> bool list option \<times> bool list option) kcall)
      \<Rightarrow> umem \<Rightarrow> 'k kworld kevent \<Rightarrow> 64 word \<Rightarrow> ('k kworld, kerr) kcall" where
  "kselect_proc select m guard timeout w = do {
     let eopts = kylin_event_get_opts guard;
     let priv = kylin_event_get_priv_data guard;
     se \<leftarrow> kw_select w priv;
     f0 \<leftarrow> sel_last se 0;
     f1 \<leftarrow> sel_last se 1;
     f2 \<leftarrow> sel_last se 2;
     let max_fd = max (max f0 f1) f2;
     ((n, rd, wt, ex), w) \<leftarrow> sys_run (select (max_fd + 1) (se_rdsets se) (se_wtsets se) (se_exsets se) timeout) w;
     let se = se\<lparr>se_rdsets := rd, se_wtsets := wt, se_exsets := ex\<rparr>;
     w \<leftarrow> (if n \<noteq> 0 then do {
             w \<leftarrow> sel_dispatch 0 (eo_recv eopts) (eo_priv eopts) se w;
             w \<leftarrow> sel_dispatch 1 (eo_send eopts) (eo_priv eopts) se w;
             sel_dispatch 2 (eo_error eopts) (eo_priv eopts) se w }
           else Some w);
     se \<leftarrow> sel_restore 0 se;
     se \<leftarrow> sel_restore 1 se;
     se \<leftarrow> sel_restore 2 se;
     Some (KYLIN_ERROR_OK, w\<lparr>kw_select := (kw_select w)(priv \<mapsto> se)\<rparr>) }"

definition fd_of :: "karg \<Rightarrow> kfd" where
  "fd_of a = (case a of Cell w \<Rightarrow> ucast w | Ptr p \<Rightarrow> ucast p)"

definition fd_compare :: "karg \<Rightarrow> karg \<Rightarrow> int" where
  "fd_compare v1 v2 = (if sint (fd_of v1) > sint (fd_of v2) then 1 else if sint (fd_of v1) < sint (fd_of v2) then -1 else 0)"

text \<open>The options name an allocator for values, which integers do not use. The sets are not ordered: the option is left out.\<close>

definition fdset_opts :: kset_opts where
  "fdset_opts = \<lparr>set_is_order = False, set_cap = 64, set_val_type = KOBJ_INT32, set_val_size = 4, set_compare = Some fd_compare,
     set_val_ctor = Some (mem_alloc 0), set_guard_ctor = None\<rparr>"

text \<open>
  The results of the allocations of the object and of its three sets are arguments. The pointers to the descriptor
  sets are null, as the allocation leaves them.
\<close>

definition kselect_create :: "kaddr \<Rightarrow> bool list \<Rightarrow> ('k kworld, kaddr) kcall" where
  "kselect_create obj oks w =
     (if obj = 0 then Some (0, w)
      else (case those (map (\<lambda>i. kylin_set_create (oks ! i) fdset_opts) [0..<SELECT_FDSET_TYPE_NUM]) of
          None \<Rightarrow> Some (0, w)
        | Some sets \<Rightarrow> do {
            rd \<leftarrow> FD_ZERO None;
            wt \<leftarrow> FD_ZERO None;
            ex \<leftarrow> FD_ZERO None;
            Some (obj, w\<lparr>kw_select := (kw_select w)(obj \<mapsto> \<lparr>se_rdsets = rd, se_wtsets = wt, se_exsets = ex, se_fd_set = sets\<rparr>)\<rparr>) }))"

definition kselect_destroy :: "kaddr \<Rightarrow> ('k kworld, unit) kcall" where
  "kselect_destroy priv w =
     (if priv \<noteq> 0 then do {
        se \<leftarrow> kw_select w priv;
        s \<leftarrow> arr_get (se_fd_set se) 2; _ \<leftarrow> kylin_set_destroy s;
        s \<leftarrow> arr_get (se_fd_set se) 1; _ \<leftarrow> kylin_set_destroy s;
        s \<leftarrow> arr_get (se_fd_set se) 0; _ \<leftarrow> kylin_set_destroy s;
        Some ((), w\<lparr>kw_select := (kw_select w)(priv := None)\<rparr>) }
      else Some ((), w))"

subsection \<open>The walk over the events\<close>

text \<open>The successor of an event is the one behind the first event with its descriptor.\<close>

definition first_or_null :: "kaddr list \<Rightarrow> kaddr" where
  "first_or_null ps = (case ps of [] \<Rightarrow> 0 | p # _ \<Rightarrow> p)"

lemma event_next:
  assumes wf: "ev_wf loc m g" and c: "set_content (ev_events g) = xs @ q # ys" and r: "r \<in> set (set_content (ev_events g))"
    and "efd (event_at m q) = efd (event_at m r)" "\<forall>x \<in> set xs. efd (event_at m x) \<noteq> efd (event_at m r)"
  shows "kylin_event_event_get_next m g r = Some (first_or_null ys)"
proof -
  let ?s = "events_now 0 m g" and ?P = "\<lambda>w. \<not> set_holds (events_now 0 m g) (Ptr r) (\<lambda>r. r = 0) w"
  have swf: "set_wf ?s" by (rule events_now_wf [OF wf])
  have len: "set_used (ev_events g) = length xs + 1 + length ys"
    using length_watch [OF wf] c by (simp add: watch_def)
  have f: "arg_fd m (Ptr r) = efd (event_at m r)" using ev_wf_content(3) [OF wf r] by (simp add: arg_fd_ptr)
  have h: "?P w \<longleftrightarrow> efd (event_at m w) \<noteq> efd (event_at m r)" if "w \<in> set (set_content (ev_events g))" for w
    using events_holds [OF wf that, of 0 "Ptr r"] f by simp
  have "takeWhile ?P (xs @ q # ys) = xs" using h assms(4,5) c by (subst takeWhile_append2) auto
  then have scan: "int_find 0 (set_used ?s) (set_test ?s (Ptr r) (\<lambda>r. r = 0)) = Some (Some (length xs))"
    using set_scan [OF swf, of "Ptr r" "\<lambda>r. r = 0"] c len by simp
  have get: "set_get ?s i = Some (Some (Obj (set_content (ev_events g) ! i)))" if "i < set_used (ev_events g)" for i
    using that swf by (simp add: set_get_def set_wf_def events_opts_def kmath_val_get_def kobj_is_int_def set_content_def)
  show ?thesis
  proof (cases ys)
    case Nil
    then show ?thesis using scan len by (simp add: kylin_event_event_get_next_def kylin_set_next_def ref_addr_def first_or_null_def)
  next
    case (Cons y ys')
    then have "set_content (ev_events g) ! (length xs + 1) = y" using c by (simp add: nth_append)
    then show ?thesis using scan len get [of "length xs + 1"] Cons
      by (simp add: kylin_event_event_get_next_def kylin_set_next_def ref_addr_def first_or_null_def)
  qed
qed

lemma event_first:
  assumes "ev_wf loc m g" "set_content (ev_events g) = p # ps"
  shows "kylin_event_event_get_first m g = Some p"
proof -
  have "set_used (ev_events g) = length (p # ps)" using length_watch [OF assms(1)] assms(2) by (simp add: watch_def)
  then have "arr_get (set_val (ev_events g)) 0 = Some p"
    using assms(2) by (cases "set_val (ev_events g)") (auto simp: set_content_def arr_get_def)
  then show ?thesis
    by (simp add: kylin_event_event_get_first_def kylin_set_first_def set_get_def events_opts_def kmath_val_get_def kobj_is_int_def ref_addr_def)
qed

abbreviation poll_zero :: pollfd where "poll_zero \<equiv> \<lparr>pf_fd = 0, pf_events = 0, pf_revents = 0\<rparr>"

lemma kpoll_fill_step:
  assumes "mapped m (region p 8)" "p \<noteq> 0" "index < length fds" "kylin_event_event_get_next m g p = Some q"
  shows "kpoll_fill m g p index fds = kpoll_fill m g q (index + 1) (fds[index := kpoll_entry (event_at m p) (fds ! index)])"
  using assms(2-4) event_fields_mapped [OF assms(1)] by (subst kpoll_fill.simps) (simp add: arr_get_def arr_set_def)

lemma kpoll_fill_all:
  assumes "ev_wf loc m g" "set_content (ev_events g) = xs @ ys" "distinct (map efd (watch m g))"
  shows "kpoll_fill m g (first_or_null ys) (length xs) (map (\<lambda>q. kpoll_entry (event_at m q) poll_zero) xs @ replicate (length ys) poll_zero)
    = Some (map (\<lambda>q. kpoll_entry (event_at m q) poll_zero) (xs @ ys))"
  using assms(2)
proof (induction ys arbitrary: xs)
  case Nil
  then show ?case by (subst kpoll_fill.simps) (simp add: first_or_null_def)
next
  case (Cons y ys)
  let ?F = "\<lambda>q. kpoll_entry (event_at m q) poll_zero"
  have y: "y \<noteq> 0" "mapped m (region y 8)" using ev_wf_content(3) [OF assms(1), of y] Cons.prems by simp_all
  have "efd (event_at m y) \<notin> (\<lambda>x. efd (event_at m x)) ` set xs" using assms(3) Cons.prems by (simp add: watch_def)
  then have d: "\<forall>x \<in> set xs. efd (event_at m x) \<noteq> efd (event_at m y)" by (metis imageI)
  then have n: "kylin_event_event_get_next m g y = Some (first_or_null ys)"
    using event_next [OF assms(1) Cons.prems, of y] Cons.prems by simp
  have u: "(map ?F xs @ replicate (length (y # ys)) poll_zero)[length xs := ?F y] = map ?F (xs @ [y]) @ replicate (length ys) poll_zero"
    by (simp add: list_update_append)
  show ?case
    using kpoll_fill_step [OF y(2,1) _ n, of "length xs" "map ?F xs @ replicate (length (y # ys)) poll_zero"] Cons.IH [of "xs @ [y]"] Cons.prems u
    by (simp add: nth_append first_or_null_def)
qed

lemma kpoll_fill_stuck:
  assumes "mapped m (region q 8)" "q \<noteq> 0" "kylin_event_event_get_next m g q = Some q"
  shows "kpoll_fill m g q index fds = None"
proof (induction "length fds - index" arbitrary: index fds)
  case 0
  then show ?case using assms(2) event_fields_mapped [OF assms(1)] by (subst kpoll_fill.simps) (simp add: arr_get_def)
next
  case (Suc k)
  then have "index < length fds" by simp
  then show ?case using kpoll_fill_step [OF assms(1,2) _ assms(3)] Suc(1) [of "fds[index := kpoll_entry (event_at m q) (fds ! index)]" "index + 1"] Suc(2)
    by simp
qed

subsection \<open>Loops over an array\<close>

fun each :: "('a \<Rightarrow> 's \<Rightarrow> 's option) \<Rightarrow> 'a list \<Rightarrow> 's \<Rightarrow> 's option" where
  "each f [] s = Some s"
| "each f (x # xs) s = do { s \<leftarrow> f x s; each f xs s }"

lemma for_loop_each: "for_loop [length xs..<length (xs @ ys)] (\<lambda>i s. do { x \<leftarrow> arr_get (xs @ ys) i; f x s }) s = each f ys s"
proof (induction ys arbitrary: xs s)
  case (Cons y ys)
  have u: "[length xs..<length (xs @ y # ys)] = length xs # [length (xs @ [y])..<length ((xs @ [y]) @ ys)]"
    using upt_conv_Cons [of "length xs" "length (xs @ y # ys)"] by simp
  have g: "arr_get (xs @ y # ys) (length xs) = Some y" by (simp add: arr_get_def)
  have "for_loop [length (xs @ [y])..<length ((xs @ [y]) @ ys)] (\<lambda>i s. do { x \<leftarrow> arr_get (xs @ y # ys) i; f x s }) = each f ys"
    using Cons.IH [of "xs @ [y]"] by (intro ext) simp
  then show ?case unfolding u for_loop.simps each.simps g by simp
qed simp

lemma kylin_event_event_count_watch:
  assumes "ev_wf loc m g"
  shows "unat (kylin_event_event_count g) = length (watch m g)"
proof -
  have "set_used (ev_events g) \<le> 4096" using assms by (simp add: ev_wf_def set_wf_def)
  then show ?thesis using length_watch [OF assms]
    by (simp add: kylin_event_event_count_def kylin_set_count_def unat_of_nat take_bit_nat_eq_self)
qed

subsection \<open>Properties\<close>

text \<open>What the library asks \<^verbatim>\<open>poll\<close> about a watched event.\<close>

definition poll_request :: "kevent_event \<Rightarrow> pollfd" where
  "poll_request e = \<lparr>pf_fd = efd e, pf_events = (if eflags e AND KEVENT_FLAG_READ \<noteq> 0 then POLLIN else 0)
     OR (if eflags e AND KEVENT_FLAG_WRITE \<noteq> 0 then POLLOUT else 0), pf_revents = 0\<rparr>"

lemma kpoll_entry_request: "kpoll_entry e poll_zero = poll_request e"
  by (simp add: kpoll_entry_def poll_request_def)

text \<open>
  C16. Processing an object whose descriptors are distinct asks \<^verbatim>\<open>poll\<close> about exactly the watched
  events, in their order, with the masks their flags stand for, and then calls the user's callbacks for every
  entry of the answer in turn: the walk over pointers and the index loops of the source compute
  the same as a walk over the abstract watch list. The walk ends and stays inside the array.
\<close>

theorem kpoll_proc_dispatches:
  assumes "ev_wf loc m g" "distinct (map efd (watch m g))" "watch m g \<noteq> []"
    "poll (map poll_request (watch m g)) (ucast timeout) w = Some ((n, fds), w1)" "length fds = length (watch m g)"
  shows "kpoll_proc True poll m g timeout w =
    map_option (\<lambda>w. (KYLIN_ERROR_OK, w)) (if n \<noteq> 0 then each (kpoll_dispatch (ev_opts g)) fds w1 else Some w1)"
proof -
  let ?c = "set_content (ev_events g)"
  have cnt: "unat (kylin_event_event_count g) = length (watch m g)" by (rule kylin_event_event_count_watch [OF assms(1)])
  then have nz: "kylin_event_event_count g \<noteq> 0" using assms(3) by auto
  obtain p ps where c: "?c = p # ps" using assms(3) by (cases ?c) (auto simp: watch_def)
  have "kpoll_fill m g p 0 (replicate (length (watch m g)) poll_zero) = Some (map poll_request (watch m g))"
    using kpoll_fill_all [OF assms(1), of "[]" ?c] assms(2) c by (simp add: first_or_null_def watch_def kpoll_entry_request)
  then show ?thesis
    using nz cnt event_first [OF assms(1) c] assms(4,5) for_loop_each [of "[]" fds "kpoll_dispatch (ev_opts g)"]
    by (cases "n = 0"; cases "each (kpoll_dispatch (ev_opts g)) fds w1") (simp_all add: kpoll_proc_def kylin_event_get_opts_def)
qed

text \<open>
  When the first two watched events have the same descriptor, as after adding it once for reading and once
  for writing, processing never returns from its walk: the successor of the second event is the second event
  again, and the walk writes behind the end of the array.
\<close>

theorem kpoll_proc_duplicate_overruns:
  assumes "ev_wf loc m g" "watch m g = e1 # e2 # es" "efd e1 = efd e2"
  shows "kpoll_proc True poll m g timeout w = None"
proof -
  obtain p q ps where c: "set_content (ev_events g) = p # q # ps" "event_at m p = e1" "event_at m q = e2"
    using assms(2) by (auto simp: watch_def map_eq_Cons_conv)
  have pq: "p \<noteq> 0" "mapped m (region p 8)" "q \<noteq> 0" "mapped m (region q 8)" using ev_wf_content(3) [OF assms(1)] c(1) by simp_all
  have np: "kylin_event_event_get_next m g p = Some q" "kylin_event_event_get_next m g q = Some q"
    using event_next [OF assms(1), of "[]" p "q # ps"] c assms(3) by (simp_all add: first_or_null_def)
  have cnt: "unat (kylin_event_event_count g) = length (watch m g)" by (rule kylin_event_event_count_watch [OF assms(1)])
  then have nz: "kylin_event_event_count g \<noteq> 0" using assms(2) by auto
  have "kpoll_fill m g p 0 (replicate (unat (kylin_event_event_count g)) poll_zero) = None"
    using kpoll_fill_step [OF pq(2,1) _ np(1), of 0] kpoll_fill_stuck [OF pq(4,3) np(2)] cnt assms(2) by simp
  then show ?thesis using nz event_first [OF assms(1) c(1)] by (simp add: kpoll_proc_def)
qed

text \<open>
  The documented behaviour of the control call: adding a descriptor that has been added fails with -1, and
  the call returns.
\<close>

definition epoll_ctl_exist :: "'k epoll_ctl \<Rightarrow> bool" where
  "epoll_ctl_exist ctl \<longleftrightarrow> (\<forall>cfd fd ev k. \<exists>r k1. ctl cfd EPOLL_CTL_ADD fd ev k = Some (r, k1)
     \<and> (r = 0 \<longrightarrow> (\<forall>ev'. \<exists>k2. ctl cfd EPOLL_CTL_ADD fd ev' k1 = Some (- 1, k2))))"

text \<open>
  With epoll a descriptor cannot be watched for reading and writing at once: the mechanism adds it a
  second time instead of adding both masks, and the system refuses, so adding it with both flags always
  returns an error.
\<close>

theorem kepoll_read_write_fails:
  assumes "epoll_ctl_exist ctl" "ev_priv g \<noteq> 0" "kw_epoll w (ev_priv g) = Some ep"
  shows "\<exists>ret w'. kepoll_add ctl m g fd (KEVENT_FLAG_READ OR KEVENT_FLAG_WRITE) w = Some (ret, w') \<and> ret \<noteq> KYLIN_ERROR_OK"
proof -
  obtain r k1 where 1: "ctl (ep_cfd ep) EPOLL_CTL_ADD fd (EPOLLIN OR EPOLLRDHUP) (kw_sys w) = Some (r, k1)"
      "r = 0 \<Longrightarrow> \<forall>ev'. \<exists>k2. ctl (ep_cfd ep) EPOLL_CTL_ADD fd ev' k1 = Some (- 1, k2)"
    using assms(1) unfolding epoll_ctl_exist_def by meson
  have f: "(KEVENT_FLAG_READ OR KEVENT_FLAG_WRITE) AND KEVENT_FLAG_READ \<noteq> 0" "(KEVENT_FLAG_READ OR KEVENT_FLAG_WRITE) AND KEVENT_FLAG_WRITE \<noteq> 0"
    by simp_all
  show ?thesis
  proof (cases "r = 0")
    case True
    then obtain k2 where "ctl (ep_cfd ep) EPOLL_CTL_ADD fd (EPOLLOUT OR EPOLLRDHUP) k1 = Some (- 1, k2)" using 1(2) by blast
    then have "kepoll_add ctl m g fd (KEVENT_FLAG_READ OR KEVENT_FLAG_WRITE) w = Some (- 1, w\<lparr>kw_sys := k2\<rparr>)"
      using True 1(1) assms(2,3) f by (simp add: kepoll_add_def kylin_event_get_priv_data_def ctl_if_def sys_run_def)
    then show ?thesis by simp
  next
    case False
    then have "kepoll_add ctl m g fd (KEVENT_FLAG_READ OR KEVENT_FLAG_WRITE) w = Some (r, w\<lparr>kw_sys := k1\<rparr>)"
      using 1(1) assms(2,3) f by (simp add: kepoll_add_def kylin_event_get_priv_data_def ctl_if_def sys_run_def)
    then show ?thesis using False by simp
  qed
qed

text \<open>
  No event object of the select mechanism is ever created: its private structure has null pointers for
  the three descriptor sets, and clearing them is undefined; the calls that return, return null.
\<close>

theorem kselect_never_creates:
  assumes "ev_plugin st t = Some pl" "er_create (pl_reg pl) = Some (kselect_create obj oks)"
    "kylin_event_create guard ok node t opts st = Some (r, st')"
  shows "r = 0"
proof -
  have "a = 0" if "kselect_create obj oks w = Some (a, w')" for a w w'
    using that by (auto simp: kselect_create_def FD_ZERO_def split: if_splits option.splits)
  then have run: "a = 0" if "ev_run (call_or 0 (Some (kselect_create obj oks))) st = Some (a, s)" for a s
    using that by (auto simp: ev_run_def call_or_def)
  show ?thesis using assms by (auto simp: kylin_event_create_def bind_eq_Some_conv split: if_splits option.splits dest: run)
qed

text \<open>
  When the array for the answers of epoll cannot be allocated, the object is created nevertheless: the
  source tests the object again and not its array.
\<close>

theorem kepoll_create_without_array:
  assumes "obj \<noteq> 0" "epoll_create 64 (kw_sys w) = Some (cfd, k)" "cfd \<noteq> - 1"
  shows "kepoll_create obj 0 epoll_create w =
    Some (obj, w\<lparr>kw_sys := k, kw_epoll := (kw_epoll w)(obj \<mapsto> \<lparr>ep_cfd = cfd, ep_maxevents = 64, ep_events = 0\<rparr>)\<rparr>)"
  using assms by (simp add: kepoll_create_def sys_run_def)

subsection \<open>Witnesses\<close>

definition demo_poll :: "pollfd list \<Rightarrow> 32 word \<Rightarrow> (unit, 32 word \<times> pollfd list) kcall" where
  "demo_poll fds t w = Some ((1, map (\<lambda>pf. pf\<lparr>pf_revents := POLLIN\<rparr>) fds), w)"

theorem kpoll_proc_dispatches_witness:
  "\<exists>st g. kylin_event_add 4096 8192 100 5 KEVENT_FLAG_READ demo_watching = Some (KYLIN_ERROR_OK, st) \<and> evs_store st 100 = Some g
    \<and> kpoll_proc True demo_poll (evs_mem st) g 0 () =
      map_option (\<lambda>w. (KYLIN_ERROR_OK, w)) (each (kpoll_dispatch (ev_opts g)) [\<lparr>pf_fd = 5, pf_events = POLLIN, pf_revents = POLLIN\<rparr>] ())"
proof -
  obtain st where st: "kylin_event_add 4096 8192 100 5 KEVENT_FLAG_READ demo_watching = Some (KYLIN_ERROR_OK, st)" "watches 4096 100 st [demo_event]"
    using kylin_event_add_watches [OF demo_watches, of 8192 demo_event] demo_fresh by (auto simp: wl_add_def)
  then obtain g where g: "evs_store st 100 = Some g" "ev_wf 4096 (evs_mem st) g" "watch (evs_mem st) g = [demo_event]"
    by (auto simp: watches_def)
  show ?thesis
    using st(1) g(1) kpoll_proc_dispatches [OF g(2), of demo_poll 0 "()" 1 "[\<lparr>pf_fd = 5, pf_events = POLLIN, pf_revents = POLLIN\<rparr>]" "()"] g(3)
    by (simp add: demo_poll_def poll_request_def)
qed

theorem kpoll_proc_duplicate_overruns_witness:
  "\<exists>st1 st2 g. kylin_event_add 4096 8192 100 5 KEVENT_FLAG_READ demo_watching = Some (KYLIN_ERROR_OK, st1)
    \<and> kylin_event_add 4096 12288 100 5 KEVENT_FLAG_WRITE st1 = Some (KYLIN_ERROR_OK, st2) \<and> evs_store st2 100 = Some g
    \<and> kpoll_proc True demo_poll (evs_mem st2) g 0 () = None"
proof -
  obtain st1 where s1: "kylin_event_add 4096 8192 100 5 KEVENT_FLAG_READ demo_watching = Some (KYLIN_ERROR_OK, st1)" "watches 4096 100 st1 [demo_event]"
      "dom (evs_mem st1) \<subseteq> dom (evs_mem demo_watching) \<union> region 8192 8"
    using kylin_event_add_watches [OF demo_watches, of 8192 demo_event] demo_fresh by (auto simp: wl_add_def)
  have "region 4096 8 \<inter> region 12288 8 = {}" "region 8192 8 \<inter> region 12288 8 = {}"
    using region_disjoint [of 8 8192 8 4096] region_disjoint [of 8 4096 8 8192] by simp_all
  moreover have "dom (evs_mem demo_watching) = region 4096 8" by (simp add: demo_watching_def demo_events_def demo_loc)
  ultimately have "region 12288 8 \<inter> dom (evs_mem st1) = {}" using s1(3) by blast
  then obtain st2 where s2: "kylin_event_add 4096 12288 100 5 KEVENT_FLAG_WRITE st1 = Some (KYLIN_ERROR_OK, st2)"
      "watches 4096 100 st2 [demo_event, \<lparr>efd = 5, eflags = KEVENT_FLAG_WRITE\<rparr>]"
    using kylin_event_add_watches [OF s1(2), of 12288 "\<lparr>efd = 5, eflags = KEVENT_FLAG_WRITE\<rparr>"] by (auto simp: wl_add_def)
  then obtain g where g: "evs_store st2 100 = Some g" "ev_wf 4096 (evs_mem st2) g" "watch (evs_mem st2) g = [demo_event, \<lparr>efd = 5, eflags = KEVENT_FLAG_WRITE\<rparr>]"
    by (auto simp: watches_def)
  then show ?thesis using s1(1) s2(1) kpoll_proc_duplicate_overruns [OF g(2,3)] by auto
qed

definition demo_ctl :: "kfd list epoll_ctl" where
  "demo_ctl cfd op fd ev k = (if op = EPOLL_CTL_ADD then (if fd \<in> set k then Some (- 1, k) else Some (0, fd # k)) else Some (0, remove1 fd k))"

theorem kepoll_read_write_fails_witness:
  "\<exists>ret w'. kepoll_add demo_ctl demo_mem \<lparr>ev_id = 0, ev_type = KEVENT_TYPE_EPOLL,
      ev_opts = \<lparr>eo_priv = 0, eo_recv = None, eo_send = None, eo_error = None, eo_timeout = None\<rparr>, ev_priv = 8, ev_events = ev_events demo_kevent\<rparr>
      5 (KEVENT_FLAG_READ OR KEVENT_FLAG_WRITE)
      \<lparr>kw_epoll = [8 \<mapsto> \<lparr>ep_cfd = 3, ep_maxevents = 64, ep_events = 16\<rparr>], kw_select = Map.empty, kw_sys = []\<rparr> = Some (ret, w') \<and> ret \<noteq> KYLIN_ERROR_OK"
  by (rule kepoll_read_write_fails) (simp_all add: epoll_ctl_exist_def demo_ctl_def)

definition demo_select_events :: "unit kworld kevents" where
  "demo_select_events = \<lparr>evs_plugin = eplugin (null_event_reg\<lparr>er_create := Some (kselect_create 64 [True, False, True])\<rparr>) null_event_reg null_event_reg,
     evs_eid = 0, evs_store = Map.empty, evs_heap = Map.empty,
     evs_list = \<lparr>list_head = 0, list_tail = 0, list_opts = obj_opts (\<lambda>_ _. 1) sizeof_kevent, list_count = 0\<rparr>,
     evs_mem = demo_mem, evs_world = \<lparr>kw_epoll = Map.empty, kw_select = Map.empty, kw_sys = ()\<rparr>\<rparr>"

theorem kselect_never_creates_witness:
  "\<exists>r st'. kylin_event_create 100 True 200 KEVENT_TYPE_SELECT \<lparr>eo_priv = 0, eo_recv = None, eo_send = None, eo_error = None, eo_timeout = None\<rparr>
    demo_select_events = Some (r, st') \<and> r = 0"
proof -
  have pl: "ev_plugin demo_select_events KEVENT_TYPE_SELECT
      = Some (free_plugin (null_event_reg\<lparr>er_create := Some (kselect_create 64 [True, False, True])\<rparr>) KEVENT_TYPE_SELECT)"
    by (simp add: ev_plugin_def demo_select_events_def eplugin_def arr_get_def)
  have "[0..<SELECT_FDSET_TYPE_NUM] = [0, 1, 2]" by (simp add: numeral_eq_Suc)
  then have "kselect_create 64 [True, False, True] w = Some (0, w)" for w :: "unit kworld"
    by (simp add: kselect_create_def kylin_set_create_def fdset_opts_def)
  then obtain r st' where "kylin_event_create 100 True 200 KEVENT_TYPE_SELECT \<lparr>eo_priv = 0, eo_recv = None, eo_send = None, eo_error = None, eo_timeout = None\<rparr>
      demo_select_events = Some (r, st')"
    using pl by (simp add: kylin_event_create_def free_plugin_def kylin_set_create_def events_opts_def ev_run_def call_or_def kylin_set_destroy_def kylin_set_clear_def int_for_def)
  then show ?thesis using kselect_never_creates [OF pl] by (auto simp: free_plugin_def)
qed

theorem kepoll_create_without_array_witness:
  "kepoll_create 64 0 (\<lambda>n k. Some (3, k)) \<lparr>kw_epoll = Map.empty, kw_select = Map.empty, kw_sys = ()\<rparr>
    = Some (64, \<lparr>kw_epoll = [64 \<mapsto> \<lparr>ep_cfd = 3, ep_maxevents = 64, ep_events = 0\<rparr>], kw_select = Map.empty, kw_sys = ()\<rparr>)"
  by (subst kepoll_create_without_array) simp_all

end
