(* ===== verification/Kylin_Log.thy ===== *)
theory Kylin_Log
  imports Kylin_Objtree Kylin_Ring Kylin_Memory Kylin_Registry
begin

section \<open>Logging (lib/core/log/kylin_log.c, kylin_log_buf.c, kylin_log_obj.c)\<close>

text \<open>
  Log objects are kept in a red-black tree by their id; a message is a structure \<^verbatim>\<open>klog_buffer_t\<close> in memory that
  is copied into one ring per log type, and a thread takes messages out of the rings and
  prints them. The functions of the loggers act on a state \<open>'w\<close>. The formatted text of a message, the
  time and the results of allocations are arguments.
\<close>

subsection \<open>Definitions\<close>

abbreviation KYLIN_LOG_CONSOLE :: nat where "KYLIN_LOG_CONSOLE \<equiv> 0"
abbreviation KYLIN_LOG_FILE :: nat where "KYLIN_LOG_FILE \<equiv> 1"
abbreviation KYLIN_LOG_SYSTEM :: nat where "KYLIN_LOG_SYSTEM \<equiv> 2"
abbreviation KYLIN_LOG_UNIX_SOCK :: nat where "KYLIN_LOG_UNIX_SOCK \<equiv> 3"
abbreviation KYLIN_LOG_MAX :: nat where "KYLIN_LOG_MAX \<equiv> 4"

abbreviation KYLIN_LOG_EMERG :: "32 word" where "KYLIN_LOG_EMERG \<equiv> 0"
abbreviation KYLIN_LOG_ALERT :: "32 word" where "KYLIN_LOG_ALERT \<equiv> 1"
abbreviation KYLIN_LOG_CRIT :: "32 word" where "KYLIN_LOG_CRIT \<equiv> 2"
abbreviation KYLIN_LOG_ERROR :: "32 word" where "KYLIN_LOG_ERROR \<equiv> 3"
abbreviation KYLIN_LOG_WARN :: "32 word" where "KYLIN_LOG_WARN \<equiv> 4"
abbreviation KYLIN_LOG_NOTICE :: "32 word" where "KYLIN_LOG_NOTICE \<equiv> 5"
abbreviation KYLIN_LOG_INFO :: "32 word" where "KYLIN_LOG_INFO \<equiv> 6"
abbreviation KYLIN_LOG_DEBUG :: "32 word" where "KYLIN_LOG_DEBUG \<equiv> 7"

definition kylin_log_level_string :: "32 word \<Rightarrow> string" where
  "kylin_log_level_string level =
     (if level = KYLIN_LOG_EMERG then ''LOG_EMERG''
      else if level = KYLIN_LOG_ALERT then ''LOG_ALERT''
      else if level = KYLIN_LOG_CRIT then ''LOG_CRIT''
      else if level = KYLIN_LOG_ERROR then ''LOG_ERROR''
      else if level = KYLIN_LOG_WARN then ''LOG_WARN''
      else if level = KYLIN_LOG_NOTICE then ''LOG_NOTICE''
      else if level = KYLIN_LOG_INFO then ''LOG_INFO''
      else if level = KYLIN_LOG_DEBUG then ''LOG_DEBUG''
      else ''LOG_UNKNOWN'')"

abbreviation KYLIN_LOG_DATA_SIZE :: nat where "KYLIN_LOG_DATA_SIZE \<equiv> 2048"

text \<open>A message and its bytes in memory, with the padding of the C structure.\<close>

record klog_buffer =
  lb_obj_id :: "32 word"
  lb_timestamp :: "64 word"
  lb_level :: "32 word"
  lb_data :: "kbyte list"

abbreviation sizeof_buffer :: nat where "sizeof_buffer \<equiv> 2072"

definition buffer_bytes :: "klog_buffer \<Rightarrow> kbyte list" where
  "buffer_bytes b = le_bytes 8 (ucast (lb_obj_id b)) @ le_bytes 8 (lb_timestamp b) @ le_bytes 4 (ucast (lb_level b)) @ lb_data b @ replicate 4 0"

definition buffer_at :: "umem \<Rightarrow> kaddr \<Rightarrow> klog_buffer option" where
  "buffer_at m p = do {
     i \<leftarrow> mem_word m p 4;
     t \<leftarrow> mem_word m (p + 8) 8;
     l \<leftarrow> mem_word m (p + 16) 4;
     d \<leftarrow> mem_load m (p + 20) KYLIN_LOG_DATA_SIZE;
     Some \<lparr>lb_obj_id = ucast i, lb_timestamp = t, lb_level = ucast l, lb_data = d\<rparr> }"

text \<open>What \<^verbatim>\<open>vsnprintf\<close> leaves of a text in the cleared array: a prefix and the terminator.\<close>

definition log_text :: "kbyte list \<Rightarrow> kbyte list" where
  "log_text text = (let t = take (KYLIN_LOG_DATA_SIZE - 1) text in t @ replicate (KYLIN_LOG_DATA_SIZE - length t) 0)"

record 'w klogger =
  lg_type :: nat
  lg_level :: "32 word"
  lg_print :: "(64 word \<Rightarrow> 32 word \<Rightarrow> kbyte list \<Rightarrow> ('w, unit) kcall) option"
  lg_priv :: kaddr
  lg_ctor :: "(kaddr \<Rightarrow> ('w, kerr) kcall) option"
  lg_dtor :: "(kaddr \<Rightarrow> ('w, kerr) kcall) option"

record 'w klog =
  log_id :: "32 word"
  log_logger :: "'w klogger list"

record 'w klogs =
  lgs_store :: "kaddr \<Rightarrow> 'w klog option"
  lgs_tree :: krb
  lgs_heap :: rheap
  lgs_id :: "32 word"
  lgs_ring :: "kring list"
  lgs_need :: "bool list"
  lgs_mem :: umem
  lgs_world :: 'w

definition null_logger :: "nat \<Rightarrow> 'w klogger" where
  "null_logger t = \<lparr>lg_type = t, lg_level = 0, lg_print = None, lg_priv = 0, lg_ctor = None, lg_dtor = None\<rparr>"

definition lg_run :: "('w, 'r) kcall \<Rightarrow> 'w klogs \<Rightarrow> ('r \<times> 'w klogs) option" where
  "lg_run f st = map_option (\<lambda>(r, w). (r, st\<lparr>lgs_world := w\<rparr>)) (f (lgs_world st))"

subsubsection \<open>kylin_log_obj.c\<close>

text \<open>
  The objects are compared by id. The key of a search is a local object at the address \<open>loc\<close>.
\<close>

abbreviation sizeof_klog :: ksize where "sizeof_klog \<equiv> 168"

abbreviation obj_compare :: "(kaddr \<Rightarrow> 'w klog option) \<Rightarrow> kmath_val \<Rightarrow> kaddr \<Rightarrow> int" where
  "obj_compare \<equiv> key_compare log_id"

abbreviation log_obj_opts :: "(kaddr \<Rightarrow> 'w klog option) \<Rightarrow> krb_opts" where
  "log_obj_opts \<equiv> obj_tree_opts log_id sizeof_klog"

definition cmp_store :: "kaddr \<Rightarrow> 32 word \<Rightarrow> 'w klogs \<Rightarrow> kaddr \<Rightarrow> 'w klog option" where
  "cmp_store loc i st = (lgs_store st)(loc \<mapsto> \<lparr>log_id = i, log_logger = replicate KYLIN_LOG_MAX (null_logger 0)\<rparr>)"

definition object_insert :: "kaddr \<Rightarrow> kaddr \<Rightarrow> 'w klogs \<Rightarrow> (kerr \<times> 'w klogs) option" where
  "object_insert node obj st = do {
     (ok, g, H, S) \<leftarrow> tree_insert log_id sizeof_klog (lgs_store st) (lgs_tree st) (lgs_heap st) node obj;
     Some (if ok then KYLIN_ERROR_OK else KYLIN_ERROR_NOMEM, st\<lparr>lgs_tree := g, lgs_heap := H, lgs_store := S\<rparr>) }"

definition object_find :: "kaddr \<Rightarrow> 32 word \<Rightarrow> 'w klogs \<Rightarrow> kaddr option" where
  "object_find loc i st = tree_find log_id sizeof_klog (cmp_store loc i st) (lgs_tree st) (lgs_heap st) loc"

definition object_remove :: "kaddr \<Rightarrow> 32 word \<Rightarrow> 'w klogs \<Rightarrow> (kerr \<times> 'w klogs) option" where
  "object_remove loc i st = do {
     obj \<leftarrow> object_find loc i st;
     if obj = 0 then Some (KYLIN_ERROR_NOENT, st)
     else do {
       (g, H, S) \<leftarrow> tree_remove log_id sizeof_klog (lgs_store st) (lgs_tree st) (lgs_heap st) obj;
       Some (KYLIN_ERROR_OK, st\<lparr>lgs_tree := g, lgs_heap := H, lgs_store := S\<rparr>) } }"

definition object_init :: "bool \<Rightarrow> 'w klogs \<Rightarrow> kerr \<times> 'w klogs" where
  "object_init ok st = (case kylin_rb_create ok (log_obj_opts (lgs_store st)) of
       None \<Rightarrow> (KYLIN_ERROR_NOMEM, st)
     | Some g \<Rightarrow> (KYLIN_ERROR_OK, st\<lparr>lgs_tree := g\<rparr>))"

definition object_fini :: "'w klogs \<Rightarrow> 'w klogs option" where
  "object_fini st = do {
     (H, S) \<leftarrow> tree_destroy log_id sizeof_klog (lgs_store st) (lgs_tree st) (lgs_heap st);
     Some (st\<lparr>lgs_heap := H, lgs_store := S\<rparr>) }"

subsubsection \<open>kylin_log_buf.c\<close>

definition log_ring_opts :: "kaddr \<Rightarrow> kring_opts" where
  "log_ring_opts p = \<lparr>ring_cap = 1024, ring_val_type = KOBJ_OTHERS, ring_val_size = of_nat sizeof_buffer,
     ring_val_ctor = Some (mem_alloc p), ring_val_dtor = False, ring_guard_ctor = None\<rparr>"

definition log_ring :: "kaddr \<Rightarrow> 'w klogs \<Rightarrow> nat \<Rightarrow> kring option" where
  "log_ring p st i = map_option (\<lambda>r. r\<lparr>ring_opts := log_ring_opts p\<rparr>) (arr_get (lgs_ring st) i)"

text \<open>Queueing a message for every logger of the object that wants its level: \<open>ps\<close> are the addresses of the copies.\<close>

definition wants :: "'w klog \<Rightarrow> nat \<Rightarrow> 32 word \<Rightarrow> bool option" where
  "wants obj i level = map_option (\<lambda>lg. \<not> (lg_type lg \<noteq> i \<or> level > lg_level lg)) (arr_get (log_logger obj) i)"

definition buffer_put :: "kaddr \<Rightarrow> kaddr \<Rightarrow> nat \<Rightarrow> 'w klogs \<Rightarrow> 'w klogs option" where
  "buffer_put buf p i st = do {
     r \<leftarrow> log_ring p st i;
     (_, r, m) \<leftarrow> kylin_ring_enqueue (lgs_mem st) r buf;
     rs \<leftarrow> arr_set (lgs_ring st) i r;
     ns \<leftarrow> arr_set (lgs_need st) i True;
     Some (st\<lparr>lgs_mem := m, lgs_ring := rs, lgs_need := ns\<rparr>) }"

definition buffer_enqueue :: "kaddr \<Rightarrow> kaddr list \<Rightarrow> kaddr \<Rightarrow> 'w klogs \<Rightarrow> (kerr \<times> 'w klogs) option" where
  "buffer_enqueue loc ps buf st = do {
     b \<leftarrow> buffer_at (lgs_mem st) buf;
     a \<leftarrow> object_find loc (lb_obj_id b) st;
     if a = 0 then Some (KYLIN_ERROR_NOENT, st)
     else do {
       obj \<leftarrow> lgs_store st a;
       st \<leftarrow> for_loop [0..<KYLIN_LOG_MAX] (\<lambda>i st. do {
         c \<leftarrow> wants obj i (lb_level b);
         if c then buffer_put buf (ps ! i) i st else Some st }) st;
       Some (KYLIN_ERROR_OK, st) } }"

definition ring_addr :: "nat kref option \<Rightarrow> kaddr" where
  "ring_addr r = (case r of Some (Obj p) \<Rightarrow> p | _ \<Rightarrow> 0)"

definition need_false :: "nat \<Rightarrow> 'w klogs \<Rightarrow> 'w klogs option" where
  "need_false i st = do { ns \<leftarrow> arr_set (lgs_need st) i False; Some (st\<lparr>lgs_need := ns\<rparr>) }"

definition buffer_free :: "kaddr \<Rightarrow> 'w klogs \<Rightarrow> 'w klogs" where
  "buffer_free p st = st\<lparr>lgs_mem := mem_free p (of_nat sizeof_buffer) (lgs_mem st)\<rparr>"

definition buffer_dequeue :: "kaddr \<Rightarrow> nat \<Rightarrow> 'w klogs \<Rightarrow> 'w klogs option" where
  "buffer_dequeue loc type st = do {
     r \<leftarrow> log_ring 0 st type;
     (v, r) \<leftarrow> kylin_ring_dequeue r;
     rs \<leftarrow> arr_set (lgs_ring st) type r;
     let st = st\<lparr>lgs_ring := rs\<rparr>;
     let buf = ring_addr v;
     if buf = 0 then need_false type st
     else do {
       b \<leftarrow> buffer_at (lgs_mem st) buf;
       a \<leftarrow> object_find loc (lb_obj_id b) st;
       if a = 0 then Some (buffer_free buf st)
       else do {
         obj \<leftarrow> lgs_store st a;
         lg \<leftarrow> arr_get (log_logger obj) type;
         (_, st) \<leftarrow> lg_run (call_or () (map_option (\<lambda>f. f (lb_timestamp b) (lb_level b) (lb_data b)) (lg_print lg))) st;
         let st = buffer_free buf st;
         r \<leftarrow> log_ring 0 st type;
         v \<leftarrow> kylin_ring_peek r;
         if ring_addr v = 0 then need_false type st else Some st } } }"

text \<open>One round of the thread, and the thread: a loop without an exit.\<close>

definition buffer_round :: "kaddr \<Rightarrow> 'w klogs \<Rightarrow> 'w klogs option" where
  "buffer_round loc st = for_loop [0..<KYLIN_LOG_MAX] (\<lambda>i st. do {
     b \<leftarrow> arr_get (lgs_need st) i;
     if b then buffer_dequeue loc i st else Some st }) st"

partial_function (option) buffer_process :: "kaddr \<Rightarrow> 'w klogs \<Rightarrow> unit option" where
  "buffer_process loc st = do { st \<leftarrow> buffer_round loc st; buffer_process loc st }"

declare buffer_process.simps [code]

text \<open>The results of the four allocations and of \<^verbatim>\<open>pthread_create\<close> are arguments.\<close>

fun buffer_rings :: "bool list \<Rightarrow> kring list option" where
  "buffer_rings [] = Some []"
| "buffer_rings (ok # oks) = do { r \<leftarrow> kylin_ring_create ok (log_ring_opts 0); rs \<leftarrow> buffer_rings oks; Some (r # rs) }"

definition buffer_init :: "bool list \<Rightarrow> kerr \<Rightarrow> 'w klogs \<Rightarrow> kerr \<times> 'w klogs" where
  "buffer_init oks thread st = (case buffer_rings (take KYLIN_LOG_MAX oks) of
       None \<Rightarrow> (KYLIN_ERROR_NOMEM, st)
     | Some rs \<Rightarrow> (thread, st\<lparr>lgs_ring := rs, lgs_need := replicate KYLIN_LOG_MAX False\<rparr>))"

text \<open>The end waits for the thread first.\<close>

fun rings_destroy :: "kring list \<Rightarrow> nat kref list option" where
  "rings_destroy [] = Some []"
| "rings_destroy (r # rs) = do { vs \<leftarrow> kylin_ring_destroy r; ws \<leftarrow> rings_destroy rs; Some (vs @ ws) }"

definition buffer_fini :: "kaddr \<Rightarrow> 'w klogs \<Rightarrow> nat kref list option" where
  "buffer_fini loc st = do { _ \<leftarrow> buffer_process loc st; rings_destroy (lgs_ring st) }"

subsubsection \<open>kylin_log.c\<close>

text \<open>A write to an object through a pointer, undefined when the pointer is null.\<close>

definition log_upd :: "kaddr \<Rightarrow> ('w klog \<Rightarrow> 'w klog) \<Rightarrow> 'w klogs \<Rightarrow> 'w klogs option" where
  "log_upd a f st = (if a = 0 then None else map_option (\<lambda>x. st\<lparr>lgs_store := (lgs_store st)(a \<mapsto> f x)\<rparr>) (lgs_store st a))"

definition logger_of :: "kaddr \<Rightarrow> nat \<Rightarrow> 'w klogs \<Rightarrow> 'w klogger option" where
  "logger_of a t st = do { x \<leftarrow> lgs_store st a; arr_get (log_logger x) t }"

definition set_logger :: "kaddr \<Rightarrow> nat \<Rightarrow> 'w klogger \<Rightarrow> 'w klogs \<Rightarrow> 'w klogs option" where
  "set_logger a t lg st = log_upd a (\<lambda>x. x\<lparr>log_logger := (log_logger x)[t := lg]\<rparr>) st"

definition kylin_log_expand :: "kaddr \<Rightarrow> 'w klogger \<Rightarrow> 'w klogs \<Rightarrow> (kerr \<times> 'w klogs) option" where
  "kylin_log_expand a logger st =
     (if lg_type logger \<ge> KYLIN_LOG_MAX \<or> lg_level logger > KYLIN_LOG_DEBUG \<or> lg_print logger = None then Some (KYLIN_ERROR_INVAL, st)
      else do {
        old \<leftarrow> logger_of a (lg_type logger) st;
        if lg_type old = lg_type logger then Some (KYLIN_ERROR_EXIST, st)
        else do {
          st \<leftarrow> set_logger a (lg_type logger) logger st;
          lg_run (call_or KYLIN_ERROR_OK (map_option (\<lambda>f. f (lg_priv logger)) (lg_ctor logger))) st } })"

definition kylin_log_reduce :: "kaddr \<Rightarrow> nat \<Rightarrow> 'w klogs \<Rightarrow> (kerr \<times> 'w klogs) option" where
  "kylin_log_reduce a type st = do {
     lg \<leftarrow> logger_of a type st;
     if lg_type lg = KYLIN_LOG_MAX then Some (KYLIN_ERROR_NOENT, st)
     else do {
       (_, st) \<leftarrow> lg_run (call_or KYLIN_ERROR_OK (map_option (\<lambda>f. f (lg_priv lg)) (lg_dtor lg))) st;
       st \<leftarrow> set_logger a type (null_logger KYLIN_LOG_MAX) st;
       Some (KYLIN_ERROR_OK, st) } }"

definition kylin_log_logger_get :: "kaddr \<Rightarrow> nat \<Rightarrow> 'w klogs \<Rightarrow> 'w klogger option" where
  "kylin_log_logger_get a type st = logger_of a type st"

definition kylin_log_level_get :: "kaddr \<Rightarrow> nat \<Rightarrow> 'w klogs \<Rightarrow> 32 word option" where
  "kylin_log_level_get a type st = map_option lg_level (logger_of a type st)"

definition kylin_log_logger_set :: "kaddr \<Rightarrow> nat \<Rightarrow> 'w klogger \<Rightarrow> 'w klogs \<Rightarrow> (kerr \<times> 'w klogs) option" where
  "kylin_log_logger_set a type logger st =
     (if lg_type logger = KYLIN_LOG_MAX \<or> lg_level logger > KYLIN_LOG_DEBUG \<or> lg_print logger = None then Some (KYLIN_ERROR_INVAL, st)
      else do {
        (_, st) \<leftarrow> kylin_log_reduce a type st;
        kylin_log_expand a logger st })"

definition kylin_log_level_set :: "kaddr \<Rightarrow> nat \<Rightarrow> 32 word \<Rightarrow> 'w klogs \<Rightarrow> (kerr \<times> 'w klogs) option" where
  "kylin_log_level_set a type level st = do {
     lg \<leftarrow> logger_of a type st;
     if lg_type lg = KYLIN_LOG_MAX then Some (KYLIN_ERROR_INVAL, st)
     else do {
       st \<leftarrow> set_logger a type (lg\<lparr>lg_level := level\<rparr>) st;
       Some (KYLIN_ERROR_OK, st) } }"

fun log_expand_all :: "kaddr \<Rightarrow> 'w klogger list \<Rightarrow> 'w klogs \<Rightarrow> 'w klogs option" where
  "log_expand_all a [] st = Some st"
| "log_expand_all a (lg # lgs) st = do { (_, st) \<leftarrow> kylin_log_expand a lg st; log_expand_all a lgs st }"

definition kylin_log_create :: "kaddr \<Rightarrow> kaddr \<Rightarrow> 'w klogger list \<Rightarrow> 'w klogs \<Rightarrow> (kaddr \<times> 'w klogs) option" where
  "kylin_log_create obj node loggers st =
     (if obj = 0 then Some (0, st)
      else do {
        let i = lgs_id st + 1;
        let st = st\<lparr>lgs_id := i, lgs_store := (lgs_store st)(obj \<mapsto> \<lparr>log_id = i, log_logger = replicate KYLIN_LOG_MAX (null_logger KYLIN_LOG_MAX)\<rparr>)\<rparr>;
        (ret, st) \<leftarrow> object_insert node obj st;
        if ret \<noteq> KYLIN_ERROR_OK then Some (0, st)
        else do {
          st \<leftarrow> log_expand_all obj loggers st;
          Some (obj, st) } })"

definition log_dtor :: "kaddr \<Rightarrow> nat \<Rightarrow> 'w klogs \<Rightarrow> 'w klogs option" where
  "log_dtor a i st = do {
     lg \<leftarrow> logger_of a i st;
     if lg_type lg = KYLIN_LOG_MAX then Some st
     else do {
       (_, st) \<leftarrow> lg_run (call_or KYLIN_ERROR_OK (map_option (\<lambda>f. f (lg_priv lg)) (lg_dtor lg))) st;
       Some st } }"

definition kylin_log_destroy :: "kaddr \<Rightarrow> kaddr \<Rightarrow> 'w klogs \<Rightarrow> 'w klogs option" where
  "kylin_log_destroy loc a st = do {
     st \<leftarrow> for_loop [0..<KYLIN_LOG_MAX] (log_dtor a) st;
     x \<leftarrow> lgs_store st a;
     (_, st) \<leftarrow> object_remove loc (log_id x) st;
     Some st }"

text \<open>
  The copy is written through a pointer that is still null. The rest follows the source: of the loggers, \<open>KYLIN_LOG_MAX\<close>
  bytes are copied, which is the type of the first one.
\<close>

definition kylin_log_dup :: "kaddr \<Rightarrow> kaddr \<Rightarrow> 'w klogs \<Rightarrow> (kaddr \<times> 'w klogs) option" where
  "kylin_log_dup node a st = do {
     let dup = 0;
     let st = st\<lparr>lgs_id := lgs_id st + 1\<rparr>;
     st \<leftarrow> log_upd dup (\<lambda>x. x\<lparr>log_id := lgs_id st\<rparr>) st;
     x \<leftarrow> lgs_store st a;
     st \<leftarrow> log_upd dup (\<lambda>d. d\<lparr>log_logger := (log_logger d)[0 := (log_logger d ! 0)\<lparr>lg_type := lg_type (log_logger x ! 0)\<rparr>]\<rparr>) st;
     (ret, st) \<leftarrow> object_insert node dup st;
     if ret \<noteq> KYLIN_ERROR_OK then Some (0, st)
     else do {
       st \<leftarrow> for_loop [0..<KYLIN_LOG_MAX] (\<lambda>i st. do {
         lg \<leftarrow> logger_of a i st;
         (_, st) \<leftarrow> lg_run (call_or KYLIN_ERROR_OK (map_option (\<lambda>f. f (lg_priv lg)) (lg_ctor lg))) st;
         Some st }) st;
       Some (dup, st) } }"

text \<open>
  A message at one of the levels: the seven functions differ in the level only. \<open>loc\<close> and \<open>buf\<close> are the
  addresses of local structures, \<open>ps\<close> those of the copies.
\<close>

definition kylin_log_at :: "32 word \<Rightarrow> kaddr \<Rightarrow> kaddr \<Rightarrow> kaddr list \<Rightarrow> 64 word \<Rightarrow> kaddr \<Rightarrow> kbyte list \<Rightarrow> 'w klogs \<Rightarrow> 'w klogs option" where
  "kylin_log_at level loc buf ps time a text st = do {
     x \<leftarrow> lgs_store st a;
     m \<leftarrow> mem_store (lgs_mem st) buf
       (buffer_bytes \<lparr>lb_obj_id = log_id x, lb_timestamp = time, lb_level = level, lb_data = log_text text\<rparr>);
     (_, st) \<leftarrow> buffer_enqueue loc ps buf (st\<lparr>lgs_mem := m\<rparr>);
     Some st }"

abbreviation kylin_log_debug where "kylin_log_debug \<equiv> kylin_log_at KYLIN_LOG_DEBUG"
abbreviation kylin_log_info where "kylin_log_info \<equiv> kylin_log_at KYLIN_LOG_INFO"
abbreviation kylin_log_notice where "kylin_log_notice \<equiv> kylin_log_at KYLIN_LOG_NOTICE"
abbreviation kylin_log_warn where "kylin_log_warn \<equiv> kylin_log_at KYLIN_LOG_WARN"
abbreviation kylin_log_error where "kylin_log_error \<equiv> kylin_log_at KYLIN_LOG_ERROR"
abbreviation kylin_log_crit where "kylin_log_crit \<equiv> kylin_log_at KYLIN_LOG_CRIT"
abbreviation kylin_log_alert where "kylin_log_alert \<equiv> kylin_log_at KYLIN_LOG_ALERT"

text \<open>The three default loggers are those of lib/core/log/plugin, which print to the console, a file and the system log.\<close>

definition default_logger ::
    "(64 word \<Rightarrow> 32 word \<Rightarrow> kbyte list \<Rightarrow> ('w, unit) kcall) list \<Rightarrow> (kaddr \<Rightarrow> ('w, kerr) kcall) list \<Rightarrow> (kaddr \<Rightarrow> ('w, kerr) kcall) list \<Rightarrow> 'w klogger list" where
  "default_logger prints inits finis = map (\<lambda>i. \<lparr>lg_type = i, lg_level = KYLIN_LOG_INFO, lg_print = Some (prints ! i), lg_priv = 0,
     lg_ctor = Some (inits ! i), lg_dtor = Some (finis ! i)\<rparr>) [KYLIN_LOG_CONSOLE, KYLIN_LOG_FILE, KYLIN_LOG_SYSTEM]"

definition kylin_log_init :: "bool \<Rightarrow> bool list \<Rightarrow> kerr \<Rightarrow> kaddr \<Rightarrow> kaddr \<Rightarrow> 'w klogger list \<Rightarrow> 'w klogs \<Rightarrow> (kerr \<times> kaddr \<times> 'w klogs) option" where
  "kylin_log_init ok oks thread obj node loggers st =
     (let (ret, st) = object_init ok st in
      if ret \<noteq> KYLIN_ERROR_OK then Some (ret, 0, st)
      else let (ret, st) = buffer_init oks thread st in
      if ret \<noteq> KYLIN_ERROR_OK then Some (ret, 0, st)
      else do {
        (klog, st) \<leftarrow> kylin_log_create obj node loggers st;
        Some (if klog = 0 then KYLIN_ERROR_NOMEM else ret, klog, st) })"

definition kylin_log_fini :: "kaddr \<Rightarrow> kaddr \<Rightarrow> 'w klogs \<Rightarrow> nat kref list option" where
  "kylin_log_fini loc klog st = do {
     st \<leftarrow> kylin_log_destroy loc klog st;
     st \<leftarrow> object_fini st;
     buffer_fini loc st }"

subsection \<open>The logger tables\<close>

text \<open>
  The table of a log object: entry \<open>i\<close> is free or holds a logger of type \<open>i\<close> that can print. Every
  operation keeps this of all objects.
\<close>

definition log_wf :: "'w klog \<Rightarrow> bool" where
  "log_wf x \<longleftrightarrow> length (log_logger x) = KYLIN_LOG_MAX
     \<and> (\<forall>i < KYLIN_LOG_MAX. let lg = log_logger x ! i in lg_type lg = KYLIN_LOG_MAX \<or> (lg_type lg = i \<and> lg_print lg \<noteq> None))"

definition logs_wf :: "'w klogs \<Rightarrow> bool" where
  "logs_wf st \<longleftrightarrow> (\<forall>x \<in> ran (lgs_store st). log_wf x)"

lemma logs_wf_cong: "lgs_store st' = lgs_store st \<Longrightarrow> logs_wf st' = logs_wf st"
  by (simp add: logs_wf_def)

lemma logs_wf_get: "logs_wf st \<Longrightarrow> lgs_store st a = Some x \<Longrightarrow> log_wf x"
  by (auto simp: logs_wf_def intro: ranI)

lemma logs_wf_upd: "logs_wf st \<Longrightarrow> log_wf x \<Longrightarrow> logs_wf (st\<lparr>lgs_store := (lgs_store st)(a \<mapsto> x)\<rparr>)"
  by (auto simp: logs_wf_def ran_def split: if_splits)

lemma logs_wf_sub: "logs_wf st \<Longrightarrow> lgs_store st' \<subseteq>\<^sub>m lgs_store st \<Longrightarrow> logs_wf st'"
  by (fastforce simp: logs_wf_def map_le_def ran_def dom_def)

lemma lg_run_frame:
  "lg_run f st = Some (r, st') \<Longrightarrow> \<exists>w. st' = st\<lparr>lgs_world := w\<rparr>"
  by (auto simp: lg_run_def)

lemma lg_run_wf: "lg_run f st = Some (r, st') \<Longrightarrow> logs_wf st' = logs_wf st"
  by (auto simp: logs_wf_def dest!: lg_run_frame)

lemma log_wf_set:
  assumes "log_wf x" "t < KYLIN_LOG_MAX" "lg_type lg = KYLIN_LOG_MAX \<or> (lg_type lg = t \<and> lg_print lg \<noteq> None)"
  shows "log_wf (x\<lparr>log_logger := (log_logger x)[t := lg]\<rparr>)"
  using assms by (auto simp: log_wf_def Let_def nth_list_update)

lemma set_logger_wf:
  assumes "logs_wf st" "set_logger a t lg st = Some st'" "t < KYLIN_LOG_MAX"
    "lg_type lg = KYLIN_LOG_MAX \<or> (lg_type lg = t \<and> lg_print lg \<noteq> None)"
  shows "logs_wf st'"
  using assms by (auto simp: set_logger_def log_upd_def split: if_splits intro!: logs_wf_upd log_wf_set dest: logs_wf_get)

lemma logger_of_some:
  assumes "logs_wf st" "logger_of a t st = Some lg"
  shows "t < KYLIN_LOG_MAX" "lg_type lg = KYLIN_LOG_MAX \<or> (lg_type lg = t \<and> lg_print lg \<noteq> None)"
proof -
  obtain x where "lgs_store st a = Some x" "t < length (log_logger x)" "lg = log_logger x ! t"
    using assms(2) by (auto simp: logger_of_def bind_eq_Some_conv arr_get_def split: if_splits)
  then show "t < KYLIN_LOG_MAX" "lg_type lg = KYLIN_LOG_MAX \<or> (lg_type lg = t \<and> lg_print lg \<noteq> None)"
    using logs_wf_get [OF assms(1)] by (auto simp: log_wf_def Let_def)
qed

lemma kylin_log_expand_wf:
  assumes "logs_wf st" "kylin_log_expand a lg st = Some (r, st')"
  shows "logs_wf st'"
  using assms set_logger_wf [OF assms(1), of a "lg_type lg" lg]
  by (auto simp: kylin_log_expand_def bind_eq_Some_conv dest!: lg_run_wf split: if_splits)

lemma kylin_log_reduce_wf:
  assumes "logs_wf st" "kylin_log_reduce a t st = Some (r, st')"
  shows "logs_wf st'"
proof -
  obtain lg where lg: "logger_of a t st = Some lg" using assms(2) by (auto simp: kylin_log_reduce_def bind_eq_Some_conv)
  note w = logger_of_some [OF assms(1) lg]
  show ?thesis
  proof (cases "lg_type lg = KYLIN_LOG_MAX")
    case True
    then show ?thesis using assms lg by (simp add: kylin_log_reduce_def)
  next
    case False
    then obtain s st1 where r: "lg_run (call_or KYLIN_ERROR_OK (map_option (\<lambda>f. f (lg_priv lg)) (lg_dtor lg))) st = Some (s, st1)"
        "set_logger a t (null_logger KYLIN_LOG_MAX) st1 = Some st'"
      using assms(2) lg by (auto simp: kylin_log_reduce_def bind_eq_Some_conv)
    have "logs_wf st1" using lg_run_wf [OF r(1)] assms(1) by simp
    then show ?thesis using set_logger_wf [OF _ r(2) w(1)] by (simp add: null_logger_def)
  qed
qed

lemma kylin_log_logger_set_wf: "logs_wf st \<Longrightarrow> kylin_log_logger_set a t lg st = Some (r, st') \<Longrightarrow> logs_wf st'"
  by (auto simp: kylin_log_logger_set_def bind_eq_Some_conv dest: kylin_log_reduce_wf kylin_log_expand_wf split: if_splits)

lemma kylin_log_level_set_wf:
  assumes "logs_wf st" "kylin_log_level_set a t level st = Some (r, st')"
  shows "logs_wf st'"
proof -
  obtain lg where lg: "logger_of a t st = Some lg" using assms(2) by (auto simp: kylin_log_level_set_def bind_eq_Some_conv)
  show ?thesis using assms lg logger_of_some [OF assms(1) lg] set_logger_wf [OF assms(1), of a t "lg\<lparr>lg_level := level\<rparr>"]
    by (auto simp: kylin_log_level_set_def bind_eq_Some_conv split: if_splits)
qed

lemma log_expand_all_wf: "logs_wf st \<Longrightarrow> log_expand_all a lgs st = Some st' \<Longrightarrow> logs_wf st'"
  by (induction lgs arbitrary: st) (auto simp: bind_eq_Some_conv dest: kylin_log_expand_wf)

lemma object_insert_store: "object_insert node obj st = Some (r, st') \<Longrightarrow> lgs_store st' \<subseteq>\<^sub>m lgs_store st"
  by (auto simp: object_insert_def tree_insert_def bind_eq_Some_conv release_objs_sub)

lemma object_remove_store: "object_remove loc i st = Some (r, st') \<Longrightarrow> lgs_store st' \<subseteq>\<^sub>m lgs_store st"
  by (auto simp: object_remove_def tree_remove_def bind_eq_Some_conv release_objs_sub split: if_splits)

lemma kylin_log_create_wf:
  assumes "logs_wf st" "kylin_log_create obj node lgs st = Some (r, st')"
  shows "logs_wf st'"
proof (cases "obj = 0")
  case True
  then show ?thesis using assms by (simp add: kylin_log_create_def)
next
  case False
  let ?x = "\<lparr>log_id = lgs_id st + 1, log_logger = replicate KYLIN_LOG_MAX (null_logger KYLIN_LOG_MAX)\<rparr>"
  let ?st = "st\<lparr>lgs_id := lgs_id st + 1, lgs_store := (lgs_store st)(obj \<mapsto> ?x)\<rparr>"
  have "log_wf ?x" by (simp add: log_wf_def null_logger_def Let_def)
  then have "logs_wf ?st" using logs_wf_upd [OF assms(1)] by (simp add: logs_wf_def)
  moreover obtain ret st1 where st1: "object_insert node obj ?st = Some (ret, st1)" using assms(2) False by (auto simp: kylin_log_create_def Let_def bind_eq_Some_conv)
  ultimately have "logs_wf st1" using object_insert_store logs_wf_sub by blast
  then show ?thesis using assms(2) False st1
    by (auto simp: kylin_log_create_def Let_def bind_eq_Some_conv dest: log_expand_all_wf split: if_splits)
qed

lemma for_loop_keeps: "for_loop is f s = Some s' \<Longrightarrow> \<forall>i t t'. f i t = Some t' \<longrightarrow> P t \<longrightarrow> P t' \<Longrightarrow> P s \<Longrightarrow> P s'"
  by (induction "is" arbitrary: s) (auto simp: bind_eq_Some_conv)

lemma kylin_log_destroy_wf:
  assumes "logs_wf st" "kylin_log_destroy loc a st = Some st'"
  shows "logs_wf st'"
proof -
  have d: "log_dtor a i s = Some s' \<Longrightarrow> logs_wf s \<Longrightarrow> logs_wf s'" for i s s'
    by (auto simp: log_dtor_def bind_eq_Some_conv dest: lg_run_wf split: if_splits)
  obtain st1 x r where "for_loop [0..<KYLIN_LOG_MAX] (log_dtor a) st = Some st1" "lgs_store st1 a = Some x" "object_remove loc (log_id x) st1 = Some (r, st')"
    using assms(2) by (auto simp: kylin_log_destroy_def bind_eq_Some_conv)
  moreover from this(1) have "logs_wf st1" using for_loop_keeps [of _ "log_dtor a" st st1 logs_wf] d assms(1) by blast
  ultimately show ?thesis using object_remove_store logs_wf_sub by blast
qed

lemma buffer_put_store: "buffer_put buf p i st = Some st' \<Longrightarrow> lgs_store st' = lgs_store st"
  by (auto simp: buffer_put_def bind_eq_Some_conv)

lemma kylin_log_at_store:
  assumes "kylin_log_at level loc buf ps time a text st = Some st'"
  shows "lgs_store st' = lgs_store st"
proof -
  have "lgs_store s' = lgs_store s" if "buffer_enqueue loc ps buf s = Some (r, s')" for r s s'
  proof -
    have k: "for_loop is (\<lambda>i st. do { c \<leftarrow> wants obj i l; if c then buffer_put buf (ps ! i) i st else Some st }) t = Some t'
        \<Longrightarrow> lgs_store t = lgs_store s \<Longrightarrow> lgs_store t' = lgs_store s" for "is" obj l t t'
      by (erule for_loop_keeps [where P = "\<lambda>t. lgs_store t = lgs_store s"]) (auto simp: bind_eq_Some_conv dest: buffer_put_store split: if_splits)
    show ?thesis using that by (auto simp: buffer_enqueue_def bind_eq_Some_conv dest: k [OF _ refl] split: if_splits)
  qed
  then show ?thesis using assms by (fastforce simp: kylin_log_at_def bind_eq_Some_conv)
qed

lemma buffer_dequeue_store: "buffer_dequeue loc t st = Some st' \<Longrightarrow> lgs_store st' = lgs_store st"
  by (auto simp: buffer_dequeue_def Let_def bind_eq_Some_conv need_false_def buffer_free_def dest!: lg_run_frame split: if_splits)

text \<open>A call of a user or a round of the thread.\<close>

inductive log_step :: "'w klogs \<Rightarrow> 'w klogs \<Rightarrow> bool" where
  create: "kylin_log_create obj node loggers st = Some (a, st') \<Longrightarrow> log_step st st'"
| destroy: "kylin_log_destroy loc a st = Some st' \<Longrightarrow> log_step st st'"
| dup: "kylin_log_dup node a st = Some (r, st') \<Longrightarrow> log_step st st'"
| expand: "kylin_log_expand a lg st = Some (ret, st') \<Longrightarrow> log_step st st'"
| reduce: "kylin_log_reduce a t st = Some (ret, st') \<Longrightarrow> log_step st st'"
| logger_set: "kylin_log_logger_set a t lg st = Some (ret, st') \<Longrightarrow> log_step st st'"
| level_set: "kylin_log_level_set a t level st = Some (ret, st') \<Longrightarrow> log_step st st'"
| message: "kylin_log_at level loc buf ps time a text st = Some st' \<Longrightarrow> log_step st st'"
| tick: "buffer_round loc st = Some st' \<Longrightarrow> log_step st st'"

lemma kylin_log_dup_none: "kylin_log_dup node a st = None"
  by (simp add: kylin_log_dup_def log_upd_def)

lemma buffer_round_store:
  assumes "buffer_round loc st = Some st'"
  shows "lgs_store st' = lgs_store st"
  by (rule for_loop_keeps [where P = "\<lambda>t. lgs_store t = lgs_store st", OF assms [unfolded buffer_round_def]])
    (auto simp: bind_eq_Some_conv dest: buffer_dequeue_store split: if_splits)

lemma log_step_wf: "log_step st st' \<Longrightarrow> logs_wf st \<Longrightarrow> logs_wf st'"
proof (induction rule: log_step.induct)
  case (message level loc buf ps t a s st st')
  then show ?case using kylin_log_at_store logs_wf_cong by metis
next
  case (tick loc st st')
  then show ?case using buffer_round_store logs_wf_cong by metis
qed (auto simp: kylin_log_dup_none intro: kylin_log_create_wf kylin_log_destroy_wf kylin_log_expand_wf kylin_log_reduce_wf
    kylin_log_logger_set_wf kylin_log_level_set_wf)

lemma log_steps_wf: "log_step\<^sup>*\<^sup>* st st' \<Longrightarrow> logs_wf st \<Longrightarrow> logs_wf st'"
  by (induction rule: rtranclp_induct) (auto intro: log_step_wf)

subsection \<open>Messages in memory\<close>





lemma length_log_text [simp]: "length (log_text s) = KYLIN_LOG_DATA_SIZE"
  by (simp add: log_text_def Let_def)




subsection \<open>The queues\<close>











lemma log_ring_content [simp]:
  assumes "ring_cap (ring_opts r) = 1024"
  shows "ring_content (r\<lparr>ring_opts := log_ring_opts p\<rparr>) = ring_content r" "ring_wf (r\<lparr>ring_opts := log_ring_opts p\<rparr>) = ring_wf r"
    "ring_used (r\<lparr>ring_opts := log_ring_opts p\<rparr>) = ring_used r"
  using assms by (simp_all add: ring_content_def ring_used_def ring_wf_def log_ring_opts_def)









subsection \<open>A message reaches the loggers that want it\<close>







abbreviation message :: "'w klog \<Rightarrow> 64 word \<Rightarrow> 32 word \<Rightarrow> kbyte list \<Rightarrow> klog_buffer" where
  "message x time level s \<equiv> \<lparr>lb_obj_id = log_id x, lb_timestamp = time, lb_level = level, lb_data = log_text s\<rparr>"







subsection \<open>An example\<close>

text \<open>A log of what was printed, and one console logger that prints up to \<open>KYLIN_LOG_INFO\<close>.\<close>

type_synonym printed = "(64 word \<times> 32 word \<times> kbyte list) list"

definition log_demo_logger :: "printed klogger" where
  "log_demo_logger = \<lparr>lg_type = 0, lg_level = KYLIN_LOG_INFO, lg_print = Some (\<lambda>t l d w. Some ((), w @ [(t, l, d)])), lg_priv = 0, lg_ctor = None, lg_dtor = None\<rparr>"

definition log_demo_rings :: "kring list" where
  "log_demo_rings = the (buffer_rings (replicate KYLIN_LOG_MAX True))"

definition log_demo_mem :: umem where
  "log_demo_mem = (\<lambda>a. if a \<in> region 4096 sizeof_buffer then Some 0 else None)"

definition log_demo0 :: "printed klogs" where
  "log_demo0 = \<lparr>lgs_store = Map.empty, lgs_tree = the (kylin_rb_create True (obj_tree_opts log_id sizeof_klog (Map.empty :: kaddr \<Rightarrow> printed klog option))), lgs_heap = Map.empty, lgs_id = 0,
     lgs_ring = log_demo_rings, lgs_need = replicate KYLIN_LOG_MAX False, lgs_mem = log_demo_mem, lgs_world = []\<rparr>"

definition log_demo_obj :: "printed klog" where
  "log_demo_obj = \<lparr>log_id = 1, log_logger = (replicate KYLIN_LOG_MAX (null_logger KYLIN_LOG_MAX))[0 := log_demo_logger]\<rparr>"

lemma log_demo_create:
  "\<exists>st. kylin_log_create 9 7 [log_demo_logger] log_demo0 = Some (9, st) \<and> lgs_store st = [9 \<mapsto> log_demo_obj] \<and> object_find 5 1 st = Some 9
    \<and> lgs_ring st = log_demo_rings \<and> lgs_need st = replicate KYLIN_LOG_MAX False \<and> lgs_mem st = log_demo_mem \<and> lgs_world st = []"
proof -
  let ?s = "log_demo0\<lparr>lgs_id := 1, lgs_store := [9 \<mapsto> log_demo_obj\<lparr>log_logger := replicate KYLIN_LOG_MAX (null_logger KYLIN_LOG_MAX)\<rparr>]\<rparr>"
  obtain s :: "printed klogs" where s: "object_insert 7 9 ?s = Some (KYLIN_ERROR_OK, s)" "lgs_store s = lgs_store ?s" "lgs_ring s = lgs_ring ?s"
      "lgs_need s = lgs_need ?s" "lgs_mem s = lgs_mem ?s" "lgs_world s = []" "root_obj (lgs_tree s) (lgs_heap s) 9"
    using tree_insert_first [of 7 "lgs_tree log_demo0" log_id sizeof_klog "lgs_store ?s" "lgs_heap log_demo0" 9]
    by (simp add: object_insert_def log_demo0_def kylin_rb_create_def root_obj_def rb_node_def)
  let ?t = "s\<lparr>lgs_store := [9 \<mapsto> log_demo_obj]\<rparr>"
  have "kylin_log_create 9 7 [log_demo_logger] log_demo0 = Some (9, ?t)"
    using s(1,2) by (simp add: kylin_log_create_def log_demo0_def log_demo_obj_def kylin_log_expand_def logger_of_def arr_get_def set_logger_def log_upd_def
        lg_run_def call_or_def log_demo_logger_def null_logger_def)
  moreover have "object_find 5 1 ?t = Some 9"
    using tree_find_root [OF s(7), of "cmp_store 5 1 ?t" log_demo_obj 5 "\<lparr>log_id = 1, log_logger = replicate KYLIN_LOG_MAX (null_logger 0)\<rparr>" log_id] by (simp add: object_find_def cmp_store_def log_demo_obj_def)
  ultimately show ?thesis using s by (intro exI [of _ ?t]) (simp add: log_demo0_def)
qed







subsection \<open>Properties\<close>





text \<open>
  C20. After any calls of users and rounds of the thread, every log object has its four entries, and an entry is free or holds a logger of its
  own type that can print.
\<close>

theorem kylin_log_tables:
  assumes "lgs_store st0 = Map.empty" "log_step\<^sup>*\<^sup>* st0 st" "lgs_store st a = Some x"
  shows "length (log_logger x) = KYLIN_LOG_MAX
    \<and> (\<forall>i < KYLIN_LOG_MAX. lg_type (log_logger x ! i) = KYLIN_LOG_MAX \<or> lg_type (log_logger x ! i) = i \<and> lg_print (log_logger x ! i) \<noteq> None)"
proof -
  have "logs_wf st0" using assms(1) by (simp add: logs_wf_def)
  then have "log_wf x" using log_steps_wf [OF assms(2)] logs_wf_get assms(3) by blast
  then show ?thesis by (simp add: log_wf_def Let_def)
qed

theorem kylin_log_tables_witness:
  "\<exists>st. log_step\<^sup>*\<^sup>* log_demo0 st \<and> lgs_store st 9 = Some log_demo_obj \<and> length (log_logger log_demo_obj) = KYLIN_LOG_MAX"
proof -
  obtain st where st: "kylin_log_create 9 7 [log_demo_logger] log_demo0 = Some (9, st)" "lgs_store st = [9 \<mapsto> log_demo_obj]" using log_demo_create by blast
  have "log_step\<^sup>*\<^sup>* log_demo0 st" using log_step.create [OF st(1)] by (rule r_into_rtranclp)
  moreover have "lgs_store log_demo0 = Map.empty" by (simp add: log_demo0_def)
  ultimately show ?thesis using kylin_log_tables [of log_demo0 st 9 log_demo_obj] st(2) by auto
qed

end
