(* ===== verification/Kylin_Thread.thy ===== *)
theory Kylin_Thread
  imports Kylin_Objtree Kylin_String Kylin_Registry
begin

section \<open>Threads (lib/core/thread/kylin_thread.c, kylin_thread_impl.c)\<close>

text \<open>
  Thread objects are kept in a red-black tree by the id \<^verbatim>\<open>pthread_create\<close> gives them. The functions of the
  POSIX thread library act on a state \<open>'w\<close> and are arguments, as is the address of an allocation.
\<close>

subsection \<open>Definitions\<close>

record 'w kthread =
  th_thread_id :: "64 word"
  th_name :: "kbyte list"
  th_terminated :: bool
  th_exec :: "kaddr \<Rightarrow> ('w, unit) kcall"
  th_param :: "kbyte list"

record 'w kthreads =
  ths_store :: "kaddr \<Rightarrow> 'w kthread option"
  ths_tree :: krb
  ths_heap :: rheap
  ths_world :: 'w

abbreviation sizeof_kthread :: ksize where "sizeof_kthread \<equiv> 104"

abbreviation thread_compare :: "(kaddr \<Rightarrow> 'w kthread option) \<Rightarrow> kmath_val \<Rightarrow> kaddr \<Rightarrow> int" where
  "thread_compare \<equiv> key_compare th_thread_id"

abbreviation thread_opts :: "(kaddr \<Rightarrow> 'w kthread option) \<Rightarrow> krb_opts" where
  "thread_opts \<equiv> obj_tree_opts th_thread_id sizeof_kthread"

text \<open>The calls of the thread library the code makes.\<close>

record 'w pthreads =
  pt_create :: "kaddr \<Rightarrow> ('w, kerr \<times> 64 word) kcall"
  pt_join :: "64 word \<Rightarrow> ('w, kerr) kcall"
  pt_setname :: "64 word \<Rightarrow> kbyte list \<Rightarrow> ('w, unit) kcall"
  pt_getschedparam :: "64 word \<Rightarrow> ('w, 32 word) kcall"
  pt_setschedparam :: "64 word \<Rightarrow> 32 word \<Rightarrow> ('w, kerr) kcall"
  pt_getaffinity :: "64 word \<Rightarrow> ('w, kerr \<times> 8 word set) kcall"
  pt_setaffinity :: "64 word \<Rightarrow> 8 word set \<Rightarrow> ('w, kerr) kcall"

definition th_run :: "('w, 'r) kcall \<Rightarrow> 'w kthreads \<Rightarrow> ('r \<times> 'w kthreads) option" where
  "th_run f st = map_option (\<lambda>(r, w). (r, st\<lparr>ths_world := w\<rparr>)) (f (ths_world st))"

definition th_upd :: "kaddr \<Rightarrow> ('w kthread \<Rightarrow> 'w kthread) \<Rightarrow> 'w kthreads \<Rightarrow> 'w kthreads option" where
  "th_upd t f st = map_option (\<lambda>x. st\<lparr>ths_store := (ths_store st)(t \<mapsto> f x)\<rparr>) (ths_store st t)"

subsubsection \<open>kylin_thread.c\<close>

definition kylin_thread_insert :: "kaddr \<Rightarrow> kaddr \<Rightarrow> 'w kthreads \<Rightarrow> (kerr \<times> 'w kthreads) option" where
  "kylin_thread_insert node t st = do {
     (ok, g, H, S) \<leftarrow> tree_insert th_thread_id sizeof_kthread (ths_store st) (ths_tree st) (ths_heap st) node t;
     Some (if ok then KYLIN_ERROR_NOMEM else KYLIN_ERROR_OK, st\<lparr>ths_tree := g, ths_heap := H, ths_store := S\<rparr>) }"

definition kylin_thread_remove :: "kaddr \<Rightarrow> 'w kthreads \<Rightarrow> 'w kthreads option" where
  "kylin_thread_remove t st = do {
     (g, H, S) \<leftarrow> tree_remove th_thread_id sizeof_kthread (ths_store st) (ths_tree st) (ths_heap st) t;
     Some (st\<lparr>ths_tree := g, ths_heap := H, ths_store := S\<rparr>) }"

text \<open>
  The tree returns the thread, and the function takes it for a node: reading the value of a node
  at the address of a thread is undefined, which \<open>kylin_rb_val\<close> gives where the heap of nodes has none.
\<close>

definition node_val :: "'w kthreads \<Rightarrow> kaddr \<Rightarrow> kaddr option" where
  "node_val st node = do {
     v \<leftarrow> kylin_rb_val (ths_tree st) (ths_heap st) node;
     Some (case v of Obj p \<Rightarrow> p | Slot p \<Rightarrow> p) }"

definition kylin_thread_unlink :: "kaddr \<Rightarrow> 'w kthreads \<Rightarrow> (kaddr \<times> 'w kthreads) option" where
  "kylin_thread_unlink t st = do {
     (node, g, H) \<leftarrow> tree_unlink th_thread_id sizeof_kthread (ths_store st) (ths_tree st) (ths_heap st) t;
     let st = st\<lparr>ths_tree := g, ths_heap := H\<rparr>;
     if node \<noteq> 0 then do { v \<leftarrow> node_val st node; Some (v, st) }
     else Some (0, st) }"

text \<open>The key of a search is a local thread at the address \<open>loc\<close>.\<close>

definition kylin_thread_find :: "kaddr \<Rightarrow> 64 word \<Rightarrow> 'w kthreads \<Rightarrow> kaddr option" where
  "kylin_thread_find loc tid st =
     tree_find th_thread_id sizeof_kthread
       ((ths_store st)(loc \<mapsto> \<lparr>th_thread_id = tid, th_name = replicate KYLIN_NAME_LENGTH 0, th_terminated = False, th_exec = (\<lambda>_ _. None), th_param = []\<rparr>))
       (ths_tree st) (ths_heap st) loc"

definition kylin_thread_get_first :: "'w kthreads \<Rightarrow> kaddr option" where
  "kylin_thread_get_first st =
     (let node = kylin_rb_min (ths_tree st) in if node = 0 then Some 0 else node_val st node)"

definition kylin_thread_get_next :: "kaddr \<Rightarrow> 'w kthreads \<Rightarrow> kaddr option" where
  "kylin_thread_get_next t st = do {
     node \<leftarrow> tree_next th_thread_id sizeof_kthread (ths_store st) (ths_tree st) (ths_heap st) t;
     if node = 0 then Some 0 else node_val st node }"

text \<open>\<^verbatim>\<open>strncmp\<close> on the array of a thread and a text: whether they agree up to the terminator or the size.\<close>

fun strn_equal :: "nat \<Rightarrow> kbyte list \<Rightarrow> kbyte list \<Rightarrow> bool option" where
  "strn_equal 0 _ _ = Some True"
| "strn_equal (Suc n) (a # as) (b # bs) = (if a \<noteq> b then Some False else if a = 0 then Some True else strn_equal n as bs)"
| "strn_equal (Suc n) _ _ = None"

partial_function (option) find_name_loop :: "kbyte list \<Rightarrow> 'w kthreads \<Rightarrow> kaddr \<Rightarrow> kaddr option" where
  "find_name_loop name st t =
     (if t = 0 then Some 0
      else do {
        x \<leftarrow> ths_store st t;
        eq \<leftarrow> strn_equal KYLIN_NAME_LENGTH (th_name x) name;
        if eq then Some t
        else do { n \<leftarrow> kylin_thread_get_next t st; find_name_loop name st n } })"

declare find_name_loop.simps [code]

definition kylin_thread_find_by_name :: "kbyte list \<Rightarrow> 'w kthreads \<Rightarrow> kaddr option" where
  "kylin_thread_find_by_name name st = do { t \<leftarrow> kylin_thread_get_first st; find_name_loop name st t }"

partial_function (option) thread_foreach :: "(kaddr \<Rightarrow> 'w kthreads \<Rightarrow> 'w kthreads option) \<Rightarrow> kaddr \<Rightarrow> 'w kthreads \<Rightarrow> 'w kthreads option" where
  "thread_foreach f t st =
     (if t = 0 then Some st
      else do {
        st \<leftarrow> f t st;
        n \<leftarrow> kylin_thread_get_next t st;
        thread_foreach f n st })"

declare thread_foreach.simps [code]

definition kylin_thread_init :: "bool \<Rightarrow> 'w kthreads \<Rightarrow> kerr \<times> 'w kthreads" where
  "kylin_thread_init ok st = (case kylin_rb_create ok (thread_opts (ths_store st)) of
       None \<Rightarrow> (KYLIN_ERROR_NOMEM, st)
     | Some g \<Rightarrow> (KYLIN_ERROR_OK, st\<lparr>ths_tree := g\<rparr>))"

subsubsection \<open>kylin_thread_impl.c\<close>

definition thread_proc :: "kaddr \<Rightarrow> 'w kthreads \<Rightarrow> 'w kthreads option" where
  "thread_proc t st = do {
     x \<leftarrow> ths_store st t;
     (_, st) \<leftarrow> th_run (th_exec x t) st;
     Some st }"

definition kylin_thread_create ::
    "kaddr \<Rightarrow> kaddr \<Rightarrow> kbyte list \<Rightarrow> (kaddr \<Rightarrow> ('w, unit) kcall) \<Rightarrow> kbyte list \<Rightarrow> int \<Rightarrow> 'w kthreads \<Rightarrow> (kaddr \<times> 'w kthreads) option" where
  "kylin_thread_create t node name exec param param_size st =
     (if t = 0 then Some (0, st)
      else if param_size < 0 \<or> nat param_size > length param then None
      else do {
        nm \<leftarrow> name_copy name;
        let st = st\<lparr>ths_store := (ths_store st)(t \<mapsto>
          \<lparr>th_thread_id = 0, th_name = nm, th_terminated = False, th_exec = exec, th_param = take (nat param_size) param\<rparr>)\<rparr>;
        (ret, st) \<leftarrow> kylin_thread_insert node t st;
        if ret \<noteq> KYLIN_ERROR_OK then Some (0, st\<lparr>ths_store := (ths_store st)(t := None)\<rparr>)
        else Some (t, st) })"

definition kylin_thread_stop :: "'w pthreads \<Rightarrow> kaddr \<Rightarrow> 'w kthreads \<Rightarrow> (kerr \<times> 'w kthreads) option" where
  "kylin_thread_stop pt t st = do { x \<leftarrow> ths_store st t; th_run (pt_join pt (th_thread_id x)) st }"

definition kylin_thread_terminate :: "kaddr \<Rightarrow> 'w kthreads \<Rightarrow> 'w kthreads option" where
  "kylin_thread_terminate t st = th_upd t (\<lambda>x. x\<lparr>th_terminated := True\<rparr>) st"

definition kylin_thread_is_terminated :: "kaddr \<Rightarrow> 'w kthreads \<Rightarrow> bool option" where
  "kylin_thread_is_terminated t st = map_option th_terminated (ths_store st t)"

definition kylin_thread_destroy :: "'w pthreads \<Rightarrow> kaddr \<Rightarrow> 'w kthreads \<Rightarrow> 'w kthreads option" where
  "kylin_thread_destroy pt t st = do {
     (t, st) \<leftarrow> kylin_thread_unlink t st;
     if t = 0 then Some st
     else do {
       st \<leftarrow> kylin_thread_terminate t st;
       (_, st) \<leftarrow> kylin_thread_stop pt t st;
       Some (st\<lparr>ths_store := (ths_store st)(t := None)\<rparr>) } }"

definition kylin_thread_start :: "'w pthreads \<Rightarrow> kaddr \<Rightarrow> 'w kthreads \<Rightarrow> (kerr \<times> 'w kthreads) option" where
  "kylin_thread_start pt t st = do {
     _ \<leftarrow> ths_store st t;
     ((ret, tid), st) \<leftarrow> th_run (pt_create pt t) st;
     st \<leftarrow> th_upd t (\<lambda>x. x\<lparr>th_thread_id := tid\<rparr>) st;
     if ret = KYLIN_ERROR_OK then do {
       x \<leftarrow> ths_store st t;
       (_, st) \<leftarrow> th_run (pt_setname pt (th_thread_id x) (th_name x)) st;
       Some (ret, st) }
     else Some (ret, st) }"

definition kylin_thread_param :: "kaddr \<Rightarrow> 'w kthreads \<Rightarrow> kbyte list option" where
  "kylin_thread_param t st = map_option th_param (ths_store st t)"

definition kylin_thread_param_set :: "kaddr \<Rightarrow> kbyte list \<Rightarrow> 'w kthreads \<Rightarrow> 'w kthreads option" where
  "kylin_thread_param_set t param st = do {
     x \<leftarrow> ths_store st t;
     if length (th_param x) > length param then None
     else th_upd t (\<lambda>x. x\<lparr>th_param := take (length (th_param x)) param\<rparr>) st }"

definition kylin_thread_name :: "kaddr \<Rightarrow> 'w kthreads \<Rightarrow> kbyte list option" where
  "kylin_thread_name t st = map_option th_name (ths_store st t)"

definition kylin_thread_name_set :: "'w pthreads \<Rightarrow> kaddr \<Rightarrow> kbyte list \<Rightarrow> 'w kthreads \<Rightarrow> 'w kthreads option" where
  "kylin_thread_name_set pt t name st = do {
     nm \<leftarrow> name_copy name;
     st \<leftarrow> th_upd t (\<lambda>x. x\<lparr>th_name := nm\<rparr>) st;
     x \<leftarrow> ths_store st t;
     (_, st) \<leftarrow> th_run (pt_setname pt (th_thread_id x) (th_name x)) st;
     Some st }"

text \<open>The priority is an \<^verbatim>\<open>int\<close> that is cut to a byte.\<close>

definition kylin_thread_priority :: "'w pthreads \<Rightarrow> kaddr \<Rightarrow> 'w kthreads \<Rightarrow> (8 word \<times> 'w kthreads) option" where
  "kylin_thread_priority pt t st = do {
     x \<leftarrow> ths_store st t;
     (p, st) \<leftarrow> th_run (pt_getschedparam pt (th_thread_id x)) st;
     Some (ucast p, st) }"

definition kylin_thread_priority_set :: "'w pthreads \<Rightarrow> kaddr \<Rightarrow> 8 word \<Rightarrow> 'w kthreads \<Rightarrow> (kerr \<times> 'w kthreads) option" where
  "kylin_thread_priority_set pt t priority st = do {
     x \<leftarrow> ths_store st t;
     th_run (pt_setschedparam pt (th_thread_id x) (ucast priority)) st }"

definition kylin_thread_affinity :: "'w pthreads \<Rightarrow> kaddr \<Rightarrow> 'w kthreads \<Rightarrow> ((kerr \<times> 8 word set) \<times> 'w kthreads) option" where
  "kylin_thread_affinity pt t st = do { x \<leftarrow> ths_store st t; th_run (pt_getaffinity pt (th_thread_id x)) st }"

definition kylin_thread_affinity_set :: "'w pthreads \<Rightarrow> kaddr \<Rightarrow> 8 word \<Rightarrow> 'w kthreads \<Rightarrow> (kerr \<times> 'w kthreads) option" where
  "kylin_thread_affinity_set pt t cpuid st = do { x \<leftarrow> ths_store st t; th_run (pt_setaffinity pt (th_thread_id x) {cpuid}) st }"

text \<open>The end of \<^verbatim>\<open>kylin_thread.c\<close> uses the functions above.\<close>

definition kylin_thread_fini :: "'w pthreads \<Rightarrow> 'w kthreads \<Rightarrow> 'w kthreads option" where
  "kylin_thread_fini pt st = do {
     t \<leftarrow> kylin_thread_get_first st;
     st \<leftarrow> thread_foreach kylin_thread_terminate t st;
     t \<leftarrow> kylin_thread_get_first st;
     st \<leftarrow> thread_foreach (\<lambda>t st. map_option snd (kylin_thread_stop pt t st)) t st;
     (H, S) \<leftarrow> tree_destroy th_thread_id sizeof_kthread (ths_store st) (ths_tree st) (ths_heap st);
     Some (st\<lparr>ths_heap := H, ths_store := S\<rparr>) }"

subsection \<open>The tree has no first thread\<close>

lemma guard_rest_min: "guard_rest g' = guard_rest g \<Longrightarrow> rb_min g' = rb_min g"
  by (cases g; cases g'; simp add: guard_rest_def)

lemma tree_keeps_min:
  "tree_insert key sz S g H node obj = Some (b, g', H', S') \<Longrightarrow> rb_min g' = rb_min g"
  "tree_remove key sz S g H cmp = Some (g', H', S') \<Longrightarrow> rb_min g' = rb_min g"
  "tree_unlink key sz S g H cmp = Some (r, g', H') \<Longrightarrow> rb_min g' = rb_min g"
  by (auto simp: tree_insert_def tree_remove_def tree_unlink_def bind_eq_Some_conv
      dest!: kylin_rb_insert_rest kylin_rb_remove_rest kylin_rb_unlink_rest guard_rest_min)

lemma tree_destroy_null: "rb_min g = 0 \<Longrightarrow> tree_destroy key sz S g H = None"
  unfolding tree_destroy_def by (subst kylin_rb_destroy.simps) (simp add: kylin_rb_min_def kylin_rb_val_def obj_tree_opts_def kobj_is_int_def rget_def)

subsection \<open>Invariants of the threads\<close>

text \<open>The names are well-formed; the tree has no minimum.\<close>

definition threads_wf :: "'w kthreads \<Rightarrow> bool" where
  "threads_wf st \<longleftrightarrow> rb_min (ths_tree st) = 0 \<and> (\<forall>x \<in> ran (ths_store st). name_wf (th_name x))"

inductive thread_step :: "'w pthreads \<Rightarrow> 'w kthreads \<Rightarrow> 'w kthreads \<Rightarrow> bool" for pt where
  create: "kylin_thread_create t node name exec param psize st = Some (r, st') \<Longrightarrow> thread_step pt st st'"
| destroy: "kylin_thread_destroy pt t st = Some st' \<Longrightarrow> thread_step pt st st'"
| start: "kylin_thread_start pt t st = Some (r, st') \<Longrightarrow> thread_step pt st st'"
| stop: "kylin_thread_stop pt t st = Some (r, st') \<Longrightarrow> thread_step pt st st'"
| terminate: "kylin_thread_terminate t st = Some st' \<Longrightarrow> thread_step pt st st'"
| param_set: "kylin_thread_param_set t param st = Some st' \<Longrightarrow> thread_step pt st st'"
| name_set: "kylin_thread_name_set pt t name st = Some st' \<Longrightarrow> thread_step pt st st'"
| priority: "kylin_thread_priority pt t st = Some (p, st') \<Longrightarrow> thread_step pt st st'"
| priority_set: "kylin_thread_priority_set pt t p st = Some (r, st') \<Longrightarrow> thread_step pt st st'"
| affinity: "kylin_thread_affinity pt t st = Some (a, st') \<Longrightarrow> thread_step pt st st'"
| affinity_set: "kylin_thread_affinity_set pt t c st = Some (r, st') \<Longrightarrow> thread_step pt st st'"
| insert: "kylin_thread_insert node t st = Some (r, st') \<Longrightarrow> thread_step pt st st'"
| remove: "kylin_thread_remove t st = Some st' \<Longrightarrow> thread_step pt st st'"
| unlink: "kylin_thread_unlink t st = Some (r, st') \<Longrightarrow> thread_step pt st st'"
| exec: "thread_proc t st = Some st' \<Longrightarrow> thread_step pt st st'"

lemma th_run_wf: "th_run f st = Some (r, st') \<Longrightarrow> threads_wf st' = threads_wf st \<and> ths_store st' = ths_store st"
  by (auto simp: th_run_def threads_wf_def)

lemma threads_wf_sub: "threads_wf st \<Longrightarrow> ths_store st' \<subseteq>\<^sub>m ths_store st \<Longrightarrow> rb_min (ths_tree st') = rb_min (ths_tree st) \<Longrightarrow> threads_wf st'"
  by (fastforce simp: threads_wf_def map_le_def ran_def dom_def)

lemma threads_wf_add: "threads_wf st \<Longrightarrow> name_wf (th_name x) \<Longrightarrow> threads_wf (st\<lparr>ths_store := (ths_store st)(t \<mapsto> x)\<rparr>)"
  by (auto simp: threads_wf_def ran_def split: if_splits)

lemma threads_wf_drop: "threads_wf st \<Longrightarrow> threads_wf (st\<lparr>ths_store := (ths_store st)(t := None)\<rparr>)"
  by (auto simp: threads_wf_def ran_def split: if_splits)

lemma th_upd_wf:
  assumes "threads_wf st" "th_upd t f st = Some st'" "\<And>x. name_wf (th_name x) \<Longrightarrow> name_wf (th_name (f x))"
  shows "threads_wf st'"
proof -
  obtain x where x: "ths_store st t = Some x" "st' = st\<lparr>ths_store := (ths_store st)(t \<mapsto> f x)\<rparr>" using assms(2) by (auto simp: th_upd_def)
  have "name_wf (th_name x)" using assms(1) x(1) by (auto simp: threads_wf_def intro: ranI)
  then show ?thesis using threads_wf_add assms(1,3) x(2) by blast
qed

lemma kylin_thread_insert_wf: "threads_wf st \<Longrightarrow> kylin_thread_insert node t st = Some (r, st') \<Longrightarrow> threads_wf st'"
proof -
  assume w: "threads_wf st" and i: "kylin_thread_insert node t st = Some (r, st')"
  obtain b g H S where t: "tree_insert th_thread_id sizeof_kthread (ths_store st) (ths_tree st) (ths_heap st) node t = Some (b, g, H, S)"
      "st' = st\<lparr>ths_tree := g, ths_heap := H, ths_store := S\<rparr>" using i by (auto simp: kylin_thread_insert_def bind_eq_Some_conv)
  have "S \<subseteq>\<^sub>m ths_store st" using t(1) release_objs_sub by (auto simp: tree_insert_def bind_eq_Some_conv)
  then show ?thesis using threads_wf_sub [OF w, of st'] tree_keeps_min(1) [OF t(1)] t(2) by simp
qed

lemma kylin_thread_remove_wf: "threads_wf st \<Longrightarrow> kylin_thread_remove t st = Some st' \<Longrightarrow> threads_wf st'"
proof -
  assume w: "threads_wf st" and i: "kylin_thread_remove t st = Some st'"
  obtain g H S where t: "tree_remove th_thread_id sizeof_kthread (ths_store st) (ths_tree st) (ths_heap st) t = Some (g, H, S)"
      "st' = st\<lparr>ths_tree := g, ths_heap := H, ths_store := S\<rparr>" using i by (auto simp: kylin_thread_remove_def bind_eq_Some_conv)
  have "S \<subseteq>\<^sub>m ths_store st" using t(1) release_objs_sub by (auto simp: tree_remove_def bind_eq_Some_conv)
  then show ?thesis using threads_wf_sub [OF w, of st'] tree_keeps_min(2) [OF t(1)] t(2) by simp
qed

lemma kylin_thread_unlink_wf: "threads_wf st \<Longrightarrow> kylin_thread_unlink t st = Some (r, st') \<Longrightarrow> threads_wf st'"
proof -
  assume w: "threads_wf st" and i: "kylin_thread_unlink t st = Some (r, st')"
  obtain v g H where t: "tree_unlink th_thread_id sizeof_kthread (ths_store st) (ths_tree st) (ths_heap st) t = Some (v, g, H)"
      "st' = st\<lparr>ths_tree := g, ths_heap := H\<rparr>" using i by (auto simp: kylin_thread_unlink_def Let_def bind_eq_Some_conv split: if_splits)
  then show ?thesis using w tree_keeps_min(3) [OF t(1)] by (simp add: threads_wf_def)
qed

lemma kylin_thread_create_wf: "threads_wf st \<Longrightarrow> kylin_thread_create t node name exec param psize st = Some (r, st') \<Longrightarrow> threads_wf st'"
proof -
  assume w: "threads_wf st" and c: "kylin_thread_create t node name exec param psize st = Some (r, st')"
  show ?thesis
  proof (cases "t = 0")
    case True
    then show ?thesis using w c by (simp add: kylin_thread_create_def)
  next
    case False
    let ?st = "\<lambda>nm. st\<lparr>ths_store := (ths_store st)(t \<mapsto>
          \<lparr>th_thread_id = 0, th_name = nm, th_terminated = False, th_exec = exec, th_param = take (nat psize) param\<rparr>)\<rparr>"
    obtain nm e s where i: "name_copy name = Some nm" "kylin_thread_insert node t (?st nm) = Some (e, s)"
        "st' = s \<or> st' = s\<lparr>ths_store := (ths_store s)(t := None)\<rparr>"
      using c False by (auto simp: kylin_thread_create_def Let_def bind_eq_Some_conv split: if_splits)
    have "threads_wf (?st nm)" using threads_wf_add [OF w] name_copy_wf [OF i(1)] by simp
    then have "threads_wf s" using kylin_thread_insert_wf i(2) by blast
    then show ?thesis using i(3) threads_wf_drop by auto
  qed
qed

lemma kylin_thread_stop_wf: "kylin_thread_stop pt t st = Some (r, st') \<Longrightarrow> threads_wf st' = threads_wf st"
  by (auto simp: kylin_thread_stop_def bind_eq_Some_conv dest: th_run_wf)

lemma kylin_thread_destroy_wf: "threads_wf st \<Longrightarrow> kylin_thread_destroy pt t st = Some st' \<Longrightarrow> threads_wf st'"
proof -
  assume w: "threads_wf st" and d: "kylin_thread_destroy pt t st = Some st'"
  obtain u s where u: "kylin_thread_unlink t st = Some (u, s)" using d by (auto simp: kylin_thread_destroy_def bind_eq_Some_conv)
  have s: "threads_wf s" by (rule kylin_thread_unlink_wf [OF w u])
  show ?thesis
  proof (cases "u = 0")
    case True
    then show ?thesis using d u s by (simp add: kylin_thread_destroy_def)
  next
    case False
    then obtain s1 e s2 where r: "kylin_thread_terminate u s = Some s1" "kylin_thread_stop pt u s1 = Some (e, s2)" "st' = s2\<lparr>ths_store := (ths_store s2)(u := None)\<rparr>"
      using d u by (auto simp: kylin_thread_destroy_def bind_eq_Some_conv)
    have "threads_wf s1" using th_upd_wf [OF s r(1) [unfolded kylin_thread_terminate_def]] by simp
    then show ?thesis using kylin_thread_stop_wf [OF r(2)] r(3) threads_wf_drop by auto
  qed
qed

lemma kylin_thread_start_wf: "threads_wf st \<Longrightarrow> kylin_thread_start pt t st = Some (r, st') \<Longrightarrow> threads_wf st'"
proof -
  assume w: "threads_wf st" and d: "kylin_thread_start pt t st = Some (r, st')"
  obtain tid s1 s2 where s: "th_run (pt_create pt t) st = Some ((r, tid), s1)" "th_upd t (\<lambda>x. x\<lparr>th_thread_id := tid\<rparr>) s1 = Some s2"
      "st' = s2 \<or> (\<exists>f. th_run f s2 = Some ((), st'))"
    using d by (auto simp: kylin_thread_start_def bind_eq_Some_conv split: if_splits)
  have "threads_wf s2" using th_upd_wf [OF _ s(2)] th_run_wf [OF s(1)] w by simp
  then show ?thesis using s(3) by (auto dest: th_run_wf)
qed

lemma kylin_thread_name_set_wf: "threads_wf st \<Longrightarrow> kylin_thread_name_set pt t name st = Some st' \<Longrightarrow> threads_wf st'"
proof -
  assume w: "threads_wf st" and d: "kylin_thread_name_set pt t name st = Some st'"
  obtain nm s x where s: "name_copy name = Some nm" "th_upd t (\<lambda>x. x\<lparr>th_name := nm\<rparr>) st = Some s" "ths_store s t = Some x"
      "th_run (pt_setname pt (th_thread_id x) (th_name x)) s = Some ((), st')"
    using d by (auto simp: kylin_thread_name_set_def bind_eq_Some_conv)
  have "threads_wf s" using th_upd_wf [OF w s(2)] name_copy_wf [OF s(1)] by simp
  then show ?thesis using th_run_wf [OF s(4)] by blast
qed

lemma kylin_thread_param_set_wf: "threads_wf st \<Longrightarrow> kylin_thread_param_set t param st = Some st' \<Longrightarrow> threads_wf st'"
  by (auto simp: kylin_thread_param_set_def bind_eq_Some_conv split: if_splits elim!: th_upd_wf)

lemma thread_step_wf: "thread_step pt st st' \<Longrightarrow> threads_wf st \<Longrightarrow> threads_wf st'"
proof (induction rule: thread_step.induct)
  case (terminate t st st')
  then show ?case using th_upd_wf [of st t] by (auto simp: kylin_thread_terminate_def)
qed (auto simp: kylin_thread_stop_wf kylin_thread_priority_def kylin_thread_priority_set_def kylin_thread_affinity_def kylin_thread_affinity_set_def
    thread_proc_def bind_eq_Some_conv dest: th_run_wf kylin_thread_create_wf kylin_thread_destroy_wf kylin_thread_start_wf kylin_thread_name_set_wf
    kylin_thread_param_set_wf kylin_thread_insert_wf kylin_thread_remove_wf kylin_thread_unlink_wf)

lemma thread_steps_wf: "(thread_step pt)\<^sup>*\<^sup>* st st' \<Longrightarrow> threads_wf st \<Longrightarrow> threads_wf st'"
  by (induction rule: rtranclp_induct) (auto intro: thread_step_wf)

lemma tree_unlink_empty: "rb_root g = 0 \<Longrightarrow> tree_unlink key sz S g H cmp = Some (0, g\<lparr>rb_opts := obj_tree_opts key sz S\<rparr>, H)"
  by (simp add: tree_unlink_def path_alive.simps kylin_rb_unlink_def kylin_rb_find_raw_def rb_search.simps)

definition new_thread :: "kbyte list \<Rightarrow> (kaddr \<Rightarrow> ('w, unit) kcall) \<Rightarrow> kbyte list \<Rightarrow> 'w kthread" where
  "new_thread nm exec param = \<lparr>th_thread_id = 0, th_name = nm, th_terminated = False, th_exec = exec, th_param = param\<rparr>"

lemma kylin_thread_create_first:
  assumes "rb_root (ths_tree st) = 0" "t \<noteq> 0" "node \<noteq> 0" "name_copy name = Some nm" "psize \<ge> 0" "nat psize \<le> length param"
  shows "kylin_thread_create t node name exec param psize st = Some (0, st\<lparr>
      ths_tree := (ths_tree st)\<lparr>rb_opts := obj_tree_opts th_thread_id sizeof_kthread ((ths_store st)(t \<mapsto> new_thread nm exec (take (nat psize) param))), rb_root := node\<rparr>,
      ths_heap := (ths_heap st)(node \<mapsto> rb_node 0 0 0 RB_BLACK t), ths_store := (ths_store st)(t := None)\<rparr>)"
  using assms by (simp add: kylin_thread_create_def kylin_thread_insert_def tree_insert_first new_thread_def)

lemma kylin_thread_create_no_node:
  assumes "t \<noteq> 0" "name_copy name = Some nm" "psize \<ge> 0" "nat psize \<le> length param"
  shows "kylin_thread_create t 0 name exec param psize st = Some (t, st\<lparr>
      ths_tree := (ths_tree st)\<lparr>rb_opts := obj_tree_opts th_thread_id sizeof_kthread ((ths_store st)(t \<mapsto> new_thread nm exec (take (nat psize) param)))\<rparr>,
      ths_store := (ths_store st)(t \<mapsto> new_thread nm exec (take (nat psize) param))\<rparr>)"
  using assms by (simp add: kylin_thread_create_def kylin_thread_insert_def tree_insert_no_memory new_thread_def)

subsection \<open>Properties\<close>

text \<open>
  C21. Whatever the calls, the name of a thread fills its array and is terminated in it, so that it can be read as a text; and the tree never
  has a first thread, so that no thread is found by its name, and the end of the module stops no thread and is undefined.
\<close>

theorem kylin_thread_names_terminated:
  assumes "ths_store st0 = Map.empty" "kylin_thread_init True st0 = (KYLIN_ERROR_OK, st1)" "(thread_step pt)\<^sup>*\<^sup>* st1 st"
  shows "(\<forall>t x. ths_store st t = Some x \<longrightarrow> length (th_name x) = KYLIN_NAME_LENGTH \<and> th_name x ! (KYLIN_NAME_LENGTH - 1) = 0)
    \<and> kylin_thread_get_first st = Some 0 \<and> kylin_thread_find_by_name name st = Some 0 \<and> kylin_thread_fini pt st = None"
proof -
  have "threads_wf st1" using assms(1,2) by (auto simp: kylin_thread_init_def kylin_rb_create_def threads_wf_def)
  then have w: "threads_wf st" by (rule thread_steps_wf [OF assms(3)])
  then have m: "rb_min (ths_tree st) = 0" by (simp add: threads_wf_def)
  then have f: "kylin_thread_get_first st = Some 0" by (simp add: kylin_thread_get_first_def kylin_rb_min_def)
  moreover have "kylin_thread_find_by_name name st = Some 0" using f by (simp add: kylin_thread_find_by_name_def find_name_loop.simps)
  moreover have "kylin_thread_fini pt st = None" using f m by (simp add: kylin_thread_fini_def thread_foreach.simps tree_destroy_null)
  ultimately show ?thesis using w by (auto simp: threads_wf_def name_wf_def intro: ranI)
qed

text \<open>
  C36. The test of the insertion is inverted. With memory for the node, creating the first thread releases it and returns null, while the tree keeps
  its address, and searching the tree is then undefined. Without memory for the node the creation succeeds with a thread that is not in the tree:
  it is not found, and destroying it does nothing.
\<close>

theorem kylin_thread_create_inverted:
  assumes "rb_root (ths_tree st) = 0" "t \<noteq> 0" "node \<noteq> 0" "name_copy name = Some nm" "psize \<ge> 0" "nat psize \<le> length param"
  shows "(\<exists>st'. kylin_thread_create t node name exec param psize st = Some (0, st') \<and> ths_store st' t = None
      \<and> root_obj (ths_tree st') (ths_heap st') t \<and> (\<forall>loc tid. loc \<noteq> t \<longrightarrow> kylin_thread_find loc tid st' = None))
    \<and> (\<exists>st' st''. kylin_thread_create t 0 name exec param psize st = Some (t, st') \<and> ths_store st' t = Some (new_thread nm exec (take (nat psize) param))
      \<and> (\<forall>loc tid. kylin_thread_find loc tid st' = Some 0) \<and> kylin_thread_destroy pt t st' = Some st'' \<and> ths_store st'' = ths_store st')"
proof (intro conjI)
  let ?c = "kylin_thread_create t node name exec param psize st"
  have r: "root_obj (ths_tree (snd (the ?c))) (ths_heap (snd (the ?c))) t" "ths_store (snd (the ?c)) t = None"
    using kylin_thread_create_first [OF assms] assms(3) by (simp_all add: root_obj_def rb_node_def)
  have "kylin_thread_find loc tid (snd (the ?c)) = None" if "loc \<noteq> t" for loc tid
    unfolding kylin_thread_find_def by (rule tree_dead(1) [OF r(1)]) (use r(2) that in simp)
  then show "\<exists>st'. ?c = Some (0, st') \<and> ths_store st' t = None \<and> root_obj (ths_tree st') (ths_heap st') t
      \<and> (\<forall>loc tid. loc \<noteq> t \<longrightarrow> kylin_thread_find loc tid st' = None)"
    using kylin_thread_create_first [OF assms] r by auto
  have "kylin_thread_unlink t st' = Some (0, st'\<lparr>ths_tree := (ths_tree st')\<lparr>rb_opts := obj_tree_opts th_thread_id sizeof_kthread (ths_store st')\<rparr>\<rparr>)"
    if "rb_root (ths_tree st') = 0" for st' :: "'a kthreads"
    using that by (simp add: kylin_thread_unlink_def tree_unlink_empty)
  then show "\<exists>st' st''. kylin_thread_create t 0 name exec param psize st = Some (t, st') \<and> ths_store st' t = Some (new_thread nm exec (take (nat psize) param))
      \<and> (\<forall>loc tid. kylin_thread_find loc tid st' = Some 0) \<and> kylin_thread_destroy pt t st' = Some st'' \<and> ths_store st'' = ths_store st'"
    using kylin_thread_create_no_node [OF assms(2,4-6), of exec st] assms(1)
    by (simp add: kylin_thread_find_def tree_find_empty kylin_thread_destroy_def)
qed

text \<open>
  When the allocator returns the address of the released thread again, the second creation compares the new thread with itself: the tree refuses
  and releases it, and the function returns it as a success.
\<close>

theorem kylin_thread_create_released:
  assumes "rb_root (ths_tree st) = 0" "t \<noteq> 0" "node \<noteq> 0" "name_copy name = Some nm" "psize \<ge> 0" "nat psize \<le> length param"
    "node' \<noteq> 0" "node' \<noteq> node" "ths_heap st node' = None"
  shows "\<exists>st1 st2. kylin_thread_create t node name exec param psize st = Some (0, st1)
    \<and> kylin_thread_create t node' name exec param psize st1 = Some (t, st2) \<and> ths_store st2 t = None"
proof -
  obtain st1 where c: "kylin_thread_create t node name exec param psize st = Some (0, st1)" and r: "root_obj (ths_tree st1) (ths_heap st1) t"
    and o: "rb_root (ths_tree st1) = node" "ths_heap st1 node' = None"
    using kylin_thread_create_first [OF assms(1-6)] assms(3,8,9) by (simp add: root_obj_def rb_node_def)
  let ?x = "new_thread nm exec (take (nat psize) param)"
  have "tree_insert th_thread_id sizeof_kthread ((ths_store st1)(t \<mapsto> ?x)) (ths_tree st1) (ths_heap st1) node' t
      = Some (False, (ths_tree st1)\<lparr>rb_opts := obj_tree_opts th_thread_id sizeof_kthread ((ths_store st1)(t \<mapsto> ?x))\<rparr>, ths_heap st1, ((ths_store st1)(t \<mapsto> ?x))(t := None))"
    by (rule tree_insert_equal [OF r]) (use assms(7,8) o in simp_all)
  then show ?thesis using c assms(2,4-6) by (simp add: kylin_thread_create_def kylin_thread_insert_def new_thread_def)
qed

subsection \<open>An example\<close>

definition threads_demo :: "nat kthreads" where
  "threads_demo = snd (kylin_thread_init True \<lparr>ths_store = Map.empty, ths_tree = undefined, ths_heap = Map.empty, ths_world = 0\<rparr>)"

abbreviation demo_exec :: "kaddr \<Rightarrow> (nat, unit) kcall" where "demo_exec \<equiv> \<lambda>_ w. Some ((), w)"

definition pthreads_demo :: "nat pthreads" where
  "pthreads_demo = \<lparr>pt_create = \<lambda>_ w. Some ((KYLIN_ERROR_OK, of_nat w), Suc w), pt_join = \<lambda>_ w. Some (KYLIN_ERROR_OK, w), pt_setname = \<lambda>_ _ w. Some ((), w),
     pt_getschedparam = \<lambda>_ w. Some (0, w), pt_setschedparam = \<lambda>_ _ w. Some (KYLIN_ERROR_OK, w),
     pt_getaffinity = \<lambda>_ w. Some ((KYLIN_ERROR_OK, {}), w), pt_setaffinity = \<lambda>_ _ w. Some (KYLIN_ERROR_OK, w)\<rparr>"

lemma threads_demo_facts:
  "rb_root (ths_tree threads_demo) = 0" "ths_store threads_demo = Map.empty" "ths_heap threads_demo = Map.empty"
  by (simp_all add: threads_demo_def kylin_thread_init_def kylin_rb_create_def)

lemma name_copy_demo: "name_copy [119, 49, 0] = Some ([119, 49] @ replicate 62 0)"
  by (simp add: name_copy_def strlen_def Let_def)

theorem kylin_thread_names_terminated_witness:
  "\<exists>st. (thread_step pthreads_demo)\<^sup>*\<^sup>* threads_demo st \<and> length (th_name (the (ths_store st 8))) = KYLIN_NAME_LENGTH \<and> kylin_thread_fini pthreads_demo st = None"
proof -
  obtain st x where c: "kylin_thread_create 8 0 [119, 49, 0] demo_exec [] 0 threads_demo = Some (8, st)" "ths_store st 8 = Some x"
    using kylin_thread_create_no_node [OF _ name_copy_demo, of 8 0 "[]" demo_exec threads_demo] by auto
  have s: "(thread_step pthreads_demo)\<^sup>*\<^sup>* threads_demo st" using thread_step.create [OF c(1)] by (rule r_into_rtranclp)
  have i: "kylin_thread_init True \<lparr>ths_store = Map.empty, ths_tree = undefined, ths_heap = Map.empty, ths_world = 0\<rparr> = (KYLIN_ERROR_OK, threads_demo)"
    by (simp add: threads_demo_def kylin_thread_init_def kylin_rb_create_def)
  show ?thesis using kylin_thread_names_terminated [OF _ i s, of "[]"] c(2) s by auto
qed

theorem kylin_thread_create_inverted_witness:
  "\<exists>st. kylin_thread_create 8 16 [119, 49, 0] demo_exec [1] 1 threads_demo = Some (0, st) \<and> ths_store st 8 = None \<and> kylin_thread_find 24 7 st = None"
  using kylin_thread_create_inverted [of threads_demo 8 16 "[119, 49, 0]" _ 1 "[1]" demo_exec] threads_demo_facts(1) name_copy_demo by force

theorem kylin_thread_create_released_witness:
  "\<exists>st1 st2. kylin_thread_create 8 16 [119, 49, 0] demo_exec [1] 1 threads_demo = Some (0, st1)
    \<and> kylin_thread_create 8 32 [119, 49, 0] demo_exec [1] 1 st1 = Some (8, st2) \<and> ths_store st2 8 = None"
  using kylin_thread_create_released [of threads_demo 8 16 "[119, 49, 0]" _ 1 "[1]" 32 demo_exec] threads_demo_facts name_copy_demo by simp

end
