(* ===== verification/Kylin_Elf.thy ===== *)
theory Kylin_Elf
  imports Kylin_Memory
begin

section \<open>Symbols of an object file (lib/core/kylin_core_module_elf.c)\<close>

text \<open>
  The reader of the symbol tables of an ELF file, over the bytes of the mapped file. A pointer into the file is an
  offset, 64 bits wide as in C; a read outside the file is undefined. The decoders of
  the system library (\<^verbatim>\<open>le32dec\<close> and the others) are one argument \<open>dec\<close>, by byte order and width.
\<close>

subsection \<open>Definitions\<close>

datatype elf_member =
    D_TAG | D_PTR | D_VAL
  | E_CLASS | E_DATA | E_OSABI | E_TYPE | E_MACHINE | E_VERSION | E_ENTRY | E_PHOFF | E_SHOFF | E_FLAGS | E_EHSIZE
  | E_PHENTSIZE | E_PHNUM | E_SHENTSIZE | E_SHNUM | E_SHSTRNDX
  | N_NAMESZ | N_DESCSZ | N_TYPE
  | P_TYPE | P_OFFSET | P_VADDR | P_PADDR | P_FILESZ | P_MEMSZ | P_FLAGS | P_ALIGN
  | SH_NAME | SH_TYPE | SH_FLAGS | SH_ADDR | SH_OFFSET | SH_SIZE | SH_LINK | SH_INFO | SH_ADDRALIGN | SH_ENTSIZE
  | ST_NAME | ST_VALUE | ST_SIZE | ST_INFO | ST_SHNDX
  | R_OFFSET | R_INFO
  | RA_OFFSET | RA_INFO | RA_ADDEND

fun elf32_offsets :: "elf_member \<Rightarrow> 64 word" where
  "elf32_offsets D_TAG = 0" | "elf32_offsets D_PTR = 4" | "elf32_offsets D_VAL = 4"
| "elf32_offsets E_CLASS = 4" | "elf32_offsets E_DATA = 5" | "elf32_offsets E_OSABI = 7" | "elf32_offsets E_TYPE = 16" | "elf32_offsets E_MACHINE = 18"
| "elf32_offsets E_VERSION = 20" | "elf32_offsets E_ENTRY = 24" | "elf32_offsets E_PHOFF = 28" | "elf32_offsets E_SHOFF = 32" | "elf32_offsets E_FLAGS = 36"
| "elf32_offsets E_EHSIZE = 40" | "elf32_offsets E_PHENTSIZE = 42" | "elf32_offsets E_PHNUM = 44" | "elf32_offsets E_SHENTSIZE = 46"
| "elf32_offsets E_SHNUM = 48" | "elf32_offsets E_SHSTRNDX = 50"
| "elf32_offsets N_NAMESZ = 0" | "elf32_offsets N_DESCSZ = 4" | "elf32_offsets N_TYPE = 8"
| "elf32_offsets P_TYPE = 0" | "elf32_offsets P_OFFSET = 4" | "elf32_offsets P_VADDR = 8" | "elf32_offsets P_PADDR = 12" | "elf32_offsets P_FILESZ = 16"
| "elf32_offsets P_MEMSZ = 20" | "elf32_offsets P_FLAGS = 24" | "elf32_offsets P_ALIGN = 28"
| "elf32_offsets SH_NAME = 0" | "elf32_offsets SH_TYPE = 4" | "elf32_offsets SH_FLAGS = 8" | "elf32_offsets SH_ADDR = 12" | "elf32_offsets SH_OFFSET = 16"
| "elf32_offsets SH_SIZE = 20" | "elf32_offsets SH_LINK = 24" | "elf32_offsets SH_INFO = 28" | "elf32_offsets SH_ADDRALIGN = 32" | "elf32_offsets SH_ENTSIZE = 36"
| "elf32_offsets ST_NAME = 0" | "elf32_offsets ST_VALUE = 4" | "elf32_offsets ST_SIZE = 8" | "elf32_offsets ST_INFO = 12" | "elf32_offsets ST_SHNDX = 14"
| "elf32_offsets R_OFFSET = 0" | "elf32_offsets R_INFO = 4"
| "elf32_offsets RA_OFFSET = 0" | "elf32_offsets RA_INFO = 4" | "elf32_offsets RA_ADDEND = 8"

fun elf64_offsets :: "elf_member \<Rightarrow> 64 word" where
  "elf64_offsets D_TAG = 0" | "elf64_offsets D_PTR = 8" | "elf64_offsets D_VAL = 8"
| "elf64_offsets E_CLASS = 4" | "elf64_offsets E_DATA = 5" | "elf64_offsets E_OSABI = 7" | "elf64_offsets E_TYPE = 16" | "elf64_offsets E_MACHINE = 18"
| "elf64_offsets E_VERSION = 20" | "elf64_offsets E_ENTRY = 24" | "elf64_offsets E_PHOFF = 32" | "elf64_offsets E_SHOFF = 40" | "elf64_offsets E_FLAGS = 48"
| "elf64_offsets E_EHSIZE = 52" | "elf64_offsets E_PHENTSIZE = 54" | "elf64_offsets E_PHNUM = 56" | "elf64_offsets E_SHENTSIZE = 58"
| "elf64_offsets E_SHNUM = 60" | "elf64_offsets E_SHSTRNDX = 62"
| "elf64_offsets N_NAMESZ = 0" | "elf64_offsets N_DESCSZ = 4" | "elf64_offsets N_TYPE = 8"
| "elf64_offsets P_TYPE = 0" | "elf64_offsets P_OFFSET = 8" | "elf64_offsets P_VADDR = 16" | "elf64_offsets P_PADDR = 24" | "elf64_offsets P_FILESZ = 32"
| "elf64_offsets P_MEMSZ = 40" | "elf64_offsets P_FLAGS = 4" | "elf64_offsets P_ALIGN = 48"
| "elf64_offsets SH_NAME = 0" | "elf64_offsets SH_TYPE = 4" | "elf64_offsets SH_FLAGS = 8" | "elf64_offsets SH_ADDR = 16" | "elf64_offsets SH_OFFSET = 24"
| "elf64_offsets SH_SIZE = 32" | "elf64_offsets SH_LINK = 40" | "elf64_offsets SH_INFO = 44" | "elf64_offsets SH_ADDRALIGN = 48" | "elf64_offsets SH_ENTSIZE = 56"
| "elf64_offsets ST_NAME = 0" | "elf64_offsets ST_VALUE = 8" | "elf64_offsets ST_SIZE = 16" | "elf64_offsets ST_INFO = 4" | "elf64_offsets ST_SHNDX = 6"
| "elf64_offsets R_OFFSET = 0" | "elf64_offsets R_INFO = 8"
| "elf64_offsets RA_OFFSET = 0" | "elf64_offsets RA_INFO = 8" | "elf64_offsets RA_ADDEND = 16"

type_synonym elf_dec = "bool \<Rightarrow> nat \<Rightarrow> kbyte list \<Rightarrow> 64 word"

text \<open>The class and the byte order in the identification of the file.\<close>

abbreviation ELFCLASS32 :: kbyte where "ELFCLASS32 \<equiv> 1"
abbreviation ELFCLASS64 :: kbyte where "ELFCLASS64 \<equiv> 2"
abbreviation ELFDATA2LSB :: kbyte where "ELFDATA2LSB \<equiv> 1"
abbreviation ELFDATA2MSB :: kbyte where "ELFDATA2MSB \<equiv> 2"
abbreviation SHT_SYMTAB :: "64 word" where "SHT_SYMTAB \<equiv> 2"

definition elf_read :: "kbyte list \<Rightarrow> 64 word \<Rightarrow> nat \<Rightarrow> kbyte list option" where
  "elf_read e p n = (if unat p + n \<le> length e then Some (take n (drop (unat p) e)) else None)"

text \<open>A number of \<open>n\<close> bytes at an address, in the byte order of the file; with another byte order the value is 0.\<close>

definition elf_num :: "elf_dec \<Rightarrow> kbyte list \<Rightarrow> 64 word \<Rightarrow> nat \<Rightarrow> 64 word option" where
  "elf_num dec e p n = do {
     d \<leftarrow> arr_get e 5;
     if d = ELFDATA2MSB then map_option (dec True n) (elf_read e p n)
     else if d = ELFDATA2LSB then map_option (dec False n) (elf_read e p n)
     else Some 0 }"

definition elf_get_byte :: "kbyte list \<Rightarrow> 64 word \<Rightarrow> elf_member \<Rightarrow> 64 word option" where
  "elf_get_byte e base member = do {
     c \<leftarrow> arr_get e 4;
     if c = ELFCLASS32 then map_option (\<lambda>b. scast (hd b)) (elf_read e (base + elf32_offsets member) 1)
     else if c = ELFCLASS64 then map_option (\<lambda>b. scast (hd b)) (elf_read e (base + elf64_offsets member) 1)
     else Some 0 }"

definition elf_get_word :: "elf_dec \<Rightarrow> kbyte list \<Rightarrow> 64 word \<Rightarrow> elf_member \<Rightarrow> 64 word option" where
  "elf_get_word dec e base member = do {
     c \<leftarrow> arr_get e 4;
     if c = ELFCLASS32 then elf_num dec e (base + elf32_offsets member) 4
     else if c = ELFCLASS64 then elf_num dec e (base + elf64_offsets member) 4
     else Some 0 }"

definition elf_get_quad :: "elf_dec \<Rightarrow> kbyte list \<Rightarrow> 64 word \<Rightarrow> elf_member \<Rightarrow> 64 word option" where
  "elf_get_quad dec e base member = do {
     c \<leftarrow> arr_get e 4;
     if c = ELFCLASS32 then elf_num dec e (base + elf32_offsets member) 4
     else if c = ELFCLASS64 then elf_num dec e (base + elf64_offsets member) 8
     else Some 0 }"

definition elf_get_quarter :: "elf_dec \<Rightarrow> kbyte list \<Rightarrow> 64 word \<Rightarrow> elf_member \<Rightarrow> 64 word option" where
  "elf_get_quarter dec e base member = do {
     c \<leftarrow> arr_get e 4;
     if c = ELFCLASS32 then elf_num dec e (base + elf32_offsets member) 2
     else if c = ELFCLASS64 then elf_num dec e (base + elf64_offsets member) 2
     else Some 0 }"

text \<open>\<^verbatim>\<open>strcmp\<close> of a text of the file with a literal, which is given with its terminator.\<close>

fun elf_streq :: "kbyte list \<Rightarrow> 64 word \<Rightarrow> kbyte list \<Rightarrow> bool option" where
  "elf_streq e p [] = Some True"
| "elf_streq e p (c # cs) = do {
     b \<leftarrow> arr_get e (unat p);
     if b \<noteq> c then Some False else elf_streq e (p + 1) cs }"

definition dot_strtab :: "kbyte list" where
  "dot_strtab = [0x2e, 0x73, 0x74, 0x72, 0x74, 0x61, 0x62, 0]"

text \<open>The number of entries of a table: a division, cut to an \<^verbatim>\<open>int\<close>.\<close>

definition elf_len :: "64 word \<Rightarrow> 64 word \<Rightarrow> nat option" where
  "elf_len sz entsize = (if entsize = 0 then None else Some (nat (sint (ucast (sz div entsize) :: 32 word))))"

text \<open>
  A hook is called with the name, the bytes from its address on, and the value of a symbol. The name is found in the string table,
  a pointer that may be null.
\<close>

type_synonym 's symbol_hook = "kbyte list \<Rightarrow> 64 word \<Rightarrow> 's \<Rightarrow> (kerr \<times> 's) option"

fun symtab_loop :: "elf_dec \<Rightarrow> kbyte list \<Rightarrow> 64 word \<Rightarrow> 64 word \<Rightarrow> 64 word option \<Rightarrow> 's symbol_hook \<Rightarrow> nat list \<Rightarrow> 's \<Rightarrow> (kerr \<times> 's) option" where
  "symtab_loop dec e offset entsize str hook [] s = Some (KYLIN_ERROR_OK, s)"
| "symtab_loop dec e offset entsize str hook (i # is) s = do {
     let st = offset + of_nat i * entsize;
     name \<leftarrow> elf_get_word dec e st ST_NAME;
     value \<leftarrow> elf_get_quad dec e st ST_VALUE;
     _ \<leftarrow> elf_get_quad dec e st ST_SIZE;
     tab \<leftarrow> str;
     c \<leftarrow> arr_get e (unat (tab + name));
     if c \<noteq> 0 \<and> value \<noteq> 0 then do {
       (ret, s) \<leftarrow> hook (drop (unat (tab + name)) e) value s;
       if ret \<noteq> KYLIN_ERROR_OK then Some (ret, s)
       else symtab_loop dec e offset entsize str hook is s }
     else symtab_loop dec e offset entsize str hook is s }"

definition elf_symtab_get :: "elf_dec \<Rightarrow> kbyte list \<Rightarrow> 64 word \<Rightarrow> 64 word option \<Rightarrow> 's symbol_hook \<Rightarrow> 's \<Rightarrow> (kerr \<times> 's) option" where
  "elf_symtab_get dec e sh str hook s = do {
     offset \<leftarrow> elf_get_quad dec e sh SH_OFFSET;
     entsize \<leftarrow> elf_get_quad dec e sh SH_ENTSIZE;
     sz \<leftarrow> elf_get_quad dec e sh SH_SIZE;
     _ \<leftarrow> elf_get_word dec e sh SH_NAME;
     len \<leftarrow> elf_len sz entsize;
     symtab_loop dec e offset entsize str hook [0..<len] s }"

text \<open>The dump: what is passed to the printing function, call by call. The names of types and bindings come from two small tables.\<close>

datatype elf_print =
    Print_table "kbyte list"
  | Print_entry nat "kbyte list" "64 word" "32 word" string string "32 word"

definition st_types :: "string list" where
  "st_types = [''STT_NOTYPE'', ''STT_OBJECT'', ''STT_FUNC'', ''STT_SECTION'', ''STT_FILE'']"

definition st_bindings :: "string list" where
  "st_bindings = [''STB_LOCAL'', ''STB_GLOBAL'', ''STB_WEAK'']"

fun symtab_print_loop :: "elf_dec \<Rightarrow> kbyte list \<Rightarrow> 64 word \<Rightarrow> 64 word \<Rightarrow> 64 word option \<Rightarrow> nat list \<Rightarrow> elf_print list option" where
  "symtab_print_loop dec e offset entsize str [] = Some []"
| "symtab_print_loop dec e offset entsize str (i # is) = do {
     let st = offset + of_nat i * entsize;
     name \<leftarrow> elf_get_word dec e st ST_NAME;
     value \<leftarrow> elf_get_quad dec e st ST_VALUE;
     sz \<leftarrow> elf_get_quad dec e st ST_SIZE;
     info \<leftarrow> elf_get_byte e st ST_INFO;
     shndx \<leftarrow> elf_get_quarter dec e st ST_SHNDX;
     tab \<leftarrow> str;
     _ \<leftarrow> arr_get e (unat (tab + name));
     type \<leftarrow> arr_get st_types (unat (info AND 15));
     bind \<leftarrow> arr_get st_bindings (unat (drop_bit 4 (ucast info :: 8 word)));
     rest \<leftarrow> symtab_print_loop dec e offset entsize str is;
     Some (Print_entry i (drop (unat (tab + name)) e) value (ucast sz) type bind (ucast shndx) # rest) }"

definition elf_symtab_print :: "elf_dec \<Rightarrow> kbyte list \<Rightarrow> 64 word \<Rightarrow> 64 word \<Rightarrow> 64 word option \<Rightarrow> elf_print list option" where
  "elf_symtab_print dec e sh shstrtab str = do {
     offset \<leftarrow> elf_get_quad dec e sh SH_OFFSET;
     entsize \<leftarrow> elf_get_quad dec e sh SH_ENTSIZE;
     sz \<leftarrow> elf_get_quad dec e sh SH_SIZE;
     name \<leftarrow> elf_get_word dec e sh SH_NAME;
     len \<leftarrow> elf_len sz entsize;
     _ \<leftarrow> arr_get e (unat (shstrtab + name));
     es \<leftarrow> symtab_print_loop dec e offset entsize str [0..<len];
     Some (Print_table (drop (unat (shstrtab + name)) e) # es) }"

text \<open>The two loops over the section headers: the search for the string table, the last one with its name, and the tables of symbols.\<close>

fun strtab_loop :: "elf_dec \<Rightarrow> kbyte list \<Rightarrow> 64 word \<Rightarrow> 64 word \<Rightarrow> 64 word \<Rightarrow> nat list \<Rightarrow> 64 word option \<Rightarrow> 64 word option option" where
  "strtab_loop dec e sh shentsize shstrtab [] strtab = Some strtab"
| "strtab_loop dec e sh shentsize shstrtab (i # is) strtab = do {
     name \<leftarrow> elf_get_word dec e (sh + of_nat i * shentsize) SH_NAME;
     offset \<leftarrow> elf_get_quad dec e (sh + of_nat i * shentsize) SH_OFFSET;
     eq \<leftarrow> elf_streq e (shstrtab + name) dot_strtab;
     strtab_loop dec e sh shentsize shstrtab is (if eq then Some offset else strtab) }"

fun section_loop :: "elf_dec \<Rightarrow> kbyte list \<Rightarrow> 64 word \<Rightarrow> 64 word \<Rightarrow> (64 word \<Rightarrow> 's \<Rightarrow> (kerr \<times> 's) option) \<Rightarrow> nat list \<Rightarrow> 's \<Rightarrow> (kerr \<times> 's) option" where
  "section_loop dec e sh shentsize body [] s = Some (KYLIN_ERROR_OK, s)"
| "section_loop dec e sh shentsize body (i # is) s = do {
     let v = sh + of_nat i * shentsize;
     type \<leftarrow> elf_get_word dec e v SH_TYPE;
     if type = SHT_SYMTAB then do {
       (ret, s) \<leftarrow> body v s;
       if ret \<noteq> KYLIN_ERROR_OK then Some (ret, s)
       else section_loop dec e sh shentsize body is s }
     else section_loop dec e sh shentsize body is s }"

text \<open>What both uses share: the header and the string tables; \<open>body\<close> is what is done with a table of symbols.\<close>

definition elf_symtab_process ::
    "elf_dec \<Rightarrow> kbyte list \<Rightarrow> (64 word \<Rightarrow> 64 word option \<Rightarrow> 64 word \<Rightarrow> 's \<Rightarrow> (kerr \<times> 's) option) \<Rightarrow> 's \<Rightarrow> (kerr \<times> 's) option" where
  "elf_symtab_process dec e body s = do {
     shoff \<leftarrow> elf_get_quad dec e 0 E_SHOFF;
     shentsize \<leftarrow> elf_get_quarter dec e 0 E_SHENTSIZE;
     shnum \<leftarrow> elf_get_quarter dec e 0 E_SHNUM;
     shstrndx \<leftarrow> elf_get_quarter dec e 0 E_SHSTRNDX;
     shstrtab \<leftarrow> elf_get_quad dec e (shoff + shstrndx * shentsize) SH_OFFSET;
     strtab \<leftarrow> strtab_loop dec e shoff shentsize shstrtab [0..<unat shnum] None;
     section_loop dec e shoff shentsize (body shstrtab strtab) [0..<unat shnum] s }"

definition kylin_elf_symbol :: "elf_dec \<Rightarrow> kbyte list \<Rightarrow> 's symbol_hook \<Rightarrow> 's \<Rightarrow> (kerr \<times> 's) option" where
  "kylin_elf_symbol dec e hook s =
     elf_symtab_process dec e (\<lambda>shstrtab strtab v s. elf_symtab_get dec e v strtab hook s) s"

definition kylin_elf_dump :: "elf_dec \<Rightarrow> kbyte list \<Rightarrow> (kerr \<times> elf_print list) option" where
  "kylin_elf_dump dec e =
     elf_symtab_process dec e (\<lambda>shstrtab strtab v out. do {
       ps \<leftarrow> elf_symtab_print dec e v shstrtab strtab;
       Some (KYLIN_ERROR_OK, out @ ps) }) []"

text \<open>
  The file: the results of opening, of \<^verbatim>\<open>fstat\<close>, of \<^verbatim>\<open>mmap\<close> and of the allocation are arguments. The results list
  the descriptors that are closed; mapping and unmapping the file have no other effect on what is modelled.
\<close>

record ked =
  ed_fd :: "32 word"
  ed_size :: "32 word"
  ed_ehdr :: "kbyte list"

definition kylin_elf_create :: "32 word \<Rightarrow> kbyte list option \<Rightarrow> kbyte list option \<Rightarrow> bool \<Rightarrow> ked option \<times> 32 word list" where
  "kylin_elf_create fd stat img ok =
     (if fd = - 1 then (None, [])
      else case stat of None \<Rightarrow> (None, [fd])
      | Some file \<Rightarrow> (case img of None \<Rightarrow> (None, [fd])
        | Some hdr \<Rightarrow> if \<not> ok then (None, [fd])
          else (Some \<lparr>ed_fd = fd, ed_size = of_nat (length file), ed_ehdr = hdr\<rparr>, [])))"

text \<open>The descriptors that are closed at the end; descriptor 0 is taken for none.\<close>

definition kylin_elf_destroy :: "ked option \<Rightarrow> 32 word list" where
  "kylin_elf_destroy ed = (case ed of None \<Rightarrow> [] | Some d \<Rightarrow> if ed_fd d \<noteq> 0 then [ed_fd d] else [])"

subsection \<open>The symbols of a file\<close>

text \<open>
  A reference for the reader: all section headers are read, then the tables of symbols with the last string table of its name, and the
  symbols that have a name and a value are kept.
\<close>

definition symbol_at :: "elf_dec \<Rightarrow> kbyte list \<Rightarrow> 64 word \<Rightarrow> 64 word \<Rightarrow> (kbyte list \<times> 64 word) option" where
  "symbol_at dec e tab st = do {
     name \<leftarrow> elf_get_word dec e st ST_NAME;
     value \<leftarrow> elf_get_quad dec e st ST_VALUE;
     _ \<leftarrow> elf_get_quad dec e st ST_SIZE;
     _ \<leftarrow> arr_get e (unat (tab + name));
     Some (drop (unat (tab + name)) e, value) }"

definition table_symbols :: "elf_dec \<Rightarrow> kbyte list \<Rightarrow> 64 word \<Rightarrow> 64 word \<Rightarrow> (kbyte list \<times> 64 word) list option" where
  "table_symbols dec e tab v = do {
     offset \<leftarrow> elf_get_quad dec e v SH_OFFSET;
     entsize \<leftarrow> elf_get_quad dec e v SH_ENTSIZE;
     sz \<leftarrow> elf_get_quad dec e v SH_SIZE;
     _ \<leftarrow> elf_get_word dec e v SH_NAME;
     len \<leftarrow> elf_len sz entsize;
     those (map (\<lambda>i. symbol_at dec e tab (offset + of_nat i * entsize)) [0..<len]) }"

definition section_at :: "elf_dec \<Rightarrow> kbyte list \<Rightarrow> 64 word \<Rightarrow> 64 word \<Rightarrow> (bool \<times> 64 word \<times> 64 word) option" where
  "section_at dec e shstrtab v = do {
     name \<leftarrow> elf_get_word dec e v SH_NAME;
     offset \<leftarrow> elf_get_quad dec e v SH_OFFSET;
     type \<leftarrow> elf_get_word dec e v SH_TYPE;
     eq \<leftarrow> elf_streq e (shstrtab + name) dot_strtab;
     Some (eq, offset, type) }"

definition string_table :: "(bool \<times> 64 word \<times> 64 word) list \<Rightarrow> 64 word option" where
  "string_table secs = (case filter fst secs of [] \<Rightarrow> None | xs \<Rightarrow> Some (fst (snd (last xs))))"

definition named :: "kbyte list \<times> 64 word \<Rightarrow> bool" where
  "named = (\<lambda>(n, v). hd n \<noteq> 0 \<and> v \<noteq> 0)"

definition elf_symbols :: "elf_dec \<Rightarrow> kbyte list \<Rightarrow> (kbyte list \<times> 64 word) list option" where
  "elf_symbols dec e = do {
     shoff \<leftarrow> elf_get_quad dec e 0 E_SHOFF;
     shentsize \<leftarrow> elf_get_quarter dec e 0 E_SHENTSIZE;
     shnum \<leftarrow> elf_get_quarter dec e 0 E_SHNUM;
     shstrndx \<leftarrow> elf_get_quarter dec e 0 E_SHSTRNDX;
     shstrtab \<leftarrow> elf_get_quad dec e (shoff + shstrndx * shentsize) SH_OFFSET;
     secs \<leftarrow> those (map (\<lambda>i. section_at dec e shstrtab (shoff + of_nat i * shentsize)) [0..<unat shnum]);
     tabs \<leftarrow> those (map (\<lambda>i. do { tab \<leftarrow> string_table secs; table_symbols dec e tab (shoff + of_nat i * shentsize) })
       (filter (\<lambda>i. snd (snd (secs ! i)) = SHT_SYMTAB) [0..<unat shnum]));
     Some (filter named (concat tabs)) }"

text \<open>Calling a hook on symbols until it returns an error.\<close>

fun visit :: "'s symbol_hook \<Rightarrow> (kbyte list \<times> 64 word) list \<Rightarrow> 's \<Rightarrow> (kerr \<times> 's) option" where
  "visit hook [] s = Some (KYLIN_ERROR_OK, s)"
| "visit hook ((n, v) # xs) s = do {
     (ret, s) \<leftarrow> hook n v s;
     if ret \<noteq> KYLIN_ERROR_OK then Some (ret, s) else visit hook xs s }"

lemma visit_append:
  "visit hook (xs @ ys) s = do { (ret, s) \<leftarrow> visit hook xs s; if ret \<noteq> KYLIN_ERROR_OK then Some (ret, s) else visit hook ys s }"
proof (induction hook xs s rule: visit.induct)
  case (2 hook n v xs s)
  then show ?case by (cases "hook n v s") auto
qed simp

lemma those_Cons: "those (x # xs) = Some ys \<longleftrightarrow> (\<exists>z zs. x = Some z \<and> those xs = Some zs \<and> ys = z # zs)"
  by (auto split: option.splits)

lemma symtab_loop_visit:
  assumes "those (map (\<lambda>i. symbol_at dec e tab (offset + of_nat i * entsize)) is) = Some xs"
  shows "symtab_loop dec e offset entsize (Some tab) hook is s = visit hook (filter named xs) s"
  using assms
proof (induction "is" arbitrary: xs s)
  case (Cons i "is")
  obtain x zs where x: "symbol_at dec e tab (offset + of_nat i * entsize) = Some x" "those (map (\<lambda>i. symbol_at dec e tab (offset + of_nat i * entsize)) is) = Some zs" "xs = x # zs"
    using Cons.prems by (auto simp: those_Cons simp del: those.simps)
  obtain name v sz c where r: "elf_get_word dec e (offset + of_nat i * entsize) ST_NAME = Some name" "elf_get_quad dec e (offset + of_nat i * entsize) ST_VALUE = Some v"
      "elf_get_quad dec e (offset + of_nat i * entsize) ST_SIZE = Some sz" "arr_get e (unat (tab + name)) = Some c" "x = (drop (unat (tab + name)) e, v)"
    using x(1) by (auto simp: symbol_at_def bind_eq_Some_conv)
  have "hd (drop (unat (tab + name)) e) = c" using r(4) by (auto simp: arr_get_def hd_drop_conv_nth split: if_splits)
  then show ?case using r x Cons.IH [OF x(2)] by (simp add: named_def cong: if_cong)
qed simp

lemma elf_symtab_get_visit:
  assumes "table_symbols dec e tab v = Some xs"
  shows "elf_symtab_get dec e v (Some tab) hook s = visit hook (filter named xs) s"
  using assms by (auto simp: table_symbols_def elf_symtab_get_def bind_eq_Some_conv symtab_loop_visit)

lemma strtab_loop_last:
  assumes "those (map (\<lambda>i. section_at dec e shstrtab (sh + of_nat i * shentsize)) is) = Some secs"
  shows "strtab_loop dec e sh shentsize shstrtab is t = Some (case string_table secs of None \<Rightarrow> t | Some o' \<Rightarrow> Some o')"
  using assms
proof (induction "is" arbitrary: secs t)
  case (Cons i "is")
  obtain x zs where x: "section_at dec e shstrtab (sh + of_nat i * shentsize) = Some x" "those (map (\<lambda>i. section_at dec e shstrtab (sh + of_nat i * shentsize)) is) = Some zs"
      "secs = x # zs"
    using Cons.prems by (auto simp: those_Cons simp del: those.simps)
  obtain name off type eq where r: "elf_get_word dec e (sh + of_nat i * shentsize) SH_NAME = Some name" "elf_get_quad dec e (sh + of_nat i * shentsize) SH_OFFSET = Some off"
      "elf_streq e (shstrtab + name) dot_strtab = Some eq" "x = (eq, off, type)"
    using x(1) by (auto simp: section_at_def bind_eq_Some_conv)
  have "strtab_loop dec e sh shentsize shstrtab (i # is) t = Some (case string_table zs of None \<Rightarrow> if eq then Some off else t | Some o' \<Rightarrow> Some o')"
    using r(1-3) Cons.IH [OF x(2)] by simp
  then show ?case using r(4) x(3) by (auto simp: string_table_def split: list.splits)
qed (simp add: string_table_def)

lemma section_loop_visit:
  assumes "those (map (\<lambda>i. section_at dec e shstrtab (sh + of_nat i * shentsize)) is) = Some secs"
    "those (map (\<lambda>(i, _). T (sh + of_nat i * shentsize)) (filter (\<lambda>(_, s). snd (snd s) = SHT_SYMTAB) (zip is secs))) = Some tabs"
    "\<And>v xs s. T v = Some xs \<Longrightarrow> body v s = visit hook (filter named xs) s"
  shows "section_loop dec e sh shentsize body is s = visit hook (filter named (concat tabs)) s"
  using assms(1,2)
proof (induction "is" arbitrary: secs tabs s)
  case (Cons i "is")
  obtain x zs where x: "section_at dec e shstrtab (sh + of_nat i * shentsize) = Some x" "those (map (\<lambda>i. section_at dec e shstrtab (sh + of_nat i * shentsize)) is) = Some zs"
      "secs = x # zs"
    using Cons.prems(1) by (auto simp: those_Cons simp del: those.simps)
  have t: "elf_get_word dec e (sh + of_nat i * shentsize) SH_TYPE = Some (snd (snd x))" using x(1) by (auto simp: section_at_def bind_eq_Some_conv)
  show ?case
  proof (cases "snd (snd x) = SHT_SYMTAB")
    case True
    then obtain y ys where y: "T (sh + of_nat i * shentsize) = Some y"
        "those (map (\<lambda>(i, _). T (sh + of_nat i * shentsize)) (filter (\<lambda>(_, s). snd (snd s) = SHT_SYMTAB) (zip is zs))) = Some ys" "tabs = y # ys"
      using Cons.prems(2) x(3) by (auto simp: those_Cons simp del: those.simps)
    show ?thesis using t True assms(3) [OF y(1)] Cons.IH [OF x(2) y(2)] y(3) by (simp add: visit_append cong: if_cong)
  next
    case False
    then show ?thesis using t Cons.IH [OF x(2)] Cons.prems(2) x(3) by simp
  qed
qed simp

lemma zip_upt_filter:
  "length secs = n \<Longrightarrow> map (\<lambda>(i, _). f i) (filter (\<lambda>(_, s). P s) (zip [0..<n] secs)) = map f (filter (\<lambda>i. P (secs ! i)) [0..<n])"
proof -
  assume n: "length secs = n"
  have "zip [0..<n] secs = map (\<lambda>i. (i, secs ! i)) [0..<n]" using n by (intro nth_equalityI) auto
  then show ?thesis by (simp add: filter_map o_def)
qed

lemma those_length: "those xs = Some ys \<Longrightarrow> length ys = length xs"
  by (induction xs arbitrary: ys) (auto split: option.splits)

text \<open>
  C17. On a file whose headers, tables and names can be read, the reader calls the hook on exactly the named symbols with a value, in the order of the
  tables, until the hook returns an error.
\<close>

theorem kylin_elf_symbol_visits:
  assumes "elf_symbols dec e = Some xs"
  shows "kylin_elf_symbol dec e hook s = visit hook xs s"
proof -
  obtain shoff shentsize shnum shstrndx shstrtab secs tabs where r: "elf_get_quad dec e 0 E_SHOFF = Some shoff" "elf_get_quarter dec e 0 E_SHENTSIZE = Some shentsize"
      "elf_get_quarter dec e 0 E_SHNUM = Some shnum" "elf_get_quarter dec e 0 E_SHSTRNDX = Some shstrndx"
      "elf_get_quad dec e (shoff + shstrndx * shentsize) SH_OFFSET = Some shstrtab"
      "those (map (\<lambda>i. section_at dec e shstrtab (shoff + of_nat i * shentsize)) [0..<unat shnum]) = Some secs"
      "those (map (\<lambda>i. do { tab \<leftarrow> string_table secs; table_symbols dec e tab (shoff + of_nat i * shentsize) })
         (filter (\<lambda>i. snd (snd (secs ! i)) = SHT_SYMTAB) [0..<unat shnum])) = Some tabs" "xs = filter named (concat tabs)"
    using assms by (auto simp: elf_symbols_def bind_eq_Some_conv)
  have n: "length secs = unat shnum" using those_length [OF r(6)] by simp
  let ?T = "\<lambda>v. do { tab \<leftarrow> string_table secs; table_symbols dec e tab v }"
  have "section_loop dec e shoff shentsize (\<lambda>v s. elf_symtab_get dec e v (string_table secs) hook s) [0..<unat shnum] s = visit hook (filter named (concat tabs)) s"
  proof (rule section_loop_visit [OF r(6), of ?T])
    show "those (map (\<lambda>(i, _). ?T (shoff + of_nat i * shentsize)) (filter (\<lambda>(_, s). snd (snd s) = SHT_SYMTAB) (zip [0..<unat shnum] secs))) = Some tabs"
      unfolding zip_upt_filter [OF n, of "\<lambda>i. ?T (shoff + of_nat i * shentsize)"] by (rule r(7))
  qed (auto simp: bind_eq_Some_conv elf_symtab_get_visit)
  moreover have "strtab_loop dec e shoff shentsize shstrtab [0..<unat shnum] None = Some (string_table secs)"
    using strtab_loop_last [OF r(6)] by (simp split: option.splits)
  ultimately show ?thesis using r by (simp add: kylin_elf_symbol_def elf_symtab_process_def)
qed

subsection \<open>The dump\<close>

lemma symtab_print_bad:
  assumes "i \<in> set is" "elf_get_byte e (offset + of_nat i * entsize) ST_INFO = Some info" "unat (info AND 15) \<ge> 5"
  shows "symtab_print_loop dec e offset entsize str is = None"
  using assms(1)
proof (induction "is")
  case (Cons j "is")
  show ?case
  proof (cases "i = j")
    case True
    have "arr_get st_types (unat (info AND 15)) = None" using assms(3) by (simp add: arr_get_def st_types_def)
    then show ?thesis using assms(2) True by (auto simp: Let_def bind_eq_None_conv)
  next
    case False
    then show ?thesis using Cons by (auto simp: Let_def bind_eq_None_conv)
  qed
qed simp

lemma section_loop_none:
  assumes "i \<in> set is" "elf_get_word dec e (sh + of_nat i * shentsize) SH_TYPE = Some SHT_SYMTAB" "\<And>s. body (sh + of_nat i * shentsize) s = None"
    "\<And>v s r s'. body v s = Some (r, s') \<Longrightarrow> r = KYLIN_ERROR_OK"
  shows "section_loop dec e sh shentsize body is s = None"
  using assms(1)
proof (induction "is" arbitrary: s)
  case (Cons j "is")
  show ?case
  proof (cases "i = j")
    case True
    then show ?thesis using assms(2,3) by simp
  next
    case False
    then have "section_loop dec e sh shentsize body is s' = None" for s' using Cons by simp
    then show ?thesis by (cases "body (sh + of_nat j * shentsize) s") (auto simp: Let_def bind_eq_None_conv dest: assms(4))
  qed
qed simp

text \<open>
  The dump looks up the type of a symbol in a table of five names: a file with a symbol of a later type, such as a thread-local variable, is
  dumped from outside the table.
\<close>

theorem kylin_elf_dump_unknown_type:
  assumes "elf_get_quad dec e 0 E_SHOFF = Some shoff" "elf_get_quarter dec e 0 E_SHENTSIZE = Some shentsize" "elf_get_quarter dec e 0 E_SHNUM = Some shnum"
    and "i < unat shnum" "v = shoff + of_nat i * shentsize" "elf_get_word dec e v SH_TYPE = Some SHT_SYMTAB"
    and "elf_get_quad dec e v SH_OFFSET = Some offset" "elf_get_quad dec e v SH_ENTSIZE = Some entsize" "elf_get_quad dec e v SH_SIZE = Some sz" "elf_len sz entsize = Some len"
    and "k < len" "elf_get_byte e (offset + of_nat k * entsize) ST_INFO = Some info" "unat (info AND 15) \<ge> 5"
  shows "kylin_elf_dump dec e = None"
proof -
  have "symtab_print_loop dec e offset entsize str [0..<len] = None" for str
    by (rule symtab_print_bad [OF _ assms(12,13)]) (use assms(11) in simp)
  then have "elf_symtab_print dec e v shstrtab str = None" for shstrtab str
    using assms(7-10) by (auto simp: elf_symtab_print_def bind_eq_None_conv)
  then have "section_loop dec e shoff shentsize (\<lambda>v out. do { ps \<leftarrow> elf_symtab_print dec e v shstrtab str; Some (KYLIN_ERROR_OK, out @ ps) }) [0..<unat shnum] [] = None"
    for shstrtab str using assms(4-6) by (intro section_loop_none [of i]) (auto simp: bind_eq_Some_conv)
  then show ?thesis using assms(1-3) by (auto simp: kylin_elf_dump_def elf_symtab_process_def bind_eq_None_conv)
qed

subsection \<open>An example\<close>

text \<open>Decoders with their documented meaning: the lowest byte first, or last.\<close>

definition dec_demo :: elf_dec where
  "dec_demo msb n bs = le_word (if msb then rev bs else bs)"

text \<open>A file of class 32 with a string table and two symbols, the second a thread-local one with the name ``ab''.\<close>

definition elf_demo :: "kbyte list" where
  "elf_demo =
     [0x7f, 0x45, 0x4c, 0x46, 1, 1, 1, 0] @ replicate 24 0 @ [52, 0, 0, 0] @ replicate 10 0 @ [40, 0, 2, 0, 1, 0]
     @ [0, 0, 0, 0, 2, 0, 0, 0, 0, 0, 0, 0, 0, 0, 0, 0, 144, 0, 0, 0, 32, 0, 0, 0] @ replicate 12 0 @ [16, 0, 0, 0]
     @ [1, 0, 0, 0, 3, 0, 0, 0, 0, 0, 0, 0, 0, 0, 0, 0, 132, 0, 0, 0, 12, 0, 0, 0] @ replicate 16 0
     @ [0, 0x2e, 0x73, 0x74, 0x72, 0x74, 0x61, 0x62, 0, 0x61, 0x62, 0]
     @ replicate 16 0
     @ [9, 0, 0, 0, 16, 0, 0, 0, 0, 0, 0, 0, 6, 0, 0, 0]"

lemma elf_demo_len: "length elf_demo = 176" by (simp add: elf_demo_def)

lemma elf_demo_symbols: "elf_symbols dec_demo elf_demo = Some [([0x61, 0x62, 0] @ drop 144 elf_demo, 16)]"
  by code_simp

theorem kylin_elf_symbol_visits_witness:
  "kylin_elf_symbol dec_demo elf_demo (\<lambda>n v s. Some (KYLIN_ERROR_OK, s @ [(take 2 n, v)])) [] = Some (KYLIN_ERROR_OK, [([0x61, 0x62], 16)])"
  using kylin_elf_symbol_visits [OF elf_demo_symbols, of "\<lambda>n v s. Some (KYLIN_ERROR_OK, s @ [(take 2 n, v)])" "[]"] by simp

theorem kylin_elf_dump_unknown_type_witness: "kylin_elf_dump dec_demo elf_demo = None"
proof -
  have "elf_get_quad dec_demo elf_demo 0 E_SHOFF = Some 52" "elf_get_quarter dec_demo elf_demo 0 E_SHENTSIZE = Some 40" "elf_get_quarter dec_demo elf_demo 0 E_SHNUM = Some 2"
    "elf_get_word dec_demo elf_demo 52 SH_TYPE = Some SHT_SYMTAB" "elf_get_quad dec_demo elf_demo 52 SH_OFFSET = Some 144"
    "elf_get_quad dec_demo elf_demo 52 SH_ENTSIZE = Some 16" "elf_get_quad dec_demo elf_demo 52 SH_SIZE = Some 32" "elf_len 32 16 = Some 2"
    "elf_get_byte elf_demo 160 ST_INFO = Some 6" by code_simp+
  then show ?thesis using kylin_elf_dump_unknown_type [of dec_demo elf_demo 52 40 2 0 52 144 16 32 2 1 6] by simp
qed

end
