(* ===== verification/Kylin_Module.thy ===== *)
theory Kylin_Module
  imports Kylin_Elf Kylin_String Kylin_Registry
begin

section \<open>Modules (lib/core/kylin_core_module.c)\<close>

text \<open>
  A session keeps a list of modules. Loading one reads the symbols of its object file, loads the modules it depends on
  and opens it with the dynamic linker; a configuration file names the modules to load. The linker and the file system
  are calls on a state \<open>'w\<close>; allocations are functions of what is in use. A text that is passed on is its bytes
  up to the terminator, a buffer is all its bytes.
\<close>

subsection \<open>Definitions\<close>

datatype kmod_action = KMOD_ACTION_LOAD | KMOD_ACTION_UNLOAD

record 'w kmod_internal =
  mi_name :: "kbyte list"
  mi_refcnt :: "32 word"
  mi_dl_handle :: kaddr
  mi_module :: "(kmod_action \<Rightarrow> ('w, kerr) kcall) option"

record 'w kmods =
  md_store :: "kaddr \<Rightarrow> 'w kmod_internal option"
  md_path :: "kbyte list"
  md_heap :: lheap
  md_list :: klist
  md_world :: 'w

text \<open>The dynamic linker, files and allocations. A symbol found by \<^verbatim>\<open>dlsym\<close> is the function that returns the module.\<close>

record 'w mod_sys =
  ms_dlopen :: "kbyte list \<Rightarrow> ('w, kaddr) kcall"
  ms_dlsym :: "kaddr \<Rightarrow> kbyte list \<Rightarrow> ('w, ('w, (kmod_action \<Rightarrow> ('w, kerr) kcall) option) kcall option) kcall"
  ms_dlclose :: "kaddr \<Rightarrow> ('w, unit) kcall"
  ms_elf :: "kbyte list \<Rightarrow> ('w, 32 word \<times> kbyte list option \<times> kbyte list option \<times> bool) kcall"
  ms_close :: "32 word list \<Rightarrow> ('w, unit) kcall"
  ms_config :: "kbyte list \<Rightarrow> ('w, kerr + kbyte list) kcall"
  ms_malloc :: "'w kmods \<Rightarrow> kaddr"
  ms_node :: "'w kmods \<Rightarrow> kaddr"

abbreviation PATH_MAX :: nat where "PATH_MAX \<equiv> 4096"
abbreviation sizeof_kmod_internal :: ksize where "sizeof_kmod_internal \<equiv> 88"

definition md_run :: "('w, 'r) kcall \<Rightarrow> 'w kmods \<Rightarrow> ('r \<times> 'w kmods) option" where
  "md_run f st = map_option (\<lambda>(r, w). (r, st\<lparr>md_world := w\<rparr>)) (f (md_world st))"

definition md_upd :: "kaddr \<Rightarrow> ('w kmod_internal \<Rightarrow> 'w kmod_internal) \<Rightarrow> 'w kmods \<Rightarrow> 'w kmods option" where
  "md_upd a f st = map_option (\<lambda>x. st\<lparr>md_store := (md_store st)(a \<mapsto> f x)\<rparr>) (md_store st a)"

text \<open>\<^verbatim>\<open>memcmp\<close> of two names. The modules of the list are alive; the key of a search is a local structure at the address \<open>loc\<close>.\<close>

definition module_match :: "(kaddr \<Rightarrow> 'w kmod_internal option) \<Rightarrow> kaddr \<Rightarrow> kaddr \<Rightarrow> int" where
  "module_match S v key = (case (S v, S key) of (Some a, Some b) \<Rightarrow> byte_cmp (mi_name a) (mi_name b) | _ \<Rightarrow> 1)"

definition key_module :: "kbyte list \<Rightarrow> 'w kmod_internal" where
  "key_module name = \<lparr>mi_name = name, mi_refcnt = 0, mi_dl_handle = 0, mi_module = None\<rparr>"

definition mod_list :: "kaddr \<Rightarrow> kbyte list \<Rightarrow> 'w kmods \<Rightarrow> klist" where
  "mod_list loc name st =
     (md_list st)\<lparr>list_opts := obj_opts (module_match ((md_store st)(loc \<mapsto> key_module name))) sizeof_kmod_internal\<rparr>"

definition module_find :: "kaddr \<Rightarrow> kbyte list \<Rightarrow> 'w kmods \<Rightarrow> kaddr option" where
  "module_find loc name st = do {
     r \<leftarrow> kylin_list_find (md_heap st) (mod_list loc name st) loc;
     Some (case r of Some (Obj p) \<Rightarrow> p | _ \<Rightarrow> 0) }"

text \<open>The texts the code formats: \<^verbatim>\<open>snprintf\<close> cuts to the size less the terminator.\<close>

abbreviation cstr :: "kbyte list \<Rightarrow> kbyte list" where
  "cstr \<equiv> takeWhile (\<lambda>b. b \<noteq> 0)"

definition bytes_of :: "string \<Rightarrow> kbyte list" where
  "bytes_of s = map (\<lambda>c. of_nat (of_char c)) s"

definition so_path :: "kbyte list \<Rightarrow> kbyte list \<Rightarrow> kbyte list" where
  "so_path path name = take (PATH_MAX - 1) (cstr path @ bytes_of ''/'' @ cstr name @ bytes_of ''.so'')"

definition module_load :: "'w mod_sys \<Rightarrow> kaddr \<Rightarrow> 'w kmods \<Rightarrow> (kerr \<times> 'w kmods) option" where
  "module_load sys a st = do {
     x \<leftarrow> md_store st a;
     (handle, st) \<leftarrow> md_run (ms_dlopen sys (so_path (md_path st) (mi_name x))) st;
     if handle = 0 then Some (KYLIN_ERROR_INVAL, st)
     else do {
       (func, st) \<leftarrow> md_run (ms_dlsym sys handle (take 63 (cstr (mi_name x) @ bytes_of ''_module''))) st;
       case func of None \<Rightarrow> do { (_, st) \<leftarrow> md_run (ms_dlclose sys handle) st; Some (KYLIN_ERROR_INVAL, st) }
       | Some func \<Rightarrow> do {
           st \<leftarrow> md_upd a (\<lambda>x. x\<lparr>mi_dl_handle := handle\<rparr>) st;
           (m, st) \<leftarrow> md_run func st;
           st \<leftarrow> md_upd a (\<lambda>x. x\<lparr>mi_module := m\<rparr>) st;
           case m of None \<Rightarrow> do { (_, st) \<leftarrow> md_run (ms_dlclose sys handle) st; Some (KYLIN_ERROR_INVAL, st) }
           | Some h \<Rightarrow> md_run (h KMOD_ACTION_LOAD) st } } }"

definition module_unload :: "'w mod_sys \<Rightarrow> kaddr \<Rightarrow> 'w kmods \<Rightarrow> (kerr \<times> 'w kmods) option" where
  "module_unload sys a st = do {
     x \<leftarrow> md_store st a;
     h \<leftarrow> mi_module x;
     (ret, st) \<leftarrow> md_run (h KMOD_ACTION_UNLOAD) st;
     if ret \<noteq> KYLIN_ERROR_OK then Some (ret, st)
     else do {
       (_, st) \<leftarrow> md_run (ms_dlclose sys (mi_dl_handle x)) st;
       Some (ret, st) } }"

definition module_exist :: "kaddr \<Rightarrow> kbyte list \<Rightarrow> 'w kmods \<Rightarrow> bool option" where
  "module_exist loc name st = do {
     nm \<leftarrow> name_copy name;
     p \<leftarrow> module_find loc nm st;
     Some (p \<noteq> 0) }"

definition kylin_module_session_create :: "bool \<Rightarrow> bool \<Rightarrow> kbyte list \<Rightarrow> 'w kmods \<Rightarrow> (bool \<times> 'w kmods) option" where
  "kylin_module_session_create ok ok_list path st =
     (if \<not> ok then Some (False, st)
      else case kylin_list_create ok_list (obj_opts (module_match (md_store st)) sizeof_kmod_internal) of
        None \<Rightarrow> Some (False, st)
      | Some l \<Rightarrow> do {
          n \<leftarrow> strlen path;
          let k = min (unat n) (PATH_MAX - 1);
          Some (True, st\<lparr>md_list := l, md_path := take k path @ replicate (PATH_MAX - k) 0\<rparr>) })"

definition kylin_module_session_destroy :: "'w kmods \<Rightarrow> 'w kmods option" where
  "kylin_module_session_destroy st = do {
     (rels, h) \<leftarrow> kylin_list_destroy (md_heap st) ((md_list st)\<lparr>list_opts := obj_opts (module_match (md_store st)) sizeof_kmod_internal\<rparr>);
     Some (st\<lparr>md_heap := h, md_store := release_objs rels (md_store st)\<rparr>) }"

text \<open>
  A new module with the name \<open>nm\<close> and a place in the list. The allocations are made for the state before them.
\<close>

definition new_module :: "kbyte list \<Rightarrow> 'w kmod_internal" where
  "new_module nm = \<lparr>mi_name = nm, mi_refcnt = 1, mi_dl_handle = 0, mi_module = None\<rparr>"

subsubsection \<open>Dependencies\<close>

text \<open>
  Reading symbols is monotone in the hook, so that a hook may be defined by recursion through it.
\<close>

lemma case_prod_mono: "(\<And>a b. mono_option (\<lambda>f. g f a b)) \<Longrightarrow> mono_option (\<lambda>f. case y of (a, b) \<Rightarrow> g f a b)"
  by (cases y) simp

lemma symtab_loop_mono [partial_function_mono]:
  assumes "\<And>n v s. mono_option (\<lambda>f. h f n v s)"
  shows "mono_option (\<lambda>f. symtab_loop dec e offset entsize str (h f) is s)"
proof (induction "is" arbitrary: s)
  case Nil
  then show ?case by simp (intro partial_function_mono)
next
  case (Cons i "is")
  show ?case unfolding symtab_loop.simps Let_def by (intro partial_function_mono case_prod_mono Cons assms)
qed

lemma section_loop_mono [partial_function_mono]:
  assumes "\<And>v s. mono_option (\<lambda>f. b f v s)"
  shows "mono_option (\<lambda>f. section_loop dec e sh shentsize (b f) is s)"
proof (induction "is" arbitrary: s)
  case Nil
  then show ?case by simp (intro partial_function_mono)
next
  case (Cons i "is")
  show ?case unfolding section_loop.simps Let_def by (intro partial_function_mono case_prod_mono Cons assms)
qed

lemma kylin_elf_symbol_mono [partial_function_mono]:
  assumes "\<And>n v s. mono_option (\<lambda>f. h f n v s)"
  shows "mono_option (\<lambda>f. kylin_elf_symbol dec e (h f) s)"
  unfolding kylin_elf_symbol_def elf_symtab_process_def elf_symtab_get_def
  by (intro partial_function_mono assms)

text \<open>
  The hook that looks for the dependencies of the module whose name is in the buffer \<open>mod_name\<close>. \<open>depend\<close> is an array of
  the size of a name that starts with zeros; copying more into it, or reading more than \<open>mod_name\<close> has, is undefined, and
  \<^verbatim>\<open>exit\<close> does not return.
\<close>

definition depend_base :: "kbyte list \<Rightarrow> kbyte list" where
  "depend_base mod_name = take (PATH_MAX - 1) (cstr mod_name @ bytes_of ''_depend_on_'')"

definition depend_ref :: "kaddr \<Rightarrow> kbyte list \<Rightarrow> 'w kmods \<Rightarrow> ((kerr + kaddr) \<times> 'w kmods) option" where
  "depend_ref loc depend st = do {
     a \<leftarrow> module_find loc depend st;
     if a = 0 then Some (Inl KYLIN_ERROR_NOENT, st)
     else do {
       st \<leftarrow> md_upd a (\<lambda>x. x\<lparr>mi_refcnt := mi_refcnt x + 1\<rparr>) st;
       Some (Inr a, st) } }"

definition depend_new :: "'w mod_sys \<Rightarrow> kaddr \<Rightarrow> kbyte list \<Rightarrow> kbyte list \<Rightarrow> 'w kmods \<Rightarrow> ((kerr + kaddr) \<times> 'w kmods) option" where
  "depend_new sys loc mod_name depend st = do {
     cmp \<leftarrow> buf_read mod_name 0 KYLIN_NAME_LENGTH;
     mod_node \<leftarrow> kylin_list_find_raw (md_heap st) (mod_list loc cmp st) loc;
     if mod_node = 0 then Some (Inl KYLIN_ERROR_INVAL, st)
     else do {
       let a = ms_malloc sys st;
       if a = 0 then Some (Inl KYLIN_ERROR_NOMEM, st)
       else do {
         let st = st\<lparr>md_store := (md_store st)(a \<mapsto> new_module depend)\<rparr>;
         (r, _, h, l) \<leftarrow> kylin_list_insert_before Map.empty (md_heap st) (mod_list loc cmp st) mod_node (ms_node sys st) a;
         if r = None then Some (Inl KYLIN_ERROR_NOENT, st\<lparr>md_store := (md_store st)(a := None)\<rparr>)
         else Some (Inr a, st\<lparr>md_heap := h, md_list := l\<rparr>) } } }"

partial_function (option) module_depend_process ::
    "'w mod_sys \<Rightarrow> elf_dec \<Rightarrow> kaddr \<Rightarrow> kbyte list \<Rightarrow> kbyte list \<Rightarrow> 64 word \<Rightarrow> 'w kmods \<Rightarrow> (kerr \<times> 'w kmods) option" where
  "module_depend_process sys dec loc mod_name name value st = do {
     n \<leftarrow> strlen name;
     let b = length (depend_base mod_name);
     if unat n > b \<and> take b name = depend_base mod_name then do {
       depend \<leftarrow> buf_write (replicate KYLIN_NAME_LENGTH 0) 0 (take (unat n - b) (drop b name));
       exist \<leftarrow> module_exist loc depend st;
       (r, st) \<leftarrow> (if exist then depend_ref loc depend st else depend_new sys loc mod_name depend st);
       case r of Inl ret \<Rightarrow> Some (ret, st)
       | Inr a \<Rightarrow> do {
           ((fd, stat, img, ok), st) \<leftarrow> md_run (ms_elf sys (so_path (md_path st) depend)) st;
           (_, st) \<leftarrow> md_run (ms_close sys (snd (kylin_elf_create fd stat img ok))) st;
           case fst (kylin_elf_create fd stat img ok) of None \<Rightarrow> Some (KYLIN_ERROR_NOENT, st)
           | Some ed \<Rightarrow> do {
               (ret, st) \<leftarrow> kylin_elf_symbol dec (ed_ehdr ed) (module_depend_process sys dec loc depend) st;
               if ret \<noteq> KYLIN_ERROR_OK then None
               else do {
                 (_, st) \<leftarrow> md_run (ms_close sys (kylin_elf_destroy (Some ed))) st;
                 x \<leftarrow> md_store st a;
                 if mi_refcnt x = 1 then module_load sys a st else Some (KYLIN_ERROR_OK, st) } } } }
     else Some (KYLIN_ERROR_OK, st) }"

declare module_depend_process.simps [code]

subsubsection \<open>Loading and unloading\<close>

text \<open>
  The name for the hook is copied through a pointer that was never set. \<open>slot\<close> is what it happens to point to, \<open>None\<close> where that
  cannot be written; the copy has no terminator.
\<close>

definition kylin_module_load :: "'w mod_sys \<Rightarrow> elf_dec \<Rightarrow> kaddr \<Rightarrow> kbyte list option \<Rightarrow> kbyte list \<Rightarrow> 'w kmods \<Rightarrow> (kerr \<times> 'w kmods) option" where
  "kylin_module_load sys dec loc slot mod_name st = do {
     exist \<leftarrow> module_exist loc mod_name st;
     if exist then Some (KYLIN_ERROR_EXIST, st)
     else do {
       let a = ms_malloc sys st;
       if a = 0 then Some (KYLIN_ERROR_NOMEM, st)
       else do {
         nm \<leftarrow> name_copy mod_name;
         let st = st\<lparr>md_store := (md_store st)(a \<mapsto> new_module nm)\<rparr>;
         (r, _, h, l) \<leftarrow> kylin_list_insert_tail Map.empty (md_heap st) (mod_list loc nm st) (ms_node sys st) a;
         if r = None then Some (KYLIN_ERROR_NOENT, st\<lparr>md_store := (md_store st)(a := None)\<rparr>)
         else do {
           let st = st\<lparr>md_heap := h, md_list := l\<rparr>;
           ((fd, stat, img, ok), st) \<leftarrow> md_run (ms_elf sys (so_path (md_path st) mod_name)) st;
           (_, st) \<leftarrow> md_run (ms_close sys (snd (kylin_elf_create fd stat img ok))) st;
           case fst (kylin_elf_create fd stat img ok) of None \<Rightarrow> Some (KYLIN_ERROR_INVAL, st)
           | Some ed \<Rightarrow> do {
               n \<leftarrow> strlen mod_name;
               mem \<leftarrow> slot;
               mem \<leftarrow> buf_write mem 0 (take (min (unat n) (KYLIN_NAME_LENGTH - 1)) mod_name);
               (ret, st) \<leftarrow> kylin_elf_symbol dec (ed_ehdr ed) (module_depend_process sys dec loc mem) st;
               if ret \<noteq> KYLIN_ERROR_OK then None
               else do {
                 (_, st) \<leftarrow> md_run (ms_close sys (kylin_elf_destroy (Some ed))) st;
                 x \<leftarrow> md_store st a;
                 if mi_refcnt x = 1 then module_load sys a st else Some (KYLIN_ERROR_OK, st) } } } } } }"

text \<open>
  The configuration file, mapped into memory: behind its end the last page is filled with zeros, and reading further is undefined. A line is the bytes
  up to the next newline.
\<close>

definition mapped_byte :: "kbyte list \<Rightarrow> nat \<Rightarrow> kbyte option" where
  "mapped_byte cfg i = (if i < length cfg then Some (cfg ! i) else if i < (length cfg + 4095) div 4096 * 4096 then Some 0 else None)"

function line_end :: "kbyte list \<Rightarrow> nat \<Rightarrow> nat option" where
  "line_end cfg i = do {
     b \<leftarrow> mapped_byte cfg i;
     if b \<noteq> 10 \<and> i < length cfg then line_end cfg (i + 1) else Some i }"
  by pat_completeness auto
termination by (relation "measure (\<lambda>(cfg, i). length cfg - i)") auto

text \<open>A line becomes a name: \<^verbatim>\<open>strncpy\<close> fills the array up to the length of the line, which must fit.\<close>

definition line_name :: "kbyte list \<Rightarrow> kbyte list option" where
  "line_name line = buf_write (replicate KYLIN_NAME_LENGTH 0) 0 (cstr line @ replicate (length line - length (cstr line)) 0)"

partial_function (option) load_loop ::
    "(kbyte list \<Rightarrow> 'w kmods \<Rightarrow> (kerr \<times> 'w kmods) option) \<Rightarrow> kbyte list \<Rightarrow> nat \<Rightarrow> nat \<Rightarrow> 'w kmods \<Rightarrow> (kerr \<times> 'w kmods) option" where
  "load_loop load cfg from i st =
     (if i < length cfg then do {
        e \<leftarrow> line_end cfg i;
        b \<leftarrow> mapped_byte cfg e;
        if b = 10 \<and> e \<ge> length cfg then Some (KYLIN_ERROR_OK, st)
        else do {
          (ret, st) \<leftarrow> (if e > from \<and> e - from < PATH_MAX
            then do { nm \<leftarrow> line_name (take (e - from) (drop from cfg)); load nm st }
            else Some (KYLIN_ERROR_OK, st));
          if ret \<noteq> KYLIN_ERROR_OK \<and> ret \<noteq> KYLIN_ERROR_EXIST then Some (ret, st)
          else load_loop load cfg (e + 1) (e + 1) st } }
      else Some (KYLIN_ERROR_OK, st))"

declare load_loop.simps [code]

definition kylin_module_load_all :: "'w mod_sys \<Rightarrow> elf_dec \<Rightarrow> kaddr \<Rightarrow> kbyte list option \<Rightarrow> 'w kmods \<Rightarrow> (kerr \<times> 'w kmods) option" where
  "kylin_module_load_all sys dec loc slot st = do {
     (r, st) \<leftarrow> md_run (ms_config sys (take (PATH_MAX - 1) (cstr (md_path st) @ bytes_of ''/modules.conf''))) st;
     case r of Inl err \<Rightarrow> Some (err, st)
     | Inr cfg \<Rightarrow> load_loop (kylin_module_load sys dec loc slot) cfg 0 0 st }"

definition kylin_module_unload :: "'w mod_sys \<Rightarrow> kaddr \<Rightarrow> kbyte list \<Rightarrow> 'w kmods \<Rightarrow> (kerr \<times> 'w kmods) option" where
  "kylin_module_unload sys loc mod_name st = do {
     nm \<leftarrow> name_copy mod_name;
     a \<leftarrow> module_find loc nm st;
     if a = 0 then Some (KYLIN_ERROR_NOENT, st)
     else do {
       (ret, st) \<leftarrow> module_unload sys a st;
       if ret \<noteq> KYLIN_ERROR_OK then Some (ret, st)
       else do {
         (r, h, l) \<leftarrow> kylin_list_unlink (md_heap st) (mod_list loc nm st) loc;
         case r of Some (Obj p) \<Rightarrow> Some (KYLIN_ERROR_OK, st\<lparr>md_heap := h, md_list := l, md_store := (md_store st)(p := None)\<rparr>)
         | _ \<Rightarrow> Some (KYLIN_ERROR_NOENT, st\<lparr>md_heap := h, md_list := l\<rparr>) } } }"

partial_function (option) unload_loop :: "'w mod_sys \<Rightarrow> kaddr \<Rightarrow> 'w kmods \<Rightarrow> (kerr \<times> 'w kmods) option" where
  "unload_loop sys p st =
     (if p = 0 then Some (KYLIN_ERROR_OK, st)
      else do {
        n \<leftarrow> node_get (md_heap st) p;
        if ln_val n = 0 then Some (KYLIN_ERROR_INVAL, st)
        else do {
          (ret, st) \<leftarrow> module_unload sys (ln_val n) st;
          if ret \<noteq> KYLIN_ERROR_OK then Some (ret, st)
          else do { q \<leftarrow> kylin_list_prev (md_heap st) (md_list st) p; unload_loop sys q st } } })"

declare unload_loop.simps [code]

definition kylin_module_unload_all :: "'w mod_sys \<Rightarrow> 'w kmods \<Rightarrow> (kerr \<times> 'w kmods) option" where
  "kylin_module_unload_all sys st = do {
     (ret, st) \<leftarrow> unload_loop sys (kylin_list_last (md_list st)) st;
     if ret \<noteq> KYLIN_ERROR_OK then Some (ret, st)
     else do { st \<leftarrow> kylin_module_session_destroy st; Some (KYLIN_ERROR_OK, st) } }"

definition kylin_module_count :: "'w kmods \<Rightarrow> ksize" where
  "kylin_module_count st = kylin_list_count (md_list st)"

definition kylin_module_dump :: "'w kmods \<Rightarrow> unit" where
  "kylin_module_dump st = ()"

definition module_init :: kerr where
  "module_init = KYLIN_ERROR_OK"

definition module_fini :: unit where
  "module_fini = ()"

subsection \<open>The configuration file\<close>

text \<open>The lines of a text, and loading them one after the other until an error.\<close>

function conf_lines :: "kbyte list \<Rightarrow> kbyte list list" where
  "conf_lines cfg = (if cfg = [] then []
     else takeWhile (\<lambda>b. b \<noteq> 10) cfg # conf_lines (drop (Suc (length (takeWhile (\<lambda>b. b \<noteq> 10) cfg))) cfg))"
  by pat_completeness auto
termination by (relation "measure length") auto

declare conf_lines.simps [simp del] line_end.simps [simp del]

fun load_each :: "(kbyte list \<Rightarrow> 's \<Rightarrow> (kerr \<times> 's) option) \<Rightarrow> kbyte list list \<Rightarrow> 's \<Rightarrow> (kerr \<times> 's) option" where
  "load_each load [] st = Some (KYLIN_ERROR_OK, st)"
| "load_each load (l # ls) st =
     (if l = [] \<or> length l \<ge> PATH_MAX then load_each load ls st
      else do {
        nm \<leftarrow> line_name l;
        (ret, st) \<leftarrow> load nm st;
        if ret \<noteq> KYLIN_ERROR_OK \<and> ret \<noteq> KYLIN_ERROR_EXIST then Some (ret, st) else load_each load ls st })"

text \<open>The byte behind the text can be read where a line may end there.\<close>

definition tail_ok :: "kbyte list \<Rightarrow> bool" where
  "tail_ok cfg \<longleftrightarrow> cfg \<noteq> [] \<longrightarrow> last cfg = 10 \<or> length cfg mod 4096 \<noteq> 0"

lemma mapped_tail: "length cfg mod 4096 \<noteq> 0 \<Longrightarrow> mapped_byte cfg (length cfg) = Some 0"
proof -
  assume r: "length cfg mod 4096 \<noteq> 0"
  obtain q k :: nat where n: "length cfg = 4096 * q + k" "k < 4096" "k \<noteq> 0"
    using r that [of "length cfg div 4096" "length cfg mod 4096"] by simp
  have "(length cfg + 4095) div 4096 = Suc q" using n(2,3) unfolding n(1) by (intro div_nat_eqI) auto
  then have "length cfg < (length cfg + 4095) div 4096 * 4096" using n by simp
  then show ?thesis by (simp add: mapped_byte_def)
qed

lemma last_of_run: "takeWhile (\<lambda>b. b \<noteq> 10) (drop i cfg) = drop i cfg \<Longrightarrow> i < length cfg \<Longrightarrow> last cfg \<noteq> (10 :: kbyte)"
proof -
  assume t: "takeWhile (\<lambda>b. b \<noteq> 10) (drop i cfg) = drop i cfg" and i: "i < length cfg"
  have "last cfg \<in> set (drop i cfg)" using i by (metis drop_eq_Nil last_drop last_in_set linorder_not_less)
  then show ?thesis using t by (metis set_takeWhileD)
qed

lemma line_end_run:
  assumes "tail_ok cfg" "i \<le> length cfg" "i < length cfg \<or> last cfg \<noteq> 10" "cfg \<noteq> []"
  shows "line_end cfg i = Some (i + length (takeWhile (\<lambda>b. b \<noteq> 10) (drop i cfg)))"
  using assms(2,3)
proof (induction "length cfg - i" arbitrary: i)
  case 0
  then have "mapped_byte cfg (length cfg) = Some 0" "i = length cfg" using assms(1,4) mapped_tail by (auto simp: tail_ok_def)
  then show ?case by (subst line_end.simps) simp
next
  case (Suc n)
  then have i: "i < length cfg" by simp
  have d: "drop i cfg = cfg ! i # drop (Suc i) cfg" using i by (simp add: Cons_nth_drop_Suc)
  have b: "mapped_byte cfg i = Some (cfg ! i)" using i by (simp add: mapped_byte_def)
  show ?case
  proof (cases "cfg ! i = 10")
    case True
    then show ?thesis using b d by (subst line_end.simps) simp
  next
    case False
    have "Suc i < length cfg \<or> last cfg \<noteq> 10"
    proof (cases "Suc i < length cfg")
      case False
      then have "last cfg = cfg ! i" using i assms(4) by (metis Suc_lessI diff_Suc_1 last_conv_nth)
      then show ?thesis using \<open>cfg ! i \<noteq> 10\<close> by simp
    qed simp
    then have "line_end cfg (Suc i) = Some (Suc i + length (takeWhile (\<lambda>b. b \<noteq> 10) (drop (Suc i) cfg)))"
      using Suc i by (intro Suc.hyps(1)) auto
    then show ?thesis using False b d i by (subst line_end.simps) simp
  qed
qed

lemma run_end:
  assumes "tail_ok cfg" "i < length cfg" "k = length (takeWhile (\<lambda>b. b \<noteq> 10) (drop i cfg))"
  shows "(i + k < length cfg \<and> mapped_byte cfg (i + k) = Some 10) \<or> (i + k = length cfg \<and> mapped_byte cfg (i + k) = Some 0)"
proof (cases "i + k < length cfg")
  case True
  have "drop i cfg ! k = 10" using nth_length_takeWhile [of "\<lambda>b. b \<noteq> 10" "drop i cfg"] True assms(2,3) by simp
  then show ?thesis using True by (simp add: mapped_byte_def)
next
  case False
  have "k \<le> length cfg - i" using assms(3) length_takeWhile_le [of "\<lambda>b. b \<noteq> 10" "drop i cfg"] by simp
  then have k: "i + k = length cfg" using False assms(2) by simp
  then have "takeWhile (\<lambda>b. b \<noteq> 10) (drop i cfg) = drop i cfg" using assms(2,3)
    by (subst takeWhile_eq_take) simp
  then have "last cfg \<noteq> 10" using last_of_run assms(2) by blast
  then show ?thesis using assms(1,2) k mapped_tail by (auto simp: tail_ok_def)
qed

lemma load_loop_lines:
  assumes "tail_ok cfg"
  shows "load_loop load cfg i i st = load_each load (conf_lines (drop i cfg)) st"
proof (induction "length cfg - i" arbitrary: i st rule: less_induct)
  case less
  show ?case
  proof (cases "i < length cfg")
    case False
    then show ?thesis by (simp add: load_loop.simps conf_lines.simps)
  next
    case True
    define l where "l = takeWhile (\<lambda>b. b \<noteq> 10) (drop i cfg)"
    define e where "e = i + length l"
    have "cfg \<noteq> []" using True by auto
    then have le: "line_end cfg i = Some e" using line_end_run [of cfg i] assms True by (auto simp: e_def l_def)
    have m: "\<exists>b. mapped_byte cfg e = Some b \<and> \<not> (b = 10 \<and> e \<ge> length cfg)"
      using run_end [OF assms True l_def [THEN arg_cong [of _ _ length]]] by (auto simp: e_def)
    have t: "take (e - i) (drop i cfg) = l" by (simp add: e_def l_def takeWhile_eq_take [symmetric])
    have c: "conf_lines (drop i cfg) = l # conf_lines (drop (e + 1) cfg)"
      using True by (subst conf_lines.simps) (simp add: l_def [symmetric] e_def add.commute)
    have ih: "load_loop load cfg (e + 1) (e + 1) s = load_each load (conf_lines (drop (e + 1) cfg)) s" for s
      using True by (intro less) (simp add: e_def)
    show ?thesis
    proof (cases "l = [] \<or> length l \<ge> PATH_MAX")
      case True
      then have "\<not> (e > i \<and> e - i < PATH_MAX)" by (auto simp: e_def)
      then show ?thesis using \<open>i < length cfg\<close> le m c ih True by (subst load_loop.simps) auto
    next
      case False
      then have "e > i \<and> e - i < PATH_MAX" by (simp add: e_def)
      then show ?thesis using \<open>i < length cfg\<close> le m c ih t False by (subst load_loop.simps) (auto cong: if_cong)
    qed
  qed
qed

subsection \<open>What holds of modules\<close>

text \<open>A linker and file system in which the only file is a configuration with the two names \<^verbatim>\<open>ab\<close> and \<^verbatim>\<open>c\<close>.\<close>

definition demo_sys :: "unit mod_sys" where
  "demo_sys = \<lparr>ms_dlopen = \<lambda>_ w. Some (0, w), ms_dlsym = \<lambda>_ _ w. Some (None, w), ms_dlclose = \<lambda>_ w. Some ((), w),
     ms_elf = \<lambda>_ w. Some ((-1, None, None, False), w), ms_close = \<lambda>_ w. Some ((), w), ms_config = \<lambda>_ w. Some (Inr [10, 97, 98, 10, 99], w),
     ms_malloc = \<lambda>_. 64, ms_node = \<lambda>_. 128\<rparr>"

definition demo_mods :: "unit kmods" where
  "demo_mods = \<lparr>md_store = Map.empty, md_path = [46, 0], md_heap = Map.empty,
     md_list = \<lparr>list_head = 0, list_tail = 0, list_opts = obj_opts (\<lambda>_ _. 1) sizeof_kmod_internal, list_count = 0\<rparr>, md_world = ()\<rparr>"

text \<open>
  C18. Loading the modules of the configuration file loads its lines one after the other and stops at the first error other than \<^verbatim>\<open>KYLIN_ERROR_EXIST\<close>:
  empty lines and lines of \<^verbatim>\<open>PATH_MAX\<close> bytes and more are passed over. This needs a byte behind the text that can be read, or a newline at its end.
\<close>

theorem kylin_module_load_all_lines:
  assumes "md_run (ms_config sys (take (PATH_MAX - 1) (cstr (md_path st) @ bytes_of ''/modules.conf''))) st = Some (Inr cfg, st')" "tail_ok cfg"
  shows "kylin_module_load_all sys dec loc slot st = load_each (kylin_module_load sys dec loc slot) (conf_lines cfg) st'"
  using assms load_loop_lines [OF assms(2), of _ 0] by (simp add: kylin_module_load_all_def)

theorem kylin_module_load_all_lines_witness:
  "conf_lines [10, 97, 98, 10, 99] = [[], [97, 98], [99]]
    \<and> kylin_module_load_all demo_sys dec_demo 8 None demo_mods = load_each (kylin_module_load demo_sys dec_demo 8 None) (conf_lines [10, 97, 98, 10, 99]) demo_mods"
proof
  show "conf_lines [10, 97, 98, 10, 99] = [[], [97, 98], [99]]" by (simp add: conf_lines.simps)
  show "kylin_module_load_all demo_sys dec_demo 8 None demo_mods = load_each (kylin_module_load demo_sys dec_demo 8 None) (conf_lines [10, 97, 98, 10, 99]) demo_mods"
    by (rule kylin_module_load_all_lines) (simp_all add: md_run_def demo_sys_def demo_mods_def tail_ok_def)
qed

subsection \<open>Modules that could not be loaded\<close>

text \<open>The modules of the list are alive and have a terminated name; the key of a search is somewhere else.\<close>

definition mods_wf :: "kaddr \<Rightarrow> 'w kmods \<Rightarrow> kaddr list \<Rightarrow> bool" where
  "mods_wf loc st vs \<longleftrightarrow> obj_list (md_heap st) (md_list st) vs \<and> 0 \<notin> set vs \<and> loc \<notin> set vs
     \<and> (\<forall>v \<in> set vs. \<exists>x. md_store st v = Some x \<and> length (mi_name x) = KYLIN_NAME_LENGTH)"

lemma module_find_name:
  assumes "mods_wf loc st vs" "length nm = KYLIN_NAME_LENGTH"
  shows "module_find loc nm st = Some (case find (\<lambda>v. mi_name (the (md_store st v)) = nm) vs of None \<Rightarrow> 0 | Some v \<Rightarrow> v)"
proof -
  let ?S = "(md_store st)(loc \<mapsto> key_module nm)"
  have "find (\<lambda>v. module_match ?S loc v = 0) vs = find (\<lambda>v. mi_name (the (md_store st v)) = nm) vs"
  proof (rule find_cong)
    fix v assume "v \<in> set vs"
    then obtain x where "md_store st v = Some x" "length (mi_name x) = KYLIN_NAME_LENGTH" "v \<noteq> loc"
      using assms(1) by (auto simp: mods_wf_def)
    then show "(module_match ?S loc v = 0) = (mi_name (the (md_store st v)) = nm)"
      using assms(2) by (auto simp: module_match_def key_module_def byte_cmp_zero)
  qed simp
  moreover have "obj_list (md_heap st) (mod_list loc nm st) vs" "obj_guard (mod_list loc nm st)"
    using assms(1) by (auto simp: mods_wf_def mod_list_def)
  ultimately show ?thesis using obj_list_find [of "md_heap st" "mod_list loc nm st" vs loc]
    by (auto simp: module_find_def mod_list_def split: option.splits)
qed

lemma find_snoc: "find P xs = None \<Longrightarrow> find P (xs @ [x]) = (if P x then Some x else None)"
  by (induction xs) (auto split: if_splits)

lemma mods_wf_new:
  assumes "mods_wf loc st vs" "length nm = KYLIN_NAME_LENGTH" "a \<noteq> 0" "a \<noteq> loc" "md_store st a = None" "node \<noteq> 0" "md_heap st node = None"
  shows "\<exists>h l. kylin_list_insert_tail Map.empty (md_heap st) (mod_list loc nm (st\<lparr>md_store := (md_store st)(a \<mapsto> new_module nm)\<rparr>)) node a = Some (Some (Obj a), Map.empty, h, l)
    \<and> mods_wf loc (st\<lparr>md_store := (md_store st)(a \<mapsto> new_module nm), md_heap := h, md_list := l\<rparr>) (vs @ [a])"
proof -
  let ?l = "mod_list loc nm (st\<lparr>md_store := (md_store st)(a \<mapsto> new_module nm)\<rparr>)"
  have "obj_list (md_heap st) ?l vs" "obj_guard ?l" using assms(1) by (auto simp: mods_wf_def mod_list_def)
  then obtain h l where l: "kylin_list_insert_tail Map.empty (md_heap st) ?l node a = Some (Some (Obj a), Map.empty, h, l)" "obj_list h l (vs @ [a])"
    using obj_list_insert_tail assms(6,7) by blast
  then show ?thesis using assms(1-5) by (intro exI [of _ h] exI [of _ l]) (auto simp: mods_wf_def new_module_def)
qed

text \<open>
  A module whose object file cannot be opened is not taken back: loading it fails, but the module stays in the list, so that loading it again
  finds it loaded, and unloading it calls a function of a module that never was, which is undefined.
\<close>

theorem kylin_module_load_failed:
  assumes "mods_wf loc st vs" "name_copy name = Some nm" "\<forall>v \<in> set vs. mi_name (the (md_store st v)) \<noteq> nm"
    and "ms_malloc sys st = a" "a \<noteq> 0" "a \<noteq> loc" "md_store st a = None"
    and "ms_node sys (st\<lparr>md_store := (md_store st)(a \<mapsto> new_module nm)\<rparr>) = node" "node \<noteq> 0" "md_heap st node = None"
    and "ms_elf sys (so_path (md_path st) name) (md_world st) = Some ((fd, stat, img, ok), w)" "kylin_elf_create fd stat img ok = (None, fds)"
    and "ms_close sys fds w = Some ((), w')"
  shows "\<exists>st'. kylin_module_load sys dec loc slot name st = Some (KYLIN_ERROR_INVAL, st')
    \<and> kylin_module_load sys dec loc slot name st' = Some (KYLIN_ERROR_EXIST, st') \<and> kylin_module_unload sys loc name st' = None"
proof -
  have nm: "length nm = KYLIN_NAME_LENGTH" using name_copy_wf [OF assms(2)] by (simp add: name_wf_def)
  let ?st = "st\<lparr>md_store := (md_store st)(a \<mapsto> new_module nm)\<rparr>"
  obtain h l where l: "kylin_list_insert_tail Map.empty (md_heap st) (mod_list loc nm ?st) node a = Some (Some (Obj a), Map.empty, h, l)"
      "mods_wf loc (?st\<lparr>md_heap := h, md_list := l\<rparr>) (vs @ [a])"
    using mods_wf_new [OF assms(1) nm assms(5-7,9,10)] by auto
  define st' where "st' = ?st\<lparr>md_heap := h, md_list := l, md_world := w'\<rparr>"
  have none: "find (\<lambda>v. mi_name (the (md_store st v)) = nm) vs = None" using assms(3) by (auto simp: find_None_iff)
  then have "module_exist loc name st = Some False"
    using module_find_name [OF assms(1) nm] assms(2) by (simp add: module_exist_def)
  then have load: "kylin_module_load sys dec loc slot name st = Some (KYLIN_ERROR_INVAL, st')"
    using assms(2,4,5,8,11-13) l(1) by (simp add: kylin_module_load_def md_run_def st'_def)
  have "mods_wf loc st' (vs @ [a])" using l(2) by (simp add: mods_wf_def st'_def)
  moreover have "find (\<lambda>v. mi_name (the (md_store st' v)) = nm) (vs @ [a]) = Some a"
  proof -
    have "find (\<lambda>v. mi_name (the (md_store st' v)) = nm) vs = None"
      using assms(1,3,7) by (auto simp: find_None_iff st'_def mods_wf_def)
    then show ?thesis by (simp add: find_snoc) (simp add: st'_def new_module_def)
  qed
  ultimately have f: "module_find loc nm st' = Some a" using module_find_name nm by force
  then have "kylin_module_load sys dec loc slot name st' = Some (KYLIN_ERROR_EXIST, st')"
    using assms(2,5) by (simp add: kylin_module_load_def module_exist_def)
  moreover have "kylin_module_unload sys loc name st' = None"
    using f assms(2,5) by (simp add: kylin_module_unload_def module_unload_def st'_def new_module_def)
  ultimately show ?thesis using load by blast
qed

theorem kylin_module_load_failed_witness:
  "\<exists>st'. kylin_module_load demo_sys dec_demo 8 None [97, 0] demo_mods = Some (KYLIN_ERROR_INVAL, st')
    \<and> kylin_module_load demo_sys dec_demo 8 None [97, 0] st' = Some (KYLIN_ERROR_EXIST, st') \<and> kylin_module_unload demo_sys 8 [97, 0] st' = None"
proof -
  have "mods_wf 8 demo_mods []" by (auto simp: mods_wf_def demo_mods_def obj_list_def dlist_def list_vals_def)
  moreover have "name_copy [97, 0] = Some (97 # replicate 63 0)" by (simp add: name_copy_def strlen_def)
  ultimately show ?thesis
    using kylin_module_load_failed [of 8 demo_mods "[]" "[97, 0]" "97 # replicate 63 0" demo_sys 64 128 "-1" None None False "()" "[]" "()" dec_demo None]
    by (simp add: demo_sys_def demo_mods_def kylin_elf_create_def)
qed

end
