(* ===== verification/Spec2Isabelle.thy ===== *)
theory Spec2Isabelle
  imports Kylin_Bitmap Kylin_Fifo Kylin_Lifo Kylin_Ring Kylin_Set Kylin_String Kylin_List Kylin_Map Kylin_Index
    Kylin_Timer Kylin_Hash Kylin_Autoid Kylin_Addr Kylin_Shm Kylin_Socktypes Kylin_Poll Kylin_Log
    Kylin_Thread Kylin_Module
begin

text \<open>
  Verification of the kylin core library, a C library of containers, timers and network utilities.

  \<^bold>\<open>The program.\<close> Under lib/core/math are the containers: bitmap, fifo, lifo, ring, set, string,
  list, map, index and red-black tree, each a C file with an opaque guard structure, an options structure
  that the user fills in, and operations on both. All that hold values store a 64-bit \<^verbatim>\<open>kmath_val_t\<close> whose
  meaning depends on a type tag and which kylin_math.h constructs, compares and destroys. The id
  allocator is a client of the bitmap. The timers of lib/core/timer keep their pending timers in one
  red-black tree per clock source. The sockets of lib/core/socket and the event loops of lib/core/event are
  created from a table of registered types and kept in a list; an event loop watches descriptors and calls
  the user's actions for those that are ready. The log of lib/core/log queues messages in rings that a thread
  empties. The threads of lib/core/thread are kept in a red-black tree. The module loader, kylin_core_module.c,
  reads the symbols of object files for the dependencies between modules and opens them with the dynamic linker.
  The shared-memory objects of lib/core/ipc/shm are named segments in a table
  that all processes map. The headers include/utils/kylin_hash.h and kylin_addr.h hold the hash
  function and the arithmetic of network addresses. The rest of the library wraps system calls.

  \<^bold>\<open>How C is modelled.\<close> A structure is a record, an enumeration a datatype or a number, an unsigned
  integer of w bits a w-bit word, so that arithmetic wraps; a buffer is a list of its cells and a linked
  structure a heap from addresses to nodes, with address 0 as the null pointer. Whatever C leaves
  undefined (an access out of bounds, through a null pointer or to released memory, the divide of
  zero) and whatever does not return is \<open>None\<close> of the option monad; what the code returns, error codes
  and null included, is inside \<open>Some\<close>. The result of an allocation (success, or the address) is an
  argument. Loops over an index use the combinators of the prelude; loops that follow pointers are
  partial functions of the option monad, and the theorems prove that they return, so no fuel is needed.

  \<^bold>\<open>The theories.\<close>
  \<^item> \<open>Kylin_Prelude\<close>: machine types, error codes, arrays and buffers with bounds, the loop combinators
    (include/kylin.h, include/utils/kylin_error.h).
  \<^item> \<open>Kylin_Bitops\<close>: bit scans, powers of two and byte swaps (include/arch). The power-of-two test is
    characterised, byte swaps reverse the bytes, rounding up rounds down.
  \<^item> \<open>Kylin_Bitmap\<close>: kylin_bitmap.c. The bit-level meaning of every operation; setting and clearing share
    the locale \<open>masked_write\<close>.
  \<^item> \<open>Kylin_Slices\<close>, \<open>Kylin_Fifo\<close>, \<open>Kylin_Lifo\<close>: kylin_fifo.c and kylin_lifo.c, as instances of the
    interfaces \<open>byte_queue\<close> and \<open>byte_stack\<close>, with the calls for which the code breaks them.
  \<^item> \<open>Kylin_Value\<close>: the values of kylin_math.h.
  \<^item> \<open>Kylin_Ring\<close>: kylin_ring.c as an instance of \<open>value_queue\<close>, and its operations cut at the accesses to
    shared memory as an interleaving of two threads.
  \<^item> \<open>Kylin_Set\<close>, \<open>Kylin_String\<close>: kylin_set.c, a sorted array, and kylin_string.c.
  \<^item> \<open>Kylin_List\<close>: kylin_list.c at the level of its pointers, with the locale \<open>linked_list\<close>.
  \<^item> \<open>Kylin_Hashtable\<close>, \<open>Kylin_Hashtable_Rep\<close>, \<open>Kylin_Hashtable_Iter\<close>: the table of chains that map and index
    share word for word: two tables with incremental rehashing, the representation invariant with its
    preservation by every step, and the walk over all entries.
  \<^item> \<open>Kylin_Dictionary\<close>: the interface \<open>dictionary\<close> and what follows from it for sequences of
    operations. \<open>Kylin_Map\<close> (kylin_map.c) and \<open>Kylin_Index\<close> (kylin_index.c) implement it.
  \<^item> \<open>Kylin_Rb\<close>: the definitions of kylin_rb.c. \<open>Kylin_Rb_Tree\<close> relates a heap to a binary tree and treats
    searches, neighbours, rotations and removals (locale \<open>node_edit\<close>); \<open>Kylin_Rb_Balance\<close> shows that the
    repair after an insertion restores the colour invariant; \<open>Kylin_Rb_Correct\<close> states the properties;
    \<open>Kylin_Rb_Guard\<close> shows that count, minimum and maximum of a tree are never set.
  \<^item> \<open>Kylin_Spinlock\<close>: the spin lock of include/arch. \<open>Kylin_Timer\<close>: kylin_timer.c over the tree: starting
    and stopping one timer, and the failure of the scheduler.
  \<^item> \<open>Kylin_Shm\<close>: the shared-memory objects, kylin_shm.c, kylin_shm_obj.c and kylin_shm_open.c, as an instance of
    the interface \<open>named_segments\<close>.
  \<^item> \<open>Kylin_Memory\<close>: allocation, release and copies of structures in byte memory, and regions of it.
  \<^item> \<open>Kylin_Registry\<close>: the interface \<open>counted_registry\<close> of a table of types that counts the objects made
    from them, and \<open>plugin_table\<close>, the laws of the code's tables of plugins from which it follows.
    \<open>Kylin_Socket\<close> (kylin_socket.c, kylin_socket_plugin.c) and \<open>Kylin_Event\<close> (kylin_event.c,
    kylin_event_plugin.c) implement it; the watched descriptors of an event loop are refined to a list.
  \<^item> \<open>Kylin_Socktypes\<close>: the built-in types of sockets, kylin_socket_tcp.c, kylin_socket_udp.c and kylin_socket_unix.c, over system
    calls that are arguments: creation is complete or leaves nothing, a datagram server answers the sender.
  \<^item> \<open>Kylin_Poll\<close>: the mechanisms of lib/core/event/plugin over system calls that are arguments:
    kylin_poll.c, kylin_epoll.c and kylin_select.c. What the poll loop dispatches is what is ready.
  \<^item> \<open>Kylin_Log\<close>: kylin_log.c, kylin_log_obj.c and kylin_log_buf.c: the tables of loggers, the messages in memory,
    the queue of each log type over the ring, and the thread that prints.
  \<^item> \<open>Kylin_Objtree\<close>: objects of a store that are kept in a red-black tree, as timers and threads are.
    \<open>Kylin_Thread\<close>: kylin_thread.c and kylin_thread_impl.c over it: names stay terminated, and what becomes of a new thread.
  \<^item> \<open>Kylin_Elf\<close>: the reader of object files, kylin_core_module_elf.c: the visit of symbols is a walk over the list of
    the symbols that have a name and a value. \<open>Kylin_Module\<close>: kylin_core_module.c over it: sessions, dependencies, loading
    and unloading; loading a configuration is loading its lines.
  \<^item> \<open>Kylin_Hash\<close>: kylin_hash.h, a hash of bytes and one of words that agree, over an invertible mixing step.
  \<^item> \<open>Kylin_Autoid\<close>: kylin_autoid.c over the bitmap. \<open>Kylin_Addr\<close>: kylin_addr.h, masks, order, broadcast
    addresses, tuples, socket addresses and the parser of hardware addresses.

  \<^bold>\<open>Hypotheses.\<close> The comparisons and hash functions a user passes are arguments; where a property needs
  them to be an order, or equal keys to hash alike, this is a named hypothesis (\<open>rb_lawful\<close>,
  \<open>map_lawful\<close>, \<open>index_lawful\<close>), with an instance in the witness. The linker, the files and the
  POSIX thread calls of modules and threads are parameters that act on a state of their own. The function of three
  arguments with which the address parser looks for a separator is declared nowhere in the repository: it is a parameter of which nothing is assumed. Memory that an allocation returns is apart from what is in use (\<open>fresh_copies\<close> and the
  like), \<open>fd_kernel\<close> is what is documented of opening and closing descriptors, and \<open>epoll_ctl_exist\<close> is the documented answer of the kernel to a descriptor it knows.

  \<^bold>\<open>Bounds.\<close> Counters of type \<^verbatim>\<open>int\<close> and \<^verbatim>\<open>int32_t\<close> that run over a table or an array are undefined past \<open>2 ^ 31 - 1\<close> (\<open>int_find\<close>,
  \<open>int_for\<close>, \<open>idx_after\<close>). The invariant of a set bounds its capacity by it, and the invariant of the hash tables the table that is being
  moved; that table is not larger than a sixth of its entries, of which there are fewer than \<open>2 ^ 32\<close>, so that growth never violates it. The iteration
  over a dictionary has the bound of both tables as a condition.

  \<^bold>\<open>What does not hold.\<close> Several operations do not do what they are meant to; the development proves
  what they do instead, each in the theory of its component: among them a bitmap range that ends inside a
  word after crossing one, a fifo filled exactly, the order of publication in the ring, integer keys,
  which never compare equal, the insertion into the red-black tree, which drops the tree, the removal of a
  node with two children, the scheduler of the timers, which fires none and keeps its locks, the
  initialisation of the sockets, which unregisters the Unix client, the destruction of a shared segment
  that nobody has open, a poll of the same descriptor twice, which overruns its array, the creation of a
  select loop, which always fails, a descriptor watched for reading and writing with epoll, the creation of a thread and the acceptance
  of a connection, whose tests are inverted, the dump of a symbol of an unknown type, and
  a module that could not be loaded, which stays in the list. Loading a module writes through a pointer that
  was never set; what it points to is an argument of the model.

  \<^bold>\<open>Not modelled.\<close> The mechanism for kqueue and the printing functions of the default
  loggers are wrappers around system calls or formatted output, and parameters of the model. Unix-socket
  messages and the debug console use system calls or formatted output throughout. The intrusive list and tree macros are copies of the BSD headers that
  no modelled code uses. Atomics, vector copies and processor flags are inline assembly. Skip list, quick
  list, zip list and trie have no operation in the source. The repair after the removal of a
  black node of the red-black tree is defined and exercised only through the removal of red and of single nodes.
\<close>

end
